(* ===== verification/Prelude.thy ===== *)
theory Prelude
  imports Main "HOL-Library.Word"
begin

unbundle bit_operations_syntax

text \<open>
  The shared vocabulary of the development.

  \<^item> Fallible code returns a value of \<open>'e + 'a\<close>: \<open>Inl e\<close> is the exception that \<open>EOS_ASSERT\<close> or
    \<open>eosio_assert\<close> raises (it undoes the whole transaction), \<open>Inr x\<close> a normal return.
    \<open>chk\<close>, \<open>bnd\<close> and \<open>need\<close> are an assertion, sequencing, and a lookup that must succeed;
    \<open>for_each\<close> is a loop over a container whose body may fail.
  \<^item> Machine integers that are only added, subtracted, multiplied and compared are integers with
    the conversion to the C++ type written out: \<open>u32\<close>, \<open>u64\<close>, \<open>u128\<close>, \<open>s32\<close>, \<open>s64\<close>, \<open>s128\<close>
    reduce a value to the range of \<open>uint32_t\<close>, and so on. Code that works on bits uses
    \<open>'a word\<close>. C++ division truncates towards zero: \<open>tdiv\<close>.
\<close>

named_theorems res_simps \<open>when a fallible computation succeeds\<close>
named_theorems wrap_simps \<open>conversions to machine integers, unfolded\<close>

subsection \<open>Fallible computations\<close>

fun chk :: "bool \<Rightarrow> 'e \<Rightarrow> 'e + 'a \<Rightarrow> 'e + 'a" where
  "chk True e k = k"
| "chk False e k = Inl e"

fun bnd :: "'e + 'a \<Rightarrow> ('a \<Rightarrow> 'e + 'b) \<Rightarrow> 'e + 'b" where
  "bnd (Inl e) f = Inl e"
| "bnd (Inr x) f = f x"

fun need :: "'a option \<Rightarrow> 'e \<Rightarrow> ('a \<Rightarrow> 'e + 'b) \<Rightarrow> 'e + 'b" where
  "need None e f = Inl e"
| "need (Some x) e f = f x"

fun for_each :: "('a \<Rightarrow> 's \<Rightarrow> 'e + 's) \<Rightarrow> 'a list \<Rightarrow> 's \<Rightarrow> 'e + 's" where
  "for_each f [] s = Inr s"
| "for_each f (x # xs) s = bnd (f x s) (\<lambda>s'. for_each f xs s')"

lemma chk_Inr [res_simps]: "chk b e k = Inr x \<longleftrightarrow> b \<and> k = Inr x"
  by (cases b) simp_all

lemma chk_Inl [res_simps]: "chk b e k = Inl x \<longleftrightarrow> (\<not> b \<and> e = x) \<or> (b \<and> k = Inl x)"
  by (cases b) simp_all

lemma bnd_Inr [res_simps]: "bnd m f = Inr y \<longleftrightarrow> (\<exists>x. m = Inr x \<and> f x = Inr y)"
  by (cases m) simp_all

lemma bnd_Inl [res_simps]: "bnd m f = Inl e \<longleftrightarrow> m = Inl e \<or> (\<exists>x. m = Inr x \<and> f x = Inl e)"
  by (cases m) simp_all

lemma need_Inr [res_simps]: "need m e f = Inr y \<longleftrightarrow> (\<exists>x. m = Some x \<and> f x = Inr y)"
  by (cases m) simp_all

lemma need_Inl [res_simps]:
  "need m e f = Inl y \<longleftrightarrow> (m = None \<and> e = y) \<or> (\<exists>x. m = Some x \<and> f x = Inl y)"
  by (cases m) simp_all

lemma bnd_cong [fundef_cong]:
  "m = m' \<Longrightarrow> (\<And>x. m' = Inr x \<Longrightarrow> f x = f' x) \<Longrightarrow> bnd m f = bnd m' f'"
  by (cases m') simp_all

lemma chk_cong [fundef_cong]:
  "b = b' \<Longrightarrow> e = e' \<Longrightarrow> (b' \<Longrightarrow> k = k') \<Longrightarrow> chk b e k = chk b' e' k'"
  by (cases b') simp_all

lemma need_cong [fundef_cong]:
  "m = m' \<Longrightarrow> e = e' \<Longrightarrow> (\<And>x. m' = Some x \<Longrightarrow> f x = f' x) \<Longrightarrow> need m e f = need m' e' f'"
  by (cases m') simp_all

text \<open>A loop whose body keeps an invariant keeps it.\<close>

lemma for_each_inv:
  assumes "for_each f xs s = Inr s'" and "P s"
    and "\<And>x t t'. x \<in> set xs \<Longrightarrow> P t \<Longrightarrow> f x t = Inr t' \<Longrightarrow> P t'"
  shows "P s'"
  using assms by (induction xs arbitrary: s) (auto simp: res_simps)

lemma for_each_append:
  "for_each f (xs @ ys) s = bnd (for_each f xs s) (for_each f ys)"
proof (induction xs arbitrary: s)
  case Nil
  then show ?case by simp
next
  case (Cons x xs)
  then show ?case by (cases "f x s") simp_all
qed

subsection \<open>Machine integers\<close>

definition u8 :: "int \<Rightarrow> int" where "u8 x = x mod 256"
definition u16 :: "int \<Rightarrow> int" where "u16 x = x mod 65536"
definition u32 :: "int \<Rightarrow> int" where "u32 x = x mod 4294967296"
definition u64 :: "int \<Rightarrow> int" where "u64 x = x mod 18446744073709551616"
definition u128 :: "int \<Rightarrow> int" where "u128 x = x mod 340282366920938463463374607431768211456"

definition s32 :: "int \<Rightarrow> int" where
  "s32 x = (x + 2147483648) mod 4294967296 - 2147483648"
definition s64 :: "int \<Rightarrow> int" where
  "s64 x = (x + 9223372036854775808) mod 18446744073709551616 - 9223372036854775808"
definition s128 :: "int \<Rightarrow> int" where
  "s128 x = (x + 170141183460469231731687303715884105728)
     mod 340282366920938463463374607431768211456 - 170141183460469231731687303715884105728"

lemmas wrap_defs [wrap_simps] =
  u8_def u16_def u32_def u64_def u128_def s32_def s64_def s128_def

text \<open>\<open>UINT64_MAX\<close> and the range of \<open>int64_t\<close>.\<close>

definition UINT64_MAX :: int where "UINT64_MAX = 18446744073709551615"
definition UINT32_MAX :: int where "UINT32_MAX = 4294967295"
definition INT64_MAX :: int where "INT64_MAX = 9223372036854775807"
definition INT64_MIN :: int where "INT64_MIN = - 9223372036854775808"

lemma u32_id: "0 \<le> x \<Longrightarrow> x \<le> UINT32_MAX \<Longrightarrow> u32 x = x"
  by (simp add: u32_def UINT32_MAX_def)

lemma u64_id: "0 \<le> x \<Longrightarrow> x \<le> UINT64_MAX \<Longrightarrow> u64 x = x"
  by (simp add: u64_def UINT64_MAX_def)

lemma s64_id: "INT64_MIN \<le> x \<Longrightarrow> x \<le> INT64_MAX \<Longrightarrow> s64 x = x"
  by (simp add: s64_def INT64_MIN_def INT64_MAX_def)

lemma u32_range [simp]: "0 \<le> u32 x" "u32 x \<le> UINT32_MAX" "u32 x < 4294967296"
  by (simp_all add: u32_def UINT32_MAX_def)

lemma u64_range [simp]: "0 \<le> u64 x" "u64 x \<le> UINT64_MAX" "u64 x < 18446744073709551616"
  by (simp_all add: u64_def UINT64_MAX_def)

lemma u128_id: "0 \<le> x \<Longrightarrow> x < 340282366920938463463374607431768211456 \<Longrightarrow> u128 x = x"
  by (simp add: u128_def)

lemma u128_range [simp]: "0 \<le> u128 x" "u128 x < 340282366920938463463374607431768211456"
  by (simp_all add: u128_def)

text \<open>C++ division of integers truncates towards zero. The divisor is non-zero wherever it is
  used: the code checks it, or the machine traps.\<close>

definition tdiv :: "int \<Rightarrow> int \<Rightarrow> int" where
  "tdiv a b = sgn a * sgn b * (\<bar>a\<bar> div \<bar>b\<bar>)"

lemma tdiv_nonneg [simp]: "0 \<le> a \<Longrightarrow> 0 < b \<Longrightarrow> tdiv a b = a div b"
  by (cases "a = 0") (simp_all add: tdiv_def)

lemma tdiv_zero_left [simp]: "tdiv 0 b = 0"
  by (simp add: tdiv_def)

lemma abs_tdiv: "0 < b \<Longrightarrow> \<bar>tdiv a b\<bar> = \<bar>a\<bar> div b"
  by (cases "a = 0") (simp_all add: tdiv_def abs_mult abs_sgn_eq pos_imp_zdiv_nonneg_iff)

lemma tdiv_le_self: "0 < b \<Longrightarrow> \<bar>tdiv a b\<bar> \<le> \<bar>a\<bar>"
  using zdiv_mono2 [of "\<bar>a\<bar>" 1 b] by (simp add: abs_tdiv)

text \<open>The size an object is billed for (\<open>billable_size_v\<close> of \<open>config.hpp.in\<close>): its own size rounded up to a multiple of 16.\<close>

definition billable_size_v :: "int \<Rightarrow> int" where
  "billable_size_v n = (n + 16 - 1) div 16 * 16"

subsection \<open>Runs\<close>

text \<open>
  A component as a transition system: an operation either fails, and then leaves the state as it was (the
  transaction is undone), or gives a new state. An invariant that every operation keeps holds after every
  sequence of operations.
\<close>

definition apply_action :: "('a \<Rightarrow> 's \<Rightarrow> 'e + 's) \<Rightarrow> 'a \<Rightarrow> 's \<Rightarrow> 's" where
  "apply_action exec a s = (case exec a s of Inl e \<Rightarrow> s | Inr s' \<Rightarrow> s')"

definition run_actions :: "('a \<Rightarrow> 's \<Rightarrow> 'e + 's) \<Rightarrow> 'a list \<Rightarrow> 's \<Rightarrow> 's" where
  "run_actions exec as s = fold (apply_action exec) as s"

locale action_system =
  fixes exec :: "'a \<Rightarrow> 's \<Rightarrow> 'e + 's"
    and Inv :: "'s \<Rightarrow> bool"
    and admissible :: "'a \<Rightarrow> bool"
  assumes exec_inv: "Inv s \<Longrightarrow> admissible a \<Longrightarrow> exec a s = Inr s' \<Longrightarrow> Inv s'"
begin

lemma apply_inv: "Inv s \<Longrightarrow> admissible a \<Longrightarrow> Inv (apply_action exec a s)"
  by (auto simp: apply_action_def split: sum.split intro: exec_inv)

lemma run_inv: "Inv s \<Longrightarrow> list_all admissible as \<Longrightarrow> Inv (run_actions exec as s)"
  unfolding run_actions_def by (induction as arbitrary: s) (auto intro: apply_inv)

end

end
