(* ===== verification/Merkle.thy ===== *)
theory Merkle
  imports Prelude
begin

unbundle bit_operations_syntax

text \<open>
  Merkle roots (\<open>libraries/chain/merkle.cpp\<close>) and the incremental Merkle tree of block ids
  (\<open>libraries/chain/include/eosio/chain/incremental_merkle.hpp\<close>). The main result: after any sequence
  of appends, the root that the incremental tree keeps is the Merkle root of the appended digests, computed
  from scratch. The hash function (SHA-256 of the serialised pair) is a parameter.
\<close>

subsection \<open>Digests\<close>

text \<open>\<open>digest_type\<close> is an \<open>fc::sha256\<close>: four 64-bit words.\<close>

datatype digest = Digest (hash0: "64 word") (hash1: "64 word") (hash2: "64 word") (hash3: "64 word")

definition zero_digest :: digest where "zero_digest = Digest 0 0 0 0"

fun make_canonical_left :: "digest \<Rightarrow> digest" where
  "make_canonical_left (Digest a b c d) = Digest (a AND 0xFFFFFFFFFFFFFF7F) b c d"

fun make_canonical_right :: "digest \<Rightarrow> digest" where
  "make_canonical_right (Digest a b c d) = Digest (a OR 0x80) b c d"

definition is_canonical_left :: "digest \<Rightarrow> bool" where
  "is_canonical_left v \<longleftrightarrow> hash0 v AND 0x80 = 0"

definition is_canonical_right :: "digest \<Rightarrow> bool" where
  "is_canonical_right v \<longleftrightarrow> hash0 v AND 0x80 \<noteq> 0"

definition make_canonical_pair :: "digest \<Rightarrow> digest \<Rightarrow> digest \<times> digest" where
  "make_canonical_pair l r = (make_canonical_left l, make_canonical_right r)"

text \<open>\<open>digest_type::hash(make_canonical_pair(l, r))\<close>.\<close>

definition merkle_node :: "(digest \<times> digest \<Rightarrow> digest) \<Rightarrow> digest \<Rightarrow> digest \<Rightarrow> digest" where
  "merkle_node hash l r = hash (make_canonical_pair l r)"

subsection \<open>The Merkle root of a list\<close>

text \<open>One round of the \<open>while\<close> loop of \<open>merkle\<close>, which works in place.\<close>

definition merkle_pad :: "digest list \<Rightarrow> digest list" where
  "merkle_pad ids = (if length ids mod 2 \<noteq> 0 then ids @ [last ids] else ids)"

definition merkle_round :: "(digest \<times> digest \<Rightarrow> digest) \<Rightarrow> digest list \<Rightarrow> digest list" where
  "merkle_round hash ids =
     (let ids1 = merkle_pad ids;
          ids2 = fold (\<lambda>i xs. xs[i := merkle_node hash (xs ! (2 * i)) (xs ! (2 * i + 1))]) [0..<length ids1 div 2] ids1
      in take (length ids2 div 2) ids2)"

lemma length_merkle_pad: "length (merkle_pad ids) = length ids + length ids mod 2"
  by (simp add: merkle_pad_def mod_2_eq_odd)

lemma length_fold_update: "length (fold (\<lambda>i xs. xs[i := f i xs]) is xs) = length xs"
  by (induction "is" arbitrary: xs) simp_all

lemma length_merkle_round: "length (merkle_round hash ids) = (length ids + 1) div 2"
  by (cases "even (length ids)") (simp_all add: merkle_round_def Let_def length_fold_update length_merkle_pad mod_2_eq_odd)

function merkle_loop :: "(digest \<times> digest \<Rightarrow> digest) \<Rightarrow> digest list \<Rightarrow> digest list" where
  "merkle_loop hash ids = (if length ids > 1 then merkle_loop hash (merkle_round hash ids) else ids)"
  by auto
termination
  by (relation "measure (\<lambda>(hash, ids). length ids)") (auto simp: length_merkle_round)

definition merkle :: "(digest \<times> digest \<Rightarrow> digest) \<Rightarrow> digest list \<Rightarrow> digest" where
  "merkle hash ids = (if length ids = 0 then zero_digest else hd (merkle_loop hash ids))"

subsection \<open>The incremental tree\<close>

definition next_power_of_2 :: "64 word \<Rightarrow> 64 word" where
  "next_power_of_2 v0 =
     (let v = v0 - 1;
          v = v OR drop_bit 1 v;
          v = v OR drop_bit 2 v;
          v = v OR drop_bit 4 v;
          v = v OR drop_bit 8 v;
          v = v OR drop_bit 16 v;
          v = v OR drop_bit 32 v
      in v + 1)"

definition clz_power_2 :: "64 word \<Rightarrow> int" where
  "clz_power_2 v =
     64 - (if v \<noteq> 0 then 1 else 0)
        - (if v AND 0x00000000FFFFFFFF \<noteq> 0 then 32 else 0)
        - (if v AND 0x0000FFFF0000FFFF \<noteq> 0 then 16 else 0)
        - (if v AND 0x00FF00FF00FF00FF \<noteq> 0 then 8 else 0)
        - (if v AND 0x0F0F0F0F0F0F0F0F \<noteq> 0 then 4 else 0)
        - (if v AND 0x3333333333333333 \<noteq> 0 then 2 else 0)
        - (if v AND 0x5555555555555555 \<noteq> 0 then 1 else 0)"

definition calcluate_max_depth :: "64 word \<Rightarrow> int" where
  "calcluate_max_depth node_count =
     (if node_count = 0 then 0 else clz_power_2 (next_power_of_2 node_count) + 1)"

record incremental_merkle =
  node_count :: "64 word"
  active_nodes :: "digest list"

definition empty_merkle :: incremental_merkle where
  "empty_merkle = \<lparr>node_count = 0, active_nodes = []\<rparr>"

text \<open>
  The loop of \<open>append\<close>, with the depth that is left, the index, \<open>partial\<close>, \<open>top\<close>, the old active nodes
  from \<open>active_iter\<close> on, and the new ones. Reading past the last active node is undefined: \<open>None\<close>.
\<close>

fun append_loop ::
  "(digest \<times> digest \<Rightarrow> digest) \<Rightarrow> nat \<Rightarrow> 64 word \<Rightarrow> bool \<Rightarrow> digest \<Rightarrow> digest list \<Rightarrow> digest list \<Rightarrow>
     (digest \<times> digest list) option" where
  "append_loop hash 0 index partial tp active updated = Some (tp, updated)"
| "append_loop hash (Suc depth) index partial tp active updated =
     (if index AND 1 = 0
      then append_loop hash depth (drop_bit 1 index) True (merkle_node hash tp tp) active
             (if \<not> partial then updated @ [tp] else updated)
      else (case active of
              [] \<Rightarrow> None
            | left # active' \<Rightarrow>
                append_loop hash depth (drop_bit 1 index) partial (merkle_node hash left tp) active'
                  (if partial then updated @ [left] else updated)))"

definition merkle_append ::
  "(digest \<times> digest \<Rightarrow> digest) \<Rightarrow> incremental_merkle \<Rightarrow> digest \<Rightarrow> incremental_merkle option" where
  "merkle_append hash m digest =
     (let max_depth = calcluate_max_depth (node_count m + 1) in
      map_option (\<lambda>(tp, updated). \<lparr>node_count = node_count m + 1, active_nodes = updated @ [tp]\<rparr>)
        (append_loop hash (nat (max_depth - 1)) (node_count m) False digest (active_nodes m) []))"

definition get_root :: "incremental_merkle \<Rightarrow> digest" where
  "get_root m = (if node_count m > 0 then last (active_nodes m) else zero_digest)"

text \<open>Appending a list of digests, one after the other.\<close>

fun append_all ::
  "(digest \<times> digest \<Rightarrow> digest) \<Rightarrow> incremental_merkle \<Rightarrow> digest list \<Rightarrow> incremental_merkle option" where
  "append_all hash m [] = Some m"
| "append_all hash m (d # ds) = Option.bind (merkle_append hash m d) (\<lambda>m'. append_all hash m' ds)"

declare merkle_loop.simps [simp del]

subsection \<open>Rounds of the Merkle computation\<close>

text \<open>The nodes of the next level: complete pairs only, and with the last node duplicated.\<close>

fun merkle_pairs :: "('d \<Rightarrow> 'd \<Rightarrow> 'd) \<Rightarrow> 'd list \<Rightarrow> 'd list" where
  "merkle_pairs h (x # y # zs) = h x y # merkle_pairs h zs"
| "merkle_pairs h zs = []"

lemma length_pairs: "length (merkle_pairs h xs) = length xs div 2"
  by (induction h xs rule: merkle_pairs.induct) auto

lemma nth_pairs: "i < length xs div 2 \<Longrightarrow> merkle_pairs h xs ! i = h (xs ! (2 * i)) (xs ! (2 * i + 1))"
proof (induction h xs arbitrary: i rule: merkle_pairs.induct)
  case (1 h x y zs)
  then show ?case by (cases i) auto
qed auto

lemma fold_update_pairs:
  assumes "k \<le> length xs div 2"
  shows "fold (\<lambda>i ys. ys[i := h (ys ! (2 * i)) (ys ! (2 * i + 1))]) [0..<k] xs =
     map (\<lambda>i. h (xs ! (2 * i)) (xs ! (2 * i + 1))) [0..<k] @ drop k xs"
  using assms
proof (induction k)
  case (Suc k)
  let ?m = "map (\<lambda>i. h (xs ! (2 * i)) (xs ! (2 * i + 1))) [0..<k]"
  have len: "k < length xs" "2 * k + 1 < length xs" using Suc(2) by auto
  then have d: "drop k xs = xs ! k # drop (Suc k) xs" by (simp add: Cons_nth_drop_Suc)
  have "(?m @ drop k xs) ! (2 * k) = xs ! (2 * k)" "(?m @ drop k xs) ! (2 * k + 1) = xs ! (2 * k + 1)"
    using len by (auto simp: nth_append mult_2)
  then show ?case
    using Suc by (simp add: d list_update_append)
qed simp

definition level_up :: "('d \<Rightarrow> 'd \<Rightarrow> 'd) \<Rightarrow> 'd list \<Rightarrow> 'd list" where
  "level_up h xs = merkle_pairs h (if odd (length xs) then xs @ [last xs] else xs)"

lemma merkle_round_level_up: "merkle_round hash ids = level_up (merkle_node hash) ids"
proof -
  let ?p = "merkle_pad ids"
  have "merkle_round hash ids = map (\<lambda>i. merkle_node hash (?p ! (2 * i)) (?p ! (2 * i + 1))) [0..<length ?p div 2]"
    unfolding merkle_round_def Let_def by (subst (1 2) fold_update_pairs) simp_all
  also have "\<dots> = merkle_pairs (merkle_node hash) ?p"
    by (rule nth_equalityI) (simp_all add: length_pairs nth_pairs)
  finally show ?thesis
    by (simp add: level_up_def merkle_pad_def mod_2_eq_odd)
qed

text \<open>Appending one node to a level whose complete nodes are \<open>ys\<close>.\<close>

lemma pairs_append_even: "even (length ys) \<Longrightarrow> merkle_pairs h (ys @ zs) = merkle_pairs h ys @ merkle_pairs h zs"
  by (induction h ys rule: merkle_pairs.induct) auto

lemma pairs_snoc:
  assumes "odd (length ys)"
  shows "merkle_pairs h (ys @ [x]) = merkle_pairs h ys @ [h (last ys) x]"
proof -
  obtain as a where ys: "ys = as @ [a]" using assms by (cases ys rule: rev_cases) auto
  then have "even (length as)" using assms by simp
  then show ?thesis by (simp add: ys pairs_append_even)
qed

lemma pairs_snoc_even: "even (length ys) \<Longrightarrow> merkle_pairs h (ys @ [x]) = merkle_pairs h ys"
  by (simp add: pairs_append_even)

lemma level_up_snoc:
  "level_up h (ys @ [x]) = merkle_pairs h ys @ [if even (length ys) then h x x else h (last ys) x]"
  by (simp add: level_up_def pairs_append_even pairs_snoc)

subsection \<open>The active nodes\<close>

text \<open>The complete subtrees of a list of nodes, from the smallest to the largest.\<close>

function complete_nodes :: "('d \<Rightarrow> 'd \<Rightarrow> 'd) \<Rightarrow> 'd list \<Rightarrow> 'd list" where
  "complete_nodes h xs =
     (if xs = [] then [] else (if odd (length xs) then [last xs] else []) @ complete_nodes h (merkle_pairs h xs))"
  by auto
termination
  by (relation "measure (\<lambda>(h, xs). length xs)") (auto simp: length_pairs)

declare complete_nodes.simps [simp del]

lemma complete_nodes_Nil [simp]: "complete_nodes h [] = []"
  by (simp add: complete_nodes.simps)

lemma complete_nodes_even: "even (length xs) \<Longrightarrow> complete_nodes h xs = complete_nodes h (merkle_pairs h xs)"
  by (subst complete_nodes.simps) auto

lemma complete_nodes_odd: "odd (length xs) \<Longrightarrow> complete_nodes h xs = last xs # complete_nodes h (merkle_pairs h xs)"
  by (subst complete_nodes.simps) auto

text \<open>The number of rounds: \<open>levels d n\<close> when \<open>d\<close> rounds reduce \<open>n + 1\<close> nodes to one, and no fewer do.\<close>

definition levels :: "nat \<Rightarrow> nat \<Rightarrow> bool" where
  "levels d n \<longleftrightarrow> n < 2 ^ d \<and> (0 < d \<longrightarrow> 2 ^ (d - 1) \<le> n)"

lemma levels_0: "levels 0 n \<longleftrightarrow> n = 0"
  by (simp add: levels_def)

lemma levels_Suc: "levels (Suc d) n \<Longrightarrow> 0 < n \<and> levels d (n div 2)"
  by (cases d) (auto simp: levels_def)

definition merkle_root :: "(digest \<times> digest \<Rightarrow> digest) \<Rightarrow> digest list \<Rightarrow> digest" where
  "merkle_root hash xs = hd (merkle_loop hash xs)"

lemma root_single: "merkle_root hash [x] = x"
  by (simp add: merkle_root_def merkle_loop.simps)

lemma root_snoc:
  assumes "ys \<noteq> []"
  shows "merkle_root hash (ys @ [x]) =
    merkle_root hash (merkle_pairs (merkle_node hash) ys @ [if even (length ys) then merkle_node hash x x else merkle_node hash (last ys) x])"
  unfolding merkle_root_def using assms
  by (subst merkle_loop.simps) (simp add: merkle_round_level_up level_up_snoc)

lemma index_even: "index AND 1 = (0 :: 64 word) \<longleftrightarrow> even (unat index)"
  using unat_mod_distrib [of index 2] by (simp only: and_one_eq) (auto simp: word_unat_eq_iff even_iff_mod_2_eq_zero)

lemma append_loop_partial:
  assumes "levels d (length ys)" "unat index = length ys"
  shows "append_loop hash d index True x (complete_nodes (merkle_node hash) ys @ rest) acc =
    Some (merkle_root hash (ys @ [x]), acc @ complete_nodes (merkle_node hash) ys)"
  using assms
proof (induction d arbitrary: ys index x acc)
  case 0
  then show ?case by (simp add: levels_0 root_single)
next
  case (Suc d)
  let ?h = "merkle_node hash"
  have ne: "ys \<noteq> []" and l: "levels d (length (merkle_pairs ?h ys))"
    using levels_Suc [OF Suc(2)] by (auto simp: length_pairs)
  have i: "unat (drop_bit 1 index) = length (merkle_pairs ?h ys)"
    using Suc(3) by (simp add: length_pairs drop_bit_eq_div unat_div_distrib)
  show ?case
    using Suc.IH [OF l i] Suc(3) ne
    by (cases "even (length ys)") (simp_all add: index_even root_snoc complete_nodes_even complete_nodes_odd)
qed

lemma append_loop_full:
  assumes "levels d (length ys)" "unat index = length ys"
  shows "append_loop hash d index False x (complete_nodes (merkle_node hash) ys @ rest) acc =
    Some (merkle_root hash (ys @ [x]), acc @ (if 2 ^ d = length ys + 1 then [] else complete_nodes (merkle_node hash) (ys @ [x]))) \<and>
   (2 ^ d = length ys + 1 \<longrightarrow> complete_nodes (merkle_node hash) (ys @ [x]) = [merkle_root hash (ys @ [x])])"
  using assms
proof (induction d arbitrary: ys index x)
  case 0
  then show ?case by (simp add: levels_0 root_single complete_nodes_odd)
next
  case (Suc d)
  let ?h = "merkle_node hash"
  have ne: "ys \<noteq> []" and l: "levels d (length (merkle_pairs ?h ys))"
    using levels_Suc [OF Suc(2)] by (auto simp: length_pairs)
  have i: "unat (drop_bit 1 index) = length (merkle_pairs ?h ys)"
    using Suc(3) by (simp add: length_pairs drop_bit_eq_div unat_div_distrib)
  show ?case
  proof (cases "even (length ys)")
    case True
    then have "2 ^ Suc d \<noteq> length ys + 1" by (metis even_Suc even_numeral even_power Suc_eq_plus1 zero_less_Suc)
    then show ?thesis
      using append_loop_partial [OF l i] Suc(3) ne True
      by (simp add: index_even root_snoc complete_nodes_even complete_nodes_odd pairs_append_even)
  next
    case False
    then have "2 ^ Suc d = length ys + 1 \<longleftrightarrow> 2 ^ d = length (merkle_pairs ?h ys) + 1" by (auto simp: length_pairs elim!: oddE)
    then show ?thesis
      using Suc.IH [OF l i] Suc(3) ne False
      by (simp add: index_even root_snoc complete_nodes_odd complete_nodes_even pairs_snoc)
  qed
qed

subsection \<open>The depth computation\<close>

lemma bit_smear:
  assumes "\<And>j. bit w j \<longleftrightarrow> (\<exists>i < m. bit v (j + i))"
  shows "bit (w OR drop_bit m w) j \<longleftrightarrow> (\<exists>i < 2 * m. bit (v :: 64 word) (j + i))"
proof -
  have "(\<exists>i < 2 * m. bit v (j + i)) \<longleftrightarrow> (\<exists>i < m. bit v (j + i)) \<or> (\<exists>i < m. bit v (m + j + i))"
  proof
    assume "\<exists>i < 2 * m. bit v (j + i)"
    then obtain i where i: "i < 2 * m" "bit v (j + i)" by blast
    show "(\<exists>i < m. bit v (j + i)) \<or> (\<exists>i < m. bit v (m + j + i))"
    proof (cases "i < m")
      case False
      then have "bit v (m + j + (i - m))" "i - m < m" using i by (simp_all add: ac_simps)
      then show ?thesis by blast
    qed (use i in blast)
  next
    assume "(\<exists>i < m. bit v (j + i)) \<or> (\<exists>i < m. bit v (m + j + i))"
    then show "\<exists>i < 2 * m. bit v (j + i)"
    proof
      assume "\<exists>i < m. bit v (m + j + i)"
      then obtain i where "i < m" "bit v (j + (m + i))" by (auto simp: ac_simps)
      then show ?thesis by (intro exI [of _ "m + i"]) auto
    next
      assume "\<exists>i < m. bit v (j + i)"
      then obtain i where "i < m" "bit v (j + i)" by blast
      then show ?thesis by (intro exI [of _ i]) auto
    qed
  qed
  then show ?thesis by (auto simp: bit_or_iff bit_drop_bit_eq assms)
qed

definition bit_length :: "64 word \<Rightarrow> nat" where
  "bit_length v = (LEAST l. \<forall>j \<ge> l. \<not> bit v j)"

lemma bit_length_props: "(\<forall>j \<ge> bit_length v. \<not> bit v j) \<and> (0 < bit_length v \<longrightarrow> bit v (bit_length v - 1)) \<and> bit_length v \<le> 64"
proof -
  have P: "\<forall>j \<ge> (64 :: nat). \<not> bit v j" using bit_imp_le_length [of v] by fastforce
  have a: "\<forall>j \<ge> bit_length v. \<not> bit v j" unfolding bit_length_def by (rule LeastI) (rule P)
  have b: "bit_length v \<le> 64" unfolding bit_length_def by (rule Least_le) (rule P)
  have "bit v (bit_length v - 1)" if "0 < bit_length v"
  proof (rule ccontr)
    assume n: "\<not> bit v (bit_length v - 1)"
    have "\<forall>j \<ge> bit_length v - 1. \<not> bit v j"
    proof (intro allI impI)
      fix j assume "bit_length v - 1 \<le> j"
      then show "\<not> bit v j" using a n by (cases "j = bit_length v - 1") auto
    qed
    then have "bit_length v \<le> bit_length v - 1" unfolding bit_length_def by (rule Least_le)
    then show False using that by simp
  qed
  with a b show ?thesis by blast
qed

lemma smear_mask:
  fixes w v :: "64 word"
  assumes "\<And>j. bit w j \<longleftrightarrow> (\<exists>i < 64. bit v (j + i))"
  shows "w = mask (bit_length v)"
proof (rule bit_word_eqI)
  fix j assume "j < LENGTH(64)"
  have "(\<exists>i < 64. bit v (j + i)) \<longleftrightarrow> j < bit_length v"
  proof
    assume "\<exists>i < 64. bit v (j + i)"
    then obtain i where "bit v (j + i)" by blast
    then show "j < bit_length v" using bit_length_props [of v] by (metis linorder_not_less le_add1 order_trans)
  next
    assume j: "j < bit_length v"
    then have "bit v (j + (bit_length v - 1 - j))" "bit_length v - 1 - j < 64" using bit_length_props [of v] by auto
    then show "\<exists>i < 64. bit v (j + i)" by blast
  qed
  then show "bit w j = bit (mask (bit_length v) :: 64 word) j"
    using assms \<open>j < LENGTH(64)\<close> by (simp add: bit_mask_iff)
qed

lemma next_power_of_2_eq: "next_power_of_2 v = 2 ^ bit_length (v - 1)"
proof -
  define u where "u = v - 1"
  define w1 where "w1 = u OR drop_bit 1 u"
  define w2 where "w2 = w1 OR drop_bit 2 w1"
  define w4 where "w4 = w2 OR drop_bit 4 w2"
  define w8 where "w8 = w4 OR drop_bit 8 w4"
  define w16 where "w16 = w8 OR drop_bit 16 w8"
  define w32 where "w32 = w16 OR drop_bit 32 w16"
  have "bit u j \<longleftrightarrow> (\<exists>i < 1. bit u (j + i))" for j by simp
  from bit_smear [OF this] have "bit w1 j \<longleftrightarrow> (\<exists>i < 2. bit u (j + i))" for j by (simp add: w1_def)
  from bit_smear [OF this] have "bit w2 j \<longleftrightarrow> (\<exists>i < 4. bit u (j + i))" for j by (simp add: w2_def)
  from bit_smear [OF this] have "bit w4 j \<longleftrightarrow> (\<exists>i < 8. bit u (j + i))" for j by (simp add: w4_def)
  from bit_smear [OF this] have "bit w8 j \<longleftrightarrow> (\<exists>i < 16. bit u (j + i))" for j by (simp add: w8_def)
  from bit_smear [OF this] have "bit w16 j \<longleftrightarrow> (\<exists>i < 32. bit u (j + i))" for j by (simp add: w16_def)
  from bit_smear [OF this] have "bit w32 j \<longleftrightarrow> (\<exists>i < 64. bit u (j + i))" for j by (simp add: w32_def)
  then have "w32 = mask (bit_length u)" by (rule smear_mask)
  then show ?thesis
    by (simp add: next_power_of_2_def Let_def u_def w1_def w2_def w4_def w8_def w16_def w32_def mask_eq_exp_minus_1)
qed

lemma clz_power_2_eq: "k < 64 \<Longrightarrow> clz_power_2 (2 ^ k) = int k"
proof -
  assume "k < 64"
  then have "k \<in> set [0..<64]" by simp
  then show ?thesis
    by (simp add: upt_rec) (elim disjE; simp add: clz_power_2_def)
qed

lemma levels_bit_length: "levels (bit_length v) (unat v)"
proof -
  have "take_bit (bit_length v) v = v"
    using bit_length_props [of v] by (intro bit_word_eqI) (metis bit_take_bit_iff linorder_not_less)
  then have "unat v < 2 ^ bit_length v"
    by (metis take_bit_nat_less_exp unsigned_take_bit_eq)
  moreover have "2 ^ (bit_length v - 1) \<le> unat v" if "0 < bit_length v"
  proof (rule ccontr)
    assume "\<not> 2 ^ (bit_length v - 1) \<le> unat v"
    then have "take_bit (bit_length v - 1) (unat v) = unat v" by (simp add: take_bit_nat_eq_self)
    then have "\<not> bit (unat v) (bit_length v - 1)" by (metis bit_take_bit_iff less_irrefl)
    then show False using bit_length_props [of v] that by (simp add: bit_unsigned_iff)
  qed
  ultimately show ?thesis by (simp add: levels_def)
qed

lemma max_depth_levels:
  assumes "unat n < 2 ^ 63"
  shows "levels (nat (calcluate_max_depth (n + 1) - 1)) (unat n)"
proof -
  have "unat (n + 1) = unat n + 1"
    using assms by (simp add: unat_plus_if') 
  then have "n + 1 \<noteq> 0" by (metis add_is_0 one_neq_zero unat_0)
  have "bit_length n < 64"
  proof -
    have "\<not> 63 < bit_length n"
    proof
      assume "63 < bit_length n"
      then have "(2::nat) ^ 63 \<le> 2 ^ (bit_length n - 1)" by (intro power_increasing) auto
      then show False using levels_bit_length [of n] assms \<open>63 < bit_length n\<close> by (simp add: levels_def)
    qed
    then show ?thesis by simp
  qed
  then show ?thesis
    using levels_bit_length [of n] \<open>n + 1 \<noteq> 0\<close>
    by (simp add: calcluate_max_depth_def next_power_of_2_eq clz_power_2_eq)
qed

subsection \<open>The incremental root\<close>

text \<open>What the active nodes are after appending \<open>xs\<close>: the complete subtrees, and the root unless it is one of them.\<close>

definition merkle_ok :: "(digest \<times> digest \<Rightarrow> digest) \<Rightarrow> digest list \<Rightarrow> incremental_merkle \<Rightarrow> bool" where
  "merkle_ok hash xs m \<longleftrightarrow> unat (node_count m) = length xs \<and>
     (\<exists>rest. active_nodes m = complete_nodes (merkle_node hash) xs @ rest) \<and>
     (xs \<noteq> [] \<longrightarrow> active_nodes m \<noteq> [] \<and> last (active_nodes m) = merkle_root hash xs)"

lemma merkle_ok_empty: "merkle_ok hash [] empty_merkle"
  by (simp add: merkle_ok_def empty_merkle_def)

lemma merkle_append_ok:
  assumes "merkle_ok hash xs m" "length xs < 2 ^ 63"
  obtains m' where "merkle_append hash m d = Some m'" "merkle_ok hash (xs @ [d]) m'"
proof -
  let ?d = "nat (calcluate_max_depth (node_count m + 1) - 1)"
  have n: "unat (node_count m) = length xs" using assms(1) by (simp add: merkle_ok_def)
  then have lv: "levels ?d (length xs)" using max_depth_levels [of "node_count m"] assms(2) by simp
  obtain rest where rest: "active_nodes m = complete_nodes (merkle_node hash) xs @ rest"
    using assms(1) by (auto simp: merkle_ok_def)
  note loop = append_loop_full [OF lv n, of hash d rest "[]"]
  have n': "unat (node_count m + 1) = length xs + 1"
    using n assms(2) by (simp add: unat_plus_if')
  show ?thesis
    using loop rest n' that
    by (auto simp: merkle_append_def Let_def merkle_ok_def split: if_splits)
qed

lemma append_all_ok:
  assumes "merkle_ok hash xs m" "length xs + length ds \<le> 2 ^ 63"
  shows "\<exists>m'. append_all hash m ds = Some m' \<and> merkle_ok hash (xs @ ds) m'"
  using assms
proof (induction ds arbitrary: xs m)
  case (Cons d ds)
  obtain m' where m': "merkle_append hash m d = Some m'" "merkle_ok hash (xs @ [d]) m'"
    using merkle_append_ok [OF Cons(2), of d] Cons(3) by auto
  then show ?case using Cons.IH [OF m'(2)] Cons(3) by simp
qed simp

lemma merkle_eq_root: "xs \<noteq> [] \<Longrightarrow> merkle hash xs = merkle_root hash xs"
  by (simp add: merkle_def merkle_root_def)

subsection \<open>Properties\<close>

text \<open>C18. The incremental tree computes Merkle roots: appending the digests \<open>ds\<close> one after the other to
  the empty tree (at most \<open>2 ^ 63\<close> of them) never reads past the active nodes, and the root it then returns is
  the Merkle root of \<open>ds\<close> computed from scratch by \<open>merkle\<close>, whatever the hash function.\<close>

theorem incremental_merkle_root:
  assumes "length ds \<le> 2 ^ 63"
  shows "\<exists>m. append_all hash empty_merkle ds = Some m \<and> get_root m = merkle hash ds \<and>
     unat (node_count m) = length ds"
proof -
  obtain m where m: "append_all hash empty_merkle ds = Some m" "merkle_ok hash ds m"
    using append_all_ok [OF merkle_ok_empty, of ds hash] assms by auto
  have "get_root m = merkle hash ds"
  proof (cases "ds = []")
    case True
    then show ?thesis using m by (auto simp: empty_merkle_def get_root_def merkle_def)
  next
    case False
    then have "unat (node_count m) > 0" using m(2) by (simp add: merkle_ok_def)
    then have "node_count m > 0" by (simp add: word_less_nat_alt)
    then show ?thesis using m(2) False by (simp add: get_root_def merkle_ok_def merkle_eq_root)
  qed
  with m show ?thesis by (auto simp: merkle_ok_def)
qed

text \<open>A concrete hash for the witness.\<close>

definition toy_hash :: "digest \<times> digest \<Rightarrow> digest" where
  "toy_hash p = Digest (3 * hash0 (fst p) + hash0 (snd p)) (hash1 (fst p)) 0 0"

theorem incremental_merkle_root_witness:
  "length [Digest 1 0 0 0, Digest 2 0 0 0, Digest 3 0 0 0] \<le> 2 ^ 63 \<and>
   (\<exists>m. append_all toy_hash empty_merkle [Digest 1 0 0 0, Digest 2 0 0 0, Digest 3 0 0 0] = Some m \<and>
     get_root m = merkle toy_hash [Digest 1 0 0 0, Digest 2 0 0 0, Digest 3 0 0 0])"
  using incremental_merkle_root [of "[Digest 1 0 0 0, Digest 2 0 0 0, Digest 3 0 0 0]" toy_hash] by auto

text \<open>\<open>next_power_of_2\<close> returns the least power of two that is at least its argument, for arguments from
  1 to \<open>2 ^ 63\<close>, and \<open>clz_power_2\<close> is the binary logarithm of a power of two.\<close>

theorem next_power_of_2_least:
  assumes "1 \<le> unat n" "unat n \<le> 2 ^ 63"
  shows "\<exists>k \<le> 63. unat (next_power_of_2 n) = 2 ^ k \<and> unat n \<le> 2 ^ k \<and> (\<forall>j. unat n \<le> 2 ^ j \<longrightarrow> k \<le> j) \<and>
     clz_power_2 (next_power_of_2 n) = int k"
proof -
  let ?k = "bit_length (n - 1)"
  have n: "unat (n - 1) + 1 = unat n" using assms(1) by (metis One_nat_def Suc_pred add.commute less_eq_Suc_le plus_1_eq_Suc unat_minus_one unat_gt_0)
  have l: "unat (n - 1) < 2 ^ ?k" "0 < ?k \<Longrightarrow> 2 ^ (?k - 1) \<le> unat (n - 1)"
    using levels_bit_length [of "n - 1"] by (auto simp: levels_def)
  have k: "?k \<le> 63"
  proof (rule ccontr)
    assume "\<not> ?k \<le> 63"
    then have "(2::nat) ^ 63 \<le> 2 ^ (?k - 1)" by (intro power_increasing) auto
    then show False using l(2) assms(2) n \<open>\<not> ?k \<le> 63\<close> by simp
  qed
  have "?k \<le> j" if "unat n \<le> 2 ^ j" for j
  proof (rule ccontr)
    assume "\<not> ?k \<le> j"
    then have "(2::nat) ^ j \<le> 2 ^ (?k - 1)" by (intro power_increasing) auto
    moreover have "2 ^ (?k - 1) \<le> unat (n - 1)" using l(2) \<open>\<not> ?k \<le> j\<close> by simp
    ultimately show False using n that by linarith
  qed
  moreover have "unat (2 ^ ?k :: 64 word) = 2 ^ ?k"
  proof -
    have "(2 :: nat) ^ ?k < 2 ^ 64" using k by (intro power_strict_increasing) auto
    then show ?thesis using unat_of_nat [of "2 ^ ?k", where 'a = 64] by simp
  qed
  ultimately show ?thesis
    using l(1) n k by (intro exI [of _ ?k]) (simp add: next_power_of_2_eq clz_power_2_eq)
qed

theorem next_power_of_2_least_witness:
  "1 \<le> unat (5 :: 64 word) \<and> unat (5 :: 64 word) \<le> 2 ^ 63 \<and>
   (\<exists>k \<le> 63. unat (next_power_of_2 5) = 2 ^ k \<and> unat (5 :: 64 word) \<le> 2 ^ k \<and> (\<forall>j. unat (5 :: 64 word) \<le> 2 ^ j \<longrightarrow> k \<le> j))"
  using next_power_of_2_least [of 5] by auto
end
