(* ===== verification/Names.thy ===== *)
theory Names
  imports Prelude
begin

unbundle bit_operations_syntax

text \<open>
  Account, action and permission names (\<open>contracts/eosiolib/types.hpp\<close>): a name is a
  \<open>uint64_t\<close> holding twelve 5-bit characters and a thirteenth 4-bit one. This theory models the two
  conversions between strings and names, and shows that they are inverse to each other.
\<close>

type_synonym name = "64 word"
type_synonym account_name = name
type_synonym permission_name = name
type_synonym action_name = name

subsection \<open>Strings to names\<close>

definition char_to_symbol :: "char \<Rightarrow> nat" where
  "char_to_symbol c =
     (let n = of_char c :: nat in
      if of_char CHR ''a'' \<le> n \<and> n \<le> of_char CHR ''z'' then (n - of_char CHR ''a'') + 6
      else if of_char CHR ''1'' \<le> n \<and> n \<le> of_char CHR ''5'' then (n - of_char CHR ''1'') + 1
      else 0)"

text \<open>A C string ends at its first NUL.\<close>

definition c_str :: "string \<Rightarrow> string" where
  "c_str s = takeWhile (\<lambda>c. c \<noteq> CHR 0x00) s"

text \<open>What iteration \<open>i\<close> of the loop of \<open>string_to_name\<close> adds to the value.\<close>

definition name_char :: "string \<Rightarrow> nat \<Rightarrow> 64 word" where
  "name_char str i =
     (let c = (if i < length str \<and> i \<le> 12 then of_nat (char_to_symbol (str ! i)) else 0) in
      if i < 12 then push_bit (64 - 5 * (i + 1)) (c AND 0x1f) else c AND 0x0f)"

definition string_to_name :: "string \<Rightarrow> name" where
  "string_to_name str = fold (\<lambda>i v. v OR name_char (c_str str) i) [0..<13] 0"

subsection \<open>Names to strings\<close>

definition charmap :: string where
  "charmap = ''.12345abcdefghijklmnopqrstuvwxyz''"

text \<open>\<open>find_last_not_of\<close> returns \<open>npos\<close> on a string of dots, which is then left as it is.\<close>

definition trim_right_dots :: "string \<Rightarrow> string" where
  "trim_right_dots str =
     (if list_all (\<lambda>c. c = CHR ''.'') str then str
      else rev (dropWhile (\<lambda>c. c = CHR ''.'') (rev str)))"

definition to_string_step :: "nat \<Rightarrow> name \<times> string \<Rightarrow> name \<times> string" where
  "to_string_step i st =
     (let c = charmap ! unat (fst st AND (if i = 0 then 0x0f else 0x1f)) in
      (drop_bit (if i = 0 then 4 else 5) (fst st), (snd st)[12 - i := c]))"

definition to_string :: "name \<Rightarrow> string" where
  "to_string n = trim_right_dots (snd (fold to_string_step [0..<13] (n, replicate 13 CHR ''.'')))"

subsection \<open>The node's conversions\<close>

text \<open>
  \<open>libraries/chain/include/eosio/chain/name.hpp\<close> writes the same conversion as a loop that stops at the
  end of the string or after twelve characters; \<open>name.cpp\<close> trims every trailing dot when printing, and
  \<open>name::set\<close> only accepts a string that printing gives back.
\<close>

fun chain_name_loop :: "string \<Rightarrow> nat \<Rightarrow> 64 word \<Rightarrow> nat \<times> 64 word" where
  "chain_name_loop [] i v = (i, v)"
| "chain_name_loop (c # cs) i v =
     (if i < 12
      then chain_name_loop cs (i + 1) (v OR push_bit (64 - 5 * (i + 1)) (of_nat (char_to_symbol c) AND 0x1f))
      else (i, v))"

definition chain_string_to_name :: "string \<Rightarrow> name" where
  "chain_string_to_name str =
     (let s = c_str str; (i, v) = chain_name_loop s 0 0 in
      if i = 12 then v OR (of_nat (char_to_symbol (if 12 < length s then s ! 12 else CHR 0x00)) AND 0x0f) else v)"

definition chain_to_string :: "name \<Rightarrow> string" where
  "chain_to_string n =
     rev (dropWhile (\<lambda>c. c = CHR ''.'') (rev (snd (fold to_string_step [0..<13] (n, replicate 13 CHR ''.'')))))"

datatype name_error = Name_too_long | Name_not_normalized

definition chain_name_set :: "string \<Rightarrow> name_error + name" where
  "chain_name_set str =
     chk (min 14 (length (c_str str)) \<le> 13) Name_too_long
       (let v = chain_string_to_name str in
        chk (chain_to_string v = c_str str) Name_not_normalized (Inr v))"

subsection \<open>The names of the build configuration\<close>

text \<open>\<open>contract_config.hpp.in\<close> and \<open>config.hpp.in\<close> with the default \<open>ROOT_ACCOUNT\<close>, \<open>force\<close>.\<close>

definition system_account_name :: account_name where "system_account_name = string_to_name ''force''"
definition token_account_name :: account_name where "token_account_name = string_to_name ''force.token''"
definition msig_account_name :: account_name where "msig_account_name = string_to_name ''force.msig''"
definition bios_account_name :: account_name where "bios_account_name = string_to_name ''force.bios''"
definition fee_account_name :: account_name where "fee_account_name = string_to_name ''force.fee''"
definition reward_account_name :: account_name where "reward_account_name = string_to_name ''force.reward''"
definition relay_account_name :: account_name where "relay_account_name = string_to_name ''force.relay''"
definition match_account_name :: account_name where "match_account_name = string_to_name ''force.match''"
definition bridge_account_name :: account_name where "bridge_account_name = string_to_name ''force.bridge''"
definition relay_token_account_name :: account_name where
  "relay_token_account_name = string_to_name ''relay.token''"
definition active_name :: permission_name where "active_name = string_to_name ''active''"
definition owner_name :: permission_name where "owner_name = string_to_name ''owner''"
definition any_name :: permission_name where "any_name = string_to_name ''force.any''"
definition code_name :: permission_name where "code_name = string_to_name ''force.code''"

subsection \<open>The round trips\<close>

lemma charmap_length [simp]: "length charmap = 32"
  by (simp add: charmap_def)

lemma map_char_to_symbol_charmap: "map char_to_symbol charmap = [0..<32]"
  by (simp add: charmap_def char_to_symbol_def upt_rec)

lemma char_to_symbol_charmap: "k < 32 \<Longrightarrow> char_to_symbol (charmap ! k) = k"
  using arg_cong [OF map_char_to_symbol_charmap, of "\<lambda>xs. xs ! k"] by simp

lemma charmap_not_nul: "c \<in> set charmap \<Longrightarrow> c \<noteq> CHR 0x00"
  by (auto simp: charmap_def)

lemma char_to_symbol_dot [simp]: "char_to_symbol CHR ''.'' = 0"
  by code_simp

text \<open>Trailing dots contribute nothing, so trimming them keeps the name.\<close>

lemma trim_append:
  "\<exists>k. str = trim_right_dots str @ replicate k CHR ''.''"
proof (cases "list_all (\<lambda>c. c = CHR ''.'') str")
  case True
  then have "str = trim_right_dots str @ replicate 0 CHR ''.''"
    by (simp add: trim_right_dots_def)
  then show ?thesis by blast
next
  case False
  let ?P = "\<lambda>c. c = CHR ''.''"
  have "rev str = takeWhile ?P (rev str) @ dropWhile ?P (rev str)"
    by simp
  then have "str = rev (dropWhile ?P (rev str)) @ rev (takeWhile ?P (rev str))"
    by (metis rev_append rev_rev_ident)
  moreover have "rev (takeWhile ?P (rev str)) = replicate (length (takeWhile ?P (rev str))) CHR ''.''"
    by (rule replicate_eqI) (auto dest: set_takeWhileD)
  ultimately show ?thesis
    using False by (auto simp: trim_right_dots_def)
qed

lemma name_char_append_dots:
  "name_char (str @ replicate k CHR ''.'') i = name_char str i"
  by (simp add: name_char_def nth_append Let_def)

lemma c_str_id: "CHR 0x00 \<notin> set str \<Longrightarrow> c_str str = str"
  by (auto simp: c_str_def takeWhile_eq_all_conv)

lemma string_to_name_trim:
  assumes "CHR 0x00 \<notin> set str"
  shows "string_to_name (trim_right_dots str) = string_to_name str"
proof -
  obtain k where k: "str = trim_right_dots str @ replicate k CHR ''.''"
    using trim_append by blast
  have "set (trim_right_dots str) \<subseteq> set str"
    by (subst (2) k) simp
  with assms have c: "c_str (trim_right_dots str) = trim_right_dots str" "c_str str = str"
    by (auto intro!: c_str_id)
  have "name_char (trim_right_dots str) i = name_char str i" for i
    using name_char_append_dots [of "trim_right_dots str" k i] by (simp only: k [symmetric])
  then show ?thesis
    by (simp only: string_to_name_def c)
qed

definition name_fields :: "name \<Rightarrow> nat list" where
  "name_fields n = map (\<lambda>i. unat (drop_bit (64 - 5 * (i + 1)) n AND 0x1f)) [0..<12] @ [unat (n AND 0x0f)]"

lemma upt_13: "[0..<13] = [0,1,2,3,4,5,6,7,8,9,10,11,12::nat]"
  by (simp add: upt_rec)

lemma to_string_loop:
  "snd (fold to_string_step [0..<13] (n, replicate 13 CHR ''.'')) = map ((!) charmap) (name_fields n)"
proof -
  have r: "replicate 13 CHR ''.'' = [d, d, d, d, d, d, d, d, d, d, d, d, d]" if "d = CHR ''.''" for d
    using that by (simp add: numeral_eq_Suc)
  have u: "[0..<12] = [0,1,2,3,4,5,6,7,8,9,10,11::nat]"
    by (simp add: upt_rec)
  show ?thesis
    unfolding r [OF refl] upt_13 name_fields_def u
    by (simp add: to_string_step_def Let_def)
qed

lemma unat_and_31: "unat (w AND 0x1f :: 64 word) < 32"
proof -
  have "w AND 0x1f \<le> (0x1f :: 64 word)" by (rule word_and_le1)
  then show ?thesis by (simp add: word_le_nat_alt)
qed

lemma unat_and_15: "unat (w AND 0x0f :: 64 word) < 16"
proof -
  have "w AND 0x0f \<le> (0x0f :: 64 word)" by (rule word_and_le1)
  then show ?thesis by (simp add: word_le_nat_alt)
qed

lemma name_fields_bound: "k \<in> set (name_fields n) \<Longrightarrow> k < 32"
  using unat_and_15 [of n] by (auto simp: name_fields_def unat_and_31)

lemma length_name_fields [simp]: "length (name_fields n) = 13"
  by (simp add: name_fields_def)

lemma name_char_fields:
  assumes "i < 13"
  shows "name_char (map ((!) charmap) (name_fields n)) i =
    (if i < 12 then push_bit (64 - 5 * (i + 1)) (drop_bit (64 - 5 * (i + 1)) n AND 0x1f) else n AND 0x0f)"
proof -
  have "char_to_symbol (charmap ! (name_fields n ! i)) = name_fields n ! i"
    using assms by (intro char_to_symbol_charmap name_fields_bound [of _ n]) simp
  then show ?thesis
    using assms by (auto simp: name_char_def name_fields_def nth_append and.assoc Let_def)
qed

lemma bit_field: "bit (push_bit k (drop_bit k n AND 0x1f) :: 64 word) m \<longleftrightarrow> k \<le> m \<and> m < k + 5 \<and> bit n m"
proof -
  have e: "(0x1f :: 64 word) = mask 5" by (simp add: mask_eq_exp_minus_1)
  show ?thesis
    unfolding e by (auto simp: bit_simps dest: bit_imp_le_length)
qed

lemma bit_low: "bit (n AND 0x0f :: 64 word) m \<longleftrightarrow> m < 4 \<and> bit n m"
proof -
  have e: "(0x0f :: 64 word) = mask 4" by (simp add: mask_eq_exp_minus_1)
  show ?thesis
    unfolding e by (auto simp: bit_simps dest: bit_imp_le_length)
qed

lemma bit_fold_or:
  fixes f :: "nat \<Rightarrow> 64 word"
  shows "bit (fold (\<lambda>i v. v OR f i) xs v) m \<longleftrightarrow> bit v m \<or> (\<exists>i \<in> set xs. bit (f i) m)"
  by (induction xs arbitrary: v) (auto simp: bit_or_iff)

lemma bit_string_to_name:
  "bit (string_to_name s) m \<longleftrightarrow> (\<exists>i < 13. bit (name_char (c_str s) i) m)"
  by (auto simp: string_to_name_def bit_fold_or atLeast0LessThan)

lemma charmap_string_c_str: "set s \<subseteq> set charmap \<Longrightarrow> c_str s = s"
  using charmap_not_nul by (intro c_str_id) blast

lemma string_to_name_fields: "string_to_name (map ((!) charmap) (name_fields n)) = n"
proof (rule bit_word_eqI)
  fix m :: nat assume m: "m < LENGTH(64)"
  let ?s = "map ((!) charmap) (name_fields n)"
  have c: "c_str ?s = ?s"
    using name_fields_bound [of _ n] by (intro charmap_string_c_str) auto
  let ?i = "if m < 4 then 12 else (63 - m) div 5"
  have "bit (name_char ?s i) m \<Longrightarrow> bit n m" if "i < 13" for i
    using that by (auto simp: name_char_fields bit_field bit_low simp del: push_bit_and split: if_splits)
  moreover have "bit (name_char ?s ?i) m \<longleftrightarrow> bit n m"
    using m by (auto simp: name_char_fields bit_field bit_low simp del: push_bit_and)
  moreover have "?i < 13" using div_le_mono [of "63 - m" 63 5] by auto
  ultimately show "bit (string_to_name ?s) m = bit n m"
    unfolding bit_string_to_name c by blast
qed

lemma string_to_name_to_string: "string_to_name (to_string n) = n"
proof -
  let ?s = "map ((!) charmap) (name_fields n)"
  have "set ?s \<subseteq> set charmap"
    using name_fields_bound [of _ n] by auto
  then have "CHR 0x00 \<notin> set ?s"
    using charmap_not_nul by blast
  from string_to_name_trim [OF this] show ?thesis
    by (simp only: to_string_def to_string_loop string_to_name_fields)
qed

text \<open>A string that a name can hold: at most 13 characters of the alphabet, the last of them of the first
  sixteen, and no trailing dot.\<close>

definition valid_name_string :: "string \<Rightarrow> bool" where
  "valid_name_string s \<longleftrightarrow> s \<noteq> [] \<and> length s \<le> 13 \<and> set s \<subseteq> set charmap \<and> last s \<noteq> CHR ''.'' \<and>
     (length s = 13 \<longrightarrow> last s \<in> set (take 16 charmap))"

definition symbol_at :: "string \<Rightarrow> nat \<Rightarrow> nat" where
  "symbol_at s i = (if i < length s then char_to_symbol (s ! i) else 0)"

definition name_pos :: "nat \<Rightarrow> nat" where "name_pos i = (if i < 12 then 59 - 5 * i else 0)"
definition name_width :: "nat \<Rightarrow> nat" where "name_width i = (if i < 12 then 5 else 4)"

lemma name_pos_cases:
  assumes "i < 13"
  obtains "i < 12" "name_pos i + 5 * i = 59" "name_width i = 5" | "i = 12" "name_pos i = 0" "name_width i = 4"
  using assms by (cases "i < 12") (auto simp: name_pos_def name_width_def)

lemma name_pos_disjoint:
  assumes "i < 13" "i' < 13" "name_pos i \<le> m" "m < name_pos i + name_width i"
    "name_pos i' \<le> m" "m < name_pos i' + name_width i'"
  shows "i = i'"
proof (cases rule: name_pos_cases [OF assms(1)])
  case 1
  then show ?thesis
    by (cases rule: name_pos_cases [OF assms(2)]) (use assms(3-6) in linarith)+
next
  case 2
  then show ?thesis
    by (cases rule: name_pos_cases [OF assms(2)]) (use assms(3-6) in linarith)+
qed

lemma bit_name_char:
  assumes "i < 13"
  shows "bit (name_char s i) m \<longleftrightarrow>
    name_pos i \<le> m \<and> m < name_pos i + name_width i \<and> bit (symbol_at s i) (m - name_pos i)"
proof -
  have e: "(0x0f :: 64 word) = mask 4" "(0x1f :: 64 word) = mask 5" by (simp_all add: mask_eq_exp_minus_1)
  show ?thesis
    using assms unfolding name_char_def symbol_at_def e name_pos_def name_width_def
    by (auto simp: bit_simps Let_def dest: bit_imp_le_length)
qed

lemma bit_name_field:
  assumes "i < 13"
  shows "bit (name_fields n ! i) j \<longleftrightarrow> j < name_width i \<and> bit n (name_pos i + j)"
proof -
  have e: "(0x0f :: 64 word) = mask 4" "(0x1f :: 64 word) = mask 5" by (simp_all add: mask_eq_exp_minus_1)
  show ?thesis
    using assms unfolding name_fields_def e name_pos_def name_width_def
    by (auto simp: nth_append bit_simps dest: bit_imp_le_length)
qed

lemma bit_nat_bound:
  assumes "bit (k :: nat) j" "k < 2 ^ l" shows "j < l"
proof -
  have "take_bit l k = k" using assms(2) by (simp add: take_bit_nat_eq_self)
  then show ?thesis using assms(1) by (metis bit_take_bit_iff)
qed

lemma symbol_at_bound:
  assumes "set s \<subseteq> set charmap"
  shows "symbol_at s i < 32"
proof (cases "i < length s")
  case True
  with assms have "s ! i \<in> set charmap" by auto
  then obtain k where "k < 32" "s ! i = charmap ! k" by (metis charmap_length in_set_conv_nth)
  then show ?thesis using True by (simp add: symbol_at_def char_to_symbol_charmap)
qed (simp add: symbol_at_def)

lemma name_fields_string_to_name:
  assumes "set s \<subseteq> set charmap" and "symbol_at s 12 < 16" and "i < 13"
  shows "name_fields (string_to_name s) ! i = symbol_at s i"
proof (rule bit_eqI)
  fix j :: nat
  have lt: "symbol_at s i < 2 ^ name_width i"
    using assms(2,3) symbol_at_bound [OF assms(1)] by (cases "i = 12") (auto simp: name_width_def)
  have w: "j < name_width i" if "bit (symbol_at s i) j"
    using that lt by (rule bit_nat_bound)
  have "bit (string_to_name s) (name_pos i + j) \<longleftrightarrow> bit (symbol_at s i) j" if "j < name_width i"
    unfolding bit_string_to_name charmap_string_c_str [OF assms(1)]
    using that assms(3) name_pos_disjoint [OF assms(3), of _ "name_pos i + j"]
    by (auto simp: bit_name_char intro!: exI [of _ i]) (metis add_diff_cancel_left')
  then show "bit (name_fields (string_to_name s) ! i) j = bit (symbol_at s i) j"
    using w bit_name_field [OF assms(3)] by blast
qed

text \<open>Padding and trimming.\<close>

lemma charmap_char_to_symbol: "c \<in> set charmap \<Longrightarrow> charmap ! char_to_symbol c = c"
  by (auto simp: in_set_conv_nth char_to_symbol_charmap)

lemma trim_pad:
  assumes "s \<noteq> []" "last s \<noteq> CHR ''.''"
  shows "trim_right_dots (s @ replicate k CHR ''.'') = s"
proof -
  have "last s \<in> set s" using assms(1) by simp
  then have "\<not> list_all (\<lambda>c. c = CHR ''.'') (s @ replicate k CHR ''.'')"
    using assms(2) unfolding list_all_iff by force
  moreover have "dropWhile (\<lambda>c. c = CHR ''.'') (replicate k CHR ''.'' @ rev s) = rev s"
    using assms by (induction k) (auto simp: dropWhile_eq_self_iff hd_rev)
  ultimately show ?thesis by (simp only: trim_right_dots_def if_False rev_append rev_replicate rev_rev_ident)
qed

lemma to_string_string_to_name:
  assumes "valid_name_string s"
  shows "to_string (string_to_name s) = s"
proof -
  have s: "s \<noteq> []" "length s \<le> 13" "set s \<subseteq> set charmap" "last s \<noteq> CHR ''.''"
    using assms by (auto simp: valid_name_string_def)
  have l: "symbol_at s 12 < 16"
  proof (cases "length s = 13")
    case True
    then have "s ! 12 \<in> set (take 16 charmap)"
      using assms s(1) by (auto simp: valid_name_string_def last_conv_nth)
    then obtain k where "k < 16" "s ! 12 = charmap ! k"
      by (auto simp: in_set_conv_nth)
    then show ?thesis by (simp add: symbol_at_def char_to_symbol_charmap)
  next
    case False
    then show ?thesis using s(2) by (simp add: symbol_at_def)
  qed
  have "map ((!) charmap) (name_fields (string_to_name s)) = s @ replicate (13 - length s) CHR ''.''"
  proof (rule nth_equalityI)
    fix i assume "i < length (map ((!) charmap) (name_fields (string_to_name s)))"
    then have i: "i < 13" by simp
    have "charmap ! symbol_at s i = (s @ replicate (13 - length s) CHR ''.'') ! i"
    proof (cases "i < length s")
      case True
      then have "s ! i \<in> set charmap" using s(3) by auto
      then show ?thesis using True by (simp add: symbol_at_def nth_append charmap_char_to_symbol)
    next
      case False
      have "charmap ! 0 = CHR ''.''" by (simp add: charmap_def)
      then show ?thesis using False i by (simp add: symbol_at_def nth_append)
    qed
    then show "map ((!) charmap) (name_fields (string_to_name s)) ! i = (s @ replicate (13 - length s) CHR ''.'') ! i"
      using i name_fields_string_to_name [OF s(3) l i] by simp
  qed (use s(2) in simp)
  then show ?thesis
    by (simp add: to_string_def to_string_loop trim_pad s)
qed


lemma char_to_symbol_nul [simp]: "char_to_symbol CHR 0x00 = 0"
  by code_simp

lemma chain_name_loop_result:
  "i \<le> 12 \<Longrightarrow> chain_name_loop cs i v = (j, w) \<Longrightarrow>
     j = min 12 (i + length cs) \<and>
     (bit w m \<longleftrightarrow> bit v m \<or> (\<exists>k < length cs. i + k < 12 \<and>
        bit (push_bit (64 - 5 * (i + k + 1)) (of_nat (char_to_symbol (cs ! k)) AND 0x1f :: 64 word)) m))"
proof (induction cs i v rule: chain_name_loop.induct)
  case (2 c cs i v)
  show ?case
  proof (cases "i < 12")
    case True
    then have "j = min 12 (i + 1 + length cs)"
      and b: "bit w m \<longleftrightarrow> bit (v OR push_bit (64 - 5 * (i + 1)) (of_nat (char_to_symbol c) AND 0x1f)) m \<or>
        (\<exists>k < length cs. i + 1 + k < 12 \<and>
          bit (push_bit (64 - 5 * (i + 1 + k + 1)) (of_nat (char_to_symbol (cs ! k)) AND 0x1f :: 64 word)) m)"
      using 2 by (simp_all del: push_bit_and)
    then show ?thesis
      using True unfolding b by (auto simp: less_Suc_eq_0_disj Ex_less_Suc2 bit_or_iff simp del: push_bit_and)
  qed (use 2 in auto)
qed simp

lemma bit_chain_string_to_name:
  "bit (chain_string_to_name s) m \<longleftrightarrow> (\<exists>i < 13. bit (name_char (c_str s) i) m)"
proof -
  obtain j w where l: "chain_name_loop (c_str s) 0 0 = (j, w)" by fastforce
  have r: "j = min 12 (length (c_str s))"
    "bit w m \<longleftrightarrow> (\<exists>k < length (c_str s). k < 12 \<and> bit (name_char (c_str s) k) m)"
    using chain_name_loop_result [OF _ l, of m] by (auto simp: name_char_def Let_def simp del: push_bit_and)
  have z: "bit (name_char (c_str s) i) m \<Longrightarrow> i < length (c_str s)" for i
    by (cases "i < length (c_str s)") (simp_all add: name_char_def Let_def split: if_splits)
  have t: "name_char (c_str s) 12 = of_nat (char_to_symbol (if 12 < length (c_str s) then c_str s ! 12 else CHR 0x00)) AND 0x0f"
    by (simp add: name_char_def)
  have "bit (chain_string_to_name s) m \<longleftrightarrow> bit w m \<or> bit (name_char (c_str s) 12) m"
    using z [of 12] r(1) unfolding chain_string_to_name_def Let_def l t by (auto simp: bit_or_iff)
  also have "\<dots> \<longleftrightarrow> (\<exists>i < 13. bit (name_char (c_str s) i) m)"
    unfolding r(2) using z by (metis less_Suc_eq eval_nat_numeral(3) numeral_3_eq_3 semiring_norm(26,27,28))
  finally show ?thesis .
qed

lemma chain_string_to_name_eq: "chain_string_to_name s = string_to_name s"
  by (rule bit_word_eqI) (simp add: bit_chain_string_to_name bit_string_to_name)

lemma name_fields_zero: "map ((!) charmap) (name_fields 0) = replicate 13 CHR ''.''"
  by (simp add: name_fields_def charmap_def numeral_eq_Suc)

lemma to_string_zero: "to_string 0 = replicate 13 CHR ''.''"
  by (simp add: to_string_def to_string_loop name_fields_zero trim_right_dots_def list_all_iff)

lemma string_to_name_Nil: "string_to_name [] = 0"
  by (rule bit_word_eqI) (simp add: bit_string_to_name c_str_def name_char_def)

lemma chain_to_string_trim:
  "chain_to_string n = (if n = 0 then [] else to_string n)"
proof (cases "n = 0")
  case True
  then show ?thesis
    by (simp add: chain_to_string_def to_string_loop name_fields_zero)
next
  case False
  have "\<not> list_all (\<lambda>c. c = CHR ''.'') (map ((!) charmap) (name_fields n))" (is "\<not> list_all ?P ?s")
  proof
    assume "list_all ?P ?s"
    then have "?s = replicate 13 CHR ''.''"
      by (intro replicate_eqI) (auto simp: list_all_iff)
    then have "string_to_name ?s = string_to_name (replicate 13 CHR ''.'')" by simp
    also have "\<dots> = 0"
      by (rule bit_word_eqI) (simp add: bit_string_to_name c_str_id name_char_def)
    finally show False using False by (simp add: string_to_name_fields)
  qed
  then show ?thesis using False
    by (simp only: chain_to_string_def to_string_def to_string_loop trim_right_dots_def if_False)
qed

lemma last_name_fields: "last (name_fields n) = unat (n AND 0x0f)"
  by (simp add: name_fields_def)

lemma charmap_low: "k < 16 \<Longrightarrow> charmap ! k \<in> set (take 16 charmap)"
  using nth_mem [of k "take 16 charmap"] by simp

lemma to_string_valid:
  assumes "n \<noteq> 0"
  shows "valid_name_string (to_string n)"
proof -
  let ?s = "map ((!) charmap) (name_fields n)" and ?P = "\<lambda>c. c = CHR ''.''"
  obtain k where k: "?s = to_string n @ replicate k CHR ''.''"
    using trim_append [of ?s] by (auto simp: to_string_def to_string_loop)
  have e: "to_string n = rev (dropWhile ?P (rev ?s))"
    using assms chain_to_string_trim [of n] by (simp add: chain_to_string_def to_string_loop)
  have ne: "to_string n \<noteq> []"
  proof
    assume "to_string n = []"
    then have "string_to_name [] = n" using string_to_name_to_string [of n] by simp
    then show False using assms by (simp add: string_to_name_Nil)
  qed
  have "set ?s \<subseteq> set charmap" using name_fields_bound [of _ n] by auto
  then have c: "set (to_string n) \<subseteq> set charmap" unfolding k by simp
  have len: "length (to_string n) + k = 13" using arg_cong [OF k, of length] by simp
  have "last (to_string n) \<noteq> CHR ''.''"
    using ne hd_dropWhile [of ?P "rev ?s"] unfolding e by (auto simp: last_rev)
  moreover have nn: "name_fields n \<noteq> []" by (metis length_name_fields list.size(3) numeral_neq_zero)
  moreover have "last (to_string n) \<in> set (take 16 charmap)" if "length (to_string n) = 13"
  proof -
    have "to_string n = ?s" using k that len by simp
    then have "last (to_string n) = charmap ! unat (n AND 0x0f)"
      by (simp only: last_map nn not_False_eq_True last_name_fields)
    then show ?thesis using charmap_low [OF unat_and_15] by simp
  qed
  ultimately show ?thesis
    using ne c len by (simp add: valid_name_string_def)
qed

lemma valid_not_zero: 
  assumes "valid_name_string s" shows "string_to_name s \<noteq> 0"
proof
  assume "string_to_name s = 0"
  then have "to_string 0 = s" using to_string_string_to_name [OF assms] by simp
  then show False using assms by (auto simp: to_string_zero valid_name_string_def)
qed

lemma string_to_name_inject:
  "valid_name_string s \<Longrightarrow> valid_name_string t \<Longrightarrow> string_to_name s = string_to_name t \<longleftrightarrow> s = t"
  by (metis to_string_string_to_name)

lemmas name_consts =
  system_account_name_def token_account_name_def msig_account_name_def bios_account_name_def fee_account_name_def
  reward_account_name_def relay_account_name_def match_account_name_def bridge_account_name_def relay_token_account_name_def
  active_name_def owner_name_def any_name_def code_name_def

text \<open>The names as numbers, for evaluation.\<close>

lemmas string_to_name_eval = string_to_name_def c_str_def name_char_def char_to_symbol_def upt_13 push_bit_and [symmetric]

lemma name_literals [code abstract]:
  "Word.the_int system_account_name = 6714450329502482432"
  "Word.the_int token_account_name = 6714450343268361728"
  "Word.the_int msig_account_name = 6714450339576348672"
  "Word.the_int bios_account_name = 6714450333506338816"
  "Word.the_int fee_account_name = 6714450335581077504"
  "Word.the_int reward_account_name = 6714450342033075856"
  "Word.the_int relay_account_name = 6714450342027312128"
  "Word.the_int match_account_name = 6714450339280067072"
  "Word.the_int bridge_account_name = 6714450333653948576"
  "Word.the_int relay_token_account_name = 13448433496838284800"
  "Word.the_int active_name = 3617214756542218240"
  "Word.the_int owner_name = 12044502819693133824"
  "Word.the_int any_name = 6714450333058203648"
  "Word.the_int code_name = 6714450334137876480"
  by (simp_all add: name_consts string_to_name_eval)

subsection \<open>Properties\<close>

text \<open>C16. Printing a name and reading it back gives the same name, both with the conversions of
  \<open>contracts/eosiolib/types.hpp\<close> and with those of the node (\<open>name.hpp\<close>, \<open>name.cpp\<close>): the
  printed form identifies the account.\<close>

theorem name_round_trip:
  "string_to_name (to_string n) = n \<and> chain_string_to_name (chain_to_string n) = n"
  by (simp add: string_to_name_to_string chain_string_to_name_eq chain_to_string_trim string_to_name_Nil)

text \<open>\<open>name::set\<close> accepts exactly the empty string and the strings of at most 13 characters of the
  alphabet that do not end in a dot and whose 13th character, if any, fits in 4 bits; it returns the
  name they spell, and raises an exception on every other string.\<close>

theorem chain_name_set_accepts:
  assumes "CHR 0x00 \<notin> set s"
  shows "chain_name_set s = Inr n \<longleftrightarrow> (s = [] \<or> valid_name_string s) \<and> n = string_to_name s"
proof -
  have c: "c_str s = s" using assms by (rule c_str_id)
  have l: "length s \<le> 13" if "valid_name_string s" using that by (simp add: valid_name_string_def)
  show ?thesis
    using l string_to_name_Nil valid_not_zero [of s] to_string_string_to_name [of s]
      to_string_valid [of "string_to_name s"]
    unfolding chain_name_set_def c Let_def chain_string_to_name_eq chain_to_string_trim res_simps
    by (cases "string_to_name s = 0") auto
qed
theorem chain_name_set_accepts_witness:
  "CHR 0x00 \<notin> set ''force.token'' \<and>
   chain_name_set ''force.token'' = Inr (string_to_name ''force.token'')"
proof -
  have nz: "CHR 0x00 \<notin> set ''force.token''" by simp
  have v: "valid_name_string ''force.token''"
    by (simp add: valid_name_string_def charmap_def)
  show ?thesis
    using nz v chain_name_set_accepts [OF nz, of "string_to_name ''force.token''"] by blast
qed

text \<open>The two printers differ on the name 0 only: the contracts' \<open>name::to_string\<close> gives
  thirteen dots there, the node's printer the empty string.\<close>

theorem to_string_differs_at_zero:
  "to_string n = chain_to_string n \<longleftrightarrow> n \<noteq> 0"
  by (simp add: chain_to_string_trim to_string_zero)

end
