(* ===== verification/Multi_Index.thy ===== *)
theory Multi_Index
  imports Prelude "HOL-Library.Product_Lexorder" "HOL-Library.Multiset"
begin

text \<open>
  Tables. A contract keeps its state in \<open>multi_index\<close> tables (\<open>contracts/eosiolib/multi_index.hpp\<close> over
  the \<open>db_*_i64\<close> intrinsics of the node): rows under a scope and a 64-bit primary key, iterated in key
  order. A table is modelled as the list of its rows in key order; a table whose scope varies is keyed by
  the pair of scope and primary key, as the node keys it.

  The locale \<open>kv_table\<close> is the interface the contracts' proofs rely on: what a lookup returns after an
  update or an erase, and how the multiset of rows changes. From it follow the laws of sums over the rows,
  which the conservation theorems of the contracts use.
\<close>

named_theorems tbl_simps \<open>lookup after update, and sums over the rows of a table\<close>

type_synonym ('k, 'v) tbl = "('k \<times> 'v) list"

subsection \<open>Operations\<close>

text \<open>\<open>find\<close>, \<open>emplace\<close>/\<open>modify\<close> (which store a row under its key) and \<open>erase\<close>.\<close>

definition tbl_find :: "('k, 'v) tbl \<Rightarrow> 'k \<Rightarrow> 'v option" where
  "tbl_find t k = map_of t k"

fun tbl_put :: "'k :: linorder \<Rightarrow> 'v \<Rightarrow> ('k, 'v) tbl \<Rightarrow> ('k, 'v) tbl" where
  "tbl_put k v [] = [(k, v)]"
| "tbl_put k v ((k', v') # t) =
     (if k < k' then (k, v) # (k', v') # t
      else if k = k' then (k, v) # t
      else (k', v') # tbl_put k v t)"

definition tbl_del :: "'k \<Rightarrow> ('k, 'v) tbl \<Rightarrow> ('k, 'v) tbl" where
  "tbl_del k t = filter (\<lambda>r. fst r \<noteq> k) t"

text \<open>The rows of one scope, in key order.\<close>

definition tbl_scope :: "'s \<Rightarrow> ('s \<times> 'k, 'v) tbl \<Rightarrow> ('k \<times> 'v) list" where
  "tbl_scope s t = map (\<lambda>((s', k), v). (k, v)) (filter (\<lambda>((s', k), v). s' = s) t)"

definition tbl_ok :: "('k :: linorder, 'v) tbl \<Rightarrow> bool" where
  "tbl_ok t \<longleftrightarrow> sorted_wrt (<) (map fst t)"

subsection \<open>The interface\<close>

locale kv_table =
  fixes lookup :: "'t \<Rightarrow> 'k \<Rightarrow> 'v option"
    and store :: "'k \<Rightarrow> 'v \<Rightarrow> 't \<Rightarrow> 't"
    and erase :: "'k \<Rightarrow> 't \<Rightarrow> 't"
    and rows :: "'t \<Rightarrow> ('k \<times> 'v) list"
    and ok :: "'t \<Rightarrow> bool"
  assumes ok_store: "ok t \<Longrightarrow> ok (store k v t)"
    and ok_erase: "ok t \<Longrightarrow> ok (erase k t)"
    and lookup_store: "ok t \<Longrightarrow> lookup (store k v t) k' = (if k' = k then Some v else lookup t k')"
    and lookup_erase: "ok t \<Longrightarrow> lookup (erase k t) k' = (if k' = k then None else lookup t k')"
    and rows_lookup: "ok t \<Longrightarrow> (k, v) \<in> set (rows t) \<longleftrightarrow> lookup t k = Some v"
    and rows_erase: "ok t \<Longrightarrow> mset (rows (erase k t)) =
          mset (rows t) - (case lookup t k of None \<Rightarrow> {#} | Some u \<Rightarrow> {#(k, u)#})"
    and rows_store: "ok t \<Longrightarrow> mset (rows (store k v t)) = add_mset (k, v) (mset (rows (erase k t)))"
begin

text \<open>The sum of a quantity over the rows.\<close>

definition total :: "('k \<Rightarrow> 'v \<Rightarrow> int) \<Rightarrow> 't \<Rightarrow> int" where
  "total f t = (\<Sum>r\<leftarrow>rows t. f (fst r) (snd r))"

definition part :: "('k \<Rightarrow> 'v \<Rightarrow> int) \<Rightarrow> 't \<Rightarrow> 'k \<Rightarrow> int" where
  "part f t k = (case lookup t k of None \<Rightarrow> 0 | Some u \<Rightarrow> f k u)"

lemma total_mset: "total f t = (\<Sum>r\<in>#mset (rows t). f (fst r) (snd r))"
  by (simp add: total_def flip: sum_mset_sum_list)

lemma total_erase: "ok t \<Longrightarrow> total f (erase k t) = total f t - part f t k"
proof (cases "lookup t k")
  case (Some u)
  assume "ok t"
  with Some have "(k, u) \<in># mset (rows t)" by (simp add: rows_lookup)
  then obtain M where "mset (rows t) = add_mset (k, u) M" by (meson mset_add)
  with Some \<open>ok t\<close> show ?thesis by (simp add: total_mset part_def rows_erase)
qed (simp add: total_mset part_def rows_erase)

lemma total_store: "ok t \<Longrightarrow> total f (store k v t) = total f t - part f t k + f k v"
  using total_erase [of t f k] by (simp add: total_mset rows_store)

lemma part_le_total:
  assumes "ok t" "\<And>k v. lookup t k = Some v \<Longrightarrow> 0 \<le> f k v"
  shows "part f t k \<le> total f t"
proof -
  have "0 \<le> total f (erase k t)"
    unfolding total_def
    using assms(2) rows_lookup [OF ok_erase [OF assms(1)]] lookup_erase [OF assms(1)]
    by (intro sum_list_nonneg) (auto split: if_splits)
  then show ?thesis using total_erase [OF assms(1)] by simp
qed

lemma total_nonneg:
  assumes "ok t" "\<And>k v. lookup t k = Some v \<Longrightarrow> 0 \<le> f k v"
  shows "0 \<le> total f t"
  unfolding total_def using assms by (intro sum_list_nonneg) (auto simp: rows_lookup)

lemma total_cong:
  assumes "ok t" "\<And>k v. lookup t k = Some v \<Longrightarrow> f k v = g k v"
  shows "total f t = total g t"
  unfolding total_def using assms by (intro arg_cong [where f = sum_list] map_cong) (auto simp: rows_lookup)

lemma total_add: "total (\<lambda>k v. f k v + g k v) t = total f t + total g t"
  by (simp add: total_def sum_list_addf)

end

subsection \<open>Key-ordered rows implement it\<close>

lemma tbl_put_keys: "set (map fst (tbl_put k v t)) = insert k (set (map fst t))"
  by (induction k v t rule: tbl_put.induct) auto

lemma tbl_ok_Cons: "tbl_ok (r # t) \<longleftrightarrow> (\<forall>k \<in> fst ` set t. fst r < k) \<and> tbl_ok t"
  by (simp add: tbl_ok_def)

lemma tbl_ok_Nil [simp]: "tbl_ok []"
  by (simp add: tbl_ok_def)

lemma tbl_ok_put: "tbl_ok t \<Longrightarrow> tbl_ok (tbl_put k v t)"
proof (induction k v t rule: tbl_put.induct)
  case (2 k v k' v' t)
  then show ?case
    using tbl_put_keys [of k v t] by (fastforce simp: tbl_ok_Cons)
qed (simp add: tbl_ok_def)

lemma tbl_ok_del: "tbl_ok t \<Longrightarrow> tbl_ok (tbl_del k t)"
  by (induction t) (auto simp: tbl_del_def tbl_ok_Cons)

lemma tbl_ok_distinct: "tbl_ok t \<Longrightarrow> distinct (map fst t)"
  by (simp add: tbl_ok_def strict_sorted_iff)

lemma tbl_find_put: "tbl_ok t \<Longrightarrow> tbl_find (tbl_put k v t) k' = (if k' = k then Some v else tbl_find t k')"
proof (induction k v t rule: tbl_put.induct)
  case (2 k v k1 v1 t)
  then show ?case by (auto simp: tbl_find_def tbl_ok_Cons)
qed (simp add: tbl_find_def)

lemma tbl_find_del: "tbl_find (tbl_del k t) k' = (if k' = k then None else tbl_find t k')"
  by (induction t) (auto simp: tbl_find_def tbl_del_def)

lemma tbl_rows_find: "tbl_ok t \<Longrightarrow> (k, v) \<in> set t \<longleftrightarrow> tbl_find t k = Some v"
  by (simp add: tbl_find_def tbl_ok_distinct map_of_eq_Some_iff)

lemma tbl_del_absent: "k \<notin> fst ` set t \<Longrightarrow> tbl_del k t = t"
  by (auto simp: tbl_del_def filter_id_conv)

lemma tbl_mset_del:
  "tbl_ok t \<Longrightarrow> mset (tbl_del k t) = mset t - (case tbl_find t k of None \<Rightarrow> {#} | Some u \<Rightarrow> {#(k, u)#})"
proof (induction t)
  case (Cons r t)
  show ?case
  proof (cases "fst r = k")
    case True
    then have "k \<notin> fst ` set t" using Cons(2) by (auto simp: tbl_ok_Cons)
    then show ?thesis using True tbl_del_absent [of k t]
      by (cases r) (simp add: tbl_del_def tbl_find_def)
  next
    case False
    then have "(case tbl_find (r # t) k of None \<Rightarrow> {#} | Some u \<Rightarrow> {#(k, u)#}) =
        (case tbl_find t k of None \<Rightarrow> {#} | Some u \<Rightarrow> {#(k, u)#})"
      by (cases r) (simp add: tbl_find_def)
    moreover have "r \<notin># (case tbl_find t k of None \<Rightarrow> {#} | Some u \<Rightarrow> {#(k, u)#})"
      using False by (auto split: option.splits)
    ultimately show ?thesis using Cons False
      by (simp add: tbl_del_def tbl_ok_Cons)
  qed
qed (simp add: tbl_del_def)

lemma tbl_mset_put: "tbl_ok t \<Longrightarrow> mset (tbl_put k v t) = add_mset (k, v) (mset (tbl_del k t))"
proof (induction k v t rule: tbl_put.induct)
  case (2 k v k' v' t)
  have d: "tbl_del k t = t" if "k \<le> k'"
    using 2(2) that by (intro tbl_del_absent) (fastforce simp: tbl_ok_Cons)
  consider "k < k'" | "k = k'" | "k' < k" by (rule linorder_cases)
  then show ?case
    using 2 d by cases (auto simp: tbl_del_def tbl_ok_Cons simp flip: mset_filter)
qed (simp add: tbl_del_def)

interpretation tbl: kv_table tbl_find tbl_put tbl_del "\<lambda>t. t" tbl_ok
  by unfold_locales
    (simp_all add: tbl_ok_put tbl_ok_del tbl_find_put tbl_find_del tbl_rows_find tbl_mset_del tbl_mset_put)

lemmas tbl_laws [tbl_simps] =
  tbl_ok_put tbl_ok_del tbl_find_put tbl_find_del tbl.total_store tbl.total_erase tbl.part_def

lemma tbl_total_Nil [tbl_simps]: "tbl.total f [] = 0"
  by (simp add: tbl.total_def)

lemma tbl_find_Nil [tbl_simps]: "tbl_find [] k = None"
  by (simp add: tbl_find_def)

lemma tbl_scope_find: "tbl_ok t \<Longrightarrow> (k, v) \<in> set (tbl_scope s t) \<longleftrightarrow> tbl_find t (s, k) = Some v"
  by (force simp: tbl_scope_def simp flip: tbl_rows_find)

lemma tbl_scope_distinct: "tbl_ok t \<Longrightarrow> distinct (map fst (tbl_scope s t))"
proof (induction t)
  case (Cons r t)
  then show ?case
    by (cases r rule: prod.exhaust [of r, case_product prod.exhaust]) (fastforce simp: tbl_scope_def tbl_ok_Cons)
qed (simp add: tbl_scope_def)

text \<open>A sorted table is determined by its lookups; a scope of a table is a table.\<close>

lemma tbl_scope_Cons: "tbl_scope s (((s', k), v) # t) = (if s' = s then (k, v) # tbl_scope s t else tbl_scope s t)"
  by (simp add: tbl_scope_def)

lemma tbl_scope_Nil: "tbl_scope s [] = []"
  by (simp add: tbl_scope_def)

lemma tbl_ok_scope: "tbl_ok t \<Longrightarrow> tbl_ok (tbl_scope s t)"
proof (induction t)
  case (Cons r t)
  obtain s' k v where r: "r = ((s', k), v)" by (metis prod.exhaust)
  have "k < k'" if "(k', v') \<in> set (tbl_scope s t)" "s' = s" for k' v'
    using that Cons(2) tbl_scope_find[of t k' v' s] by (auto simp: r tbl_ok_Cons simp flip: tbl_rows_find)
  then show ?case using Cons by (auto simp: r tbl_scope_Cons tbl_ok_Cons)
qed (simp add: tbl_scope_Nil)

lemma tbl_find_scope: "tbl_ok t \<Longrightarrow> tbl_find (tbl_scope s t) k = tbl_find t (s, k)"
  using tbl_scope_find[of t k _ s] tbl_rows_find[OF tbl_ok_scope, of t k _ s]
  by (metis not_None_eq)

lemma tbl_eta: "tbl_ok t \<Longrightarrow> map (\<lambda>k. (k, the (tbl_find t k))) (map fst t) = t"
proof -
  assume ok: "tbl_ok t"
  have "(fst r, the (tbl_find t (fst r))) = r" if r: "r \<in> set t" for r
  proof -
    have "tbl_find t (fst r) = Some (snd r)" using tbl_rows_find [OF ok, of "fst r" "snd r"] r by simp
    then show ?thesis by simp
  qed
  then show ?thesis by (simp add: map_idI)
qed

lemma tbl_eqI:
  assumes "tbl_ok t" "tbl_ok t'" "\<And>k. tbl_find t k = tbl_find t' k"
  shows "t = t'"
proof -
  have "(k, v) \<in> set t \<longleftrightarrow> (k, v) \<in> set t'" for k v
    using assms(3) by (simp add: tbl_rows_find assms(1,2))
  then have "set t = set t'" by auto
  then have "map fst t = map fst t'"
    using assms(1,2) by (intro sorted_distinct_set_unique) (auto simp: tbl_ok_def strict_sorted_iff)
  moreover have "(\<lambda>k. (k, the (tbl_find t k))) = (\<lambda>k. (k, the (tbl_find t' k)))" using assms(3) by simp
  ultimately show ?thesis
    using tbl_eta [OF assms(1)] tbl_eta [OF assms(2)] by simp
qed

lemma tbl_scope_put:
  assumes "tbl_ok t"
  shows "tbl_scope s (tbl_put (s', k) v t) = (if s = s' then tbl_put k v (tbl_scope s t) else tbl_scope s t)"
  using assms by (intro tbl_eqI) (auto simp: tbl_simps tbl_ok_scope tbl_find_scope)

lemma tbl_scope_del:
  assumes "tbl_ok t"
  shows "tbl_scope s (tbl_del (s', k) t) = (if s = s' then tbl_del k (tbl_scope s t) else tbl_scope s t)"
  using assms by (intro tbl_eqI) (auto simp: tbl_simps tbl_ok_scope tbl_find_scope)

text \<open>Erasing a list of distinct keys of one scope, each if it is present.\<close>

definition tbl_del_scope :: "'s \<Rightarrow> 'k list \<Rightarrow> ('s :: linorder \<times> 'k :: linorder, 'v) tbl \<Rightarrow> ('s \<times> 'k, 'v) tbl" where
  "tbl_del_scope s ks t = fold (\<lambda>k t. if tbl_find t (s, k) \<noteq> None then tbl_del (s, k) t else t) ks t"

lemma tbl_del_scope_laws:
  assumes "tbl_ok t" "distinct ks"
  shows "tbl_ok (tbl_del_scope s ks t)"
    and "tbl_find (tbl_del_scope s ks t) k = (if fst k = s \<and> snd k \<in> set ks then None else tbl_find t k)"
    and "tbl.total f (tbl_del_scope s ks t) = tbl.total f t - (\<Sum>k\<leftarrow>ks. tbl.part f t (s, k))"
proof -
  have "tbl_ok (tbl_del_scope s ks t) \<and>
    (\<forall>k. tbl_find (tbl_del_scope s ks t) k = (if fst k = s \<and> snd k \<in> set ks then None else tbl_find t k)) \<and>
    tbl.total f (tbl_del_scope s ks t) = tbl.total f t - (\<Sum>k\<leftarrow>ks. tbl.part f t (s, k))"
    using assms
  proof (induction ks arbitrary: t)
    case (Cons j ks)
    let ?t = "if tbl_find t (s, j) \<noteq> None then tbl_del (s, j) t else t"
    have ok: "tbl_ok ?t" using Cons(2) by (simp add: tbl_ok_del)
    have f: "tbl_find ?t k = (if k = (s, j) then None else tbl_find t k)" for k
      by (auto simp: tbl_find_del)
    have tot: "tbl.total f ?t = tbl.total f t - tbl.part f t (s, j)"
      using Cons(2) by (auto simp: tbl.total_erase tbl.part_def)
    have p: "(\<Sum>k\<leftarrow>ks. tbl.part f ?t (s, k)) = (\<Sum>k\<leftarrow>ks. tbl.part f t (s, k))"
      using Cons(3) by (intro arg_cong [where f = sum_list] map_cong) (auto simp: tbl.part_def tbl_find_del)
    have "tbl_del_scope s (j # ks) t = tbl_del_scope s ks ?t"
      by (simp add: tbl_del_scope_def)
    then show ?case
      using Cons.IH [OF ok] Cons(3) tot p f by (auto simp del: split_paired_All)
  qed (simp add: tbl_del_scope_def)
  then show "tbl_ok (tbl_del_scope s ks t)"
    and "tbl_find (tbl_del_scope s ks t) k = (if fst k = s \<and> snd k \<in> set ks then None else tbl_find t k)"
    and "tbl.total f (tbl_del_scope s ks t) = tbl.total f t - (\<Sum>k\<leftarrow>ks. tbl.part f t (s, k))"
    by blast+
qed

end
