(* ===== verification/Resource_Limits.thy ===== *)
theory Resource_Limits
  imports Names Multi_Index
begin

text \<open>
  The resource accounting of the node (\<open>libraries/chain/resource_limits.cpp\<close> and
  \<open>resource_limits_private.hpp\<close>): the moving-average usage accumulators, the elastic block limits, the
  weights of the accounts with their pending updates, and RAM usage.

  The chain database objects that the manager reads and writes are the fields of \<open>resource_db\<close>.
\<close>

datatype chain_error =
    Rate_limiting_state_inconsistent
  | Resource_limit_exception
  | Tx_cpu_usage_exceeded
  | Tx_net_usage_exceeded
  | Block_resource_exhausted
  | Transaction_exception
  | Ram_usage_exceeded
  | Object_not_found
  | Uniqueness_violation
  | Division_by_zero

subsection \<open>Integer helpers\<close>

record ratio =
  numerator :: int
  denominator :: int

definition ratio_mult :: "int \<Rightarrow> ratio \<Rightarrow> chain_error + int" where
  "ratio_mult v r =
     chk (numerator r = 0 \<or> UINT64_MAX div numerator r \<ge> v) Rate_limiting_state_inconsistent
      (chk (denominator r \<noteq> 0) Division_by_zero
        (Inr (u64 (v * numerator r) div denominator r)))"

definition integer_divide_ceil :: "int \<Rightarrow> int \<Rightarrow> int" where
  "integer_divide_ceil num den = num div den + (if num mod den > 0 then 1 else 0)"

text \<open>\<open>downgrade_cast\<close> to \<open>uint64_t\<close> and to \<open>int64_t\<close>, from \<open>uint128_t\<close>.\<close>

definition downgrade_u64 :: "int \<Rightarrow> chain_error + int" where
  "downgrade_u64 v = chk (v \<ge> 0 \<and> v \<le> UINT64_MAX) Rate_limiting_state_inconsistent (Inr v)"

definition downgrade_s64 :: "int \<Rightarrow> chain_error + int" where
  "downgrade_s64 v = chk (v \<ge> 0 \<and> v \<le> INT64_MAX) Rate_limiting_state_inconsistent (Inr v)"

definition rate_limiting_precision :: int where "rate_limiting_precision = 1000000"

subsection \<open>Usage accumulators\<close>

record usage_accumulator =
  last_ordinal :: int
  value_ex :: int
  consumed :: int

definition new_accumulator :: usage_accumulator where
  "new_accumulator = \<lparr>last_ordinal = 0, value_ex = 0, consumed = 0\<rparr>"

definition max_raw_value :: int where "max_raw_value = UINT64_MAX div rate_limiting_precision"

definition average :: "usage_accumulator \<Rightarrow> int" where
  "average a = integer_divide_ceil (value_ex a) rate_limiting_precision"

text \<open>The part of \<open>add\<close> that moves the accumulator to a later period.\<close>

definition acc_advance :: "usage_accumulator \<Rightarrow> int \<Rightarrow> int \<Rightarrow> chain_error + usage_accumulator" where
  "acc_advance a ordinal window_size =
     (if last_ordinal a \<noteq> ordinal then
        chk (ordinal > last_ordinal a) Resource_limit_exception
         (bnd (if last_ordinal a + window_size > ordinal
               then (let delta = u32 (ordinal - last_ordinal a) in
                     ratio_mult (value_ex a) \<lparr>numerator = u64 (window_size - delta), denominator = window_size\<rparr>)
               else Inr 0) (\<lambda>v.
          Inr (let a' = a\<lparr>value_ex := v, last_ordinal := ordinal\<rparr> in a'\<lparr>consumed := average a'\<rparr>)))
      else Inr a)"

definition acc_add :: "usage_accumulator \<Rightarrow> int \<Rightarrow> int \<Rightarrow> int \<Rightarrow> chain_error + usage_accumulator" where
  "acc_add a units ordinal window_size =
     chk (units \<le> max_raw_value) Rate_limiting_state_inconsistent
     (chk (UINT64_MAX - consumed a \<ge> units) Rate_limiting_state_inconsistent
     (chk (window_size \<noteq> 0) Division_by_zero
     (bnd (downgrade_u64 (integer_divide_ceil (u128 (units * rate_limiting_precision)) window_size)) (\<lambda>contrib.
      chk (UINT64_MAX - value_ex a \<ge> contrib) Rate_limiting_state_inconsistent
       (bnd (acc_advance a ordinal window_size) (\<lambda>a'.
        Inr (a'\<lparr>consumed := u64 (consumed a' + units), value_ex := u64 (value_ex a' + contrib)\<rparr>)))))))"

subsection \<open>Elastic limits\<close>

record elastic_limit_parameters =
  el_target :: int
  el_max :: int
  el_periods :: int
  el_max_multiplier :: int
  el_contract_rate :: ratio
  el_expand_rate :: ratio

definition el_validate :: "elastic_limit_parameters \<Rightarrow> chain_error + unit" where
  "el_validate p =
     chk (el_periods p > 0) Resource_limit_exception
     (chk (denominator (el_contract_rate p) > 0) Resource_limit_exception
     (chk (denominator (el_expand_rate p) > 0) Resource_limit_exception (Inr ())))"

definition update_elastic_limit :: "int \<Rightarrow> int \<Rightarrow> elastic_limit_parameters \<Rightarrow> chain_error + int" where
  "update_elastic_limit current_limit average_usage params =
     bnd (if average_usage > el_target params
          then ratio_mult current_limit (el_contract_rate params)
          else ratio_mult current_limit (el_expand_rate params)) (\<lambda>result.
     Inr (min (max result (el_max params)) (u64 (el_max params * el_max_multiplier params))))"

record gmr_parameters =
  ram_byte :: int
  cpu_us :: int
  net_byte :: int

definition gmr_validate :: "gmr_parameters \<Rightarrow> chain_error + unit" where
  "gmr_validate g =
     chk (cpu_us g > 0) Resource_limit_exception
     (chk (net_byte g > 0) Resource_limit_exception
     (chk (ram_byte g \<ge> 0) Resource_limit_exception (Inr ())))"

subsection \<open>Database objects\<close>

record resource_limits_object =
  net_weight :: int
  cpu_weight :: int
  ram_bytes :: int

definition new_limits :: resource_limits_object where
  "new_limits = \<lparr>net_weight = -1, cpu_weight = -1, ram_bytes = -1\<rparr>"

record resource_usage_object =
  net_usage :: usage_accumulator
  cpu_usage :: usage_accumulator
  ram_usage :: int

definition new_usage :: resource_usage_object where
  "new_usage = \<lparr>net_usage = new_accumulator, cpu_usage = new_accumulator, ram_usage = 0\<rparr>"

record resource_limits_config =
  cpu_limit_parameters :: elastic_limit_parameters
  net_limit_parameters :: elastic_limit_parameters
  account_cpu_usage_average_window :: int
  account_net_usage_average_window :: int

record resource_limits_state =
  average_block_net_usage :: usage_accumulator
  average_block_cpu_usage :: usage_accumulator
  pending_net_usage :: int
  pending_cpu_usage :: int
  total_net_weight :: int
  total_cpu_weight :: int
  total_ram_bytes :: int
  virtual_net_limit :: int
  virtual_cpu_limit :: int

text \<open>The limits are indexed by (pending, owner). \<open>vote4ramsum\<close> is the table of that name of the
  system contract (staked core tokens per account), \<open>num_config\<close> the numeric on-chain configuration.\<close>

record resource_db =
  limits :: "(bool \<times> account_name, resource_limits_object) tbl"
  usage :: "(account_name, resource_usage_object) tbl"
  rl_state :: resource_limits_state
  rl_config :: resource_limits_config
  gmr :: gmr_parameters
  vote4ramsum :: "(account_name, int) tbl"
  num_config :: "(name, int) tbl"

text \<open>\<open>EOS_PERCENT\<close>, and the parameters that the configuration object and the end of every block use.\<close>

definition percent :: "int \<Rightarrow> int \<Rightarrow> int" where
  "percent v pct = u64 (v * pct) div 10000"

definition block_elastic :: "int \<Rightarrow> int \<Rightarrow> elastic_limit_parameters" where
  "block_elastic m tgt = \<lparr>el_target = tgt, el_max = m, el_periods = 20, el_max_multiplier = 1000,
     el_contract_rate = \<lparr>numerator = 99, denominator = 100\<rparr>, el_expand_rate = \<lparr>numerator = 1000, denominator = 999\<rparr>\<rparr>"

definition default_config :: resource_limits_config where
  "default_config = \<lparr>cpu_limit_parameters = block_elastic 1000000 (percent 1000000 1000), net_limit_parameters = block_elastic 1048576 (percent 1048576 1000),
     account_cpu_usage_average_window = 28800, account_net_usage_average_window = 28800\<rparr>"

definition default_gmr :: gmr_parameters where
  "default_gmr = \<lparr>ram_byte = 8192, cpu_us = 200000, net_byte = 10240\<rparr>"

definition initialize_database :: resource_db where
  "initialize_database =
     \<lparr>limits = [], usage = [],
      rl_state = \<lparr>average_block_net_usage = new_accumulator, average_block_cpu_usage = new_accumulator,
        pending_net_usage = 0, pending_cpu_usage = 0, total_net_weight = 0, total_cpu_weight = 0, total_ram_bytes = 0,
        virtual_net_limit = el_max (net_limit_parameters default_config),
        virtual_cpu_limit = el_max (cpu_limit_parameters default_config)\<rparr>,
      rl_config = default_config, gmr = default_gmr, vote4ramsum = [], num_config = []\<rparr>"

definition set_gmr_parameters :: "gmr_parameters \<Rightarrow> resource_db \<Rightarrow> chain_error + resource_db" where
  "set_gmr_parameters g db = bnd (gmr_validate g) (\<lambda>_. Inr (db\<lparr>gmr := g\<rparr>))"

definition initialize_account :: "account_name \<Rightarrow> resource_db \<Rightarrow> chain_error + resource_db" where
  "initialize_account account db =
     chk (tbl_find (limits db) (False, account) = None) Uniqueness_violation
     (chk (tbl_find (usage db) account = None) Uniqueness_violation
       (Inr (db\<lparr>limits := tbl_put (False, account) new_limits (limits db),
                usage := tbl_put account new_usage (usage db)\<rparr>)))"

definition set_block_parameters ::
  "elastic_limit_parameters \<Rightarrow> elastic_limit_parameters \<Rightarrow> resource_db \<Rightarrow> chain_error + resource_db" where
  "set_block_parameters cpu net db =
     bnd (el_validate cpu) (\<lambda>_. bnd (el_validate net) (\<lambda>_.
     Inr (db\<lparr>rl_config := (rl_config db)\<lparr>cpu_limit_parameters := cpu, net_limit_parameters := net\<rparr>\<rparr>)))"

definition update_account_usage ::
  "account_name list \<Rightarrow> int \<Rightarrow> resource_db \<Rightarrow> chain_error + resource_db" where
  "update_account_usage accounts time_slot db =
     for_each (\<lambda>a db.
       need (tbl_find (usage db) a) Object_not_found (\<lambda>bu.
       bnd (acc_add (net_usage bu) 0 time_slot (account_net_usage_average_window (rl_config db))) (\<lambda>n.
       bnd (acc_add (cpu_usage bu) 0 time_slot (account_cpu_usage_average_window (rl_config db))) (\<lambda>c.
       Inr (db\<lparr>usage := tbl_put a (bu\<lparr>net_usage := n, cpu_usage := c\<rparr>) (usage db)\<rparr>))))) accounts db"

subsection \<open>Account limits\<close>

definition unlimited_ram_accounts :: "account_name list" where
  "unlimited_ram_accounts =
     [system_account_name, token_account_name, msig_account_name, bios_account_name, relay_account_name]"

definition get_num_config_on_chain :: "resource_db \<Rightarrow> name \<Rightarrow> int \<Rightarrow> int" where
  "get_num_config_on_chain db typ default_value =
     (case tbl_find (num_config db) typ of None \<Rightarrow> default_value | Some n \<Rightarrow> n)"

definition ram_rent_b_per_eos :: name where "ram_rent_b_per_eos = string_to_name ''res.ramrent''"

definition get_account_ram_limit :: "resource_db \<Rightarrow> account_name \<Rightarrow> int" where
  "get_account_ram_limit db name =
     (let init_ram_size = s64 (ram_byte (gmr db)) in
      if name \<in> set unlimited_ram_accounts then -1
      else (case tbl_find (vote4ramsum db) name of
              None \<Rightarrow> init_ram_size
            | Some staked \<Rightarrow>
                let ram_rent = get_num_config_on_chain db ram_rent_b_per_eos 10240 in
                s64 (tdiv (s64 (staked * ram_rent)) 1000000 + init_ram_size)))"

text \<open>\<open>(ram_bytes, net_weight, cpu_weight)\<close>.\<close>

definition get_account_limits :: "resource_db \<Rightarrow> account_name \<Rightarrow> chain_error + int \<times> int \<times> int" where
  "get_account_limits db account =
     (case tbl_find (limits db) (True, account) of
        Some p \<Rightarrow> Inr (get_account_ram_limit db account, net_weight p, cpu_weight p)
      | None \<Rightarrow> need (tbl_find (limits db) (False, account)) Object_not_found
          (\<lambda>b. Inr (get_account_ram_limit db account, net_weight b, cpu_weight b)))"

definition set_account_limits ::
  "account_name \<Rightarrow> int \<Rightarrow> int \<Rightarrow> int \<Rightarrow> resource_db \<Rightarrow> chain_error + bool \<times> resource_db" where
  "set_account_limits account ram net cpu db =
     bnd (case tbl_find (limits db) (True, account) of
            Some p \<Rightarrow> Inr p
          | None \<Rightarrow> need (tbl_find (limits db) (False, account)) Object_not_found Inr) (\<lambda>p.
     Inr (ram \<ge> 0 \<and> (ram_bytes p < 0 \<or> ram < ram_bytes p),
          db\<lparr>limits := tbl_put (True, account) (p\<lparr>ram_bytes := ram, net_weight := net, cpu_weight := cpu\<rparr>) (limits db)\<rparr>))"

subsection \<open>Transaction usage\<close>

text \<open>The capacity check of \<open>add_transaction_usage\<close>, for CPU and for NET.\<close>

definition max_use_in_window :: "int \<Rightarrow> int \<Rightarrow> int \<Rightarrow> int \<Rightarrow> int \<Rightarrow> int" where
  "max_use_in_window virtual_limit window_size user_weight all_user_weight free =
     u128 (u128 (u128 (virtual_limit * window_size) * user_weight) div all_user_weight + free)"

definition used_in_window :: "int \<Rightarrow> int \<Rightarrow> int" where
  "used_in_window value window_size = u128 (value * window_size) div rate_limiting_precision"

definition add_account_usage ::
  "int \<Rightarrow> int \<Rightarrow> int \<Rightarrow> account_name \<Rightarrow> resource_db \<Rightarrow> chain_error + resource_db" where
  "add_account_usage cpu net time_slot a db =
     need (tbl_find (usage db) a) Object_not_found (\<lambda>bu.
     bnd (get_account_limits db a) (\<lambda>(_, netw, cpuw).
     bnd (acc_add (net_usage bu) net time_slot (account_net_usage_average_window (rl_config db))) (\<lambda>n.
     bnd (acc_add (cpu_usage bu) cpu time_slot (account_cpu_usage_average_window (rl_config db))) (\<lambda>c.
     chk (\<not> (cpuw \<ge> 0 \<and> total_cpu_weight (rl_state db) > 0) \<or>
          used_in_window (value_ex c) (account_cpu_usage_average_window (rl_config db)) \<le>
          max_use_in_window (virtual_cpu_limit (rl_state db)) (account_cpu_usage_average_window (rl_config db)) cpuw
            (total_cpu_weight (rl_state db)) (cpu_us (gmr db))) Tx_cpu_usage_exceeded
     (chk (\<not> (netw \<ge> 0 \<and> total_net_weight (rl_state db) > 0) \<or>
          used_in_window (value_ex n) (account_net_usage_average_window (rl_config db)) \<le>
          max_use_in_window (virtual_net_limit (rl_state db)) (account_net_usage_average_window (rl_config db)) netw
            (total_net_weight (rl_state db)) (cpu_us (gmr db))) Tx_net_usage_exceeded
       (Inr (db\<lparr>usage := tbl_put a (bu\<lparr>net_usage := n, cpu_usage := c\<rparr>) (usage db)\<rparr>)))))))"

definition add_transaction_usage ::
  "account_name list \<Rightarrow> int \<Rightarrow> int \<Rightarrow> int \<Rightarrow> resource_db \<Rightarrow> chain_error + resource_db" where
  "add_transaction_usage accounts cpu net time_slot db =
     bnd (for_each (add_account_usage cpu net time_slot) accounts db) (\<lambda>db1.
     let st = rl_state db1;
         st' = st\<lparr>pending_cpu_usage := u64 (pending_cpu_usage st + cpu),
                 pending_net_usage := u64 (pending_net_usage st + net)\<rparr> in
     chk (pending_cpu_usage st' \<le> el_max (cpu_limit_parameters (rl_config db1))) Block_resource_exhausted
     (chk (pending_net_usage st' \<le> el_max (net_limit_parameters (rl_config db1))) Block_resource_exhausted
       (Inr (db1\<lparr>rl_state := st'\<rparr>))))"

subsection \<open>RAM\<close>

definition add_pending_ram_usage :: "account_name \<Rightarrow> int \<Rightarrow> resource_db \<Rightarrow> chain_error + resource_db" where
  "add_pending_ram_usage account ram_delta db =
     (if ram_delta = 0 then Inr db
      else need (tbl_find (usage db) account) Object_not_found (\<lambda>u.
        chk (ram_delta \<le> 0 \<or> UINT64_MAX - ram_usage u \<ge> u64 ram_delta) Transaction_exception
        (chk (ram_delta \<ge> 0 \<or> ram_usage u \<ge> u64 (- ram_delta)) Transaction_exception
          (Inr (db\<lparr>usage := tbl_put account (u\<lparr>ram_usage := u64 (ram_usage u + ram_delta)\<rparr>) (usage db)\<rparr>)))))"

definition verify_account_ram_usage :: "account_name \<Rightarrow> resource_db \<Rightarrow> chain_error + unit" where
  "verify_account_ram_usage account db =
     bnd (get_account_limits db account) (\<lambda>(ram, _, _).
     need (tbl_find (usage db) account) Object_not_found (\<lambda>u.
     chk (ram \<ge> 0 \<longrightarrow> ram_usage u \<le> ram) Ram_usage_exceeded (Inr ())))"

definition get_account_ram_usage :: "account_name \<Rightarrow> resource_db \<Rightarrow> chain_error + int" where
  "get_account_ram_usage name db = need (tbl_find (usage db) name) Object_not_found (\<lambda>u. Inr (s64 (ram_usage u)))"

subsection \<open>Pending limit updates\<close>

text \<open>\<open>update_state_and_value\<close>: the new total; the value becomes the pending value.\<close>

definition update_total :: "int \<Rightarrow> int \<Rightarrow> int \<Rightarrow> chain_error + int" where
  "update_total tot v pending_v =
     bnd (if v > 0 then chk (tot \<ge> v) Rate_limiting_state_inconsistent (Inr (tot - v)) else Inr tot) (\<lambda>t.
     if pending_v > 0 then chk (UINT64_MAX - t \<ge> pending_v) Rate_limiting_state_inconsistent (Inr (t + pending_v))
     else Inr t)"

definition apply_pending ::
  "account_name \<Rightarrow> resource_limits_object \<Rightarrow> resource_db \<Rightarrow> chain_error + resource_db" where
  "apply_pending owner p db =
     need (tbl_find (limits db) (False, owner)) Object_not_found (\<lambda>rlo.
     let st = rl_state db in
     bnd (update_total (total_ram_bytes st) (ram_bytes rlo) (ram_bytes p)) (\<lambda>r.
     bnd (update_total (total_cpu_weight st) (cpu_weight rlo) (cpu_weight p)) (\<lambda>c.
     bnd (update_total (total_net_weight st) (net_weight rlo) (net_weight p)) (\<lambda>n.
     Inr (db\<lparr>limits := tbl_del (True, owner)
               (tbl_put (False, owner)
                 (rlo\<lparr>ram_bytes := ram_bytes p, cpu_weight := cpu_weight p, net_weight := net_weight p\<rparr>) (limits db)),
             rl_state := st\<lparr>total_ram_bytes := r, total_cpu_weight := c, total_net_weight := n\<rparr>\<rparr>)))))"

text \<open>The loop takes the first pending entry until there is none; the number of entries bounds it.\<close>

fun process_limit_loop :: "nat \<Rightarrow> resource_db \<Rightarrow> chain_error + resource_db" where
  "process_limit_loop 0 db = Inr db"
| "process_limit_loop (Suc fuel) db =
     (case tbl_scope True (limits db) of
        [] \<Rightarrow> Inr db
      | (owner, p) # _ \<Rightarrow> bnd (apply_pending owner p db) (process_limit_loop fuel))"

definition process_account_limit_updates :: "resource_db \<Rightarrow> chain_error + resource_db" where
  "process_account_limit_updates db = process_limit_loop (length (limits db)) db"

subsection \<open>Blocks\<close>

definition update_virtual_cpu_limit :: "resource_limits_config \<Rightarrow> resource_limits_state \<Rightarrow> chain_error + resource_limits_state" where
  "update_virtual_cpu_limit cfg st =
     bnd (update_elastic_limit (virtual_cpu_limit st) (average (average_block_cpu_usage st)) (cpu_limit_parameters cfg))
       (\<lambda>v. Inr (st\<lparr>virtual_cpu_limit := v\<rparr>))"

definition update_virtual_net_limit :: "resource_limits_config \<Rightarrow> resource_limits_state \<Rightarrow> chain_error + resource_limits_state" where
  "update_virtual_net_limit cfg st =
     bnd (update_elastic_limit (virtual_net_limit st) (average (average_block_net_usage st)) (net_limit_parameters cfg))
       (\<lambda>v. Inr (st\<lparr>virtual_net_limit := v\<rparr>))"

definition process_block_usage :: "int \<Rightarrow> resource_db \<Rightarrow> chain_error + resource_db" where
  "process_block_usage block_num db =
     (let st = rl_state db; cfg = rl_config db in
      bnd (acc_add (average_block_cpu_usage st) (pending_cpu_usage st) block_num (el_periods (cpu_limit_parameters cfg))) (\<lambda>a.
      bnd (update_virtual_cpu_limit cfg (st\<lparr>average_block_cpu_usage := a\<rparr>)) (\<lambda>st1.
      bnd (acc_add (average_block_net_usage st1) (pending_net_usage st1) block_num (el_periods (net_limit_parameters cfg))) (\<lambda>b.
      bnd (update_virtual_net_limit cfg (st1\<lparr>pending_cpu_usage := 0, average_block_net_usage := b\<rparr>)) (\<lambda>st2.
      Inr (db\<lparr>rl_state := st2\<lparr>pending_net_usage := 0\<rparr>\<rparr>))))))"

text \<open>
  The end of a block: what \<open>controller_impl::finalize_block\<close> (\<open>controller.cpp\<close>) does with the resource limits,
  with the maxima and targets of the chain configuration and the free quotas of the block.
\<close>

record chain_config =
  max_block_cpu_usage :: int
  target_block_cpu_usage_pct :: int
  max_block_net_usage :: int
  target_block_net_usage_pct :: int

definition finalize_block_limits :: "chain_config \<Rightarrow> gmr_parameters \<Rightarrow> int \<Rightarrow> resource_db \<Rightarrow> chain_error + resource_db" where
  "finalize_block_limits cfg g block_num db =
     bnd (process_account_limit_updates db) (\<lambda>db1.
     bnd (set_block_parameters
            (block_elastic (max_block_cpu_usage cfg) (percent (max_block_cpu_usage cfg) (target_block_cpu_usage_pct cfg)))
            (block_elastic (max_block_net_usage cfg) (percent (max_block_net_usage cfg) (target_block_net_usage_pct cfg))) db1) (\<lambda>db2.
     bnd (process_block_usage block_num db2) (\<lambda>db3.
     set_gmr_parameters g db3)))"

definition get_block_cpu_limit :: "resource_db \<Rightarrow> int" where
  "get_block_cpu_limit db = u64 (el_max (cpu_limit_parameters (rl_config db)) - pending_cpu_usage (rl_state db))"

definition get_block_net_limit :: "resource_db \<Rightarrow> int" where
  "get_block_net_limit db = u64 (el_max (net_limit_parameters (rl_config db)) - pending_net_usage (rl_state db))"

subsection \<open>Account limits as reported\<close>

record account_resource_limit =
  arl_used :: int
  arl_available :: int
  arl_max :: int

definition arl_of :: "int \<Rightarrow> int \<Rightarrow> chain_error + account_resource_limit" where
  "arl_of max_user_use used =
     bnd (if max_user_use \<le> used then Inr 0 else downgrade_s64 (max_user_use - used)) (\<lambda>avail.
     bnd (downgrade_s64 used) (\<lambda>u.
     bnd (downgrade_s64 max_user_use) (\<lambda>m.
     Inr \<lparr>arl_used = u, arl_available = avail, arl_max = m\<rparr>)))"

definition get_account_cpu_limit_ex :: "resource_db \<Rightarrow> account_name \<Rightarrow> bool \<Rightarrow> chain_error + account_resource_limit" where
  "get_account_cpu_limit_ex db name elastic =
     need (tbl_find (usage db) name) Object_not_found (\<lambda>us.
     bnd (get_account_limits db name) (\<lambda>(_, _, cpuw).
     let st = rl_state db; cfg = rl_config db; window_size = account_cpu_usage_average_window cfg in
     if cpuw < 0 \<or> total_cpu_weight st = 0
     then Inr \<lparr>arl_used = -1, arl_available = -1, arl_max = -1\<rparr>
     else arl_of
       (max_use_in_window (if elastic then virtual_cpu_limit st else el_max (cpu_limit_parameters cfg)) window_size
          cpuw (total_cpu_weight st) (cpu_us (gmr db)))
       (integer_divide_ceil (u128 (value_ex (cpu_usage us) * window_size)) rate_limiting_precision)))"

definition get_account_net_limit_ex :: "resource_db \<Rightarrow> account_name \<Rightarrow> bool \<Rightarrow> chain_error + account_resource_limit" where
  "get_account_net_limit_ex db name elastic =
     need (tbl_find (usage db) name) Object_not_found (\<lambda>us.
     bnd (get_account_limits db name) (\<lambda>(_, netw, _).
     let st = rl_state db; cfg = rl_config db; window_size = account_net_usage_average_window cfg in
     if netw < 0 \<or> total_net_weight st = 0
     then Inr \<lparr>arl_used = -1, arl_available = -1, arl_max = -1\<rparr>
     else arl_of
       (max_use_in_window (if elastic then virtual_net_limit st else el_max (net_limit_parameters cfg)) window_size
          netw (total_net_weight st) (net_byte (gmr db)))
       (integer_divide_ceil (u128 (value_ex (net_usage us) * window_size)) rate_limiting_precision)))"

definition get_account_cpu_limit :: "resource_db \<Rightarrow> account_name \<Rightarrow> bool \<Rightarrow> chain_error + int" where
  "get_account_cpu_limit db name elastic = bnd (get_account_cpu_limit_ex db name elastic) (\<lambda>arl. Inr (arl_available arl))"

definition get_account_net_limit :: "resource_db \<Rightarrow> account_name \<Rightarrow> bool \<Rightarrow> chain_error + int" where
  "get_account_net_limit db name elastic = bnd (get_account_net_limit_ex db name elastic) (\<lambda>arl. Inr (arl_available arl))"

subsection \<open>Accumulators stay in range\<close>

lemma integer_divide_ceil_nonneg: "0 \<le> n \<Longrightarrow> 0 < d \<Longrightarrow> 0 \<le> integer_divide_ceil n d"
  by (simp add: integer_divide_ceil_def pos_imp_zdiv_nonneg_iff)

lemma integer_divide_ceil_bounds:
  assumes "0 < d"
  shows "n \<le> integer_divide_ceil n d * d" "integer_divide_ceil n d * d < n + d"
proof -
  have e: "d * (n div d) = n - n mod d" by (simp add: minus_mod_eq_mult_div)
  have m: "0 \<le> n mod d" "n mod d < d" using assms by simp_all
  have c: "integer_divide_ceil n d * d = n - n mod d + (if n mod d > 0 then d else 0)"
    by (simp add: integer_divide_ceil_def distrib_right mult.commute [of "n div d" d] e)
  consider "0 < n mod d" "integer_divide_ceil n d * d = n - n mod d + d" | "n mod d = 0" "integer_divide_ceil n d * d = n"
    using c m by (cases "0 < n mod d") auto
  then show "n \<le> integer_divide_ceil n d * d" "integer_divide_ceil n d * d < n + d"
    using m assms by (cases; linarith)+
qed

lemma integer_divide_ceil_mono:
  assumes "0 < d" "n \<le> m"
  shows "integer_divide_ceil n d \<le> integer_divide_ceil m d"
proof (rule ccontr)
  assume "\<not> ?thesis"
  then have "integer_divide_ceil m d + 1 \<le> integer_divide_ceil n d" by simp
  then have "(integer_divide_ceil m d + 1) * d \<le> integer_divide_ceil n d * d"
    using assms(1) by (intro mult_right_mono) auto
  then show False
    using integer_divide_ceil_bounds [OF assms(1), of n] integer_divide_ceil_bounds [OF assms(1), of m] assms(2)
    by (simp add: algebra_simps)
qed

lemma integer_divide_ceil_le: "0 < d \<Longrightarrow> 0 \<le> n \<Longrightarrow> integer_divide_ceil n d \<le> n"
proof -
  assume d: "0 < d" and n: "0 \<le> n"
  show ?thesis
  proof (rule ccontr)
    assume "\<not> ?thesis"
    then have "(n + 1) * d \<le> integer_divide_ceil n d * d" using d by (intro mult_right_mono) auto
    then show False using integer_divide_ceil_bounds [OF d, of n] n d mult_left_mono [of 1 d n]
      by (simp add: algebra_simps)
  qed
qed

lemma precision_pos [simp]: "0 < rate_limiting_precision"
  by (simp add: rate_limiting_precision_def)

lemma units_precision:
  assumes "0 \<le> units" "units \<le> max_raw_value"
  shows "u128 (units * rate_limiting_precision) = units * rate_limiting_precision"
  using assms by (intro u128_id) (auto simp: max_raw_value_def rate_limiting_precision_def UINT64_MAX_def)

text \<open>One block: an accumulator that receives at most \<open>M\<close> units per period, over \<open>p\<close> periods, keeps
  \<open>value_ex\<close> below \<open>p \<lceil>M P / p\<rceil>\<close>, and never overflows.\<close>

definition acc_step_bound :: "int \<Rightarrow> int \<Rightarrow> int" where
  "acc_step_bound M p = integer_divide_ceil (M * rate_limiting_precision) p"

definition acc_bounded :: "int \<Rightarrow> int \<Rightarrow> int \<Rightarrow> usage_accumulator \<Rightarrow> bool" where
  "acc_bounded M p n a \<longleftrightarrow> 0 \<le> last_ordinal a \<and> last_ordinal a \<le> n \<and>
     0 \<le> value_ex a \<and> value_ex a \<le> p * acc_step_bound M p \<and>
     0 \<le> consumed a \<and> consumed a \<le> p * acc_step_bound M p + M"

definition acc_room :: "int \<Rightarrow> int \<Rightarrow> bool" where
  "acc_room M p \<longleftrightarrow> 0 < p \<and> p \<le> UINT32_MAX \<and> 0 \<le> M \<and> M \<le> max_raw_value \<and>
     p * acc_step_bound M p * (p + 1) \<le> UINT64_MAX \<and> p * acc_step_bound M p + 2 * M \<le> UINT64_MAX"

lemma mult_le_trans: "0 \<le> x \<Longrightarrow> x \<le> y \<Longrightarrow> 0 \<le> (k::int) \<Longrightarrow> k \<le> l \<Longrightarrow> x * k \<le> y * l"
  by (rule mult_mono) auto

lemma div_mult_bound:
  assumes "0 \<le> v" "v \<le> p * c" "0 < (p::int)" "0 \<le> k" "k \<le> p - 1" "0 \<le> c"
  shows "v * k div p \<le> (p - 1) * c"
proof -
  have "v * k \<le> (p * c) * (p - 1)" using assms by (intro mult_mono) auto
  then have "v * k \<le> ((p - 1) * c) * p" by (simp add: algebra_simps)
  then show ?thesis using zdiv_mono1 [of _ _ p] assms(3) by fastforce
qed

lemma acc_add_bounded:
  assumes room: "acc_room M p" and a: "acc_bounded M p m a" and u: "0 \<le> units" "units \<le> M"
    and n: "m < n" "n \<le> UINT32_MAX"
  shows "\<exists>a'. acc_add a units n p = Inr a' \<and> acc_bounded M p n a'"
proof -
  let ?c = "acc_step_bound M p" and ?k = "integer_divide_ceil (units * rate_limiting_precision) p"
  note r = room [unfolded acc_room_def] and b = a [unfolded acc_bounded_def]
  have k: "0 \<le> ?k" "?k \<le> ?c"
    unfolding acc_step_bound_def using r u
    by (auto simp: rate_limiting_precision_def intro!: integer_divide_ceil_nonneg integer_divide_ceil_mono)
  have c: "0 \<le> ?c" using k by simp
  have pc: "?c \<le> p * ?c" using mult_right_mono [of 1 p ?c] r c by simp
  have pcp: "p * ?c + ?c \<le> UINT64_MAX" "p * ?c * p \<le> UINT64_MAX"
  proof -
    have "0 \<le> p * ?c" using r c by simp
    moreover from this have "p * ?c * 1 \<le> p * ?c * p" using r by (intro mult_left_mono) auto
    moreover have "p * ?c * (p + 1) = p * ?c * p + p * ?c" by (simp add: algebra_simps)
    moreover have "p * ?c * (p + 1) \<le> UINT64_MAX" using r by blast
    ultimately show "p * ?c + ?c \<le> UINT64_MAX" "p * ?c * p \<le> UINT64_MAX" using pc by linarith+
  qed
  have mr: "units \<le> max_raw_value" using u r by simp
  have dg: "downgrade_u64 ?k = Inr ?k" using k pcp pc c by (simp add: downgrade_u64_def)
  have "\<exists>v. acc_advance a n p = Inr (let a' = a\<lparr>value_ex := v, last_ordinal := n\<rparr> in a'\<lparr>consumed := average a'\<rparr>) \<and>
     0 \<le> v \<and> v \<le> (p - 1) * ?c"
  proof (cases "last_ordinal a + p > n")
    case True
    let ?d = "n - last_ordinal a"
    have d: "0 < ?d" "?d < p" "u32 ?d = ?d" "u64 (p - ?d) = p - ?d"
      using True b n r by (auto simp: u32_def u64_def UINT32_MAX_def)
    have le: "value_ex a * (p - ?d) \<le> p * ?c * p" using b d by (intro mult_mono) auto
    have "value_ex a \<le> UINT64_MAX div (p - ?d)"
    proof -
      have "value_ex a * (p - ?d) div (p - ?d) \<le> UINT64_MAX div (p - ?d)"
        using le pcp d by (intro zdiv_mono1) auto
      then show ?thesis using d by simp
    qed
    moreover have "u64 (value_ex a * (p - ?d)) = value_ex a * (p - ?d)"
      using le pcp b d by (intro u64_id) auto
    ultimately have "ratio_mult (value_ex a) \<lparr>numerator = u64 (p - u32 ?d), denominator = p\<rparr> = Inr (value_ex a * (p - ?d) div p)"
      using d r by (simp add: ratio_mult_def)
    moreover have "value_ex a * (p - ?d) div p \<le> (p - 1) * ?c"
      using b d c r by (intro div_mult_bound) auto
    moreover have "0 \<le> value_ex a * (p - ?d) div p" using b d r by (simp add: pos_imp_zdiv_nonneg_iff)
    ultimately show ?thesis using True b n by (auto simp: acc_advance_def Let_def)
  next
    case False
    then show ?thesis using b n r c by (intro exI [of _ 0]) (simp add: acc_advance_def Let_def)
  qed
  then obtain v where adv: "acc_advance a n p = Inr (let a' = a\<lparr>value_ex := v, last_ordinal := n\<rparr> in a'\<lparr>consumed := average a'\<rparr>)"
    and v: "0 \<le> v" "v \<le> (p - 1) * ?c" by blast
  have vk: "v + ?k \<le> p * ?c" using v k by (simp add: algebra_simps)
  let ?av = "integer_divide_ceil v rate_limiting_precision"
  have av: "0 \<le> ?av" "?av \<le> v" using v by (auto intro: integer_divide_ceil_nonneg integer_divide_ceil_le)
  have pos: "p * ?c + 2 * M \<le> UINT64_MAX" "0 \<le> p * ?c" using r c by auto
  have w: "u64 (v + ?k) = v + ?k" "u64 (?av + units) = ?av + units"
    using v k vk av u pos by (auto intro!: u64_id)
  have chks: "units \<le> UINT64_MAX - consumed a" "?k \<le> UINT64_MAX - value_ex a" "p \<noteq> 0"
    using b u pos k pcp r by auto
  have "acc_add a units n p = Inr (a\<lparr>value_ex := v + ?k, last_ordinal := n, consumed := ?av + units\<rparr>)"
    using mr chks adv w dg by (simp add: acc_add_def units_precision u Let_def average_def)
  moreover have "acc_bounded M p n (a\<lparr>value_ex := v + ?k, last_ordinal := n, consumed := ?av + units\<rparr>)"
    using v k vk av u b n by (auto simp: acc_bounded_def)
  ultimately show ?thesis by blast
qed

subsection \<open>The end of a block\<close>

text \<open>The bounds that hold whatever 32-bit block limits the chain configuration sets: 20 periods (60 s of 3 s blocks)
  and a multiplier of 1000.\<close>

abbreviation M32 :: int where "M32 \<equiv> UINT32_MAX"

lemma acc_room_32: "acc_room M32 20"
  by (simp add: acc_room_def acc_step_bound_def integer_divide_ceil_def UINT32_MAX_def UINT64_MAX_def max_raw_value_def
      rate_limiting_precision_def)

lemma update_elastic_limit_ok:
  assumes "0 \<le> v" "v \<le> M32 * 1000" "0 \<le> m" "m \<le> M32"
  shows "\<exists>v'. update_elastic_limit v avg (block_elastic m tgt) = Inr v' \<and> m \<le> v' \<and> v' \<le> m * 1000"
proof -
  have u: "u64 (m * 1000) = m * 1000" using assms by (intro u64_id) (auto simp: UINT64_MAX_def UINT32_MAX_def)
  have "v \<le> UINT64_MAX div 99" "v \<le> UINT64_MAX div 1000"
    using assms by (auto simp: UINT64_MAX_def UINT32_MAX_def)
  then obtain w where "(if avg > tgt then ratio_mult v \<lparr>numerator = 99, denominator = 100\<rparr>
      else ratio_mult v \<lparr>numerator = 1000, denominator = 999\<rparr>) = Inr w"
    by (cases "avg > tgt") (auto simp: ratio_mult_def)
  then show ?thesis
    using assms u by (intro exI [of _ "min (max w m) (m * 1000)"]) (simp add: update_elastic_limit_def block_elastic_def split: if_splits)
qed

text \<open>The block-level state: pending usage within the block maximum, averages and virtual limits bounded,
  \<open>n\<close> at or above the last processed block.\<close>

definition block_ok :: "int \<Rightarrow> resource_db \<Rightarrow> bool" where
  "block_ok n db \<longleftrightarrow>
     (let st = rl_state db; c = cpu_limit_parameters (rl_config db); w = net_limit_parameters (rl_config db) in
      el_max c \<le> M32 \<and> el_max w \<le> M32 \<and>
      0 \<le> virtual_cpu_limit st \<and> virtual_cpu_limit st \<le> M32 * 1000 \<and>
      0 \<le> virtual_net_limit st \<and> virtual_net_limit st \<le> M32 * 1000 \<and>
      acc_bounded M32 20 n (average_block_cpu_usage st) \<and> acc_bounded M32 20 n (average_block_net_usage st) \<and>
      0 \<le> pending_cpu_usage st \<and> pending_cpu_usage st \<le> M32 \<and>
      0 \<le> pending_net_usage st \<and> pending_net_usage st \<le> M32)"

lemma process_block_usage_ok:
  assumes "block_ok m db" "m < n" "n \<le> M32"
    and c: "cpu_limit_parameters (rl_config db) = block_elastic cm ct" "0 \<le> cm" "cm \<le> M32"
    and w: "net_limit_parameters (rl_config db) = block_elastic nm nt" "0 \<le> nm" "nm \<le> M32"
  shows "\<exists>db'. process_block_usage n db = Inr db' \<and> block_ok n db' \<and> limits db' = limits db \<and> usage db' = usage db \<and>
     rl_config db' = rl_config db \<and> gmr db' = gmr db \<and>
     total_ram_bytes (rl_state db') = total_ram_bytes (rl_state db) \<and>
     total_cpu_weight (rl_state db') = total_cpu_weight (rl_state db) \<and>
     total_net_weight (rl_state db') = total_net_weight (rl_state db) \<and>
     pending_cpu_usage (rl_state db') = 0 \<and> pending_net_usage (rl_state db') = 0 \<and>
     cm \<le> virtual_cpu_limit (rl_state db') \<and> virtual_cpu_limit (rl_state db') \<le> cm * 1000 \<and>
     nm \<le> virtual_net_limit (rl_state db') \<and> virtual_net_limit (rl_state db') \<le> nm * 1000"
proof -
  let ?st = "rl_state db"
  note b = assms(1) [unfolded block_ok_def Let_def]
  obtain a where a: "acc_add (average_block_cpu_usage ?st) (pending_cpu_usage ?st) n 20 = Inr a" "acc_bounded M32 20 n a"
    using acc_add_bounded [OF acc_room_32, of m "average_block_cpu_usage ?st" "pending_cpu_usage ?st" n] b assms by auto
  obtain d where d: "acc_add (average_block_net_usage ?st) (pending_net_usage ?st) n 20 = Inr d" "acc_bounded M32 20 n d"
    using acc_add_bounded [OF acc_room_32, of m "average_block_net_usage ?st" "pending_net_usage ?st" n] b assms by auto
  obtain v where v: "update_elastic_limit (virtual_cpu_limit ?st) (average a) (block_elastic cm ct) = Inr v" "cm \<le> v" "v \<le> cm * 1000"
    using update_elastic_limit_ok b c by blast
  obtain x where x: "update_elastic_limit (virtual_net_limit ?st) (average d) (block_elastic nm nt) = Inr x" "nm \<le> x" "x \<le> nm * 1000"
    using update_elastic_limit_ok b w by blast
  have p: "el_periods (block_elastic k l) = 20" "el_max (block_elastic k l) = k" for k l by (simp_all add: block_elastic_def)
  have le: "v \<le> M32 * 1000" "x \<le> M32 * 1000" using v x c w by auto
  show ?thesis
    using a d v x le b c w
    by (simp add: process_block_usage_def update_virtual_cpu_limit_def update_virtual_net_limit_def Let_def block_ok_def p)
qed

subsection \<open>Pending limit updates\<close>

definition weight_total :: "(resource_limits_object \<Rightarrow> int) \<Rightarrow> resource_db \<Rightarrow> int" where
  "weight_total f db = tbl.total (\<lambda>k r. if fst k then 0 else max 0 (f r)) (limits db)"

definition gross_total :: "(resource_limits_object \<Rightarrow> int) \<Rightarrow> resource_db \<Rightarrow> int" where
  "gross_total f db = tbl.total (\<lambda>k r. max 0 (f r)) (limits db)"

text \<open>The totals are the sums of the positive weights of the accounts, and whoever has pending limits has limits.\<close>

definition limits_ok :: "resource_db \<Rightarrow> bool" where
  "limits_ok db \<longleftrightarrow> tbl_ok (limits db) \<and>
     (\<forall>a p. tbl_find (limits db) (True, a) = Some p \<longrightarrow> tbl_find (limits db) (False, a) \<noteq> None) \<and>
     total_ram_bytes (rl_state db) = weight_total ram_bytes db \<and>
     total_cpu_weight (rl_state db) = weight_total cpu_weight db \<and>
     total_net_weight (rl_state db) = weight_total net_weight db"

definition gross_ok :: "resource_db \<Rightarrow> bool" where
  "gross_ok db \<longleftrightarrow> gross_total ram_bytes db \<le> UINT64_MAX \<and> gross_total cpu_weight db \<le> UINT64_MAX \<and>
     gross_total net_weight db \<le> UINT64_MAX"

definition effective_limits :: "resource_db \<Rightarrow> account_name \<Rightarrow> resource_limits_object option" where
  "effective_limits db a =
     (case tbl_find (limits db) (True, a) of Some p \<Rightarrow> Some p | None \<Rightarrow> tbl_find (limits db) (False, a))"

lemma update_total_ok:
  assumes "max 0 v \<le> tot" "tot - max 0 v + max 0 p \<le> UINT64_MAX"
  shows "update_total tot v p = Inr (tot - max 0 v + max 0 p)"
  using assms by (auto simp: update_total_def res_simps split: if_splits)

lemma weight_parts:
  assumes ok: "tbl_ok (limits db)" and r: "tbl_find (limits db) (False, a) = Some r" and p: "tbl_find (limits db) (True, a) = Some p"
  shows "max 0 (f r) \<le> weight_total f db"
    and "weight_total f db + max 0 (f p) \<le> gross_total f db"
proof -
  show "max 0 (f r) \<le> weight_total f db"
    using tbl.part_le_total [OF ok, of "\<lambda>k r. if fst k then 0 else max 0 (f r)" "(False, a)"] r
    by (simp add: weight_total_def tbl.part_def)
  let ?g = "\<lambda>k r. if fst k then max 0 (f r) else 0"
  have "max 0 (f p) \<le> tbl.total ?g (limits db)"
    using tbl.part_le_total [OF ok, of ?g "(True, a)"] p by (simp add: tbl.part_def)
  moreover have "gross_total f db = tbl.total (\<lambda>k r. (if fst k then 0 else max 0 (f r)) + ?g k r) (limits db)"
    unfolding gross_total_def by (rule tbl.total_cong [OF ok]) simp
  ultimately show "weight_total f db + max 0 (f p) \<le> gross_total f db"
    by (simp add: tbl.total_add weight_total_def)
qed

text \<open>Two databases that differ at most in the limits and their totals.\<close>

definition usage_state :: "resource_limits_state \<Rightarrow> usage_accumulator \<times> usage_accumulator \<times> int \<times> int \<times> int \<times> int" where
  "usage_state st = (average_block_cpu_usage st, average_block_net_usage st, pending_cpu_usage st, pending_net_usage st,
     virtual_cpu_limit st, virtual_net_limit st)"

definition same_but_limits :: "resource_db \<Rightarrow> resource_db \<Rightarrow> bool" where
  "same_but_limits db db' \<longleftrightarrow> usage db' = usage db \<and> rl_config db' = rl_config db \<and> gmr db' = gmr db \<and>
     vote4ramsum db' = vote4ramsum db \<and> num_config db' = num_config db \<and>
     usage_state (rl_state db') = usage_state (rl_state db)"

lemma same_but_limits_trans: "same_but_limits a b \<Longrightarrow> same_but_limits b c \<Longrightarrow> same_but_limits a c"
  by (simp add: same_but_limits_def)

lemma same_but_limits_refl: "same_but_limits a a"
  by (simp add: same_but_limits_def)

lemma apply_pending_ok:
  assumes lo: "limits_ok db" and g: "gross_ok db" and p: "tbl_find (limits db) (True, a) = Some p"
  shows "\<exists>db'. apply_pending a p db = Inr db' \<and> limits_ok db' \<and> gross_ok db' \<and>
     limits db' = tbl_del (True, a) (tbl_put (False, a) p (limits db)) \<and> same_but_limits db db'"
proof -
  have ok: "tbl_ok (limits db)" using lo by (simp add: limits_ok_def)
  obtain r where r: "tbl_find (limits db) (False, a) = Some r" using lo p by (auto simp: limits_ok_def)
  let ?t = "tbl_del (True, a) (tbl_put (False, a) p (limits db))"
  have pe: "r\<lparr>ram_bytes := ram_bytes p, cpu_weight := cpu_weight p, net_weight := net_weight p\<rparr> = p" by simp
  define st where "st = (rl_state db)\<lparr>total_ram_bytes := weight_total ram_bytes db - max 0 (ram_bytes r) + max 0 (ram_bytes p),
     total_cpu_weight := weight_total cpu_weight db - max 0 (cpu_weight r) + max 0 (cpu_weight p),
     total_net_weight := weight_total net_weight db - max 0 (net_weight r) + max 0 (net_weight p)\<rparr>"
  define db' where "db' = db\<lparr>limits := ?t, rl_state := st\<rparr>"
  have u: "update_total (weight_total f db) (f r) (f p) = Inr (weight_total f db - max 0 (f r) + max 0 (f p))"
    if "gross_total f db \<le> UINT64_MAX" for f
    using weight_parts [OF ok r p, of f] that by (intro update_total_ok) auto
  have "apply_pending a p db = Inr db'"
    using lo g u by (simp add: apply_pending_def r Let_def limits_ok_def gross_ok_def pe db'_def st_def)
  moreover have wt: "weight_total f db' = weight_total f db - max 0 (f r) + max 0 (f p)" for f
    using ok r p by (simp add: weight_total_def db'_def tbl_simps)
  moreover have gt: "gross_total f db' \<le> gross_total f db" for f
    using ok r p by (simp add: gross_total_def db'_def tbl_simps)
  moreover have "limits_ok db'"
    using lo ok wt unfolding limits_ok_def by (auto simp: db'_def st_def tbl_simps)
  moreover have "gross_ok db'" using g gt [of ram_bytes] gt [of cpu_weight] gt [of net_weight] by (simp add: gross_ok_def)
  moreover have "same_but_limits db db'" by (simp add: same_but_limits_def db'_def st_def usage_state_def)
  ultimately show ?thesis by (auto simp: db'_def)
qed

lemma tbl_mset_del_filter: "mset (tbl_del k t) = filter_mset (\<lambda>r. fst r \<noteq> k) (mset t)"
  by (simp add: tbl_del_def)

lemma effective_after_apply:
  assumes "tbl_ok (limits db)" "tbl_find (limits db) (True, a) = Some p"
    "limits db' = tbl_del (True, a) (tbl_put (False, a) p (limits db))"
  shows "effective_limits db' b = effective_limits db b"
  using assms by (auto simp: effective_limits_def tbl_simps split: option.splits)

lemma pending_after_apply:
  assumes "tbl_ok (limits db)"
  shows "length (tbl_scope True (tbl_del (True, a) (tbl_put (False, a) p (limits db)))) = length (tbl_scope True (tbl_del (True, a) (limits db)))"
proof -
  have "mset (tbl_del (True, a) (tbl_put (False, a) p (limits db))) = add_mset ((False, a), p) (mset (tbl_del (True, a) (tbl_del (False, a) (limits db))))"
    using assms by (simp add: tbl_mset_put tbl_mset_del_filter)
  then have "length (filter (\<lambda>((s', k), v). s' = True) (tbl_del (True, a) (tbl_put (False, a) p (limits db)))) =
    size (filter_mset (\<lambda>((s', k), v). s' = True) (add_mset ((False, a), p) (mset (tbl_del (True, a) (tbl_del (False, a) (limits db))))))"
    by (metis mset_filter size_mset)
  also have "\<dots> = length (filter (\<lambda>((s', k), v). s' = True) (tbl_del (True, a) (tbl_del (False, a) (limits db))))"
    by (simp flip: mset_filter)
  also have "filter (\<lambda>((s', k), v). s' = True) (tbl_del (True, a) (tbl_del (False, a) (limits db))) =
     filter (\<lambda>((s', k), v). s' = True) (tbl_del (True, a) (limits db))"
    by (auto simp: tbl_del_def intro!: filter_cong)
  finally show ?thesis by (simp add: tbl_scope_def)
qed

lemma scope_after_del:
  assumes "tbl_scope True t = (a, p) # rest"
  shows "length (tbl_scope True (tbl_del (True, a) t)) < length (tbl_scope True t)"
proof -
  have "tbl_scope True (tbl_del (True, a) t) = filter (\<lambda>r. fst r \<noteq> a) (tbl_scope True t)"
    by (induction t) (auto simp: tbl_scope_def tbl_del_def)
  then show ?thesis using assms by (simp add: le_imp_less_Suc)
qed

lemma process_limit_loop_ok:
  assumes "limits_ok db" "gross_ok db" "length (tbl_scope True (limits db)) \<le> fuel"
  shows "\<exists>db'. process_limit_loop fuel db = Inr db' \<and> limits_ok db' \<and> gross_ok db' \<and> tbl_scope True (limits db') = [] \<and>
     (\<forall>a. effective_limits db' a = effective_limits db a) \<and> same_but_limits db db'"
  using assms
proof (induction fuel arbitrary: db)
  case 0
  then show ?case by (simp add: same_but_limits_refl)
next
  case (Suc fuel)
  show ?case
  proof (cases "tbl_scope True (limits db)")
    case Nil
    then show ?thesis using Suc by (simp add: same_but_limits_refl)
  next
    case (Cons q rest)
    obtain a p where q: "q = (a, p)" by fastforce
    have ok: "tbl_ok (limits db)" using Suc(2) by (simp add: limits_ok_def)
    have p: "tbl_find (limits db) (True, a) = Some p"
      using tbl_scope_find [OF ok, of a p True] Cons q by simp
    obtain db1 where db1: "apply_pending a p db = Inr db1" "limits_ok db1" "gross_ok db1"
      "limits db1 = tbl_del (True, a) (tbl_put (False, a) p (limits db))" "same_but_limits db db1"
      using apply_pending_ok [OF Suc(2,3) p] by blast
    have "length (tbl_scope True (limits db1)) < length (tbl_scope True (limits db))"
      using scope_after_del [of "limits db" a p rest] Cons q by (simp add: db1(4) pending_after_apply [OF ok])
    then have len: "length (tbl_scope True (limits db1)) \<le> fuel" using Suc(4) by simp
    from Suc.IH [OF db1(2,3) len] obtain db2 where db2: "process_limit_loop fuel db1 = Inr db2" "limits_ok db2" "gross_ok db2"
      "tbl_scope True (limits db2) = []" "\<And>b. effective_limits db2 b = effective_limits db1 b" "same_but_limits db1 db2"
      by blast
    show ?thesis
      using db1 db2 Cons q effective_after_apply [OF ok p db1(4)] same_but_limits_trans [OF db1(5) db2(6)] by auto
  qed
qed

lemma process_account_limit_updates_ok:
  assumes "limits_ok db" "gross_ok db"
  shows "\<exists>db'. process_account_limit_updates db = Inr db' \<and> limits_ok db' \<and> gross_ok db' \<and> tbl_scope True (limits db') = [] \<and>
     (\<forall>a. effective_limits db' a = effective_limits db a) \<and> same_but_limits db db'"
  unfolding process_account_limit_updates_def
  by (rule process_limit_loop_ok [OF assms]) (simp add: tbl_scope_def)

lemma get_account_limits_effective:
  "get_account_limits db a = need (effective_limits db a) Object_not_found
     (\<lambda>p. Inr (get_account_ram_limit db a, net_weight p, cpu_weight p))"
  by (simp add: get_account_limits_def effective_limits_def split: option.splits)

lemma ram_limit_same: "same_but_limits db db' \<Longrightarrow> get_account_ram_limit db' a = get_account_ram_limit db a"
  by (simp add: same_but_limits_def get_account_ram_limit_def get_num_config_on_chain_def Let_def split: option.splits)

subsection \<open>Runs of the resource manager\<close>

text \<open>The operations the node performs between the genesis database and a later block; the state is paired
  with the number of the last block.\<close>

datatype rl_op =
    Rl_account account_name
  | Rl_limits account_name int int int
  | Rl_update "account_name list" int
  | Rl_tx "account_name list" int int int
  | Rl_ram account_name int
  | Rl_block chain_config gmr_parameters

fun rl_step :: "rl_op \<Rightarrow> int \<times> resource_db \<Rightarrow> chain_error + int \<times> resource_db" where
  "rl_step (Rl_account a) (n, db) = bnd (initialize_account a db) (\<lambda>db'. Inr (n, db'))"
| "rl_step (Rl_limits a r nw cw) (n, db) = bnd (set_account_limits a r nw cw db) (\<lambda>(_, db'). Inr (n, db'))"
| "rl_step (Rl_update accs slot) (n, db) = bnd (update_account_usage accs slot db) (\<lambda>db'. Inr (n, db'))"
| "rl_step (Rl_tx accs c w slot) (n, db) = bnd (add_transaction_usage accs c w slot db) (\<lambda>db'. Inr (n, db'))"
| "rl_step (Rl_ram a d) (n, db) = bnd (add_pending_ram_usage a d db) (\<lambda>db'. Inr (n, db'))"
| "rl_step (Rl_block cfg g) (n, db) =
     chk (n < UINT32_MAX) Resource_limit_exception
      (bnd (finalize_block_limits cfg g (n + 1) db) (\<lambda>db'. Inr (n + 1, db')))"

definition config_ok :: "chain_config \<Rightarrow> bool" where
  "config_ok cfg \<longleftrightarrow> 0 \<le> max_block_cpu_usage cfg \<and> max_block_cpu_usage cfg \<le> UINT32_MAX \<and>
     0 \<le> max_block_net_usage cfg \<and> max_block_net_usage cfg \<le> UINT32_MAX"

fun rl_op_ok :: "rl_op \<Rightarrow> bool" where
  "rl_op_ok (Rl_block cfg g) = config_ok cfg"
| "rl_op_ok _ = True"

definition rl_inv :: "int \<times> resource_db \<Rightarrow> bool" where
  "rl_inv s \<longleftrightarrow> 0 \<le> fst s \<and> block_ok (fst s) (snd s) \<and> limits_ok (snd s)"

text \<open>The usage table does not enter the block-level state or the totals.\<close>

lemma usage_irrelevant [simp]:
  "block_ok n (db\<lparr>usage := u\<rparr>) = block_ok n db" "limits_ok (db\<lparr>usage := u\<rparr>) = limits_ok db"
  by (simp_all add: block_ok_def limits_ok_def weight_total_def)

lemma gmr_irrelevant [simp]:
  "block_ok n (db\<lparr>gmr := g\<rparr>) = block_ok n db" "limits_ok (db\<lparr>gmr := g\<rparr>) = limits_ok db"
  "effective_limits (db\<lparr>gmr := g\<rparr>) a = effective_limits db a"
  by (simp_all add: block_ok_def limits_ok_def weight_total_def effective_limits_def split: option.splits)

lemma block_ok_same: "same_but_limits db db' \<Longrightarrow> block_ok n db' = block_ok n db"
  by (simp add: same_but_limits_def block_ok_def usage_state_def Let_def)

lemma block_ok_limits [simp]: "block_ok n (db\<lparr>limits := l\<rparr>) = block_ok n db"
  by (simp add: block_ok_def)

lemma initialize_account_ok:
  assumes "limits_ok db" "initialize_account a db = Inr db'"
  shows "limits_ok db'"
proof -
  have new: "tbl_find (limits db) (False, a) = None" and
    db': "db' = db\<lparr>limits := tbl_put (False, a) new_limits (limits db), usage := tbl_put a new_usage (usage db)\<rparr>"
    using assms(2) by (auto simp: initialize_account_def res_simps)
  have ok: "tbl_ok (limits db)" using assms(1) by (simp add: limits_ok_def)
  have "weight_total f db' = weight_total f db" if "f new_limits = -1" for f
    using ok new that by (simp add: weight_total_def db' tbl_simps)
  then show ?thesis
    using assms(1) ok by (auto simp: limits_ok_def db' new_limits_def tbl_simps)
qed

lemma set_account_limits_ok:
  assumes "limits_ok db" "set_account_limits a r nw cw db = Inr (b, db')"
  shows "limits_ok db'" "\<exists>l. db' = db\<lparr>limits := l\<rparr>"
proof -
  obtain p where p: "effective_limits db a = Some p" and
    db': "db' = db\<lparr>limits := tbl_put (True, a) (p\<lparr>ram_bytes := r, net_weight := nw, cpu_weight := cw\<rparr>) (limits db)\<rparr>"
    using assms(2) by (auto simp: set_account_limits_def effective_limits_def res_simps split: option.splits)
  have ok: "tbl_ok (limits db)" using assms(1) by (simp add: limits_ok_def)
  have ex: "tbl_find (limits db) (False, a) \<noteq> None"
    using p assms(1) by (auto simp: effective_limits_def limits_ok_def split: option.splits)
  have "weight_total f db' = weight_total f db" for f
    using ok by (simp add: weight_total_def db' tbl_simps split: option.splits)
  then show "limits_ok db'"
    using assms(1) ok ex by (auto simp: limits_ok_def db' tbl_simps)
  show "\<exists>l. db' = db\<lparr>limits := l\<rparr>" using db' by blast
qed

lemma usage_loops_keep:
  assumes "for_each f accs db = Inr db'" "\<And>a d d'. f a d = Inr d' \<Longrightarrow> \<exists>u. d' = d\<lparr>usage := u\<rparr>"
  shows "\<exists>u. db' = db\<lparr>usage := u\<rparr>"
  using assms(1)
proof (induction accs arbitrary: db)
  case Nil
  then show ?case by (auto intro!: exI [of _ "usage db"])
next
  case (Cons a accs)
  then obtain d where d: "f a db = Inr d" "for_each f accs d = Inr db'" by (auto simp: res_simps)
  obtain u where "d = db\<lparr>usage := u\<rparr>" using assms(2) d(1) by blast
  then show ?case using Cons.IH [OF d(2)] by auto
qed

lemma update_account_usage_keep: "update_account_usage accs slot db = Inr db' \<Longrightarrow> \<exists>u. db' = db\<lparr>usage := u\<rparr>"
  unfolding update_account_usage_def by (erule usage_loops_keep) (auto simp: res_simps)

lemma add_account_usage_keep: "add_account_usage c w slot a db = Inr db' \<Longrightarrow> \<exists>u. db' = db\<lparr>usage := u\<rparr>"
  by (auto simp: add_account_usage_def res_simps split: prod.splits)

lemma add_pending_ram_usage_keep: "add_pending_ram_usage a d db = Inr db' \<Longrightarrow> \<exists>u. db' = db\<lparr>usage := u\<rparr>"
  by (auto simp: add_pending_ram_usage_def res_simps split: if_splits intro: exI [of _ "usage db"])

lemma add_transaction_usage_ok:
  assumes "block_ok n db" "limits_ok db" "add_transaction_usage accs c w slot db = Inr db'"
  shows "block_ok n db'" "limits_ok db'"
proof -
  obtain db1 where db1: "for_each (add_account_usage c w slot) accs db = Inr db1"
    and le: "u64 (pending_cpu_usage (rl_state db1) + c) \<le> el_max (cpu_limit_parameters (rl_config db1))"
       "u64 (pending_net_usage (rl_state db1) + w) \<le> el_max (net_limit_parameters (rl_config db1))"
    and db': "db' = db1\<lparr>rl_state := (rl_state db1)\<lparr>pending_cpu_usage := u64 (pending_cpu_usage (rl_state db1) + c),
         pending_net_usage := u64 (pending_net_usage (rl_state db1) + w)\<rparr>\<rparr>"
    using assms(3) by (auto simp: add_transaction_usage_def Let_def res_simps)
  obtain u where u: "db1 = db\<lparr>usage := u\<rparr>"
    using usage_loops_keep [OF db1] add_account_usage_keep by blast
  have b: "block_ok n db1" "limits_ok db1" using assms(1,2) u by simp_all
  show "block_ok n db'"
    using b(1) le by (auto simp: block_ok_def db' Let_def)
  show "limits_ok db'" using b(2) by (simp add: limits_ok_def db' weight_total_def)
qed

lemma finalize_block_limits_ok:
  assumes inv: "block_ok n db" "limits_ok db" and g: "gross_ok db" and cfg: "config_ok cfg" and n: "n < UINT32_MAX"
    and gmr: "0 < cpu_us gm" "0 < net_byte gm" "0 \<le> ram_byte gm"
  shows "\<exists>db'. finalize_block_limits cfg gm (n + 1) db = Inr db' \<and> block_ok (n + 1) db' \<and> limits_ok db' \<and>
     tbl_scope True (limits db') = [] \<and> (\<forall>a. effective_limits db' a = effective_limits db a) \<and>
     pending_cpu_usage (rl_state db') = 0 \<and> pending_net_usage (rl_state db') = 0 \<and>
     max_block_cpu_usage cfg \<le> virtual_cpu_limit (rl_state db') \<and>
     virtual_cpu_limit (rl_state db') \<le> max_block_cpu_usage cfg * 1000 \<and>
     max_block_net_usage cfg \<le> virtual_net_limit (rl_state db') \<and>
     virtual_net_limit (rl_state db') \<le> max_block_net_usage cfg * 1000"
proof -
  let ?c = "block_elastic (max_block_cpu_usage cfg) (percent (max_block_cpu_usage cfg) (target_block_cpu_usage_pct cfg))"
  let ?w = "block_elastic (max_block_net_usage cfg) (percent (max_block_net_usage cfg) (target_block_net_usage_pct cfg))"
  obtain db1 where db1: "process_account_limit_updates db = Inr db1" "limits_ok db1"
    "tbl_scope True (limits db1) = []" "\<And>a. effective_limits db1 a = effective_limits db a" "same_but_limits db db1"
    using process_account_limit_updates_ok [OF inv(2) g] by blast
  define db2 where "db2 = db1\<lparr>rl_config := (rl_config db1)\<lparr>cpu_limit_parameters := ?c, net_limit_parameters := ?w\<rparr>\<rparr>"
  have set: "set_block_parameters ?c ?w db1 = Inr db2"
    by (simp add: set_block_parameters_def el_validate_def block_elastic_def db2_def)
  have "block_ok n db1" using inv(1) block_ok_same [OF db1(5)] by simp
  then have b2: "block_ok n db2"
    using cfg by (simp add: block_ok_def db2_def Let_def block_elastic_def config_ok_def)
  have c2: "cpu_limit_parameters (rl_config db2) = ?c" "net_limit_parameters (rl_config db2) = ?w"
    by (simp_all add: db2_def)
  have m: "0 \<le> max_block_cpu_usage cfg" "max_block_cpu_usage cfg \<le> M32" "0 \<le> max_block_net_usage cfg" "max_block_net_usage cfg \<le> M32"
    using cfg by (auto simp: config_ok_def)
  obtain db3 where db3: "process_block_usage (n + 1) db2 = Inr db3" "block_ok (n + 1) db3" "limits db3 = limits db2"
    "total_ram_bytes (rl_state db3) = total_ram_bytes (rl_state db2)"
    "total_cpu_weight (rl_state db3) = total_cpu_weight (rl_state db2)"
    "total_net_weight (rl_state db3) = total_net_weight (rl_state db2)"
    "pending_cpu_usage (rl_state db3) = 0" "pending_net_usage (rl_state db3) = 0"
    "max_block_cpu_usage cfg \<le> virtual_cpu_limit (rl_state db3)" "virtual_cpu_limit (rl_state db3) \<le> max_block_cpu_usage cfg * 1000"
    "max_block_net_usage cfg \<le> virtual_net_limit (rl_state db3)" "virtual_net_limit (rl_state db3) \<le> max_block_net_usage cfg * 1000"
    using process_block_usage_ok [OF b2 _ _ c2(1) m(1,2) c2(2) m(3,4), of "n + 1"] n by auto
  have l3: "limits db3 = limits db1" using db3(3) by (simp add: db2_def)
  have "limits_ok db3"
    using db1(2) db3(4-6) by (simp add: limits_ok_def weight_total_def l3 db2_def)
  moreover have "effective_limits db3 a = effective_limits db a" for a
    using db1(4) [of a] unfolding effective_limits_def l3 .
  moreover have "finalize_block_limits cfg gm (n + 1) db = Inr (db3\<lparr>gmr := gm\<rparr>)"
    using db1(1) set db3(1) gmr
    by (simp add: finalize_block_limits_def set_gmr_parameters_def gmr_validate_def)
  ultimately show ?thesis
    using db3 l3 db1(3) by (intro exI [of _ "db3\<lparr>gmr := gm\<rparr>"]) simp
qed

lemma update_total_Inr: "update_total tot v p = Inr t \<Longrightarrow> t = tot - max 0 v + max 0 p"
  by (auto simp: update_total_def res_simps split: if_splits)

lemma apply_pending_keep:
  assumes lo: "limits_ok db" and p: "tbl_find (limits db) (True, a) = Some p" and a: "apply_pending a p db = Inr db'"
  shows "limits_ok db'" "same_but_limits db db'"
proof -
  have ok: "tbl_ok (limits db)" using lo by (simp add: limits_ok_def)
  obtain r where r: "tbl_find (limits db) (False, a) = Some r" using lo p by (auto simp: limits_ok_def)
  have pe: "r\<lparr>ram_bytes := ram_bytes p, cpu_weight := cpu_weight p, net_weight := net_weight p\<rparr> = p" by simp
  let ?t = "tbl_del (True, a) (tbl_put (False, a) p (limits db))"
  have db': "db' = db\<lparr>limits := ?t, rl_state := (rl_state db)\<lparr>
      total_ram_bytes := weight_total ram_bytes db - max 0 (ram_bytes r) + max 0 (ram_bytes p),
      total_cpu_weight := weight_total cpu_weight db - max 0 (cpu_weight r) + max 0 (cpu_weight p),
      total_net_weight := weight_total net_weight db - max 0 (net_weight r) + max 0 (net_weight p)\<rparr>\<rparr>"
    using a lo by (auto simp: apply_pending_def r Let_def res_simps limits_ok_def pe dest!: update_total_Inr)
  have "weight_total f db' = weight_total f db - max 0 (f r) + max 0 (f p)" for f
    using ok r p by (simp add: weight_total_def db' tbl_simps)
  then show "limits_ok db'" using lo ok unfolding limits_ok_def by (auto simp: db' tbl_simps)
  show "same_but_limits db db'" by (simp add: same_but_limits_def db' usage_state_def)
qed

lemma process_limit_loop_keep:
  "limits_ok db \<Longrightarrow> process_limit_loop fuel db = Inr db' \<Longrightarrow> limits_ok db' \<and> same_but_limits db db'"
proof (induction fuel arbitrary: db)
  case (Suc fuel)
  show ?case
  proof (cases "tbl_scope True (limits db)")
    case (Cons q rest)
    obtain a p where q: "q = (a, p)" by fastforce
    have p: "tbl_find (limits db) (True, a) = Some p"
      using tbl_scope_find [of "limits db" a p True] Cons q Suc(2) by (simp add: limits_ok_def)
    obtain db1 where db1: "apply_pending a p db = Inr db1" "process_limit_loop fuel db1 = Inr db'"
      using Suc(3) Cons q by (auto simp: res_simps)
    show ?thesis
      using apply_pending_keep [OF Suc(2) p db1(1)] Suc.IH [OF _ db1(2)] same_but_limits_trans by blast
  qed (use Suc in \<open>simp add: same_but_limits_refl\<close>)
qed (simp add: same_but_limits_refl)

lemma finalize_block_limits_keep:
  assumes "block_ok n db" "limits_ok db" "config_ok cfg" "n < UINT32_MAX" "finalize_block_limits cfg gm (n + 1) db = Inr db'"
  shows "block_ok (n + 1) db'" "limits_ok db'"
proof -
  let ?c = "block_elastic (max_block_cpu_usage cfg) (percent (max_block_cpu_usage cfg) (target_block_cpu_usage_pct cfg))"
  let ?w = "block_elastic (max_block_net_usage cfg) (percent (max_block_net_usage cfg) (target_block_net_usage_pct cfg))"
  obtain db1 db2 db3 where db1: "process_account_limit_updates db = Inr db1" and db2: "set_block_parameters ?c ?w db1 = Inr db2"
    and db3: "process_block_usage (n + 1) db2 = Inr db3" and db': "set_gmr_parameters gm db3 = Inr db'"
    using assms(5) by (auto simp: finalize_block_limits_def res_simps)
  have k: "limits_ok db1" "same_but_limits db db1"
    using process_limit_loop_keep [OF assms(2)] db1 by (auto simp: process_account_limit_updates_def)
  have e2: "db2 = db1\<lparr>rl_config := (rl_config db1)\<lparr>cpu_limit_parameters := ?c, net_limit_parameters := ?w\<rparr>\<rparr>"
    using db2 by (auto simp: set_block_parameters_def res_simps)
  have "block_ok n db1" using assms(1) block_ok_same [OF k(2)] by simp
  then have b2: "block_ok n db2"
    using assms(3) by (simp add: block_ok_def e2 Let_def block_elastic_def config_ok_def)
  have c2: "cpu_limit_parameters (rl_config db2) = ?c" "net_limit_parameters (rl_config db2) = ?w" by (simp_all add: e2)
  have m: "0 \<le> max_block_cpu_usage cfg" "max_block_cpu_usage cfg \<le> M32" "0 \<le> max_block_net_usage cfg" "max_block_net_usage cfg \<le> M32"
    using assms(3) by (auto simp: config_ok_def)
  have "block_ok (n + 1) db3 \<and> limits db3 = limits db2 \<and> total_ram_bytes (rl_state db3) = total_ram_bytes (rl_state db2) \<and>
    total_cpu_weight (rl_state db3) = total_cpu_weight (rl_state db2) \<and> total_net_weight (rl_state db3) = total_net_weight (rl_state db2)"
    using process_block_usage_ok [OF b2 _ _ c2(1) m(1,2) c2(2) m(3,4), of "n + 1"] assms(4) db3 by auto
  then have b3: "block_ok (n + 1) db3" "limits_ok db3"
    using k(1) by (simp_all add: limits_ok_def weight_total_def e2)
  have "db' = db3\<lparr>gmr := gm\<rparr>" using db' by (auto simp: set_gmr_parameters_def res_simps)
  then show "block_ok (n + 1) db'" "limits_ok db'" using b3 by simp_all
qed

lemma rl_step_inv:
  assumes "rl_inv s" "rl_op_ok op" "rl_step op s = Inr s'"
  shows "rl_inv s'"
proof -
  obtain n db where s: "s = (n, db)" by fastforce
  have b: "0 \<le> n" "block_ok n db" "limits_ok db" using assms(1) by (simp_all add: rl_inv_def s)
  show ?thesis
  proof (cases op)
    case (Rl_account a)
    then obtain db' where "initialize_account a db = Inr db'" "s' = (n, db')"
      using assms(3) by (auto simp: s res_simps)
    then show ?thesis
      using b initialize_account_ok [OF b(3)] by (auto simp: rl_inv_def initialize_account_def res_simps)
  next
    case (Rl_limits a r nw cw)
    then obtain bo db' where "set_account_limits a r nw cw db = Inr (bo, db')" "s' = (n, db')"
      using assms(3) by (auto simp: s res_simps split: prod.splits)
    then have "limits_ok db'" "\<exists>l. db' = db\<lparr>limits := l\<rparr>" "s' = (n, db')"
      using set_account_limits_ok [OF b(3)] by blast+
    then show ?thesis using b by (auto simp: rl_inv_def)
  next
    case (Rl_update accs slot)
    then show ?thesis using assms(3) b by (auto simp: s rl_inv_def res_simps dest!: update_account_usage_keep)
  next
    case (Rl_tx accs c w slot)
    then show ?thesis
      using assms(3) b add_transaction_usage_ok [OF b(2,3)] by (auto simp: s rl_inv_def res_simps)
  next
    case (Rl_ram a d)
    then show ?thesis using assms(3) b by (auto simp: s rl_inv_def res_simps dest!: add_pending_ram_usage_keep)
  next
    case (Rl_block cfg g)
    then show ?thesis
      using assms(2,3) b finalize_block_limits_keep [OF b(2,3)] by (auto simp: s rl_inv_def res_simps)
  qed
qed

interpretation rl: action_system rl_step rl_inv rl_op_ok
  by unfold_locales (rule rl_step_inv)

lemma initialize_database_inv: "rl_inv (0, initialize_database)"
  by (simp add: rl_inv_def initialize_database_def block_ok_def limits_ok_def weight_total_def tbl_simps default_config_def
      block_elastic_def acc_bounded_def new_accumulator_def acc_step_bound_def integer_divide_ceil_def
      rate_limiting_precision_def UINT32_MAX_def Let_def)

text \<open>A small database for the witnesses: one account with pending limits.\<close>

definition demo_ops :: "rl_op list" where
  "demo_ops = [Rl_account 1, Rl_limits 1 100 5 7]"

definition demo_db :: resource_db where
  "demo_db = initialize_database\<lparr>
     limits := [((False, 1), new_limits), ((True, 1), \<lparr>net_weight = 5, cpu_weight = 7, ram_bytes = 100\<rparr>)],
     usage := [(1, new_usage)]\<rparr>"

lemma demo_run: "run_actions rl_step demo_ops (0, initialize_database) = (0, demo_db)"
  by (simp add: demo_ops_def demo_db_def run_actions_def apply_action_def initialize_account_def set_account_limits_def
      tbl_find_def initialize_database_def new_limits_def)

subsection \<open>Properties\<close>

text \<open>C19. The end of a block never fails on the resource limits. In every state the node reaches from the genesis
  database (accounts created, limits set, transactions billed, RAM charged, earlier blocks finalised with any
  32-bit block maxima), if the weights of all accounts, with the pending ones, sum to less than \<open>2 ^ 64\<close>, then
  finalising the next block succeeds: no accumulator, virtual limit or total over- or underflows, the pending limits
  of every account become its limits, the pending block usage is reset, and the virtual limits lie between the
  block maximum and 1000 times it.\<close>

theorem finalize_block_limits_succeeds:
  assumes "(n, db) = run_actions rl_step ops (0, initialize_database)" "list_all rl_op_ok ops"
    and "gross_ok db" "config_ok cfg" "n < UINT32_MAX" "0 < cpu_us g" "0 < net_byte g" "0 \<le> ram_byte g"
  shows "\<exists>db'. finalize_block_limits cfg g (n + 1) db = Inr db' \<and>
     tbl_scope True (limits db') = [] \<and> (\<forall>a. effective_limits db' a = effective_limits db a) \<and>
     pending_cpu_usage (rl_state db') = 0 \<and> pending_net_usage (rl_state db') = 0 \<and>
     max_block_cpu_usage cfg \<le> virtual_cpu_limit (rl_state db') \<and>
     virtual_cpu_limit (rl_state db') \<le> max_block_cpu_usage cfg * 1000 \<and>
     max_block_net_usage cfg \<le> virtual_net_limit (rl_state db') \<and>
     virtual_net_limit (rl_state db') \<le> max_block_net_usage cfg * 1000"
proof -
  have "rl_inv (n, db)"
    unfolding assms(1) by (rule rl.run_inv [OF initialize_database_inv assms(2)])
  then show ?thesis
    using finalize_block_limits_ok [OF _ _ assms(3-8)] by (fastforce simp: rl_inv_def)
qed

theorem finalize_block_limits_succeeds_witness:
  "(0, demo_db) = run_actions rl_step demo_ops (0, initialize_database) \<and>
   (\<exists>db'. finalize_block_limits \<lparr>max_block_cpu_usage = 1000000, target_block_cpu_usage_pct = 1000,
       max_block_net_usage = 1048576, target_block_net_usage_pct = 1000\<rparr> default_gmr 1 demo_db = Inr db' \<and>
     tbl_scope True (limits db') = [] \<and> effective_limits db' 1 = Some \<lparr>net_weight = 5, cpu_weight = 7, ram_bytes = 100\<rparr>)"
proof -
  let ?cfg = "\<lparr>max_block_cpu_usage = 1000000, target_block_cpu_usage_pct = 1000,
       max_block_net_usage = 1048576, target_block_net_usage_pct = 1000\<rparr>"
  have g: "gross_ok demo_db"
    by (simp add: gross_ok_def gross_total_def demo_db_def tbl.total_def new_limits_def UINT64_MAX_def)
  have c: "config_ok ?cfg" by (simp add: config_ok_def UINT32_MAX_def)
  have e: "effective_limits demo_db 1 = Some \<lparr>net_weight = 5, cpu_weight = 7, ram_bytes = 100\<rparr>"
    by (simp add: effective_limits_def demo_db_def tbl_find_def)
  show ?thesis
    using finalize_block_limits_succeeds [OF demo_run [symmetric] _ g c, of default_gmr] e demo_run
    by (auto simp: demo_ops_def UINT32_MAX_def default_gmr_def)
qed

text \<open>C20. In every state the node reaches from the genesis database the totals of the limits state are exactly the sums of
  the positive limits and weights of the accounts, so \<open>process_account_limit_updates\<close> cannot underflow them; and
  the pending block usage never exceeds the 32-bit range of the block maxima.\<close>

theorem resource_totals_invariant:
  assumes "(n, db) = run_actions rl_step ops (0, initialize_database)" "list_all rl_op_ok ops"
  shows "total_ram_bytes (rl_state db) = weight_total ram_bytes db \<and>
     total_cpu_weight (rl_state db) = weight_total cpu_weight db \<and>
     total_net_weight (rl_state db) = weight_total net_weight db \<and>
     0 \<le> pending_cpu_usage (rl_state db) \<and> pending_cpu_usage (rl_state db) \<le> UINT32_MAX \<and>
     0 \<le> pending_net_usage (rl_state db) \<and> pending_net_usage (rl_state db) \<le> UINT32_MAX"
proof -
  have "rl_inv (n, db)"
    unfolding assms(1) by (rule rl.run_inv [OF initialize_database_inv assms(2)])
  then show ?thesis by (simp add: rl_inv_def limits_ok_def block_ok_def Let_def)
qed

theorem resource_totals_invariant_witness:
  "(0, demo_db) = run_actions rl_step demo_ops (0, initialize_database) \<and>
   total_cpu_weight (rl_state demo_db) = weight_total cpu_weight demo_db"
  using resource_totals_invariant [OF demo_run [symmetric]] demo_run by (simp add: demo_ops_def)

text \<open>RAM accounting is exact: with the usage a \<open>uint64_t\<close> and the delta an \<open>int64_t\<close>, a charge or refund is
  refused exactly when the account does not exist or the true sum leaves the \<open>uint64_t\<close> range, and otherwise the
  usage becomes the true sum.\<close>

theorem add_pending_ram_usage_exact:
  assumes "tbl_ok (usage db)" "tbl_find (usage db) a = Some u" "0 \<le> ram_usage u" "ram_usage u \<le> UINT64_MAX"
    "INT64_MIN \<le> d" "d \<le> INT64_MAX"
  shows "((\<exists>db'. add_pending_ram_usage a d db = Inr db') \<longleftrightarrow> 0 \<le> ram_usage u + d \<and> ram_usage u + d \<le> UINT64_MAX) \<and>
    (\<forall>db' b. add_pending_ram_usage a d db = Inr db' \<longrightarrow>
       tbl_find (usage db') b = (if b = a then Some (u\<lparr>ram_usage := ram_usage u + d\<rparr>) else tbl_find (usage db) b))"
proof -
  have w: "u64 d = d" if "0 \<le> d" using that assms by (intro u64_id) (auto simp: INT64_MAX_def UINT64_MAX_def)
  have w': "u64 (- d) = - d" if "d \<le> 0" using that assms by (intro u64_id) (auto simp: INT64_MIN_def UINT64_MAX_def)
  have s: "u64 (ram_usage u + d) = ram_usage u + d" if "0 \<le> ram_usage u + d" "ram_usage u + d \<le> UINT64_MAX"
    using that by (rule u64_id)
  have z: "u\<lparr>ram_usage := ram_usage u\<rparr> = u" by simp
  consider "d = 0" | "0 < d" | "d < 0" by linarith
  then show ?thesis
  proof cases
    case 1
    then show ?thesis using assms z by (auto simp: add_pending_ram_usage_def)
  next
    case 2
    then show ?thesis using assms w s by (auto simp: add_pending_ram_usage_def res_simps tbl_simps)
  next
    case 3
    then show ?thesis using assms w' s by (auto simp: add_pending_ram_usage_def res_simps tbl_simps)
  qed
qed

theorem add_pending_ram_usage_exact_witness:
  "tbl_find (usage demo_db) 1 = Some new_usage \<and> (\<exists>db'. add_pending_ram_usage 1 300 demo_db = Inr db') \<and>
   \<not> (\<exists>db'. add_pending_ram_usage 1 (-1) demo_db = Inr db')"
proof -
  have h: "tbl_ok (usage demo_db)" "tbl_find (usage demo_db) 1 = Some new_usage" "0 \<le> ram_usage new_usage"
    "ram_usage new_usage \<le> UINT64_MAX"
    by (simp_all add: demo_db_def tbl_ok_def tbl_find_def new_usage_def UINT64_MAX_def)
  show ?thesis
    using h add_pending_ram_usage_exact [OF h, of 300] add_pending_ram_usage_exact [OF h, of "-1"]
    by (simp add: new_usage_def INT64_MIN_def INT64_MAX_def UINT64_MAX_def)
qed

text \<open>The NET quota.\<close>

definition quota_db :: resource_db where
  "quota_db = initialize_database\<lparr>
     limits := [((False, 1), \<lparr>net_weight = 0, cpu_weight = 0, ram_bytes = 0\<rparr>),
                ((False, 2), \<lparr>net_weight = 10, cpu_weight = 10, ram_bytes = 0\<rparr>)],
     usage := [(1, new_usage), (2, new_usage)],
     rl_state := (rl_state initialize_database)\<lparr>total_net_weight := 10, total_cpu_weight := 10\<rparr>\<rparr>"

end
