(* ===== verification/Contract_Db.thy ===== *)
theory Contract_Db
  imports Resource_Limits
begin

text \<open>
  The database that contracts see: the \<open>db_*_i64\<close> and \<open>db_idx*\<close> calls of \<open>apply_context\<close> (\<open>apply_context.hpp\<close>,
  \<open>apply_context.cpp\<close>) on the objects of \<open>contract_table_objects.hpp\<close>, with the cache that turns objects into the small
  integers a contract uses as iterators, and the RAM that every call charges or refunds.

  A pointer to an object of the chain database is the key of the object; following a pointer to an object that has been
  removed is the error \<open>Dangling_pointer\<close>. The containers of the four kinds of objects that are modelled (rows and
  secondary keys of 64, 128 and 256 bits) are one table keyed by the kind; secondary keys are the integers they encode, so
  that \<open>key256_t\<close> is compared word by word as the code does. The shared memory holds \<open>capacity\<close> objects; the database
  library throws when it is full.
\<close>

subsection \<open>Objects\<close>

datatype object_kind = Keyval | Index64 | Index128 | Index256

definition kind_rank :: "object_kind \<Rightarrow> nat" where
  "kind_rank k = (case k of Keyval \<Rightarrow> 0 | Index64 \<Rightarrow> 1 | Index128 \<Rightarrow> 2 | Index256 \<Rightarrow> 3)"

instantiation object_kind :: linorder
begin

definition less_eq_object_kind :: "object_kind \<Rightarrow> object_kind \<Rightarrow> bool" where
  "less_eq_object_kind a b \<longleftrightarrow> kind_rank a \<le> kind_rank b"

definition less_object_kind :: "object_kind \<Rightarrow> object_kind \<Rightarrow> bool" where
  "less_object_kind a b \<longleftrightarrow> kind_rank a < kind_rank b"

instance
  by standard
    (auto simp: less_eq_object_kind_def less_object_kind_def kind_rank_def split: object_kind.splits)

end

record table_id_object =
  t_code :: account_name
  t_scope :: "64 word"
  t_table :: "64 word"
  t_payer :: account_name
  t_count :: int

text \<open>\<open>key_value_object\<close> holds a value, an index object a secondary key.\<close>

datatype content = Value "8 word list" | Secondary int

record row_object =
  row_payer :: account_name
  row_content :: content

type_synonym row_key = "object_kind \<times> int \<times> 64 word"

record contract_db =
  tables :: "(int, table_id_object) tbl"
  next_table_id :: int
  rows :: "(row_key, row_object) tbl"
  capacity :: int

text \<open>The billable size of the objects: the size of the fields and 32 bytes for every index.\<close>

definition table_billable :: int where
  "table_billable = billable_size_v (44 + 32 * 2)"

definition kind_billable :: "object_kind \<Rightarrow> int" where
  "kind_billable k = (case k of Keyval \<Rightarrow> billable_size_v (32 + 8 + 4 + 32 * 2) | Index64 \<Rightarrow> billable_size_v (24 + 8 + 32 * 3)
     | Index128 \<Rightarrow> billable_size_v (24 + 16 + 32 * 3) | Index256 \<Rightarrow> billable_size_v (24 + 32 + 32 * 3))"

text \<open>\<open>by_scope_primary\<close> and \<open>by_primary\<close>; \<open>by_secondary\<close>.\<close>

definition primary_index :: "object_kind \<Rightarrow> contract_db \<Rightarrow> (int \<times> 64 word) list" where
  "primary_index k d = map (snd \<circ> fst) (filter (\<lambda>r. fst (fst r) = k) (rows d))"

definition secondary_of :: "row_object \<Rightarrow> int" where
  "secondary_of r = (case row_content r of Value _ \<Rightarrow> 0 | Secondary s \<Rightarrow> s)"

definition secondary_index :: "object_kind \<Rightarrow> contract_db \<Rightarrow> (int \<times> int \<times> 64 word) list" where
  "secondary_index k d = sort (map (\<lambda>((k', t, i), r). (t, secondary_of r, i)) (filter (\<lambda>r. fst (fst r) = k) (rows d)))"

subsection \<open>The iterator cache\<close>

datatype db_error =
    Invalid_table_payer
  | Table_access_violation
  | Invalid_table_iterator
  | Table_operation_not_permitted
  | Table_not_in_cache
  | Missing_authorization account_name
  | Subjective_block_production
  | Db_uniqueness
  | Db_bad_alloc
  | Limit_error chain_error
  | Dangling_pointer

record iterator_cache =
  table_cache :: "(int, int) tbl"
  end_iterator_to_table :: "int list"
  iterator_to_object :: "(int \<times> 64 word) option list"
  object_to_iterator :: "(int \<times> 64 word, int) tbl"

definition new_cache :: iterator_cache where
  "new_cache = \<lparr>table_cache = [], end_iterator_to_table = [], iterator_to_object = [], object_to_iterator = []\<rparr>"

definition end_iterator_to_index :: "int \<Rightarrow> int" where "end_iterator_to_index ei = - ei - 2"
definition index_to_end_iterator :: "int \<Rightarrow> int" where "index_to_end_iterator indx = - (indx + 2)"

definition cache_table :: "int \<Rightarrow> iterator_cache \<Rightarrow> int \<times> iterator_cache" where
  "cache_table t c =
     (case tbl_find (table_cache c) t of
        Some ei \<Rightarrow> (ei, c)
      | None \<Rightarrow>
          (let ei = index_to_end_iterator (int (length (end_iterator_to_table c))) in
           (ei, c\<lparr>end_iterator_to_table := end_iterator_to_table c @ [t], table_cache := tbl_put t ei (table_cache c)\<rparr>)))"

definition get_table :: "iterator_cache \<Rightarrow> int \<Rightarrow> db_error + int" where
  "get_table c i = need (tbl_find (table_cache c) i) Table_not_in_cache (\<lambda>_. Inr i)"

definition get_end_iterator_by_table_id :: "iterator_cache \<Rightarrow> int \<Rightarrow> db_error + int" where
  "get_end_iterator_by_table_id c i = need (tbl_find (table_cache c) i) Table_not_in_cache Inr"

definition find_table_by_end_iterator :: "iterator_cache \<Rightarrow> int \<Rightarrow> db_error + int option" where
  "find_table_by_end_iterator c ei =
     chk (ei < -1) Invalid_table_iterator
      (let indx = end_iterator_to_index ei in
       Inr (if indx \<ge> int (length (end_iterator_to_table c)) then None else Some (end_iterator_to_table c ! nat indx)))"

definition cache_get :: "iterator_cache \<Rightarrow> int \<Rightarrow> db_error + int \<times> 64 word" where
  "cache_get c iter =
     chk (iter \<noteq> -1) Invalid_table_iterator
     (chk (iter \<ge> 0) Table_operation_not_permitted
     (chk (iter < int (length (iterator_to_object c))) Invalid_table_iterator
     (need (iterator_to_object c ! nat iter) Table_operation_not_permitted Inr)))"

definition cache_remove :: "iterator_cache \<Rightarrow> int \<Rightarrow> db_error + iterator_cache" where
  "cache_remove c iter =
     chk (iter \<noteq> -1) Invalid_table_iterator
     (chk (iter \<ge> 0) Table_operation_not_permitted
     (chk (iter < int (length (iterator_to_object c))) Invalid_table_iterator
     (case iterator_to_object c ! nat iter of
        None \<Rightarrow> Inr c
      | Some p \<Rightarrow> Inr (c\<lparr>iterator_to_object := (iterator_to_object c)[nat iter := None],
                         object_to_iterator := tbl_del p (object_to_iterator c)\<rparr>))))"

definition cache_add :: "int \<times> 64 word \<Rightarrow> iterator_cache \<Rightarrow> int \<times> iterator_cache" where
  "cache_add p c =
     (case tbl_find (object_to_iterator c) p of
        Some i \<Rightarrow> (i, c)
      | None \<Rightarrow>
          (let i = int (length (iterator_to_object c)) in
           (i, c\<lparr>iterator_to_object := iterator_to_object c @ [Some p], object_to_iterator := tbl_put p i (object_to_iterator c)\<rparr>)))"

subsection \<open>The context of an action\<close>

text \<open>The fields of \<open>apply_context\<close> and of its transaction that the database calls use: the running code, the action (its
  account and authorizations), whether RAM may be charged to others in a notification, the caches, and the resource
  limits with the accounts whose RAM is verified at the end of the transaction.\<close>

record apply_context =
  receiver :: account_name
  act_code :: account_name
  act_auth :: "(account_name \<times> permission_name) list"
  privileged :: bool
  ram_billing_in_notify_allowed :: bool
  caches :: "object_kind \<Rightarrow> iterator_cache"
  account_ram_deltas :: "(account_name, int) tbl"
  cdb :: contract_db
  rl :: resource_db
  validate_ram_usage :: "account_name list"

definition require_authorization :: "apply_context \<Rightarrow> account_name \<Rightarrow> db_error + unit" where
  "require_authorization x account = chk (list_ex (\<lambda>p. fst p = account) (act_auth x)) (Missing_authorization account) (Inr ())"

definition trx_add_ram_usage :: "account_name \<Rightarrow> int \<Rightarrow> apply_context \<Rightarrow> db_error + apply_context" where
  "trx_add_ram_usage account ram_delta x =
     (case add_pending_ram_usage account ram_delta (rl x) of
        Inl e \<Rightarrow> Inl (Limit_error e)
      | Inr r \<Rightarrow> Inr (x\<lparr>rl := r, validate_ram_usage :=
          (if ram_delta > 0 then insort_insert account (validate_ram_usage x) else validate_ram_usage x)\<rparr>))"

definition add_ram_usage :: "account_name \<Rightarrow> int \<Rightarrow> apply_context \<Rightarrow> db_error + apply_context" where
  "add_ram_usage account ram_delta x =
     bnd (trx_add_ram_usage account ram_delta x) (\<lambda>x.
     Inr (x\<lparr>account_ram_deltas := tbl_put account
       (case tbl_find (account_ram_deltas x) account of None \<Rightarrow> ram_delta | Some d \<Rightarrow> s64 (d + ram_delta)) (account_ram_deltas x)\<rparr>))"

definition update_db_usage :: "account_name \<Rightarrow> int \<Rightarrow> apply_context \<Rightarrow> db_error + apply_context" where
  "update_db_usage payer delta x =
     bnd (if delta > 0 \<and> \<not> (privileged x \<or> payer = receiver x)
          then chk (ram_billing_in_notify_allowed x \<or> receiver x = act_code x) Subjective_block_production
                 (require_authorization x payer)
          else Inr ()) (\<lambda>_. add_ram_usage payer delta x)"

subsection \<open>Tables\<close>

definition find_table :: "apply_context \<Rightarrow> account_name \<Rightarrow> 64 word \<Rightarrow> 64 word \<Rightarrow> int option" where
  "find_table x code scope table =
     map_option fst (find (\<lambda>(i, t). t_code t = code \<and> t_scope t = scope \<and> t_table t = table) (tables (cdb x)))"

text \<open>\<open>create\<close> and \<open>modify\<close> of the database library.\<close>

definition set_table :: "int \<Rightarrow> table_id_object \<Rightarrow> apply_context \<Rightarrow> apply_context" where
  "set_table i t x = x\<lparr>cdb := (cdb x)\<lparr>tables := tbl_put i t (tables (cdb x))\<rparr>\<rparr>"

definition db_room :: "contract_db \<Rightarrow> bool" where
  "db_room d \<longleftrightarrow> int (length (tables d) + length (rows d)) < capacity d"

definition find_or_create_table ::
  "account_name \<Rightarrow> 64 word \<Rightarrow> 64 word \<Rightarrow> account_name \<Rightarrow> apply_context \<Rightarrow> db_error + int \<times> apply_context" where
  "find_or_create_table code scope table payer x =
     (case find_table x code scope table of
        Some i \<Rightarrow> Inr (i, x)
      | None \<Rightarrow>
          bnd (update_db_usage payer table_billable x) (\<lambda>x.
          chk (db_room (cdb x)) Db_bad_alloc
           (let i = next_table_id (cdb x);
                x' = set_table i \<lparr>t_code = code, t_scope = scope, t_table = table, t_payer = payer, t_count = 0\<rparr> x
            in Inr (i, x'\<lparr>cdb := (cdb x')\<lparr>next_table_id := i + 1\<rparr>\<rparr>))))"

definition deref_table :: "apply_context \<Rightarrow> int \<Rightarrow> db_error + table_id_object" where
  "deref_table x i = need (tbl_find (tables (cdb x)) i) Dangling_pointer Inr"

definition deref_row :: "apply_context \<Rightarrow> object_kind \<Rightarrow> int \<times> 64 word \<Rightarrow> db_error + row_object" where
  "deref_row x k p = need (tbl_find (rows (cdb x)) (k, p)) Dangling_pointer Inr"

definition remove_table :: "int \<Rightarrow> table_id_object \<Rightarrow> apply_context \<Rightarrow> db_error + apply_context" where
  "remove_table i tid x =
     bnd (update_db_usage (t_payer tid) (- table_billable) x) (\<lambda>x.
     Inr (x\<lparr>cdb := (cdb x)\<lparr>tables := tbl_del i (tables (cdb x))\<rparr>\<rparr>))"

definition create_row :: "row_key \<Rightarrow> row_object \<Rightarrow> apply_context \<Rightarrow> db_error + apply_context" where
  "create_row key r x =
     chk (db_room (cdb x)) Db_bad_alloc
     (chk (tbl_find (rows (cdb x)) key = None) Db_uniqueness
       (Inr (x\<lparr>cdb := (cdb x)\<lparr>rows := tbl_put key r (rows (cdb x))\<rparr>\<rparr>)))"

definition modify_row :: "row_key \<Rightarrow> row_object \<Rightarrow> apply_context \<Rightarrow> apply_context" where
  "modify_row key r x = x\<lparr>cdb := (cdb x)\<lparr>rows := tbl_put key r (rows (cdb x))\<rparr>\<rparr>"

definition change_count :: "int \<Rightarrow> int \<Rightarrow> apply_context \<Rightarrow> db_error + apply_context" where
  "change_count i d x = bnd (deref_table x i) (\<lambda>t. Inr (set_table i (t\<lparr>t_count := u32 (t_count t + d)\<rparr>) x))"

definition set_cache :: "object_kind \<Rightarrow> iterator_cache \<Rightarrow> apply_context \<Rightarrow> apply_context" where
  "set_cache k c x = x\<lparr>caches := (caches x)(k := c)\<rparr>"

text \<open>\<open>cache_table\<close> and \<open>add\<close> on the cache of one kind.\<close>

definition ctx_cache_table :: "object_kind \<Rightarrow> int \<Rightarrow> apply_context \<Rightarrow> int \<times> apply_context" where
  "ctx_cache_table k t x = (let (ei, c) = cache_table t (caches x k) in (ei, set_cache k c x))"

definition ctx_add :: "object_kind \<Rightarrow> int \<times> 64 word \<Rightarrow> apply_context \<Rightarrow> int \<times> apply_context" where
  "ctx_add k p x = (let (i, c) = cache_add p (caches x k) in (i, set_cache k c x))"

subsection \<open>Rows\<close>

definition db_store_i64 ::
  "64 word \<Rightarrow> 64 word \<Rightarrow> account_name \<Rightarrow> 64 word \<Rightarrow> 8 word list \<Rightarrow> apply_context \<Rightarrow> db_error + int \<times> apply_context" where
  "db_store_i64 scope table payer pk buffer x =
     bnd (find_or_create_table (receiver x) scope table payer x) (\<lambda>(tab, x).
     chk (payer \<noteq> 0) Invalid_table_payer
     (bnd (create_row (Keyval, tab, pk) \<lparr>row_payer = payer, row_content = Value buffer\<rparr> x) (\<lambda>x.
      bnd (change_count tab 1 x) (\<lambda>x.
      bnd (update_db_usage payer (int (length buffer) + kind_billable Keyval) x) (\<lambda>x.
      Inr (ctx_add Keyval (tab, pk) (snd (ctx_cache_table Keyval tab x))))))))"

text \<open>The table of the object that an iterator stands for, which must belong to the running code.\<close>

definition own_object :: "object_kind \<Rightarrow> int \<Rightarrow> apply_context \<Rightarrow> db_error + (int \<times> 64 word) \<times> row_object \<times> table_id_object" where
  "own_object k iter x =
     bnd (cache_get (caches x k) iter) (\<lambda>p.
     bnd (deref_row x k p) (\<lambda>obj.
     bnd (get_table (caches x k) (fst p)) (\<lambda>i.
     bnd (deref_table x i) (\<lambda>t.
     chk (t_code t = receiver x) Table_access_violation (Inr (p, obj, t))))))"

definition value_size :: "row_object \<Rightarrow> int" where
  "value_size r = (case row_content r of Value v \<Rightarrow> int (length v) | Secondary _ \<Rightarrow> 0)"

definition db_update_i64 :: "int \<Rightarrow> account_name \<Rightarrow> 8 word list \<Rightarrow> apply_context \<Rightarrow> db_error + apply_context" where
  "db_update_i64 iter payer buffer x =
     bnd (own_object Keyval iter x) (\<lambda>(p, obj, t).
     let old_size = value_size obj + kind_billable Keyval;
         new_size = int (length buffer) + kind_billable Keyval;
         payer = (if payer = 0 then row_payer obj else payer) in
     bnd (if row_payer obj \<noteq> payer
          then bnd (update_db_usage (row_payer obj) (- old_size) x) (update_db_usage payer new_size)
          else if old_size \<noteq> new_size then update_db_usage (row_payer obj) (new_size - old_size) x
          else Inr x) (\<lambda>x.
     Inr (modify_row (Keyval, p) \<lparr>row_payer = payer, row_content = Value buffer\<rparr> x)))"

text \<open>What \<open>db_remove_i64\<close> and \<open>remove\<close> of an index do once the object is refunded: the count goes down, the object is
  removed, and the table with it when it was the last one.\<close>

definition drop_row :: "object_kind \<Rightarrow> int \<Rightarrow> int \<times> 64 word \<Rightarrow> apply_context \<Rightarrow> db_error + apply_context" where
  "drop_row k iter p x =
     bnd (change_count (fst p) (-1) x) (\<lambda>x.
     let x = x\<lparr>cdb := (cdb x)\<lparr>rows := tbl_del (k, p) (rows (cdb x))\<rparr>\<rparr> in
     bnd (deref_table x (fst p)) (\<lambda>t.
     bnd (if t_count t = 0 then remove_table (fst p) t x else Inr x) (\<lambda>x.
     bnd (cache_remove (caches x k) iter) (\<lambda>c. Inr (set_cache k c x)))))"

definition db_remove_i64 :: "int \<Rightarrow> apply_context \<Rightarrow> db_error + apply_context" where
  "db_remove_i64 iter x =
     bnd (own_object Keyval iter x) (\<lambda>(p, obj, t).
     bnd (update_db_usage (row_payer obj) (- (value_size obj + kind_billable Keyval)) x) (\<lambda>x.
     drop_row Keyval iter p x))"

text \<open>\<open>db_get_i64\<close> copies at most \<open>buffer_size\<close> bytes and returns how many, or the size when it is asked for no bytes.\<close>

definition db_get_i64 :: "int \<Rightarrow> nat \<Rightarrow> apply_context \<Rightarrow> db_error + int \<times> 8 word list" where
  "db_get_i64 iter buffer_size x =
     bnd (cache_get (caches x Keyval) iter) (\<lambda>p.
     bnd (deref_row x Keyval p) (\<lambda>obj.
     let v = (case row_content obj of Value v \<Rightarrow> v | Secondary _ \<Rightarrow> []) in
     if buffer_size = 0 then Inr (int (length v), [])
     else let copy_size = min buffer_size (length v) in Inr (int copy_size, take copy_size v)))"

subsection \<open>Moving iterators\<close>

text \<open>A step to the object \<open>hit\<close> of the ordered index, if that is an object of the table: its iterator, and the object.\<close>

definition step_to :: "object_kind \<Rightarrow> int \<Rightarrow> (int \<times> 64 word) option \<Rightarrow> (apply_context \<Rightarrow> db_error + int)
    \<Rightarrow> apply_context \<Rightarrow> db_error + (int \<times> (int \<times> 64 word) option) \<times> apply_context" where
  "step_to k t hit other x =
     (case hit of
        Some p \<Rightarrow> if fst p = t then (let (i, x') = ctx_add k p x in Inr ((i, Some p), x')) else bnd (other x) (\<lambda>i. Inr ((i, None), x))
      | None \<Rightarrow> bnd (other x) (\<lambda>i. Inr ((i, None), x)))"

definition next_primary ::
  "object_kind \<Rightarrow> int \<Rightarrow> apply_context \<Rightarrow> db_error + (int \<times> (int \<times> 64 word) option) \<times> apply_context" where
  "next_primary k iter x =
     (if iter < -1 then Inr ((-1, None), x)
      else bnd (cache_get (caches x k) iter) (\<lambda>p.
        bnd (deref_row x k p) (\<lambda>_.
        step_to k (fst p) (find (\<lambda>q. p < q) (primary_index k (cdb x)))
          (\<lambda>x. get_end_iterator_by_table_id (caches x k) (fst p)) x)))"

text \<open>\<open>--itr\<close> from the first object past the table: the last object whose table is at most this one.\<close>

definition previous_primary ::
  "object_kind \<Rightarrow> int \<Rightarrow> apply_context \<Rightarrow> db_error + (int \<times> (int \<times> 64 word) option) \<times> apply_context" where
  "previous_primary k iter x =
     (if iter < -1
      then bnd (find_table_by_end_iterator (caches x k) iter) (\<lambda>tab.
        need tab Invalid_table_iterator (\<lambda>t.
        bnd (deref_table x t) (\<lambda>_.
        step_to k t (find (\<lambda>q. fst q \<le> t) (rev (primary_index k (cdb x)))) (\<lambda>_. Inr (-1)) x)))
      else bnd (cache_get (caches x k) iter) (\<lambda>p.
        bnd (deref_row x k p) (\<lambda>_.
        step_to k (fst p) (find (\<lambda>q. q < p) (rev (primary_index k (cdb x)))) (\<lambda>_. Inr (-1)) x)))"

text \<open>Lookups in a table: \<open>-1\<close> when there is no such table, its end iterator when nothing is found.\<close>

definition lookup_in :: "object_kind \<Rightarrow> account_name \<Rightarrow> 64 word \<Rightarrow> 64 word \<Rightarrow> (contract_db \<Rightarrow> int \<Rightarrow> (int \<times> 64 word) option)
    \<Rightarrow> apply_context \<Rightarrow> db_error + (int \<times> (int \<times> 64 word) option) \<times> apply_context" where
  "lookup_in k code scope table hit x =
     (case find_table x code scope table of
        None \<Rightarrow> Inr ((-1, None), x)
      | Some t \<Rightarrow>
          (let (ei, x) = ctx_cache_table k t x in step_to k t (hit (cdb x) t) (\<lambda>_. Inr ei) x))"

definition find_primary where
  "find_primary k code scope table pk =
     lookup_in k code scope table (\<lambda>d t. if tbl_find (rows d) (k, t, pk) = None then None else Some (t, pk))"

definition lowerbound_primary where
  "lowerbound_primary k code scope table pk =
     lookup_in k code scope table (\<lambda>d t. find (\<lambda>q. (t, pk) \<le> q) (primary_index k d))"

definition upperbound_primary where
  "upperbound_primary k code scope table pk =
     lookup_in k code scope table (\<lambda>d t. find (\<lambda>q. (t, pk) < q) (primary_index k d))"

definition end_iterator :: "object_kind \<Rightarrow> account_name \<Rightarrow> 64 word \<Rightarrow> 64 word \<Rightarrow> apply_context \<Rightarrow> int \<times> apply_context" where
  "end_iterator k code scope table x =
     (case find_table x code scope table of None \<Rightarrow> (-1, x) | Some t \<Rightarrow> ctx_cache_table k t x)"

text \<open>The calls on rows return an iterator; \<open>next\<close> and \<open>previous\<close> also the primary key they arrive at.\<close>

definition primary_result :: "db_error + (int \<times> (int \<times> 64 word) option) \<times> apply_context \<Rightarrow> db_error + (int \<times> 64 word option) \<times> apply_context" where
  "primary_result r = bnd r (\<lambda>((i, p), x). Inr ((i, map_option snd p), x))"

definition db_next_i64 :: "int \<Rightarrow> apply_context \<Rightarrow> db_error + (int \<times> 64 word option) \<times> apply_context" where
  "db_next_i64 iter x = primary_result (next_primary Keyval iter x)"

definition db_previous_i64 :: "int \<Rightarrow> apply_context \<Rightarrow> db_error + (int \<times> 64 word option) \<times> apply_context" where
  "db_previous_i64 iter x = primary_result (previous_primary Keyval iter x)"

definition db_find_i64 where
  "db_find_i64 code scope table pk x = bnd (find_primary Keyval code scope table pk x) (\<lambda>((i, _), x). Inr (i, x))"

definition db_lowerbound_i64 where
  "db_lowerbound_i64 code scope table pk x = bnd (lowerbound_primary Keyval code scope table pk x) (\<lambda>((i, _), x). Inr (i, x))"

definition db_upperbound_i64 where
  "db_upperbound_i64 code scope table pk x = bnd (upperbound_primary Keyval code scope table pk x) (\<lambda>((i, _), x). Inr (i, x))"

definition db_end_i64 where
  "db_end_i64 = end_iterator Keyval"

subsection \<open>Secondary indices\<close>

definition idx_store ::
  "object_kind \<Rightarrow> 64 word \<Rightarrow> 64 word \<Rightarrow> account_name \<Rightarrow> 64 word \<Rightarrow> int \<Rightarrow> apply_context \<Rightarrow> db_error + int \<times> apply_context" where
  "idx_store k scope table payer pk secondary x =
     chk (payer \<noteq> 0) Invalid_table_payer
     (bnd (find_or_create_table (receiver x) scope table payer x) (\<lambda>(tab, x).
      bnd (create_row (k, tab, pk) \<lparr>row_payer = payer, row_content = Secondary secondary\<rparr> x) (\<lambda>x.
      bnd (change_count tab 1 x) (\<lambda>x.
      bnd (update_db_usage payer (kind_billable k) x) (\<lambda>x.
      Inr (ctx_add k (tab, pk) (snd (ctx_cache_table k tab x))))))))"

definition idx_remove :: "object_kind \<Rightarrow> int \<Rightarrow> apply_context \<Rightarrow> db_error + apply_context" where
  "idx_remove k iter x =
     bnd (cache_get (caches x k) iter) (\<lambda>p.
     bnd (deref_row x k p) (\<lambda>obj.
     bnd (update_db_usage (row_payer obj) (- kind_billable k) x) (\<lambda>x.
     bnd (get_table (caches x k) (fst p)) (\<lambda>i.
     bnd (deref_table x i) (\<lambda>t.
     chk (t_code t = receiver x) Table_access_violation (drop_row k iter p x))))))"

definition idx_update :: "object_kind \<Rightarrow> int \<Rightarrow> account_name \<Rightarrow> int \<Rightarrow> apply_context \<Rightarrow> db_error + apply_context" where
  "idx_update k iter payer secondary x =
     bnd (own_object k iter x) (\<lambda>(p, obj, t).
     let payer = (if payer = 0 then row_payer obj else payer) in
     bnd (if row_payer obj \<noteq> payer
          then bnd (update_db_usage (row_payer obj) (- kind_billable k) x) (update_db_usage payer (kind_billable k))
          else Inr x) (\<lambda>x.
     Inr (modify_row (k, p) \<lparr>row_payer = payer, row_content = Secondary secondary\<rparr> x)))"

definition drop_secondary :: "int \<times> int \<times> 64 word \<Rightarrow> int \<times> 64 word" where
  "drop_secondary q = (fst q, snd (snd q))"

definition key_in_secondary :: "apply_context \<Rightarrow> object_kind \<Rightarrow> int \<times> 64 word \<Rightarrow> row_object \<Rightarrow> int \<times> int \<times> 64 word" where
  "key_in_secondary x k p obj = (fst p, secondary_of obj, snd p)"

definition idx_find_secondary where
  "idx_find_secondary k code scope table secondary =
     lookup_in k code scope table (\<lambda>d t. map_option drop_secondary
       (find (\<lambda>q. fst q = t \<and> fst (snd q) = secondary) (secondary_index k d)))"

definition idx_lowerbound_secondary where
  "idx_lowerbound_secondary k code scope table secondary =
     lookup_in k code scope table (\<lambda>d t. map_option drop_secondary
       (find (\<lambda>q. (t, secondary) \<le> (fst q, fst (snd q))) (secondary_index k d)))"

definition idx_upperbound_secondary where
  "idx_upperbound_secondary k code scope table secondary =
     lookup_in k code scope table (\<lambda>d t. map_option drop_secondary
       (find (\<lambda>q. (t, secondary) < (fst q, fst (snd q))) (secondary_index k d)))"

definition idx_end_secondary where
  "idx_end_secondary = end_iterator"

definition idx_next_secondary ::
  "object_kind \<Rightarrow> int \<Rightarrow> apply_context \<Rightarrow> db_error + (int \<times> (int \<times> 64 word) option) \<times> apply_context" where
  "idx_next_secondary k iter x =
     (if iter < -1 then Inr ((-1, None), x)
      else bnd (cache_get (caches x k) iter) (\<lambda>p.
        bnd (deref_row x k p) (\<lambda>obj.
        step_to k (fst p) (map_option drop_secondary (find (\<lambda>q. key_in_secondary x k p obj < q) (secondary_index k (cdb x))))
          (\<lambda>x. get_end_iterator_by_table_id (caches x k) (fst p)) x)))"

definition idx_previous_secondary ::
  "object_kind \<Rightarrow> int \<Rightarrow> apply_context \<Rightarrow> db_error + (int \<times> (int \<times> 64 word) option) \<times> apply_context" where
  "idx_previous_secondary k iter x =
     (if iter < -1
      then bnd (find_table_by_end_iterator (caches x k) iter) (\<lambda>tab.
        need tab Invalid_table_iterator (\<lambda>t.
        bnd (deref_table x t) (\<lambda>_.
        step_to k t (map_option drop_secondary (find (\<lambda>q. fst q \<le> t) (rev (secondary_index k (cdb x))))) (\<lambda>_. Inr (-1)) x)))
      else bnd (cache_get (caches x k) iter) (\<lambda>p.
        bnd (deref_row x k p) (\<lambda>obj.
        step_to k (fst p) (map_option drop_secondary (find (\<lambda>q. q < key_in_secondary x k p obj) (rev (secondary_index k (cdb x)))))
          (\<lambda>_. Inr (-1)) x)))"

definition idx_get :: "object_kind \<Rightarrow> int \<Rightarrow> apply_context \<Rightarrow> db_error + 64 word \<times> int" where
  "idx_get k iter x =
     bnd (cache_get (caches x k) iter) (\<lambda>p. bnd (deref_row x k p) (\<lambda>obj. Inr (snd p, secondary_of obj)))"

end
