(* ===== verification/Db_Invariant.thy ===== *)
theory Db_Invariant
  imports Contract_Db
begin

text \<open>
  The invariant of the contract database and of the iterator caches, what each call does to the rows, the tables, the caches
  and the RAM usage, and why the errors that the code takes to be impossible do not occur.
\<close>

subsection \<open>Well-formed contexts\<close>

definition row_size :: "row_key \<Rightarrow> row_object \<Rightarrow> int" where
  "row_size key r = kind_billable (fst key) + value_size r"

definition rows_in :: "int \<Rightarrow> contract_db \<Rightarrow> int" where
  "rows_in i d = tbl.total (\<lambda>key r. if fst (snd key) = i then 1 else 0) (rows d)"

text \<open>The bytes of RAM that an account holds.\<close>

definition held :: "account_name \<Rightarrow> contract_db \<Rightarrow> int" where
  "held a d = tbl.total (\<lambda>i t. if t_payer t = a then table_billable else 0) (tables d) +
     tbl.total (\<lambda>key r. if row_payer r = a then row_size key r else 0) (rows d)"

definition table_name :: "table_id_object \<Rightarrow> account_name \<times> 64 word \<times> 64 word" where
  "table_name t = (t_code t, t_scope t, t_table t)"

definition row_typed :: "row_key \<Rightarrow> row_object \<Rightarrow> bool" where
  "row_typed key r \<longleftrightarrow> (case row_content r of Value v \<Rightarrow> fst key = Keyval \<and> int (length v) < 2 ^ 32 | Secondary _ \<Rightarrow> fst key \<noteq> Keyval)"

definition db_wf :: "contract_db \<Rightarrow> bool" where
  "db_wf d \<longleftrightarrow> tbl_ok (tables d) \<and> tbl_ok (rows d) \<and> capacity d < 2 ^ 32 \<and>
     int (length (tables d) + length (rows d)) \<le> capacity d \<and>
     (\<forall>i t. tbl_find (tables d) i = Some t \<longrightarrow> i < next_table_id d \<and> t_count t = rows_in i d) \<and>
     (\<forall>i j t u. tbl_find (tables d) i = Some t \<longrightarrow> tbl_find (tables d) j = Some u \<longrightarrow> table_name t = table_name u \<longrightarrow> i = j) \<and>
     (\<forall>k i pk r. tbl_find (rows d) (k, i, pk) = Some r \<longrightarrow> tbl_find (tables d) i \<noteq> None \<and> row_typed (k, i, pk) r)"

definition cache_wf :: "contract_db \<Rightarrow> object_kind \<Rightarrow> iterator_cache \<Rightarrow> bool" where
  "cache_wf d k c \<longleftrightarrow> tbl_ok (table_cache c) \<and> tbl_ok (object_to_iterator c) \<and>
     (\<forall>i ei. tbl_find (table_cache c) i = Some ei \<longrightarrow> i < next_table_id d \<and> ei < -1) \<and>
     (\<forall>p i. tbl_find (object_to_iterator c) p = Some i \<longleftrightarrow>
        0 \<le> i \<and> i < int (length (iterator_to_object c)) \<and> iterator_to_object c ! nat i = Some p) \<and>
     (\<forall>n i. n < length (end_iterator_to_table c) \<and> end_iterator_to_table c ! n = i \<longleftrightarrow>
        tbl_find (table_cache c) i = Some (index_to_end_iterator (int n))) \<and>
     (\<forall>p. Some p \<in> set (iterator_to_object c) \<longrightarrow> tbl_find (rows d) (k, p) \<noteq> None \<and> tbl_find (table_cache c) (fst p) \<noteq> None)"

definition rl_ok :: "resource_db \<Rightarrow> bool" where
  "rl_ok r \<longleftrightarrow> tbl_ok (usage r) \<and> (\<forall>a u. tbl_find (usage r) a = Some u \<longrightarrow> 0 \<le> ram_usage u \<and> ram_usage u \<le> UINT64_MAX)"

definition ctx_wf :: "apply_context \<Rightarrow> bool" where
  "ctx_wf x \<longleftrightarrow> db_wf (cdb x) \<and> rl_ok (rl x) \<and> (\<forall>k. cache_wf (cdb x) k (caches x k))"

definition ram_of :: "resource_db \<Rightarrow> account_name \<Rightarrow> int" where
  "ram_of r a = (case tbl_find (usage r) a of None \<Rightarrow> 0 | Some u \<Rightarrow> ram_usage u)"

subsection \<open>Charging RAM\<close>

definition small :: "int \<Rightarrow> bool" where
  "small d \<longleftrightarrow> \<bar>d\<bar> < 2 ^ 62"

lemma add_pending_ram_usage_spec:
  assumes "rl_ok r" "small d" "add_pending_ram_usage a d r = Inr r'"
  shows "rl_ok r'" "ram_of r' b = ram_of r b + (if b = a then d else 0)"
proof -
  have w: "u64 d = d" if "0 \<le> d" using that assms(2) by (intro u64_id) (auto simp: small_def UINT64_MAX_def)
  have w': "u64 (- d) = - d" if "d \<le> 0" using that assms(2) by (intro u64_id) (auto simp: small_def UINT64_MAX_def)
  have "rl_ok r' \<and> ram_of r' b = ram_of r b + (if b = a then d else 0)"
  proof (cases "d = 0")
    case True
    then show ?thesis using assms by (auto simp: add_pending_ram_usage_def)
  next
    case False
    then obtain u where u: "tbl_find (usage r) a = Some u" "d \<le> 0 \<or> UINT64_MAX - ram_usage u \<ge> u64 d"
      "d \<ge> 0 \<or> ram_usage u \<ge> u64 (- d)" and r': "r' = r\<lparr>usage := tbl_put a (u\<lparr>ram_usage := u64 (ram_usage u + d)\<rparr>) (usage r)\<rparr>"
      using assms(3) by (auto simp: add_pending_ram_usage_def res_simps)
    have i: "0 \<le> ram_usage u" "ram_usage u \<le> UINT64_MAX" using assms(1) u(1) by (auto simp: rl_ok_def)
    have "0 \<le> ram_usage u + d \<and> ram_usage u + d \<le> UINT64_MAX"
      using u(2,3) w w' i by (cases "d \<le> 0") auto
    then have "u64 (ram_usage u + d) = ram_usage u + d" by (simp add: u64_id)
    then show ?thesis
      using assms(1) u(1) \<open>0 \<le> ram_usage u + d \<and> _\<close> unfolding r'
      by (auto simp: rl_ok_def ram_of_def tbl_simps)
  qed
  then show "rl_ok r'" "ram_of r' b = ram_of r b + (if b = a then d else 0)" by auto
qed

text \<open>What charging RAM leaves alone.\<close>

definition same_db :: "apply_context \<Rightarrow> apply_context \<Rightarrow> bool" where
  "same_db x y \<longleftrightarrow> cdb y = cdb x \<and> caches y = caches x \<and> receiver y = receiver x"

lemma update_db_usage_spec:
  assumes "update_db_usage a d x = Inr y" "rl_ok (rl x)" "small d"
  shows "same_db x y" "rl_ok (rl y)" "ram_of (rl y) b = ram_of (rl x) b + (if b = a then d else 0)"
proof -
  obtain r where r: "add_pending_ram_usage a d (rl x) = Inr r" "rl y = r" "same_db x y"
    using assms(1)
    by (auto simp: update_db_usage_def add_ram_usage_def trx_add_ram_usage_def res_simps same_db_def split: sum.splits)
  then show "same_db x y" "rl_ok (rl y)" "ram_of (rl y) b = ram_of (rl x) b + (if b = a then d else 0)"
    using add_pending_ram_usage_spec [OF assms(2,3)] by auto
qed


subsection \<open>Sizes\<close>

lemma tbl_length_del: "tbl_ok t \<Longrightarrow> length (tbl_del k t) = length t - (if tbl_find t k = None then 0 else 1)"
  using arg_cong [OF tbl_mset_del, of t size k] tbl_rows_find [of t k]
  by (auto split: option.splits simp: size_Diff_singleton)

lemma tbl_length_put: "tbl_ok t \<Longrightarrow> length (tbl_put k v t) = length t + (if tbl_find t k = None then 1 else 0)"
proof -
  assume ok: "tbl_ok t"
  have "length t > 0" if "tbl_find t k \<noteq> None" using that by (auto simp: tbl_find_def)
  then show ?thesis
    using arg_cong [OF tbl_mset_put [OF ok], of size k v] tbl_length_del [OF ok, of k] by auto
qed

lemma tbl_total_zero: "tbl_ok t \<Longrightarrow> (\<And>k v. tbl_find t k = Some v \<Longrightarrow> f k v = 0) \<Longrightarrow> tbl.total f t = 0"
  using tbl.total_cong [of t f "\<lambda>_ _. 0"] by (simp add: tbl.total_def)

lemma billable_values: "table_billable = 112" "kind_billable Keyval = 112" "kind_billable Index64 = 128"
  "kind_billable Index128 = 144" "kind_billable Index256 = 160"
  by (simp_all add: table_billable_def kind_billable_def billable_size_v_def)

lemma kind_billable_bounds: "0 < kind_billable k" "kind_billable k \<le> 160"
  by (cases k; simp add: billable_values)+

lemma value_size_bounds: "row_typed key r \<Longrightarrow> 0 \<le> value_size r \<and> value_size r < 2 ^ 32"
  by (auto simp: row_typed_def value_size_def split: content.splits)

subsection \<open>Tables\<close>

lemma db_wfD:
  assumes "db_wf d"
  shows "tbl_ok (tables d)" "tbl_ok (rows d)"
    and "tbl_find (tables d) i = Some t \<Longrightarrow> i < next_table_id d"
    and "tbl_find (tables d) i = Some t \<Longrightarrow> t_count t = rows_in i d"
    and "tbl_find (tables d) i = Some t \<Longrightarrow> tbl_find (tables d) j = Some u \<Longrightarrow> table_name t = table_name u \<Longrightarrow> i = j"
    and "tbl_find (rows d) (k, i, pk) = Some r \<Longrightarrow> \<exists>t. tbl_find (tables d) i = Some t"
    and "tbl_find (rows d) (k, i, pk) = Some r \<Longrightarrow> row_typed (k, i, pk) r"
  using assms unfolding db_wf_def by blast+

lemma db_wfI:
  assumes "tbl_ok (tables d)" "tbl_ok (rows d)" "capacity d < 2 ^ 32" "int (length (tables d) + length (rows d)) \<le> capacity d"
    and "\<And>i t. tbl_find (tables d) i = Some t \<Longrightarrow> i < next_table_id d"
    and "\<And>i t. tbl_find (tables d) i = Some t \<Longrightarrow> t_count t = rows_in i d"
    and "\<And>i j t u. tbl_find (tables d) i = Some t \<Longrightarrow> tbl_find (tables d) j = Some u \<Longrightarrow> table_name t = table_name u \<Longrightarrow> i = j"
    and "\<And>k i pk r. tbl_find (rows d) (k, i, pk) = Some r \<Longrightarrow> \<exists>t. tbl_find (tables d) i = Some t"
    and "\<And>k i pk r. tbl_find (rows d) (k, i, pk) = Some r \<Longrightarrow> row_typed (k, i, pk) r"
  shows "db_wf d"
  using assms unfolding db_wf_def by (intro conjI) (assumption | blast)+

lemma findD: "find P xs = Some y \<Longrightarrow> y \<in> set xs \<and> P y"
  by (induction xs) (auto split: if_splits)

lemma find_table_Some:
  assumes "db_wf (cdb x)"
  shows "find_table x code scope table = Some i \<longleftrightarrow> (\<exists>t. tbl_find (tables (cdb x)) i = Some t \<and> table_name t = (code, scope, table))"
proof
  assume "find_table x code scope table = Some i"
  then obtain t where "find (\<lambda>(i, t). t_code t = code \<and> t_scope t = scope \<and> t_table t = table) (tables (cdb x)) = Some (i, t)"
    by (auto simp: find_table_def)
  then have "(i, t) \<in> set (tables (cdb x))" "table_name t = (code, scope, table)"
    by (auto simp: table_name_def dest: findD)
  then show "\<exists>t. tbl_find (tables (cdb x)) i = Some t \<and> table_name t = (code, scope, table)"
    using tbl_rows_find [OF db_wfD(1) [OF assms]] by auto
next
  assume "\<exists>t. tbl_find (tables (cdb x)) i = Some t \<and> table_name t = (code, scope, table)"
  then obtain t where t: "tbl_find (tables (cdb x)) i = Some t" "table_name t = (code, scope, table)" by blast
  then have m: "(i, t) \<in> set (tables (cdb x))" using tbl_rows_find [OF db_wfD(1) [OF assms]] by auto
  let ?P = "\<lambda>(i, t). t_code t = code \<and> t_scope t = scope \<and> t_table t = table"
  obtain q where q: "find ?P (tables (cdb x)) = Some q"
    using m t(2) by (cases "find ?P (tables (cdb x))") (auto simp: find_None_iff table_name_def)
  then have "q \<in> set (tables (cdb x))" "?P q" by (auto dest: findD)
  then have "fst q = i"
    using db_wfD(5) [OF assms, of "fst q" "snd q" i t] t tbl_rows_find [OF db_wfD(1) [OF assms], of "fst q" "snd q"]
    by (auto simp: table_name_def split: prod.splits)
  then show "find_table x code scope table = Some i" using q by (simp add: find_table_def)
qed

lemma find_table_None:
  assumes "db_wf (cdb x)" "find_table x code scope table = None" "tbl_find (tables (cdb x)) i = Some t"
  shows "table_name t \<noteq> (code, scope, table)"
  using find_table_Some [OF assms(1), of code scope table i] assms(2,3) by auto

definition moved :: "apply_context \<Rightarrow> apply_context \<Rightarrow> bool" where
  "moved x y \<longleftrightarrow> (\<forall>a. ram_of (rl y) a - held a (cdb y) = ram_of (rl x) a - held a (cdb x))"

lemma moved_trans: "moved x y \<Longrightarrow> moved y z \<Longrightarrow> moved x z"
  by (simp add: moved_def)

lemma cache_wfD:
  assumes "cache_wf d k c"
  shows "tbl_ok (table_cache c)" "tbl_ok (object_to_iterator c)"
    and "tbl_find (table_cache c) i = Some ei \<Longrightarrow> i < next_table_id d"
    and "tbl_find (object_to_iterator c) p = Some j \<longleftrightarrow>
        0 \<le> j \<and> j < int (length (iterator_to_object c)) \<and> iterator_to_object c ! nat j = Some p"
    and "n < length (end_iterator_to_table c) \<and> end_iterator_to_table c ! n = i \<longleftrightarrow>
        tbl_find (table_cache c) i = Some (index_to_end_iterator (int n))"
    and "Some p \<in> set (iterator_to_object c) \<Longrightarrow> \<exists>r. tbl_find (rows d) (k, p) = Some r"
    and "Some p \<in> set (iterator_to_object c) \<Longrightarrow> \<exists>ei. tbl_find (table_cache c) (fst p) = Some ei"
    and "tbl_find (table_cache c) i = Some ei \<Longrightarrow> ei < -1"
  using assms unfolding cache_wf_def by blast+

lemma cache_wfI:
  assumes "tbl_ok (table_cache c)" "tbl_ok (object_to_iterator c)"
    and "\<And>i ei. tbl_find (table_cache c) i = Some ei \<Longrightarrow> i < next_table_id d \<and> ei < -1"
    and "\<And>p j. tbl_find (object_to_iterator c) p = Some j \<longleftrightarrow>
        0 \<le> j \<and> j < int (length (iterator_to_object c)) \<and> iterator_to_object c ! nat j = Some p"
    and "\<And>n i. n < length (end_iterator_to_table c) \<and> end_iterator_to_table c ! n = i \<longleftrightarrow>
        tbl_find (table_cache c) i = Some (index_to_end_iterator (int n))"
    and "\<And>p. Some p \<in> set (iterator_to_object c) \<Longrightarrow> \<exists>r. tbl_find (rows d) (k, p) = Some r"
    and "\<And>p. Some p \<in> set (iterator_to_object c) \<Longrightarrow> \<exists>ei. tbl_find (table_cache c) (fst p) = Some ei"
  shows "cache_wf d k c"
  unfolding cache_wf_def using assms(1-5) assms(6,7)
  by (intro conjI allI impI) (assumption | force)+

lemma new_cache_wf: "cache_wf d k new_cache"
  by (rule cache_wfI) (auto simp: new_cache_def tbl_simps)

lemma cache_wf_mono:
  assumes "cache_wf d k c" "\<And>p r. Some p \<in> set (iterator_to_object c) \<Longrightarrow> tbl_find (rows d) (k, p) = Some r \<Longrightarrow> \<exists>r. tbl_find (rows d') (k, p) = Some r"
    and "next_table_id d \<le> next_table_id d'"
  shows "cache_wf d' k c"
proof (rule cache_wfI)
  fix p assume "Some p \<in> set (iterator_to_object c)"
  then show "\<exists>r. tbl_find (rows d') (k, p) = Some r" using cache_wfD(6) [OF assms(1), of p] assms(2) by blast
next
  fix i ei assume "tbl_find (table_cache c) i = Some ei"
  then show "i < next_table_id d' \<and> ei < -1" using cache_wfD(3,8) [OF assms(1)] assms(3) by fastforce
qed (use cache_wfD [OF assms(1)] in \<open>blast+\<close>)

text \<open>A new table has a fresh identifier.\<close>

lemma db_wf_new_table:
  assumes wf: "db_wf d" and room: "db_room d"
    and fresh: "\<And>i t. tbl_find (tables d) i = Some t \<Longrightarrow> table_name t \<noteq> table_name t0" and z: "t_count t0 = 0"
    and d': "d' = d\<lparr>tables := tbl_put (next_table_id d) t0 (tables d), next_table_id := next_table_id d + 1\<rparr>"
  shows "db_wf d'" "held a d' = held a d + (if t_payer t0 = a then table_billable else 0)"
    and "cache_wf d k c \<Longrightarrow> cache_wf d' k c"
proof -
  have n: "tbl_find (tables d) (next_table_id d) = None" using db_wfD(3) [OF wf, of "next_table_id d"] by fastforce
  have r0: "rows_in (next_table_id d) d = 0"
    unfolding rows_in_def using db_wfD(2,6) [OF wf] n by (intro tbl_total_zero) (auto, force)
  have f: "tbl_find (tables d') j = (if j = next_table_id d then Some t0 else tbl_find (tables d) j)" for j
    using db_wfD(1) [OF wf] unfolding d' by (simp add: tbl_simps)
  have r: "rows d' = rows d" "rows_in j d' = rows_in j d" "next_table_id d' = next_table_id d + 1" "capacity d' = capacity d" for j
    unfolding d' rows_in_def by simp_all
  show "db_wf d'"
  proof (rule db_wfI, goal_cases)
    case 4
    then show ?case using room tbl_length_put [OF db_wfD(1) [OF wf]] n unfolding d' by (simp add: db_room_def)
  next
    case (5 i t)
    then show ?case using db_wfD(3) [OF wf, of i t] by (auto simp: f r split: if_splits)
  next
    case (6 i t)
    then show ?case using db_wfD(4) [OF wf, of i t] r0 z by (auto simp: f r split: if_splits)
  next
    case (7 i j t u)
    then show ?case using db_wfD(5) [OF wf, of i t j u] fresh [of i t] fresh [of j u] by (auto simp: f split: if_splits)
  next
    case (8 k i pk r)
    then show ?case using db_wfD(6) [OF wf, of k i pk r] by (auto simp: f r)
  next
    case (9 k i pk r)
    then show ?case using db_wfD(7) [OF wf, of k i pk r] by (auto simp: r)
  qed (use wf in \<open>simp_all add: d' tbl_simps db_wf_def\<close>)
  show "held a d' = held a d + (if t_payer t0 = a then table_billable else 0)"
    using n db_wfD(1) [OF wf] unfolding held_def d' by (simp add: tbl_simps)
  show "cache_wf d k c \<Longrightarrow> cache_wf d' k c"
    by (rule cache_wf_mono) (auto simp: r)
qed

lemma ctx_wfD: "ctx_wf x \<Longrightarrow> db_wf (cdb x)" "ctx_wf x \<Longrightarrow> rl_ok (rl x)" "ctx_wf x \<Longrightarrow> cache_wf (cdb x) k (caches x k)"
  by (simp_all add: ctx_wf_def)

lemma ctx_wf_same_db: "ctx_wf x \<Longrightarrow> same_db x y \<Longrightarrow> rl_ok (rl y) \<Longrightarrow> ctx_wf y"
  by (simp add: ctx_wf_def same_db_def)

lemma find_or_create_table_spec:
  assumes "find_or_create_table code scope table payer x = Inr (i, y)" "ctx_wf x"
  shows "ctx_wf y" "moved x y" "find_table y code scope table = Some i" "caches y = caches x" "receiver y = receiver x"
    "rows (cdb y) = rows (cdb x)"
    and "find_table x code scope table = None \<Longrightarrow> i = next_table_id (cdb x)"
    and "tbl_find (tables (cdb x)) j = Some t \<Longrightarrow> tbl_find (tables (cdb y)) j = Some t"
    and "find_table x code scope table = None \<Longrightarrow> tbl_find (tables (cdb y)) j = Some t \<Longrightarrow> j \<noteq> i \<Longrightarrow> tbl_find (tables (cdb x)) j = Some t"
proof -
  have "ctx_wf y \<and> moved x y \<and> find_table y code scope table = Some i \<and> caches y = caches x \<and> receiver y = receiver x \<and>
     rows (cdb y) = rows (cdb x) \<and> (find_table x code scope table = None \<longrightarrow> i = next_table_id (cdb x)) \<and>
     (\<forall>j t. tbl_find (tables (cdb x)) j = Some t \<longrightarrow> tbl_find (tables (cdb y)) j = Some t) \<and>
     (find_table x code scope table = None \<longrightarrow> (\<forall>j t. tbl_find (tables (cdb y)) j = Some t \<longrightarrow> j \<noteq> i \<longrightarrow> tbl_find (tables (cdb x)) j = Some t))"
  proof (cases "find_table x code scope table")
    case (Some i')
    then show ?thesis using assms by (simp add: find_or_create_table_def moved_def)
  next
    case None
    let ?t = "\<lparr>t_code = code, t_scope = scope, t_table = table, t_payer = payer, t_count = 0\<rparr>"
    obtain z where z: "update_db_usage payer table_billable x = Inr z" "db_room (cdb z)"
      and i: "i = next_table_id (cdb z)"
      and y: "y = z\<lparr>cdb := (cdb z)\<lparr>tables := tbl_put i ?t (tables (cdb z)), next_table_id := i + 1\<rparr>\<rparr>"
      using assms(1) None by (auto simp: find_or_create_table_def res_simps Let_def set_table_def)
    note u = update_db_usage_spec [OF z(1) ctx_wfD(2) [OF assms(2)]]
    have sm: "small table_billable" by (simp add: billable_values small_def)
    have same: "cdb z = cdb x" "caches z = caches x" "receiver z = receiver x" using u(1) [OF sm] by (simp_all add: same_db_def)
    have fresh: "table_name t \<noteq> table_name ?t" if "tbl_find (tables (cdb x)) j = Some t" for j t
      using find_table_None [OF ctx_wfD(1) [OF assms(2)] None that] by (simp add: table_name_def)
    have d': "cdb y = (cdb x)\<lparr>tables := tbl_put (next_table_id (cdb x)) ?t (tables (cdb x)), next_table_id := next_table_id (cdb x) + 1\<rparr>"
      by (simp add: y same i)
    note n = db_wf_new_table [OF ctx_wfD(1) [OF assms(2)], OF _ fresh _ d']
    have room: "db_room (cdb x)" using z(2) same by simp
    have wf: "ctx_wf y"
      using n(1,3) [OF room] ctx_wfD(3) [OF assms(2)] u(2) [OF sm] by (simp add: ctx_wf_def y same)
    have f: "tbl_find (tables (cdb y)) j = (if j = i then Some ?t else tbl_find (tables (cdb x)) j)" for j
      using db_wfD(1) [OF ctx_wfD(1) [OF assms(2)]] by (simp add: y i same tbl_simps)
    have fr: "tbl_find (tables (cdb x)) i = None" using db_wfD(3) [OF ctx_wfD(1) [OF assms(2)], of i] by (fastforce simp: i same)
    have "find_table y code scope table = Some i"
      using find_table_Some [OF ctx_wfD(1) [OF wf], of code scope table i] f [of i] by (simp add: table_name_def)
    moreover have "moved x y"
      using n(2) [OF room] u(3) [OF sm] by (auto simp: moved_def y same)
    ultimately show ?thesis
      using wf f fr by (auto simp: y same i)
  qed
  then show "ctx_wf y" "moved x y" "find_table y code scope table = Some i" "caches y = caches x" "receiver y = receiver x"
    "rows (cdb y) = rows (cdb x)" "find_table x code scope table = None \<Longrightarrow> i = next_table_id (cdb x)"
    "tbl_find (tables (cdb x)) j = Some t \<Longrightarrow> tbl_find (tables (cdb y)) j = Some t"
    "find_table x code scope table = None \<Longrightarrow> tbl_find (tables (cdb y)) j = Some t \<Longrightarrow> j \<noteq> i \<Longrightarrow> tbl_find (tables (cdb x)) j = Some t"
    by blast+
qed

text \<open>A new row, with the count of its table.\<close>

lemma rows_in_put:
  assumes "tbl_ok (rows d)" "tbl_find (rows d) (k, i, pk) = None" "rows d' = tbl_put (k, i, pk) r (rows d)"
  shows "rows_in j d' = rows_in j d + (if j = i then 1 else 0)"
  using assms by (simp add: rows_in_def tbl_simps)

lemma rows_in_del:
  assumes "tbl_ok (rows d)" "tbl_find (rows d) (k, i, pk) = Some r" "rows d' = tbl_del (k, i, pk) (rows d)"
  shows "rows_in j d' = rows_in j d - (if j = i then 1 else 0)"
  using assms by (simp add: rows_in_def tbl_simps)

lemma total_le_length:
  assumes "\<And>k v. f k v \<le> 1"
  shows "tbl.total f t \<le> int (length t)"
  using assms by (induction t) (auto simp: tbl.total_def intro: add_mono)

lemma rows_in_bounds: "db_wf d \<Longrightarrow> 0 \<le> rows_in i d" "db_wf d \<Longrightarrow> rows_in i d < 2 ^ 32"
proof -
  assume wf: "db_wf d"
  show "0 \<le> rows_in i d" unfolding rows_in_def using db_wfD(2) [OF wf] by (intro tbl.total_nonneg) auto
  have "rows_in i d \<le> int (length (rows d))" unfolding rows_in_def by (rule total_le_length) simp
  then show "rows_in i d < 2 ^ 32" using wf by (simp add: db_wf_def)
qed

lemma new_row_spec:
  assumes wf: "ctx_wf x" and c: "create_row (k, i, pk) r x = Inr x1" "change_count i 1 x1 = Inr y"
    and typed: "row_typed (k, i, pk) r"
  shows "ctx_wf y" "held a (cdb y) = held a (cdb x) + (if row_payer r = a then row_size (k, i, pk) r else 0)"
    "rl y = rl x" "caches y = caches x" "receiver y = receiver x"
    "rows (cdb y) = tbl_put (k, i, pk) r (rows (cdb x))" "tbl_find (rows (cdb x)) (k, i, pk) = None"
    "\<And>j. map_option table_name (tbl_find (tables (cdb y)) j) = map_option table_name (tbl_find (tables (cdb x)) j)"
proof -
  note w = ctx_wfD(1) [OF wf]
  obtain t where n: "tbl_find (rows (cdb x)) (k, i, pk) = None" and room: "db_room (cdb x)"
    and t: "tbl_find (tables (cdb x)) i = Some t"
    and y: "y = x\<lparr>cdb := (cdb x)\<lparr>tables := tbl_put i (t\<lparr>t_count := u32 (t_count t + 1)\<rparr>) (tables (cdb x)), rows := tbl_put (k, i, pk) r (rows (cdb x))\<rparr>\<rparr>"
    using c by (auto simp: create_row_def change_count_def deref_table_def set_table_def res_simps)
  have f: "tbl_find (tables (cdb y)) j = (if j = i then Some (t\<lparr>t_count := u32 (t_count t + 1)\<rparr>) else tbl_find (tables (cdb x)) j)" for j
    using db_wfD(1) [OF w] by (simp add: y tbl_simps)
  have nid: "next_table_id (cdb y) = next_table_id (cdb x)" by (simp add: y)
  have nm: "table_name (t\<lparr>t_count := n\<rparr>) = table_name t" for n by (simp add: table_name_def)
  have fr: "tbl_find (rows (cdb y)) key = (if key = (k, i, pk) then Some r else tbl_find (rows (cdb x)) key)" for key
    using db_wfD(2) [OF w] by (simp add: y tbl_simps)
  have ri: "rows_in j (cdb y) = rows_in j (cdb x) + (if j = i then 1 else 0)" for j
    using db_wfD(2) [OF w] n by (intro rows_in_put) (simp_all add: y)
  have len: "int (length (tables (cdb y)) + length (rows (cdb y))) \<le> capacity (cdb x)"
    using room tbl_length_put [OF db_wfD(1) [OF w], of i] tbl_length_put [OF db_wfD(2) [OF w], of "(k, i, pk)"] n t
    by (simp add: y db_room_def)
  have "rows_in i (cdb x) + 1 < 2 ^ 32"
  proof -
    have "rows_in i (cdb y) \<le> int (length (rows (cdb y)))" unfolding rows_in_def by (rule total_le_length) simp
    then show ?thesis using len w ri [of i] by (simp add: db_wf_def)
  qed
  then have cnt: "u32 (t_count t + 1) = rows_in i (cdb x) + 1"
    using db_wfD(4) [OF w t] rows_in_bounds(1) [OF w, of i] by (intro trans [OF u32_id]) (simp_all add: UINT32_MAX_def)
  have wf': "db_wf (cdb y)"
  proof (rule db_wfI, goal_cases)
    case (5 j u)
    then show ?case using db_wfD(3) [OF w, of j u] db_wfD(3) [OF w t] by (auto simp: f nid split: if_splits)
  next
    case (6 j u)
    then show ?case using db_wfD(4) [OF w, of j] cnt by (auto simp: f ri split: if_splits)
  next
    case (7 a b u v)
    then show ?case
      using db_wfD(5) [OF w, of a u b v] db_wfD(5) [OF w, of a t b v] db_wfD(5) [OF w, of a u b t] t
      by (auto simp: f nm split: if_splits)
  next
    case (8 k' i' pk' r')
    then show ?case using db_wfD(6) [OF w, of k' i' pk'] t by (auto simp: f fr split: if_splits)
  next
    case (9 k' i' pk' r')
    then show ?case using db_wfD(7) [OF w, of k' i' pk'] typed by (auto simp: fr split: if_splits)
  qed (use w len in \<open>simp_all add: y tbl_simps db_wf_def\<close>)
  have "cache_wf (cdb y) k' (caches x k')" for k'
    by (rule cache_wf_mono [OF ctx_wfD(3) [OF wf]]) (auto simp: fr nid)
  then show "ctx_wf y" using wf' ctx_wfD(2) [OF wf] by (simp add: ctx_wf_def y)
  show "held a (cdb y) = held a (cdb x) + (if row_payer r = a then row_size (k, i, pk) r else 0)"
    using db_wfD(1,2) [OF w] t n by (simp add: held_def y tbl_simps)
  show "rl y = rl x" "caches y = caches x" "receiver y = receiver x" "rows (cdb y) = tbl_put (k, i, pk) r (rows (cdb x))"
    "tbl_find (rows (cdb x)) (k, i, pk) = None"
    by (simp_all add: y n)
  show "map_option table_name (tbl_find (tables (cdb y)) j) = map_option table_name (tbl_find (tables (cdb x)) j)" for j
    using t by (simp add: f table_name_def)
qed

subsection \<open>The cache\<close>

lemma cache_get_Inr:
  "cache_get c iter = Inr p \<longleftrightarrow> 0 \<le> iter \<and> iter < int (length (iterator_to_object c)) \<and> iterator_to_object c ! nat iter = Some p"
  by (cases p) (auto simp: cache_get_def res_simps)

lemma cache_get_member: "cache_get c iter = Inr p \<Longrightarrow> Some p \<in> set (iterator_to_object c)"
  using nth_mem [of "nat iter" "iterator_to_object c"] by (auto simp: cache_get_Inr)

lemma cache_get_object: "cache_wf d k c \<Longrightarrow> tbl_find (object_to_iterator c) p = Some i \<longleftrightarrow> cache_get c i = Inr p"
  using cache_wfD(4) [of d k c p i] by (simp add: cache_get_Inr)

lemma cache_get_row:
  assumes "cache_wf d k c" "cache_get c iter = Inr p"
  shows "\<exists>r. tbl_find (rows d) (k, p) = Some r" "\<exists>ei. tbl_find (table_cache c) (fst p) = Some ei"
  using cache_wfD(6,7) [OF assms(1) cache_get_member [OF assms(2)]] by auto

lemma index_to_end_inj [simp]: "index_to_end_iterator m = index_to_end_iterator n \<longleftrightarrow> m = n"
  by (simp add: index_to_end_iterator_def)

lemma cache_table_spec:
  assumes wf: "cache_wf d k c" and i: "i < next_table_id d" and e: "cache_table i c = (ei, c')"
  shows "cache_wf d k c'" "tbl_find (table_cache c') i = Some ei" "iterator_to_object c' = iterator_to_object c"
    and "tbl_find (table_cache c) j = Some ej \<Longrightarrow> tbl_find (table_cache c') j = Some ej"
proof -
  have "cache_wf d k c' \<and> tbl_find (table_cache c') i = Some ei \<and> iterator_to_object c' = iterator_to_object c \<and>
     (\<forall>j ej. tbl_find (table_cache c) j = Some ej \<longrightarrow> tbl_find (table_cache c') j = Some ej)"
  proof (cases "tbl_find (table_cache c) i")
    case (Some e')
    then show ?thesis using e wf by (auto simp: cache_table_def)
  next
    case None
    let ?n = "length (end_iterator_to_table c)"
    have c': "ei = index_to_end_iterator (int ?n)"
      "c' = c\<lparr>end_iterator_to_table := end_iterator_to_table c @ [i], table_cache := tbl_put i ei (table_cache c)\<rparr>"
      using e None by (auto simp: cache_table_def Let_def)
    have f: "tbl_find (table_cache c') j = (if j = i then Some ei else tbl_find (table_cache c) j)" for j
      using cache_wfD(1) [OF wf] by (simp add: c' tbl_simps)
    have pr: "end_iterator_to_table c' = end_iterator_to_table c @ [i]" "iterator_to_object c' = iterator_to_object c"
      by (simp_all add: c'(2))
    have "cache_wf d k c'"
    proof (rule cache_wfI, goal_cases)
      case (3 j ej)
      then show ?case using cache_wfD(3,8) [OF wf, of j ej] i by (auto simp: f c'(1) index_to_end_iterator_def split: if_splits)
    next
      case (5 n j)
      have old: "n < ?n \<and> end_iterator_to_table c ! n = j \<longleftrightarrow> tbl_find (table_cache c) j = Some (index_to_end_iterator (int n))"
        by (rule cache_wfD(5) [OF wf])
      have new: "tbl_find (table_cache c) j \<noteq> Some (index_to_end_iterator (int n))" if "n \<ge> ?n"
        using old that by auto
      have "end_iterator_to_table c ! n \<noteq> i" if "n < ?n" using cache_wfD(5) [OF wf, of n i] None that by auto
      then show ?case using old new None by (cases "n < ?n"; cases "n = ?n") (auto simp: f pr c'(1) nth_append)
    next
      case (7 p)
      then show ?case using cache_wfD(7) [OF wf, of p] by (auto simp: f pr)
    qed (use cache_wfD [OF wf] in \<open>simp_all add: c' tbl_simps\<close>)
    then show ?thesis using f None by (auto simp: c'(2))
  qed
  then show "cache_wf d k c'" "tbl_find (table_cache c') i = Some ei" "iterator_to_object c' = iterator_to_object c"
    "tbl_find (table_cache c) j = Some ej \<Longrightarrow> tbl_find (table_cache c') j = Some ej" by blast+
qed

lemma cache_add_spec:
  assumes wf: "cache_wf d k c" and r: "tbl_find (rows d) (k, p) = Some r" and t: "tbl_find (table_cache c) (fst p) = Some ei"
    and e: "cache_add p c = (i, c')"
  shows "cache_wf d k c'" "cache_get c' i = Inr p" "table_cache c' = table_cache c"
    and "cache_get c j = Inr q \<Longrightarrow> cache_get c' j = Inr q"
proof -
  have "cache_wf d k c' \<and> cache_get c' i = Inr p \<and> table_cache c' = table_cache c \<and>
     (\<forall>j q. cache_get c j = Inr q \<longrightarrow> cache_get c' j = Inr q)"
  proof (cases "tbl_find (object_to_iterator c) p")
    case (Some e')
    then show ?thesis using e wf cache_get_object [OF wf, of p e'] by (auto simp: cache_add_def)
  next
    case None
    let ?n = "length (iterator_to_object c)"
    have c': "i = int ?n" "c' = c\<lparr>iterator_to_object := iterator_to_object c @ [Some p], object_to_iterator := tbl_put p i (object_to_iterator c)\<rparr>"
      using e None by (auto simp: cache_add_def Let_def)
    have f: "tbl_find (object_to_iterator c') q = (if q = p then Some i else tbl_find (object_to_iterator c) q)" for q
      using cache_wfD(2) [OF wf] by (simp add: c'(2) tbl_simps)
    have pr: "iterator_to_object c' = iterator_to_object c @ [Some p]" "table_cache c' = table_cache c"
      by (simp_all add: c'(2))
    have "cache_wf d k c'"
    proof (rule cache_wfI, goal_cases)
      case (4 q j)
      have new: "iterator_to_object c ! nat j \<noteq> Some p" if "0 \<le> j" "j < int ?n"
        using cache_wfD(4) [OF wf, of p j] None that by auto
      then show ?case
        using cache_wfD(4) [OF wf, of q j] None by (auto simp: f pr c'(1) nth_append)
    next
      case (6 q)
      then show ?case using cache_wfD(6) [OF wf, of q] r by (auto simp: c')
    next
      case (7 q)
      then show ?case using cache_wfD(7) [OF wf, of q] t by (auto simp: c')
    qed (use cache_wfD [OF wf] in \<open>simp_all add: c' tbl_simps\<close>)
    then show ?thesis by (auto simp: c' cache_get_Inr nth_append)
  qed
  then show "cache_wf d k c'" "cache_get c' i = Inr p" "table_cache c' = table_cache c"
    "cache_get c j = Inr q \<Longrightarrow> cache_get c' j = Inr q" by blast+
qed

lemma cache_remove_spec:
  assumes wf: "cache_wf d k c" and g: "cache_get c iter = Inr p" and e: "cache_remove c iter = Inr c'"
    and d': "rows d' = tbl_del (k, p) (rows d)" "next_table_id d' = next_table_id d"
  shows "cache_wf d' k c'"
proof -
  have it: "0 \<le> iter" "iter < int (length (iterator_to_object c))" "iterator_to_object c ! nat iter = Some p"
    using g by (auto simp: cache_get_Inr)
  have c': "c' = c\<lparr>iterator_to_object := (iterator_to_object c)[nat iter := None], object_to_iterator := tbl_del p (object_to_iterator c)\<rparr>"
    using e it by (auto simp: cache_remove_def res_simps split: option.splits)
  have only: "j = iter" if "0 \<le> j" "j < int (length (iterator_to_object c))" "iterator_to_object c ! nat j = Some p" for j
    using cache_wfD(4) [OF wf, of p j] cache_wfD(4) [OF wf, of p iter] it that by auto
  have mem: "Some q \<in> set (iterator_to_object c)" "q \<noteq> p" if q: "Some q \<in> set (iterator_to_object c')" for q
  proof -
    obtain n where n: "n < length (iterator_to_object c)" "((iterator_to_object c)[nat iter := None]) ! n = Some q"
      using q by (auto simp: c' in_set_conv_nth)
    then have "n \<noteq> nat iter" "iterator_to_object c ! n = Some q" using it by (auto simp: nth_list_update split: if_splits)
    then show "Some q \<in> set (iterator_to_object c)" "q \<noteq> p"
      using n(1) only [of "int n"] by (auto simp: in_set_conv_nth)
  qed
  show ?thesis
  proof (rule cache_wfI, goal_cases)
    case (4 q j)
    show ?case
      using cache_wfD(4) [OF wf, of q j] only [of j] it by (auto simp: c' tbl_simps nth_list_update)
  next
    case (6 q)
    then show ?case using cache_wfD(6) [OF wf, of q] mem [of q] by (auto simp: d' tbl_simps)
  next
    case (7 q)
    then show ?case using cache_wfD(7) [OF wf, of q] mem [of q] by (auto simp: c')
  qed (use cache_wfD [OF wf] in \<open>simp_all add: c' d' tbl_simps\<close>)
qed

subsection \<open>Contexts that differ in their caches\<close>

definition same_data :: "apply_context \<Rightarrow> apply_context \<Rightarrow> bool" where
  "same_data x y \<longleftrightarrow> cdb y = cdb x \<and> rl y = rl x \<and> receiver y = receiver x \<and>
     (\<forall>k j q. cache_get (caches x k) j = Inr q \<longrightarrow> cache_get (caches y k) j = Inr q)"

lemma same_data_trans: "same_data x y \<Longrightarrow> same_data y z \<Longrightarrow> same_data x z"
  by (simp add: same_data_def)

lemma same_data_refl [simp]: "same_data x x"
  by (simp add: same_data_def)

lemma same_data_moved: "same_data x y \<Longrightarrow> moved x y"
  by (simp add: same_data_def moved_def)

lemma set_cache_wf:
  assumes "ctx_wf x" "cache_wf (cdb x) k c" "\<And>j q. cache_get (caches x k) j = Inr q \<Longrightarrow> cache_get c j = Inr q"
  shows "ctx_wf (set_cache k c x)" "same_data x (set_cache k c x)"
  using assms by (auto simp: ctx_wf_def set_cache_def same_data_def)

lemma find_table_exists:
  assumes "ctx_wf x" "find_table x code scope table = Some i"
  obtains t where "tbl_find (tables (cdb x)) i = Some t" "i < next_table_id (cdb x)" "table_name t = (code, scope, table)"
  using find_table_Some [OF ctx_wfD(1) [OF assms(1)], of code scope table i] assms(2) db_wfD(3) [OF ctx_wfD(1) [OF assms(1)], of i] by auto

lemma ctx_cache_table_spec:
  assumes "ctx_wf x" "i < next_table_id (cdb x)" "ctx_cache_table k i x = (ei, y)"
  shows "ctx_wf y" "same_data x y" "tbl_find (table_cache (caches y k)) i = Some ei"
proof -
  obtain c where c: "cache_table i (caches x k) = (ei, c)" "y = set_cache k c x"
    using assms(3) by (auto simp: ctx_cache_table_def split: prod.splits)
  note s = cache_table_spec [OF ctx_wfD(3) [OF assms(1)] assms(2) c(1)]
  show "ctx_wf y" "same_data x y" unfolding c(2)
    using s by (auto intro!: set_cache_wf [OF assms(1)] simp: cache_get_Inr)
  show "tbl_find (table_cache (caches y k)) i = Some ei" using s(2) by (simp add: c(2) set_cache_def)
qed

lemma ctx_add_spec:
  assumes "ctx_wf x" "tbl_find (rows (cdb x)) (k, p) = Some r" "tbl_find (table_cache (caches x k)) (fst p) = Some ei"
    "ctx_add k p x = (i, y)"
  shows "ctx_wf y" "same_data x y" "cache_get (caches y k) i = Inr p"
proof -
  obtain c where c: "cache_add p (caches x k) = (i, c)" "y = set_cache k c x"
    using assms(4) by (auto simp: ctx_add_def split: prod.splits)
  note s = cache_add_spec [OF ctx_wfD(3) [OF assms(1)] assms(2,3) c(1)]
  show "ctx_wf y" "same_data x y" unfolding c(2)
    using s by (auto intro!: set_cache_wf [OF assms(1)])
  show "cache_get (caches y k) i = Inr p" using s(2) by (simp add: c(2) set_cache_def)
qed

lemma step_to_spec:
  assumes "ctx_wf x" "tbl_find (table_cache (caches x k)) t = Some ei"
    and "\<And>p. hit = Some p \<Longrightarrow> \<exists>r. tbl_find (rows (cdb x)) (k, p) = Some r"
    and "step_to k t hit other x = Inr ((i, res), y)"
  shows "ctx_wf y" "same_data x y"
    and "res = (case hit of Some p \<Rightarrow> if fst p = t then Some p else None | None \<Rightarrow> None)"
    and "res = Some p \<Longrightarrow> cache_get (caches y k) i = Inr p"
    and "res = None \<Longrightarrow> other x = Inr i"
proof -
  have "ctx_wf y \<and> same_data x y \<and> res = (case hit of Some p \<Rightarrow> if fst p = t then Some p else None | None \<Rightarrow> None) \<and>
     (\<forall>p. res = Some p \<longrightarrow> cache_get (caches y k) i = Inr p) \<and> (res = None \<longrightarrow> other x = Inr i)"
  proof (cases "\<exists>p. hit = Some p \<and> fst p = t")
    case True
    then obtain p where p: "hit = Some p" "fst p = t" by blast
    then obtain r where r: "tbl_find (rows (cdb x)) (k, p) = Some r" using assms(3) by blast
    have a: "ctx_add k p x = (i, y)" "res = Some p"
      using assms(4) p by (auto simp: step_to_def split: prod.splits)
    show ?thesis
      using ctx_add_spec [OF assms(1) r _ a(1), of ei] assms(2) p a(2) by auto
  next
    case False
    then have "y = x \<and> res = None \<and> other x = Inr i"
      using assms(4) by (auto simp: step_to_def res_simps split: option.splits if_splits)
    then show ?thesis using False assms(1) by (auto split: option.splits)
  qed
  then show "ctx_wf y" "same_data x y" "res = (case hit of Some p \<Rightarrow> if fst p = t then Some p else None | None \<Rightarrow> None)"
    "res = Some p \<Longrightarrow> cache_get (caches y k) i = Inr p" "res = None \<Longrightarrow> other x = Inr i" by blast+
qed

lemma primary_index_iff:
  assumes "db_wf d"
  shows "p \<in> set (primary_index k d) \<longleftrightarrow> (\<exists>r. tbl_find (rows d) (k, p) = Some r)"
proof -
  have "p \<in> set (primary_index k d) \<longleftrightarrow> (\<exists>r. ((k, p), r) \<in> set (rows d))"
    unfolding primary_index_def by (cases p) (auto simp: image_iff Bex_def)
  then show ?thesis by (simp add: tbl_rows_find [OF db_wfD(2) [OF assms]])
qed

lemma secondary_index_iff:
  assumes "db_wf d"
  shows "q \<in> set (secondary_index k d) \<longleftrightarrow>
     (\<exists>r. tbl_find (rows d) (k, drop_secondary q) = Some r \<and> secondary_of r = fst (snd q))"
proof -
  obtain t s i where q: "q = (t, s, i)" by (rule prod_cases3)
  have "q \<in> set (secondary_index k d) \<longleftrightarrow> (\<exists>r. ((k, t, i), r) \<in> set (rows d) \<and> secondary_of r = s)"
    unfolding secondary_index_def by (auto simp: image_iff Bex_def q)
  then show ?thesis by (simp add: q drop_secondary_def tbl_rows_find [OF db_wfD(2) [OF assms]])
qed

lemma step_to_error: "step_to k t hit other x = Inl e \<Longrightarrow> other x = Inl e"
  by (auto simp: step_to_def res_simps split: option.splits if_splits prod.splits)

text \<open>Lookups.\<close>

lemma lookup_in_spec:
  assumes "ctx_wf x" "\<And>t p. hit (cdb x) t = Some p \<Longrightarrow> \<exists>r. tbl_find (rows (cdb x)) (k, p) = Some r"
    and "lookup_in k code scope table hit x = Inr ((i, res), y)"
  shows "ctx_wf y" "same_data x y" "res = Some p \<Longrightarrow> cache_get (caches y k) i = Inr p" "res = None \<Longrightarrow> i < 0"
    and "find_table x code scope table = None \<Longrightarrow> res = None"
    and "find_table x code scope table = Some t \<Longrightarrow> res = (case hit (cdb x) t of Some p \<Rightarrow> if fst p = t then Some p else None | None \<Rightarrow> None)"
proof -
  have "ctx_wf y \<and> same_data x y \<and> (\<forall>p. res = Some p \<longrightarrow> cache_get (caches y k) i = Inr p) \<and>
     (res = None \<longrightarrow> i < 0) \<and> (find_table x code scope table = None \<longrightarrow> res = None) \<and>
     (\<forall>t. find_table x code scope table = Some t \<longrightarrow> res = (case hit (cdb x) t of Some p \<Rightarrow> if fst p = t then Some p else None | None \<Rightarrow> None))"
  proof (cases "find_table x code scope table")
    case None
    then show ?thesis using assms(1,3) by (auto simp: lookup_in_def)
  next
    case (Some t)
    obtain ei z where z: "ctx_cache_table k t x = (ei, z)" by (rule prod.exhaust)
    have t: "t < next_table_id (cdb x)" using find_table_exists [OF assms(1) Some] by blast
    note c = ctx_cache_table_spec [OF assms(1) t z]
    have d: "cdb z = cdb x" using c(2) by (simp add: same_data_def)
    have "step_to k t (hit (cdb z) t) (\<lambda>_. Inr ei) z = Inr ((i, res), y)"
      using assms(3) Some z by (simp add: lookup_in_def)
    note s = step_to_spec [OF c(1,3) _ this]
    have h: "\<exists>r. tbl_find (rows (cdb z)) (k, p) = Some r" if "hit (cdb z) t = Some p" for p using assms(2) [of t p] that by (simp add: d)
    have "ei < -1" using cache_wfD(8) [OF ctx_wfD(3) [OF c(1)] c(3)] .
    then show ?thesis using s [OF h] c(2) Some d by (auto intro: same_data_trans)
  qed
  then show "ctx_wf y" "same_data x y" "res = Some p \<Longrightarrow> cache_get (caches y k) i = Inr p" "res = None \<Longrightarrow> i < 0"
    "find_table x code scope table = None \<Longrightarrow> res = None"
    "find_table x code scope table = Some t \<Longrightarrow> res = (case hit (cdb x) t of Some p \<Rightarrow> if fst p = t then Some p else None | None \<Rightarrow> None)"
    by blast+
qed

lemma lookup_in_no_error: "lookup_in k code scope table hit x \<noteq> Inl e"
  by (auto simp: lookup_in_def res_simps split: option.splits prod.splits dest: step_to_error)

lemma bnd_InrE:
  assumes "bnd m f = Inr y"
  obtains x where "m = Inr x" "f x = Inr y"
  using assms by (cases m) auto

subsection \<open>Changing rows\<close>

lemma row_size_small: "row_typed key r \<Longrightarrow> small (row_size key r) \<and> small (- row_size key r) \<and> 0 < row_size key r"
  using kind_billable_bounds [of "fst key"] value_size_bounds [of key r] by (auto simp: small_def row_size_def)

lemma modify_row_spec:
  assumes wf: "ctx_wf x" and o: "tbl_find (rows (cdb x)) (k, p) = Some old" and typed: "row_typed (k, p) r"
    and y: "y = modify_row (k, p) r x"
  shows "ctx_wf y" "held a (cdb y) = held a (cdb x) - (if row_payer old = a then row_size (k, p) old else 0)
      + (if row_payer r = a then row_size (k, p) r else 0)"
    "rl y = rl x" "caches y = caches x" "receiver y = receiver x" "tables (cdb y) = tables (cdb x)"
    "rows (cdb y) = tbl_put (k, p) r (rows (cdb x))"
proof -
  note w = ctx_wfD(1) [OF wf]
  show g: "rl y = rl x" "caches y = caches x" "receiver y = receiver x" "tables (cdb y) = tables (cdb x)"
    "rows (cdb y) = tbl_put (k, p) r (rows (cdb x))"
    by (simp_all add: y modify_row_def)
  have n: "next_table_id (cdb y) = next_table_id (cdb x)" "capacity (cdb y) = capacity (cdb x)" by (simp_all add: y modify_row_def)
  have fr: "tbl_find (rows (cdb y)) key = (if key = (k, p) then Some r else tbl_find (rows (cdb x)) key)" for key
    using db_wfD(2) [OF w] by (simp add: g tbl_simps)
  have ri: "rows_in j (cdb y) = rows_in j (cdb x)" for j
    using db_wfD(2) [OF w] o by (simp add: rows_in_def g tbl_simps)
  obtain i pk where p: "p = (i, pk)" by (rule prod.exhaust)
  have len: "length (rows (cdb y)) = length (rows (cdb x))"
    using tbl_length_put [OF db_wfD(2) [OF w], of "(k, p)" r] o by (simp add: g)
  have "db_wf (cdb y)"
  proof (rule db_wfI, goal_cases)
    case (8 k' i' pk' r')
    then show ?case using db_wfD(6) [OF w, of k' i' pk'] o by (auto simp: fr g(4) p split: if_splits)
  next
    case (9 k' i' pk' r')
    then show ?case using db_wfD(7) [OF w, of k' i' pk'] typed by (auto simp: fr p split: if_splits)
  qed (use w len in \<open>simp_all add: g n ri tbl_simps db_wf_def\<close>)
  moreover have "cache_wf (cdb y) k' (caches x k')" for k'
    by (rule cache_wf_mono [OF ctx_wfD(3) [OF wf]]) (auto simp: fr n)
  ultimately show "ctx_wf y" using ctx_wfD(2) [OF wf] by (simp add: ctx_wf_def g)
  show "held a (cdb y) = held a (cdb x) - (if row_payer old = a then row_size (k, p) old else 0)
      + (if row_payer r = a then row_size (k, p) r else 0)"
    using db_wfD(2) [OF w] o by (simp add: held_def g tbl_simps)
qed

text \<open>Removing a row, and its table with the last one.\<close>

lemma drop_row_spec:
  assumes wf: "ctx_wf x" and g: "cache_get (caches x k) iter = Inr p" and o: "tbl_find (rows (cdb x)) (k, p) = Some old"
    and d: "drop_row k iter p x = Inr y"
  shows "ctx_wf y" "ram_of (rl y) a - held a (cdb y) = ram_of (rl x) a - held a (cdb x) + (if row_payer old = a then row_size (k, p) old else 0)"
    "receiver y = receiver x" "rows (cdb y) = tbl_del (k, p) (rows (cdb x))"
    and "j \<noteq> fst p \<Longrightarrow> tbl_find (tables (cdb y)) j = tbl_find (tables (cdb x)) j"
    and "rows_in (fst p) (cdb x) \<noteq> 1 \<Longrightarrow> map_option table_name (tbl_find (tables (cdb y)) (fst p)) = map_option table_name (tbl_find (tables (cdb x)) (fst p))"
    and "rows_in (fst p) (cdb x) = 1 \<Longrightarrow> tbl_find (tables (cdb y)) (fst p) = None"
proof -
  note w = ctx_wfD(1) [OF wf]
  obtain i pk where p: "p = (i, pk)" by (rule prod.exhaust)
  obtain t where t: "tbl_find (tables (cdb x)) i = Some t" using db_wfD(6) [OF w, of k i pk old] o p by auto
  define t' where "t' = t\<lparr>t_count := u32 (t_count t - 1)\<rparr>"
  define x1 where "x1 = x\<lparr>cdb := (cdb x)\<lparr>tables := tbl_put i t' (tables (cdb x)), rows := tbl_del (k, p) (rows (cdb x))\<rparr>\<rparr>"
  have f1: "tbl_find (tables (cdb x1)) j = (if j = i then Some t' else tbl_find (tables (cdb x)) j)" for j
    using db_wfD(1) [OF w] by (simp add: x1_def tbl_simps)
  have fr1: "tbl_find (rows (cdb x1)) key = (if key = (k, p) then None else tbl_find (rows (cdb x)) key)" for key
    by (simp add: x1_def tbl_simps)
  have x1: "rl x1 = rl x" "caches x1 = caches x" "receiver x1 = receiver x" "rows (cdb x1) = tbl_del (k, p) (rows (cdb x))"
    "next_table_id (cdb x1) = next_table_id (cdb x)" "capacity (cdb x1) = capacity (cdb x)" by (simp_all add: x1_def)
  have ri: "rows_in j (cdb x1) = rows_in j (cdb x) - (if j = i then 1 else 0)" for j
    using db_wfD(2) [OF w] o by (intro rows_in_del [where k = k and pk = pk]) (simp_all add: x1 p)
  have pos: "rows_in i (cdb x) \<ge> 1"
    using tbl.part_le_total [OF db_wfD(2) [OF w], of "\<lambda>key r. if fst (snd key) = i then 1 else 0" "(k, p)"] o
    by (simp add: rows_in_def tbl.part_def p)
  have cnt: "t_count t' = rows_in i (cdb x1)"
    using db_wfD(4) [OF w t] pos rows_in_bounds(2) [OF w, of i] u32_id [of "t_count t - 1"] by (simp add: t'_def ri UINT32_MAX_def)
  have held1: "held a (cdb x1) = held a (cdb x) - (if row_payer old = a then row_size (k, p) old else 0)" for a
    using db_wfD(1,2) [OF w] o t by (simp add: held_def x1_def tbl_simps t'_def)
  have nm: "table_name t' = table_name t" by (simp add: t'_def table_name_def)
  have len: "length (tables (cdb x1)) = length (tables (cdb x))" "length (rows (cdb x1)) \<le> length (rows (cdb x))"
    using tbl_length_put [OF db_wfD(1) [OF w], of i t'] tbl_length_del [OF db_wfD(2) [OF w], of "(k, p)"] t by (simp_all add: x1_def)
  have w1: "db_wf (cdb x1)"
  proof (rule db_wfI, goal_cases)
    case (5 j u)
    then show ?case using db_wfD(3) [OF w, of j u] db_wfD(3) [OF w t] by (auto simp: f1 x1 split: if_splits)
  next
    case (6 j u)
    then show ?case using db_wfD(4) [OF w, of j u] cnt by (auto simp: f1 ri split: if_splits)
  next
    case (7 a b u v)
    then show ?case
      using db_wfD(5) [OF w, of a u b v] db_wfD(5) [OF w, of a t b v] db_wfD(5) [OF w, of a u b t] t nm
      by (auto simp: f1 split: if_splits)
  next
    case (8 k' i' pk' r')
    then show ?case using db_wfD(6) [OF w, of k' i' pk'] by (auto simp: fr1 f1 split: if_splits)
  next
    case (9 k' i' pk' r')
    then show ?case using db_wfD(7) [OF w, of k' i' pk'] by (auto simp: fr1 split: if_splits)
  qed (use w len in \<open>simp_all add: x1_def tbl_simps db_wf_def\<close>)
  have c0: "change_count (fst p) (-1) x = Inr (set_table i t' x)"
    using t by (simp add: change_count_def deref_table_def p t'_def)
  have c1: "(set_table i t' x)\<lparr>cdb := (cdb (set_table i t' x))\<lparr>rows := tbl_del (k, p) (rows (cdb (set_table i t' x)))\<rparr>\<rparr> = x1"
    by (simp add: set_table_def x1_def)
  have c2: "deref_table x1 (fst p) = Inr t'"
    by (simp add: deref_table_def f1 p)
  have eq: "drop_row k iter p x = bnd (if t_count t' = 0 then remove_table (fst p) t' x1 else Inr x1)
      (\<lambda>x. bnd (cache_remove (caches x k) iter) (\<lambda>c. Inr (set_cache k c x)))"
    unfolding drop_row_def Let_def c0 bnd.simps c1 c2 ..
  obtain x2 where x2: "(if t_count t' = 0 then remove_table (fst p) t' x1 else Inr x1) = Inr x2"
    and c: "bnd (cache_remove (caches x2 k) iter) (\<lambda>c. Inr (set_cache k c x2)) = Inr y"
    by (rule bnd_InrE [OF trans [OF eq [symmetric] d]])
  have two: "rl_ok (rl x2) \<and> ram_of (rl x2) a - held a (cdb x2) = ram_of (rl x1) a - held a (cdb x1) \<and> caches x2 = caches x1 \<and> receiver x2 = receiver x1 \<and>
     rows (cdb x2) = rows (cdb x1) \<and> next_table_id (cdb x2) = next_table_id (cdb x1) \<and> db_wf (cdb x2) \<and>
     tables (cdb x2) = (if t_count t' = 0 then tbl_del i (tables (cdb x1)) else tables (cdb x1))" for a
  proof (cases "t_count t' = 0")
    case False
    then have "x2 = x1" using x2 by simp
    then show ?thesis using False w1 ctx_wfD(2) [OF wf] by (simp add: x1)
  next
    case True
    then obtain z where z: "update_db_usage (t_payer t') (- table_billable) x1 = Inr z"
      and x2': "x2 = z\<lparr>cdb := (cdb z)\<lparr>tables := tbl_del i (tables (cdb z))\<rparr>\<rparr>"
      using x2 by (auto simp: remove_table_def res_simps p)
    have "rl_ok (rl x1)" using ctx_wfD(2) [OF wf] by (simp add: x1)
    note u = update_db_usage_spec [OF z this]
    have sm: "small (- table_billable)" by (simp add: billable_values small_def)
    have same: "cdb z = cdb x1" "caches z = caches x1" "receiver z = receiver x1" using u(1) [OF sm] by (simp_all add: same_db_def)
    have f2: "tbl_find (tables (cdb x2)) j = (if j = i then None else tbl_find (tables (cdb x1)) j)" for j
      by (simp add: x2' same tbl_simps)
    have none: "tbl_find (rows (cdb x1)) (k', i, pk') = None" for k' pk'
    proof (rule ccontr)
      assume "tbl_find (rows (cdb x1)) (k', i, pk') \<noteq> None"
      then have "rows_in i (cdb x1) \<ge> 1"
        using tbl.part_le_total [OF db_wfD(2) [OF w1], of "\<lambda>key r. if fst (snd key) = i then 1 else 0" "(k', i, pk')"]
        by (auto simp: rows_in_def tbl.part_def)
      then show False using True cnt by simp
    qed
    have "db_wf (cdb x2)"
    proof (rule db_wfI, goal_cases)
      case 4
      have "int (length (tables (cdb x1)) + length (rows (cdb x1))) \<le> capacity (cdb x1)" using w1 by (simp add: db_wf_def)
      then show ?case using tbl_length_del [OF db_wfD(1) [OF w1], of i] by (simp add: x2' same split: if_splits)
    next
      case (5 j u)
      then show ?case using db_wfD(3) [OF w1, of j u] by (auto simp: f2 split: if_splits) (simp add: x2' same)
    next
      case (6 j u)
      then show ?case using db_wfD(4) [OF w1, of j u] by (auto simp: f2 split: if_splits) (simp add: x2' same rows_in_def)
    next
      case (7 a b u v)
      then show ?case using db_wfD(5) [OF w1, of a u b v] by (auto simp: f2 split: if_splits)
    next
      case (8 k' i' pk' r')
      then have "tbl_find (rows (cdb x1)) (k', i', pk') = Some r'" by (simp add: x2' same)
      then show ?case using db_wfD(6) [OF w1, of k' i' pk' r'] none [of k' pk'] by (auto simp: f2)
    next
      case (9 k' i' pk' r')
      then show ?case using db_wfD(7) [OF w1, of k' i' pk' r'] by (simp add: x2' same)
    qed (use w1 in \<open>simp_all add: x2' same tbl_simps db_wf_def\<close>)
    moreover have "held a (cdb x2) = held a (cdb x1) - (if t_payer t' = a then table_billable else 0)"
      using db_wfD(1) [OF w1] f1 [of i] by (simp add: held_def x2' same tbl_simps)
    ultimately show ?thesis
      using True u(2,3) [OF sm] by (simp add: x2' same)
  qed
  obtain c' where c': "cache_remove (caches x k) iter = Inr c'" "y = set_cache k c' x2"
    using c two by (auto simp: res_simps x1)
  have "cache_wf (cdb y) k c'"
    by (rule cache_remove_spec [OF ctx_wfD(3) [OF wf] g c'(1)]) (use two in \<open>simp_all add: c' set_cache_def x1\<close>)
  moreover have "cache_wf (cdb y) k' (caches x k')" if "k' \<noteq> k" for k'
    by (rule cache_wf_mono [OF ctx_wfD(3) [OF wf]]) (use two that in \<open>auto simp: c' set_cache_def fr1 x1(5)\<close>)
  ultimately show "ctx_wf y"
    using two by (auto simp: ctx_wf_def c' set_cache_def x1)
  show "ram_of (rl y) a - held a (cdb y) = ram_of (rl x) a - held a (cdb x) + (if row_payer old = a then row_size (k, p) old else 0)"
    using two [of a] held1 [of a] by (simp add: c' set_cache_def x1)
  show "receiver y = receiver x" "rows (cdb y) = tbl_del (k, p) (rows (cdb x))" using two by (simp_all add: c' set_cache_def x1)
  have ft: "tbl_find (tables (cdb y)) j = (if j = i then (if rows_in i (cdb x) = 1 then None else Some t') else tbl_find (tables (cdb x)) j)" for j
    using two f1 [of j] cnt ri [of i] by (auto simp: c' set_cache_def tbl_simps)
  show "j \<noteq> fst p \<Longrightarrow> tbl_find (tables (cdb y)) j = tbl_find (tables (cdb x)) j"
    "rows_in (fst p) (cdb x) \<noteq> 1 \<Longrightarrow> map_option table_name (tbl_find (tables (cdb y)) (fst p)) = map_option table_name (tbl_find (tables (cdb x)) (fst p))"
    "rows_in (fst p) (cdb x) = 1 \<Longrightarrow> tbl_find (tables (cdb y)) (fst p) = None"
    using t by (simp_all add: ft p nm)
qed

subsection \<open>The calls\<close>

lemma own_object_Inr:
  assumes "own_object k iter x = Inr (p, obj, t)"
  shows "cache_get (caches x k) iter = Inr p" "tbl_find (rows (cdb x)) (k, p) = Some obj"
    "tbl_find (tables (cdb x)) (fst p) = Some t" "t_code t = receiver x"
  using assms by (auto simp: own_object_def deref_row_def deref_table_def get_table_def res_simps)

definition internal :: "db_error \<Rightarrow> bool" where
  "internal e \<longleftrightarrow> e = Table_not_in_cache \<or> e = Dangling_pointer"

lemma cache_get_error: "cache_get c iter = Inl e \<Longrightarrow> \<not> internal e"
  by (auto simp: cache_get_def res_simps internal_def)

lemma cached_object:
  assumes "ctx_wf x" "cache_get (caches x k) iter = Inr p"
  obtains obj t ei where "tbl_find (rows (cdb x)) (k, p) = Some obj" "tbl_find (tables (cdb x)) (fst p) = Some t"
    "tbl_find (table_cache (caches x k)) (fst p) = Some ei"
  using cache_get_row [OF ctx_wfD(3) [OF assms(1)] assms(2)] db_wfD(6) [OF ctx_wfD(1) [OF assms(1)], of k "fst p" "snd p"] by auto

lemma own_object_error:
  assumes "ctx_wf x" "own_object k iter x = Inl e"
  shows "\<not> internal e"
proof (cases "cache_get (caches x k) iter")
  case (Inl e')
  then show ?thesis using assms(2) cache_get_error [OF Inl] by (simp add: own_object_def)
next
  case (Inr p)
  obtain obj t ei where o: "tbl_find (rows (cdb x)) (k, p) = Some obj" "tbl_find (tables (cdb x)) (fst p) = Some t"
    "tbl_find (table_cache (caches x k)) (fst p) = Some ei"
    by (rule cached_object [OF assms(1) Inr])
  show ?thesis
    using assms(2) by (simp add: own_object_def Inr deref_row_def deref_table_def get_table_def o chk_Inl internal_def)
qed

lemma update_db_usage_error: "update_db_usage a d x = Inl e \<Longrightarrow> \<not> internal e"
  by (auto simp: update_db_usage_def add_ram_usage_def trx_add_ram_usage_def require_authorization_def res_simps internal_def
      split: sum.splits if_splits)

lemma moved_charge:
  assumes "update_db_usage a d x = Inr y" "rl_ok (rl x)" "small d"
  shows "ram_of (rl y) b - held b (cdb y) = ram_of (rl x) b - held b (cdb x) + (if b = a then d else 0)"
  using update_db_usage_spec [OF assms] by (simp add: same_db_def)

text \<open>Storing a row of any kind, once its table is found.\<close>

lemma store_row_spec:
  assumes wf: "ctx_wf x" and t: "find_table x code scope table = Some tab" and typed: "row_typed (k, tab, pk) r"
    and c: "create_row (k, tab, pk) r x = Inr x1" "change_count tab 1 x1 = Inr x2"
      "update_db_usage (row_payer r) (row_size (k, tab, pk) r) x2 = Inr x3"
    and y: "ctx_add k (tab, pk) (snd (ctx_cache_table k tab x3)) = (iter, y)"
  shows "ctx_wf y" "moved x y" "cache_get (caches y k) iter = Inr (tab, pk)" "receiver y = receiver x"
    "rows (cdb y) = tbl_put (k, tab, pk) r (rows (cdb x))" "tbl_find (rows (cdb x)) (k, tab, pk) = None"
    "\<And>j. map_option table_name (tbl_find (tables (cdb y)) j) = map_option table_name (tbl_find (tables (cdb x)) j)"
proof -
  note n = new_row_spec [OF wf c(1,2) typed]
  note sm = row_size_small [OF typed]
  note u = update_db_usage_spec [OF c(3) ctx_wfD(2) [OF n(1)]]
  have w3: "ctx_wf x3" using ctx_wf_same_db [OF n(1)] u sm by blast
  have d3: "cdb x3 = cdb x2" "caches x3 = caches x2" "receiver x3 = receiver x2" using u(1) sm by (simp_all add: same_db_def)
  obtain ei x4 where x4: "ctx_cache_table k tab x3 = (ei, x4)" by (rule prod.exhaust)
  have "tbl_find (tables (cdb x)) tab \<noteq> None" using find_table_exists [OF wf t] by auto
  then obtain t' where "tbl_find (tables (cdb x3)) tab = Some t'" using n(8) [of tab] by (auto simp: d3)
  then have "tab < next_table_id (cdb x3)" using db_wfD(3) [OF ctx_wfD(1) [OF w3]] by blast
  note ct = ctx_cache_table_spec [OF w3 this x4]
  have d4: "cdb x4 = cdb x3" "rl x4 = rl x3" "receiver x4 = receiver x3" using ct(2) by (simp_all add: same_data_def)
  have "tbl_find (rows (cdb x4)) (k, tab, pk) = Some r"
    using db_wfD(2) [OF ctx_wfD(1) [OF wf]] by (simp add: d4 d3 n(6) tbl_simps)
  note ca = ctx_add_spec [OF ct(1) this, of ei iter y]
  have ca': "ctx_wf y" "same_data x4 y" "cache_get (caches y k) iter = Inr (tab, pk)" using ca ct(3) y x4 by simp_all
  have d5: "cdb y = cdb x4" "rl y = rl x4" "receiver y = receiver x4" using ca'(2) by (simp_all add: same_data_def)
  show "ctx_wf y" "cache_get (caches y k) iter = Inr (tab, pk)" by (fact ca'(1,3))+
  show "receiver y = receiver x" "rows (cdb y) = tbl_put (k, tab, pk) r (rows (cdb x))" by (simp_all add: d5 d4 d3 n)
  show "tbl_find (rows (cdb x)) (k, tab, pk) = None" by (fact n(7))
  show "map_option table_name (tbl_find (tables (cdb y)) j) = map_option table_name (tbl_find (tables (cdb x)) j)" for j
    using n(8) [of j] by (simp add: d5 d4 d3)
  show "moved x y"
    using moved_charge [OF c(3) ctx_wfD(2) [OF n(1)]] sm n(2,3) by (auto simp: moved_def d5 d4)
qed

lemma db_store_spec:
  assumes wf: "ctx_wf x" and b: "int (length buffer) < 2 ^ 32" and s: "db_store_i64 scope table payer pk buffer x = Inr (iter, y)"
  obtains tab x0 where "find_or_create_table (receiver x) scope table payer x = Inr (tab, x0)"
    "ctx_wf y" "moved x y" "cache_get (caches y Keyval) iter = Inr (tab, pk)" "receiver y = receiver x"
    "rows (cdb y) = tbl_put (Keyval, tab, pk) \<lparr>row_payer = payer, row_content = Value buffer\<rparr> (rows (cdb x))"
    "tbl_find (rows (cdb x)) (Keyval, tab, pk) = None"
    "\<forall>j. map_option table_name (tbl_find (tables (cdb y)) j) = map_option table_name (tbl_find (tables (cdb x0)) j)"
proof -
  let ?r = "\<lparr>row_payer = payer, row_content = Value buffer\<rparr>"
  obtain tab x0 x1 x2 x3 where f: "find_or_create_table (receiver x) scope table payer x = Inr (tab, x0)"
    and c: "create_row (Keyval, tab, pk) ?r x0 = Inr x1" "change_count tab 1 x1 = Inr x2"
      "update_db_usage payer (int (length buffer) + kind_billable Keyval) x2 = Inr x3"
    and y: "ctx_add Keyval (tab, pk) (snd (ctx_cache_table Keyval tab x3)) = (iter, y)"
    using s by (auto simp: db_store_i64_def res_simps)
  note ft = find_or_create_table_spec [OF f wf]
  have typed: "row_typed (Keyval, tab, pk) ?r" using b by (simp add: row_typed_def)
  have u: "update_db_usage (row_payer ?r) (row_size (Keyval, tab, pk) ?r) x2 = Inr x3"
    using c(3) by (simp add: row_size_def value_size_def add.commute)
  note st = store_row_spec [OF ft(1,3) typed c(1,2) u y]
  show thesis
    using st moved_trans [OF ft(2) st(2)] by (intro that [OF f]) (simp_all add: ft)
qed

lemma idx_store_spec:
  assumes wf: "ctx_wf x" and k: "k \<noteq> Keyval" and s: "idx_store k scope table payer pk secondary x = Inr (iter, y)"
  shows "ctx_wf y" "moved x y"
proof -
  let ?r = "\<lparr>row_payer = payer, row_content = Secondary secondary\<rparr>"
  obtain tab x0 x1 x2 x3 where f: "find_or_create_table (receiver x) scope table payer x = Inr (tab, x0)"
    and c: "create_row (k, tab, pk) ?r x0 = Inr x1" "change_count tab 1 x1 = Inr x2"
      "update_db_usage payer (kind_billable k) x2 = Inr x3"
    and y: "ctx_add k (tab, pk) (snd (ctx_cache_table k tab x3)) = (iter, y)"
    using s by (auto simp: idx_store_def res_simps)
  note ft = find_or_create_table_spec [OF f wf]
  have typed: "row_typed (k, tab, pk) ?r" using k by (simp add: row_typed_def)
  have u: "update_db_usage (row_payer ?r) (row_size (k, tab, pk) ?r) x2 = Inr x3"
    using c(3) by (simp add: row_size_def value_size_def)
  note st = store_row_spec [OF ft(1,3) typed c(1,2) u y]
  show "ctx_wf y" "moved x y" using st(1) moved_trans [OF ft(2) st(2)] by simp_all
qed

text \<open>Updating a row: the old payer gets its bytes back, the new one pays.\<close>

lemma update_row_spec:
  assumes wf: "ctx_wf x" and o: "tbl_find (rows (cdb x)) (k, p) = Some obj" and typed: "row_typed (k, p) r"
    and u: "(if row_payer obj \<noteq> row_payer r
          then bnd (update_db_usage (row_payer obj) (- row_size (k, p) obj) x) (update_db_usage (row_payer r) (row_size (k, p) r))
          else if row_size (k, p) obj \<noteq> row_size (k, p) r then update_db_usage (row_payer obj) (row_size (k, p) r - row_size (k, p) obj) x
          else Inr x) = Inr x1"
    and y: "y = modify_row (k, p) r x1"
  shows "ctx_wf y" "moved x y" "receiver y = receiver x" "caches y = caches x" "tables (cdb y) = tables (cdb x)"
    "rows (cdb y) = tbl_put (k, p) r (rows (cdb x))"
proof -
  obtain i pk where p: "p = (i, pk)" by (rule prod.exhaust)
  have to: "row_typed (k, p) obj" using db_wfD(7) [OF ctx_wfD(1) [OF wf], of k i pk obj] o by (simp add: p)
  note sm = row_size_small [OF typed] row_size_small [OF to]
  have "same_db x x1 \<and> rl_ok (rl x1) \<and> (\<forall>a. ram_of (rl x1) a = ram_of (rl x) a - (if row_payer obj = a then row_size (k, p) obj else 0) + (if row_payer r = a then row_size (k, p) r else 0))"
  proof (cases "row_payer obj = row_payer r")
    case False
    then obtain z where z: "update_db_usage (row_payer obj) (- row_size (k, p) obj) x = Inr z" "update_db_usage (row_payer r) (row_size (k, p) r) z = Inr x1"
      using u by (auto simp: bnd_Inr)
    have s: "small (- row_size (k, p) obj)" "small (row_size (k, p) r)" using sm by auto
    note u1 = update_db_usage_spec [OF z(1) ctx_wfD(2) [OF wf] s(1)]
    note u2 = update_db_usage_spec [OF z(2) u1(2) s(2)]
    have e1: "ram_of (rl z) a = ram_of (rl x) a + (if a = row_payer obj then - row_size (k, p) obj else 0)" for a by (rule u1(3))
    have e2: "ram_of (rl x1) a = ram_of (rl z) a + (if a = row_payer r then row_size (k, p) r else 0)" for a by (rule u2(3))
    show ?thesis using u1(1) u2(1,2) e1 e2 by (auto simp: same_db_def)
  next
    case True
    have s: "small (row_size (k, p) r - row_size (k, p) obj)" using sm by (auto simp: small_def)
    show ?thesis
      using u True update_db_usage_spec [OF _ ctx_wfD(2) [OF wf] s, of "row_payer obj" x1] ctx_wfD(2) [OF wf]
      by (auto simp: same_db_def split: if_splits)
  qed
  then have s1: "same_db x x1" "rl_ok (rl x1)" and e: "\<And>a. ram_of (rl x1) a = ram_of (rl x) a - (if row_payer obj = a then row_size (k, p) obj else 0) + (if row_payer r = a then row_size (k, p) r else 0)"
    by blast+
  have w1: "ctx_wf x1" by (rule ctx_wf_same_db [OF wf s1])
  have d1: "cdb x1 = cdb x" "caches x1 = caches x" "receiver x1 = receiver x" using s1(1) by (simp_all add: same_db_def)
  have o1: "tbl_find (rows (cdb x1)) (k, p) = Some obj" using o by (simp add: d1)
  note m = modify_row_spec [OF w1 o1 typed y]
  show "ctx_wf y" "receiver y = receiver x" "caches y = caches x" "tables (cdb y) = tables (cdb x)"
    "rows (cdb y) = tbl_put (k, p) r (rows (cdb x))" using m by (simp_all add: d1)
  show "moved x y" using m(2,3) e by (auto simp: moved_def d1)
qed

lemma db_update_spec:
  assumes wf: "ctx_wf x" and b: "int (length buffer) < 2 ^ 32" and s: "db_update_i64 iter payer buffer x = Inr y"
  obtains p obj t where "own_object Keyval iter x = Inr (p, obj, t)" "ctx_wf y" "moved x y" "receiver y = receiver x" "caches y = caches x"
    "tables (cdb y) = tables (cdb x)"
    "rows (cdb y) = tbl_put (Keyval, p) \<lparr>row_payer = (if payer = 0 then row_payer obj else payer), row_content = Value buffer\<rparr> (rows (cdb x))"
proof -
  obtain p obj t where ow: "own_object Keyval iter x = Inr (p, obj, t)"
    using s by (auto simp: db_update_i64_def res_simps)
  define r where "r = \<lparr>row_payer = (if payer = 0 then row_payer obj else payer), row_content = Value buffer\<rparr>"
  obtain x1 where x1: "(if row_payer obj \<noteq> row_payer r
          then bnd (update_db_usage (row_payer obj) (- row_size (Keyval, p) obj) x) (update_db_usage (row_payer r) (row_size (Keyval, p) r))
          else if row_size (Keyval, p) obj \<noteq> row_size (Keyval, p) r then update_db_usage (row_payer obj) (row_size (Keyval, p) r - row_size (Keyval, p) obj) x
          else Inr x) = Inr x1" "y = modify_row (Keyval, p) r x1"
    using s unfolding db_update_i64_def ow Let_def bnd.simps prod.case
    by (auto simp: bnd_Inr r_def row_size_def value_size_def add.commute split: if_splits)
  have typed: "row_typed (Keyval, p) r" using b by (simp add: row_typed_def r_def)
  note m = update_row_spec [OF wf own_object_Inr(2) [OF ow] typed x1]
  show thesis by (rule that [OF ow]) (use m in \<open>simp_all add: r_def\<close>)
qed

lemma idx_update_spec:
  assumes wf: "ctx_wf x" and k: "k \<noteq> Keyval" and s: "idx_update k iter payer secondary x = Inr y"
  shows "ctx_wf y" "moved x y"
proof -
  obtain p obj t where ow: "own_object k iter x = Inr (p, obj, t)"
    using s by (auto simp: idx_update_def res_simps)
  note o = own_object_Inr(2) [OF ow]
  have "row_typed (k, p) obj" using db_wfD(7) [OF ctx_wfD(1) [OF wf], of k "fst p" "snd p" obj] o by simp
  then have z: "value_size obj = 0" using k by (auto simp: row_typed_def value_size_def split: content.splits)
  define r where "r = \<lparr>row_payer = (if payer = 0 then row_payer obj else payer), row_content = Secondary secondary\<rparr>"
  have rs: "row_size (k, p) obj = kind_billable k" "row_size (k, p) r = kind_billable k"
    using z by (simp_all add: row_size_def value_size_def r_def)
  obtain x1 where x1: "(if row_payer obj \<noteq> row_payer r
          then bnd (update_db_usage (row_payer obj) (- row_size (k, p) obj) x) (update_db_usage (row_payer r) (row_size (k, p) r))
          else if row_size (k, p) obj \<noteq> row_size (k, p) r then update_db_usage (row_payer obj) (row_size (k, p) r - row_size (k, p) obj) x
          else Inr x) = Inr x1" "y = modify_row (k, p) r x1"
    using s unfolding idx_update_def ow Let_def bnd.simps prod.case rs
    by (auto simp: bnd_Inr r_def split: if_splits)
  have typed: "row_typed (k, p) r" using k by (simp add: row_typed_def r_def)
  show "ctx_wf y" "moved x y" by (rule update_row_spec [OF wf o typed x1])+
qed

text \<open>Removing a row.\<close>

lemma remove_row_spec:
  assumes wf: "ctx_wf x" and g: "cache_get (caches x k) iter = Inr p" and o: "tbl_find (rows (cdb x)) (k, p) = Some obj"
    and u: "update_db_usage (row_payer obj) (- row_size (k, p) obj) x = Inr x1" and d: "drop_row k iter p x1 = Inr y"
  shows "ctx_wf y" "moved x y" "receiver y = receiver x" "rows (cdb y) = tbl_del (k, p) (rows (cdb x))"
    and "j \<noteq> fst p \<Longrightarrow> tbl_find (tables (cdb y)) j = tbl_find (tables (cdb x)) j"
    and "rows_in (fst p) (cdb x) \<noteq> 1 \<Longrightarrow> map_option table_name (tbl_find (tables (cdb y)) (fst p)) = map_option table_name (tbl_find (tables (cdb x)) (fst p))"
    and "rows_in (fst p) (cdb x) = 1 \<Longrightarrow> tbl_find (tables (cdb y)) (fst p) = None"
proof -
  have "row_typed (k, p) obj" using db_wfD(7) [OF ctx_wfD(1) [OF wf], of k "fst p" "snd p" obj] o by simp
  then have sm: "small (- row_size (k, p) obj)" using row_size_small by blast
  note us = update_db_usage_spec [OF u ctx_wfD(2) [OF wf] sm]
  have w1: "ctx_wf x1" by (rule ctx_wf_same_db [OF wf us(1,2)])
  have d1: "cdb x1 = cdb x" "caches x1 = caches x" "receiver x1 = receiver x" using us(1) by (simp_all add: same_db_def)
  have h: "cache_get (caches x1 k) iter = Inr p" "tbl_find (rows (cdb x1)) (k, p) = Some obj" using g o by (simp_all add: d1)
  note dr = drop_row_spec [OF w1 h d]
  show "ctx_wf y" "receiver y = receiver x" "rows (cdb y) = tbl_del (k, p) (rows (cdb x))" using dr by (simp_all add: d1)
  show "j \<noteq> fst p \<Longrightarrow> tbl_find (tables (cdb y)) j = tbl_find (tables (cdb x)) j"
    "rows_in (fst p) (cdb x) \<noteq> 1 \<Longrightarrow> map_option table_name (tbl_find (tables (cdb y)) (fst p)) = map_option table_name (tbl_find (tables (cdb x)) (fst p))"
    "rows_in (fst p) (cdb x) = 1 \<Longrightarrow> tbl_find (tables (cdb y)) (fst p) = None"
    using dr(5-7) by (simp_all add: d1)
  show "moved x y"
    using dr(2) moved_charge [OF u ctx_wfD(2) [OF wf] sm] by (auto simp: moved_def)
qed

lemma db_remove_spec:
  assumes wf: "ctx_wf x" and s: "db_remove_i64 iter x = Inr y"
  obtains p obj t x1 where "own_object Keyval iter x = Inr (p, obj, t)"
    "update_db_usage (row_payer obj) (- row_size (Keyval, p) obj) x = Inr x1" "drop_row Keyval iter p x1 = Inr y"
  using s by (auto simp: db_remove_i64_def res_simps row_size_def add.commute)

lemma idx_remove_spec:
  assumes wf: "ctx_wf x" and k: "k \<noteq> Keyval" and s: "idx_remove k iter x = Inr y"
  shows "ctx_wf y" "moved x y"
proof -
  obtain p obj x1 where g: "cache_get (caches x k) iter = Inr p" and o: "tbl_find (rows (cdb x)) (k, p) = Some obj"
    and u: "update_db_usage (row_payer obj) (- kind_billable k) x = Inr x1" and d: "drop_row k iter p x1 = Inr y"
    using s by (auto simp: idx_remove_def deref_row_def deref_table_def get_table_def res_simps)
  have "row_typed (k, p) obj" using db_wfD(7) [OF ctx_wfD(1) [OF wf], of k "fst p" "snd p" obj] o by simp
  then have "row_size (k, p) obj = kind_billable k" using k by (auto simp: row_typed_def row_size_def value_size_def split: content.splits)
  then show "ctx_wf y" "moved x y" using remove_row_spec [OF wf g o _ d] u by simp_all
qed

subsection \<open>Runs of calls\<close>

text \<open>The calls of a contract, and the change of the running code between notifications, which keeps the caches.\<close>

datatype db_call =
    Run_as account_name bool
  | Store "64 word" "64 word" account_name "64 word" "8 word list"
  | Update int account_name "8 word list"
  | Remove int
  | Get int nat
  | Next int
  | Previous int
  | Find account_name "64 word" "64 word" "64 word"
  | Lowerbound account_name "64 word" "64 word" "64 word"
  | Upperbound account_name "64 word" "64 word" "64 word"
  | End account_name "64 word" "64 word"
  | Idx_store object_kind "64 word" "64 word" account_name "64 word" int
  | Idx_update object_kind int account_name int
  | Idx_remove object_kind int
  | Idx_get object_kind int
  | Idx_find_secondary object_kind account_name "64 word" "64 word" int
  | Idx_lowerbound object_kind account_name "64 word" "64 word" int
  | Idx_upperbound object_kind account_name "64 word" "64 word" int
  | Idx_end object_kind account_name "64 word" "64 word"
  | Idx_next object_kind int
  | Idx_previous object_kind int
  | Idx_find_primary object_kind account_name "64 word" "64 word" "64 word"
  | Idx_lowerbound_primary object_kind account_name "64 word" "64 word" "64 word"
  | Idx_upperbound_primary object_kind account_name "64 word" "64 word" "64 word"
  | Idx_next_primary object_kind int
  | Idx_previous_primary object_kind int

fun db_step :: "db_call \<Rightarrow> apply_context \<Rightarrow> db_error + apply_context" where
  "db_step (Run_as a priv) x = Inr (x\<lparr>receiver := a, privileged := priv\<rparr>)"
| "db_step (Store s t a pk b) x = bnd (db_store_i64 s t a pk b x) (\<lambda>(_, x). Inr x)"
| "db_step (Update i a b) x = db_update_i64 i a b x"
| "db_step (Remove i) x = db_remove_i64 i x"
| "db_step (Get i n) x = bnd (db_get_i64 i n x) (\<lambda>_. Inr x)"
| "db_step (Next i) x = bnd (db_next_i64 i x) (\<lambda>(_, x). Inr x)"
| "db_step (Previous i) x = bnd (db_previous_i64 i x) (\<lambda>(_, x). Inr x)"
| "db_step (Find c s t pk) x = bnd (db_find_i64 c s t pk x) (\<lambda>(_, x). Inr x)"
| "db_step (Lowerbound c s t pk) x = bnd (db_lowerbound_i64 c s t pk x) (\<lambda>(_, x). Inr x)"
| "db_step (Upperbound c s t pk) x = bnd (db_upperbound_i64 c s t pk x) (\<lambda>(_, x). Inr x)"
| "db_step (End c s t) x = Inr (snd (db_end_i64 c s t x))"
| "db_step (Idx_store k s t a pk v) x = bnd (idx_store k s t a pk v x) (\<lambda>(_, x). Inr x)"
| "db_step (Idx_update k i a v) x = idx_update k i a v x"
| "db_step (Idx_remove k i) x = idx_remove k i x"
| "db_step (Idx_get k i) x = bnd (idx_get k i x) (\<lambda>_. Inr x)"
| "db_step (Idx_find_secondary k c s t v) x = bnd (idx_find_secondary k c s t v x) (\<lambda>(_, x). Inr x)"
| "db_step (Idx_lowerbound k c s t v) x = bnd (idx_lowerbound_secondary k c s t v x) (\<lambda>(_, x). Inr x)"
| "db_step (Idx_upperbound k c s t v) x = bnd (idx_upperbound_secondary k c s t v x) (\<lambda>(_, x). Inr x)"
| "db_step (Idx_end k c s t) x = Inr (snd (idx_end_secondary k c s t x))"
| "db_step (Idx_next k i) x = bnd (idx_next_secondary k i x) (\<lambda>(_, x). Inr x)"
| "db_step (Idx_previous k i) x = bnd (idx_previous_secondary k i x) (\<lambda>(_, x). Inr x)"
| "db_step (Idx_find_primary k c s t pk) x = bnd (find_primary k c s t pk x) (\<lambda>(_, x). Inr x)"
| "db_step (Idx_lowerbound_primary k c s t pk) x = bnd (lowerbound_primary k c s t pk x) (\<lambda>(_, x). Inr x)"
| "db_step (Idx_upperbound_primary k c s t pk) x = bnd (upperbound_primary k c s t pk x) (\<lambda>(_, x). Inr x)"
| "db_step (Idx_next_primary k i) x = bnd (next_primary k i x) (\<lambda>(_, x). Inr x)"
| "db_step (Idx_previous_primary k i) x = bnd (previous_primary k i x) (\<lambda>(_, x). Inr x)"

text \<open>A buffer of a contract lies in its 32-bit memory; rows have their own calls.\<close>

fun call_ok :: "db_call \<Rightarrow> bool" where
  "call_ok (Store s t a pk b) \<longleftrightarrow> int (length b) < 2 ^ 32"
| "call_ok (Update i a b) \<longleftrightarrow> int (length b) < 2 ^ 32"
| "call_ok (Idx_store k s t a pk v) \<longleftrightarrow> k \<noteq> Keyval"
| "call_ok (Idx_update k i a v) \<longleftrightarrow> k \<noteq> Keyval"
| "call_ok (Idx_remove k i) \<longleftrightarrow> k \<noteq> Keyval"
| "call_ok _ \<longleftrightarrow> True"

definition keeps :: "apply_context \<Rightarrow> apply_context \<Rightarrow> bool" where
  "keeps x y \<longleftrightarrow> ctx_wf y \<and> moved x y"

lemma keeps_data: "ctx_wf y \<Longrightarrow> same_data x y \<Longrightarrow> keeps x y"
  by (simp add: keeps_def same_data_moved)

lemma bound_hits:
  assumes "db_wf d"
  shows "find P (primary_index k d) = Some p \<Longrightarrow> \<exists>r. tbl_find (rows d) (k, p) = Some r"
    and "find P (rev (primary_index k d)) = Some p \<Longrightarrow> \<exists>r. tbl_find (rows d) (k, p) = Some r"
    and "map_option drop_secondary (find Q (secondary_index k d)) = Some p \<Longrightarrow> \<exists>r. tbl_find (rows d) (k, p) = Some r"
    and "map_option drop_secondary (find Q (rev (secondary_index k d))) = Some p \<Longrightarrow> \<exists>r. tbl_find (rows d) (k, p) = Some r"
  using primary_index_iff [OF assms, of p k] secondary_index_iff [OF assms, of _ k]
  by (auto dest!: findD)

lemma lookup_keeps:
  assumes "ctx_wf x" "lookup_in k code scope table hit x = Inr (res, y)"
    and "\<And>t p. hit (cdb x) t = Some p \<Longrightarrow> \<exists>r. tbl_find (rows (cdb x)) (k, p) = Some r"
  shows "keeps x y"
proof -
  obtain i r where "res = (i, r)" by (rule prod.exhaust)
  then show ?thesis using lookup_in_spec(1,2) [OF assms(1) assms(3), of _ _ code scope table i r y] assms(2) by (auto intro: keeps_data)
qed

lemma primary_lookups_keep:
  assumes "ctx_wf x"
  shows "find_primary k c s t pk x = Inr (res, y) \<Longrightarrow> keeps x y"
    and "lowerbound_primary k c s t pk x = Inr (res, y) \<Longrightarrow> keeps x y"
    and "upperbound_primary k c s t pk x = Inr (res, y) \<Longrightarrow> keeps x y"
  unfolding find_primary_def lowerbound_primary_def upperbound_primary_def
  using bound_hits(1) [OF ctx_wfD(1) [OF assms]]
  by (auto intro!: lookup_keeps [OF assms] split: if_splits)

lemma secondary_lookups_keep:
  assumes "ctx_wf x"
  shows "idx_find_secondary k c s t v x = Inr (res, y) \<Longrightarrow> keeps x y"
    and "idx_lowerbound_secondary k c s t v x = Inr (res, y) \<Longrightarrow> keeps x y"
    and "idx_upperbound_secondary k c s t v x = Inr (res, y) \<Longrightarrow> keeps x y"
  unfolding idx_find_secondary_def idx_lowerbound_secondary_def idx_upperbound_secondary_def
  by (rule lookup_keeps [OF assms], assumption, rule bound_hits(3) [OF ctx_wfD(1) [OF assms]], assumption)+

lemma end_iterator_keeps: "ctx_wf x \<Longrightarrow> keeps x (snd (end_iterator k c s t x))"
proof (cases "find_table x c s t")
  case (Some i)
  assume wf: "ctx_wf x"
  obtain ei y where y: "ctx_cache_table k i x = (ei, y)" by (rule prod.exhaust)
  have "i < next_table_id (cdb x)" using find_table_exists [OF wf Some] by blast
  from ctx_cache_table_spec [OF wf this y] show ?thesis by (simp add: end_iterator_def Some y keeps_data)
qed (simp add: end_iterator_def keeps_def moved_def)

text \<open>An object whose iterator is known has its table in the cache; an end iterator known to the cache has too.\<close>

lemma find_table_by_end_iterator_cached:
  assumes "ctx_wf x" "find_table_by_end_iterator (caches x k) iter = Inr (Some t)"
  obtains ei where "tbl_find (table_cache (caches x k)) t = Some ei"
proof -
  let ?n = "nat (end_iterator_to_index iter)"
  have "0 \<le> end_iterator_to_index iter" "?n < length (end_iterator_to_table (caches x k))" "end_iterator_to_table (caches x k) ! ?n = t"
    using assms(2) by (auto simp: find_table_by_end_iterator_def res_simps Let_def end_iterator_to_index_def split: if_splits)
  then show thesis using that cache_wfD(5) [OF ctx_wfD(3) [OF assms(1)], of ?n k t] by blast
qed

lemma step_keeps:
  assumes "ctx_wf x" "tbl_find (table_cache (caches x k)) t = Some ei" "step_to k t hit other x = Inr (res, y)"
    and "\<And>p. hit = Some p \<Longrightarrow> \<exists>r. tbl_find (rows (cdb x)) (k, p) = Some r"
  shows "keeps x y"
proof -
  obtain i r where "res = (i, r)" by (rule prod.exhaust)
  then show ?thesis using step_to_spec(1,2) [OF assms(1,2) assms(4), of _ other i r y] assms(3) by (auto intro: keeps_data)
qed

lemma moves_keep:
  assumes wf: "ctx_wf x"
  shows "next_primary k iter x = Inr (res, y) \<Longrightarrow> keeps x y"
    and "idx_next_secondary k iter x = Inr (res, y) \<Longrightarrow> keeps x y"
    and "previous_primary k iter x = Inr (res, y) \<Longrightarrow> keeps x y"
    and "idx_previous_secondary k iter x = Inr (res, y) \<Longrightarrow> keeps x y"
proof -
  note hits = bound_hits [OF ctx_wfD(1) [OF wf]]
  have obj: "\<exists>ei. tbl_find (table_cache (caches x k)) (fst p) = Some ei" if "cache_get (caches x k) iter = Inr p" for p
    using cached_object [OF wf that] by blast
  show "keeps x y" if n: "next_primary k iter x = Inr (res, y)"
  proof (cases "iter < -1")
    case False
    then obtain p where p: "cache_get (caches x k) iter = Inr p"
      and s: "step_to k (fst p) (find (\<lambda>q. p < q) (primary_index k (cdb x))) (\<lambda>x. get_end_iterator_by_table_id (caches x k) (fst p)) x = Inr (res, y)"
      using n by (auto simp: next_primary_def res_simps)
    obtain ei where "tbl_find (table_cache (caches x k)) (fst p) = Some ei" using obj [OF p] by blast
    from step_keeps [OF wf this s hits(1)] show ?thesis .
  qed (use n wf in \<open>simp add: next_primary_def keeps_def moved_def\<close>)
  show "keeps x y" if n: "idx_next_secondary k iter x = Inr (res, y)"
  proof (cases "iter < -1")
    case False
    then obtain p ob where p: "cache_get (caches x k) iter = Inr p"
      and s: "step_to k (fst p) (map_option drop_secondary (find (\<lambda>q. key_in_secondary x k p ob < q) (secondary_index k (cdb x))))
          (\<lambda>x. get_end_iterator_by_table_id (caches x k) (fst p)) x = Inr (res, y)"
      using n by (auto simp: idx_next_secondary_def res_simps)
    obtain ei where "tbl_find (table_cache (caches x k)) (fst p) = Some ei" using obj [OF p] by blast
    from step_keeps [OF wf this s hits(3)] show ?thesis .
  qed (use n wf in \<open>simp add: idx_next_secondary_def keeps_def moved_def\<close>)
  show "keeps x y" if n: "previous_primary k iter x = Inr (res, y)"
  proof (cases "iter < -1")
    case True
    then obtain t where t: "find_table_by_end_iterator (caches x k) iter = Inr (Some t)"
      and s: "step_to k t (find (\<lambda>q. fst q \<le> t) (rev (primary_index k (cdb x)))) (\<lambda>_. Inr (-1)) x = Inr (res, y)"
      using n by (auto simp: previous_primary_def res_simps)
    obtain ei where "tbl_find (table_cache (caches x k)) t = Some ei" by (rule find_table_by_end_iterator_cached [OF wf t])
    from step_keeps [OF wf this s hits(2)] show ?thesis .
  next
    case False
    then obtain p where p: "cache_get (caches x k) iter = Inr p"
      and s: "step_to k (fst p) (find (\<lambda>q. q < p) (rev (primary_index k (cdb x)))) (\<lambda>_. Inr (-1)) x = Inr (res, y)"
      using n by (auto simp: previous_primary_def res_simps)
    obtain ei where "tbl_find (table_cache (caches x k)) (fst p) = Some ei" using obj [OF p] by blast
    from step_keeps [OF wf this s hits(2)] show ?thesis .
  qed
  show "keeps x y" if n: "idx_previous_secondary k iter x = Inr (res, y)"
  proof (cases "iter < -1")
    case True
    then obtain t where t: "find_table_by_end_iterator (caches x k) iter = Inr (Some t)"
      and s: "step_to k t (map_option drop_secondary (find (\<lambda>q. fst q \<le> t) (rev (secondary_index k (cdb x))))) (\<lambda>_. Inr (-1)) x = Inr (res, y)"
      using n by (auto simp: idx_previous_secondary_def res_simps)
    obtain ei where "tbl_find (table_cache (caches x k)) t = Some ei" by (rule find_table_by_end_iterator_cached [OF wf t])
    from step_keeps [OF wf this s hits(4)] show ?thesis .
  next
    case False
    then obtain p ob where p: "cache_get (caches x k) iter = Inr p"
      and s: "step_to k (fst p) (map_option drop_secondary (find (\<lambda>q. q < key_in_secondary x k p ob) (rev (secondary_index k (cdb x))))) (\<lambda>_. Inr (-1)) x = Inr (res, y)"
      using n by (auto simp: idx_previous_secondary_def res_simps)
    obtain ei where "tbl_find (table_cache (caches x k)) (fst p) = Some ei" using obj [OF p] by blast
    from step_keeps [OF wf this s hits(4)] show ?thesis .
  qed
qed

lemma db_step_keeps:
  assumes wf: "ctx_wf x" and ok: "call_ok c" and s: "db_step c x = Inr y"
  shows "keeps x y"
proof -
  have refl: "keeps x x" using wf by (simp add: keeps_def moved_def)
  show ?thesis
  proof (cases c)
    case (Run_as a priv)
    then show ?thesis using s wf by (auto simp: keeps_def moved_def ctx_wf_def)
  next
    case (Store sc t a pk b)
    then obtain i where i: "db_store_i64 sc t a pk b x = Inr (i, y)" "int (length b) < 2 ^ 32" using s ok by (auto simp: bnd_Inr)
    show ?thesis by (rule db_store_spec [OF wf i(2,1)]) (simp add: keeps_def)
  next
    case (Update i a b)
    then have i: "db_update_i64 i a b x = Inr y" "int (length b) < 2 ^ 32" using s ok by auto
    show ?thesis by (rule db_update_spec [OF wf i(2,1)]) (simp add: keeps_def)
  next
    case (Remove i)
    then have i: "db_remove_i64 i x = Inr y" using s by simp
    show ?thesis
    proof (rule db_remove_spec [OF wf i])
      fix p obj t x1 assume o: "own_object Keyval i x = Inr (p, obj, t)"
        and u: "update_db_usage (row_payer obj) (- row_size (Keyval, p) obj) x = Inr x1" "drop_row Keyval i p x1 = Inr y"
      show ?thesis using remove_row_spec(1,2) [OF wf own_object_Inr(1,2) [OF o] u] by (simp add: keeps_def)
    qed
  next
    case (Idx_store k sc t a pk v)
    then show ?thesis using s ok idx_store_spec [OF wf] by (auto simp: bnd_Inr keeps_def)
  next
    case (Idx_update k i a v)
    then show ?thesis using s ok idx_update_spec [OF wf] by (auto simp: keeps_def)
  next
    case (Idx_remove k i)
    then show ?thesis using s ok idx_remove_spec [OF wf] by (auto simp: keeps_def)
  next
    case (End c s t)
    then show ?thesis using s end_iterator_keeps [OF wf] by (auto simp: db_end_i64_def)
  next
    case (Idx_end k c s t)
    then show ?thesis using s end_iterator_keeps [OF wf] by (auto simp: idx_end_secondary_def)
  next
    case (Next i)
    then show ?thesis using s moves_keep(1) [OF wf] by (auto simp: bnd_Inr db_next_i64_def primary_result_def)
  next
    case (Previous i)
    then show ?thesis using s moves_keep(3) [OF wf] by (auto simp: bnd_Inr db_previous_i64_def primary_result_def)
  next
    case (Find c s t pk)
    then show ?thesis using s primary_lookups_keep(1) [OF wf] by (auto simp: bnd_Inr db_find_i64_def)
  next
    case (Lowerbound c s t pk)
    then show ?thesis using s primary_lookups_keep(2) [OF wf] by (auto simp: bnd_Inr db_lowerbound_i64_def)
  next
    case (Upperbound c s t pk)
    then show ?thesis using s primary_lookups_keep(3) [OF wf] by (auto simp: bnd_Inr db_upperbound_i64_def)
  next
    case (Get i n)
    then show ?thesis using s refl by (auto simp: bnd_Inr)
  next
    case (Idx_get k i)
    then show ?thesis using s refl by (auto simp: bnd_Inr)
  next
    case (Idx_find_secondary k c s t v)
    then show ?thesis using s secondary_lookups_keep(1) [OF wf] by (auto simp: bnd_Inr)
  next
    case (Idx_lowerbound k c s t v)
    then show ?thesis using s secondary_lookups_keep(2) [OF wf] by (auto simp: bnd_Inr)
  next
    case (Idx_upperbound k c s t v)
    then show ?thesis using s secondary_lookups_keep(3) [OF wf] by (auto simp: bnd_Inr)
  next
    case (Idx_next k i)
    then show ?thesis using s moves_keep(2) [OF wf] by (auto simp: bnd_Inr)
  next
    case (Idx_previous k i)
    then show ?thesis using s moves_keep(4) [OF wf] by (auto simp: bnd_Inr)
  next
    case (Idx_find_primary k c s t pk)
    then show ?thesis using s primary_lookups_keep(1) [OF wf] by (auto simp: bnd_Inr)
  next
    case (Idx_lowerbound_primary k c s t pk)
    then show ?thesis using s primary_lookups_keep(2) [OF wf] by (auto simp: bnd_Inr)
  next
    case (Idx_upperbound_primary k c s t pk)
    then show ?thesis using s primary_lookups_keep(3) [OF wf] by (auto simp: bnd_Inr)
  next
    case (Idx_next_primary k i)
    then show ?thesis using s moves_keep(1) [OF wf] by (auto simp: bnd_Inr)
  next
    case (Idx_previous_primary k i)
    then show ?thesis using s moves_keep(3) [OF wf] by (auto simp: bnd_Inr)
  qed
qed

subsection \<open>Errors\<close>

text \<open>Computations that never end in an error that the code takes to be impossible.\<close>

definition safe :: "db_error + 'a \<Rightarrow> bool" where
  "safe m \<longleftrightarrow> (\<forall>e. m = Inl e \<longrightarrow> \<not> internal e)"

named_theorems safe_intros \<open>safe computations\<close>

lemma safe_Inr [safe_intros]: "safe (Inr x)"
  by (simp add: safe_def)

lemma safe_chk [safe_intros]: "\<not> internal e \<Longrightarrow> (b \<Longrightarrow> safe k) \<Longrightarrow> safe (chk b e k)"
  by (cases b) (auto simp: safe_def)

lemma safe_bnd [safe_intros]: "safe m \<Longrightarrow> (\<And>x. m = Inr x \<Longrightarrow> safe (f x)) \<Longrightarrow> safe (bnd m f)"
  by (cases m) (auto simp: safe_def)

lemma safe_if [safe_intros]: "(b \<Longrightarrow> safe m) \<Longrightarrow> (\<not> b \<Longrightarrow> safe n) \<Longrightarrow> safe (if b then m else n)"
  by simp

lemma safe_need [safe_intros]: "\<not> internal e \<Longrightarrow> (\<And>x. m = Some x \<Longrightarrow> safe (f x)) \<Longrightarrow> safe (need m e f)"
  by (cases m) (auto simp: safe_def)

lemma internal_simps [simp]: "\<not> internal Invalid_table_payer" "\<not> internal Table_access_violation" "\<not> internal Invalid_table_iterator"
  "\<not> internal Table_operation_not_permitted" "\<not> internal Db_uniqueness" "\<not> internal Db_bad_alloc"
  "\<not> internal Subjective_block_production" "\<not> internal (Missing_authorization a)" "\<not> internal (Limit_error c)"
  by (simp_all add: internal_def)

lemma safe_update_db_usage [safe_intros]: "safe (update_db_usage a d x)"
  by (simp add: safe_def update_db_usage_error)

lemma safe_cache_get [safe_intros]: "safe (cache_get c iter)"
  by (simp add: safe_def cache_get_error)

lemma safe_own_object [safe_intros]: "ctx_wf x \<Longrightarrow> safe (own_object k iter x)"
  by (simp add: safe_def own_object_error)

lemma safe_cache_remove [safe_intros]: "safe (cache_remove c iter)"
  unfolding cache_remove_def by (intro safe_intros) (auto simp: safe_def split: option.split)

lemma safe_create_row [safe_intros]: "safe (create_row key r x)"
  unfolding create_row_def by (intro safe_intros) simp_all

lemma safe_deref_table: "tbl_find (tables (cdb x)) i = Some t \<Longrightarrow> safe (deref_table x i)"
  by (simp add: deref_table_def safe_Inr)

lemma safe_change_count: "tbl_find (tables (cdb x)) i = Some t \<Longrightarrow> safe (change_count i d x)"
  unfolding change_count_def by (intro safe_intros safe_deref_table)

lemma safe_find_or_create [safe_intros]: "safe (find_or_create_table code scope table payer x)"
  unfolding find_or_create_table_def Let_def
  by (cases "find_table x code scope table") (simp_all add: safe_Inr, intro safe_intros, simp)

lemma safe_store:
  assumes wf: "ctx_wf x" and f: "find_or_create_table (receiver x) scope table payer x = Inr (tab, x0)"
  shows "safe (bnd (create_row (k, tab, pk) r x0) (\<lambda>x. bnd (change_count tab 1 x) (\<lambda>x. bnd (update_db_usage a d x) (\<lambda>x. Inr (g x)))))"
proof -
  note ft = find_or_create_table_spec [OF f wf]
  obtain t where t: "tbl_find (tables (cdb x0)) tab = Some t" using find_table_exists [OF ft(1,3)] by blast
  have "tbl_find (tables (cdb x1)) tab = Some t" if "create_row (k, tab, pk) r x0 = Inr x1" for x1
    using that t by (auto simp: create_row_def res_simps)
  then show ?thesis by (intro safe_intros safe_change_count)
qed

lemma safe_stores:
  assumes wf: "ctx_wf x"
  shows "safe (db_store_i64 s t a pk b x)" "safe (idx_store k s t a pk v x)"
proof -
  have st: "safe (bnd (create_row (k, fst r, pk) w (snd r)) (\<lambda>x. bnd (change_count (fst r) 1 x) (\<lambda>x. bnd (update_db_usage a d x) (\<lambda>x. Inr (g x)))))"
    if "find_or_create_table (receiver x) s t a x = Inr r" for r k w d and g :: "apply_context \<Rightarrow> int \<times> apply_context"
    using safe_store [OF wf, of s t a "fst r" "snd r"] that by simp
  show "safe (db_store_i64 s t a pk b x)" "safe (idx_store k s t a pk v x)"
    unfolding db_store_i64_def idx_store_def split_beta
    by (rule safe_bnd safe_find_or_create safe_chk internal_simps st | assumption)+
qed

lemma safe_updates:
  assumes "ctx_wf x"
  shows "safe (db_update_i64 i a b x)" "safe (idx_update k i a v x)"
  unfolding db_update_i64_def idx_update_def Let_def split_beta by (intro safe_intros assms)+

lemma safe_drop_row:
  assumes wf: "ctx_wf x" and g: "cache_get (caches x k) iter = Inr p"
  shows "safe (drop_row k iter p x)"
proof -
  obtain t where t: "tbl_find (tables (cdb x)) (fst p) = Some t" using cached_object [OF wf g] by blast
  note ok = db_wfD(1) [OF ctx_wfD(1) [OF wf]]
  have "\<exists>u. tbl_find (tables (cdb x1)) (fst p) = Some u" if "change_count (fst p) (-1) x = Inr x1" for x1
    using that t ok by (auto simp: change_count_def deref_table_def set_table_def tbl_simps)
  then show ?thesis
    unfolding drop_row_def Let_def remove_table_def
    by (intro safe_intros safe_change_count [OF t]) (auto simp: deref_table_def intro: safe_Inr)
qed

lemma safe_removes:
  assumes wf: "ctx_wf x"
  shows "safe (db_remove_i64 i x)" "k \<noteq> Keyval \<Longrightarrow> safe (idx_remove k i x)"
proof -
  have dr: "safe (drop_row k i p x1)" if g: "cache_get (caches x k) i = Inr p" and u: "update_db_usage a d x = Inr x1" and sm: "small d" for k p x1 a d
  proof -
    note us = update_db_usage_spec [OF u ctx_wfD(2) [OF wf] sm]
    have "cache_get (caches x1 k) i = Inr p" using g us(1) by (simp add: same_db_def)
    from safe_drop_row [OF ctx_wf_same_db [OF wf us(1,2)] this] show ?thesis .
  qed
  have typed: "small (- (value_size obj + kind_billable Keyval))" if "own_object Keyval i x = Inr (p, obj, t)" for p obj t
    using db_wfD(7) [OF ctx_wfD(1) [OF wf], of Keyval "fst p" "snd p" obj] own_object_Inr(2) [OF that] row_size_small [of "(Keyval, p)" obj]
    by (auto simp: row_size_def add.commute)
  show "safe (db_remove_i64 i x)"
    unfolding db_remove_i64_def split_beta
  proof (rule safe_bnd [OF safe_own_object [OF wf]], rule safe_bnd [OF safe_update_db_usage])
    fix r x1 assume "own_object Keyval i x = Inr r"
      and u: "update_db_usage (row_payer (fst (snd r))) (- (value_size (fst (snd r)) + kind_billable Keyval)) x = Inr x1"
    then have o: "own_object Keyval i x = Inr (fst r, fst (snd r), snd (snd r))" by simp
    show "safe (drop_row Keyval i (fst r) x1)" by (rule dr [OF own_object_Inr(1) [OF o] u typed [OF o]])
  qed
  show "safe (idx_remove k i x)"
  proof (cases "cache_get (caches x k) i")
    case (Inl e)
    then show ?thesis using cache_get_error [OF Inl] by (simp add: idx_remove_def safe_def)
  next
    case (Inr p)
    obtain obj t ei where o: "tbl_find (rows (cdb x)) (k, p) = Some obj" "tbl_find (tables (cdb x)) (fst p) = Some t"
      "tbl_find (table_cache (caches x k)) (fst p) = Some ei"
      by (rule cached_object [OF wf Inr])
    have sm: "small (- kind_billable k)" using kind_billable_bounds [of k] by (simp add: small_def)
    have d: "cdb x1 = cdb x" "caches x1 = caches x" if "update_db_usage (row_payer obj) (- kind_billable k) x = Inr x1" for x1
      using update_db_usage_spec(1) [OF that ctx_wfD(2) [OF wf] sm] by (simp_all add: same_db_def)
    show ?thesis
      unfolding idx_remove_def Inr bnd.simps deref_row_def o need.simps
      by (intro safe_intros dr [OF Inr _ sm]) (auto simp: get_table_def deref_table_def o d intro: safe_Inr)
  qed
qed

lemma safe_step_to: "safe (other x) \<Longrightarrow> safe (step_to k t hit other x)"
  by (auto simp: safe_def dest: step_to_error)

lemma safe_deref_row: "ctx_wf x \<Longrightarrow> cache_get (caches x k) iter = Inr p \<Longrightarrow> safe (deref_row x k p)"
  by (erule (1) cached_object) (simp add: deref_row_def safe_Inr)

lemma safe_get_end: "ctx_wf x \<Longrightarrow> cache_get (caches x k) iter = Inr p \<Longrightarrow> safe (get_end_iterator_by_table_id (caches x k) (fst p))"
  by (erule (1) cached_object) (simp add: get_end_iterator_by_table_id_def safe_Inr)

lemma safe_moves:
  assumes wf: "ctx_wf x"
  shows "safe (next_primary k iter x)" "safe (idx_next_secondary k iter x)" "safe (db_get_i64 iter n x)" "safe (idx_get k iter x)"
  unfolding next_primary_def idx_next_secondary_def db_get_i64_def idx_get_def Let_def
  by (intro safe_intros safe_step_to safe_deref_row [OF wf] safe_get_end [OF wf], assumption+)+

text \<open>The end iterator of a table that has been removed since the iterator was cached.\<close>

definition stale_end :: "object_kind \<Rightarrow> int \<Rightarrow> apply_context \<Rightarrow> bool" where
  "stale_end k iter x \<longleftrightarrow> (case find_table_by_end_iterator (caches x k) iter of
     Inr (Some t) \<Rightarrow> tbl_find (tables (cdb x)) t = None | _ \<Rightarrow> False)"

fun stale_call :: "db_call \<Rightarrow> apply_context \<Rightarrow> bool" where
  "stale_call (Previous i) x = stale_end Keyval i x"
| "stale_call (Idx_previous k i) x = stale_end k i x"
| "stale_call (Idx_previous_primary k i) x = stale_end k i x"
| "stale_call _ x = False"

lemma safe_find_end [safe_intros]: "safe (find_table_by_end_iterator c iter)"
  unfolding find_table_by_end_iterator_def Let_def by (intro safe_intros) simp

lemma safe_previous:
  assumes wf: "ctx_wf x" and live: "\<not> stale_end k iter x"
  shows "safe (previous_primary k iter x)" "safe (idx_previous_secondary k iter x)"
proof -
  have d: "safe (deref_table x t)" if "find_table_by_end_iterator (caches x k) iter = Inr (Some t)" for t
    using live that by (auto simp: stale_end_def deref_table_def intro: safe_Inr)
  show "safe (previous_primary k iter x)" "safe (idx_previous_secondary k iter x)"
    unfolding previous_primary_def idx_previous_secondary_def
    by (rule safe_if safe_bnd safe_find_end safe_need safe_cache_get safe_step_to safe_Inr safe_deref_row [OF wf] internal_simps d | assumption | simp only:)+
qed

lemma previous_stale:
  assumes "stale_end k iter x"
  shows "previous_primary k iter x = Inl Dangling_pointer" "idx_previous_secondary k iter x = Inl Dangling_pointer"
  using assms
  by (auto simp: stale_end_def previous_primary_def idx_previous_secondary_def deref_table_def find_table_by_end_iterator_def res_simps Let_def
      split: sum.splits option.splits)

lemma safe_lookup [safe_intros]: "safe (lookup_in k code scope table hit x)"
  by (simp add: safe_def lookup_in_no_error)

lemma db_step_safe:
  assumes wf: "ctx_wf x" and ok: "call_ok c" and live: "\<not> stale_call c x"
  shows "safe (db_step c x)"
proof (cases c)
  case (Idx_remove k i)
  then show ?thesis using ok safe_removes(2) [OF wf] by simp
qed (use live in \<open>auto simp: db_next_i64_def db_previous_i64_def db_find_i64_def db_lowerbound_i64_def db_upperbound_i64_def find_primary_def
      lowerbound_primary_def upperbound_primary_def idx_find_secondary_def idx_lowerbound_secondary_def idx_upperbound_secondary_def
      primary_result_def split_beta
    intro!: safe_intros safe_stores [OF wf] safe_updates [OF wf] safe_removes(1) [OF wf] safe_moves [OF wf] safe_previous [OF wf]\<close>)

lemma db_step_stale: "stale_call c x \<Longrightarrow> db_step c x = Inl Dangling_pointer"
  by (cases c) (auto simp: db_previous_i64_def primary_result_def previous_stale)

end
