(* ===== verification/Contract_Tables.thy ===== *)
theory Contract_Tables
  imports Db_Invariant
begin

text \<open>
  What the database calls promise to a contract: they bill RAM exactly, their internal assertions hold, and they implement
  the key-ordered tables that the models of the contracts are written on.
\<close>

subsection \<open>Tables as key-value maps\<close>

text \<open>The rows of a table, by primary key.\<close>

definition rows_of :: "int \<Rightarrow> contract_db \<Rightarrow> (64 word, row_object) tbl" where
  "rows_of t d = tbl_scope t (tbl_scope Keyval (rows d))"

definition contents :: "apply_context \<Rightarrow> account_name \<times> 64 word \<times> 64 word \<Rightarrow> (64 word, row_object) tbl" where
  "contents x n = (case find_table x (fst n) (fst (snd n)) (snd (snd n)) of None \<Rightarrow> [] | Some t \<Rightarrow> rows_of t (cdb x))"

lemma rows_of_find: "db_wf d \<Longrightarrow> tbl_find (rows_of t d) pk = tbl_find (rows d) (Keyval, t, pk)"
  using db_wfD(2) by (simp add: rows_of_def tbl_find_scope tbl_ok_scope)

lemma rows_of_ok: "db_wf d \<Longrightarrow> tbl_ok (rows_of t d)"
  using db_wfD(2) by (simp add: rows_of_def tbl_ok_scope)

lemma rows_of_put:
  assumes "db_wf d" "rows d' = tbl_put (Keyval, t, pk) r (rows d)"
  shows "rows_of t' d' = (if t' = t then tbl_put pk r (rows_of t d) else rows_of t' d)"
  using db_wfD(2) [OF assms(1)] by (simp add: rows_of_def assms(2) tbl_scope_put tbl_ok_scope)

lemma rows_of_del:
  assumes "db_wf d" "rows d' = tbl_del (Keyval, t, pk) (rows d)"
  shows "rows_of t' d' = (if t' = t then tbl_del pk (rows_of t d) else rows_of t' d)"
  using db_wfD(2) [OF assms(1)] by (simp add: rows_of_def assms(2) tbl_scope_del tbl_ok_scope)

lemma rows_of_no_table:
  assumes "db_wf d" "tbl_find (tables d) t = None"
  shows "rows_of t d = []"
proof (rule tbl_eqI [OF rows_of_ok [OF assms(1)] tbl_ok_Nil])
  show "tbl_find (rows_of t d) pk = tbl_find [] pk" for pk
    using db_wfD(6) [OF assms(1), of Keyval t pk] assms(2) by (cases "tbl_find (rows d) (Keyval, t, pk)") (auto simp: rows_of_find assms(1) tbl_simps)
qed

lemma find_table_names:
  "ctx_wf x \<Longrightarrow> find_table x c s t = Some i \<longleftrightarrow> map_option table_name (tbl_find (tables (cdb x)) i) = Some (c, s, t)"
  using find_table_Some [OF ctx_wfD(1)] by auto

text \<open>Tables with the same names hold the rows of the same tables.\<close>

lemma contents_names:
  assumes wf: "ctx_wf x" "ctx_wf y"
    and n: "\<And>j. j \<noteq> i \<Longrightarrow> map_option table_name (tbl_find (tables (cdb y)) j) = map_option table_name (tbl_find (tables (cdb x)) j)"
    and r: "\<And>j. j \<noteq> i \<Longrightarrow> rows_of j (cdb y) = rows_of j (cdb x)"
    and i: "map_option table_name (tbl_find (tables (cdb x)) i) \<in> {None, Some nm}" "map_option table_name (tbl_find (tables (cdb y)) i) \<in> {None, Some nm}"
    and ne: "n \<noteq> nm"
  shows "contents y n = contents x n"
proof -
  obtain c s t where nn: "n = (c, s, t)" by (rule prod_cases3)
  have "find_table y c s t = Some j \<longleftrightarrow> find_table x c s t = Some j" for j
    using n [of j] i ne by (cases "j = i") (auto simp: find_table_names wf nn)
  then have ft: "find_table y c s t = find_table x c s t" by (metis option.exhaust)
  have "j \<noteq> i" if "find_table x c s t = Some j" for j
    using that i(1) ne by (auto simp: find_table_names wf nn)
  then show ?thesis using ft r by (auto simp: contents_def nn split: option.splits)
qed

lemma store_contents:
  assumes wf: "ctx_wf x" and b: "int (length buffer) < 2 ^ 32" and s: "db_store_i64 scope table payer pk buffer x = Inr (iter, y)"
  shows "tbl_find (contents x (receiver x, scope, table)) pk = None"
    and "contents y n = (if n = (receiver x, scope, table)
      then tbl_put pk \<lparr>row_payer = payer, row_content = Value buffer\<rparr> (contents x n) else contents x n)"
    and "db_get_i64 iter (length buffer) y = Inr (int (length buffer), buffer)"
proof -
  let ?nm = "(receiver x, scope, table)" and ?r = "\<lparr>row_payer = payer, row_content = Value buffer\<rparr>"
  obtain tab x0 where f: "find_or_create_table (receiver x) scope table payer x = Inr (tab, x0)"
    and y: "ctx_wf y" "cache_get (caches y Keyval) iter = Inr (tab, pk)" "rows (cdb y) = tbl_put (Keyval, tab, pk) ?r (rows (cdb x))"
      "tbl_find (rows (cdb x)) (Keyval, tab, pk) = None"
    and y5: "\<forall>j. map_option table_name (tbl_find (tables (cdb y)) j) = map_option table_name (tbl_find (tables (cdb x0)) j)"
    by (rule db_store_spec [OF wf b s])
  note ft = find_or_create_table_spec [OF f wf]
  have nt: "map_option table_name (tbl_find (tables (cdb y)) tab) = Some ?nm"
    using ft(3) y5 by (simp add: find_table_names [OF ft(1)])
  have old: "rows_of tab (cdb x) = contents x ?nm"
  proof (cases "find_table x (receiver x) scope table")
    case None
    then have "tbl_find (tables (cdb x)) tab = None" using ft(7) db_wfD(3) [OF ctx_wfD(1) [OF wf], of tab] by fastforce
    then show ?thesis using None rows_of_no_table [OF ctx_wfD(1) [OF wf]] by (simp add: contents_def)
  next
    case (Some i)
    then have "i = tab" using f by (simp add: find_or_create_table_def)
    then show ?thesis using Some by (simp add: contents_def)
  qed
  show "tbl_find (contents x ?nm) pk = None"
    using y(4) by (simp add: rows_of_find [OF ctx_wfD(1) [OF wf]] flip: old)
  have other: "contents y n = contents x n" if "n \<noteq> ?nm"
  proof (rule contents_names [OF wf y(1), where i = tab and nm = ?nm])
    fix j assume j: "j \<noteq> tab"
    have "tbl_find (tables (cdb x0)) j = tbl_find (tables (cdb x)) j"
    proof (cases "find_table x (receiver x) scope table")
      case None
      then show ?thesis using ft(8,9) [of j] j by (cases "tbl_find (tables (cdb x)) j"; cases "tbl_find (tables (cdb x0)) j") auto
    next
      case (Some i)
      then show ?thesis using f by (simp add: find_or_create_table_def)
    qed
    then show "map_option table_name (tbl_find (tables (cdb y)) j) = map_option table_name (tbl_find (tables (cdb x)) j)" using y5 by simp
    show "rows_of j (cdb y) = rows_of j (cdb x)" using j by (simp add: rows_of_put [OF ctx_wfD(1) [OF wf] y(3)])
  next
    show "map_option table_name (tbl_find (tables (cdb x)) tab) \<in> {None, Some ?nm}"
      using nt y5 [THEN spec, of tab] ft(8) [of tab] by (cases "tbl_find (tables (cdb x)) tab") auto
  qed (use nt that in auto)
  show "contents y n = (if n = ?nm then tbl_put pk ?r (contents x n) else contents x n)"
  proof (cases "n = ?nm")
    case True
    then show ?thesis
      using nt old rows_of_put [OF ctx_wfD(1) [OF wf] y(3), of tab] find_table_names [OF y(1), of "receiver x" scope table tab]
      by (simp add: contents_def [of y])
  qed (use other in simp)
  show "db_get_i64 iter (length buffer) y = Inr (int (length buffer), buffer)"
    using db_wfD(2) [OF ctx_wfD(1) [OF wf]] by (simp add: db_get_i64_def y(2,3) deref_row_def tbl_simps)
qed

text \<open>The row that an iterator stands for: its table, its key and itself.\<close>

definition at_row :: "apply_context \<Rightarrow> int \<Rightarrow> account_name \<times> 64 word \<times> 64 word \<Rightarrow> 64 word \<Rightarrow> bool" where
  "at_row x iter n pk \<longleftrightarrow> (\<exists>t. cache_get (caches x Keyval) iter = Inr (t, pk) \<and> find_table x (fst n) (fst (snd n)) (snd (snd n)) = Some t)"

lemma update_contents:
  assumes wf: "ctx_wf x" and b: "int (length buffer) < 2 ^ 32" and s: "db_update_i64 iter payer buffer x = Inr y"
    and a: "at_row x iter n0 pk"
  shows "fst n0 = receiver x" "\<exists>old. tbl_find (contents x n0) pk = Some old \<and>
     (\<forall>n. contents y n = (if n = n0 then tbl_put pk \<lparr>row_payer = (if payer = 0 then row_payer old else payer), row_content = Value buffer\<rparr> (contents x n) else contents x n))"
proof -
  obtain tab where g: "cache_get (caches x Keyval) iter = Inr (tab, pk)" and ft: "find_table x (fst n0) (fst (snd n0)) (snd (snd n0)) = Some tab"
    using a by (auto simp: at_row_def)
  obtain p obj t where o: "own_object Keyval iter x = Inr (p, obj, t)" and y: "ctx_wf y" "tables (cdb y) = tables (cdb x)"
    "rows (cdb y) = tbl_put (Keyval, p) \<lparr>row_payer = (if payer = 0 then row_payer obj else payer), row_content = Value buffer\<rparr> (rows (cdb x))"
    by (rule db_update_spec [OF wf b s])
  note oo = own_object_Inr [OF o]
  have p: "p = (tab, pk)" using oo(1) g by simp
  have nm: "table_name t = n0" using ft oo(3) by (simp add: find_table_names [OF wf] p)
  then show "fst n0 = receiver x" using oo(4) by (auto simp: table_name_def)
  have r: "tbl_find (contents x n0) pk = Some obj"
    using oo(2) ft by (simp add: contents_def rows_of_find [OF ctx_wfD(1) [OF wf]] p)
  have sf: "find_table y a b c = find_table x a b c" for a b c by (simp add: find_table_def y(2))
  have "contents y n = (if n = n0 then tbl_put pk \<lparr>row_payer = (if payer = 0 then row_payer obj else payer), row_content = Value buffer\<rparr> (contents x n) else contents x n)" for n
  proof (cases "n = n0")
    case True
    then show ?thesis using ft rows_of_put [OF ctx_wfD(1) [OF wf], of "cdb y" tab pk] y(3) by (simp add: contents_def sf p)
  next
    case False
    have "j \<noteq> tab" if "find_table x (fst n) (fst (snd n)) (snd (snd n)) = Some j" for j
      using that ft False by (auto simp: find_table_names [OF wf])
    then show ?thesis using False rows_of_put [OF ctx_wfD(1) [OF wf], of "cdb y" tab pk] y(3)
      by (auto simp: contents_def sf p split: option.splits)
  qed
  then show "\<exists>old. tbl_find (contents x n0) pk = Some old \<and>
     (\<forall>n. contents y n = (if n = n0 then tbl_put pk \<lparr>row_payer = (if payer = 0 then row_payer old else payer), row_content = Value buffer\<rparr> (contents x n) else contents x n))"
    using r by auto
qed

lemma remove_contents:
  assumes wf: "ctx_wf x" and s: "db_remove_i64 iter x = Inr y" and a: "at_row x iter n0 pk"
  shows "fst n0 = receiver x" "tbl_find (contents x n0) pk \<noteq> None" "contents y n = (if n = n0 then tbl_del pk (contents x n) else contents x n)"
proof -
  obtain tab where g: "cache_get (caches x Keyval) iter = Inr (tab, pk)" and ft: "find_table x (fst n0) (fst (snd n0)) (snd (snd n0)) = Some tab"
    using a by (auto simp: at_row_def)
  obtain p obj t x1 where o: "own_object Keyval iter x = Inr (p, obj, t)"
    and u: "update_db_usage (row_payer obj) (- row_size (Keyval, p) obj) x = Inr x1" "drop_row Keyval iter p x1 = Inr y"
    by (rule db_remove_spec [OF wf s])
  note oo = own_object_Inr [OF o]
  note rr = remove_row_spec [OF wf oo(1,2) u]
  have p: "p = (tab, pk)" using oo(1) g by simp
  have nm: "table_name t = n0" using ft oo(3) by (simp add: find_table_names [OF wf] p)
  then show "fst n0 = receiver x" using oo(4) by (auto simp: table_name_def)
  show "tbl_find (contents x n0) pk \<noteq> None"
    using oo(2) ft by (simp add: contents_def rows_of_find [OF ctx_wfD(1) [OF wf]] p)
  have ro: "rows_of j (cdb y) = (if j = tab then tbl_del pk (rows_of tab (cdb x)) else rows_of j (cdb x))" for j
    by (rule rows_of_del [OF ctx_wfD(1) [OF wf]]) (simp add: rr(4) p)
  have names: "map_option table_name (tbl_find (tables (cdb y)) tab) \<in> {None, Some n0}"
    using rr(6,7) oo(3) nm by (cases "rows_in tab (cdb x) = 1") (auto simp: p)
  show "contents y n = (if n = n0 then tbl_del pk (contents x n) else contents x n)"
  proof (cases "n = n0")
    case True
    show ?thesis
    proof (cases "find_table y (fst n0) (fst (snd n0)) (snd (snd n0))")
      case None
      then have "tbl_find (tables (cdb y)) tab = None"
        using names find_table_names [OF rr(1), of "fst n0" "fst (snd n0)" "snd (snd n0)" tab] by auto
      then have "rows_of tab (cdb y) = []" by (rule rows_of_no_table [OF ctx_wfD(1) [OF rr(1)]])
      then show ?thesis using True None ft ro [of tab] by (simp add: contents_def)
    next
      case (Some j)
      have "j = tab"
      proof (rule ccontr)
        assume "j \<noteq> tab"
        then have "tbl_find (tables (cdb y)) j = tbl_find (tables (cdb x)) j" using rr(5) by (simp add: p)
        then have "find_table x (fst n0) (fst (snd n0)) (snd (snd n0)) = Some j"
          using Some by (simp add: find_table_names wf rr(1))
        then show False using ft \<open>j \<noteq> tab\<close> by simp
      qed
      then show ?thesis using True Some ft ro [of tab] by (simp add: contents_def)
    qed
  next
    case False
    have "contents y n = contents x n"
    proof (rule contents_names [OF wf rr(1), where i = tab and nm = n0])
      show "map_option table_name (tbl_find (tables (cdb x)) tab) \<in> {None, Some n0}" using oo(3) nm by (simp add: p)
    qed (use rr(5) ro names False in \<open>auto simp: p\<close>)
    then show ?thesis using False by simp
  qed
qed

text \<open>Within one table the ordered index is the list of its primary keys.\<close>

lemma find_in_table:
  assumes "sorted_wrt (<) (xs :: (int \<times> 64 word) list)" "\<And>q. R q \<longleftrightarrow> t < fst q \<or> t = fst q \<and> S (snd q)"
  shows "(case find R xs of Some p \<Rightarrow> if fst p = t then Some p else None | None \<Rightarrow> None) =
     map_option (Pair t) (find S (map snd (filter (\<lambda>q. fst q = t) xs)))"
  using assms(1)
proof (induction xs)
  case (Cons q xs)
  show ?case
  proof (cases "R q")
    case False
    then show ?thesis using Cons assms(2) by auto
  next
    case True
    show ?thesis
    proof (cases "fst q = t")
      case True
      then show ?thesis using assms(2) [of q] \<open>R q\<close> by (cases q) auto
    next
      case False
      then have "t < fst q" using \<open>R q\<close> assms(2) by auto
      then have "filter (\<lambda>q. fst q = t) xs = []" using Cons(2) by (fastforce simp: filter_empty_conv less_prod_def)
      then show ?thesis using False \<open>R q\<close> by simp
    qed
  qed
qed simp

lemma primary_index_scope: "primary_index k d = map fst (tbl_scope k (rows d))"
  by (simp add: primary_index_def tbl_scope_def case_prod_unfold comp_def)

lemma primary_index_sorted: "db_wf d \<Longrightarrow> sorted_wrt (<) (primary_index k d)"
  using tbl_ok_scope [OF db_wfD(2), of d k] by (simp add: primary_index_scope tbl_ok_def)

lemma primary_index_table: "map snd (filter (\<lambda>q. fst q = t) (primary_index Keyval d)) = map fst (rows_of t d)"
  by (simp add: primary_index_scope rows_of_def tbl_scope_def [of t] filter_map o_def case_prod_unfold)

lemma next_hit:
  assumes "db_wf d"
  shows "(case find (\<lambda>q. (t, pk) < q) (primary_index Keyval d) of Some p \<Rightarrow> if fst p = t then Some p else None | None \<Rightarrow> None) =
     map_option (Pair t) (find (\<lambda>j. pk < j) (map fst (rows_of t d)))"
    and "(case find (\<lambda>q. (t, pk) \<le> q) (primary_index Keyval d) of Some p \<Rightarrow> if fst p = t then Some p else None | None \<Rightarrow> None) =
     map_option (Pair t) (find (\<lambda>j. pk \<le> j) (map fst (rows_of t d)))"
  unfolding primary_index_table [symmetric]
  by (rule find_in_table [OF primary_index_sorted [OF assms]], auto simp: less_prod_def less_eq_prod_def)+

lemma contents_same_data: "same_data x y \<Longrightarrow> contents y n = contents x n"
  by (auto simp: same_data_def contents_def find_table_def split: option.splits)

lemma at_row_found: "at_row x iter n pk \<Longrightarrow> ctx_wf x \<Longrightarrow> \<exists>r. tbl_find (contents x n) pk = Some r"
  using cache_get_row(1) [OF ctx_wfD(3)] rows_of_find [OF ctx_wfD(1)] by (fastforce simp: at_row_def contents_def)

text \<open>Where \<open>db_lowerbound_i64\<close>, \<open>db_find_i64\<close> and \<open>db_next_i64\<close> arrive.\<close>

lemma lowerbound_spec:
  assumes wf: "ctx_wf x" and s: "db_lowerbound_i64 c sc t pk x = Inr (iter, y)"
  shows "ctx_wf y" "same_data x y"
    and "case find (\<lambda>j. pk \<le> j) (map fst (contents x (c, sc, t))) of None \<Rightarrow> iter < 0 | Some j \<Rightarrow> at_row y iter (c, sc, t) j"
proof -
  obtain res where r: "lookup_in Keyval c sc t (\<lambda>d t. find (\<lambda>q. (t, pk) \<le> q) (primary_index Keyval d)) x = Inr ((iter, res), y)"
    using s by (auto simp: db_lowerbound_i64_def lowerbound_primary_def bnd_Inr)
  have h: "\<exists>r. tbl_find (rows (cdb x)) (Keyval, p) = Some r" if "find (\<lambda>q. (t, pk) \<le> q) (primary_index Keyval (cdb x)) = Some p" for t p
    using bound_hits(1) [OF ctx_wfD(1) [OF wf] that] .
  note l = lookup_in_spec [OF wf h r]
  show "ctx_wf y" "same_data x y" using l(1,2) by simp_all
  have sf: "find_table y c sc t = find_table x c sc t" using l(2) by (simp add: same_data_def find_table_def)
  show "case find (\<lambda>j. pk \<le> j) (map fst (contents x (c, sc, t))) of None \<Rightarrow> iter < 0 | Some j \<Rightarrow> at_row y iter (c, sc, t) j"
  proof (cases "find_table x c sc t")
    case None
    then show ?thesis using l(4,5) by (simp add: contents_def)
  next
    case (Some i)
    have res: "res = map_option (Pair i) (find (\<lambda>j. pk \<le> j) (map fst (contents x (c, sc, t))))"
      using l(6) [OF _ Some] next_hit(2) [OF ctx_wfD(1) [OF wf]] Some by (simp add: contents_def)
    show ?thesis
    proof (cases "find (\<lambda>j. pk \<le> j) (map fst (contents x (c, sc, t)))")
      case None
      then have "res = None" using res by simp
      then show ?thesis using l(4) None by simp
    next
      case j: (Some j)
      then show ?thesis using l(3) [where p = "(i, j)"] res Some sf by (auto simp: at_row_def)
    qed
  qed
qed


lemma find_spec:
  assumes wf: "ctx_wf x" and s: "db_find_i64 c sc t pk x = Inr (iter, y)"
  shows "ctx_wf y" "same_data x y"
    and "if tbl_find (contents x (c, sc, t)) pk = None then iter < 0 else at_row y iter (c, sc, t) pk"
proof -
  obtain res where r: "lookup_in Keyval c sc t (\<lambda>d t. if tbl_find (rows d) (Keyval, t, pk) = None then None else Some (t, pk)) x = Inr ((iter, res), y)"
    using s by (auto simp: db_find_i64_def find_primary_def bnd_Inr)
  have h: "\<exists>r. tbl_find (rows (cdb x)) (Keyval, p) = Some r" if "(if tbl_find (rows (cdb x)) (Keyval, t, pk) = None then None else Some (t, pk)) = Some p" for t p
    using that by (auto split: if_splits)
  note l = lookup_in_spec [OF wf h r]
  show "ctx_wf y" "same_data x y" using l(1,2) by simp_all
  have sf: "find_table y c sc t = find_table x c sc t" using l(2) by (simp add: same_data_def find_table_def)
  show "if tbl_find (contents x (c, sc, t)) pk = None then iter < 0 else at_row y iter (c, sc, t) pk"
  proof (cases "find_table x c sc t")
    case None
    then show ?thesis using l(4,5) by (simp add: contents_def tbl_simps)
  next
    case (Some i)
    have "res = (if tbl_find (contents x (c, sc, t)) pk = None then None else Some (i, pk))"
      using l(6) [OF _ Some] Some by (simp add: contents_def rows_of_find [OF ctx_wfD(1) [OF wf]])
    then show ?thesis using l(3) [where p = "(i, pk)"] l(4) sf Some by (auto simp: at_row_def split: if_splits)
  qed
qed

lemma next_spec:
  assumes wf: "ctx_wf x" and a: "at_row x iter n pk" and s: "db_next_i64 iter x = Inr ((iter', pk'), y)"
  shows "ctx_wf y" "same_data x y" "pk' = find (\<lambda>j. pk < j) (map fst (contents x n))"
    and "case pk' of None \<Rightarrow> iter' < 0 | Some j \<Rightarrow> at_row y iter' n j"
proof -
  obtain t where g: "cache_get (caches x Keyval) iter = Inr (t, pk)" and ft: "find_table x (fst n) (fst (snd n)) (snd (snd n)) = Some t"
    using a by (auto simp: at_row_def)
  have i: "\<not> iter < -1" using g by (auto simp: cache_get_Inr)
  obtain ei where ei: "tbl_find (table_cache (caches x Keyval)) t = Some ei" using cached_object [OF wf g] by auto
  obtain p where r: "step_to Keyval t (find (\<lambda>q. (t, pk) < q) (primary_index Keyval (cdb x)))
      (\<lambda>x. get_end_iterator_by_table_id (caches x Keyval) t) x = Inr ((iter', p), y)" and pk': "pk' = map_option snd p"
    using s i g by (auto simp: db_next_i64_def primary_result_def next_primary_def bnd_Inr)
  note l = step_to_spec [OF wf ei bound_hits(1) [OF ctx_wfD(1) [OF wf]] r]
  show "ctx_wf y" "same_data x y" by (rule l(1), assumption, rule l(2), assumption)
  have p: "p = map_option (Pair t) (find (\<lambda>j. pk < j) (map fst (contents x n)))"
    using l(3) next_hit(1) [OF ctx_wfD(1) [OF wf], of t pk] ft by (simp add: contents_def)
  then show "pk' = find (\<lambda>j. pk < j) (map fst (contents x n))" by (simp add: pk' option.map_comp o_def option.map_ident)
  have sf: "find_table y a b c = find_table x a b c" for a b c using l(2) by (simp add: same_data_def find_table_def)
  show "case pk' of None \<Rightarrow> iter' < 0 | Some j \<Rightarrow> at_row y iter' n j"
  proof (cases p)
    case None
    then have "iter' = ei" using l(5) ei by (simp add: get_end_iterator_by_table_id_def)
    then show ?thesis using None cache_wfD(8) [OF ctx_wfD(3) [OF wf] ei] by (simp add: pk')
  next
    case (Some q)
    then obtain j where "q = (t, j)" using p by auto
    then show ?thesis using l(4) [where p = q] Some ft sf by (simp add: pk' at_row_def)
  qed
qed


subsection \<open>Iterating over a table\<close>

text \<open>The loop of a contract that reads a table: at most \<open>n\<close> rows from an iterator on.\<close>

fun db_scan :: "nat \<Rightarrow> nat \<Rightarrow> int \<Rightarrow> apply_context \<Rightarrow> db_error + 8 word list list \<times> apply_context" where
  "db_scan 0 buf iter x = Inr ([], x)"
| "db_scan (Suc n) buf iter x =
     (if iter < 0 then Inr ([], x)
      else bnd (db_get_i64 iter buf x) (\<lambda>(_, v).
        bnd (db_next_i64 iter x) (\<lambda>((iter', _), x').
        bnd (db_scan n buf iter' x') (\<lambda>(vs, y). Inr (v # vs, y)))))"

definition row_value :: "row_object \<Rightarrow> 8 word list" where
  "row_value r = (case row_content r of Value v \<Rightarrow> v | Secondary _ \<Rightarrow> [])"

lemma find_next_key:
  assumes "sorted_wrt (<) (ks :: 64 word list)" "ks = as @ k # bs"
  shows "find (\<lambda>j. k < j) ks = (case bs of [] \<Rightarrow> None | b # _ \<Rightarrow> Some b)"
proof -
  have "\<forall>a \<in> set as. \<not> k < a" using assms by (auto simp: sorted_wrt_append)
  then have "find (\<lambda>j. k < j) (as @ [k] @ bs) = find (\<lambda>j. k < j) bs"
    by (induction as) auto
  then show ?thesis using assms by (cases bs) (auto simp: sorted_wrt_append)
qed

lemma db_get_at_row:
  assumes wf: "ctx_wf x" and a: "at_row x iter n pk" and r: "tbl_find (contents x n) pk = Some r" and s: "0 < buf" "length (row_value r) \<le> buf"
  shows "db_get_i64 iter buf x = Inr (int (length (row_value r)), row_value r)"
proof -
  obtain t where t: "cache_get (caches x Keyval) iter = Inr (t, pk)" "find_table x (fst n) (fst (snd n)) (snd (snd n)) = Some t"
    using a by (auto simp: at_row_def)
  then have "tbl_find (rows (cdb x)) (Keyval, t, pk) = Some r" using r rows_of_find [OF ctx_wfD(1) [OF wf]] by (simp add: contents_def)
  then show ?thesis using t s by (simp add: db_get_i64_def deref_row_def row_value_def Let_def min_def split: content.splits)
qed

lemma db_next_total:
  assumes wf: "ctx_wf x" and a: "at_row x iter n pk"
  obtains iter' pk' y where "db_next_i64 iter x = Inr ((iter', pk'), y)"
proof -
  obtain t where g: "cache_get (caches x Keyval) iter = Inr (t, pk)" using a by (auto simp: at_row_def)
  obtain obj u ei where o: "tbl_find (rows (cdb x)) (Keyval, t, pk) = Some obj" "tbl_find (table_cache (caches x Keyval)) t = Some ei"
    using cached_object [OF wf g] by (metis fst_conv)
  have i: "\<not> iter < -1" using g by (auto simp: cache_get_Inr)
  have "\<exists>r y. db_next_i64 iter x = Inr (r, y)"
    using i g o by (auto simp: db_next_i64_def primary_result_def next_primary_def deref_row_def step_to_def get_end_iterator_by_table_id_def
        split: option.splits prod.splits)
  then show thesis using that by (metis prod.exhaust)
qed

lemma db_scan_from:
  assumes "ctx_wf x" "contents x n = as @ (pk, r) # bs" "at_row x iter n pk" "length bs < m"
    "0 < buf" "\<forall>q \<in> set (contents x n). length (row_value (snd q)) \<le> buf"
  shows "\<exists>y. db_scan m buf iter x = Inr (map (row_value \<circ> snd) ((pk, r) # bs), y) \<and> same_data x y \<and> ctx_wf y"
  using assms
proof (induction bs arbitrary: m x iter pk r as)
  case Nil
  then obtain m' where m: "m = Suc m'" by (cases m) auto
  have ok: "tbl_ok (contents x n)" using rows_of_ok [OF ctx_wfD(1) [OF Nil(1)]] by (simp add: contents_def split: option.split)
  have f: "tbl_find (contents x n) pk = Some r" using tbl_rows_find [OF ok, of pk r] Nil(2) by simp
  have "length (row_value r) \<le> buf" using Nil(2,6) by simp
  note gt = db_get_at_row [OF Nil(1,3) f Nil(5) this]
  obtain iter' pk' y where nx: "db_next_i64 iter x = Inr ((iter', pk'), y)" by (rule db_next_total [OF Nil(1,3)])
  note ns = next_spec [OF Nil(1,3) nx]
  have "pk' = None" using ns(3) find_next_key [of "map fst (contents x n)" "map fst as" pk "[]"] ok Nil(2) by (simp add: tbl_ok_def)
  then have "iter' < 0" using ns(4) by simp
  moreover have "0 \<le> iter" using Nil(3) by (auto simp: at_row_def cache_get_Inr)
  ultimately show ?case using gt nx ns(1,2) Nil(2) by (cases m') (auto simp: m)
next
  case (Cons b bs)
  then obtain m' where m: "m = Suc m'" by (cases m) auto
  obtain bk br where b: "b = (bk, br)" by (rule prod.exhaust)
  have ok: "tbl_ok (contents x n)" using rows_of_ok [OF ctx_wfD(1) [OF Cons(2)]] by (simp add: contents_def split: option.split)
  have f: "tbl_find (contents x n) pk = Some r" using tbl_rows_find [OF ok, of pk r] Cons(3) by simp
  have "length (row_value r) \<le> buf" using Cons(3,7) by simp
  note gt = db_get_at_row [OF Cons(2,4) f Cons(6) this]
  obtain iter' pk' y where nx: "db_next_i64 iter x = Inr ((iter', pk'), y)" by (rule db_next_total [OF Cons(2,4)])
  note ns = next_spec [OF Cons(2,4) nx]
  have "pk' = Some bk" using ns(3) find_next_key [of "map fst (contents x n)" "map fst as" pk "map fst (b # bs)"] ok Cons(3) by (simp add: tbl_ok_def b)
  then have a: "at_row y iter' n bk" using ns(4) by simp
  have c: "contents y n = contents x n" by (rule contents_same_data [OF ns(2)])
  have cy: "contents y n = (as @ [(pk, r)]) @ (bk, br) # bs" using Cons(3) by (simp add: c b)
  have sz: "\<forall>q \<in> set (contents y n). length (row_value (snd q)) \<le> buf" using Cons(7) by (simp add: c)
  obtain z where z: "db_scan m' buf iter' y = Inr (map (row_value \<circ> snd) ((bk, br) # bs), z)" "same_data y z" "ctx_wf z"
    using Cons.IH [OF ns(1) cy a _ Cons(6) sz, of m'] Cons(5) by (auto simp: m)
  have "0 \<le> iter" using Cons(4) by (auto simp: at_row_def cache_get_Inr)
  then show ?case using gt nx z same_data_trans [OF ns(2) z(2)] by (auto simp: m b)
qed

interpretation db_run: action_system db_step "\<lambda>y. keeps x y" call_ok for x
proof unfold_locales
  fix y a z assume "keeps x y" "call_ok a" "db_step a y = Inr z"
  then show "keeps x z" using db_step_keeps [of y a z] moved_trans by (auto simp: keeps_def)
qed

text \<open>An account with one table holding one row, which its contract reads, removes and looks at again.\<close>

definition demo_ctx :: apply_context where
  "demo_ctx = \<lparr>receiver = 1, act_code = 1, act_auth = [(1, 1)], privileged = False, ram_billing_in_notify_allowed = True,
     caches = (\<lambda>_. new_cache), account_ram_deltas = [], cdb = \<lparr>tables = [], next_table_id = 0, rows = [], capacity = 100\<rparr>,
     rl = initialize_database\<lparr>usage := [(1, new_usage)]\<rparr>, validate_ram_usage = []\<rparr>"

definition demo_calls :: "db_call list" where
  "demo_calls = [Store 5 6 1 7 [10, 20], Idx_store Index64 5 6 1 7 99, Update 0 0 [10, 20, 30], End 1 5 6, Store 5 6 1 3 [40], Remove 0]"

lemma demo_ctx_wf: "ctx_wf demo_ctx"
proof -
  have "db_wf (cdb demo_ctx)" by (rule db_wfI) (auto simp: demo_ctx_def tbl_simps)
  moreover have "rl_ok (rl demo_ctx)" by (auto simp: demo_ctx_def rl_ok_def tbl_ok_def tbl_find_def new_usage_def UINT64_MAX_def split: if_splits)
  ultimately show ?thesis using new_cache_wf by (simp add: ctx_wf_def demo_ctx_def)
qed

text \<open>Contracts pay exactly for the RAM they use. After any sequence of database calls of an action, with the change of the
  running code between notifications, every table counts its rows, the cache only knows live rows, and the RAM usage of
  every account has changed by exactly the billable bytes of the tables and rows it gained or lost as their payer.\<close>

theorem db_ram_exact:
  assumes "ctx_wf x" "list_all call_ok cs" "y = run_actions db_step cs x"
  shows "ctx_wf y \<and> (\<forall>a. ram_of (rl y) a - ram_of (rl x) a = held a (cdb y) - held a (cdb x))"
proof -
  have "keeps x y" using db_run.run_inv [of x x cs] assms by (simp add: keeps_def moved_def)
  then show ?thesis by (auto simp: keeps_def moved_def algebra_simps)
qed

theorem db_ram_exact_witness:
  "ram_of (rl (run_actions db_step demo_calls demo_ctx)) 1 = 112 + (112 + 1) + 128 \<and>
   held 1 (cdb (run_actions db_step demo_calls demo_ctx)) = 112 + (112 + 1) + 128"
proof -
  have ok: "list_all call_ok demo_calls" by code_simp
  have r: "ram_of (rl (run_actions db_step demo_calls demo_ctx)) 1 = 353" by code_simp
  have z: "ram_of (rl demo_ctx) 1 = 0" "held 1 (cdb demo_ctx) = 0" by (simp_all add: demo_ctx_def ram_of_def tbl_find_def new_usage_def held_def tbl_simps)
  show ?thesis using db_ram_exact [OF demo_ctx_wf ok refl, THEN conjunct2, THEN spec, of 1] r z by simp
qed

text \<open>C38. The assertion \<open>an invariant was broken, table should be in cache\<close> never fails, and no call follows a pointer to
  a removed object, with one exception: a call for the object before an end iterator whose table has been removed. The
  cache keeps the pointer to the removed \<open>table_id_object\<close>, and \<open>db_previous_i64\<close>, \<open>previous_secondary\<close> and
  \<open>previous_primary\<close> read its identifier. A contract reaches it by erasing the only row of a table and then stepping back
  from its end iterator.\<close>

theorem db_no_broken_invariant:
  assumes "ctx_wf x" "list_all call_ok cs" "call_ok c" "y = run_actions db_step cs x"
  shows "db_step c y \<noteq> Inl Table_not_in_cache \<and> (db_step c y = Inl Dangling_pointer \<longleftrightarrow> stale_call c y)"
proof -
  have wf: "ctx_wf y" using db_run.run_inv [of x x cs] assms by (simp add: keeps_def moved_def)
  show ?thesis
  proof (cases "stale_call c y")
    case True
    then show ?thesis using db_step_stale by simp
  next
    case False
    then show ?thesis using db_step_safe [OF wf assms(3) False] by (auto simp: safe_def internal_def)
  qed
qed

theorem db_no_broken_invariant_witness:
  "db_step (Previous (-2)) (run_actions db_step [Store 5 6 1 7 [10, 20], End 1 5 6, Remove 0] demo_ctx) = Inl Dangling_pointer \<and>
   db_step (Previous (-2)) (run_actions db_step [Store 5 6 1 7 [10, 20], End 1 5 6] demo_ctx) \<noteq> Inl Dangling_pointer"
proof -
  have ok: "list_all call_ok [Store 5 6 1 7 [10, 20], End 1 5 6, Remove 0]" "list_all call_ok [Store 5 6 1 7 [10, 20], End 1 5 6]"
    "call_ok (Previous (-2))" by simp_all
  have s: "stale_call (Previous (-2)) (run_actions db_step [Store 5 6 1 7 [10, 20], End 1 5 6, Remove 0] demo_ctx)"
    "\<not> stale_call (Previous (-2)) (run_actions db_step [Store 5 6 1 7 [10, 20], End 1 5 6] demo_ctx)"
    by code_simp+
  show ?thesis
    using db_no_broken_invariant [OF demo_ctx_wf ok(1,3) refl] db_no_broken_invariant [OF demo_ctx_wf ok(2,3) refl] s by simp
qed

text \<open>C12. The database calls implement the tables of the contract models: storing a row is an insertion of a new key into the
  table of the running code, updating replaces the row of the iterator, removing deletes it (also when the table goes with
  it), each leaves every other table of every contract as it was, a contract can only change its own tables, and a
  lookup gives an iterator to the row exactly when the table has the key.\<close>

theorem db_refines_tables:
  assumes "ctx_wf x"
  shows "(\<forall>scope table payer pk buffer iter y. db_store_i64 scope table payer pk buffer x = Inr (iter, y) \<and> int (length buffer) < 2 ^ 32 \<longrightarrow>
      tbl_find (contents x (receiver x, scope, table)) pk = None \<and>
      contents y = (contents x)((receiver x, scope, table) :=
        tbl_put pk \<lparr>row_payer = payer, row_content = Value buffer\<rparr> (contents x (receiver x, scope, table)))) \<and>
    (\<forall>iter n pk payer buffer y. at_row x iter n pk \<and> db_update_i64 iter payer buffer x = Inr y \<and> int (length buffer) < 2 ^ 32 \<longrightarrow>
      fst n = receiver x \<and> (\<exists>old. tbl_find (contents x n) pk = Some old \<and>
      contents y = (contents x)(n :=
        tbl_put pk \<lparr>row_payer = (if payer = 0 then row_payer old else payer), row_content = Value buffer\<rparr> (contents x n)))) \<and>
    (\<forall>iter n pk y. at_row x iter n pk \<and> db_remove_i64 iter x = Inr y \<longrightarrow>
      fst n = receiver x \<and> tbl_find (contents x n) pk \<noteq> None \<and> contents y = (contents x)(n := tbl_del pk (contents x n))) \<and>
    (\<forall>c s t pk iter y. db_find_i64 c s t pk x = Inr (iter, y) \<longrightarrow> contents y = contents x \<and>
      (if tbl_find (contents x (c, s, t)) pk = None then iter < 0 else at_row y iter (c, s, t) pk))"
proof (intro conjI allI impI; (elim conjE)?)
  fix scope table payer pk buffer iter y
  assume s: "db_store_i64 scope table payer pk buffer x = Inr (iter, y)" "int (length buffer) < 2 ^ 32"
  show "tbl_find (contents x (receiver x, scope, table)) pk = None" by (rule store_contents(1) [OF assms s(2,1)])
  show "contents y = (contents x)((receiver x, scope, table) :=
        tbl_put pk \<lparr>row_payer = payer, row_content = Value buffer\<rparr> (contents x (receiver x, scope, table)))"
    using store_contents(2) [OF assms s(2,1)] by auto
next
  fix iter n pk payer buffer y
  assume u: "at_row x iter n pk" "db_update_i64 iter payer buffer x = Inr y" "int (length buffer) < 2 ^ 32"
  show "fst n = receiver x" by (rule update_contents(1) [OF assms u(3,2,1)])
  show "\<exists>old. tbl_find (contents x n) pk = Some old \<and> contents y = (contents x)(n :=
        tbl_put pk \<lparr>row_payer = (if payer = 0 then row_payer old else payer), row_content = Value buffer\<rparr> (contents x n))"
    using update_contents(2) [OF assms u(3,2,1)] by (auto simp: fun_eq_iff)
next
  fix iter n pk y assume r: "at_row x iter n pk" "db_remove_i64 iter x = Inr y"
  show "fst n = receiver x" "tbl_find (contents x n) pk \<noteq> None" "contents y = (contents x)(n := tbl_del pk (contents x n))"
    using remove_contents [OF assms r(2,1)] by (auto simp: fun_eq_iff)
next
  fix c s t pk iter y assume f: "db_find_i64 c s t pk x = Inr (iter, y)"
  show "contents y = contents x" using contents_same_data [OF find_spec(2) [OF assms f]] by auto
  show "if tbl_find (contents x (c, s, t)) pk = None then iter < 0 else at_row y iter (c, s, t) pk"
    using find_spec(3) [OF assms f] .
qed

theorem db_refines_tables_witness:
  "\<exists>iter y. db_store_i64 5 6 1 7 [10, 20] demo_ctx = Inr (iter, y) \<and>
     contents y (1, 5, 6) = [(7, \<lparr>row_payer = 1, row_content = Value [10, 20]\<rparr>)]"
proof -
  have "\<not> isl (db_store_i64 5 6 1 7 [10, 20] demo_ctx)" by code_simp
  then obtain iter y where y: "db_store_i64 5 6 1 7 [10, 20] demo_ctx = Inr (iter, y)"
    by (cases "db_store_i64 5 6 1 7 [10, 20] demo_ctx") auto
  have "contents demo_ctx (1, 5, 6) = []" by code_simp
  moreover have "receiver demo_ctx = 1" by (simp add: demo_ctx_def)
  ultimately have "contents y (1, 5, 6) = [(7, \<lparr>row_payer = 1, row_content = Value [10, 20]\<rparr>)]"
    using db_refines_tables [OF demo_ctx_wf, THEN conjunct1, rule_format, of 5 6 1 7 "[10, 20]" iter y] y by simp
  then show ?thesis using y by blast
qed

text \<open>C39. The loop over a table from \<open>db_lowerbound_i64\<close> of the least key with \<open>db_next_i64\<close> ends and reads the value of
  every row exactly once, in the order of the primary keys, without changing any table.\<close>

theorem db_scan_complete:
  assumes "ctx_wf x" "db_lowerbound_i64 c s t 0 x = Inr (iter, y)" "length (contents x (c, s, t)) < m"
    "0 < buf" "\<forall>q \<in> set (contents x (c, s, t)). length (row_value (snd q)) \<le> buf"
  shows "\<exists>z. db_scan m buf iter y = Inr (map (row_value \<circ> snd) (contents x (c, s, t)), z) \<and> contents z = contents x"
proof -
  note l = lowerbound_spec [OF assms(1,2)]
  have c: "contents y n = contents x n" for n by (rule contents_same_data [OF l(2)])
  show ?thesis
  proof (cases "contents x (c, s, t)")
    case Nil
    then have "iter < 0" using l(3) by simp
    then show ?thesis using Nil c by (cases m) auto
  next
    case (Cons q qs)
    obtain pk r where q: "q = (pk, r)" by (rule prod.exhaust)
    have a: "at_row y iter (c, s, t) pk" using l(3) Cons by (simp add: q)
    have cy: "contents y (c, s, t) = [] @ (pk, r) # qs" by (simp add: c Cons q)
    have "length qs < m" using assms(3) by (simp add: Cons)
    from db_scan_from [OF l(1) cy a this assms(4)] assms(5) obtain z where
      z: "db_scan m buf iter y = Inr (map (row_value \<circ> snd) ((pk, r) # qs), z)" "same_data y z" by (auto simp: c)
    then show ?thesis using contents_same_data [OF z(2)] c by (auto simp: Cons q)
  qed
qed

theorem db_scan_complete_witness:
  "let x = run_actions db_step [Store 5 6 1 7 [10, 20], Store 5 6 1 3 [40], Store 5 9 1 4 [50]] demo_ctx in
   \<exists>iter y z. db_lowerbound_i64 1 5 6 0 x = Inr (iter, y) \<and> db_scan 3 8 iter y = Inr ([[40], [10, 20]], z)"
proof -
  let ?cs = "[Store 5 6 1 7 [10, 20], Store 5 6 1 3 [40], Store 5 9 1 4 [50]] :: db_call list"
  let ?x = "run_actions db_step ?cs demo_ctx"
  have "keeps demo_ctx ?x" using db_run.run_inv [of demo_ctx demo_ctx ?cs] demo_ctx_wf by (simp add: keeps_def moved_def)
  then have wf: "ctx_wf ?x" by (simp add: keeps_def)
  have ct: "contents ?x (1, 5, 6) = [(3, \<lparr>row_payer = 1, row_content = Value [40]\<rparr>), (7, \<lparr>row_payer = 1, row_content = Value [10, 20]\<rparr>)]" by code_simp
  have "\<not> isl (db_lowerbound_i64 1 5 6 0 ?x)" by code_simp
  then obtain iter y where y: "db_lowerbound_i64 1 5 6 0 ?x = Inr (iter, y)" by (cases "db_lowerbound_i64 1 5 6 0 ?x") auto
  show ?thesis
    using db_scan_complete [OF wf y, of 3 8] y by (auto simp: ct row_value_def Let_def)
qed

end
