(* ===== verification/Block_Header_State.thy ===== *)
theory Block_Header_State
  imports Names Multi_Index Merkle
begin

unbundle bit_operations_syntax

text \<open>
  Block headers and the header state (\<open>block_timestamp.hpp\<close>, \<open>block_header.cpp\<close>, \<open>producer_schedule.hpp\<close>,
  \<open>block_header_state.cpp\<close>): which producer is scheduled, how a header extends the chain, how confirmations make
  blocks irreversible, and how a new producer schedule takes effect.

  Hashing, signature recovery and the byte swap of the \<open>fc\<close> library are parameters, collected in \<open>crypto\<close>.
  Public keys and signatures are opaque numbers; 0 is the default-constructed key.
\<close>

subsection \<open>Time slots\<close>

definition block_interval_ms :: int where "block_interval_ms = 3000"
definition block_timestamp_epoch :: int where "block_timestamp_epoch = 946684800000"

text \<open>A \<open>block_timestamp\<close> is its slot; an \<open>fc::time_point\<close> counts microseconds.\<close>

definition slot_to_time_point :: "int \<Rightarrow> int" where
  "slot_to_time_point slot = s64 (s64 (u64 (s64 (slot * block_interval_ms) + block_timestamp_epoch)) * 1000)"

definition slot_of_time_point :: "int \<Rightarrow> int" where
  "slot_of_time_point t = u32 (u64 (tdiv t 1000 - block_timestamp_epoch) div block_interval_ms)"

definition slot_of_time_point_sec :: "int \<Rightarrow> int" where
  "slot_of_time_point_sec t = u32 (u64 (t * 1000 - block_timestamp_epoch) div block_interval_ms)"

definition slot_maximum :: int where "slot_maximum = 0xffff"

datatype block_error =
    Overflow_exception
  | Block_validate_exception
  | Unlinkable_block_exception
  | Wrong_producer
  | Producer_schedule_exception
  | Producer_double_confirm
  | Wrong_signing_key
  | Producer_not_in_schedule
  | Undefined_behaviour

definition slot_next :: "int \<Rightarrow> block_error + int" where
  "slot_next slot = chk (UINT32_MAX - slot \<ge> 1) Overflow_exception (Inr (u32 (slot + 1)))"

subsection \<open>Headers and schedules\<close>

type_synonym public_key = nat
type_synonym signature = nat

record producer_key =
  producer_name :: account_name
  key_of_producer :: public_key

record producer_schedule =
  sched_version :: int
  sched_producers :: "producer_key list"

definition get_producer_key :: "producer_schedule \<Rightarrow> account_name \<Rightarrow> public_key" where
  "get_producer_key s p =
     (case find (\<lambda>i. producer_name i = p) (sched_producers s) of None \<Rightarrow> 0 | Some i \<Rightarrow> key_of_producer i)"

record block_header =
  timestamp :: int
  producer :: account_name
  confirmed :: int
  previous :: digest
  transaction_mroot :: digest
  action_mroot :: digest
  schedule_version :: int
  new_producers :: "producer_schedule option"
  header_extensions :: nat
  producer_signature :: signature

record header_confirmation =
  conf_block_id :: digest
  conf_producer :: account_name
  conf_signature :: signature

text \<open>\<open>header_extensions\<close> is the number of extensions; \<open>hash_header\<close> hashes the header without its signature.\<close>

record crypto =
  hash_header :: "block_header \<Rightarrow> digest"
  hash_pair :: "digest \<times> digest \<Rightarrow> digest"
  hash_schedule :: "producer_schedule \<Rightarrow> digest"
  recover_key :: "signature \<Rightarrow> digest \<Rightarrow> public_key"
  endian_reverse_u32 :: "32 word \<Rightarrow> 32 word"

definition num_from_id :: "crypto \<Rightarrow> digest \<Rightarrow> 32 word" where
  "num_from_id c i = endian_reverse_u32 c (ucast (hash0 i))"

definition header_block_num :: "crypto \<Rightarrow> block_header \<Rightarrow> 32 word" where
  "header_block_num c h = num_from_id c (previous h) + 1"

definition header_id :: "crypto \<Rightarrow> block_header \<Rightarrow> digest" where
  "header_id c h =
     (case hash_header c h of Digest a b d e \<Rightarrow>
        Digest ((a AND 0xffffffff00000000) + ucast (endian_reverse_u32 c (header_block_num c h))) b d e)"

subsection \<open>The header state\<close>

record block_header_state =
  bhs_id :: digest
  bhs_block_num :: int
  bhs_header :: block_header
  dpos_proposed_irreversible_blocknum :: int
  dpos_irreversible_blocknum :: int
  bft_irreversible_blocknum :: int
  pending_schedule_lib_num :: int
  pending_schedule_hash :: digest
  pending_schedule :: producer_schedule
  active_schedule :: producer_schedule
  blockroot_merkle :: incremental_merkle
  producer_to_last_produced :: "(account_name, int) tbl"
  producer_to_last_implied_irb :: "(account_name, int) tbl"
  block_signing_key :: public_key
  confirm_count :: "int list"
  confirmations :: "header_confirmation list"

definition is_active_producer :: "block_header_state \<Rightarrow> account_name \<Rightarrow> bool" where
  "is_active_producer s n \<longleftrightarrow> tbl_find (producer_to_last_produced s) n \<noteq> None"

definition producer_repetitions :: nat where "producer_repetitions = 1"
definition maximum_tracked_dpos_confirmations :: nat where "maximum_tracked_dpos_confirmations = 1024"

text \<open>With no producers the modulus is zero, which C++ leaves undefined.\<close>

definition get_scheduled_producer :: "block_header_state \<Rightarrow> int \<Rightarrow> block_error + producer_key" where
  "get_scheduled_producer s slot =
     (let ps = sched_producers (active_schedule s) in
      chk (length ps * producer_repetitions \<noteq> 0) Undefined_behaviour
       (Inr (ps ! ((nat slot mod (length ps * producer_repetitions)) div producer_repetitions))))"

definition calc_dpos_last_irreversible :: "block_header_state \<Rightarrow> int" where
  "calc_dpos_last_irreversible s =
     (let blocknums = map snd (producer_to_last_implied_irb s) in
      if length blocknums = 0 then 0
      else sort blocknums ! ((length blocknums - 1) div 3))"

definition zero_header :: block_header where
  "zero_header = \<lparr>timestamp = 0, producer = 0, confirmed = 1, previous = zero_digest, transaction_mroot = zero_digest,
     action_mroot = zero_digest, schedule_version = 0, new_producers = None, header_extensions = 0, producer_signature = 0\<rparr>"

text \<open>The confirmation counts of the next block; at most 1024 blocks are tracked.\<close>

definition grow_confirm_count :: "int list \<Rightarrow> nat \<Rightarrow> int list" where
  "grow_confirm_count cc num_active =
     (let required_confs = u8 (u32 (int (num_active * 2 div 3) + 1)) in
      if length cc < maximum_tracked_dpos_confirmations then cc @ [required_confs]
      else tl cc @ [required_confs])"

definition generate_next :: "crypto \<Rightarrow> block_header_state \<Rightarrow> int \<Rightarrow> block_error + block_header_state" where
  "generate_next c s when =
     bnd (if when \<noteq> 0
          then chk (when > timestamp (bhs_header s)) Block_validate_exception (Inr when)
          else Inr (u32 (timestamp (bhs_header s) + 1))) (\<lambda>t.
     bnd (get_scheduled_producer s t) (\<lambda>prokey.
     need (merkle_append (hash_pair c) (blockroot_merkle s) (bhs_id s)) Undefined_behaviour (\<lambda>mroot.
     let num = u32 (bhs_block_num s + 1);
         irb = tbl_put (producer_name prokey) (dpos_proposed_irreversible_blocknum s) (producer_to_last_implied_irb s);
         result = \<lparr>bhs_id = zero_digest, bhs_block_num = num,
           bhs_header = zero_header\<lparr>timestamp := t, previous := bhs_id s,
             schedule_version := sched_version (active_schedule s), producer := producer_name prokey\<rparr>,
           dpos_proposed_irreversible_blocknum = dpos_proposed_irreversible_blocknum s,
           dpos_irreversible_blocknum = 0,
           bft_irreversible_blocknum = bft_irreversible_blocknum s,
           pending_schedule_lib_num = pending_schedule_lib_num s,
           pending_schedule_hash = pending_schedule_hash s,
           pending_schedule = pending_schedule s,
           active_schedule = active_schedule s,
           blockroot_merkle = mroot,
           producer_to_last_produced = tbl_put (producer_name prokey) num (producer_to_last_produced s),
           producer_to_last_implied_irb = irb,
           block_signing_key = key_of_producer prokey,
           confirm_count = grow_confirm_count (confirm_count s) (length (sched_producers (active_schedule s))),
           confirmations = []\<rparr>
     in Inr (result\<lparr>dpos_irreversible_blocknum := calc_dpos_last_irreversible result\<rparr>))))"

text \<open>The two loops of \<open>maybe_promote_pending\<close> that carry the counts of the new producers over.\<close>

definition promote_counts :: "producer_key list \<Rightarrow> int \<Rightarrow> (account_name, int) tbl \<Rightarrow> (account_name, int) tbl" where
  "promote_counts ps lib old =
     fold (\<lambda>p new. tbl_put (producer_name p)
             (case tbl_find old (producer_name p) of Some n \<Rightarrow> n | None \<Rightarrow> lib) new) ps []"

definition empty_schedule :: producer_schedule where
  "empty_schedule = \<lparr>sched_version = 0, sched_producers = []\<rparr>"

text \<open>The moved-from pending schedule keeps its version, and its producers are gone.\<close>

definition maybe_promote_pending :: "block_header_state \<Rightarrow> bool \<times> block_header_state" where
  "maybe_promote_pending s =
     (if sched_producers (pending_schedule s) \<noteq> [] \<and> dpos_irreversible_blocknum s \<ge> pending_schedule_lib_num s
      then (True, s\<lparr>
         active_schedule := pending_schedule s,
         pending_schedule := (pending_schedule s)\<lparr>sched_producers := []\<rparr>,
         producer_to_last_produced :=
           tbl_put (producer (bhs_header s)) (bhs_block_num s)
             (promote_counts (sched_producers (pending_schedule s)) (dpos_irreversible_blocknum s) (producer_to_last_produced s)),
         producer_to_last_implied_irb :=
           promote_counts (sched_producers (pending_schedule s)) (dpos_irreversible_blocknum s) (producer_to_last_implied_irb s)\<rparr>)
      else (False, s))"

definition set_new_producers :: "crypto \<Rightarrow> producer_schedule \<Rightarrow> block_header_state \<Rightarrow> block_error + block_header_state" where
  "set_new_producers c pending s =
     chk (sched_version pending = u32 (sched_version (active_schedule s) + 1)) Producer_schedule_exception
     (chk (sched_producers (pending_schedule s) = []) Producer_schedule_exception
       (Inr (s\<lparr>bhs_header := (bhs_header s)\<lparr>new_producers := Some pending\<rparr>,
               pending_schedule_hash := hash_schedule c pending,
               pending_schedule := pending,
               pending_schedule_lib_num := bhs_block_num s\<rparr>)))"

text \<open>The loop of \<open>set_confirmed\<close>, from the last index down. It returns the counts and the index whose count reached
  zero, if any; the counts up to that index are dropped.\<close>

fun confirm_loop :: "nat \<Rightarrow> nat \<Rightarrow> int list \<Rightarrow> int list \<times> nat option" where
  "confirm_loop 0 blocks_to_confirm cc = (cc, None)"
| "confirm_loop (Suc i) blocks_to_confirm cc =
     (if blocks_to_confirm = 0 then (cc, None)
      else let cc' = cc[i := u8 (cc ! i - 1)] in
        if cc' ! i = 0 then (drop (i + 1) cc', Some i)
        else confirm_loop i (blocks_to_confirm - 1) cc')"

definition set_confirmed :: "int \<Rightarrow> block_header_state \<Rightarrow> block_header_state" where
  "set_confirmed num_prev_blocks s =
     (let cc = confirm_count s;
          (cc', hit) = confirm_loop (length cc) (nat (num_prev_blocks + 1)) cc in
      s\<lparr>bhs_header := (bhs_header s)\<lparr>confirmed := num_prev_blocks\<rparr>,
        confirm_count := cc',
        dpos_proposed_irreversible_blocknum :=
          (case hit of None \<Rightarrow> dpos_proposed_irreversible_blocknum s
           | Some i \<Rightarrow> u32 (bhs_block_num s - int (length cc - 1 - i)))\<rparr>)"

subsection \<open>Signatures\<close>

definition sig_digest :: "crypto \<Rightarrow> block_header_state \<Rightarrow> digest" where
  "sig_digest c s =
     hash_pair c (hash_pair c (hash_header c (bhs_header s), get_root (blockroot_merkle s)), pending_schedule_hash s)"

definition signee :: "crypto \<Rightarrow> block_header_state \<Rightarrow> public_key" where
  "signee c s = recover_key c (producer_signature (bhs_header s)) (sig_digest c s)"

definition verify_signee :: "public_key \<Rightarrow> block_header_state \<Rightarrow> block_error + unit" where
  "verify_signee k s = chk (block_signing_key s = k) Wrong_signing_key (Inr ())"

definition sign_header :: "crypto \<Rightarrow> (digest \<Rightarrow> signature) \<Rightarrow> block_header_state \<Rightarrow> block_error + block_header_state" where
  "sign_header c signer s =
     (let d = sig_digest c s; sg = signer d in
      chk (block_signing_key s = recover_key c sg d) Wrong_signing_key
        (Inr (s\<lparr>bhs_header := (bhs_header s)\<lparr>producer_signature := sg\<rparr>\<rparr>)))"

definition add_confirmation :: "crypto \<Rightarrow> header_confirmation \<Rightarrow> block_header_state \<Rightarrow> block_error + block_header_state" where
  "add_confirmation c conf s =
     chk (list_all (\<lambda>x. conf_producer x \<noteq> conf_producer conf) (confirmations s)) Producer_double_confirm
      (let key = get_producer_key (active_schedule s) (conf_producer conf) in
       chk (key \<noteq> 0) Producer_not_in_schedule
        (chk (recover_key c (conf_signature conf) (sig_digest c s) = key) Wrong_signing_key
          (Inr (s\<lparr>confirmations := confirmations s @ [conf]\<rparr>))))"

subsection \<open>Extending the chain by a header\<close>

definition next_header_state :: "crypto \<Rightarrow> block_header_state \<Rightarrow> block_header \<Rightarrow> bool \<Rightarrow> block_error + block_header_state" where
  "next_header_state c s h skip_validate_signee =
     chk (timestamp h \<noteq> 0) Block_validate_exception
     (chk (header_extensions h = 0) Block_validate_exception
     (chk (timestamp h > timestamp (bhs_header s)) Block_validate_exception
     (chk (previous h = bhs_id s) Unlinkable_block_exception
     (bnd (generate_next c s (timestamp h)) (\<lambda>result.
      chk (producer (bhs_header result) = producer h) Wrong_producer
      (chk (schedule_version (bhs_header result) = schedule_version h) Producer_schedule_exception
      (chk (case tbl_find (producer_to_last_produced s) (producer h) of None \<Rightarrow> True
            | Some n \<Rightarrow> n < u32 (bhs_block_num result - confirmed h)) Producer_double_confirm
       (case maybe_promote_pending (set_confirmed (confirmed h) result) of (was_promoted, r1) \<Rightarrow>
         bnd (case new_producers h of None \<Rightarrow> Inr r1
              | Some np \<Rightarrow> chk (\<not> was_promoted) Producer_schedule_exception (set_new_producers c np r1)) (\<lambda>r2.
         let hdr = (bhs_header r2)\<lparr>action_mroot := action_mroot h, transaction_mroot := transaction_mroot h,
                      producer_signature := producer_signature h\<rparr>;
             r3 = r2\<lparr>bhs_header := hdr, bhs_id := header_id c hdr\<rparr> in
         bnd (if skip_validate_signee then Inr () else verify_signee (signee c r3) r3) (\<lambda>_. Inr r3))))))))))"

subsection \<open>Slots and order statistics\<close>

lemma sorted_nth_ge_iff:
  fixes ys :: "int list"
  assumes "sorted ys" and "k < length ys"
  shows "x \<le> ys ! k \<longleftrightarrow> length (filter (\<lambda>y. y < x) ys) \<le> k"
  using assms
proof (induction ys arbitrary: k)
  case (Cons y ys)
  show ?case
  proof (cases "y < x")
    case True
    then show ?thesis using Cons by (cases k) auto
  next
    case False
    then have "filter (\<lambda>z. z < x) ys = []" using Cons.prems by (auto simp: filter_empty_conv)
    moreover have "y \<le> (y # ys) ! k" using Cons.prems by (cases k) auto
    ultimately show ?thesis using False by simp
  qed
qed simp

lemma sort_nth_ge_iff:
  fixes xs :: "int list"
  assumes "k < length xs"
  shows "x \<le> sort xs ! k \<longleftrightarrow> length (filter (\<lambda>y. y < x) xs) \<le> k"
proof -
  have "length (filter (\<lambda>y. y < x) (sort xs)) = length (filter (\<lambda>y. y < x) xs)"
    by (metis filter_sort length_sort)
  then show ?thesis using assms sorted_nth_ge_iff[of "sort xs" k x] by simp
qed

lemma calc_dpos_ge_iff:
  assumes "producer_to_last_implied_irb s \<noteq> []"
  shows "x \<le> calc_dpos_last_irreversible s \<longleftrightarrow>
    2 * length (producer_to_last_implied_irb s)
      < 3 * length (filter (\<lambda>e. x \<le> snd e) (producer_to_last_implied_irb s))"
proof -
  let ?irb = "producer_to_last_implied_irb s"
  let ?xs = "map snd ?irb"
  have n: "length ?xs > 0" using assms by simp
  have "length (filter (\<lambda>y. y < x) ?xs) + length (filter (\<lambda>e. x \<le> snd e) ?irb) = length ?irb"
    using sum_length_filter_compl[of "\<lambda>y. y < x" ?xs]
    by (simp add: filter_map o_def not_less)
  moreover have "x \<le> calc_dpos_last_irreversible s \<longleftrightarrow> length (filter (\<lambda>y. y < x) ?xs) \<le> (length ?xs - 1) div 3"
    proof -
    have "(length ?xs - 1) div 3 < length ?xs" using n by linarith
    from sort_nth_ge_iff[OF this, of x] show ?thesis using n by (simp add: calc_dpos_last_irreversible_def Let_def)
  qed
  moreover have "a \<le> (m - 1) div 3 \<longleftrightarrow> 2 * m < 3 * b" if "a + b = m" "m > 0" for a b m :: nat
    using that by auto
  ultimately show ?thesis using n by (metis length_map)
qed

lemma slot_round_trip_aux:
  assumes "0 \<le> slot" "slot \<le> UINT32_MAX"
  shows "slot_of_time_point (slot_to_time_point slot) = slot"
proof -
  have b: "0 \<le> slot" "slot \<le> 4294967295" using assms by (simp_all add: UINT32_MAX_def)
  have "s64 (slot * 3000) = slot * 3000" "u64 (slot * 3000 + 946684800000) = slot * 3000 + 946684800000"
    using b by (simp_all add: s64_id u64_id INT64_MIN_def INT64_MAX_def UINT64_MAX_def)
  moreover have "s64 (slot * 3000 + 946684800000) = slot * 3000 + 946684800000"
    "s64 ((slot * 3000 + 946684800000) * 1000) = (slot * 3000 + 946684800000) * 1000"
    using b by (simp_all add: s64_id INT64_MIN_def INT64_MAX_def)
  ultimately have "slot_to_time_point slot = (slot * 3000 + 946684800000) * 1000"
    by (simp add: slot_to_time_point_def block_interval_ms_def block_timestamp_epoch_def)
  moreover have "tdiv ((slot * 3000 + 946684800000) * 1000) 1000 = slot * 3000 + 946684800000"
    using b by (subst tdiv_nonneg) simp_all
  moreover have "u64 (3000 * slot) = 3000 * slot" using b by (simp add: u64_id UINT64_MAX_def)
  ultimately show ?thesis using assms
    by (simp add: slot_of_time_point_def block_interval_ms_def block_timestamp_epoch_def u32_id)
qed

end
