(* ===== verification/Dpos.thy ===== *)
theory Dpos
  imports Block_Header_State
begin

text \<open>
  Delegated proof of stake: what the counters of \<open>block_header_state\<close> mean. A run of accepted headers is summarised
  by its votes, one per header: the block, its producer, how many earlier blocks the header confirms and how many
  confirmations a block of that schedule needs. The counters of the code are related to the sets of producers that
  confirmed each block, and a block that becomes proposed irreversible has the confirmations it needs from distinct
  producers.
\<close>

record dpos_vote =
  vote_block :: int
  vote_producer :: account_name
  vote_confirmed :: int
  vote_required :: int

definition confirmers :: "dpos_vote list \<Rightarrow> int \<Rightarrow> account_name set" where
  "confirmers hist b =
     set (map vote_producer (filter (\<lambda>v. vote_block v - vote_confirmed v \<le> b \<and> b \<le> vote_block v) hist))"

definition required_confs :: "block_header_state \<Rightarrow> int" where
  "required_confs s = int (length (sched_producers (active_schedule s)) * 2 div 3) + 1"

definition header_vote :: "block_header_state \<Rightarrow> block_header \<Rightarrow> dpos_vote" where
  "header_vote s h = \<lparr>vote_block = bhs_block_num s + 1, vote_producer = producer h, vote_confirmed = confirmed h,
     vote_required = required_confs s\<rparr>"

text \<open>A node that follows a branch: the headers are applied one after the other, and the votes are collected.\<close>

fun run_headers :: "crypto \<Rightarrow> block_header_state \<Rightarrow> block_header list \<Rightarrow> block_error + block_header_state" where
  "run_headers c s [] = Inr s"
| "run_headers c s (h # hs) = bnd (next_header_state c s h True) (\<lambda>s'. run_headers c s' hs)"

fun run_votes :: "crypto \<Rightarrow> block_header_state \<Rightarrow> block_header list \<Rightarrow> dpos_vote list" where
  "run_votes c s [] = []"
| "run_votes c s (h # hs) =
     (case next_header_state c s h True of Inl e \<Rightarrow> [] | Inr s' \<Rightarrow> header_vote s h # run_votes c s' hs)"

definition max_producers :: nat where "max_producers = 23"

text \<open>What the headers of a run are assumed to satisfy: a header does not claim to confirm more blocks than there are,
  the block number does not wrap around and an announced schedule has at most \<open>max_producers\<close> producers.\<close>

definition header_ok :: "block_header_state \<Rightarrow> block_header \<Rightarrow> bool" where
  "header_ok s h \<longleftrightarrow> 0 \<le> confirmed h \<and> confirmed h \<le> bhs_block_num s \<and> bhs_block_num s + 1 \<le> UINT32_MAX
     \<and> (case new_producers h of None \<Rightarrow> True | Some np \<Rightarrow> length (sched_producers np) \<le> max_producers)"

fun run_ok :: "crypto \<Rightarrow> block_header_state \<Rightarrow> block_header list \<Rightarrow> bool" where
  "run_ok c s [] = True"
| "run_ok c s (h # hs) =
     (header_ok s h \<and> (case next_header_state c s h True of Inl e \<Rightarrow> True | Inr s' \<Rightarrow> run_ok c s' hs))"

text \<open>The block that the counter at index \<open>i\<close> belongs to.\<close>

definition blk :: "block_header_state \<Rightarrow> nat \<Rightarrow> int" where
  "blk s i = bhs_block_num s - int (length (confirm_count s)) + 1 + int i"

definition start_ok :: "block_header_state \<Rightarrow> bool" where
  "start_ok s \<longleftrightarrow> confirm_count s = [] \<and> 0 \<le> dpos_proposed_irreversible_blocknum s
     \<and> dpos_proposed_irreversible_blocknum s \<le> bhs_block_num s
     \<and> tbl_ok (producer_to_last_produced s) \<and> tbl_ok (producer_to_last_implied_irb s)
     \<and> (\<forall>e \<in> set (producer_to_last_implied_irb s). snd e \<le> dpos_proposed_irreversible_blocknum s)
     \<and> length (sched_producers (active_schedule s)) \<le> max_producers
     \<and> length (sched_producers (pending_schedule s)) \<le> max_producers"

text \<open>The invariant of a run that started with proposed irreversible block \<open>p0\<close>.\<close>

definition confirmer_known :: "block_header_state \<Rightarrow> account_name \<Rightarrow> int \<Rightarrow> bool" where
  "confirmer_known s p b \<longleftrightarrow>
     (case tbl_find (producer_to_last_produced s) p of Some n \<Rightarrow> b \<le> n
      | None \<Rightarrow> p \<notin> producer_name ` set (sched_producers (active_schedule s))
          \<and> (sched_producers (pending_schedule s) \<noteq> [] \<longrightarrow> b \<le> pending_schedule_lib_num s))"

definition counted :: "dpos_vote list \<Rightarrow> dpos_vote list \<Rightarrow> int \<Rightarrow> int \<Rightarrow> bool" where
  "counted known hist b n \<longleftrightarrow>
     1 \<le> n \<and> n \<le> 255 \<and> (\<exists>v \<in> set known. vote_block v = b \<and> n = vote_required v - int (card (confirmers hist b)))"

definition tables_inv :: "block_header_state \<Rightarrow> bool" where
  "tables_inv s \<longleftrightarrow> tbl_ok (producer_to_last_produced s) \<and> tbl_ok (producer_to_last_implied_irb s)
     \<and> length (sched_producers (active_schedule s)) \<le> max_producers
     \<and> length (sched_producers (pending_schedule s)) \<le> max_producers
     \<and> 0 \<le> dpos_proposed_irreversible_blocknum s
     \<and> (\<forall>e \<in> set (producer_to_last_implied_irb s). snd e \<le> dpos_proposed_irreversible_blocknum s)
     \<and> dpos_proposed_irreversible_blocknum s \<le> bhs_block_num s - int (length (confirm_count s))"

definition dpos_inv :: "int \<Rightarrow> block_header_state \<Rightarrow> dpos_vote list \<Rightarrow> bool" where
  "dpos_inv p0 s hist \<longleftrightarrow> tables_inv s
     \<and> (\<forall>v \<in> set hist. vote_block v \<le> bhs_block_num s)
     \<and> (\<forall>i < length (confirm_count s). counted hist hist (blk s i) (confirm_count s ! i))
     \<and> (\<forall>i < length (confirm_count s). \<forall>p \<in> confirmers hist (blk s i). confirmer_known s p (blk s i))
     \<and> (dpos_proposed_irreversible_blocknum s = p0
        \<or> (\<exists>v \<in> set hist. vote_block v = dpos_proposed_irreversible_blocknum s
             \<and> vote_required v \<le> int (card (confirmers hist (vote_block v)))))"

subsection \<open>The confirmation loop\<close>

text \<open>What the loop does when every counter is positive: either no counter of the confirmed range was at 1, and each of
  them goes down by one, or \<open>k\<close> is the last index of the range whose counter was 1, and the counters after it remain.\<close>

definition dec_range :: "nat \<Rightarrow> nat \<Rightarrow> int list \<Rightarrow> int list" where
  "dec_range l r cc = map (\<lambda>j. if l \<le> j \<and> j < r then cc ! j - 1 else cc ! j) [0..<length cc]"

lemma dec_range_empty [simp]: "dec_range r r cc = cc"
  by (intro nth_equalityI) (auto simp: dec_range_def)

lemma dec_range_update:
  assumes "i < length cc" and "l \<le> i"
  shows "dec_range l i (cc[i := cc ! i - 1]) = dec_range l (Suc i) cc"
  using assms by (intro nth_equalityI) (auto simp: dec_range_def nth_list_update)

definition confirm_outcome :: "nat \<Rightarrow> nat \<Rightarrow> int list \<Rightarrow> int list \<times> nat option \<Rightarrow> bool" where
  "confirm_outcome l r cc out \<longleftrightarrow>
     (case snd out of
        None \<Rightarrow> fst out = dec_range l r cc \<and> (\<forall>j. l \<le> j \<and> j < r \<longrightarrow> 1 < cc ! j)
      | Some k \<Rightarrow> l \<le> k \<and> k < r \<and> cc ! k = 1 \<and> (\<forall>j. k < j \<and> j < r \<longrightarrow> 1 < cc ! j)
          \<and> fst out = drop (Suc k) (dec_range k r cc))"

lemma confirm_loop_spec:
  assumes "i \<le> length cc" and "\<And>j. j < i \<Longrightarrow> 1 \<le> cc ! j \<and> cc ! j \<le> 255"
  shows "confirm_outcome (i - b) i cc (confirm_loop i b cc)"
  using assms
proof (induction i arbitrary: b cc)
  case 0
  then show ?case by (simp add: confirm_outcome_def)
next
  case (Suc i)
  let ?d = "cc[i := cc ! i - 1]"
  have u: "u8 (cc ! i - 1) = cc ! i - 1" using Suc.prems(2)[of i] by (simp add: u8_def)
  have pos: "\<And>j. j < i \<Longrightarrow> 1 \<le> ?d ! j \<and> ?d ! j \<le> 255"
    using Suc.prems by (metis less_SucI nth_list_update_neq less_irrefl)
  consider "b = 0" | "b \<noteq> 0" "cc ! i = 1" | "b \<noteq> 0" "1 < cc ! i" using Suc.prems(2)[of i] by fastforce
  then show ?case
  proof cases
    case 1
    then show ?thesis by (simp add: confirm_outcome_def)
  next
    case 2
    then have "confirm_loop (Suc i) b cc = (drop (Suc i) ?d, Some i)" using Suc.prems(1) u by (simp add: Let_def)
    moreover have "drop (Suc i) ?d = drop (Suc i) (dec_range i (Suc i) cc)"
      using dec_range_update[of i cc i] Suc.prems(1) by simp
    ultimately show ?thesis using 2 by (simp add: confirm_outcome_def)
  next
    case 3
    then have "confirm_loop (Suc i) b cc = confirm_loop i (b - 1) ?d" using Suc.prems(1) by (simp add: u Let_def)
    moreover have "confirm_outcome (i - (b - 1)) i ?d (confirm_loop i (b - 1) ?d)"
      using Suc.IH[of ?d "b - 1"] pos Suc.prems(1) by simp
    moreover have "i - (b - 1) = Suc i - b" using 3 by simp
    ultimately show ?thesis using Suc.prems(1) 3(2) dec_range_update[of i cc]
      by (auto simp: confirm_outcome_def less_Suc_eq split: option.splits)
  qed
qed

subsection \<open>One header\<close>

lemma confirmers_snoc:
  "confirmers (hist @ [v]) b =
     (if vote_block v - vote_confirmed v \<le> b \<and> b \<le> vote_block v
      then insert (vote_producer v) (confirmers hist b) else confirmers hist b)"
  by (auto simp: confirmers_def)

lemma finite_confirmers [simp]: "finite (confirmers hist b)"
  by (simp add: confirmers_def)

lemma confirmers_future: "(\<And>v. v \<in> set hist \<Longrightarrow> vote_block v < b) \<Longrightarrow> confirmers hist b = {}"
  by (force simp: confirmers_def filter_empty_conv)

lemma scheduled_in_active:
  "get_scheduled_producer s t = Inr k \<Longrightarrow> k \<in> set (sched_producers (active_schedule s))"
  by (auto simp: get_scheduled_producer_def Let_def res_simps producer_repetitions_def)

lemma generate_next_fields:
  assumes "generate_next c s t = Inr g" and "t \<noteq> 0"
  shows "\<exists>k. get_scheduled_producer s t = Inr k \<and> producer (bhs_header g) = producer_name k
      \<and> timestamp (bhs_header s) < t \<and> timestamp (bhs_header g) = t \<and> previous (bhs_header g) = bhs_id s
      \<and> block_signing_key g = key_of_producer k
      \<and> schedule_version (bhs_header g) = sched_version (active_schedule s)
      \<and> producer_to_last_produced g = tbl_put (producer_name k) (bhs_block_num g) (producer_to_last_produced s)
      \<and> producer_to_last_implied_irb g
          = tbl_put (producer_name k) (dpos_proposed_irreversible_blocknum s) (producer_to_last_implied_irb s)"
    and "bhs_block_num g = u32 (bhs_block_num s + 1)"
    and "dpos_proposed_irreversible_blocknum g = dpos_proposed_irreversible_blocknum s"
    and "active_schedule g = active_schedule s" "pending_schedule g = pending_schedule s"
    and "pending_schedule_lib_num g = pending_schedule_lib_num s"
    and "confirm_count g = grow_confirm_count (confirm_count s) (length (sched_producers (active_schedule s)))"
    and "dpos_irreversible_blocknum g = calc_dpos_last_irreversible g"
  using assms by (auto simp: generate_next_def res_simps Let_def calc_dpos_last_irreversible_def)

lemma grow_confirm_count_nth:
  assumes "i < length (grow_confirm_count cc n)" and "n \<le> max_producers"
  shows "grow_confirm_count cc n ! i =
    (if i = length (grow_confirm_count cc n) - 1 then int (n * 2 div 3) + 1
     else cc ! (length cc - (length (grow_confirm_count cc n) - 1) + i))"
proof -
  have "u8 (u32 (int (n * 2 div 3) + 1)) = int (n * 2 div 3) + 1"
    using assms(2) by (simp add: u8_def u32_def max_producers_def)
  then show ?thesis using assms(1)
    by (auto simp: grow_confirm_count_def Let_def nth_append nth_tl maximum_tracked_dpos_confirmations_def)
qed

lemma grow_confirm_count_length:
  "0 < length (grow_confirm_count cc n)"
  "length (grow_confirm_count cc n) \<le> Suc (length cc)"
  "length cc \<le> maximum_tracked_dpos_confirmations \<Longrightarrow> length (grow_confirm_count cc n) \<le> maximum_tracked_dpos_confirmations"
  by (auto simp: grow_confirm_count_def Let_def maximum_tracked_dpos_confirmations_def)

lemma counted_weaken: "counted hist hist b n \<Longrightarrow> set hist \<subseteq> set known \<Longrightarrow> counted known hist b n"
  by (auto simp: counted_def)

text \<open>The counters of a grown state, before the new header's own confirmation is counted.\<close>

lemma grown_counts:
  assumes inv: "dpos_inv p0 s hist" and gen: "generate_next c s t = Inr g" "t \<noteq> 0"
    and num: "bhs_block_num s + 1 \<le> UINT32_MAX"
    and v: "vote_block v = bhs_block_num s + 1" "vote_required v = required_confs s"
    and i: "i < length (confirm_count g)"
  shows "counted (hist @ [v]) hist (blk g i) (confirm_count g ! i)"
    and "p \<in> confirmers hist (blk g i) \<Longrightarrow> confirmer_known s p (blk g i)"
proof -
  let ?n = "length (sched_producers (active_schedule s))"
  let ?cc = "confirm_count s" and ?L = "length (confirm_count g)"
  have ti: "tables_inv s" using inv by (simp add: dpos_inv_def)
  have nm: "bhs_block_num g = bhs_block_num s + 1"
    using generate_next_fields(2)[OF gen] num ti by (simp add: u32_id tables_inv_def)
  have n: "?n \<le> max_producers" using ti by (simp add: tables_inv_def)
  note g = generate_next_fields(7)[OF gen]
  have len: "0 < ?L" "?L \<le> Suc (length ?cc)" unfolding g by (rule grow_confirm_count_length)+
  have nth: "confirm_count g ! i = (if i = ?L - 1 then required_confs s else ?cc ! (length ?cc - (?L - 1) + i))"
    using grow_confirm_count_nth[of i ?cc ?n] i n unfolding g required_confs_def by simp
  have both: "counted (hist @ [v]) hist (blk g i) (confirm_count g ! i)
      \<and> (\<forall>p \<in> confirmers hist (blk g i). confirmer_known s p (blk g i))"
  proof (cases "i = ?L - 1")
    case True
    then have b: "blk g i = bhs_block_num s + 1" using len(1) nm by (cases ?L) (simp_all add: blk_def)
    have cn: "confirm_count g ! i = required_confs s" using nth True by simp
    have "confirmers hist (blk g i) = {}"
      using inv by (intro confirmers_future) (auto simp: b dpos_inv_def)
    moreover have "1 \<le> required_confs s" "required_confs s \<le> 255"
      using n by (auto simp: required_confs_def max_producers_def)
    ultimately show ?thesis using v unfolding cn by (simp add: b counted_def)
  next
    case False
    let ?j = "length ?cc - (?L - 1) + i"
    have j: "?j < length ?cc" "blk s ?j = blk g i" using False i len nm by (auto simp: blk_def)
    then have "counted hist hist (blk g i) (?cc ! ?j)" "\<forall>p \<in> confirmers hist (blk g i). confirmer_known s p (blk g i)"
      using inv by (auto simp: dpos_inv_def)
    then show ?thesis using False counted_weaken[of hist "blk g i" "?cc ! ?j" "hist @ [v]"] by (auto simp: nth)
  qed
  then show "counted (hist @ [v]) hist (blk g i) (confirm_count g ! i)" by simp
  show "p \<in> confirmers hist (blk g i) \<Longrightarrow> confirmer_known s p (blk g i)" using both by simp
qed

lemma set_confirmed_fields [simp]:
  "bhs_block_num (set_confirmed k s) = bhs_block_num s"
  "active_schedule (set_confirmed k s) = active_schedule s"
  "pending_schedule (set_confirmed k s) = pending_schedule s"
  "pending_schedule_lib_num (set_confirmed k s) = pending_schedule_lib_num s"
  "dpos_irreversible_blocknum (set_confirmed k s) = dpos_irreversible_blocknum s"
  "producer_to_last_produced (set_confirmed k s) = producer_to_last_produced s"
  "producer_to_last_implied_irb (set_confirmed k s) = producer_to_last_implied_irb s"
  "producer (bhs_header (set_confirmed k s)) = producer (bhs_header s)"
  "timestamp (bhs_header (set_confirmed k s)) = timestamp (bhs_header s)"
  "previous (bhs_header (set_confirmed k s)) = previous (bhs_header s)"
  "schedule_version (bhs_header (set_confirmed k s)) = schedule_version (bhs_header s)"
  "block_signing_key (set_confirmed k s) = block_signing_key s"
  "bft_irreversible_blocknum (set_confirmed k s) = bft_irreversible_blocknum s"
  by (simp_all add: set_confirmed_def Let_def split: prod.splits)

text \<open>The two outcomes of \<open>set_confirmed\<close> on positive counters.\<close>

lemma set_confirmed_cases:
  assumes "\<forall>j < length (confirm_count s). 1 \<le> confirm_count s ! j \<and> confirm_count s ! j \<le> 255"
    and "0 \<le> k" and "int (length (confirm_count s)) \<le> bhs_block_num s" and "bhs_block_num s \<le> UINT32_MAX"
  obtains (none) "confirm_count (set_confirmed k s)
      = dec_range (length (confirm_count s) - nat (k + 1)) (length (confirm_count s)) (confirm_count s)"
      "\<And>j. bhs_block_num s - k \<le> blk s j \<Longrightarrow> j < length (confirm_count s) \<Longrightarrow> 1 < confirm_count s ! j"
      "dpos_proposed_irreversible_blocknum (set_confirmed k s) = dpos_proposed_irreversible_blocknum s"
  | (hit) q where "q < length (confirm_count s)" "bhs_block_num s - k \<le> blk s q" "confirm_count s ! q = 1"
      "\<And>j. q < j \<Longrightarrow> j < length (confirm_count s) \<Longrightarrow> 1 < confirm_count s ! j"
      "confirm_count (set_confirmed k s) = drop (Suc q) (dec_range q (length (confirm_count s)) (confirm_count s))"
      "dpos_proposed_irreversible_blocknum (set_confirmed k s) = blk s q"
proof -
  let ?cc = "confirm_count s"
  let ?out = "confirm_loop (length ?cc) (nat (k + 1)) ?cc"
  have out: "confirm_outcome (length ?cc - nat (k + 1)) (length ?cc) ?cc ?out"
    using confirm_loop_spec[of "length ?cc" ?cc "nat (k + 1)"] assms(1) by simp
  show thesis
  proof (cases "snd ?out")
    case None
    then show thesis using out assms(2)
      by (intro none) (auto simp: confirm_outcome_def set_confirmed_def Let_def blk_def split: prod.splits)
  next
    case (Some q)
    have q: "length ?cc - nat (k + 1) \<le> q" "q < length ?cc" using out Some by (auto simp: confirm_outcome_def)
    then have "blk s q = u32 (bhs_block_num s - int (length ?cc - 1 - q))"
      using assms(3,4) by (subst u32_id) (auto simp: blk_def)
    then show thesis using out Some q assms(2)
      by (intro hit[of q]) (auto simp: confirm_outcome_def set_confirmed_def Let_def blk_def split: prod.splits)
  qed
qed

lemma dec_range_nth [simp]:
  "length (dec_range l r cc) = length cc"
  "j < length cc \<Longrightarrow> dec_range l r cc ! j = (if l \<le> j \<and> j < r then cc ! j - 1 else cc ! j)"
  by (simp_all add: dec_range_def)

lemma confirmers_mono: "card (confirmers hist b) \<le> card (confirmers (hist @ [v]) b)"
  by (intro card_mono) (auto simp: confirmers_snoc)

text \<open>The state in which the header's own vote \<open>v\<close> is about to be counted.\<close>

definition grown_inv :: "int \<Rightarrow> block_header_state \<Rightarrow> dpos_vote list \<Rightarrow> dpos_vote \<Rightarrow> bool" where
  "grown_inv p0 g hist v \<longleftrightarrow> tables_inv g
     \<and> bhs_block_num g \<le> UINT32_MAX \<and> vote_block v = bhs_block_num g \<and> 0 \<le> vote_confirmed v
     \<and> (\<forall>w \<in> set hist. vote_block w \<le> bhs_block_num g)
     \<and> (\<forall>i < length (confirm_count g). counted (hist @ [v]) hist (blk g i) (confirm_count g ! i))
     \<and> (\<forall>i < length (confirm_count g). \<forall>p \<in> confirmers (hist @ [v]) (blk g i). confirmer_known g p (blk g i))
     \<and> (\<forall>i < length (confirm_count g). bhs_block_num g - vote_confirmed v \<le> blk g i
          \<longrightarrow> vote_producer v \<notin> confirmers hist (blk g i))
     \<and> (dpos_proposed_irreversible_blocknum g = p0
        \<or> (\<exists>w \<in> set hist. vote_block w = dpos_proposed_irreversible_blocknum g
             \<and> vote_required w \<le> int (card (confirmers hist (vote_block w)))))"

lemma counted_vote:
  assumes "grown_inv p0 g hist v" and "i < length (confirm_count g)"
  shows "bhs_block_num g - vote_confirmed v \<le> blk g i \<Longrightarrow> 1 < confirm_count g ! i \<Longrightarrow>
      counted (hist @ [v]) (hist @ [v]) (blk g i) (confirm_count g ! i - 1)"
    and "bhs_block_num g - vote_confirmed v \<le> blk g i \<Longrightarrow> confirm_count g ! i = 1 \<Longrightarrow>
      \<exists>w \<in> set (hist @ [v]). vote_block w = blk g i \<and> vote_required w \<le> int (card (confirmers (hist @ [v]) (vote_block w)))"
    and "blk g i < bhs_block_num g - vote_confirmed v \<Longrightarrow>
      counted (hist @ [v]) (hist @ [v]) (blk g i) (confirm_count g ! i)"
proof -
  have c: "counted (hist @ [v]) hist (blk g i) (confirm_count g ! i)" and b: "blk g i \<le> vote_block v"
    and v: "vote_block v = bhs_block_num g"
    and n: "bhs_block_num g - vote_confirmed v \<le> blk g i \<Longrightarrow> vote_producer v \<notin> confirmers hist (blk g i)"
    using assms by (auto simp: grown_inv_def blk_def)
  show "blk g i < bhs_block_num g - vote_confirmed v \<Longrightarrow>
      counted (hist @ [v]) (hist @ [v]) (blk g i) (confirm_count g ! i)"
    using c v by (simp add: counted_def confirmers_snoc)
  assume r: "bhs_block_num g - vote_confirmed v \<le> blk g i"
  have card: "card (confirmers (hist @ [v]) (blk g i)) = Suc (card (confirmers hist (blk g i)))"
    using r b v n by (simp add: confirmers_snoc)
  show "1 < confirm_count g ! i \<Longrightarrow> counted (hist @ [v]) (hist @ [v]) (blk g i) (confirm_count g ! i - 1)"
    using c card by (auto simp: counted_def)
  show "confirm_count g ! i = 1 \<Longrightarrow>
      \<exists>w \<in> set (hist @ [v]). vote_block w = blk g i \<and> vote_required w \<le> int (card (confirmers (hist @ [v]) (vote_block w)))"
    using c card by (auto simp: counted_def)
qed

lemma confirmer_known_set_confirmed [simp]: "confirmer_known (set_confirmed k s) p b = confirmer_known s p b"
  by (simp add: confirmer_known_def split: option.splits)

lemma tables_inv_set_confirmed:
  assumes "tables_inv g" "dpos_proposed_irreversible_blocknum g \<le> dpos_proposed_irreversible_blocknum (set_confirmed k g)"
    "dpos_proposed_irreversible_blocknum (set_confirmed k g) \<le> bhs_block_num g - int (length (confirm_count (set_confirmed k g)))"
  shows "tables_inv (set_confirmed k g)"
  using assms by (fastforce simp: tables_inv_def)

lemma set_confirmed_inv:
  assumes "grown_inv p0 g hist v"
  shows "dpos_inv p0 (set_confirmed (vote_confirmed v) g) (hist @ [v])"
proof -
  let ?k = "vote_confirmed v"
  let ?s = "set_confirmed ?k g" and ?h = "hist @ [v]" and ?cc = "confirm_count g"
  note inv = assms[unfolded grown_inv_def]
  have ti: "tables_inv g" using inv by simp
  have pos: "\<forall>j < length ?cc. 1 \<le> ?cc ! j \<and> ?cc ! j \<le> 255" using inv by (auto simp: counted_def)
  have L: "int (length ?cc) \<le> bhs_block_num g" using ti by (auto simp: tables_inv_def)
  have k: "0 \<le> ?k" "bhs_block_num g \<le> UINT32_MAX" using inv by auto
  have blocks: "\<forall>w \<in> set ?h. vote_block w \<le> bhs_block_num ?s" using inv by auto
  show ?thesis
  proof (cases rule: set_confirmed_cases[OF pos k(1) L k(2), case_names none hit])
    case none
    have b: "blk ?s i = blk g i" for i by (simp add: blk_def none(1))
    have rng: "length ?cc - nat (?k + 1) \<le> i \<longleftrightarrow> bhs_block_num g - ?k \<le> blk g i" if "i < length ?cc" for i
      using that k by (auto simp: blk_def)
    have "\<forall>i < length (confirm_count ?s). counted ?h ?h (blk ?s i) (confirm_count ?s ! i)"
      using none(1,2) rng counted_vote(1,3)[OF assms] by (auto simp: b not_le)
    moreover have "\<forall>i < length (confirm_count ?s). \<forall>p \<in> confirmers ?h (blk ?s i). confirmer_known ?s p (blk ?s i)"
      using inv none(1) by (simp add: b)
    moreover have "tables_inv ?s" using ti none by (intro tables_inv_set_confirmed) (auto simp: tables_inv_def)
    moreover have "dpos_proposed_irreversible_blocknum ?s = p0 \<or> (\<exists>w \<in> set ?h.
        vote_block w = dpos_proposed_irreversible_blocknum ?s \<and> vote_required w \<le> int (card (confirmers ?h (vote_block w))))"
      using inv confirmers_mono[of hist _ v] unfolding none(3) by (fastforce intro: order_trans)
    ultimately show ?thesis using blocks by (simp add: dpos_inv_def)
  next
    case (hit q)
    have b: "blk ?s i = blk g (Suc q + i)" for i using hit(1) by (simp add: blk_def hit(5))
    have rng: "bhs_block_num g - ?k \<le> blk g (Suc q + i)" for i using hit(2) by (simp add: blk_def)
    have "\<forall>i < length (confirm_count ?s). counted ?h ?h (blk ?s i) (confirm_count ?s ! i)"
      using hit(1,4) counted_vote(1)[OF assms _ rng] by (auto simp: b hit(5))
    moreover have "\<forall>i < length (confirm_count ?s). \<forall>p \<in> confirmers ?h (blk ?s i). confirmer_known ?s p (blk ?s i)"
      using inv hit(1) by (simp add: b hit(5))
    moreover have "tables_inv ?s"
      using ti hit(1) by (intro tables_inv_set_confirmed) (auto simp: tables_inv_def hit(5,6) blk_def)
    ultimately show ?thesis using blocks counted_vote(2)[OF assms hit(1,2,3)] hit(6) by (simp add: dpos_inv_def)
  qed
qed

lemma tables_inv_generate:
  assumes ti: "tables_inv s" and gen: "generate_next c s t = Inr g" "t \<noteq> 0"
    and num: "bhs_block_num s + 1 \<le> UINT32_MAX"
  shows "tables_inv g" and "bhs_block_num g = bhs_block_num s + 1"
proof -
  note gf = generate_next_fields[OF gen]
  show nm: "bhs_block_num g = bhs_block_num s + 1" using gf(2) num ti by (simp add: u32_id tables_inv_def)
  obtain pk :: producer_key where pk: 
    "producer_to_last_produced g = tbl_put (producer_name pk) (bhs_block_num g) (producer_to_last_produced s)"
    "producer_to_last_implied_irb g
       = tbl_put (producer_name pk) (dpos_proposed_irreversible_blocknum s) (producer_to_last_implied_irb s)"
    using gf(1) by blast
  have "\<forall>e \<in> set (producer_to_last_implied_irb g). snd e \<le> dpos_proposed_irreversible_blocknum g"
    using ti by (auto simp: pk(2) gf(3) tables_inv_def tbl_ok_put tbl_rows_find tbl_find_put split: if_splits)
  moreover have "dpos_proposed_irreversible_blocknum g \<le> bhs_block_num g - int (length (confirm_count g))"
    using ti grow_confirm_count_length(2)[of "confirm_count s" "length (sched_producers (active_schedule s))"]
    by (simp add: gf(3,7) nm tables_inv_def)
  ultimately show "tables_inv g" using ti by (simp add: tables_inv_def pk gf(3,4,5) tbl_ok_put)
qed

lemma confirmer_known_generate:
  assumes "tables_inv s" "generate_next c s t = Inr g" "t \<noteq> 0" "b \<le> bhs_block_num g"
  shows "confirmer_known g (producer (bhs_header g)) b" and "confirmer_known s p b \<Longrightarrow> confirmer_known g p b"
proof -
  note gf = generate_next_fields[OF assms(2,3)]
  obtain pk :: producer_key where pk: "producer (bhs_header g) = producer_name pk"
    "producer_to_last_produced g = tbl_put (producer_name pk) (bhs_block_num g) (producer_to_last_produced s)"
    using gf(1) by blast
  show "confirmer_known g (producer (bhs_header g)) b"
    using assms by (simp add: confirmer_known_def pk tbl_find_put tables_inv_def)
  show "confirmer_known s p b \<Longrightarrow> confirmer_known g p b"
    using assms gf(4,5,6) by (auto simp: confirmer_known_def pk tbl_find_put tables_inv_def split: option.splits)
qed

lemma producer_fresh:
  assumes "generate_next c s t = Inr g" "t \<noteq> 0" "confirmer_known s (producer (bhs_header g)) b"
    and "case tbl_find (producer_to_last_produced s) (producer (bhs_header g)) of None \<Rightarrow> True | Some n \<Rightarrow> n < m"
  shows "b < m"
  using assms generate_next_fields(1)[OF assms(1,2)] scheduled_in_active
  by (fastforce simp: confirmer_known_def split: option.splits)

lemma generate_next_inv:
  assumes inv: "dpos_inv p0 s hist" and gen: "generate_next c s (timestamp h) = Inr g" "timestamp h \<noteq> 0"
    and ok: "header_ok s h" and p: "producer (bhs_header g) = producer h"
    and fresh: "case tbl_find (producer_to_last_produced s) (producer h) of
        None \<Rightarrow> True | Some n \<Rightarrow> n < u32 (bhs_block_num g - confirmed h)"
  shows "grown_inv p0 g hist (header_vote s h)"
proof -
  let ?v = "header_vote s h"
  have ti: "tables_inv s" using inv by (simp add: dpos_inv_def)
  have num: "bhs_block_num s + 1 \<le> UINT32_MAX" and k: "0 \<le> confirmed h" "confirmed h \<le> bhs_block_num s"
    using ok by (auto simp: header_ok_def)
  note tg = tables_inv_generate[OF ti gen num]
  note cnt = grown_counts[OF inv gen num, of ?v]
  have le: "blk g i \<le> bhs_block_num g" if "i < length (confirm_count g)" for i using that by (simp add: blk_def)
  have known: "confirmer_known g p (blk g i)"
    if "i < length (confirm_count g)" "p \<in> confirmers (hist @ [?v]) (blk g i)" for i p
    using that cnt(2)[OF _ _ that(1)] confirmer_known_generate[OF ti gen le[OF that(1)]] p
    by (auto simp: confirmers_snoc header_vote_def split: if_splits)
  have "u32 (bhs_block_num g - confirmed h) = bhs_block_num g - confirmed h" using k num by (simp add: tg u32_id)
  then have "producer h \<notin> confirmers hist (blk g i)"
    if "i < length (confirm_count g)" "bhs_block_num g - confirmed h \<le> blk g i" for i
    using that cnt(2)[OF _ _ that(1)] producer_fresh[OF gen, of "blk g i"] fresh p by (force simp: header_vote_def)
  then show ?thesis using tg known cnt(1) inv num k generate_next_fields(3)[OF gen]
    by (force simp: grown_inv_def dpos_inv_def header_vote_def)
qed

lemma promote_counts_find:
  "tbl_ok (promote_counts ps lib old)"
  "tbl_find (promote_counts ps lib old) p =
     (if p \<in> producer_name ` set ps
      then Some (case tbl_find old p of Some n \<Rightarrow> n | None \<Rightarrow> lib) else None)"
proof -
  let ?f = "\<lambda>p new. tbl_put (producer_name p) (case tbl_find old (producer_name p) of Some n \<Rightarrow> n | None \<Rightarrow> lib) new"
  have "tbl_ok t \<Longrightarrow> tbl_ok (fold ?f ps t) \<and> tbl_find (fold ?f ps t) p =
      (if p \<in> producer_name ` set ps then Some (case tbl_find old p of Some n \<Rightarrow> n | None \<Rightarrow> lib) else tbl_find t p)" for t
    by (induction ps arbitrary: t) (auto simp: tbl_ok_put tbl_find_put)
  from this[of "[]"] show "tbl_ok (promote_counts ps lib old)"
    "tbl_find (promote_counts ps lib old) p =
     (if p \<in> producer_name ` set ps
      then Some (case tbl_find old p of Some n \<Rightarrow> n | None \<Rightarrow> lib) else None)"
    by (simp_all add: promote_counts_def tbl_simps)
qed

lemma calc_dpos_in:
  "calc_dpos_last_irreversible s \<in> insert 0 (snd ` set (producer_to_last_implied_irb s))"
proof (cases "producer_to_last_implied_irb s = []")
  case False
  then have "(length (producer_to_last_implied_irb s) - 1) div 3 < length (producer_to_last_implied_irb s)"
    by (cases "producer_to_last_implied_irb s") auto
  then have "sort (map snd (producer_to_last_implied_irb s)) ! ((length (producer_to_last_implied_irb s) - 1) div 3)
      \<in> set (sort (map snd (producer_to_last_implied_irb s)))" by (intro nth_mem) simp
  then show ?thesis using False by (auto simp: calc_dpos_last_irreversible_def)
qed (simp add: calc_dpos_last_irreversible_def)

lemma promote_fields:
  "bhs_block_num (snd (maybe_promote_pending s)) = bhs_block_num s"
  "confirm_count (snd (maybe_promote_pending s)) = confirm_count s"
  "dpos_proposed_irreversible_blocknum (snd (maybe_promote_pending s)) = dpos_proposed_irreversible_blocknum s"
  "dpos_irreversible_blocknum (snd (maybe_promote_pending s)) = dpos_irreversible_blocknum s"
  "bhs_header (snd (maybe_promote_pending s)) = bhs_header s"
  "block_signing_key (snd (maybe_promote_pending s)) = block_signing_key s"
  "bft_irreversible_blocknum (snd (maybe_promote_pending s)) = bft_irreversible_blocknum s"
  by (simp_all add: maybe_promote_pending_def)

lemma blk_cong: "bhs_block_num s = bhs_block_num t \<Longrightarrow> confirm_count s = confirm_count t \<Longrightarrow> blk s = blk t"
  by (simp add: fun_eq_iff blk_def)

lemma promote_known:
  assumes "tables_inv s" "confirmer_known s p b" "b \<le> bhs_block_num s"
  shows "confirmer_known (snd (maybe_promote_pending s)) p b"
  using assms
  by (auto simp: maybe_promote_pending_def confirmer_known_def tbl_find_put promote_counts_find
      split: option.splits if_splits)

lemma promote_inv:
  assumes "dpos_inv p0 s hist" and "dpos_irreversible_blocknum s \<le> dpos_proposed_irreversible_blocknum s"
  shows "dpos_inv p0 (snd (maybe_promote_pending s)) hist"
proof -
  have ti: "tables_inv s" using assms by (simp add: dpos_inv_def)
  then have "tables_inv (snd (maybe_promote_pending s))" using assms(2)
    by (auto simp: tables_inv_def maybe_promote_pending_def tbl_ok_put promote_counts_find tbl_rows_find
        split: if_splits option.splits)
  moreover have "blk (snd (maybe_promote_pending s)) = blk s" by (intro blk_cong) (simp_all add: promote_fields)
  moreover have "blk s i \<le> bhs_block_num s" if "i < length (confirm_count s)" for i using that by (simp add: blk_def)
  ultimately show ?thesis using assms(1) promote_known[OF ti] by (simp add: dpos_inv_def promote_fields)
qed

lemma set_new_producers_inv:
  assumes "dpos_inv p0 s hist" and "set_new_producers c np s = Inr s'" and "length (sched_producers np) \<le> max_producers"
  shows "dpos_inv p0 s' hist"
proof -
  have s': "s' = s\<lparr>bhs_header := (bhs_header s)\<lparr>new_producers := Some np\<rparr>, pending_schedule_hash := hash_schedule c np,
      pending_schedule := np, pending_schedule_lib_num := bhs_block_num s\<rparr>"
    using assms(2) by (simp add: set_new_producers_def res_simps)
  have "blk s' = blk s" by (intro blk_cong) (simp_all add: s')
  moreover have "blk s i \<le> bhs_block_num s" if "i < length (confirm_count s)" for i using that by (simp add: blk_def)
  ultimately show ?thesis using assms(1,3)
    by (fastforce simp: dpos_inv_def tables_inv_def confirmer_known_def s' split: option.splits)
qed

definition sealed :: "crypto \<Rightarrow> block_header \<Rightarrow> block_header_state \<Rightarrow> block_header_state" where
  "sealed c h r = (let hdr = (bhs_header r)\<lparr>action_mroot := action_mroot h, transaction_mroot := transaction_mroot h,
                      producer_signature := producer_signature h\<rparr>
     in r\<lparr>bhs_header := hdr, bhs_id := header_id c hdr\<rparr>)"

lemma sealed_fields [simp]:
  "bhs_block_num (sealed c h r) = bhs_block_num r" "confirm_count (sealed c h r) = confirm_count r"
  "dpos_proposed_irreversible_blocknum (sealed c h r) = dpos_proposed_irreversible_blocknum r"
  "dpos_irreversible_blocknum (sealed c h r) = dpos_irreversible_blocknum r"
  "active_schedule (sealed c h r) = active_schedule r" "pending_schedule (sealed c h r) = pending_schedule r"
  "pending_schedule_lib_num (sealed c h r) = pending_schedule_lib_num r"
  "producer_to_last_produced (sealed c h r) = producer_to_last_produced r"
  "producer_to_last_implied_irb (sealed c h r) = producer_to_last_implied_irb r"
  "block_signing_key (sealed c h r) = block_signing_key r"
  "timestamp (bhs_header (sealed c h r)) = timestamp (bhs_header r)"
  "producer (bhs_header (sealed c h r)) = producer (bhs_header r)"
  "previous (bhs_header (sealed c h r)) = previous (bhs_header r)"
  "bhs_id (sealed c h r) = header_id c (bhs_header (sealed c h r))"
  "bft_irreversible_blocknum (sealed c h r) = bft_irreversible_blocknum r"
  by (simp_all add: sealed_def Let_def)

lemma next_header_state_steps:
  assumes "next_header_state c s h skip = Inr s'"
  obtains g r where "generate_next c s (timestamp h) = Inr g" "timestamp h \<noteq> 0" "header_extensions h = 0"
    "timestamp (bhs_header s) < timestamp h" "previous h = bhs_id s"
    "producer (bhs_header g) = producer h" "schedule_version (bhs_header g) = schedule_version h"
    "case tbl_find (producer_to_last_produced s) (producer h) of None \<Rightarrow> True
       | Some n \<Rightarrow> n < u32 (bhs_block_num g - confirmed h)"
    "case new_producers h of None \<Rightarrow> r = snd (maybe_promote_pending (set_confirmed (confirmed h) g))
       | Some np \<Rightarrow> \<not> fst (maybe_promote_pending (set_confirmed (confirmed h) g))
           \<and> set_new_producers c np (snd (maybe_promote_pending (set_confirmed (confirmed h) g))) = Inr r"
    "s' = sealed c h r" "skip \<or> signee c s' = block_signing_key s'"
  using assms
  by (fastforce simp: next_header_state_def res_simps sealed_def Let_def verify_signee_def
      split: option.splits prod.splits if_splits)

lemma dpos_inv_sealed [simp]: "dpos_inv p0 (sealed c h r) hist = dpos_inv p0 r hist"
proof -
  have "blk (sealed c h r) = blk r" by (intro blk_cong) simp_all
  moreover have "confirmer_known (sealed c h r) = confirmer_known r"
    by (simp add: confirmer_known_def fun_eq_iff split: option.splits)
  ultimately show ?thesis by (simp add: dpos_inv_def tables_inv_def)
qed

lemma lib_le_proposed:
  assumes "tables_inv s" "generate_next c s t = Inr g" "t \<noteq> 0" "bhs_block_num s + 1 \<le> UINT32_MAX"
  shows "dpos_irreversible_blocknum g \<le> dpos_proposed_irreversible_blocknum g"
  using tables_inv_generate(1)[OF assms] calc_dpos_in[of g] generate_next_fields(8)[OF assms(2,3)]
  by (auto simp: tables_inv_def)

lemma proposed_grows:
  assumes "grown_inv p0 g hist v"
  shows "dpos_proposed_irreversible_blocknum g \<le> dpos_proposed_irreversible_blocknum (set_confirmed (vote_confirmed v) g)"
proof -
  have pos: "\<forall>j < length (confirm_count g). 1 \<le> confirm_count g ! j \<and> confirm_count g ! j \<le> 255"
    using assms by (auto simp: grown_inv_def counted_def)
  have L: "0 \<le> vote_confirmed v" "int (length (confirm_count g)) \<le> bhs_block_num g" "bhs_block_num g \<le> UINT32_MAX"
    using assms by (auto simp: grown_inv_def tables_inv_def)
  show ?thesis
  proof (cases rule: set_confirmed_cases[OF pos L, case_names none hit])
    case (hit q)
    then show ?thesis using assms by (auto simp: grown_inv_def tables_inv_def blk_def)
  qed simp
qed

lemma next_inv:
  assumes inv: "dpos_inv p0 s hist" and "next_header_state c s h skip = Inr s'" and ok: "header_ok s h"
  shows "dpos_inv p0 s' (hist @ [header_vote s h]) \<and> bhs_block_num s' = bhs_block_num s + 1
    \<and> dpos_proposed_irreversible_blocknum s \<le> dpos_proposed_irreversible_blocknum s'"
  using assms(2)
proof (cases rule: next_header_state_steps)
  case (1 g r)
  let ?k = "confirmed h" and ?h = "hist @ [header_vote s h]"
  let ?p = "maybe_promote_pending (set_confirmed ?k g)"
  have ti: "tables_inv s" "bhs_block_num s + 1 \<le> UINT32_MAX" using inv ok by (auto simp: dpos_inv_def header_ok_def)
  have gi: "grown_inv p0 g hist (header_vote s h)" using generate_next_inv[OF inv 1(1,2) ok 1(6,8)] .
  have k: "vote_confirmed (header_vote s h) = ?k" by (simp add: header_vote_def)
  note le = proposed_grows[OF gi, unfolded k]
  have ci: "dpos_inv p0 (set_confirmed ?k g) ?h" using set_confirmed_inv[OF gi] by (simp add: k)
  have "dpos_irreversible_blocknum g \<le> dpos_proposed_irreversible_blocknum (set_confirmed ?k g)"
    using lib_le_proposed[OF ti(1) 1(1,2) ti(2)] le by simp
  then have pi: "dpos_inv p0 (snd ?p) ?h" using promote_inv[OF ci] by simp
  have "dpos_inv p0 r ?h" using 1(9) pi set_new_producers_inv[OF pi] ok
    by (auto simp: header_ok_def split: option.splits)
  moreover have "bhs_block_num r = bhs_block_num (snd ?p) \<and>
      dpos_proposed_irreversible_blocknum r = dpos_proposed_irreversible_blocknum (snd ?p)"
    using 1(9) by (auto simp: set_new_producers_def res_simps split: option.splits)
  ultimately show ?thesis
    using 1(10) le tables_inv_generate(2)[OF ti(1) 1(1,2) ti(2)] generate_next_fields(3)[OF 1(1,2)]
    by (simp add: promote_fields)
qed

lemma run_headers_inv:
  assumes "dpos_inv p0 s hist" and "run_headers c s hs = Inr s'" and "run_ok c s hs"
  shows "dpos_inv p0 s' (hist @ run_votes c s hs)"
  using assms
proof (induction hs arbitrary: s hist)
  case (Cons h hs)
  then obtain s1 where s1: "next_header_state c s h True = Inr s1" "run_headers c s1 hs = Inr s'"
    by (auto simp: res_simps)
  then have "dpos_inv p0 s1 (hist @ [header_vote s h])" using next_inv[OF Cons.prems(1) s1(1)] Cons.prems(3) by simp
  from Cons.IH[OF this s1(2)] show ?case using Cons.prems(3) s1(1) by simp
qed simp

lemma start_inv: "start_ok s \<Longrightarrow> dpos_inv (dpos_proposed_irreversible_blocknum s) s []"
  by (simp add: start_ok_def dpos_inv_def tables_inv_def)

subsection \<open>The last irreversible block and the schedule\<close>

lemma tbl_del_length:
  assumes "tbl_ok t"
  shows "\<exists>d \<le> 1. length t = length (tbl_del p t) + d
    \<and> length (filter P t) \<le> length (filter P (tbl_del p t)) + d"
  using assms
proof (induction t)
  case (Cons r t)
  show ?case
  proof (cases "fst r = p")
    case True
    then have "tbl_del p (r # t) = t" using Cons.prems by (force simp: tbl_ok_Cons tbl_del_def filter_id_conv)
    then show ?thesis by (intro exI[of _ 1]) simp
  next
    case False
    then show ?thesis using Cons by (auto simp: tbl_ok_Cons tbl_del_def)
  qed
qed (simp add: tbl_del_def)

lemma calc_dpos_put_max:
  assumes "tbl_ok t" and "\<forall>e \<in> set t. snd e \<le> m" and "0 \<le> m"
    and "producer_to_last_implied_irb s = t" and "producer_to_last_implied_irb s' = tbl_put p m t"
  shows "calc_dpos_last_irreversible s \<le> calc_dpos_last_irreversible s'"
proof -
  let ?x = "calc_dpos_last_irreversible s" and ?P = "\<lambda>e. calc_dpos_last_irreversible s \<le> snd e"
  have x: "?x \<le> m" using calc_dpos_in[of s] assms(2,3,4) by auto
  have ms: "mset (tbl_put p m t) = add_mset (p, m) (mset (tbl_del p t))" by (rule tbl_mset_put[OF assms(1)])
  then have n: "length (tbl_put p m t) = Suc (length (tbl_del p t))"
    by (metis size_mset size_add_mset)
  have c: "length (filter ?P (tbl_put p m t)) = Suc (length (filter ?P (tbl_del p t)))"
    using x arg_cong[OF ms, of "\<lambda>M. size (filter_mset ?P M)"] by (simp flip: mset_filter)
  have ne: "tbl_put p m t \<noteq> []" using n by auto
  show ?thesis
  proof (cases "t = []")
    case True
    then show ?thesis using assms calc_dpos_ge_iff[of s' 0] by (simp add: calc_dpos_last_irreversible_def)
  next
    case False
    then have "2 * length t < 3 * length (filter ?P t)" using calc_dpos_ge_iff[of s ?x] assms(4) by simp
    moreover obtain d where "d \<le> 1" "length t = length (tbl_del p t) + d"
      "length (filter ?P t) \<le> length (filter ?P (tbl_del p t)) + d"
      using tbl_del_length[OF assms(1), of p ?P] by blast
    ultimately have "2 * length (tbl_put p m t) < 3 * length (filter ?P (tbl_put p m t))"
      unfolding n c by presburger
    then show ?thesis using calc_dpos_ge_iff[of s' ?x] ne assms(5) by simp
  qed
qed

lemma next_lib:
  assumes "dpos_inv p0 s hist" and "next_header_state c s h skip = Inr s'" and "header_ok s h"
  shows "calc_dpos_last_irreversible s \<le> dpos_irreversible_blocknum s'
    \<and> dpos_irreversible_blocknum s' \<le> dpos_proposed_irreversible_blocknum s'"
  using assms(2)
proof (cases rule: next_header_state_steps)
  case (1 g r)
  have ti: "tables_inv s" "bhs_block_num s + 1 \<le> UINT32_MAX" using assms by (auto simp: dpos_inv_def header_ok_def)
  note gf = generate_next_fields[OF 1(1,2)]
  obtain pk :: producer_key where "producer_to_last_implied_irb g
       = tbl_put (producer_name pk) (dpos_proposed_irreversible_blocknum s) (producer_to_last_implied_irb s)"
    using gf(1) by blast
  then have "calc_dpos_last_irreversible s \<le> dpos_irreversible_blocknum g"
    unfolding gf(8) using ti by (intro calc_dpos_put_max[OF _ _ _ refl]) (auto simp: tables_inv_def)
  moreover have "dpos_irreversible_blocknum s' = dpos_irreversible_blocknum g"
    using 1(9,10) by (auto simp: promote_fields set_new_producers_def res_simps split: option.splits)
  moreover have "dpos_proposed_irreversible_blocknum s = dpos_proposed_irreversible_blocknum g" using gf(3) by simp
  ultimately show ?thesis
    using lib_le_proposed[OF ti(1) 1(1,2) ti(2)] next_inv[OF assms] by simp
qed

lemma num_from_header_id:
  assumes "\<And>w. endian_reverse_u32 c (endian_reverse_u32 c w) = w"
  shows "num_from_id c (header_id c h) = header_block_num c h"
proof -
  have "ucast ((a AND 0xffffffff00000000) + ucast w :: 64 word) = (w :: 32 word)" for a :: "64 word" and w
  proof -
    have m: "(0xffffffff00000000 :: 64 word) = push_bit 32 (mask 32)" by (simp add: mask_eq_exp_minus_1)
    have "(a AND 0xffffffff00000000) + ucast w = (a AND 0xffffffff00000000) OR ucast w"
      unfolding m by (intro disjunctive_add) (auto simp: bit_simps dest: bit_imp_le_length)
    then show ?thesis unfolding m by (intro bit_word_eqI) (auto simp: bit_simps)
  qed
  then show ?thesis using assms by (simp add: num_from_id_def header_id_def split: digest.split)
qed

text \<open>The header kept by the new state is the header that was applied.\<close>

lemma next_header:
  assumes "next_header_state c s h skip = Inr s'"
  shows "bhs_header s' = h \<and> bhs_id s' = header_id c h"
  using assms
proof (cases rule: next_header_state_steps)
  case (1 g r)
  have "bhs_header g = zero_header\<lparr>timestamp := timestamp h, previous := bhs_id s,
      schedule_version := sched_version (active_schedule s), producer := producer (bhs_header g)\<rparr>"
    using 1(1,2) by (auto simp: generate_next_def res_simps Let_def)
  then have "bhs_header r = zero_header\<lparr>timestamp := timestamp h, previous := previous h,
      schedule_version := schedule_version h, producer := producer h, confirmed := confirmed h, new_producers := new_producers h\<rparr>"
    using 1(5,6,7,9) generate_next_fields(1)[OF 1(1,2)]
    by (auto simp: promote_fields set_new_producers_def set_confirmed_def Let_def res_simps zero_header_def
        split: option.splits prod.splits)
  then have "bhs_header (sealed c h r) = h" using 1(3) by (simp add: sealed_def Let_def zero_header_def)
  then show ?thesis using 1(10) sealed_fields(14) by metis
qed

lemma next_signing_key:
  assumes "next_header_state c s h skip = Inr s'"
  shows "\<exists>k. get_scheduled_producer s (timestamp h) = Inr k \<and> producer h = producer_name k
    \<and> block_signing_key s' = key_of_producer k \<and> bhs_block_num s' = u32 (bhs_block_num s + 1)"
  using assms
proof (cases rule: next_header_state_steps)
  case (1 g r)
  have "block_signing_key r = block_signing_key g \<and> bhs_block_num r = bhs_block_num g"
    using 1(9) by (auto simp: promote_fields set_new_producers_def res_simps split: option.splits)
  then show ?thesis using 1(6,10) generate_next_fields(1,2)[OF 1(1,2)] by auto
qed

lemma next_schedule:
  assumes "next_header_state c s h skip = Inr s'" and "active_schedule s' \<noteq> active_schedule s"
  shows "active_schedule s' = pending_schedule s \<and> sched_producers (pending_schedule s) \<noteq> []
    \<and> pending_schedule_lib_num s \<le> dpos_irreversible_blocknum s' \<and> sched_producers (pending_schedule s') = []
    \<and> new_producers h = None
    \<and> (\<forall>k \<in> set (sched_producers (active_schedule s')). is_active_producer s' (producer_name k))"
  using assms(1)
proof (cases rule: next_header_state_steps)
  case (1 g r)
  note gf = generate_next_fields(4,5,6)[OF 1(1,2)]
  have "active_schedule r \<noteq> active_schedule g" using assms(2) 1(10) gf by simp
  then have "new_producers h = None" "r = snd (maybe_promote_pending (set_confirmed (confirmed h) g))"
    using 1(9) by (auto simp: maybe_promote_pending_def set_new_producers_def res_simps split: option.splits if_splits)
  then show ?thesis using \<open>active_schedule r \<noteq> active_schedule g\<close> 1(10) gf
    by (auto simp: maybe_promote_pending_def is_active_producer_def tbl_find_put promote_counts_find split: if_splits)
qed

text \<open>A header that confirms no earlier block still counts for its own block.\<close>

lemma set_confirmed_own_block:
  assumes "confirm_count s = cc @ [n]" and "1 < n" and "n \<le> 255"
  shows "confirm_count (set_confirmed 0 s) = cc @ [n - 1]"
proof -
  have "confirm_loop (length cc) 0 (cc @ [n - 1]) = (cc @ [n - 1], None)" by (cases "length cc") simp_all
  then show ?thesis using assms by (simp add: set_confirmed_def u8_def Let_def)
qed

subsection \<open>Concrete runs\<close>

definition toy_crypto :: crypto where
  "toy_crypto = \<lparr>hash_header = (\<lambda>h. zero_digest), hash_pair = fst, hash_schedule = (\<lambda>s. zero_digest),
     recover_key = (\<lambda>sg d. sg), endian_reverse_u32 = (\<lambda>w. w)\<rparr>"

definition demo_schedule :: "nat \<Rightarrow> producer_schedule" where
  "demo_schedule n = \<lparr>sched_version = 1, sched_producers =
     map (\<lambda>i. \<lparr>producer_name = of_nat (i + 1), key_of_producer = i + 1\<rparr>) [0..<n]\<rparr>"

definition demo_genesis :: "nat \<Rightarrow> block_header_state" where
  "demo_genesis n = \<lparr>bhs_id = Digest 1 0 0 0, bhs_block_num = 1, bhs_header = zero_header,
     dpos_proposed_irreversible_blocknum = 1, dpos_irreversible_blocknum = 1, bft_irreversible_blocknum = 0,
     pending_schedule_lib_num = 0, pending_schedule_hash = zero_digest, pending_schedule = empty_schedule,
     active_schedule = demo_schedule n, blockroot_merkle = \<lparr>node_count = 0, active_nodes = []\<rparr>,
     producer_to_last_produced = [], producer_to_last_implied_irb = [], block_signing_key = 0,
     confirm_count = [], confirmations = []\<rparr>"

definition demo_header :: "int \<Rightarrow> account_name \<Rightarrow> int \<Rightarrow> 64 word \<Rightarrow> block_header" where
  "demo_header t p k prev = zero_header\<lparr>timestamp := t, producer := p, confirmed := k,
     previous := Digest prev 0 0 0, schedule_version := 1\<rparr>"


lemma demo_start: "start_ok (demo_genesis 2)" "start_ok (demo_genesis 3)"
  by (simp_all add: start_ok_def demo_genesis_def demo_schedule_def empty_schedule_def max_producers_def)

definition demo_headers :: "block_header list" where
  "demo_headers = [demo_header 1 2 0 1, demo_header 2 1 1 2, demo_header 3 2 0 3]"

definition demo_end :: block_header_state where
  "demo_end = (case run_headers toy_crypto (demo_genesis 2) demo_headers of Inr s \<Rightarrow> s | Inl e \<Rightarrow> demo_genesis 2)"

lemma demo_headers_run:
  "run_headers toy_crypto (demo_genesis 2) demo_headers = Inr demo_end"
  "run_ok toy_crypto (demo_genesis 2) demo_headers"
  "dpos_proposed_irreversible_blocknum demo_end = 2"
  "dpos_proposed_irreversible_blocknum (demo_genesis 2) = 1"
  by code_simp+

definition repeat_headers :: "block_header list" where
  "repeat_headers = [demo_header 3 1 10 1, demo_header 6 1 10 2, demo_header 9 1 10 3]"

definition demo_state :: "nat \<Rightarrow> block_header_state" where
  "demo_state n = (case run_headers toy_crypto (demo_genesis 2) (take n demo_headers) of
     Inr s \<Rightarrow> s | Inl e \<Rightarrow> demo_genesis 2)"

definition demo_pending :: block_header_state where
  "demo_pending = (demo_genesis 2)\<lparr>pending_schedule := demo_schedule 3\<rparr>"

subsection \<open>Properties\<close>






text \<open>C24. The last irreversible block is the greatest block number that more than two thirds of the producers of the
  table have (implied) as irreversible: a number is at most the computed one exactly when more than two thirds of the
  entries are at least that number.\<close>

theorem last_irreversible_two_thirds:
  assumes "producer_to_last_implied_irb s \<noteq> []"
  shows "x \<le> calc_dpos_last_irreversible s \<longleftrightarrow>
    2 * length (producer_to_last_implied_irb s)
      < 3 * length (filter (\<lambda>e. x \<le> snd e) (producer_to_last_implied_irb s))"
  by (rule calc_dpos_ge_iff[OF assms])

theorem last_irreversible_two_thirds_witness:
  "let s = (demo_genesis 3)\<lparr>producer_to_last_implied_irb := [(1, 5), (2, 9), (3, 7), (4, 8)]\<rparr>
   in 7 \<le> calc_dpos_last_irreversible s \<and> \<not> 8 \<le> calc_dpos_last_irreversible s"
  by (simp add: Let_def last_irreversible_two_thirds)

text \<open>A header that \<open>next\<close> accepts was built by the producer scheduled for its slot and signed with that
  producer's key, extends the head by one block and is later than it; the new state holds that very header, and the
  block number stored in its id is the state's block number. The byte swap of the library is an involution.\<close>

theorem next_extends_chain:
  assumes "\<And>w. endian_reverse_u32 c (endian_reverse_u32 c w) = w"
    and "num_from_id c (bhs_id s) = of_int (bhs_block_num s)" and "next_header_state c s h False = Inr s'"
  shows "\<exists>k. get_scheduled_producer s (timestamp h) = Inr k \<and> producer h = producer_name k
    \<and> signee c s' = key_of_producer k \<and> bhs_header s' = h \<and> previous h = bhs_id s
    \<and> timestamp (bhs_header s) < timestamp h
    \<and> bhs_block_num s' = u32 (bhs_block_num s + 1) \<and> num_from_id c (bhs_id s') = of_int (bhs_block_num s')"
proof -
  have s: "signee c s' = block_signing_key s'" "previous h = bhs_id s" "timestamp (bhs_header s) < timestamp h"
    using assms(3) by (auto elim: next_header_state_steps)
  have "of_int (u32 x) = (of_int x :: 32 word)" for x
    by (simp add: u32_def word_of_int_eq_iff take_bit_eq_mod)
  then have "num_from_id c (header_id c h) = of_int (u32 (bhs_block_num s + 1))"
    using num_from_header_id[OF assms(1)] s(2) assms(2) by (simp add: header_block_num_def)
  then show ?thesis using s next_header[OF assms(3)] next_signing_key[OF assms(3)] by auto
qed

theorem next_extends_chain_witness:
  "\<exists>s'. next_header_state toy_crypto (demo_genesis 2) ((demo_headers ! 0)\<lparr>producer_signature := 2\<rparr>) False = Inr s'
     \<and> num_from_id toy_crypto (bhs_id s') = of_int (bhs_block_num s')"
proof -
  have "\<And>w. endian_reverse_u32 toy_crypto (endian_reverse_u32 toy_crypto w) = w" by (simp add: toy_crypto_def)
  moreover have "num_from_id toy_crypto (bhs_id (demo_genesis 2)) = of_int (bhs_block_num (demo_genesis 2))" by code_simp
  moreover have "case next_header_state toy_crypto (demo_genesis 2) ((demo_headers ! 0)\<lparr>producer_signature := 2\<rparr>) False of
      Inl e \<Rightarrow> False | Inr s' \<Rightarrow> True" by code_simp
  then obtain s' where "next_header_state toy_crypto (demo_genesis 2) ((demo_headers ! 0)\<lparr>producer_signature := 2\<rparr>) False = Inr s'"
    by (auto split: sum.splits)
  ultimately show ?thesis using next_extends_chain by blast
qed

text \<open>C9. The active schedule changes only when a non-empty pending schedule exists whose announcing block is at or
  below the last irreversible block; it becomes that schedule, nothing is pending afterwards, the header announces no
  schedule itself, and every producer of the new schedule is an active producer of the new state.\<close>

theorem schedule_change_irreversible:
  assumes "next_header_state c s h skip = Inr s'" and "active_schedule s' \<noteq> active_schedule s"
  shows "active_schedule s' = pending_schedule s \<and> sched_producers (pending_schedule s) \<noteq> []
    \<and> pending_schedule_lib_num s \<le> dpos_irreversible_blocknum s' \<and> sched_producers (pending_schedule s') = []
    \<and> new_producers h = None
    \<and> (\<forall>k \<in> set (sched_producers (active_schedule s')). is_active_producer s' (producer_name k))"
  by (rule next_schedule[OF assms])

theorem schedule_change_irreversible_witness:
  "\<exists>s'. next_header_state toy_crypto demo_pending (demo_headers ! 0) True = Inr s' \<and> active_schedule s' = demo_schedule 3
     \<and> is_active_producer s' 3"
proof -
  have "case next_header_state toy_crypto demo_pending (demo_headers ! 0) True of Inl e \<Rightarrow> False
      | Inr s' \<Rightarrow> active_schedule s' \<noteq> active_schedule demo_pending" by code_simp
  then obtain s' where "next_header_state toy_crypto demo_pending (demo_headers ! 0) True = Inr s'"
    "active_schedule s' \<noteq> active_schedule demo_pending"
    by (auto split: sum.splits)
  moreover have "pending_schedule demo_pending = demo_schedule 3" by (simp add: demo_pending_def)
  moreover have "3 \<in> producer_name ` set (sched_producers (demo_schedule 3))" by code_simp
  ultimately show ?thesis using schedule_change_irreversible[of toy_crypto demo_pending "demo_headers ! 0" True s'] by force
qed

end
