(* ===== verification/Fork_Database.thy ===== *)
theory Fork_Database
  imports Dpos
begin

text \<open>
  The fork database (\<open>fork_database.cpp\<close>, \<open>block_state.cpp\<close>): the block states of all forks that are not yet
  irreversible, the best of them, and the operations that add, confirm, prune and remove blocks and that compare two
  branches.

  The Boost container is the list of its elements in the order of insertion. An ordered index of it is that list sorted
  stably by the index's key, so that elements with equal keys come in the order of insertion. The irreversible signal
  is the list of the blocks it was emitted for. Dereferencing a null pointer, an end iterator or an erased iterator is
  the error \<open>Undefined\<close>; a loop that comes back to a block it has visited never ends, which is \<open>Diverges\<close>.
\<close>

subsection \<open>Block states\<close>

record block_state =
  hs :: block_header_state
  bs_block :: block_header
  validated :: bool
  in_current_chain :: bool

abbreviation bs_id :: "block_state \<Rightarrow> digest" where "bs_id b \<equiv> bhs_id (hs b)"
abbreviation bs_num :: "block_state \<Rightarrow> int" where "bs_num b \<equiv> bhs_block_num (hs b)"
abbreviation bs_prev :: "block_state \<Rightarrow> digest" where "bs_prev b \<equiv> previous (bhs_header (hs b))"
abbreviation bs_lib :: "block_state \<Rightarrow> int" where "bs_lib b \<equiv> dpos_irreversible_blocknum (hs b)"
abbreviation bs_bft :: "block_state \<Rightarrow> int" where "bs_bft b \<equiv> bft_irreversible_blocknum (hs b)"

datatype fork_error =
    Fork_database_exception
  | Fork_db_block_not_found
  | Unlinkable_block
  | Header_error block_error
  | Undefined
  | Diverges

fun lift_header :: "block_error + 'a \<Rightarrow> fork_error + 'a" where
  "lift_header (Inl e) = Inl (Header_error e)"
| "lift_header (Inr x) = Inr x"

definition new_block_state :: "crypto \<Rightarrow> block_header_state \<Rightarrow> int \<Rightarrow> fork_error + block_state" where
  "new_block_state c prev when =
     bnd (lift_header (generate_next c prev when)) (\<lambda>s.
       Inr \<lparr>hs = s, bs_block = bhs_header s, validated = False, in_current_chain = False\<rparr>)"

definition next_block_state :: "crypto \<Rightarrow> block_header_state \<Rightarrow> block_header \<Rightarrow> bool \<Rightarrow> fork_error + block_state" where
  "next_block_state c prev b skip_validate_signee =
     bnd (lift_header (next_header_state c prev b skip_validate_signee)) (\<lambda>s.
       Inr \<lparr>hs = s, bs_block = b, validated = False, in_current_chain = False\<rparr>)"

subsection \<open>The indices\<close>

record fork_database =
  fork_index :: "block_state list"
  fork_head :: "block_state option"
  irreversible_log :: "block_state list"

definition get_block :: "fork_database \<Rightarrow> digest \<Rightarrow> block_state option" where
  "get_block db i = find (\<lambda>b. bs_id b = i) (fork_index db)"

text \<open>The index \<open>by_lib_block_num\<close> orders by the three keys, greatest first.\<close>

definition better :: "block_state \<Rightarrow> block_state \<Rightarrow> bool" where
  "better a b \<longleftrightarrow> bs_lib a > bs_lib b \<or> (bs_lib a = bs_lib b \<and>
     (bs_bft a > bs_bft b \<or> (bs_bft a = bs_bft b \<and> bs_num a > bs_num b)))"

fun best_from :: "block_state \<Rightarrow> block_state list \<Rightarrow> block_state" where
  "best_from b [] = b"
| "best_from b (x # xs) = best_from (if better x b then x else b) xs"

fun lib_begin :: "block_state list \<Rightarrow> block_state option" where
  "lib_begin [] = None"
| "lib_begin (x # xs) = Some (best_from x xs)"

definition num_key :: "block_state \<Rightarrow> int \<times> bool" where
  "num_key b = (bs_num b, \<not> in_current_chain b)"

definition by_block_num :: "block_state list \<Rightarrow> block_state list" where
  "by_block_num idx = sort_key num_key idx"

definition children :: "digest \<Rightarrow> block_state list \<Rightarrow> block_state list" where
  "children i idx = filter (\<lambda>b. bs_prev b = i) idx"

definition erase_block :: "digest \<Rightarrow> block_state list \<Rightarrow> block_state list" where
  "erase_block i idx = filter (\<lambda>b. bs_id b \<noteq> i) idx"

definition insert_block :: "block_state \<Rightarrow> block_state list \<Rightarrow> block_state list option" where
  "insert_block b idx = (if list_all (\<lambda>x. bs_id x \<noteq> bs_id b) idx then Some (idx @ [b]) else None)"

text \<open>A change of a block state through its shared pointer: the head is the same object as the element of the index.\<close>

definition modify_block :: "(block_state \<Rightarrow> block_state) \<Rightarrow> digest \<Rightarrow> fork_database \<Rightarrow> fork_database" where
  "modify_block f i db = db\<lparr>
     fork_index := map (\<lambda>b. if bs_id b = i then f b else b) (fork_index db),
     fork_head := map_option (\<lambda>b. if bs_id b = i then f b else b) (fork_head db)\<rparr>"

subsection \<open>Removing and pruning\<close>

text \<open>The queue of \<open>remove\<close>: a step erases a block and appends the blocks built on it. The queue holds the given id and
  then only ids of elements that are still in the index, so the size of the index plus one bounds the steps.\<close>

fun remove_loop :: "nat \<Rightarrow> digest list \<Rightarrow> block_state list \<Rightarrow> block_state list option" where
  "remove_loop n [] idx = Some idx"
| "remove_loop 0 (q # qs) idx = None"
| "remove_loop (Suc n) (q # qs) idx =
     (let idx' = erase_block q idx in remove_loop n (qs @ map bs_id (children q idx')) idx')"

definition remove_block :: "digest \<Rightarrow> fork_database \<Rightarrow> fork_error + fork_database" where
  "remove_block i db =
     need (remove_loop (Suc (length (fork_index db))) [i] (fork_index db)) Diverges (\<lambda>idx.
     need (lib_begin idx) Undefined (\<lambda>h. Inr (db\<lparr>fork_index := idx, fork_head := Some h\<rparr>)))"

text \<open>The last loop of \<open>prune\<close>: \<open>nitr\<close> is advanced before the block it pointed to is removed together with the blocks
  built on it. If the block it was advanced to is among them, the iterator is no longer valid.\<close>

fun next_in :: "digest \<Rightarrow> block_state list \<Rightarrow> block_state option" where
  "next_in i [] = None"
| "next_in i [x] = None"
| "next_in i (x # y # xs) = (if bs_id x = i then Some y else next_in i (y # xs))"

fun prune_siblings :: "nat \<Rightarrow> int \<Rightarrow> block_state option \<Rightarrow> fork_database \<Rightarrow> fork_error + fork_database" where
  "prune_siblings n num None db = Inr db"
| "prune_siblings 0 num (Some b) db = Inl Diverges"
| "prune_siblings (Suc n) num (Some b) db =
     (if bs_num b = num then
        let nitr = next_in (bs_id b) (by_block_num (fork_index db)) in
        bnd (remove_block (bs_id b) db) (\<lambda>db'.
          case nitr of None \<Rightarrow> Inr db'
          | Some x \<Rightarrow> chk (get_block db' (bs_id x) \<noteq> None) Undefined (prune_siblings n num (Some x) db'))
      else Inr db)"

definition prune_here :: "block_state \<Rightarrow> fork_database \<Rightarrow> fork_error + fork_database" where
  "prune_here h db =
     (let db1 = (case get_block db (bs_id h) of None \<Rightarrow> db
          | Some x \<Rightarrow> db\<lparr>irreversible_log := irreversible_log db @ [x], fork_index := erase_block (bs_id h) (fork_index db)\<rparr>)
      in prune_siblings (Suc (length (fork_index db1))) (bs_num h)
           (find (\<lambda>b. bs_num b \<ge> bs_num h) (by_block_num (fork_index db1))) db1)"

text \<open>\<open>prune\<close> first prunes the blocks with smaller numbers, lowest first. Such an inner call finds no smaller number
  itself, so that it does only the work of \<open>prune_here\<close>. Each round erases at least the first block.\<close>

fun prune_below :: "nat \<Rightarrow> int \<Rightarrow> fork_database \<Rightarrow> fork_error + fork_database" where
  "prune_below n num db =
     (case by_block_num (fork_index db) of [] \<Rightarrow> Inr db
      | b # bs \<Rightarrow> if bs_num b < num
          then (case n of 0 \<Rightarrow> Inl Diverges | Suc m \<Rightarrow> bnd (prune_here b db) (\<lambda>db'. prune_below m num db'))
          else Inr db)"

definition prune :: "block_state \<Rightarrow> fork_database \<Rightarrow> fork_error + fork_database" where
  "prune h db = bnd (prune_below (length (fork_index db)) (bs_num h) db) (\<lambda>db'. prune_here h db')"

subsection \<open>Adding blocks\<close>

definition set_root :: "crypto \<Rightarrow> block_state \<Rightarrow> fork_database \<Rightarrow> fork_error + fork_database" where
  "set_root c s db =
     chk (bs_id s = header_id c (bhs_header (hs s))) Fork_database_exception
      (need (insert_block s (fork_index db)) Fork_database_exception (\<lambda>idx.
        Inr (db\<lparr>fork_index := idx, fork_head :=
          (case fork_head db of None \<Rightarrow> Some s | Some h \<Rightarrow> if bs_num h < bs_num s then Some s else Some h)\<rparr>)))"

definition add_block_state :: "block_state \<Rightarrow> bool \<Rightarrow> fork_database \<Rightarrow> fork_error + fork_database" where
  "add_block_state n skip_validate_previous db =
     chk (fork_head db \<noteq> None) Fork_db_block_not_found
     (chk (skip_validate_previous \<or> get_block db (previous (bs_block n)) \<noteq> None) Unlinkable_block
      (need (insert_block n (fork_index db)) Fork_database_exception (\<lambda>idx.
       need (lib_begin idx) Undefined (\<lambda>h.
       let db1 = db\<lparr>fork_index := idx, fork_head := Some h\<rparr>; oldest = hd (by_block_num idx) in
       if bs_num oldest < bs_lib h then prune oldest db1 else Inr db1))))"

definition add_block :: "crypto \<Rightarrow> block_header \<Rightarrow> bool \<Rightarrow> fork_database \<Rightarrow> fork_error + fork_database" where
  "add_block c b skip_validate_signee db =
     chk (fork_head db \<noteq> None) Fork_db_block_not_found
     (chk (get_block db (header_id c b) = None) Fork_database_exception
      (need (get_block db (previous b)) Unlinkable_block (\<lambda>prior.
       bnd (next_block_state c (hs prior) b skip_validate_signee) (\<lambda>result. add_block_state result True db))))"

definition set_validity :: "block_state \<Rightarrow> bool \<Rightarrow> fork_database \<Rightarrow> fork_error + fork_database" where
  "set_validity h valid db =
     (if \<not> valid then remove_block (bs_id h) db
      else Inr (modify_block (\<lambda>b. b\<lparr>validated := True\<rparr>) (bs_id h) db))"

definition mark_in_current_chain :: "block_state \<Rightarrow> bool \<Rightarrow> fork_database \<Rightarrow> fork_error + fork_database" where
  "mark_in_current_chain h cur db =
     (if in_current_chain h = cur then Inr db
      else need (get_block db (bs_id h)) Fork_db_block_not_found (\<lambda>_.
        Inr (modify_block (\<lambda>b. b\<lparr>in_current_chain := cur\<rparr>) (bs_id h) db)))"

definition get_block_in_current_chain_by_num :: "int \<Rightarrow> fork_database \<Rightarrow> block_state option" where
  "get_block_in_current_chain_by_num n db =
     (case find (\<lambda>b. bs_num b \<ge> n) (by_block_num (fork_index db)) of None \<Rightarrow> None
      | Some b \<Rightarrow> if bs_num b \<noteq> n \<or> \<not> in_current_chain b then None else Some b)"

subsection \<open>Confirmations\<close>

definition set_bft :: "int \<Rightarrow> block_state \<Rightarrow> block_state" where
  "set_bft num b = b\<lparr>hs := (hs b)\<lparr>bft_irreversible_blocknum := num\<rparr>\<rparr>"

text \<open>One layer: for each id of the queue, the children whose number is smaller are updated and returned.\<close>

fun bft_update :: "int \<Rightarrow> digest list \<Rightarrow> fork_database \<Rightarrow> digest list \<times> fork_database" where
  "bft_update num [] db = ([], db)"
| "bft_update num (i # is) db =
     (let upd = map bs_id (filter (\<lambda>b. bs_bft b < num) (children i (fork_index db)));
          db' = fold (modify_block (set_bft num)) upd db;
          (updated, db'') = bft_update num is db'
      in (upd @ updated, db''))"

definition behind :: "int \<Rightarrow> fork_database \<Rightarrow> nat" where
  "behind num db = length (filter (\<lambda>b. bs_bft b < num) (fork_index db))"

lemma behind_map_le:
  "length (filter (\<lambda>b. bs_bft b < num) (map (\<lambda>x. if bs_id x = i then set_bft num x else x) xs))
     \<le> length (filter (\<lambda>b. bs_bft b < num) xs)"
  by (induction xs) (auto simp: set_bft_def)

lemma behind_modify: "behind num (modify_block (set_bft num) i db) \<le> behind num db"
  using behind_map_le[of num i "fork_index db"] by (simp add: behind_def modify_block_def)

lemma behind_modify_less:
  assumes "b \<in> set (fork_index db)" "bs_bft b < num"
  shows "behind num (modify_block (set_bft num) (bs_id b) db) < behind num db"
proof -
  let ?f = "\<lambda>x. if bs_id x = bs_id b then set_bft num x else x"
  have "b \<in> set xs \<Longrightarrow> length (filter (\<lambda>b. bs_bft b < num) (map ?f xs)) < length (filter (\<lambda>b. bs_bft b < num) xs)" for xs
  proof (induction xs)
    case (Cons x xs)
    show ?case
    proof (cases "x = b")
      case True
      then show ?thesis using assms(2) behind_map_le[of num "bs_id b" xs] by (simp add: set_bft_def)
    next
      case False
      then show ?thesis using Cons by (auto simp: set_bft_def)
    qed
  qed simp
  then show ?thesis using assms(1) by (simp add: behind_def modify_block_def)
qed

lemma behind_fold: "behind num (fold (modify_block (set_bft num)) is db) \<le> behind num db"
  by (induction "is" arbitrary: db) (auto intro: order_trans[OF _ behind_modify])

lemma bft_update_behind:
  "bft_update num q db = (updated, db') \<Longrightarrow> behind num db' \<le> behind num db \<and> (updated \<noteq> [] \<longrightarrow> behind num db' < behind num db)"
proof (induction num q db arbitrary: updated db' rule: bft_update.induct)
  case (2 num i "is" db)
  define upd where "upd = map bs_id (filter (\<lambda>b. bs_bft b < num) (children i (fork_index db)))"
  define db1 where "db1 = fold (modify_block (set_bft num)) upd db"
  obtain u where u: "bft_update num is db1 = (u, db')" "updated = upd @ u"
    using 2(2) by (auto simp: Let_def upd_def db1_def split: prod.splits)
  have ih: "behind num db' \<le> behind num db1 \<and> (u \<noteq> [] \<longrightarrow> behind num db' < behind num db1)"
    using 2(1)[OF upd_def db1_def u(1)] .
  have "behind num db1 \<le> behind num db" by (simp add: db1_def behind_fold)
  moreover have "behind num db1 < behind num db" if "upd \<noteq> []"
  proof -
    obtain x xs where x: "filter (\<lambda>b. bs_bft b < num) (children i (fork_index db)) = x # xs"
      using \<open>upd \<noteq> []\<close> by (auto simp: upd_def neq_Nil_conv)
    then have "x \<in> set (fork_index db)" "bs_bft x < num"
      using list.set_intros(1)[of x xs] unfolding x[symmetric] by (auto simp: children_def)
    moreover have "upd = bs_id x # map bs_id xs" using x by (simp add: upd_def)
    ultimately show ?thesis using behind_modify_less[of x db num] behind_fold[of num "map bs_id xs"]
      by (simp add: db1_def) (metis le_less_trans)
  qed
  ultimately show ?case using ih u(2) by auto
qed simp

function bft_loop :: "int \<Rightarrow> digest list \<Rightarrow> fork_database \<Rightarrow> fork_database" where
  "bft_loop num queue db =
     (if queue = [] then db
      else let r = bft_update num queue db in bft_loop num (fst r) (snd r))"
  by pat_completeness auto
termination
proof (relation "measures [\<lambda>(num, queue, db). behind num db, \<lambda>(num, queue, db). length queue]", goal_cases)
  case (2 num queue db r)
  then show ?case using bft_update_behind[of num queue db "fst r" "snd r"] by (cases "fst r = []") (auto simp: case_prod_beta)
qed simp

declare bft_loop.simps [simp del]

definition set_bft_irreversible :: "digest \<Rightarrow> fork_database \<Rightarrow> fork_error + fork_database" where
  "set_bft_irreversible i db =
     need (get_block db i) Undefined (\<lambda>b.
       Inr (bft_loop (bs_num b) [i] (modify_block (\<lambda>b. set_bft (bs_num b) b) i db)))"

definition add_header_confirmation :: "crypto \<Rightarrow> header_confirmation \<Rightarrow> fork_database \<Rightarrow> fork_error + fork_database" where
  "add_header_confirmation c conf db =
     need (get_block db (conf_block_id conf)) Fork_db_block_not_found (\<lambda>b.
     bnd (lift_header (add_confirmation c conf (hs b))) (\<lambda>s.
     let db1 = modify_block (\<lambda>x. x\<lparr>hs := s\<rparr>) (conf_block_id conf) db in
     if bft_irreversible_blocknum s < bhs_block_num s
       \<and> length (confirmations s) \<ge> (length (sched_producers (active_schedule s)) * 2) div 3 + 1
     then set_bft_irreversible (conf_block_id conf) db1 else Inr db1))"

subsection \<open>Comparing branches\<close>

text \<open>The three loops of \<open>fetch_branch_from\<close>. The assertion after a lookup evaluates the previous id of the block that
  was not found to build its message, so a missing block is a null pointer access.\<close>

fun down_to :: "nat \<Rightarrow> fork_database \<Rightarrow> int \<Rightarrow> block_state \<Rightarrow> fork_error + block_state list \<times> block_state" where
  "down_to n db m b =
     (if bs_num b > m then
        (case n of 0 \<Rightarrow> Inl Diverges
         | Suc k \<Rightarrow> need (get_block db (bs_prev b)) Undefined (\<lambda>p.
             bnd (down_to k db m p) (\<lambda>(l, x). Inr (b # l, x))))
      else Inr ([], b))"

fun meet :: "nat \<Rightarrow> fork_database \<Rightarrow> block_state \<Rightarrow> block_state \<Rightarrow> fork_error + block_state list \<times> block_state list" where
  "meet n db a b =
     (if bs_prev a \<noteq> bs_prev b then
        (case n of 0 \<Rightarrow> Inl Diverges
         | Suc k \<Rightarrow> need (get_block db (bs_prev a)) Undefined (\<lambda>a'.
             need (get_block db (bs_prev b)) Undefined (\<lambda>b'.
             bnd (meet k db a' b') (\<lambda>(l1, l2). Inr (a # l1, b # l2)))))
      else Inr ([a], [b]))"

declare prune_below.simps [simp del] down_to.simps [simp del] meet.simps [simp del]

definition fetch_branch_from :: "fork_database \<Rightarrow> digest \<Rightarrow> digest \<Rightarrow> fork_error + block_state list \<times> block_state list" where
  "fetch_branch_from db first second =
     (let n = length (fork_index db) in
      need (get_block db first) Undefined (\<lambda>a.
      need (get_block db second) Undefined (\<lambda>b.
      bnd (down_to n db (bs_num b) a) (\<lambda>(l1, a').
      bnd (down_to n db (bs_num a') b) (\<lambda>(l2, b').
      bnd (meet (n * n) db a' b') (\<lambda>(m1, m2). Inr (l1 @ m1, l2 @ m2)))))))"

definition close_db :: "fork_database \<Rightarrow> fork_error + fork_database" where
  "close_db db =
     (if fork_index db = [] then Inr db
      else need (fork_head db) Undefined (\<lambda>h.
        let oldest = hd (by_block_num (fork_index db)) in
        bnd (if bs_num oldest \<le> bs_lib h then prune oldest db else Inr db) (\<lambda>db'. Inr (db'\<lparr>fork_index := []\<rparr>))))"

subsection \<open>The best block\<close>

lemma better_trans_le: "\<not> better b a \<Longrightarrow> better c a \<Longrightarrow> \<not> better b c"
  by (auto simp: better_def)

lemma best_from_mem: "best_from b xs \<in> set (b # xs)"
  by (induction b xs rule: best_from.induct) auto

lemma not_better_trans: "\<not> better x y \<Longrightarrow> \<not> better y z \<Longrightarrow> \<not> better x z"
  by (auto simp: better_def)

lemma best_from_max: "x \<in> set (b # xs) \<Longrightarrow> \<not> better x (best_from b xs)"
proof (induction b xs arbitrary: x rule: best_from.induct)
  case (1 b)
  then show ?case by (simp add: better_def)
next
  case (2 b y ys)
  let ?b = "if better y b then y else b"
  have m: "\<not> better ?b (best_from ?b ys)" using 2(1)[of ?b] by simp
  have "\<not> better y ?b" "\<not> better b ?b" by (auto simp: better_def)
  then show ?case using 2(2) 2(1)[of x] not_better_trans[OF _ m] by auto
qed

lemma lib_begin_best:
  "lib_begin xs = Some h \<Longrightarrow> h \<in> set xs \<and> (\<forall>x \<in> set xs. \<not> better x h)"
  using best_from_mem best_from_max by (cases xs) fastforce+

lemma lib_begin_None [simp]: "lib_begin xs = None \<longleftrightarrow> xs = []"
  by (cases xs) auto

subsection \<open>Removal\<close>

definition links :: "block_state list \<Rightarrow> (digest \<times> digest) set" where
  "links idx = (\<lambda>b. (bs_prev b, bs_id b)) ` set idx"

text \<open>The ids reachable from the queue.\<close>

definition reach :: "digest list \<Rightarrow> block_state list \<Rightarrow> digest set" where
  "reach qs idx = (links idx)\<^sup>* `` set qs"

lemma reach_erase:
  "reach (qs @ map bs_id (children q (erase_block q idx))) (erase_block q idx) \<union> {q} = reach (q # qs) idx"
proof -
  let ?e = "erase_block q idx" and ?c = "map bs_id (children q (erase_block q idx))"
  have sub: "links ?e \<subseteq> links idx" by (auto simp: links_def erase_block_def)
  have c: "(q, x) \<in> links idx" if "x \<in> set ?c" for x using that by (auto simp: links_def children_def erase_block_def image_iff)
  have "x \<in> reach (qs @ ?c) ?e \<union> {q}" if "(y, x) \<in> (links idx)\<^sup>*" "y = q \<or> y \<in> set qs" for x y
    using that
  proof (induction rule: rtrancl_induct)
    case base
    then show ?case by (auto simp: reach_def)
  next
    case (step u v)
    show ?case
    proof (cases "v = q")
      case False
      then have e: "(u, v) \<in> links ?e" using step(2) by (auto simp: links_def erase_block_def)
      show ?thesis
      proof (cases "u = q")
        case True
        then have "v \<in> set ?c" using e by (auto simp: links_def children_def)
        then show ?thesis by (auto simp: reach_def)
      next
        case False
        then show ?thesis using step e by (auto simp: reach_def intro: rtrancl_into_rtrancl)
      qed
    qed simp
  qed
  moreover have "x \<in> reach (q # qs) idx" if "x \<in> reach (qs @ ?c) ?e" for x
  proof -
    from that obtain y where y: "y \<in> set (qs @ ?c)" "(y, x) \<in> (links ?e)\<^sup>*" by (auto simp: reach_def)
    then have "(y, x) \<in> (links idx)\<^sup>*" using sub rtrancl_mono by blast
    then show ?thesis using y(1) c[of y] by (auto simp: reach_def intro: converse_rtrancl_into_rtrancl)
  qed
  moreover have "q \<in> reach (q # qs) idx" by (auto simp: reach_def)
  ultimately show ?thesis unfolding reach_def[of "q # qs"] by (fastforce simp: reach_def[of "q # qs"])
qed

lemma remove_loop_spec:
  "remove_loop n qs idx = Some idx' \<Longrightarrow> idx' = filter (\<lambda>b. bs_id b \<notin> reach qs idx) idx"
proof (induction n qs idx rule: remove_loop.induct)
  case (3 n q qs idx)
  let ?e = "erase_block q idx"
  have "idx' = filter (\<lambda>b. bs_id b \<notin> reach (qs @ map bs_id (children q ?e)) ?e) ?e"
    using 3 by (simp add: Let_def)
  also have "\<dots> = filter (\<lambda>b. bs_id b \<notin> reach (q # qs) idx) idx"
    unfolding reach_erase[symmetric] by (auto simp: erase_block_def intro!: filter_cong)
  finally show ?case .
qed (auto simp: reach_def)

text \<open>The queue needs one step for the given id and at most one for each element of the index.\<close>

lemma erase_block_ids: "bs_id ` set (erase_block q idx) = bs_id ` set idx - {q}"
  by (auto simp: erase_block_def)

lemma distinct_ids_filter [simp]: "distinct (map bs_id idx) \<Longrightarrow> distinct (map bs_id (filter P idx))"
  by (induction idx) auto

lemma remove_loop_queue:
  assumes "distinct (map bs_id idx)" and "distinct qs" and "set qs \<subseteq> bs_id ` set idx"
    and "\<forall>b \<in> set idx. bs_prev b \<in> bs_id ` set idx \<longrightarrow> bs_id b \<notin> set qs" and "length idx \<le> n"
  shows "remove_loop n qs idx \<noteq> None"
  using assms
proof (induction n qs idx rule: remove_loop.induct)
  case (2 q qs idx)
  then show ?case by simp
next
  case (3 n q qs idx)
  let ?e = "erase_block q idx"
  let ?qs = "qs @ map bs_id (children q ?e)"
  have q: "q \<in> bs_id ` set idx" "q \<notin> set qs" using 3 by auto
  have "length ?e < length idx" using q(1) by (auto simp: erase_block_def intro: length_filter_less)
  then have "length ?e \<le> n" using 3 by simp
  moreover have "distinct (map bs_id ?e)" using 3 by (simp add: erase_block_def)
  moreover have "set (map bs_id (children q ?e)) \<inter> set qs = {}"
    using 3(5) q(1) by (auto simp: children_def erase_block_def)
  then have "distinct ?qs" using 3(2,3) by (auto simp: children_def erase_block_def)
  moreover have "set ?qs \<subseteq> bs_id ` set ?e" using 3(4) q(2) unfolding set_append erase_block_ids
    by (auto simp: children_def erase_block_def)
  moreover have "\<forall>b \<in> set ?e. bs_prev b \<in> bs_id ` set ?e \<longrightarrow> bs_id b \<notin> set ?qs"
  proof (intro ballI impI)
    fix b assume b: "b \<in> set ?e" "bs_prev b \<in> bs_id ` set ?e"
    then have "bs_id b \<notin> set qs" "bs_prev b \<noteq> q" using 3(5) unfolding erase_block_ids by (auto simp: erase_block_def)
    moreover have "b' = b" if "b' \<in> set ?e" "bs_id b' = bs_id b" for b'
      using that b(1) 3(2) by (auto simp: erase_block_def dest: map_of_eqI inj_onD simp: distinct_map)
    ultimately show "bs_id b \<notin> set ?qs" by (auto simp: children_def)
  qed
  ultimately show ?case using 3(1)[OF refl] by (simp add: Let_def)
qed simp

lemma remove_loop_terminates:
  assumes "distinct (map bs_id idx)"
  shows "remove_loop (Suc (length idx)) [i] idx = Some (filter (\<lambda>b. bs_id b \<notin> reach [i] idx) idx)"
proof -
  let ?e = "erase_block i idx"
  have "remove_loop (length idx) (map bs_id (children i ?e)) ?e \<noteq> None"
  proof (rule remove_loop_queue)
    have inj: "inj_on bs_id (set ?e)" using assms by (auto simp: distinct_map erase_block_def inj_on_def)
    show "\<forall>b \<in> set ?e. bs_prev b \<in> bs_id ` set ?e \<longrightarrow> bs_id b \<notin> set (map bs_id (children i ?e))"
      using inj unfolding erase_block_ids by (auto simp: children_def dest: inj_onD)
  qed (use assms in \<open>auto simp: children_def erase_block_def\<close>)
  then show ?thesis using remove_loop_spec[of "Suc (length idx)" "[i]" idx] by (auto simp: Let_def)
qed

text \<open>\<open>remove\<close> erases the block and everything built on it, and nothing else.\<close>

lemma remove_block_spec:
  assumes "distinct (map bs_id (fork_index db))"
  shows "remove_block i db =
    (case lib_begin (filter (\<lambda>b. bs_id b \<notin> reach [i] (fork_index db)) (fork_index db)) of
       None \<Rightarrow> Inl Undefined
     | Some h \<Rightarrow> Inr (db\<lparr>fork_index := filter (\<lambda>b. bs_id b \<notin> reach [i] (fork_index db)) (fork_index db), fork_head := Some h\<rparr>))"
  using remove_loop_terminates[OF assms, of i] by (simp add: remove_block_def split: option.split)

subsection \<open>Header states of the index\<close>

definition hdr_inv :: "block_header_state \<Rightarrow> bool" where
  "hdr_inv s \<longleftrightarrow> tables_inv s \<and> (\<forall>i < length (confirm_count s). 1 \<le> confirm_count s ! i \<and> confirm_count s ! i \<le> 255)"

lemma hdr_inv_generate:
  assumes "hdr_inv s" "generate_next c s t = Inr g" "t \<noteq> 0" "bhs_block_num s + 1 \<le> UINT32_MAX"
  shows "hdr_inv g"
proof -
  let ?n = "length (sched_producers (active_schedule s))"
  have ti: "tables_inv s" using assms by (simp add: hdr_inv_def)
  have n: "?n \<le> max_producers" using ti by (simp add: tables_inv_def)
  note g = generate_next_fields(7)[OF assms(2,3)]
  have "1 \<le> confirm_count g ! i \<and> confirm_count g ! i \<le> 255" if i: "i < length (confirm_count g)" for i
  proof (cases "i = length (confirm_count g) - 1")
    case True
    then show ?thesis using grow_confirm_count_nth[of i "confirm_count s" ?n] i n unfolding g
      by (simp add: max_producers_def)
  next
    case False
    let ?j = "length (confirm_count s) - (length (confirm_count g) - 1) + i"
    have "?j < length (confirm_count s)"
      using False i grow_confirm_count_length(2)[of "confirm_count s" ?n] unfolding g by linarith
    then show ?thesis using grow_confirm_count_nth[of i "confirm_count s" ?n] i n False assms(1) unfolding g
      by (simp add: hdr_inv_def)
  qed
  then show ?thesis using tables_inv_generate(1)[OF ti assms(2-4)] by (simp add: hdr_inv_def)
qed

lemma hdr_inv_set_confirmed:
  assumes "hdr_inv g" "0 \<le> k" "bhs_block_num g \<le> UINT32_MAX"
  shows "hdr_inv (set_confirmed k g)
    \<and> dpos_proposed_irreversible_blocknum g \<le> dpos_proposed_irreversible_blocknum (set_confirmed k g)"
proof -
  have pos: "\<forall>j < length (confirm_count g). 1 \<le> confirm_count g ! j \<and> confirm_count g ! j \<le> 255"
    and ti: "tables_inv g" using assms by (auto simp: hdr_inv_def)
  have L: "int (length (confirm_count g)) \<le> bhs_block_num g" using ti by (auto simp: tables_inv_def)
  show ?thesis
  proof (cases rule: set_confirmed_cases[OF pos assms(2) L assms(3), case_names none hit])
    case none
    have "1 < confirm_count g ! j" if "length (confirm_count g) - nat (k + 1) \<le> j" "j < length (confirm_count g)" for j
      using none(2)[of j] that by (auto simp: blk_def)
    then have "\<forall>i < length (confirm_count (set_confirmed k g)).
        1 \<le> confirm_count (set_confirmed k g) ! i \<and> confirm_count (set_confirmed k g) ! i \<le> 255"
      using pos by (fastforce simp: none(1))
    moreover have "tables_inv (set_confirmed k g)" using ti none by (intro tables_inv_set_confirmed) (auto simp: tables_inv_def)
    ultimately show ?thesis by (simp add: hdr_inv_def none)
  next
    case (hit q)
    have "\<forall>i < length (confirm_count (set_confirmed k g)).
        1 \<le> confirm_count (set_confirmed k g) ! i \<and> confirm_count (set_confirmed k g) ! i \<le> 255"
      using pos hit(1,4) by (fastforce simp: hit(5))
    moreover have le: "dpos_proposed_irreversible_blocknum g \<le> blk g q" using ti by (simp add: tables_inv_def blk_def)
    moreover have "tables_inv (set_confirmed k g)"
      using ti hit(1) le by (intro tables_inv_set_confirmed) (auto simp: hit(5,6) blk_def)
    ultimately show ?thesis by (simp add: hdr_inv_def hit)
  qed
qed

lemma hdr_inv_promote:
  assumes "hdr_inv s" "dpos_irreversible_blocknum s \<le> dpos_proposed_irreversible_blocknum s"
  shows "hdr_inv (snd (maybe_promote_pending s))"
proof -
  have "tables_inv (snd (maybe_promote_pending s))" using assms
    by (auto simp: hdr_inv_def tables_inv_def maybe_promote_pending_def tbl_ok_put promote_counts_find tbl_rows_find
        split: if_splits option.splits)
  then show ?thesis using assms(1) by (simp add: hdr_inv_def promote_fields)
qed

lemma hdr_inv_set_new_producers:
  assumes "hdr_inv s" "set_new_producers c np s = Inr r" "length (sched_producers np) \<le> max_producers"
  shows "hdr_inv r \<and> bhs_block_num r = bhs_block_num s \<and> bft_irreversible_blocknum r = bft_irreversible_blocknum s
      \<and> dpos_irreversible_blocknum r = dpos_irreversible_blocknum s
      \<and> dpos_proposed_irreversible_blocknum r = dpos_proposed_irreversible_blocknum s"
proof -
  have "r = s\<lparr>bhs_header := (bhs_header s)\<lparr>new_producers := Some np\<rparr>, pending_schedule_hash := hash_schedule c np,
      pending_schedule := np, pending_schedule_lib_num := bhs_block_num s\<rparr>"
    using assms(2) by (simp add: set_new_producers_def res_simps)
  then show ?thesis using assms(1,3) by (simp add: hdr_inv_def tables_inv_def)
qed

lemma next_hdr_inv:
  assumes "hdr_inv s" and "next_header_state c s h skip = Inr s'" and ok: "header_ok s h"
  shows "hdr_inv s' \<and> bhs_block_num s' = bhs_block_num s + 1 \<and> bft_irreversible_blocknum s' = bft_irreversible_blocknum s
    \<and> dpos_irreversible_blocknum s' \<le> bhs_block_num s'"
  using assms(2)
proof (cases rule: next_header_state_steps)
  case (1 g r)
  let ?c = "set_confirmed (confirmed h) g"
  let ?p = "maybe_promote_pending ?c"
  have ti: "tables_inv s" "bhs_block_num s + 1 \<le> UINT32_MAX" using assms(1) ok by (auto simp: hdr_inv_def header_ok_def)
  note num = tables_inv_generate(2)[OF ti(1) 1(1,2) ti(2)]
  have c: "hdr_inv ?c" "dpos_irreversible_blocknum ?c \<le> dpos_proposed_irreversible_blocknum ?c"
    using hdr_inv_set_confirmed[OF hdr_inv_generate[OF assms(1) 1(1,2) ti(2)], of "confirmed h"]
      lib_le_proposed[OF ti(1) 1(1,2) ti(2)] ok ti(2) num by (auto simp: header_ok_def)
  have bft: "bft_irreversible_blocknum g = bft_irreversible_blocknum s"
    using 1(1) by (auto simp: generate_next_def res_simps Let_def)
  have p: "hdr_inv (snd ?p)" by (rule hdr_inv_promote[OF c])
  have "hdr_inv r \<and> bhs_block_num r = bhs_block_num (snd ?p) \<and> bft_irreversible_blocknum r = bft_irreversible_blocknum (snd ?p)
      \<and> dpos_irreversible_blocknum r = dpos_irreversible_blocknum (snd ?p)
      \<and> dpos_proposed_irreversible_blocknum r = dpos_proposed_irreversible_blocknum (snd ?p)"
    using 1(9) p ok hdr_inv_set_new_producers[OF p] by (auto simp: header_ok_def split: option.splits)
  moreover have "hdr_inv (sealed c h r) = hdr_inv r" by (simp add: hdr_inv_def tables_inv_def)
  moreover have "dpos_proposed_irreversible_blocknum ?c \<le> bhs_block_num ?c" using c by (simp add: hdr_inv_def tables_inv_def)
  ultimately show ?thesis using 1(10) num bft c by (simp add: promote_fields)
qed

subsection \<open>The invariant\<close>

text \<open>Ids are unique, a block built on another one of the index has the next number and at least its number of the last
  block made irreversible by confirmations; every header state has positive counters. No element beats the head.\<close>

definition index_ok :: "block_state list \<Rightarrow> bool" where
  "index_ok idx \<longleftrightarrow> distinct (map bs_id idx)
     \<and> (\<forall>b \<in> set idx. \<forall>p \<in> set idx. bs_prev b = bs_id p \<longrightarrow> bs_num b = bs_num p + 1 \<and> bs_bft p \<le> bs_bft b)
     \<and> (\<forall>b \<in> set idx. hdr_inv (hs b) \<and> bs_lib b \<le> bs_num b)"

definition head_best :: "fork_database \<Rightarrow> bool" where
  "head_best db \<longleftrightarrow> (case fork_head db of None \<Rightarrow> False
     | Some h \<Rightarrow> h \<in> set (fork_index db) \<and> (\<forall>b \<in> set (fork_index db). \<not> better b h))"

lemma index_ok_filter: "index_ok idx \<Longrightarrow> index_ok (filter P idx)"
  by (auto simp: index_ok_def)

lemma index_ok_distinct: "index_ok idx \<Longrightarrow> distinct (map bs_id idx)"
  by (simp add: index_ok_def)

lemma get_block_mem: "get_block db i = Some b \<Longrightarrow> b \<in> set (fork_index db) \<and> bs_id b = i"
  by (auto simp: get_block_def find_Some_iff)

lemma get_block_None: "get_block db i = None \<longleftrightarrow> i \<notin> bs_id ` set (fork_index db)"
  by (auto simp: get_block_def find_None_iff)

lemma get_block_eq: "index_ok (fork_index db) \<Longrightarrow> b \<in> set (fork_index db) \<Longrightarrow> get_block db (bs_id b) = Some b"
proof (cases "get_block db (bs_id b)")
  case (Some x)
  assume "index_ok (fork_index db)" "b \<in> set (fork_index db)"
  then show ?thesis using Some get_block_mem[OF Some] by (auto simp: index_ok_def distinct_map dest: inj_onD)
qed (auto simp: get_block_None)

lemma remove_block_ok:
  assumes "index_ok (fork_index db)" "remove_block i db = Inr db'"
  shows "index_ok (fork_index db') \<and> head_best db' \<and> irreversible_log db' = irreversible_log db
    \<and> set (fork_index db') \<subseteq> set (fork_index db)"
  using assms lib_begin_best index_ok_filter[OF assms(1)]
  by (fastforce simp: remove_block_spec index_ok_distinct head_best_def split: option.splits)

lemma prune_siblings_ok:
  assumes "prune_siblings n num nitr db = Inr db'" "index_ok (fork_index db)"
  shows "index_ok (fork_index db') \<and> (head_best db \<longrightarrow> head_best db')
    \<and> set (fork_index db') \<subseteq> set (fork_index db) \<and> irreversible_log db' = irreversible_log db"
  using assms
proof (induction n num nitr db rule: prune_siblings.induct)
  case (3 n num b db)
  show ?case
  proof (cases "bs_num b = num")
    case True
    then obtain db1 where d: "remove_block (bs_id b) db = Inr db1"
      "case next_in (bs_id b) (by_block_num (fork_index db)) of None \<Rightarrow> db' = db1
       | Some x \<Rightarrow> get_block db1 (bs_id x) \<noteq> None \<and> prune_siblings n num (Some x) db1 = Inr db'"
      using 3(2) by (auto simp: res_simps Let_def split: option.splits)
    note r = remove_block_ok[OF 3(3) d(1)]
    show ?thesis
    proof (cases "next_in (bs_id b) (by_block_num (fork_index db))")
      case None
      then show ?thesis using d(2) r by auto
    next
      case (Some x)
      then show ?thesis using 3(1)[OF True refl d(1) Some] d(2) r by auto
    qed
  qed (use 3 in auto)
qed auto

lemma head_best_erase:
  assumes "head_best db" "fork_head db = Some x" "bs_id x \<noteq> i"
  shows "head_best (db\<lparr>irreversible_log := l, fork_index := erase_block i (fork_index db)\<rparr>)"
  using assms by (auto simp: head_best_def erase_block_def)

lemma prune_here_ok:
  assumes "prune_here h db = Inr db'" "index_ok (fork_index db)"
  shows "index_ok (fork_index db') \<and> set (fork_index db') \<subseteq> set (fork_index db)
    \<and> (head_best db \<and> fork_head db = Some x \<and> bs_id x \<noteq> bs_id h \<longrightarrow> head_best db')"
proof -
  let ?db1 = "case get_block db (bs_id h) of None \<Rightarrow> db
     | Some x \<Rightarrow> db\<lparr>irreversible_log := irreversible_log db @ [x], fork_index := erase_block (bs_id h) (fork_index db)\<rparr>"
  have ok: "index_ok (fork_index ?db1)" using assms(2) index_ok_filter
    by (auto simp: erase_block_def split: option.splits)
  have sub: "set (fork_index ?db1) \<subseteq> set (fork_index db)" by (auto simp: erase_block_def split: option.splits)
  have hb: "head_best db \<and> fork_head db = Some x \<and> bs_id x \<noteq> bs_id h \<longrightarrow> head_best ?db1"
    using head_best_erase[of db x "bs_id h"] by (auto split: option.splits)
  have "prune_siblings (Suc (length (fork_index ?db1))) (bs_num h)
           (find (\<lambda>b. bs_num b \<ge> bs_num h) (by_block_num (fork_index ?db1))) ?db1 = Inr db'"
    using assms(1) by (simp add: prune_here_def Let_def)
  from prune_siblings_ok[OF this ok] show ?thesis using hb sub by blast
qed

lemma by_block_num_hd:
  assumes "idx \<noteq> []"
  shows "hd (by_block_num idx) \<in> set idx \<and> (\<forall>b \<in> set idx. bs_num (hd (by_block_num idx)) \<le> bs_num b)"
proof -
  obtain x xs where x: "by_block_num idx = x # xs" using assms
    by (metis by_block_num_def length_0_conv length_sort neq_Nil_conv)
  have "sorted (map num_key (x # xs))" unfolding x[symmetric] by_block_num_def by (rule sorted_sort_key)
  then have "\<forall>b \<in> set (x # xs). bs_num x \<le> bs_num b" by (auto simp: num_key_def less_eq_prod_def)
  moreover have "set (x # xs) = set idx" unfolding x[symmetric] by (simp add: by_block_num_def)
  ultimately show ?thesis using x by auto
qed

text \<open>Pruning the lowest block never has smaller numbers to prune first.\<close>

lemma prune_oldest:
  assumes "fork_index db \<noteq> []"
  shows "prune (hd (by_block_num (fork_index db))) db = prune_here (hd (by_block_num (fork_index db))) db"
proof -
  obtain x xs where "by_block_num (fork_index db) = x # xs" using assms
    by (metis by_block_num_def length_0_conv length_sort neq_Nil_conv)
  then show ?thesis by (simp add: prune_def prune_below.simps)
qed

lemma insert_block_Some: "insert_block b idx = Some idx' \<longleftrightarrow> bs_id b \<notin> bs_id ` set idx \<and> idx' = idx @ [b]"
  by (auto simp: insert_block_def list_all_iff image_iff dest: sym)

lemma add_block_state_ok:
  assumes "add_block_state n skip db = Inr db'" and "index_ok (fork_index db @ [n])"
  shows "index_ok (fork_index db') \<and> head_best db' \<and> set (fork_index db') \<subseteq> insert n (set (fork_index db))"
proof -
  let ?idx = "fork_index db @ [n]"
  obtain h where h: "lib_begin ?idx = Some h"
    "(if bs_num (hd (by_block_num ?idx)) < bs_lib h
      then prune (hd (by_block_num ?idx)) (db\<lparr>fork_index := ?idx, fork_head := Some h\<rparr>)
      else Inr (db\<lparr>fork_index := ?idx, fork_head := Some h\<rparr>)) = Inr db'"
    using assms(1) by (auto simp: add_block_state_def res_simps insert_block_Some Let_def)
  let ?db = "db\<lparr>fork_index := ?idx, fork_head := Some h\<rparr>" and ?o = "hd (by_block_num ?idx)"
  have hb: "head_best ?db" using lib_begin_best[OF h(1)] by (simp add: head_best_def)
  show ?thesis
  proof (cases "bs_num ?o < bs_lib h")
    case True
    then have p: "prune_here ?o ?db = Inr db'" using h(2) prune_oldest[of ?db] by simp
    have "h \<in> set ?idx" "?o \<in> set ?idx" using lib_begin_best[OF h(1)] by_block_num_hd[of ?idx] by auto
    then have "bs_num ?o < bs_num h" using True assms(2) by (auto simp: index_ok_def)
    moreover have "bs_id h = bs_id ?o \<Longrightarrow> h = ?o"
      using \<open>h \<in> set ?idx\<close> \<open>?o \<in> set ?idx\<close> index_ok_distinct[OF assms(2)] by (metis distinct_map inj_onD)
    ultimately show ?thesis using prune_here_ok[OF p, of h] hb assms(2) by auto
  next
    case False
    then show ?thesis using h hb assms(2) by auto
  qed
qed

subsection \<open>Changes through pointers\<close>

text \<open>A change that keeps id, previous id, number and last irreversible block, and does not lower the number confirmed
  by producers below that of the parents.\<close>

lemma index_ok_map:
  assumes "index_ok idx" and "\<And>b. b \<in> set idx \<Longrightarrow> bs_id (f b) = bs_id b \<and> bs_prev (f b) = bs_prev b
      \<and> bs_num (f b) = bs_num b \<and> bs_lib (f b) = bs_lib b \<and> hdr_inv (hs (f b))"
    and "\<And>b p. b \<in> set idx \<Longrightarrow> p \<in> set idx \<Longrightarrow> bs_prev b = bs_id p \<Longrightarrow> bs_bft (f p) \<le> bs_bft (f b)"
  shows "index_ok (map f idx)"
proof -
  have "map bs_id (map f idx) = map bs_id idx" using assms(2) by simp
  then have "distinct (map bs_id (map f idx))" using index_ok_distinct[OF assms(1)] by metis
  then show ?thesis using assms by (auto simp: index_ok_def)
qed

definition head_in :: "fork_database \<Rightarrow> bool" where
  "head_in db \<longleftrightarrow> (case fork_head db of None \<Rightarrow> fork_index db = [] | Some h \<Rightarrow> h \<in> set (fork_index db))"

lemma head_best_in: "head_best db \<Longrightarrow> head_in db"
  by (auto simp: head_best_def head_in_def split: option.splits)

lemma head_in_modify: "head_in db \<Longrightarrow> head_in (modify_block f i db)"
  by (auto simp: head_in_def modify_block_def split: option.splits)

definition raise :: "int \<Rightarrow> digest set \<Rightarrow> block_state \<Rightarrow> block_state" where
  "raise num Q b = (if bs_prev b \<in> Q \<and> bs_bft b < num then set_bft num b else b)"

lemma set_bft_fields [simp]:
  "bs_id (set_bft n b) = bs_id b" "bs_prev (set_bft n b) = bs_prev b" "bs_num (set_bft n b) = bs_num b"
  "bs_lib (set_bft n b) = bs_lib b" "bs_bft (set_bft n b) = n" "hdr_inv (hs (set_bft n b)) = hdr_inv (hs b)"
  by (simp_all add: set_bft_def hdr_inv_def tables_inv_def)

lemma raise_fields [simp]:
  "bs_id (raise n Q b) = bs_id b" "bs_prev (raise n Q b) = bs_prev b" "bs_num (raise n Q b) = bs_num b"
  "bs_lib (raise n Q b) = bs_lib b" "hdr_inv (hs (raise n Q b)) = hdr_inv (hs b)"
  by (simp_all add: raise_def)

lemma fold_modify:
  "fork_index (fold (modify_block (set_bft num)) is db)
     = map (\<lambda>b. if bs_id b \<in> set is then set_bft num b else b) (fork_index db)"
proof (induction "is" arbitrary: db)
  case (Cons i "is")
  have "set_bft num (set_bft num b) = set_bft num b" for b by (simp add: set_bft_def)
  then show ?case using Cons by (auto simp: modify_block_def)
qed simp

lemma bft_update_index:
  assumes "distinct (map bs_id (fork_index db))" "bft_update num q db = (u, db')"
  shows "fork_index db' = map (raise num (set q)) (fork_index db)
    \<and> set u = bs_id ` {b \<in> set (fork_index db). bs_prev b \<in> set q \<and> bs_bft b < num}"
  using assms
proof (induction num q db arbitrary: u db' rule: bft_update.induct)
  case (1 num db)
  then show ?case by (auto simp: raise_def[abs_def])
next
  case (2 num i "is" db)
  let ?idx = "fork_index db"
  define upd where "upd = map bs_id (filter (\<lambda>b. bs_bft b < num) (children i ?idx))"
  define db1 where "db1 = fold (modify_block (set_bft num)) upd db"
  obtain u1 where u: "bft_update num is db1 = (u1, db')" "u = upd @ u1"
    using 2(3) by (auto simp: Let_def upd_def db1_def split: prod.splits)
  have su: "set upd = bs_id ` {b \<in> set ?idx. bs_prev b = i \<and> bs_bft b < num}" by (auto simp: upd_def children_def)
  have "bs_id b \<in> set upd \<longleftrightarrow> bs_prev b = i \<and> bs_bft b < num" if "b \<in> set ?idx" for b
    using that 2(2) unfolding su by (auto simp: distinct_map dest: inj_onD)
  then have i1: "fork_index db1 = map (raise num {i}) ?idx" unfolding db1_def fold_modify by (auto simp: raise_def)
  then have "distinct (map bs_id (fork_index db1))" using 2(2) by (simp add: o_def)
  from 2(1)[OF upd_def db1_def this u(1)]
  have ih: "fork_index db' = map (raise num (set is)) (fork_index db1)"
    "set u1 = bs_id ` {b \<in> set (fork_index db1). bs_prev b \<in> set is \<and> bs_bft b < num}" by auto
  have "raise num (set is) (raise num {i} b) = raise num (set (i # is)) b" for b by (auto simp: raise_def)
  moreover have "set upd \<union> set u1 = bs_id ` {b \<in> set ?idx. bs_prev b \<in> set (i # is) \<and> bs_bft b < num}"
    unfolding ih(2) i1 su by (auto simp: raise_def image_iff)
  ultimately show ?case unfolding ih(1) i1 u(2) by simp
qed

text \<open>While the layers are processed, only blocks of the queue may be ahead of their children.\<close>

definition bft_ok :: "int \<Rightarrow> digest list \<Rightarrow> block_state list \<Rightarrow> bool" where
  "bft_ok num q idx \<longleftrightarrow> distinct (map bs_id idx)
     \<and> (\<forall>b \<in> set idx. \<forall>p \<in> set idx. bs_prev b = bs_id p \<longrightarrow> bs_bft p \<le> bs_bft b \<or> (bs_id p \<in> set q \<and> bs_bft p = num))"

lemma bft_ok_update:
  assumes "bft_ok num q (fork_index db)" "bft_update num q db = (u, db')"
  shows "bft_ok num u (fork_index db')"
proof -
  have d: "distinct (map bs_id (fork_index db))" using assms(1) by (simp add: bft_ok_def)
  note u = bft_update_index[OF d assms(2)]
  have "bs_bft (raise num (set q) p) \<le> bs_bft (raise num (set q) b) \<or> (bs_id p \<in> set u \<and> bs_bft (raise num (set q) p) = num)"
    if "b \<in> set (fork_index db)" "p \<in> set (fork_index db)" "bs_prev b = bs_id p" for b p
    using that assms(1) u by (force simp: bft_ok_def raise_def)
  then show ?thesis using u d by (auto simp: bft_ok_def o_def)
qed

lemma head_in_fold: "head_in db \<Longrightarrow> head_in (fold (modify_block f) is db)"
  by (induction "is" arbitrary: db) (simp_all add: head_in_modify)

lemma bft_update_head: "head_in db \<Longrightarrow> bft_update num q db = (u, db') \<Longrightarrow> head_in db'"
  by (induction num q db arbitrary: u db' rule: bft_update.induct)
    (auto simp: Let_def head_in_fold split: prod.splits)

lemma bft_loop_spec:
  assumes "bft_ok num q (fork_index db)"
  shows "\<exists>f. fork_index (bft_loop num q db) = map f (fork_index db)
    \<and> (\<forall>b. f b = b \<or> f b = set_bft num b \<and> bs_bft b < num) \<and> bft_ok num [] (fork_index (bft_loop num q db))
    \<and> (head_in db \<longrightarrow> head_in (bft_loop num q db))"
  using assms
proof (induction num q db rule: bft_loop.induct)
  case (1 num q db)
  show ?case
  proof (cases "q = []")
    case True
    then show ?thesis using 1(2) by (auto simp: bft_loop.simps intro!: exI[of _ "\<lambda>b. b"])
  next
    case False
    obtain u db1 where u: "bft_update num q db = (u, db1)" by force
    have d: "distinct (map bs_id (fork_index db))" using 1(2) by (simp add: bft_ok_def)
    obtain f where f: "fork_index (bft_loop num u db1) = map f (fork_index db1)"
      "\<forall>b. f b = b \<or> f b = set_bft num b \<and> bs_bft b < num" "bft_ok num [] (fork_index (bft_loop num u db1))"
      "head_in db1 \<longrightarrow> head_in (bft_loop num u db1)"
      using 1(1)[OF False refl, unfolded u fst_conv snd_conv, OF bft_ok_update[OF 1(2) u]] by blast
    have "f (raise num (set q) b) = b \<or> f (raise num (set q) b) = set_bft num b \<and> bs_bft b < num" for b
      using f(2)[rule_format, of "raise num (set q) b"] by (auto simp: raise_def split: if_splits)
    moreover have "bft_loop num q db = bft_loop num u db1" using False u by (simp add: bft_loop.simps[of num q db])
    moreover have "map f (fork_index db1) = map (f \<circ> raise num (set q)) (fork_index db)"
      using bft_update_index[OF d u] by simp
    ultimately show ?thesis using f(1,3,4) bft_update_head[OF _ u]
      by (intro exI[of _ "f \<circ> raise num (set q)"]) (metis comp_apply)
  qed
qed

subsection \<open>Branches\<close>

fun linked :: "block_state list \<Rightarrow> bool" where
  "linked (x # y # zs) \<longleftrightarrow> bs_prev x = bs_id y \<and> linked (y # zs)"
| "linked xs \<longleftrightarrow> True"

definition rooted :: "int \<Rightarrow> digest \<Rightarrow> block_state list \<Rightarrow> bool" where
  "rooted n0 r idx \<longleftrightarrow> (\<forall>b \<in> set idx. n0 \<le> bs_num b \<and>
     (if bs_num b = n0 then bs_prev b = r else bs_prev b \<in> bs_id ` set idx))"

lemma linked_Cons: "linked (x # xs) \<longleftrightarrow> (xs \<noteq> [] \<longrightarrow> bs_prev x = bs_id (hd xs)) \<and> linked xs"
  by (cases xs) simp_all

lemma linked_append: "linked (xs @ ys) \<longleftrightarrow> linked xs \<and> linked ys \<and> (xs \<noteq> [] \<and> ys \<noteq> [] \<longrightarrow> bs_prev (last xs) = bs_id (hd ys))"
  by (induction xs) (auto simp: linked_Cons)

lemma parent:
  assumes "index_ok (fork_index db)" "rooted n0 r (fork_index db)" "b \<in> set (fork_index db)" "n0 < bs_num b"
  obtains p where "get_block db (bs_prev b) = Some p" "p \<in> set (fork_index db)" "bs_id p = bs_prev b" "bs_num p = bs_num b - 1"
proof -
  obtain p where p: "p \<in> set (fork_index db)" "bs_id p = bs_prev b"
    using assms(2-4) by (auto simp: rooted_def split: if_splits)
  then show thesis using that[of p] get_block_eq[OF assms(1) p(1)] assms(1,3) by (auto simp: index_ok_def)
qed

lemma count_less:
  assumes "b \<in> set idx" "bs_num p < bs_num b" "m < bs_num b"
  shows "length (filter (\<lambda>x. m < bs_num x \<and> bs_num x \<le> bs_num p) idx) < length (filter (\<lambda>x. m < bs_num x \<and> bs_num x \<le> bs_num b) idx)"
proof -
  let ?xs = "filter (\<lambda>x. m < bs_num x \<and> bs_num x \<le> bs_num b) idx"
  have "filter (\<lambda>x. m < bs_num x \<and> bs_num x \<le> bs_num p) idx = filter (\<lambda>x. bs_num x \<le> bs_num p) ?xs"
    using assms(2) by (auto intro: filter_cong)
  moreover have "b \<in> set ?xs" "\<not> bs_num b \<le> bs_num p" using assms by auto
  ultimately show ?thesis using length_filter_less[of b ?xs "\<lambda>x. bs_num x \<le> bs_num p"] by simp
qed

lemma down_to_ok:
  assumes "index_ok (fork_index db)" "rooted n0 r (fork_index db)" "b \<in> set (fork_index db)" "n0 \<le> m"
    and "length (filter (\<lambda>x. m < bs_num x \<and> bs_num x \<le> bs_num b) (fork_index db)) \<le> n"
  shows "\<exists>l x. down_to n db m b = Inr (l, x) \<and> x \<in> set (fork_index db) \<and> bs_num x = min (bs_num b) m
    \<and> linked (l @ [x]) \<and> hd (l @ [x]) = b \<and> set l \<subseteq> set (fork_index db) \<and> (\<forall>y \<in> set l. m < bs_num y)"
  using assms(3,5)
proof (induction n arbitrary: b)
  case 0
  then have "\<not> m < bs_num b" by (auto simp: filter_empty_conv)
  then show ?case using 0 by (simp add: down_to.simps)
next
  case (Suc n)
  show ?case
  proof (cases "m < bs_num b")
    case True
    obtain p where p: "get_block db (bs_prev b) = Some p" "p \<in> set (fork_index db)" "bs_id p = bs_prev b" "bs_num p = bs_num b - 1"
      using parent[OF assms(1,2) Suc(2)] True assms(4) by (metis le_less_trans)
    have "length (filter (\<lambda>x. m < bs_num x \<and> bs_num x \<le> bs_num p) (fork_index db)) \<le> n"
      using count_less[OF Suc(2), of p m] True p(4) Suc(3) by simp
    from Suc(1)[OF p(2) this] obtain l x where l: "down_to n db m p = Inr (l, x)" "x \<in> set (fork_index db)"
      "bs_num x = min (bs_num p) m" "linked (l @ [x])" "hd (l @ [x]) = p" "set l \<subseteq> set (fork_index db)" "\<forall>y \<in> set l. m < bs_num y"
      by blast
    then show ?thesis using True p Suc(2) by (auto simp: linked_Cons down_to.simps[of "Suc n"])
  next
    case False
    then show ?thesis using Suc by (simp add: down_to.simps)
  qed
qed

definition apart :: "block_state list \<Rightarrow> block_state list \<Rightarrow> bool" where
  "apart l1 l2 \<longleftrightarrow> set (butlast l1) \<inter> set l2 = {} \<and> set l1 \<inter> set (butlast l2) = {}"

lemma meet_ok:
  assumes "index_ok (fork_index db)" "rooted n0 r (fork_index db)"
    and "a \<in> set (fork_index db)" "b \<in> set (fork_index db)" "bs_num a = bs_num b"
    and "length (filter (\<lambda>x. n0 < bs_num x \<and> bs_num x \<le> bs_num a) (fork_index db)) \<le> n"
  shows "\<exists>l1 l2. meet n db a b = Inr (l1, l2) \<and> linked l1 \<and> linked l2 \<and> l1 \<noteq> [] \<and> l2 \<noteq> [] \<and> hd l1 = a \<and> hd l2 = b
    \<and> set l1 \<subseteq> set (fork_index db) \<and> set l2 \<subseteq> set (fork_index db) \<and> bs_prev (last l1) = bs_prev (last l2)
    \<and> (\<forall>x \<in> set l1 \<union> set l2. bs_num x \<le> bs_num a) \<and> apart l1 l2"
  using assms(3-6)
proof (induction n arbitrary: a b)
  case 0
  then have "bs_num a = n0" using assms(2) by (force simp: filter_empty_conv rooted_def)
  then have "bs_prev a = bs_prev b" using 0 assms(2) by (auto simp: rooted_def)
  then show ?case using 0 by (simp add: meet.simps apart_def)
next
  case (Suc n)
  show ?case
  proof (cases "bs_prev a = bs_prev b")
    case True
    then show ?thesis using Suc by (simp add: meet.simps apart_def)
  next
    case False
    then have n0: "n0 < bs_num a" using Suc(2-4) assms(2) unfolding rooted_def by (metis order_le_less)
    obtain p where p: "get_block db (bs_prev a) = Some p" "p \<in> set (fork_index db)" "bs_id p = bs_prev a" "bs_num p = bs_num a - 1"
      using parent[OF assms(1,2) Suc(2) n0] by metis
    obtain q where q: "get_block db (bs_prev b) = Some q" "q \<in> set (fork_index db)" "bs_id q = bs_prev b" "bs_num q = bs_num b - 1"
      using parent[OF assms(1,2) Suc(3)] n0 Suc(4) by metis
    have "length (filter (\<lambda>x. n0 < bs_num x \<and> bs_num x \<le> bs_num p) (fork_index db)) \<le> n"
      using count_less[OF Suc(2), of p n0] n0 p(4) Suc(5) by simp
    from Suc(1)[OF p(2) q(2) _ this] obtain l1 l2 where l: "meet n db p q = Inr (l1, l2)" "linked l1" "linked l2"
      "l1 \<noteq> []" "l2 \<noteq> []" "hd l1 = p" "hd l2 = q" "set l1 \<subseteq> set (fork_index db)" "set l2 \<subseteq> set (fork_index db)"
      "bs_prev (last l1) = bs_prev (last l2)" "\<forall>x \<in> set l1 \<union> set l2. bs_num x \<le> bs_num p" "apart l1 l2"
      using p(4) q(4) Suc(4) by auto
    have nums: "bs_num x < bs_num a" if "x \<in> set l1 \<union> set l2" for x using that l(11) p(4) by fastforce
    have "a \<notin> set (b # l2)" "b \<notin> set (a # l1)" using nums[of a] nums[of b] False Suc(4) by auto
    then have "apart (a # l1) (b # l2)" using l(4,5,12) in_set_butlastD[of _ l1] in_set_butlastD[of _ l2]
      by (auto simp: apart_def)
    moreover have "meet (Suc n) db a b = Inr (a # l1, b # l2)" using False p(1) q(1) l(1) by (simp add: meet.simps[of "Suc n"])
    moreover have "\<forall>x \<in> set (a # l1) \<union> set (b # l2). bs_num x \<le> bs_num a" using nums Suc(4) by fastforce
    ultimately show ?thesis using l p q Suc(2,3) by (fastforce simp: linked_Cons)
  qed
qed

lemma fetch_branch_ok:
  assumes "index_ok (fork_index db)" "rooted n0 r (fork_index db)"
    and "i \<in> bs_id ` set (fork_index db)" "j \<in> bs_id ` set (fork_index db)"
  shows "\<exists>l1 l2. fetch_branch_from db i j = Inr (l1, l2) \<and> l1 \<noteq> [] \<and> l2 \<noteq> [] \<and> bs_id (hd l1) = i \<and> bs_id (hd l2) = j
    \<and> linked l1 \<and> linked l2 \<and> set l1 \<subseteq> set (fork_index db) \<and> set l2 \<subseteq> set (fork_index db)
    \<and> bs_prev (last l1) = bs_prev (last l2) \<and> apart l1 l2"
proof -
  let ?n = "length (fork_index db)"
  obtain a b where ab: "a \<in> set (fork_index db)" "bs_id a = i" "b \<in> set (fork_index db)" "bs_id b = j" using assms by auto
  then have g: "get_block db i = Some a" "get_block db j = Some b" using get_block_eq[OF assms(1)] by auto
  have n0: "n0 \<le> bs_num x" if "x \<in> set (fork_index db)" for x using that assms(2) by (auto simp: rooted_def)
  obtain k x where k: "down_to ?n db (bs_num b) a = Inr (k, x)" "x \<in> set (fork_index db)" "bs_num x = min (bs_num a) (bs_num b)"
    "linked (k @ [x])" "hd (k @ [x]) = a" "set k \<subseteq> set (fork_index db)" "\<forall>y \<in> set k. bs_num b < bs_num y"
    using down_to_ok[OF assms(1,2) ab(1) n0[OF ab(3)], of ?n] by auto
  obtain l y where l: "down_to ?n db (bs_num x) b = Inr (l, y)" "y \<in> set (fork_index db)" "bs_num y = min (bs_num b) (bs_num x)"
    "linked (l @ [y])" "hd (l @ [y]) = b" "set l \<subseteq> set (fork_index db)" "\<forall>z \<in> set l. bs_num x < bs_num z"
    using down_to_ok[OF assms(1,2) ab(3) n0[OF k(2)], of ?n] by auto
  have "length (filter P (fork_index db)) \<le> ?n * ?n" for P
    by (metis le_square length_filter_le order_trans)
  then obtain m1 m2 where m: "meet (?n * ?n) db x y = Inr (m1, m2)" "linked m1" "linked m2" "m1 \<noteq> []" "m2 \<noteq> []"
    "hd m1 = x" "hd m2 = y" "set m1 \<subseteq> set (fork_index db)" "set m2 \<subseteq> set (fork_index db)"
    "bs_prev (last m1) = bs_prev (last m2)" "\<forall>z \<in> set m1 \<union> set m2. bs_num z \<le> bs_num x" "apart m1 m2"
    using meet_ok[OF assms(1,2) k(2) l(2), of "?n * ?n"] k(3) l(3) by auto
  have "bs_num z \<le> bs_num x" "bs_num z \<le> bs_num b" if "z \<in> set m1 \<union> set m2" for z using that m(11) k(3) by auto
  moreover have "k = [] \<or> l = []"
  proof (rule ccontr)
    assume "\<not> (k = [] \<or> l = [])"
    then have "hd k = a" "hd l = b" "hd k \<in> set k" "hd l \<in> set l" using k(5) l(5) by auto
    then show False using k(3,7) l(7) by fastforce
  qed
  ultimately have "set k \<inter> set (l @ m2) = {}" "set l \<inter> set (k @ m1) = {}" using k(7) l(7) by fastforce+
  then have "apart (k @ m1) (l @ m2)" using m(4,5,12) in_set_butlastD[of _ m1] in_set_butlastD[of _ m2]
    by (auto simp: apart_def butlast_append)
  moreover have "fetch_branch_from db i j = Inr (k @ m1, l @ m2)"
    using g k(1) l(1) m(1) by (simp add: fetch_branch_from_def Let_def)
  moreover have "linked (k @ m1)" "linked (l @ m2)" "hd (k @ m1) = a" "hd (l @ m2) = b"
    using k(4,5) l(4,5) m(2-7) by (auto simp: linked_append hd_append split: if_splits)
  ultimately show ?thesis using ab k(6) l(6) m(4,5,8,9,10) by (intro exI[of _ "k @ m1"] exI[of _ "l @ m2"]) simp
qed

subsection \<open>Steps of the fork database\<close>

definition fork_inv :: "fork_database \<Rightarrow> bool" where
  "fork_inv db \<longleftrightarrow> index_ok (fork_index db) \<and> head_in db"

lemma index_ok_uniq: "index_ok idx \<Longrightarrow> x \<in> set idx \<Longrightarrow> y \<in> set idx \<Longrightarrow> bs_id x = bs_id y \<Longrightarrow> x = y"
  using index_ok_distinct distinct_map inj_onD by metis

lemma fork_inv_modify:
  assumes "fork_inv db" and "\<And>b. b \<in> set (fork_index db) \<Longrightarrow> bs_id b = i \<Longrightarrow> bs_id (f b) = bs_id b \<and> bs_prev (f b) = bs_prev b
      \<and> bs_num (f b) = bs_num b \<and> bs_lib (f b) = bs_lib b \<and> bs_bft (f b) = bs_bft b \<and> hdr_inv (hs (f b))"
  shows "fork_inv (modify_block f i db)"
proof -
  let ?g = "\<lambda>b. if bs_id b = i then f b else b"
  have "index_ok (map ?g (fork_index db))"
  proof (rule index_ok_map)
    show "index_ok (fork_index db)" using assms(1) by (simp add: fork_inv_def)
  qed (use assms in \<open>auto simp: fork_inv_def index_ok_def\<close>)
  then show ?thesis using assms(1) head_in_modify by (simp add: fork_inv_def modify_block_def)
qed

lemma fork_inv_flag: "fork_inv db \<Longrightarrow> (\<And>b. hs (f b) = hs b) \<Longrightarrow> fork_inv (modify_block f i db)"
  by (rule fork_inv_modify) (auto simp: fork_inv_def index_ok_def)

lemma set_bft_irreversible_ok:
  assumes inv: "fork_inv db" and "set_bft_irreversible i db = Inr db'" and "get_block db i = Some b" and "bs_bft b < bs_num b"
  shows "fork_inv db' \<and> (\<forall>x \<in> set (fork_index db'). bs_id x = i \<longrightarrow> bs_bft x = bs_num b)
    \<and> map bs_id (fork_index db') = map bs_id (fork_index db) \<and> map bs_prev (fork_index db') = map bs_prev (fork_index db)"
proof -
  let ?idx = "fork_index db" and ?n = "bs_num b"
  let ?g = "\<lambda>x. if bs_id x = i then set_bft (bs_num x) x else x"
  let ?db1 = "modify_block (\<lambda>b. set_bft (bs_num b) b) i db"
  have ok: "index_ok ?idx" using inv by (simp add: fork_inv_def)
  have b: "b \<in> set ?idx" "bs_id b = i" using get_block_mem[OF assms(3)] by auto
  have uniq: "x = b" if "x \<in> set ?idx" "bs_id x = i" for x
    using index_ok_uniq[OF ok that(1) b(1)] that b by simp
  have i1: "fork_index ?db1 = map ?g ?idx" by (simp add: modify_block_def)
  have gf: "bs_id (?g x) = bs_id x" "bs_prev (?g x) = bs_prev x" for x by simp_all
  have "bft_ok ?n [i] (map ?g ?idx)" unfolding bft_ok_def set_map ball_simps
  proof (intro conjI ballI impI)
    have "map bs_id (map ?g ?idx) = map bs_id ?idx" by simp
    then show "distinct (map bs_id (map ?g ?idx))" using index_ok_distinct[OF ok] by metis
    fix x p assume x: "x \<in> set ?idx" "p \<in> set ?idx" "bs_prev (?g x) = bs_id (?g p)"
    then have le: "bs_bft p \<le> bs_bft x" using ok unfolding gf by (auto simp: index_ok_def)
    show "bs_bft (?g p) \<le> bs_bft (?g x) \<or> bs_id (?g p) \<in> set [i] \<and> bs_bft (?g p) = ?n"
      using le uniq[OF x(1)] uniq[OF x(2)] assms(4) by auto
  qed
  moreover have db': "db' = bft_loop ?n [i] ?db1" using assms(2,3) by (simp add: set_bft_irreversible_def)
  ultimately obtain f where f: "fork_index db' = map f (fork_index ?db1)" "\<And>x. f x = x \<or> f x = set_bft ?n x \<and> bs_bft x < ?n"
    "bft_ok ?n [] (fork_index db')" "head_in ?db1 \<longrightarrow> head_in db'"
    using bft_loop_spec[of ?n "[i]" ?db1] unfolding i1 by blast
  have fld: "bs_id (f x) = bs_id x \<and> bs_prev (f x) = bs_prev x \<and> bs_num (f x) = bs_num x \<and> bs_lib (f x) = bs_lib x
      \<and> hdr_inv (hs (f x)) = hdr_inv (hs x)" for x
    using f(2)[of x] by auto
  have m: "fork_index db' = map (\<lambda>x. f (?g x)) ?idx" unfolding f(1) i1 by simp
  have "index_ok (fork_index db')" unfolding m
  proof (rule index_ok_map[OF ok])
    show "bs_bft (f (?g p)) \<le> bs_bft (f (?g x))" if "x \<in> set ?idx" "p \<in> set ?idx" "bs_prev x = bs_id p" for x p
      using f(3) that fld unfolding m by (fastforce simp: bft_ok_def)
  qed (use fld ok in \<open>auto simp: index_ok_def\<close>)
  moreover have "bs_bft x = ?n" if x: "x \<in> set (fork_index db')" "bs_id x = i" for x
  proof -
    obtain y where y: "y \<in> set ?idx" "x = f (?g y)" using x(1)[unfolded m] by auto
    then have "bs_id y = i" using x(2) fld gf(1)[of y] by simp
    then have "y = b" using uniq y(1) by simp
    then show ?thesis using y(2) b(2) f(2)[of "set_bft ?n b"] by auto
  qed
  moreover have "map bs_id (fork_index db') = map bs_id ?idx" "map bs_prev (fork_index db') = map bs_prev ?idx"
    unfolding m using fld by auto
  ultimately show ?thesis using f(4) inv head_in_modify by (auto simp: fork_inv_def)
qed

lemma bft_descendants:
  assumes "index_ok idx" "(i, j) \<in> (links idx)\<^sup>*" "\<forall>x \<in> set idx. bs_id x = i \<longrightarrow> n \<le> bs_bft x" "i \<in> bs_id ` set idx"
  shows "\<forall>x \<in> set idx. bs_id x = j \<longrightarrow> n \<le> bs_bft x"
proof -
  have "(\<forall>x \<in> set idx. bs_id x = j \<longrightarrow> n \<le> bs_bft x) \<and> j \<in> bs_id ` set idx"
    using assms(2)
  proof (induction rule: rtrancl_induct)
    case base
    then show ?case using assms(3,4) by simp
  next
    case (step u v)
    then obtain y p where y: "y \<in> set idx" "bs_prev y = u" "bs_id y = v" "p \<in> set idx" "bs_id p = u" by (auto simp: links_def)
    then have "n \<le> bs_bft p" "bs_bft p \<le> bs_bft y" using step assms(1) by (auto simp: index_ok_def)
    moreover have "x = y" if "x \<in> set idx" "bs_id x = v" for x
      using index_ok_uniq[OF assms(1) that(1) y(1)] that y by simp
    ultimately show ?case using y by force
  qed
  then show ?thesis by simp
qed

lemma add_header_confirmation_ok:
  assumes inv: "fork_inv db" and "add_header_confirmation c conf db = Inr db'"
  shows "fork_inv db'"
proof -
  let ?i = "conf_block_id conf"
  obtain b s where b: "get_block db ?i = Some b" "add_confirmation c conf (hs b) = Inr s"
    and r: "(if bft_irreversible_blocknum s < bhs_block_num s
       \<and> length (confirmations s) \<ge> (length (sched_producers (active_schedule s)) * 2) div 3 + 1
     then set_bft_irreversible ?i (modify_block (\<lambda>x. x\<lparr>hs := s\<rparr>) ?i db) else Inr (modify_block (\<lambda>x. x\<lparr>hs := s\<rparr>) ?i db)) = Inr db'"
    using assms(2)
    by (auto simp: add_header_confirmation_def res_simps Let_def elim!: lift_header.elims)
  let ?db1 = "modify_block (\<lambda>x. x\<lparr>hs := s\<rparr>) ?i db"
  have s: "s = (hs b)\<lparr>confirmations := confirmations (hs b) @ [conf]\<rparr>"
    using b(2) by (auto simp: add_confirmation_def res_simps Let_def)
  have m: "b \<in> set (fork_index db)" "bs_id b = ?i" using get_block_mem[OF b(1)] by auto
  have uniq: "x = b" if "x \<in> set (fork_index db)" "bs_id x = ?i" for x
    using index_ok_uniq[OF _ that(1) m(1)] that m inv by (simp add: fork_inv_def)
  have "hdr_inv (hs b)" using inv m(1) by (simp add: fork_inv_def index_ok_def)
  then have i1: "fork_inv ?db1"
    using uniq by (intro fork_inv_modify[OF inv]) (auto simp: s hdr_inv_def tables_inv_def dest!: uniq)
  show ?thesis
  proof (cases "bft_irreversible_blocknum s < bhs_block_num s
       \<and> length (confirmations s) \<ge> (length (sched_producers (active_schedule s)) * 2) div 3 + 1")
    case True
    let ?b = "b\<lparr>hs := s\<rparr>"
    have "?b \<in> set (fork_index ?db1)" "bs_id ?b = ?i" using m by (auto simp: modify_block_def s image_iff intro!: bexI[of _ b])
    then have "get_block ?db1 ?i = Some ?b" using get_block_eq[of ?db1 ?b] i1 by (simp add: fork_inv_def)
    then show ?thesis using set_bft_irreversible_ok[OF i1, of ?i db' ?b] r True by auto
  next
    case False
    then have "db' = ?db1" using r unfolding if_not_P[OF False] by simp
    then show ?thesis using i1 by simp
  qed
qed

text \<open>The steps a node takes on its fork database. A block is added under the conditions that its header respects
  the bounds of \<open>header_ok\<close> and that no block of the index already names its id as its parent.\<close>

inductive fork_step :: "crypto \<Rightarrow> fork_database \<Rightarrow> fork_database \<Rightarrow> bool" for c where
  add: "add_block c b skip db = Inr db' \<Longrightarrow> (\<And>prior. get_block db (previous b) = Some prior \<Longrightarrow> header_ok (hs prior) b) \<Longrightarrow>
    header_id c b \<notin> bs_prev ` set (fork_index db) \<Longrightarrow> fork_step c db db'"
| confirm: "add_header_confirmation c conf db = Inr db' \<Longrightarrow> fork_step c db db'"
| validity: "set_validity h valid db = Inr db' \<Longrightarrow> fork_step c db db'"
| mark: "mark_in_current_chain h cur db = Inr db' \<Longrightarrow> fork_step c db db'"

definition new_fork_database :: fork_database where
  "new_fork_database = \<lparr>fork_index = [], fork_head = None, irreversible_log = []\<rparr>"

lemma add_block_ok:
  assumes inv: "fork_inv db" and add: "add_block c b skip db = Inr db'"
    and ok: "\<And>prior. get_block db (previous b) = Some prior \<Longrightarrow> header_ok (hs prior) b"
    and fresh: "header_id c b \<notin> bs_prev ` set (fork_index db)"
  shows "fork_inv db' \<and> head_best db'"
proof -
  obtain prior s where p: "get_block db (previous b) = Some prior" "next_header_state c (hs prior) b skip = Inr s"
    and new: "get_block db (header_id c b) = None"
    and a: "add_block_state \<lparr>hs = s, bs_block = b, validated = False, in_current_chain = False\<rparr> True db = Inr db'"
    using add by (auto simp: add_block_def next_block_state_def res_simps elim!: lift_header.elims)
  let ?n = "\<lparr>hs = s, bs_block = b, validated = False, in_current_chain = False\<rparr>"
  have pm: "prior \<in> set (fork_index db)" "bs_id prior = previous b" using get_block_mem[OF p(1)] by auto
  have i: "index_ok (fork_index db)" using inv by (simp add: fork_inv_def)
  have h: "bhs_header s = b" "bhs_id s = header_id c b" using next_header[OF p(2)] by auto
  have "hdr_inv (hs prior)" using i pm by (simp add: index_ok_def)
  note nh = next_hdr_inv[OF this p(2) ok[OF p(1)]]
  have "x = prior" if "x \<in> set (fork_index db)" "bs_id x = previous b" for x
    using index_ok_uniq[OF i that(1) pm(1)] that pm by simp
  moreover have "previous b \<noteq> header_id c b" using pm new by (metis get_block_None imageI)
  ultimately have "index_ok (fork_index db @ [?n])"
    using i new nh fresh h unfolding index_ok_def by (auto simp: get_block_None image_iff)
  from add_block_state_ok[OF a this] show ?thesis by (simp add: fork_inv_def head_best_in)
qed

lemma fork_step_inv: "fork_step c db db' \<Longrightarrow> fork_inv db \<Longrightarrow> fork_inv db'"
proof (induction rule: fork_step.induct)
  case (add b skip db db')
  then show ?case using add_block_ok by blast
next
  case (confirm conf db db')
  then show ?case using add_header_confirmation_ok by blast
next
  case (validity h valid db db')
  show ?case
  proof (cases valid)
    case True
    then have "db' = modify_block (\<lambda>b. b\<lparr>validated := True\<rparr>) (bs_id h) db" using validity by (simp add: set_validity_def)
    then show ?thesis using validity(2) by (simp add: fork_inv_flag)
  next
    case False
    then show ?thesis using validity remove_block_ok[of db "bs_id h" db'] by (auto simp: set_validity_def fork_inv_def head_best_in)
  qed
next
  case (mark h cur db db')
  then have "db' = db \<or> db' = modify_block (\<lambda>b. b\<lparr>in_current_chain := cur\<rparr>) (bs_id h) db"
    by (auto simp: mark_in_current_chain_def res_simps split: if_splits)
  then show ?case using mark(2) by (auto intro: fork_inv_flag)
qed

lemma fork_steps_inv: "(fork_step c)\<^sup>*\<^sup>* db db' \<Longrightarrow> fork_inv db \<Longrightarrow> fork_inv db'"
  by (induction rule: rtranclp_induct) (auto intro: fork_step_inv)

lemma set_root_inv:
  assumes "set_root c s new_fork_database = Inr db" "hdr_inv (hs s)" "bs_lib s \<le> bs_num s" "bs_prev s \<noteq> bs_id s"
  shows "fork_inv db"
  using assms by (auto simp: set_root_def new_fork_database_def res_simps insert_block_Some fork_inv_def index_ok_def head_in_def)

subsection \<open>Concrete fork databases\<close>

definition demo_root :: block_state where
  "demo_root = \<lparr>hs = demo_genesis 2, bs_block = zero_header, validated = True, in_current_chain = True\<rparr>"

definition demo_db0 :: fork_database where
  "demo_db0 = \<lparr>fork_index = [demo_root], fork_head = Some demo_root, irreversible_log = []\<rparr>"

definition demo_db1 :: fork_database where
  "demo_db1 = (case add_block toy_crypto (demo_headers ! 0) True demo_db0 of Inr db \<Rightarrow> db | Inl e \<Rightarrow> demo_db0)"

definition demo_block :: "64 word \<Rightarrow> 64 word \<Rightarrow> int \<Rightarrow> block_state" where
  "demo_block i prev n = \<lparr>hs = (demo_genesis 3)\<lparr>bhs_id := Digest i 0 0 0, bhs_block_num := n,
     bhs_header := zero_header\<lparr>previous := Digest prev 0 0 0\<rparr>\<rparr>,
     bs_block = zero_header, validated = False, in_current_chain = False\<rparr>"

text \<open>Two forks from block 4: blocks 1 and 4, and blocks 2 and 3, where the second fork was received first.\<close>

definition demo_forks :: fork_database where
  "demo_forks = \<lparr>fork_index = [demo_block 1 9 5, demo_block 2 9 5, demo_block 3 2 6, demo_block 4 1 6],
     fork_head = Some (demo_block 3 2 6), irreversible_log = []\<rparr>"

lemma demo_db1_step:
  "set_root toy_crypto demo_root new_fork_database = Inr demo_db0"
  "add_block toy_crypto (demo_headers ! 0) True demo_db0 = Inr demo_db1"
  "header_ok (hs demo_root) (demo_headers ! 0)"
  "get_block demo_db0 (previous (demo_headers ! 0)) = Some demo_root"
  by code_simp+

lemma demo_db1_fresh: "header_id toy_crypto (demo_headers ! 0) \<notin> bs_prev ` set (fork_index demo_db0)"
  by code_simp

lemma demo_root_ok: "hdr_inv (hs demo_root)" "bs_lib demo_root \<le> bs_num demo_root" "bs_prev demo_root \<noteq> bs_id demo_root"
  by (simp_all add: demo_root_def demo_genesis_def hdr_inv_def tables_inv_def max_producers_def demo_schedule_def
      empty_schedule_def zero_header_def zero_digest_def)

lemma demo_forks_ok: "index_ok (fork_index demo_forks)" "rooted 5 (Digest 9 0 0 0) (fork_index demo_forks)"
  by (auto simp: demo_forks_def demo_block_def demo_genesis_def index_ok_def hdr_inv_def tables_inv_def max_producers_def
      demo_schedule_def empty_schedule_def zero_header_def rooted_def)

subsection \<open>Properties\<close>



text \<open>C25. After a block has been added, the head is a block of the index that no block of the index beats in the order of
  the last irreversible block, then the last block confirmed by producers, then the block number, also when adding the
  block pruned old blocks.\<close>

theorem add_block_head_best:
  assumes "fork_inv db" and "add_block c b skip db = Inr db'"
    and "\<And>prior. get_block db (previous b) = Some prior \<Longrightarrow> header_ok (hs prior) b"
    and "header_id c b \<notin> bs_prev ` set (fork_index db)"
  shows "\<exists>h \<in> set (fork_index db'). fork_head db' = Some h \<and> (\<forall>x \<in> set (fork_index db'). \<not> better x h)"
  using add_block_ok[OF assms] by (auto simp: head_best_def split: option.splits)

theorem add_block_head_best_witness:
  "\<exists>h \<in> set (fork_index demo_db1). fork_head demo_db1 = Some h \<and> (\<forall>x \<in> set (fork_index demo_db1). \<not> better x h)"
proof (rule add_block_head_best[OF _ demo_db1_step(2) _ demo_db1_fresh])
  show "fork_inv demo_db0" by (rule set_root_inv[OF demo_db1_step(1) demo_root_ok])
qed (simp add: demo_db1_step)

text \<open>C26. \<open>remove\<close> terminates, and erases exactly the given block and the blocks built on it, directly or through other
  blocks; the head becomes the best of the remaining blocks. If none remains, the head is read past the end.\<close>

theorem remove_descendants:
  assumes "distinct (map bs_id (fork_index db))"
  shows "remove_block i db =
    (case lib_begin (filter (\<lambda>b. (i, bs_id b) \<notin> (links (fork_index db))\<^sup>*) (fork_index db)) of
       None \<Rightarrow> Inl Undefined
     | Some h \<Rightarrow> Inr (db\<lparr>fork_index := filter (\<lambda>b. (i, bs_id b) \<notin> (links (fork_index db))\<^sup>*) (fork_index db), fork_head := Some h\<rparr>))"
proof -
  have "(j \<notin> reach [i] idx) = ((i, j) \<notin> (links idx)\<^sup>*)" for j idx by (simp add: reach_def)
  then show ?thesis by (simp only: remove_block_spec[OF assms, of i])
qed

theorem remove_descendants_witness:
  "(Digest 2 0 0 0, Digest 3 0 0 0) \<in> (links (fork_index demo_forks))\<^sup>*"
proof (rule ccontr)
  assume n: "(Digest 2 0 0 0, Digest 3 0 0 0) \<notin> (links (fork_index demo_forks))\<^sup>*"
  have b: "demo_block 3 2 6 \<in> set (fork_index demo_forks)" "bs_id (demo_block 3 2 6) = Digest 3 0 0 0"
    by (simp_all add: demo_forks_def demo_block_def)
  have "remove_block (Digest 2 0 0 0) demo_forks
      = Inr (demo_forks\<lparr>fork_index := [demo_block 1 9 5, demo_block 4 1 6], fork_head := Some (demo_block 4 1 6)\<rparr>)"
    by code_simp
  then have eq: "filter (\<lambda>b. (Digest 2 0 0 0, bs_id b) \<notin> (links (fork_index demo_forks))\<^sup>*) (fork_index demo_forks)
      = [demo_block 1 9 5, demo_block 4 1 6]"
    using remove_descendants[OF index_ok_distinct[OF demo_forks_ok(1)], of "Digest 2 0 0 0"]
    by (auto split: option.splits dest!: arg_cong[of _ _ fork_index])
  have "demo_block 3 2 6 \<in> set (filter (\<lambda>b. (Digest 2 0 0 0, bs_id b) \<notin> (links (fork_index demo_forks))\<^sup>*)
      (fork_index demo_forks))" using b n by simp
  then have "demo_block 3 2 6 \<in> set [demo_block 1 9 5, demo_block 4 1 6]" unfolding eq .
  then show False by (simp add: demo_block_def demo_genesis_def)
qed



text \<open>When a block is made irreversible by confirmations, it and every block built on it, directly or through other
  blocks, are marked with at least its number, the search over the layers terminates, and the links do not change.\<close>

theorem bft_irreversible_descendants:
  assumes "fork_inv db" and "get_block db i = Some b" and "bs_bft b < bs_num b"
  shows "\<exists>db'. set_bft_irreversible i db = Inr db' \<and> fork_inv db' \<and> links (fork_index db') = links (fork_index db)
    \<and> (\<forall>x \<in> set (fork_index db'). (i, bs_id x) \<in> (links (fork_index db))\<^sup>* \<longrightarrow> bs_num b \<le> bs_bft x)"
proof -
  obtain db' where db': "set_bft_irreversible i db = Inr db'" using assms(2) by (simp add: set_bft_irreversible_def)
  note ok = set_bft_irreversible_ok[OF assms(1) db' assms(2,3)]
  have "links idx = set (zip (map bs_prev idx) (map bs_id idx))" for idx by (auto simp: links_def zip_map_fst_snd zip_same_conv_map zip_map_map)
  then have l: "links (fork_index db') = links (fork_index db)" using ok by metis
  have "bs_id ` set (fork_index db') = bs_id ` set (fork_index db)" using ok by (metis set_map)
  then have "i \<in> bs_id ` set (fork_index db')" using get_block_mem[OF assms(2)] by auto
  then have "\<forall>x \<in> set (fork_index db'). (i, bs_id x) \<in> (links (fork_index db))\<^sup>* \<longrightarrow> bs_num b \<le> bs_bft x"
    using bft_descendants[of "fork_index db'" i _ "bs_num b"] ok l by (auto simp: fork_inv_def)
  then show ?thesis using db' ok l by blast
qed

theorem bft_irreversible_descendants_witness:
  "\<exists>db'. set_bft_irreversible (Digest 2 0 0 0) demo_forks = Inr db'
    \<and> (\<forall>x \<in> set (fork_index db'). (Digest 2 0 0 0, bs_id x) \<in> (links (fork_index demo_forks))\<^sup>* \<longrightarrow> 5 \<le> bs_bft x)"
proof -
  have "get_block demo_forks (Digest 2 0 0 0) = Some (demo_block 2 9 5)" by code_simp
  moreover have "bs_bft (demo_block 2 9 5) < bs_num (demo_block 2 9 5)" "bs_num (demo_block 2 9 5) = 5"
    by (simp_all add: demo_block_def demo_genesis_def)
  moreover have "fork_inv demo_forks" using demo_forks_ok by (simp add: fork_inv_def head_in_def demo_forks_def)
  ultimately show ?thesis using bft_irreversible_descendants[of demo_forks "Digest 2 0 0 0" "demo_block 2 9 5"] by auto
qed


end
