(* ===== verification/Asset.thy ===== *)
theory Asset
  imports Names
begin

unbundle bit_operations_syntax

text \<open>
  Token symbols and assets (\<open>contracts/eosiolib/symbol.hpp\<close>, \<open>contracts/eosiolib/asset.hpp\<close>). A
  symbol is a \<open>uint64_t\<close>: the precision in the low byte, then up to seven upper-case letters. An asset
  is an \<open>int64_t\<close> amount of a symbol; its operators compute in 64-bit arithmetic and then assert that the
  result lies within \<open>max_amount\<close>.
\<close>

text \<open>What ends a contract's action: a failed \<open>eosio_assert\<close>, a missing authorisation, an arithmetic
  trap of the virtual machine, or a failed table access.\<close>

datatype contract_error =
    Assert string
  | Missing_auth account_name
  | Trap
  | Table_error

subsection \<open>Symbols\<close>

type_synonym symbol_name = "64 word"

definition is_upper :: "char \<Rightarrow> bool" where
  "is_upper c \<longleftrightarrow> of_char CHR ''A'' \<le> (of_char c :: nat) \<and> (of_char c :: nat) \<le> of_char CHR ''Z''"

fun symbol_chars :: "nat \<Rightarrow> string \<Rightarrow> 64 word \<Rightarrow> 64 word" where
  "symbol_chars i [] result = result"
| "symbol_chars i (c # cs) result =
     symbol_chars (i + 1) cs (if is_upper c then result OR push_bit (8 * (1 + i)) (of_char c) else result)"

definition string_to_symbol :: "8 word \<Rightarrow> string \<Rightarrow> symbol_name" where
  "string_to_symbol precision str = symbol_chars 0 (c_str str) 0 OR ucast precision"

text \<open>The inner \<open>do ... while\<close> of \<open>is_valid_symbol\<close>, entered with \<open>k = 7 - i\<close>, and the outer loop.\<close>

fun valid_symbol_rest :: "nat \<Rightarrow> 64 word \<Rightarrow> bool" where
  "valid_symbol_rest k sy =
     (let sy' = drop_bit 8 sy in
      if sy' AND 0xff \<noteq> 0 then False
      else if k \<le> 1 then True
      else valid_symbol_rest (k - 1) sy')"

fun valid_symbol_loop :: "nat \<Rightarrow> 64 word \<Rightarrow> bool" where
  "valid_symbol_loop 0 sy = True"
| "valid_symbol_loop (Suc k) sy =
     (let c = sy AND 0xff in
      if \<not> (65 \<le> c \<and> c \<le> 90) then False
      else let sy' = drop_bit 8 sy in
        if sy' AND 0xff = 0 then valid_symbol_rest (Suc k) sy'
        else valid_symbol_loop k sy')"

definition is_valid_symbol :: "symbol_name \<Rightarrow> bool" where
  "is_valid_symbol sy = valid_symbol_loop 7 (drop_bit 8 sy)"

fun symbol_length_loop :: "nat \<Rightarrow> nat \<Rightarrow> 64 word \<Rightarrow> nat" where
  "symbol_length_loop 0 len sy = len"
| "symbol_length_loop (Suc fuel) len sy =
     (if sy AND 0xff \<noteq> 0 \<and> len \<le> 7 then symbol_length_loop fuel (len + 1) (drop_bit 8 sy) else len)"

text \<open>The loop stops when \<open>length\<close> exceeds 7, so nine rounds are enough.\<close>

definition symbol_name_length :: "symbol_name \<Rightarrow> nat" where
  "symbol_name_length sy = symbol_length_loop 9 0 (drop_bit 8 sy)"

text \<open>\<open>symbol_type::precision\<close> and \<open>symbol_type::name\<close>.\<close>

definition symbol_precision :: "symbol_name \<Rightarrow> 64 word" where
  "symbol_precision sy = sy AND 0xff"

definition symbol_code :: "symbol_name \<Rightarrow> 64 word" where
  "symbol_code sy = drop_bit 8 sy"

text \<open>\<open>CORE_SYMBOL\<close> with the default \<open>CORE_SYMBOL_NAME\<close> of the build.\<close>

definition CORE_SYMBOL :: symbol_name where
  "CORE_SYMBOL = string_to_symbol 4 ''CDX''"

subsection \<open>Assets\<close>

record asset =
  amount :: int
  symbol :: symbol_name

definition max_amount :: int where "max_amount = 2 ^ 62 - 1"

definition is_amount_within_range :: "asset \<Rightarrow> bool" where
  "is_amount_within_range a \<longleftrightarrow> - max_amount \<le> amount a \<and> amount a \<le> max_amount"

definition asset_is_valid :: "asset \<Rightarrow> bool" where
  "asset_is_valid a \<longleftrightarrow> is_amount_within_range a \<and> is_valid_symbol (symbol a)"

text \<open>The constructor; the amount it is given has been converted to \<open>int64_t\<close>.\<close>

definition mk_asset :: "int \<Rightarrow> symbol_name \<Rightarrow> contract_error + asset" where
  "mk_asset a s =
     (let r = \<lparr>amount = s64 a, symbol = s\<rparr> in
      chk (is_amount_within_range r) (Assert ''magnitude of asset amount must be less than 2^62'')
       (chk (is_valid_symbol s) (Assert ''invalid symbol name'') (Inr r)))"

definition set_amount :: "asset \<Rightarrow> int \<Rightarrow> contract_error + asset" where
  "set_amount x a =
     (let r = x\<lparr>amount := s64 a\<rparr> in
      chk (is_amount_within_range r) (Assert ''magnitude of asset amount must be less than 2^62'') (Inr r))"

definition asset_neg :: "asset \<Rightarrow> asset" where
  "asset_neg x = x\<lparr>amount := s64 (- amount x)\<rparr>"

definition asset_sub :: "asset \<Rightarrow> asset \<Rightarrow> contract_error + asset" where
  "asset_sub x a =
     chk (symbol a = symbol x) (Assert ''attempt to subtract asset with different symbol'')
       (let r = x\<lparr>amount := s64 (amount x - amount a)\<rparr> in
        chk (- max_amount \<le> amount r) (Assert ''subtraction underflow'')
         (chk (amount r \<le> max_amount) (Assert ''subtraction overflow'') (Inr r)))"

definition asset_add :: "asset \<Rightarrow> asset \<Rightarrow> contract_error + asset" where
  "asset_add x a =
     chk (symbol a = symbol x) (Assert ''attempt to add asset with different symbol'')
       (let r = x\<lparr>amount := s64 (amount x + amount a)\<rparr> in
        chk (- max_amount \<le> amount r) (Assert ''addition underflow'')
         (chk (amount r \<le> max_amount) (Assert ''addition overflow'') (Inr r)))"

definition asset_mult :: "asset \<Rightarrow> int \<Rightarrow> contract_error + asset" where
  "asset_mult x a =
     (let tmp = s128 (amount x * a) in
      chk (tmp \<le> max_amount) (Assert ''multiplication overflow'')
       (chk (tmp \<ge> - max_amount) (Assert ''multiplication underflow'')
         (Inr (x\<lparr>amount := s64 tmp\<rparr>))))"

definition asset_div :: "asset \<Rightarrow> int \<Rightarrow> contract_error + asset" where
  "asset_div x a =
     chk (a \<noteq> 0) (Assert ''divide by zero'')
      (chk (\<not> (amount x = INT64_MIN \<and> a = -1)) (Assert ''signed division overflow'')
        (Inr (x\<lparr>amount := tdiv (amount x) a\<rparr>)))"

text \<open>Division of an asset by an asset traps when the divisor is zero, as \<open>i64.div_s\<close> does.\<close>

definition asset_ratio :: "asset \<Rightarrow> asset \<Rightarrow> contract_error + int" where
  "asset_ratio x y =
     chk (symbol x = symbol y) (Assert ''comparison of assets with different symbols is not allowed'')
      (chk (amount y \<noteq> 0 \<and> \<not> (amount x = INT64_MIN \<and> amount y = -1)) Trap
        (Inr (tdiv (amount x) (amount y))))"

text \<open>The comparison operators: each one asserts that the symbols agree.\<close>

definition asset_cmp :: "(int \<Rightarrow> int \<Rightarrow> bool) \<Rightarrow> asset \<Rightarrow> asset \<Rightarrow> contract_error + bool" where
  "asset_cmp rel x y =
     chk (symbol x = symbol y) (Assert ''comparison of assets with different symbols is not allowed'')
       (Inr (rel (amount x) (amount y)))"

definition asset_eq :: "asset \<Rightarrow> asset \<Rightarrow> contract_error + bool" where
  "asset_eq = asset_cmp (\<lambda>a b. a = b)"

definition asset_lt :: "asset \<Rightarrow> asset \<Rightarrow> contract_error + bool" where
  "asset_lt = asset_cmp (\<lambda>a b. a < b)"

definition asset_le :: "asset \<Rightarrow> asset \<Rightarrow> contract_error + bool" where
  "asset_le = asset_cmp (\<lambda>a b. a \<le> b)"

definition asset_gt :: "asset \<Rightarrow> asset \<Rightarrow> contract_error + bool" where
  "asset_gt = asset_cmp (\<lambda>a b. a > b)"

definition asset_ge :: "asset \<Rightarrow> asset \<Rightarrow> contract_error + bool" where
  "asset_ge = asset_cmp (\<lambda>a b. a \<ge> b)"

lemmas asset_cmp_defs = asset_eq_def asset_lt_def asset_le_def asset_gt_def asset_ge_def asset_cmp_def

subsection \<open>Arithmetic is exact on amounts in range\<close>

named_theorems asset_simps \<open>when an asset operation succeeds, and its result\<close>

lemma max_amount_value: "max_amount = 4611686018427387903"
  by (simp add: max_amount_def)

lemma asset_sub_Inr [asset_simps]:
  assumes "is_amount_within_range x" "is_amount_within_range a"
  shows "asset_sub x a = Inr r \<longleftrightarrow>
     symbol a = symbol x \<and> - max_amount \<le> amount x - amount a \<and> amount x - amount a \<le> max_amount \<and>
     r = x\<lparr>amount := amount x - amount a\<rparr>"
proof -
  have "s64 (amount x - amount a) = amount x - amount a"
    using assms by (intro s64_id) (auto simp: is_amount_within_range_def max_amount_def INT64_MIN_def INT64_MAX_def)
  then show ?thesis
    by (auto simp: asset_sub_def Let_def res_simps)
qed

lemma asset_add_Inr [asset_simps]:
  assumes "is_amount_within_range x" "is_amount_within_range a"
  shows "asset_add x a = Inr r \<longleftrightarrow>
     symbol a = symbol x \<and> - max_amount \<le> amount x + amount a \<and> amount x + amount a \<le> max_amount \<and>
     r = x\<lparr>amount := amount x + amount a\<rparr>"
proof -
  have "s64 (amount x + amount a) = amount x + amount a"
    using assms by (intro s64_id) (auto simp: is_amount_within_range_def max_amount_def INT64_MIN_def INT64_MAX_def)
  then show ?thesis
    by (auto simp: asset_add_def Let_def res_simps)
qed

lemma asset_mult_Inr [asset_simps]:
  assumes "is_amount_within_range x" "INT64_MIN \<le> a" "a \<le> INT64_MAX"
  shows "asset_mult x a = Inr r \<longleftrightarrow>
     - max_amount \<le> amount x * a \<and> amount x * a \<le> max_amount \<and> r = x\<lparr>amount := amount x * a\<rparr>"
proof -
  have "\<bar>amount x\<bar> \<le> 2 ^ 62" "\<bar>a\<bar> \<le> 2 ^ 63"
    using assms by (auto simp: is_amount_within_range_def max_amount_def INT64_MIN_def INT64_MAX_def)
  then have "\<bar>amount x * a\<bar> \<le> 2 ^ 62 * 2 ^ 63"
    unfolding abs_mult by (intro mult_mono) auto
  then have s: "s128 (amount x * a) = amount x * a"
    by (auto simp: s128_def)
  have "s64 (amount x * a) = amount x * a" if "- max_amount \<le> amount x * a" "amount x * a \<le> max_amount"
    using that by (intro s64_id) (auto simp: max_amount_def INT64_MIN_def INT64_MAX_def)
  then show ?thesis
    by (auto simp: asset_mult_def Let_def res_simps s)
qed

lemma asset_add_symbol: "asset_add x a = Inr r \<Longrightarrow> symbol r = symbol x \<and> symbol a = symbol x"
  by (auto simp: asset_add_def Let_def res_simps)

lemma asset_sub_symbol: "asset_sub x a = Inr r \<Longrightarrow> symbol r = symbol x \<and> symbol a = symbol x"
  by (auto simp: asset_sub_def Let_def res_simps)

lemma asset_add_range: "asset_add x a = Inr r \<Longrightarrow> is_amount_within_range r"
  by (auto simp: asset_add_def Let_def res_simps is_amount_within_range_def)

lemma asset_sub_range: "asset_sub x a = Inr r \<Longrightarrow> is_amount_within_range r"
  by (auto simp: asset_sub_def Let_def res_simps is_amount_within_range_def)

lemma asset_mult_range: "asset_mult x a = Inr r \<Longrightarrow> symbol r = symbol x \<and> is_amount_within_range r"
  by (auto simp: asset_mult_def Let_def res_simps is_amount_within_range_def max_amount_def s64_def)

lemma asset_div_range:
  assumes "is_amount_within_range x" "asset_div x a = Inr r"
  shows "symbol r = symbol x \<and> is_amount_within_range r"
proof -
  have "\<bar>amount x\<bar> div \<bar>a\<bar> \<le> \<bar>amount x\<bar>" "0 \<le> \<bar>amount x\<bar> div \<bar>a\<bar>" if "a \<noteq> 0"
    using that zdiv_mono2 [of "\<bar>amount x\<bar>" 1 "\<bar>a\<bar>"] by (auto simp: pos_imp_zdiv_nonneg_iff)
  then have "\<bar>tdiv (amount x) a\<bar> \<le> \<bar>amount x\<bar>" if "a \<noteq> 0"
    using that by (auto simp: tdiv_def abs_mult abs_sgn_eq)
  then show ?thesis
    using assms by (fastforce simp: asset_div_def res_simps is_amount_within_range_def)
qed

lemma mk_asset_Inr [asset_simps]:
  assumes "INT64_MIN \<le> a" "a \<le> INT64_MAX"
  shows "mk_asset a s = Inr r \<longleftrightarrow>
    - max_amount \<le> a \<and> a \<le> max_amount \<and> is_valid_symbol s \<and> r = \<lparr>amount = a, symbol = s\<rparr>"
  using s64_id [OF assms] by (auto simp: mk_asset_def Let_def res_simps is_amount_within_range_def)

subsection \<open>Valid symbols\<close>

text \<open>The bytes of a symbol: byte 0 is the precision, bytes 1 to 7 the letters.\<close>

declare valid_symbol_rest.simps [simp del]

definition byte :: "nat \<Rightarrow> 64 word \<Rightarrow> 64 word" where
  "byte i w = drop_bit (8 * i) w AND 0xff"

lemma bit_byte: "bit (byte i w) j \<longleftrightarrow> j < 8 \<and> bit w (8 * i + j)"
proof -
  have e: "(0xff :: 64 word) = mask 8" by (simp add: mask_eq_exp_minus_1)
  show ?thesis unfolding byte_def e by (auto simp: bit_simps dest: bit_imp_le_length)
qed

lemma byte_drop [simp]: "byte i (drop_bit 8 w) = byte (Suc i) w"
  by (rule bit_word_eqI) (auto simp: bit_byte bit_drop_bit_eq add.assoc)

lemma byte_0: "w AND 0xff = byte 0 w"
  by (simp add: byte_def)

lemma valid_symbol_rest_iff:
  "1 \<le> k \<Longrightarrow> valid_symbol_rest k w \<longleftrightarrow> (\<forall>i \<in> {1..k}. byte i w = 0)"
proof (induction k w rule: valid_symbol_rest.induct)
  case (1 k w)
  have "(\<forall>i \<in> {1..k}. byte i w = 0) \<longleftrightarrow> byte 1 w = 0 \<and> (\<forall>i \<in> {1..k - 1}. byte (Suc i) w = 0)"
    using 1(2) by (auto simp: Ball_def) (metis Suc_le_D Suc_le_mono le_diff_conv One_nat_def not_less_eq_eq plus_1_eq_Suc add.commute le_zero_eq nat.simps(3))
  moreover have "k \<le> 1 \<Longrightarrow> {1..k - 1} = {}" by auto
  ultimately show ?case
    using 1 by (subst valid_symbol_rest.simps) (auto simp: byte_0 Let_def)
qed

definition is_upper_byte :: "64 word \<Rightarrow> bool" where
  "is_upper_byte b \<longleftrightarrow> 65 \<le> b \<and> b \<le> 90"

lemma ex_le_shift:
  assumes "\<And>n. Q (Suc n) \<Longrightarrow> 0 < n"
  shows "(\<exists>n \<le> k. (0 < k \<longrightarrow> 0 < n) \<and> Q (Suc n)) \<longleftrightarrow> (\<exists>n \<le> Suc k. 0 < n \<and> Q n)"
  using assms by (auto simp: gr0_conv_Suc)

lemma valid_symbol_loop_iff:
  "(\<forall>i \<ge> k. byte i w = 0) \<Longrightarrow> valid_symbol_loop k w \<longleftrightarrow>
    (\<exists>n \<le> k. (0 < k \<longrightarrow> 0 < n) \<and> (\<forall>i < n. is_upper_byte (byte i w)) \<and> (\<forall>i \<ge> n. byte i w = 0))"
proof (induction k w rule: valid_symbol_loop.induct)
  case (1 w)
  then show ?case by simp
next
  case (2 k w)
  have z: "\<not> is_upper_byte 0" by (simp add: is_upper_byte_def)
  let ?R = "\<lambda>n. (\<forall>i < n. is_upper_byte (byte i w)) \<and> (\<forall>i \<ge> n. byte i w = 0)"
  show ?case
  proof (cases "is_upper_byte (byte 0 w) \<and> byte 1 w \<noteq> 0")
    case True
    have "(\<forall>i < Suc n. is_upper_byte (byte i w)) \<longleftrightarrow> (\<forall>i < n. is_upper_byte (byte (Suc i) w))" for n
      using True by (simp add: All_less_Suc2)
    moreover have "(\<forall>i \<ge> Suc n. byte i w = 0) \<longleftrightarrow> (\<forall>i \<ge> n. byte (Suc i) w = 0)" for n
      by (metis Suc_le_D Suc_le_mono)
    ultimately have R: "?R (Suc n) \<longleftrightarrow> (\<forall>i < n. is_upper_byte (byte (Suc i) w)) \<and> (\<forall>i \<ge> n. byte (Suc i) w = 0)" for n
      by simp
    have "valid_symbol_loop (Suc k) w = valid_symbol_loop k (drop_bit 8 w)"
      using True by (simp add: byte_0 is_upper_byte_def Let_def)
    also have "\<dots> \<longleftrightarrow> (\<exists>n \<le> k. (0 < k \<longrightarrow> 0 < n) \<and> ?R (Suc n))"
      unfolding R using 2 True by (auto simp: byte_0 is_upper_byte_def)
    also have "\<dots> \<longleftrightarrow> (\<exists>n \<le> Suc k. 0 < n \<and> ?R n)"
    proof -
      have "\<not> ?R (Suc 0)" using True by auto
      then show ?thesis by (intro ex_le_shift) (metis gr0I)
    qed
    finally show ?thesis by simp
  next
    case False
    have "valid_symbol_loop (Suc k) w \<longleftrightarrow> is_upper_byte (byte 0 w) \<and> byte 1 w = 0 \<and> (\<forall>i \<in> {1..Suc k}. byte (Suc i) w = 0)"
      using False by (auto simp: byte_0 is_upper_byte_def Let_def valid_symbol_rest_iff)
    also have "\<dots> \<longleftrightarrow> ?R 1"
    proof -
      have "byte i w = 0" if "byte 1 w = 0" "\<forall>i \<in> {1..Suc k}. byte (Suc i) w = 0" "1 \<le> i" for i
      proof (cases "i \<le> Suc (Suc k)")
        case True
        then show ?thesis using that by (cases "i = 1") (auto simp: Ball_def dest!: spec [of _ "i - 1"])
      next
        case False
        then show ?thesis using 2(2) by auto
      qed
      then show ?thesis by auto
    qed
    also have "\<dots> \<longleftrightarrow> (\<exists>n \<le> Suc k. 0 < n \<and> ?R n)"
    proof
      assume "\<exists>n \<le> Suc k. 0 < n \<and> ?R n"
      then obtain n where "0 < n" "?R n" by blast
      moreover from this have "\<not> 1 < n" using False z by metis
      moreover from this \<open>0 < n\<close> have "n = 1" by simp
      ultimately show "?R 1" by simp
    qed auto
    finally show ?thesis by simp
  qed
qed

lemma byte_high: 
  assumes "8 \<le> i" shows "byte i w = 0"
proof (rule bit_word_eqI)
  fix j :: nat
  have "\<not> bit w (8 * i + j)" using assms bit_imp_le_length [of w "8 * i + j"] by auto
  then show "bit (byte i w) j = bit 0 j" by (simp add: bit_byte)
qed

lemma is_valid_symbol_bytes:
  "is_valid_symbol w \<longleftrightarrow> (\<exists>n \<le> 7. 0 < n \<and> (\<forall>i < n. is_upper_byte (byte (Suc i) w)) \<and> (\<forall>i \<ge> n. byte (Suc i) w = 0))"
proof -
  have "\<forall>i \<ge> 7. byte i (drop_bit 8 w) = 0"
    by (simp add: byte_high)
  then show ?thesis
    unfolding is_valid_symbol_def by (simp add: valid_symbol_loop_iff)
qed

lemma of_char_word: "(of_char c :: 64 word) = of_nat (of_char c)"
  by (simp only: of_nat_of_char)

lemma bit_of_char_word: "bit (of_char c :: 64 word) j \<longleftrightarrow> j < 8 \<and> bit (of_char c :: nat) j"
proof -
  have "(of_char c :: nat) < 2 ^ 8" using nat_of_char_less_256 [of c] by simp
  then have "j < 8" if "bit (of_char c :: nat) j" using that by (rule bit_nat_bound [rotated])
  then show ?thesis by (subst of_char_word) (auto simp: bit_simps)
qed

lemma bit_symbol_chars:
  "bit (symbol_chars i cs r) m \<longleftrightarrow> bit r m \<or>
    (\<exists>j < length cs. is_upper (cs ! j) \<and> bit (push_bit (8 * (1 + i + j)) (of_char (cs ! j)) :: 64 word) m)"
proof (induction i cs r rule: symbol_chars.induct)
  case (2 i c cs r)
  then show ?case by (auto simp: bit_or_iff Ex_less_Suc2)
qed simp

lemma upper_not_nul: "list_all is_upper s \<Longrightarrow> c_str s = s"
  by (rule c_str_id) (auto simp: list_all_iff is_upper_def)

lemma bit_string_to_symbol:
  assumes "list_all is_upper s" "j < 8"
  shows "bit (string_to_symbol p s) (8 * i + j) \<longleftrightarrow>
     (if i = 0 then bit p j else i \<le> length s \<and> i < 8 \<and> bit (of_char (s ! (i - 1)) :: 64 word) j)"
proof -
  have "bit (push_bit (8 * (1 + 0 + k)) (of_char c) :: 64 word) (8 * i + j) \<longleftrightarrow> i = Suc k \<and> i < 8 \<and> bit (of_char c :: 64 word) j" for k c
  proof (cases "i = Suc k")
    case False
    then have "\<not> (8 * (1 + k) \<le> 8 * i + j \<and> 8 * i + j - 8 * (1 + k) < 8)"
      using assms(2) by auto
    then show ?thesis using False bit_of_char_word [of c] by (auto simp: bit_push_bit_iff)
  qed (use assms(2) in \<open>auto simp: bit_push_bit_iff\<close>)
  moreover have "bit (ucast p :: 64 word) (8 * i + j) \<longleftrightarrow> i = 0 \<and> bit p j"
    using assms(2) bit_imp_le_length [of p "8 * i + j"] by (cases "i = 0") (auto simp: bit_ucast_iff)
  moreover have "is_upper (s ! k)" if "k < length s" for k using assms(1) that by (simp add: list_all_length)
  ultimately show ?thesis
    unfolding string_to_symbol_def bit_or_iff bit_symbol_chars upper_not_nul [OF assms(1)]
    by (auto simp: Suc_le_eq gr0_conv_Suc)
qed

lemma byte_string_to_symbol:
  assumes "list_all is_upper s" 
  shows "byte (Suc i) (string_to_symbol p s) = (if i < length s \<and> i < 7 then of_char (s ! i) else 0)"
proof (rule bit_word_eqI)
  fix j :: nat
  show "bit (byte (Suc i) (string_to_symbol p s)) j = bit (if i < length s \<and> i < 7 then of_char (s ! i) else 0 :: 64 word) j"
    using bit_string_to_symbol [OF assms, of j p "Suc i"] bit_of_char_word [of "s ! i" j]
    by (auto simp: bit_byte)
qed

lemma is_upper_byte_of_char: "is_upper c \<Longrightarrow> is_upper_byte (of_char c)"
  unfolding is_upper_byte_def is_upper_def of_char_word by (simp add: word_le_nat_alt unat_of_nat)

lemma of_char_byte:
  assumes "is_upper_byte b"
  shows "of_char (char_of (unat b)) = b" "is_upper (char_of (unat b))"
proof -
  have "65 \<le> unat b" "unat b \<le> 90" using assms by (auto simp: is_upper_byte_def word_le_nat_alt)
  then have n: "(of_char (char_of (unat b)) :: nat) = unat b" by (simp add: of_char_of)
  then show "is_upper (char_of (unat b))" using \<open>65 \<le> unat b\<close> \<open>unat b \<le> 90\<close> by (simp add: is_upper_def)
  show "of_char (char_of (unat b)) = b" by (subst of_char_word) (simp only: n of_nat_unat ucast_id)
qed

lemma is_valid_symbol_iff:
  "is_valid_symbol sy \<longleftrightarrow> (\<exists>p s. s \<noteq> [] \<and> length s \<le> 7 \<and> list_all is_upper s \<and> sy = string_to_symbol p s)"
proof
  assume "\<exists>p s. s \<noteq> [] \<and> length s \<le> 7 \<and> list_all is_upper s \<and> sy = string_to_symbol p s"
  then obtain p s where s: "s \<noteq> []" "length s \<le> 7" "list_all is_upper s" "sy = string_to_symbol p s" by blast
  then show "is_valid_symbol sy"
    unfolding is_valid_symbol_bytes
    by (intro exI [of _ "length s"]) (auto simp: byte_string_to_symbol list_all_length is_upper_byte_of_char)
next
  assume "is_valid_symbol sy"
  then obtain n where n: "n \<le> 7" "0 < n" "\<And>i. i < n \<Longrightarrow> is_upper_byte (byte (Suc i) sy)" "\<And>i. n \<le> i \<Longrightarrow> byte (Suc i) sy = 0"
    unfolding is_valid_symbol_bytes by blast
  let ?s = "map (\<lambda>i. char_of (unat (byte (Suc i) sy))) [0..<n]"
  have u: "list_all is_upper ?s" using n(3) by (auto simp: list_all_iff of_char_byte)
  have "sy = string_to_symbol (ucast sy) ?s"
  proof (rule bit_word_eqI)
    fix m assume m: "m < LENGTH(64)"
    obtain i j where ij: "m = 8 * i + j" "j < 8" by (metis mod_less_divisor mult_div_mod_eq zero_less_numeral)
    have "bit sy m \<longleftrightarrow> bit (byte i sy) j" using ij by (simp add: bit_byte)
    also have "\<dots> \<longleftrightarrow> (if i = 0 then bit (ucast sy :: 8 word) j
        else i \<le> length ?s \<and> i < 8 \<and> bit (of_char (?s ! (i - 1)) :: 64 word) j)"
    proof (cases i)
      case (Suc k)
      then show ?thesis
        using n(1) n(3,4) [of k] m ij by (cases "k < n") (simp_all add: of_char_byte)
    qed (use ij m in \<open>simp add: bit_byte bit_ucast_iff\<close>)
    also have "\<dots> \<longleftrightarrow> bit (string_to_symbol (ucast sy) ?s) m"
      unfolding ij(1) by (rule bit_string_to_symbol [OF u ij(2), symmetric])
    finally show "bit sy m = bit (string_to_symbol (ucast sy) ?s) m" .
  qed
  then show "\<exists>p s. s \<noteq> [] \<and> length s \<le> 7 \<and> list_all is_upper s \<and> sy = string_to_symbol p s"
    using n(1,2) u by (intro exI [of _ "ucast sy"] exI [of _ ?s]) auto
qed

lemma symbol_length_loop_step:
  "(\<And>i. i < n \<Longrightarrow> byte i w \<noteq> 0) \<Longrightarrow> byte n w = 0 \<Longrightarrow> len + n \<le> 7 \<Longrightarrow> n < fuel \<Longrightarrow>
    symbol_length_loop fuel len w = len + n"
proof (induction fuel len w arbitrary: n rule: symbol_length_loop.induct)
  case (2 fuel len w)
  show ?case
  proof (cases n)
    case 0
    then show ?thesis using 2 by (simp add: byte_0)
  next
    case (Suc m)
    then have "symbol_length_loop fuel (len + 1) (drop_bit 8 w) = (len + 1) + m"
      using 2(2)[of 0] 2(2-5) by (intro 2(1)) (auto simp: byte_0)
    then show ?thesis using 2(2)[of 0] Suc 2(4) by (simp add: byte_0)
  qed
qed simp

lemma symbol_name_length_string:
  assumes "list_all is_upper s" "length s \<le> 7"
  shows "symbol_name_length (string_to_symbol p s) = length s" "symbol_precision (string_to_symbol p s) = ucast p"
proof -
  have "byte i (drop_bit 8 (string_to_symbol p s)) \<noteq> 0" if "i < length s" for i
  proof -
    have "is_upper_byte (byte i (drop_bit 8 (string_to_symbol p s)))"
      using assms that by (auto simp: byte_string_to_symbol list_all_length is_upper_byte_of_char)
    then show ?thesis by (auto simp: is_upper_byte_def)
  qed
  then show "symbol_name_length (string_to_symbol p s) = length s"
    unfolding symbol_name_length_def
    using assms symbol_length_loop_step [of "length s" "drop_bit 8 (string_to_symbol p s)" 0 9]
    by (simp add: byte_string_to_symbol)
  show "symbol_precision (string_to_symbol p s) = ucast p"
    unfolding symbol_precision_def byte_0
    by (rule bit_word_eqI)
      (use bit_string_to_symbol [OF assms(1), of _ p 0] bit_imp_le_length [of p] in \<open>fastforce simp: bit_byte bit_ucast_iff\<close>)
qed

lemma CORE_SYMBOL_literal [code abstract]: "Word.the_int CORE_SYMBOL = 1480868612"
  by (simp add: CORE_SYMBOL_def string_to_symbol_def c_str_def is_upper_def)

lemma CORE_SYMBOL_valid: "is_valid_symbol CORE_SYMBOL"
  unfolding is_valid_symbol_iff CORE_SYMBOL_def
  by (rule exI [of _ 4], rule exI [of _ "''CDX''"]) (simp add: is_upper_def)

subsection \<open>Properties\<close>

text \<open>A symbol is valid exactly when \<open>string_to_symbol\<close> encodes it from one to seven upper-case
  letters and a precision; \<open>name_length\<close> and \<open>precision\<close> then read back the number of letters and the
  precision.\<close>

theorem valid_symbols_are_encodings:
  "is_valid_symbol sy \<longleftrightarrow>
     (\<exists>p s. s \<noteq> [] \<and> length s \<le> 7 \<and> list_all is_upper s \<and> sy = string_to_symbol p s \<and>
        symbol_name_length sy = length s \<and> symbol_precision sy = ucast p)"
  unfolding is_valid_symbol_iff using symbol_name_length_string by blast

text \<open>On operands whose amounts are within \<open>max_amount\<close> the asset operators never wrap: addition,
  subtraction and multiplication succeed exactly when the true result is within range (and the symbols
  agree), and then return it.\<close>

theorem asset_arithmetic_exact:
  assumes "is_amount_within_range x" "is_amount_within_range y" "INT64_MIN \<le> k" "k \<le> INT64_MAX"
  shows "(asset_add x y = Inr r \<longleftrightarrow> symbol x = symbol y \<and> \<bar>amount x + amount y\<bar> \<le> max_amount \<and>
            r = \<lparr>amount = amount x + amount y, symbol = symbol x\<rparr>) \<and>
         (asset_sub x y = Inr r \<longleftrightarrow> symbol x = symbol y \<and> \<bar>amount x - amount y\<bar> \<le> max_amount \<and>
            r = \<lparr>amount = amount x - amount y, symbol = symbol x\<rparr>) \<and>
         (asset_mult x k = Inr r \<longleftrightarrow> \<bar>amount x * k\<bar> \<le> max_amount \<and>
            r = \<lparr>amount = amount x * k, symbol = symbol x\<rparr>)"
  using assms by (cases x; cases y) (auto simp: asset_simps abs_le_iff)

theorem asset_arithmetic_exact_witness:
  "is_amount_within_range \<lparr>amount = 7, symbol = CORE_SYMBOL\<rparr> \<and>
   asset_sub \<lparr>amount = 7, symbol = CORE_SYMBOL\<rparr> \<lparr>amount = 9, symbol = CORE_SYMBOL\<rparr> =
     Inr \<lparr>amount = -2, symbol = CORE_SYMBOL\<rparr>"
proof -
  have r: "is_amount_within_range \<lparr>amount = 7, symbol = CORE_SYMBOL\<rparr>"
    "is_amount_within_range \<lparr>amount = 9, symbol = CORE_SYMBOL\<rparr>"
    by (simp_all add: is_amount_within_range_def max_amount_def)
  show ?thesis
    using asset_arithmetic_exact [OF r, of 3 "\<lparr>amount = -2, symbol = CORE_SYMBOL\<rparr>"] r
    by (simp add: max_amount_def INT64_MIN_def INT64_MAX_def)
qed

end
