(* ===== verification/Contract.thy ===== *)
theory Contract
  imports Asset Multi_Index
begin

text \<open>
  What an action of a contract sees of the node, and what it asks of it.

  \<^item> \<open>action_context\<close>: the authorisations of the action (\<open>act.authorization\<close>), the account the contract runs
    under (\<open>_self\<close>), the block number and time, and which accounts exist (\<open>is_account\<close>).
  \<^item> \<open>effect\<close>: a notification (\<open>require_recipient\<close>), an inline action, or a call of a privileged
    intrinsic. The node executes inline actions after the action that sends them; the model returns them
    with the new state, in the order in which they are sent.
\<close>

type_synonym permission_level = "account_name \<times> permission_name"

record action_context =
  authorization :: "permission_level list"
  self :: account_name
  block_num :: int
  time_now :: int
  is_account :: "account_name \<Rightarrow> bool"

text \<open>The arguments of the inline actions that the contracts send.\<close>

datatype action_data =
    Transfer_data account_name account_name asset string
  | Issue_data account_name asset string
  | Castcoin_data account_name account_name asset
  | Addmortgage_data name account_name account_name account_name asset int
  | Exchange_data name account_name account_name account_name account_name asset int
  | Amount_data asset
  | Number_data int
  | Account_data account_name

datatype effect =
    Notify account_name
  | Inline account_name action_name "permission_level list" action_data
  | Set_resource_limits account_name int int int
  | Set_proposed_producers "(account_name \<times> int) list"
  | Need_check_ram_limit account_name

type_synonym 's result = "contract_error + 's \<times> effect list"

definition has_auth :: "action_context \<Rightarrow> account_name \<Rightarrow> bool" where
  "has_auth ctx a \<longleftrightarrow> list_ex (\<lambda>p. fst p = a) (authorization ctx)"

definition require_auth :: "action_context \<Rightarrow> account_name \<Rightarrow> contract_error + 'a \<Rightarrow> contract_error + 'a" where
  "require_auth ctx a k = chk (has_auth ctx a) (Missing_auth a) k"

lemma require_auth_Inr [res_simps]: "require_auth ctx a k = Inr x \<longleftrightarrow> has_auth ctx a \<and> k = Inr x"
  by (simp add: require_auth_def res_simps)

lemma require_auth_Inl [res_simps]:
  "require_auth ctx a k = Inl e \<longleftrightarrow> (\<not> has_auth ctx a \<and> e = Missing_auth a) \<or> (has_auth ctx a \<and> k = Inl e)"
  by (auto simp: require_auth_def res_simps)

subsection \<open>Ledgers\<close>

text \<open>
  The contract of a balance table: \<open>sub\<close> and \<open>add\<close> move one owner's balance of one symbol by exactly the
  amount they are given, and nothing else. \<open>bal s o n\<close> is the balance of owner \<open>o\<close> in the symbol with
  name \<open>n\<close>, \<open>circ s n\<close> the sum over all owners.
\<close>

locale ledger =
  fixes sub :: "account_name \<Rightarrow> asset \<Rightarrow> 's \<Rightarrow> contract_error + 's"
    and add :: "account_name \<Rightarrow> asset \<Rightarrow> 's \<Rightarrow> contract_error + 's"
    and bal :: "'s \<Rightarrow> account_name \<Rightarrow> 64 word \<Rightarrow> int"
    and circ :: "'s \<Rightarrow> 64 word \<Rightarrow> int"
    and Inv :: "'s \<Rightarrow> bool"
  assumes sub_inv: "Inv s \<Longrightarrow> 0 < amount q \<Longrightarrow> is_amount_within_range q \<Longrightarrow> sub a q s = Inr s' \<Longrightarrow> Inv s'"
    and sub_bal: "Inv s \<Longrightarrow> 0 < amount q \<Longrightarrow> is_amount_within_range q \<Longrightarrow> sub a q s = Inr s' \<Longrightarrow>
          bal s' b n = bal s b n - (if b = a \<and> n = symbol_code (symbol q) then amount q else 0)"
    and sub_circ: "Inv s \<Longrightarrow> 0 < amount q \<Longrightarrow> is_amount_within_range q \<Longrightarrow> sub a q s = Inr s' \<Longrightarrow>
          circ s' n = circ s n - (if n = symbol_code (symbol q) then amount q else 0)"
    and sub_covered: "Inv s \<Longrightarrow> 0 < amount q \<Longrightarrow> is_amount_within_range q \<Longrightarrow> sub a q s = Inr s' \<Longrightarrow>
          amount q \<le> bal s a (symbol_code (symbol q))"
    and add_inv: "Inv s \<Longrightarrow> 0 \<le> amount q \<Longrightarrow> is_amount_within_range q \<Longrightarrow> add a q s = Inr s' \<Longrightarrow> Inv s'"
    and add_bal: "Inv s \<Longrightarrow> 0 \<le> amount q \<Longrightarrow> is_amount_within_range q \<Longrightarrow> add a q s = Inr s' \<Longrightarrow>
          bal s' b n = bal s b n + (if b = a \<and> n = symbol_code (symbol q) then amount q else 0)"
    and add_circ: "Inv s \<Longrightarrow> 0 \<le> amount q \<Longrightarrow> is_amount_within_range q \<Longrightarrow> add a q s = Inr s' \<Longrightarrow>
          circ s' n = circ s n + (if n = symbol_code (symbol q) then amount q else 0)"
    and bal_nonneg: "Inv s \<Longrightarrow> 0 \<le> bal s a n"
begin

text \<open>Moving an amount from one owner to another.\<close>

definition move :: "account_name \<Rightarrow> account_name \<Rightarrow> asset \<Rightarrow> 's \<Rightarrow> contract_error + 's" where
  "move a b q s = bnd (sub a q s) (\<lambda>s1. add b q s1)"

lemma move_inv:
  "Inv s \<Longrightarrow> 0 < amount q \<Longrightarrow> is_amount_within_range q \<Longrightarrow> move a b q s = Inr s' \<Longrightarrow> Inv s'"
  by (auto simp: move_def res_simps intro: sub_inv add_inv [where q = q])

lemma move_circ:
  assumes "Inv s" "0 < amount q" "is_amount_within_range q" "move a b q s = Inr s'"
  shows "circ s' n = circ s n"
proof -
  obtain s1 where s1: "sub a q s = Inr s1" "add b q s1 = Inr s'"
    using assms(4) by (auto simp: move_def res_simps)
  show ?thesis
    using sub_circ [OF assms(1-3) s1(1)]
      add_circ [OF sub_inv [OF assms(1-3) s1(1)] less_imp_le [OF assms(2)] assms(3) s1(2)] by simp
qed

lemma move_bal:
  assumes "Inv s" "0 < amount q" "is_amount_within_range q" "move a b q s = Inr s'" "a \<noteq> b"
  shows "bal s' a (symbol_code (symbol q)) = bal s a (symbol_code (symbol q)) - amount q"
    and "bal s' b (symbol_code (symbol q)) = bal s b (symbol_code (symbol q)) + amount q"
    and "(c \<noteq> a \<and> c \<noteq> b) \<or> n \<noteq> symbol_code (symbol q) \<Longrightarrow> bal s' c n = bal s c n"
    and "amount q \<le> bal s a (symbol_code (symbol q))"
proof -
  obtain s1 where s1: "sub a q s = Inr s1" "add b q s1 = Inr s'"
    using assms(4) by (auto simp: move_def res_simps)
  have i1: "Inv s1" using sub_inv [OF assms(1-3) s1(1)] .
  note m = sub_bal [OF assms(1-3) s1(1)] add_bal [OF i1 less_imp_le [OF assms(2)] assms(3) s1(2)]
  show "bal s' a (symbol_code (symbol q)) = bal s a (symbol_code (symbol q)) - amount q"
    and "bal s' b (symbol_code (symbol q)) = bal s b (symbol_code (symbol q)) + amount q"
    and "(c \<noteq> a \<and> c \<noteq> b) \<or> n \<noteq> symbol_code (symbol q) \<Longrightarrow> bal s' c n = bal s c n"
    using assms(5) by (auto simp: m)
  show "amount q \<le> bal s a (symbol_code (symbol q))"
    using sub_covered [OF assms(1-3) s1(1)] .
qed

end

text \<open>The state an action leaves, without the effects it asks for.\<close>

definition drop_effects :: "'s result \<Rightarrow> contract_error + 's" where
  "drop_effects r = bnd r (\<lambda>(s, effs). Inr s)"

lemma drop_effects_Inr [res_simps]: "drop_effects r = Inr s \<longleftrightarrow> (\<exists>effs. r = Inr (s, effs))"
  by (cases r) (auto simp: drop_effects_def)

end
