(* ===== verification/Authority.thy ===== *)
theory Authority
  imports Contract Block_Header_State
begin

text \<open>
  Authorities and the authority checker (\<open>authority.hpp\<close>, \<open>authority_checker.hpp\<close>): a permission is satisfied by
  keys, by other permissions and by delays whose weights reach a threshold. The checker is compared with an inductive
  definition of what it means for a permission to be satisfied.

  The function from permissions to authorities is a parameter, as in the code; \<open>None\<close> is the exception of a
  permission that does not exist. The order of keys is the order of the numbers that stand for them.
\<close>

subsection \<open>Authorities\<close>

record permission_level_weight =
  plw_permission :: permission_level
  plw_weight :: int

record key_weight =
  kw_key :: public_key
  kw_weight :: int

record wait_weight =
  ww_wait_sec :: int
  ww_weight :: int

record authority =
  threshold :: int
  auth_keys :: "key_weight list"
  auth_accounts :: "permission_level_weight list"
  auth_waits :: "wait_weight list"

definition authority_of_key :: "public_key \<Rightarrow> int \<Rightarrow> authority" where
  "authority_of_key k delay_sec =
     (if delay_sec > 0
      then \<lparr>threshold = 2, auth_keys = [\<lparr>kw_key = k, kw_weight = 1\<rparr>], auth_accounts = [],
             auth_waits = [\<lparr>ww_wait_sec = delay_sec, ww_weight = 1\<rparr>]\<rparr>
      else \<lparr>threshold = 1, auth_keys = [\<lparr>kw_key = k, kw_weight = 1\<rparr>], auth_accounts = [], auth_waits = []\<rparr>)"

text \<open>The billable size; the serialized size of a key is a parameter.\<close>

definition get_billable_size :: "(public_key \<Rightarrow> int) \<Rightarrow> authority \<Rightarrow> int" where
  "get_billable_size pack_size a =
     u64 (u64 (u64 (int (length (auth_accounts a)) * billable_size_v 24) + u64 (int (length (auth_waits a)) * billable_size_v 16))
       + fold (\<lambda>k keys_size. u64 (u64 (keys_size + billable_size_v 8) + pack_size (kw_key k))) (auth_keys a) 0)"

text \<open>The loops of \<open>validate\<close>: they fail at an element that does not come after the previous one, and add the weights.\<close>

fun validate_loop :: "('a \<Rightarrow> 'k :: linorder) \<Rightarrow> ('a \<Rightarrow> int) \<Rightarrow> 'k option \<Rightarrow> 'a list \<Rightarrow> int \<Rightarrow> int option" where
  "validate_loop key weight prev [] total_weight = Some total_weight"
| "validate_loop key weight prev (x # xs) total_weight =
     (if (case prev of None \<Rightarrow> False | Some p \<Rightarrow> \<not> p < key x) then None
      else validate_loop key weight (Some (key x)) xs (u32 (total_weight + weight x)))"

definition validate :: "authority \<Rightarrow> bool" where
  "validate auth \<longleftrightarrow>
     (if length (auth_keys auth) + length (auth_accounts auth) + length (auth_waits auth) > 2 ^ 16 then False
      else if threshold auth = 0 then False
      else (case validate_loop kw_key kw_weight None (auth_keys auth) 0 of None \<Rightarrow> False | Some w1 \<Rightarrow>
        (case validate_loop plw_permission plw_weight None (auth_accounts auth) w1 of None \<Rightarrow> False | Some w2 \<Rightarrow>
          if auth_waits auth \<noteq> [] \<and> ww_wait_sec (hd (auth_waits auth)) = 0 then False
          else (case validate_loop ww_wait_sec ww_weight None (auth_waits auth) w2 of None \<Rightarrow> False | Some w3 \<Rightarrow>
            w3 \<ge> threshold auth))))"

subsection \<open>The checker\<close>

datatype meta_permission = Account_permission permission_level_weight | Key_permission key_weight | Wait_permission wait_weight

fun meta_weight :: "meta_permission \<Rightarrow> int" where
  "meta_weight (Account_permission p) = plw_weight p"
| "meta_weight (Key_permission k) = kw_weight k"
| "meta_weight (Wait_permission w) = ww_weight w"

fun meta_which :: "meta_permission \<Rightarrow> int" where
  "meta_which (Account_permission p) = 0"
| "meta_which (Key_permission k) = 1"
| "meta_which (Wait_permission w) = 2"

text \<open>The multiset of all factors of an authority: greatest weight first, then waits before keys before accounts.\<close>

definition meta_permission_set :: "authority \<Rightarrow> meta_permission list" where
  "meta_permission_set a = sort_key (\<lambda>p. (- meta_weight p, - meta_which p))
     (map Wait_permission (auth_waits a) @ map Key_permission (auth_keys a) @ map Account_permission (auth_accounts a))"

datatype cache_status = Being_evaluated | Permission_unsatisfied | Permission_satisfied

record checker =
  permission_to_authority :: "permission_level \<Rightarrow> authority option"
  provided_keys :: "public_key list"
  provided_permissions :: "permission_level list"
  provided_delay :: int
  recursion_depth_limit :: nat

text \<open>What a check changes: the marks of the used keys and the cache of permissions.\<close>

record check_state =
  used_marks :: "bool list"
  cached_permissions :: "(permission_level, cache_status) tbl"

definition permission_status_in_cache :: "(permission_level, cache_status) tbl \<Rightarrow> permission_level \<Rightarrow> cache_status option" where
  "permission_status_in_cache permissions level =
     (case tbl_find permissions level of Some st \<Rightarrow> Some st | None \<Rightarrow> tbl_find permissions (fst level, 0))"

definition initialize_permission_cache :: "checker \<Rightarrow> (permission_level, cache_status) tbl" where
  "initialize_permission_cache c = fold (\<lambda>p. tbl_put p Permission_satisfied) (provided_permissions c) []"

fun index_of :: "'a \<Rightarrow> 'a list \<Rightarrow> nat" where
  "index_of x [] = 0"
| "index_of x (y # ys) = (if x = y then 0 else Suc (index_of x ys))"

text \<open>\<open>n\<close> is the depth that is left: the limit minus the recursion depth. \<open>tally\<close> is the loop over the factors with the
  weight so far, \<open>visit\<close> the visitor's operators, which return the new weight.\<close>

function satisfied_auth :: "checker \<Rightarrow> nat \<Rightarrow> authority \<Rightarrow> check_state \<Rightarrow> bool \<times> check_state"
  and tally :: "checker \<Rightarrow> nat \<Rightarrow> int \<Rightarrow> meta_permission list \<Rightarrow> int \<Rightarrow> check_state \<Rightarrow> bool \<times> check_state"
  and visit :: "checker \<Rightarrow> nat \<Rightarrow> meta_permission \<Rightarrow> int \<Rightarrow> check_state \<Rightarrow> int \<times> check_state" where
  "satisfied_auth c n a st =
     (let r = tally c n (threshold a) (meta_permission_set a) 0 st in
      if fst r then r else (False, (snd r)\<lparr>used_marks := used_marks st\<rparr>))"
| "tally c n thr [] w st = (False, st)"
| "tally c n thr (p # ps) w st =
     (let r = visit c n p w st in
      if fst r \<ge> thr then (True, snd r) else tally c n thr ps (fst r) (snd r))"
| "visit c n (Wait_permission ww) w st =
     (if provided_delay c \<ge> ww_wait_sec ww * 1000000 then (u32 (w + ww_weight ww), st) else (w, st))"
| "visit c n (Key_permission kw) w st =
     (if kw_key kw \<in> set (provided_keys c)
      then (u32 (w + kw_weight kw), st\<lparr>used_marks := (used_marks st)[index_of (kw_key kw) (provided_keys c) := True]\<rparr>)
      else (w, st))"
| "visit c n (Account_permission plw) w st =
     (case permission_status_in_cache (cached_permissions st) (plw_permission plw) of
        Some Permission_satisfied \<Rightarrow> (u32 (w + plw_weight plw), st)
      | Some s \<Rightarrow> (w, st)
      | None \<Rightarrow>
         (case n of 0 \<Rightarrow> (w, st)
          | Suc m \<Rightarrow>
             (case permission_to_authority c (plw_permission plw) of None \<Rightarrow> (w, st)
              | Some a \<Rightarrow>
                 (let r = satisfied_auth c m a (st\<lparr>cached_permissions :=
                        tbl_put (plw_permission plw) Being_evaluated (cached_permissions st)\<rparr>) in
                  if fst r
                  then (u32 (w + plw_weight plw), (snd r)\<lparr>cached_permissions :=
                         tbl_put (plw_permission plw) Permission_satisfied (cached_permissions (snd r))\<rparr>)
                  else (w, (snd r)\<lparr>cached_permissions :=
                         tbl_put (plw_permission plw) Permission_unsatisfied (cached_permissions (snd r))\<rparr>)))))"
  by pat_completeness auto
termination
  by (relation "measures [
      \<lambda>x. case x of Inl (c, n, a, st) \<Rightarrow> n | Inr (Inl (c, n, thr, ps, w, st)) \<Rightarrow> n | Inr (Inr (c, n, p, w, st)) \<Rightarrow> n,
      \<lambda>x. case x of Inl _ \<Rightarrow> 2 | Inr (Inl _) \<Rightarrow> 1 | Inr (Inr _) \<Rightarrow> 0,
      \<lambda>x. case x of Inl _ \<Rightarrow> 0 | Inr (Inl (c, n, thr, ps, w, st)) \<Rightarrow> length ps | Inr (Inr _) \<Rightarrow> 0]") auto

declare satisfied_auth.simps [simp del]

text \<open>A check of a permission from the outside: a fresh cache, the full depth, and the marks kept between calls.\<close>

definition satisfied_permission :: "checker \<Rightarrow> permission_level \<Rightarrow> bool list \<Rightarrow> bool \<times> bool list" where
  "satisfied_permission c p marks =
     (let r = visit c (recursion_depth_limit c) (Account_permission \<lparr>plw_permission = p, plw_weight = 1\<rparr>) 0
                \<lparr>used_marks = marks, cached_permissions = initialize_permission_cache c\<rparr>
      in (fst r > 0, used_marks (snd r)))"

definition satisfied_permission_delay :: "checker \<Rightarrow> permission_level \<Rightarrow> int \<Rightarrow> bool list \<Rightarrow> bool \<times> bool list" where
  "satisfied_permission_delay c p delay marks = satisfied_permission (c\<lparr>provided_delay := delay\<rparr>) p marks"

definition satisfied_authority :: "checker \<Rightarrow> authority \<Rightarrow> bool list \<Rightarrow> bool \<times> bool list" where
  "satisfied_authority c a marks =
     (let r = satisfied_auth c (recursion_depth_limit c) a
                \<lparr>used_marks = marks, cached_permissions = initialize_permission_cache c\<rparr>
      in (fst r, used_marks (snd r)))"

definition satisfied_authority_delay :: "checker \<Rightarrow> authority \<Rightarrow> int \<Rightarrow> bool list \<Rightarrow> bool \<times> bool list" where
  "satisfied_authority_delay c a delay marks = satisfied_authority (c\<lparr>provided_delay := delay\<rparr>) a marks"

definition make_auth_checker ::
  "(permission_level \<Rightarrow> authority option) \<Rightarrow> nat \<Rightarrow> public_key list \<Rightarrow> permission_level list \<Rightarrow> int \<Rightarrow> checker \<times> bool list" where
  "make_auth_checker pta limit keys perms delay =
     (\<lparr>permission_to_authority = pta, provided_keys = keys, provided_permissions = perms, provided_delay = delay,
        recursion_depth_limit = limit\<rparr>, replicate (length keys) False)"

definition all_keys_used :: "bool list \<Rightarrow> bool" where
  "all_keys_used marks \<longleftrightarrow> list_all (\<lambda>b. b) marks"

definition used_keys :: "checker \<Rightarrow> bool list \<Rightarrow> public_key list" where
  "used_keys c marks = map fst (filter snd (zip (provided_keys c) marks))"

definition unused_keys :: "checker \<Rightarrow> bool list \<Rightarrow> public_key list" where
  "unused_keys c marks = map fst (filter (\<lambda>x. \<not> snd x) (zip (provided_keys c) marks))"

subsection \<open>When a permission is satisfied\<close>

definition factor_ok :: "checker \<Rightarrow> permission_level set \<Rightarrow> meta_permission \<Rightarrow> bool" where
  "factor_ok c S f \<longleftrightarrow>
     (case f of Wait_permission w \<Rightarrow> ww_wait_sec w * 1000000 \<le> provided_delay c
      | Key_permission k \<Rightarrow> kw_key k \<in> set (provided_keys c)
      | Account_permission p \<Rightarrow> plw_permission p \<in> S)"

definition weight_with :: "checker \<Rightarrow> permission_level set \<Rightarrow> meta_permission list \<Rightarrow> int" where
  "weight_with c S fs = sum_list (map meta_weight (filter (factor_ok c S) fs))"

definition provided :: "checker \<Rightarrow> permission_level \<Rightarrow> bool" where
  "provided c p \<longleftrightarrow> p \<in> set (provided_permissions c) \<or> (fst p, 0) \<in> set (provided_permissions c)"

inductive perm_sat :: "checker \<Rightarrow> permission_level \<Rightarrow> bool" for c where
  given: "provided c p \<Longrightarrow> perm_sat c p"
| reached: "permission_to_authority c p = Some a \<Longrightarrow> (\<And>q. q \<in> S \<Longrightarrow> perm_sat c q) \<Longrightarrow>
    threshold a \<le> weight_with c S (meta_permission_set a) \<Longrightarrow> perm_sat c p"

definition auth_sat :: "checker \<Rightarrow> authority \<Rightarrow> bool" where
  "auth_sat c a \<longleftrightarrow> threshold a \<le> weight_with c {p. perm_sat c p} (meta_permission_set a)"

text \<open>The conditions on the parameter: weights are not negative, and the empty permission name has no authority.\<close>

definition pta_ok :: "checker \<Rightarrow> bool" where
  "pta_ok c \<longleftrightarrow> (\<forall>p a. permission_to_authority c p = Some a \<longrightarrow> snd p \<noteq> 0 \<and> (\<forall>f \<in> set (meta_permission_set a). 0 \<le> meta_weight f))"

lemma pta_okD:
  "pta_ok c \<Longrightarrow> permission_to_authority c p = Some a \<Longrightarrow> snd p \<noteq> 0 \<and> (\<forall>f \<in> set (meta_permission_set a). 0 \<le> meta_weight f)"
  unfolding pta_ok_def by blast

lemma weight_with_mono:
  assumes "S \<subseteq> T" "\<forall>f \<in> set fs. 0 \<le> meta_weight f"
  shows "weight_with c S fs \<le> weight_with c T fs"
  using assms(2)
proof (induction fs)
  case (Cons f fs)
  have "factor_ok c S f \<Longrightarrow> factor_ok c T f" using assms(1) by (auto simp: factor_ok_def split: meta_permission.splits)
  then show ?case using Cons by (auto simp: weight_with_def)
qed (simp add: weight_with_def)

lemma weight_with_Cons:
  "weight_with c S (f # fs) = (if factor_ok c S f then meta_weight f else 0) + weight_with c S fs"
  by (simp add: weight_with_def)

lemma weight_with_nonneg: "\<forall>f \<in> set fs. 0 \<le> meta_weight f \<Longrightarrow> 0 \<le> weight_with c S fs"
  by (induction fs) (auto simp: weight_with_def)

lemma perm_sat_iff:
  assumes "pta_ok c"
  shows "perm_sat c p \<longleftrightarrow> provided c p \<or> (\<exists>a. permission_to_authority c p = Some a \<and> auth_sat c a)"
proof
  show "perm_sat c p \<Longrightarrow> provided c p \<or> (\<exists>a. permission_to_authority c p = Some a \<and> auth_sat c a)"
  proof (induction rule: perm_sat.cases)
    case (reached p a S)
    have "weight_with c S (meta_permission_set a) \<le> weight_with c {q. perm_sat c q} (meta_permission_set a)"
      using pta_okD[OF assms reached(2)] reached(3) by (intro weight_with_mono) auto
    then show ?case using reached by (auto simp: auth_sat_def)
  qed simp
  show "provided c p \<or> (\<exists>a. permission_to_authority c p = Some a \<and> auth_sat c a) \<Longrightarrow> perm_sat c p"
    unfolding auth_sat_def using perm_sat.given perm_sat.reached by blast
qed

subsection \<open>Soundness of the checker\<close>

text \<open>The cache: provided permissions are in it as satisfied, an entry for the empty permission name is one of them, and
  whatever is recorded as satisfied is.\<close>

definition cache_sound :: "checker \<Rightarrow> check_state \<Rightarrow> bool" where
  "cache_sound c st \<longleftrightarrow> tbl_ok (cached_permissions st)
     \<and> (\<forall>p. tbl_find (cached_permissions st) p = Some Permission_satisfied \<longrightarrow> perm_sat c p)
     \<and> (\<forall>a s. tbl_find (cached_permissions st) (a, 0) = Some s \<longrightarrow> (a, 0) \<in> set (provided_permissions c) \<and> s = Permission_satisfied)
     \<and> (\<forall>p \<in> set (provided_permissions c). tbl_find (cached_permissions st) p = Some Permission_satisfied)"

lemma cache_soundD:
  assumes "cache_sound c st"
  shows "tbl_find (cached_permissions st) p = Some Permission_satisfied \<Longrightarrow> perm_sat c p"
    and "tbl_find (cached_permissions st) (a, 0) = Some s \<Longrightarrow> (a, 0) \<in> set (provided_permissions c) \<and> s = Permission_satisfied"
    and "p \<in> set (provided_permissions c) \<Longrightarrow> tbl_find (cached_permissions st) p = Some Permission_satisfied"
  using assms unfolding cache_sound_def by blast+

lemma cache_sound_status:
  assumes "cache_sound c st" "permission_status_in_cache (cached_permissions st) p = Some Permission_satisfied"
  shows "perm_sat c p"
  using assms(2) cache_soundD[OF assms(1)] perm_sat.given[of c p]
  by (auto simp: permission_status_in_cache_def provided_def split: option.splits)

lemma cache_sound_put:
  assumes "cache_sound c st" "snd p \<noteq> 0" "p \<notin> set (provided_permissions c) \<or> s = Permission_satisfied"
    and "s = Permission_satisfied \<Longrightarrow> perm_sat c p"
  shows "cache_sound c (st\<lparr>cached_permissions := tbl_put p s (cached_permissions st)\<rparr>)"
  using assms by (auto simp: cache_sound_def tbl_ok_put tbl_find_put)

lemma cache_sound_marks [simp]: "cache_sound c (st\<lparr>used_marks := m\<rparr>) = cache_sound c st"
  by (simp add: cache_sound_def)

lemma status_None_not_provided:
  "cache_sound c st \<Longrightarrow> permission_status_in_cache (cached_permissions st) p = None \<Longrightarrow> \<not> provided c p"
  using cache_soundD(3)[of c st p] cache_soundD(3)[of c st "(fst p, 0)"]
  by (auto simp: permission_status_in_cache_def provided_def split: option.splits)

lemma u32_le: "0 \<le> x \<Longrightarrow> u32 x \<le> x"
  by (simp add: u32_def zmod_le_nonneg_dividend)

abbreviation sats :: "checker \<Rightarrow> permission_level set" where "sats c \<equiv> {p. perm_sat c p}"

lemma checker_sound:
  "pta_ok c \<Longrightarrow> cache_sound c st \<Longrightarrow> (\<forall>f \<in> set (meta_permission_set a). 0 \<le> meta_weight f) \<Longrightarrow>
    cache_sound c (snd (satisfied_auth c n a st)) \<and> (fst (satisfied_auth c n a st) \<longrightarrow> auth_sat c a)"
  "pta_ok c \<Longrightarrow> cache_sound c st \<Longrightarrow> (\<forall>f \<in> set ps. 0 \<le> meta_weight f) \<Longrightarrow> 0 \<le> w \<Longrightarrow>
    cache_sound c (snd (tally c n thr ps w st)) \<and> (fst (tally c n thr ps w st) \<longrightarrow> thr \<le> w + weight_with c (sats c) ps)"
  "pta_ok c \<Longrightarrow> cache_sound c st \<Longrightarrow> 0 \<le> meta_weight f \<Longrightarrow> 0 \<le> w \<Longrightarrow>
    cache_sound c (snd (visit c n f w st)) \<and> 0 \<le> fst (visit c n f w st)
      \<and> fst (visit c n f w st) \<le> w + (if factor_ok c (sats c) f then meta_weight f else 0)"
proof (induction c n a st and c n thr ps w st and c n f w st rule: satisfied_auth_tally_visit.induct)
  case (1 c n a st)
  then show ?case by (simp add: satisfied_auth.simps Let_def auth_sat_def)
next
  case (2 c n thr w st)
  then show ?case by simp
next
  case (3 c n thr p ps w st)
  let ?r = "visit c n p w st"
  have v: "cache_sound c (snd ?r)" "0 \<le> fst ?r" "fst ?r \<le> w + (if factor_ok c (sats c) p then meta_weight p else 0)"
    using 3 by auto
  have "0 \<le> weight_with c (sats c) ps" using 3(5) by (intro weight_with_nonneg) simp
  then show ?case using 3(2)[OF refl] v 3(3,5) by (auto simp: Let_def weight_with_Cons)
next
  case (4 c n ww w st)
  then show ?case using u32_le[of "w + ww_weight ww"] by (auto simp: factor_ok_def)
next
  case (5 c n kw w st)
  then show ?case using u32_le[of "w + kw_weight kw"] by (auto simp: factor_ok_def)
next
  case (6 c n plw w st)
  let ?p = "plw_permission plw"
  have u: "u32 (w + plw_weight plw) \<le> w + plw_weight plw" "0 \<le> u32 (w + plw_weight plw)" using 6 by (auto intro: u32_le)
  show ?case
  proof (cases "permission_status_in_cache (cached_permissions st) ?p")
    case (Some s)
    then show ?thesis using 6 u cache_sound_status[OF 6(3)] by (cases s) (auto simp: factor_ok_def)
  next
    case None
    show ?thesis
    proof (cases "n = 0 \<or> permission_to_authority c ?p = None")
      case True
      then show ?thesis using 6 None by (auto split: nat.splits)
    next
      case False
      then obtain m a where m: "n = Suc m" "permission_to_authority c ?p = Some a" by (cases n) auto
      let ?st = "st\<lparr>cached_permissions := tbl_put ?p Being_evaluated (cached_permissions st)\<rparr>"
      let ?r = "satisfied_auth c m a ?st"
      have a: "snd ?p \<noteq> 0" "\<forall>f \<in> set (meta_permission_set a). 0 \<le> meta_weight f" using pta_okD[OF 6(2) m(2)] by auto
      have np: "?p \<notin> set (provided_permissions c)" using status_None_not_provided[OF 6(3) None] by (auto simp: provided_def)
      have "cache_sound c ?st" using np by (intro cache_sound_put[OF 6(3) a(1)]) auto
      then have ih: "cache_sound c (snd ?r)" "fst ?r \<longrightarrow> auth_sat c a" using 6(1)[OF None m 6(2)] a(2) by auto
      have "fst ?r \<Longrightarrow> perm_sat c ?p" using ih(2) m(2) perm_sat_iff[OF 6(2)] by blast
      moreover have "cache_sound c ((snd ?r)\<lparr>cached_permissions := tbl_put ?p Permission_unsatisfied (cached_permissions (snd ?r))\<rparr>)"
        using np by (intro cache_sound_put[OF ih(1) a(1)]) auto
      moreover have "fst ?r \<Longrightarrow> cache_sound c ((snd ?r)\<lparr>cached_permissions := tbl_put ?p Permission_satisfied (cached_permissions (snd ?r))\<rparr>)"
        using \<open>fst ?r \<Longrightarrow> perm_sat c ?p\<close> by (intro cache_sound_put[OF ih(1) a(1)]) auto
      ultimately show ?thesis using m None u 6(4,5) by (auto simp: Let_def factor_ok_def)
    qed
  qed
qed

subsection \<open>Completeness on hierarchies without cycles\<close>

text \<open>A rank that goes down from a permission to the permissions its authority names, and weights that do not
  overflow 32 bits: what validated authorities without cyclic references satisfy.\<close>

definition ranked :: "checker \<Rightarrow> (permission_level \<Rightarrow> nat) \<Rightarrow> bool" where
  "ranked c rank \<longleftrightarrow> (\<forall>p a. permission_to_authority c p = Some a \<longrightarrow>
     0 < threshold a \<and> sum_list (map meta_weight (meta_permission_set a)) \<le> UINT32_MAX
     \<and> (\<forall>q \<in> set (auth_accounts a). rank (plw_permission q) < rank p))"

lemma rankedD:
  assumes "ranked c rank" "permission_to_authority c p = Some a"
  shows "0 < threshold a" "sum_list (map meta_weight (meta_permission_set a)) \<le> UINT32_MAX"
    "\<And>q. Account_permission q \<in> set (meta_permission_set a) \<Longrightarrow> rank (plw_permission q) < rank p"
  proof -
  have r: "0 < threshold a \<and> sum_list (map meta_weight (meta_permission_set a)) \<le> UINT32_MAX
     \<and> (\<forall>q \<in> set (auth_accounts a). rank (plw_permission q) < rank p)"
    using assms unfolding ranked_def by blast
  then show "0 < threshold a" "sum_list (map meta_weight (meta_permission_set a)) \<le> UINT32_MAX" by auto
  show "\<And>q. Account_permission q \<in> set (meta_permission_set a) \<Longrightarrow> rank (plw_permission q) < rank p"
    using r by (auto simp: meta_permission_set_def)
qed

definition being :: "check_state \<Rightarrow> permission_level set" where
  "being st = {p. tbl_find (cached_permissions st) p = Some Being_evaluated}"

definition cache_exact :: "checker \<Rightarrow> check_state \<Rightarrow> bool" where
  "cache_exact c st \<longleftrightarrow> cache_sound c st
     \<and> (\<forall>p. tbl_find (cached_permissions st) p = Some Permission_unsatisfied \<longrightarrow> \<not> perm_sat c p)"

lemma being_marks [simp]: "being (st\<lparr>used_marks := m\<rparr>) = being st" "cache_exact c (st\<lparr>used_marks := m\<rparr>) = cache_exact c st"
  by (simp_all add: being_def cache_exact_def)

lemma being_put:
  "tbl_ok (cached_permissions st) \<Longrightarrow> being (st\<lparr>cached_permissions := tbl_put p s (cached_permissions st)\<rparr>)
     = (if s = Being_evaluated then insert p (being st) else being st - {p})"
  by (auto simp: being_def tbl_find_put)

text \<open>What a status of the cache says about a permission that is not under evaluation.\<close>

lemma cache_exact_status:
  assumes "cache_exact c st" "p \<notin> being st" "permission_status_in_cache (cached_permissions st) p = Some s"
  shows "s = Permission_satisfied \<longleftrightarrow> perm_sat c p"
proof -
  have cs: "cache_sound c st" using assms(1) by (simp add: cache_exact_def)
  show ?thesis
  proof (cases "tbl_find (cached_permissions st) p")
    case None
    then have "tbl_find (cached_permissions st) (fst p, 0) = Some s" using assms(3) by (simp add: permission_status_in_cache_def)
    then show ?thesis using cache_soundD(2)[OF cs] perm_sat.given[of c p] by (auto simp: provided_def)
  next
    case (Some t)
    then have t: "t = s" "tbl_find (cached_permissions st) p = Some s" using assms(3) by (auto simp: permission_status_in_cache_def)
    moreover have "s \<noteq> Being_evaluated" using assms(2) t by (auto simp: being_def)
    moreover have "\<not> perm_sat c p" if "s = Permission_unsatisfied"
      using assms(1) t that unfolding cache_exact_def by blast
    ultimately show ?thesis using cache_soundD(1)[OF cs, of p] by (cases s) auto
  qed
qed

abbreviation below :: "(permission_level \<Rightarrow> nat) \<Rightarrow> nat \<Rightarrow> check_state \<Rightarrow> meta_permission \<Rightarrow> bool" where
  "below rank n st f \<equiv> (\<forall>q. f = Account_permission q \<longrightarrow>
     rank (plw_permission q) < n \<and> (\<forall>b \<in> being st. rank (plw_permission q) < rank b))"

lemma sum_weights_nonneg: "\<forall>f \<in> set fs. 0 \<le> meta_weight f \<Longrightarrow> 0 \<le> sum_list (map meta_weight fs)"
  by (induction fs) auto

lemma checker_exact:
  "pta_ok c \<Longrightarrow> ranked c rank \<Longrightarrow> cache_exact c st \<Longrightarrow> (\<forall>f \<in> set (meta_permission_set a). 0 \<le> meta_weight f \<and> below rank n st f) \<Longrightarrow>
    sum_list (map meta_weight (meta_permission_set a)) \<le> UINT32_MAX \<Longrightarrow> 0 < threshold a \<Longrightarrow>
    cache_exact c (snd (satisfied_auth c n a st)) \<and> being (snd (satisfied_auth c n a st)) = being st
      \<and> (fst (satisfied_auth c n a st) \<longleftrightarrow> auth_sat c a)"
  "pta_ok c \<Longrightarrow> ranked c rank \<Longrightarrow> cache_exact c st \<Longrightarrow> (\<forall>f \<in> set ps. 0 \<le> meta_weight f \<and> below rank n st f) \<Longrightarrow>
    0 \<le> w \<Longrightarrow> w + sum_list (map meta_weight ps) \<le> UINT32_MAX \<Longrightarrow> w < thr \<Longrightarrow>
    cache_exact c (snd (tally c n thr ps w st)) \<and> being (snd (tally c n thr ps w st)) = being st
      \<and> (fst (tally c n thr ps w st) \<longleftrightarrow> thr \<le> w + weight_with c (sats c) ps)"
  "pta_ok c \<Longrightarrow> ranked c rank \<Longrightarrow> cache_exact c st \<Longrightarrow> 0 \<le> meta_weight f \<Longrightarrow> below rank n st f \<Longrightarrow> 0 \<le> w \<Longrightarrow>
    w + meta_weight f \<le> UINT32_MAX \<Longrightarrow>
    cache_exact c (snd (visit c n f w st)) \<and> being (snd (visit c n f w st)) = being st
      \<and> fst (visit c n f w st) = w + (if factor_ok c (sats c) f then meta_weight f else 0)"
proof (induction c n a st and c n thr ps w st and c n f w st rule: satisfied_auth_tally_visit.induct)
  case (1 c n a st)
  then show ?case by (simp add: satisfied_auth.simps Let_def auth_sat_def)
next
  case (2 c n thr w st)
  then show ?case by (simp add: weight_with_def)
next
  case (3 c n thr p ps w st)
  let ?r = "visit c n p w st" and ?x = "if factor_ok c (sats c) p then meta_weight p else 0"
  have nn: "\<forall>f \<in> set ps. 0 \<le> meta_weight f" "0 \<le> meta_weight p" using 3(6) by auto
  have sum: "0 \<le> sum_list (map meta_weight ps)" "0 \<le> weight_with c (sats c) ps"
    using sum_weights_nonneg[OF nn(1)] weight_with_nonneg[OF nn(1)] by auto
  have "w + meta_weight p \<le> UINT32_MAX" using 3(8) sum(1) by simp
  then have v: "cache_exact c (snd ?r)" "being (snd ?r) = being st" "fst ?r = w + ?x"
    using 3(1)[OF 3(3-5)] 3(6,7) nn(2) by auto
  have x: "0 \<le> ?x" "?x \<le> meta_weight p" using nn(2) by auto
  show ?case
  proof (cases "fst ?r \<ge> thr")
    case True
    then show ?thesis using v sum(2) by (simp add: Let_def weight_with_Cons)
  next
    case False
    have "cache_exact c (snd (tally c n thr ps (fst ?r) (snd ?r)))
        \<and> being (snd (tally c n thr ps (fst ?r) (snd ?r))) = being (snd ?r)
        \<and> (fst (tally c n thr ps (fst ?r) (snd ?r)) \<longleftrightarrow> thr \<le> fst ?r + weight_with c (sats c) ps)"
    proof (rule 3(2)[OF refl False 3(3,4) v(1)])
      show "\<forall>f \<in> set ps. 0 \<le> meta_weight f \<and> below rank n (snd ?r) f" using 3(6) v(2) by simp
    qed (use v x 3(7,8) False in auto)
    then show ?thesis using False v by (simp add: Let_def weight_with_Cons add.assoc)
  qed
next
  case (4 c n ww w st)
  then show ?case using u32_id[of "w + ww_weight ww"] by (auto simp: factor_ok_def)
next
  case (5 c n kw w st)
  then show ?case using u32_id[of "w + kw_weight kw"] by (auto simp: factor_ok_def)
next
  case (6 c n plw w st)
  let ?p = "plw_permission plw"
  have u: "u32 (w + plw_weight plw) = w + plw_weight plw" using 6 by (intro u32_id) auto
  have np: "?p \<notin> being st" "rank ?p < n" using 6(6) by auto
  have cs: "cache_sound c st" using 6(4) by (simp add: cache_exact_def)
  show ?case
  proof (cases "permission_status_in_cache (cached_permissions st) ?p")
    case (Some s)
    from cache_exact_status[OF 6(4) np(1) Some] show ?thesis using Some 6(4) u by (cases s) (auto simp: factor_ok_def)
  next
    case None
    have nprov: "\<not> provided c ?p" by (rule status_None_not_provided[OF cs None])
    show ?thesis
    proof (cases "permission_to_authority c ?p")
      case pN: None
      then have "\<not> perm_sat c ?p" using perm_sat_iff[OF 6(2)] nprov by auto
      then show ?thesis using pN None 6(4) by (auto simp: factor_ok_def split: nat.splits)
    next
      case (Some a)
      obtain m where m: "n = Suc m" using np(2) by (cases n) auto
      let ?st = "st\<lparr>cached_permissions := tbl_put ?p Being_evaluated (cached_permissions st)\<rparr>"
      let ?r = "satisfied_auth c m a ?st"
      have a: "snd ?p \<noteq> 0" "\<forall>f \<in> set (meta_permission_set a). 0 \<le> meta_weight f" using pta_okD[OF 6(2) Some] by auto
      have tok: "tbl_ok (cached_permissions st)" using cs by (simp add: cache_sound_def)
      have put: "cache_exact c (t\<lparr>cached_permissions := tbl_put ?p s (cached_permissions t)\<rparr>)"
        if "cache_exact c t" "s = Permission_satisfied \<Longrightarrow> perm_sat c ?p" "s = Permission_unsatisfied \<Longrightarrow> \<not> perm_sat c ?p" for t s
      proof -
        have t: "cache_sound c t" using that(1) by (simp add: cache_exact_def)
        then have tt: "tbl_ok (cached_permissions t)" by (simp add: cache_sound_def)
        have "cache_sound c (t\<lparr>cached_permissions := tbl_put ?p s (cached_permissions t)\<rparr>)"
          using nprov that(2) by (intro cache_sound_put[OF t a(1)]) (auto simp: provided_def)
        then show ?thesis using that(1,3) tt by (auto simp: cache_exact_def tbl_find_put)
      qed
      have b1: "being ?st = insert ?p (being st)" using being_put[OF tok] by simp
      have rk: "rank ?p \<le> m" using np(2) m by simp
      have bel: "\<forall>f \<in> set (meta_permission_set a). 0 \<le> meta_weight f \<and> below rank m ?st f"
        using a(2) rankedD(3)[OF 6(3) Some] rk 6(6) unfolding b1 by (fastforce dest: order.strict_trans2 order.strict_trans)
      have ih: "cache_exact c (snd ?r)" "being (snd ?r) = being ?st" "fst ?r \<longleftrightarrow> auth_sat c a"
        using 6(1)[OF None m Some 6(2,3) put[OF 6(4)] bel] rankedD(1,2)[OF 6(3) Some] by auto
      have ps: "fst ?r \<longleftrightarrow> perm_sat c ?p" using ih(3) nprov Some perm_sat_iff[OF 6(2)] by auto
      have tr: "tbl_ok (cached_permissions (snd ?r))" using ih(1) by (simp add: cache_exact_def cache_sound_def)
      have "being ((snd ?r)\<lparr>cached_permissions := tbl_put ?p s (cached_permissions (snd ?r))\<rparr>) = being st"
        if "s \<noteq> Being_evaluated" for s using that np(1) by (simp add: being_put[OF tr] ih(2) b1)
      then show ?thesis using None m Some ps u put[OF ih(1)] by (auto simp: Let_def factor_ok_def)
    qed
  qed
qed

subsection \<open>Checks from the outside\<close>

lemma initialize_cache_find:
  "tbl_ok (initialize_permission_cache c)"
  "tbl_find (initialize_permission_cache c) p = (if p \<in> set (provided_permissions c) then Some Permission_satisfied else None)"
proof -
  have "tbl_ok t \<Longrightarrow> tbl_ok (fold (\<lambda>p. tbl_put p Permission_satisfied) ps t) \<and>
      tbl_find (fold (\<lambda>p. tbl_put p Permission_satisfied) ps t) p
        = (if p \<in> set ps then Some Permission_satisfied else tbl_find t p)" for ps t
    by (induction ps arbitrary: t) (auto simp: tbl_ok_put tbl_find_put)
  from this[of "[]"] show "tbl_ok (initialize_permission_cache c)"
    "tbl_find (initialize_permission_cache c) p = (if p \<in> set (provided_permissions c) then Some Permission_satisfied else None)"
    by (simp_all add: initialize_permission_cache_def tbl_simps)
qed

lemma initial_cache_exact:
  "cache_exact c \<lparr>used_marks = m, cached_permissions = initialize_permission_cache c\<rparr>"
  "being \<lparr>used_marks = m, cached_permissions = initialize_permission_cache c\<rparr> = {}"
  by (auto simp: cache_exact_def cache_sound_def being_def initialize_cache_find provided_def intro: perm_sat.given split: if_splits)

lemma satisfied_permission_sound_aux:
  assumes "pta_ok c" "fst (satisfied_permission c p marks)"
  shows "perm_sat c p"
  using checker_sound(3)[OF assms(1), of _ "Account_permission \<lparr>plw_permission = p, plw_weight = 1\<rparr>" 0 "recursion_depth_limit c"]
    initial_cache_exact(1)[of c marks] assms(2)
  by (fastforce simp: satisfied_permission_def Let_def factor_ok_def cache_exact_def split: if_splits)

lemma satisfied_permission_exact_aux:
  assumes "pta_ok c" "ranked c rank" "rank p < recursion_depth_limit c"
  shows "fst (satisfied_permission c p marks) \<longleftrightarrow> perm_sat c p"
  using checker_exact(3)[OF assms(1,2) initial_cache_exact(1), of "Account_permission \<lparr>plw_permission = p, plw_weight = 1\<rparr>"
      "recursion_depth_limit c" marks 0] assms(3) initial_cache_exact(2)[of marks c]
  by (auto simp: satisfied_permission_def Let_def factor_ok_def UINT32_MAX_def)

subsection \<open>Validation\<close>

definition weights_ok :: "authority \<Rightarrow> bool" where
  "weights_ok a \<longleftrightarrow> (\<forall>k \<in> set (auth_keys a). 0 \<le> kw_weight k \<and> kw_weight k \<le> 65535)
     \<and> (\<forall>p \<in> set (auth_accounts a). 0 \<le> plw_weight p \<and> plw_weight p \<le> 65535)
     \<and> (\<forall>w \<in> set (auth_waits a). 0 \<le> ww_weight w \<and> ww_weight w \<le> 65535 \<and> 0 \<le> ww_wait_sec w)"

definition auth_weight :: "authority \<Rightarrow> int" where
  "auth_weight a = sum_list (map kw_weight (auth_keys a)) + sum_list (map plw_weight (auth_accounts a))
     + sum_list (map ww_weight (auth_waits a))"

lemma sum_list_bound: "\<forall>x \<in> set xs. 0 \<le> f x \<and> f x \<le> (m :: int) \<Longrightarrow> 0 \<le> sum_list (map f xs) \<and> sum_list (map f xs) \<le> m * int (length xs)"
  by (induction xs) (auto simp: algebra_simps)

lemma validate_loop_eq:
  assumes "\<forall>x \<in> set xs. 0 \<le> weight x" "0 \<le> t" "t + sum_list (map weight xs) \<le> UINT32_MAX"
  shows "validate_loop key weight prev xs t =
    (if sorted_wrt (<) (case prev of None \<Rightarrow> map key xs | Some p \<Rightarrow> p # map key xs) then Some (t + sum_list (map weight xs)) else None)"
  using assms
proof (induction xs arbitrary: prev t)
  case (Cons x xs)
  have s: "0 \<le> sum_list (map weight xs)" using Cons.prems(1) by (intro sum_list_nonneg) auto
  then have u: "u32 (t + weight x) = t + weight x" using Cons.prems by (intro u32_id) auto
  have ih: "validate_loop key weight (Some (key x)) xs (t + weight x) =
      (if sorted_wrt (<) (key x # map key xs) then Some (t + weight x + sum_list (map weight xs)) else None)"
    using Cons.IH[of "t + weight x" "Some (key x)"] Cons.prems s by simp
  show ?case
  proof (cases prev)
    case None
    then show ?thesis using ih u by (simp add: add.assoc)
  next
    case (Some p)
    have "sorted_wrt (<) (p # map key (x # xs)) \<longleftrightarrow> p < key x \<and> sorted_wrt (<) (key x # map key xs)" by (auto intro: order.strict_trans)
    then show ?thesis using Some ih u by (simp add: add.assoc)
  qed
qed (simp split: option.splits)

lemma validate_iff:
  assumes w: "weights_ok a" "0 \<le> threshold a"
  shows "validate a \<longleftrightarrow> length (auth_keys a) + length (auth_accounts a) + length (auth_waits a) \<le> 65536
    \<and> 0 < threshold a \<and> threshold a \<le> auth_weight a
    \<and> sorted_wrt (<) (map kw_key (auth_keys a)) \<and> sorted_wrt (<) (map plw_permission (auth_accounts a))
    \<and> sorted_wrt (<) (0 # map ww_wait_sec (auth_waits a))"
proof (cases "length (auth_keys a) + length (auth_accounts a) + length (auth_waits a) \<le> 65536")
  case True
  let ?k = "sum_list (map kw_weight (auth_keys a))" and ?p = "sum_list (map plw_weight (auth_accounts a))"
    and ?w = "sum_list (map ww_weight (auth_waits a))"
  have b: "0 \<le> ?k" "?k \<le> 65535 * int (length (auth_keys a))" "0 \<le> ?p" "?p \<le> 65535 * int (length (auth_accounts a))"
    "0 \<le> ?w" "?w \<le> 65535 * int (length (auth_waits a))"
    using w(1) sum_list_bound[of "auth_keys a" kw_weight 65535] sum_list_bound[of "auth_accounts a" plw_weight 65535]
      sum_list_bound[of "auth_waits a" ww_weight 65535] by (auto simp: weights_ok_def)
  have m: "?k + ?p + ?w \<le> UINT32_MAX" using b True by (simp add: UINT32_MAX_def)
  have z: "sorted_wrt (<) (0 # map ww_wait_sec (auth_waits a)) \<longleftrightarrow>
      \<not> (auth_waits a \<noteq> [] \<and> ww_wait_sec (hd (auth_waits a)) = 0) \<and> sorted_wrt (<) (map ww_wait_sec (auth_waits a))"
    using w(1) by (cases "auth_waits a") (fastforce simp: weights_ok_def)+
  have "validate_loop kw_key kw_weight None (auth_keys a) 0 = (if sorted_wrt (<) (map kw_key (auth_keys a)) then Some ?k else None)"
    using w(1) m b by (subst validate_loop_eq) (auto simp: weights_ok_def)
  moreover have "validate_loop plw_permission plw_weight None (auth_accounts a) ?k
      = (if sorted_wrt (<) (map plw_permission (auth_accounts a)) then Some (?k + ?p) else None)"
    using w(1) m b by (subst validate_loop_eq) (auto simp: weights_ok_def)
  moreover have "validate_loop ww_wait_sec ww_weight None (auth_waits a) (?k + ?p)
      = (if sorted_wrt (<) (map ww_wait_sec (auth_waits a)) then Some (?k + ?p + ?w) else None)"
    using w(1) m b by (subst validate_loop_eq) (auto simp: weights_ok_def)
  ultimately show ?thesis unfolding z using True w(2) by (auto simp: validate_def auth_weight_def)
qed (simp add: validate_def)

subsection \<open>A concrete hierarchy\<close>

text \<open>Permission 1 needs weight 1 of permissions 2 (weight 2) and 3 (weight 1). Permission 2 needs key 9 and permission 4,
  permission 3 needs permission 4, and permission 4 needs key 7.\<close>

abbreviation demo_level :: "64 word \<Rightarrow> permission_level" where "demo_level i \<equiv> (1, i)"

definition demo_account :: "64 word \<Rightarrow> int \<Rightarrow> permission_level_weight" where
  "demo_account i w = \<lparr>plw_permission = demo_level i, plw_weight = w\<rparr>"

definition demo_pta :: "permission_level \<Rightarrow> authority option" where
  "demo_pta p =
     (if p = demo_level 1 then Some \<lparr>threshold = 1, auth_keys = [], auth_accounts = [demo_account 2 2, demo_account 3 1], auth_waits = []\<rparr>
      else if p = demo_level 2 then Some \<lparr>threshold = 2, auth_keys = [\<lparr>kw_key = 9, kw_weight = 1\<rparr>],
        auth_accounts = [demo_account 4 1], auth_waits = []\<rparr>
      else if p = demo_level 3 then Some \<lparr>threshold = 1, auth_keys = [], auth_accounts = [demo_account 4 1], auth_waits = []\<rparr>
      else if p = demo_level 4 then Some \<lparr>threshold = 1, auth_keys = [\<lparr>kw_key = 7, kw_weight = 1\<rparr>], auth_accounts = [], auth_waits = []\<rparr>
      else None)"

definition demo_checker :: "public_key list \<Rightarrow> checker" where
  "demo_checker keys = fst (make_auth_checker demo_pta 6 keys [] 0)"

definition demo_rank :: "permission_level \<Rightarrow> nat" where
  "demo_rank p = (if p = demo_level 1 then 2 else if p = demo_level 2 \<or> p = demo_level 3 then 1 else 0)"

lemma demo_pta_ok: "pta_ok (demo_checker keys)"
  by (auto simp: pta_ok_def demo_checker_def make_auth_checker_def demo_pta_def demo_account_def meta_permission_set_def split: if_splits)

lemma demo_ranked: "ranked (demo_checker keys) demo_rank"
  by (auto simp: ranked_def demo_checker_def make_auth_checker_def demo_pta_def demo_account_def demo_rank_def
      meta_permission_set_def UINT32_MAX_def split: if_splits)

subsection \<open>Properties\<close>

text \<open>Soundness of the authority checker: when it reports a permission as satisfied, the permission is satisfied in
  the sense of the inductive definition: it was provided, or the weights of the provided keys, of the elapsed waits and
  of satisfied permissions reach the threshold of its authority. This holds for every authority function, cyclic ones
  included, every recursion limit, and whatever the 32-bit weight does.\<close>

theorem satisfied_permission_sound:
  assumes "pta_ok c" and "fst (satisfied_permission c p marks)"
  shows "perm_sat c p"
  by (rule satisfied_permission_sound_aux[OF assms])

theorem satisfied_permission_sound_witness: "perm_sat (demo_checker [7]) (demo_level 1)"
proof -
  have "fst (satisfied_permission (demo_checker [7]) (demo_level 1) [False])" by code_simp
  from satisfied_permission_sound[OF demo_pta_ok this] show ?thesis .
qed

text \<open>C29. Completeness of the authority checker: on permissions whose references have a rank below the recursion limit
  (no cycles, not too deep) and whose weights sum to at most 32 bits, the checker reports a permission as satisfied
  exactly when it is, whatever the order of the factors and the content of the cache during the search.\<close>

theorem satisfied_permission_exact:
  assumes "pta_ok c" and "ranked c rank" and "rank p < recursion_depth_limit c"
  shows "fst (satisfied_permission c p marks) \<longleftrightarrow> perm_sat c p"
  by (rule satisfied_permission_exact_aux[OF assms])

theorem satisfied_permission_exact_witness: "\<not> perm_sat (demo_checker [9]) (demo_level 1)"
proof -
  have "demo_rank (demo_level 1) < recursion_depth_limit (demo_checker [9])" by code_simp
  moreover have "\<not> fst (satisfied_permission (demo_checker [9]) (demo_level 1) [False])" by code_simp
  ultimately show ?thesis using satisfied_permission_exact[OF demo_pta_ok demo_ranked] by blast
qed


text \<open>\<open>validate\<close> accepts an authority exactly when it has at most 65536 factors, its keys, permissions and waits are
  strictly ascending, no wait is zero, and the sum of all weights reaches the positive threshold. The 32-bit sum does
  not wrap around, because a weight has 16 bits.\<close>

theorem validate_correct:
  assumes "weights_ok a" and "0 \<le> threshold a"
  shows "validate a \<longleftrightarrow> length (auth_keys a) + length (auth_accounts a) + length (auth_waits a) \<le> 65536
    \<and> 0 < threshold a \<and> threshold a \<le> auth_weight a
    \<and> sorted_wrt (<) (map kw_key (auth_keys a)) \<and> sorted_wrt (<) (map plw_permission (auth_accounts a))
    \<and> sorted_wrt (<) (0 # map ww_wait_sec (auth_waits a))"
  by (rule validate_iff[OF assms])

theorem validate_correct_witness: "validate (authority_of_key 7 60)"
  using validate_correct[of "authority_of_key 7 60"] by (simp add: authority_of_key_def weights_ok_def auth_weight_def)

end
