(* ===== verification/Authorization.thy ===== *)
theory Authorization
  imports Authority
begin

text \<open>
  The authorization manager (\<open>authorization_manager.cpp\<close>, \<open>permission_object.hpp\<close>) and the native actions that
  change accounts, permissions and links (\<open>eosio_contract.cpp\<close>). Permissions form a tree per account through their
  parents; an action is authorised when each declared permission satisfies the permission that the action requires
  and is itself satisfied by keys, permissions and delays.

  The tables of the chain database are the rows under their primary key; a violated uniqueness constraint and a row that
  must exist and does not are errors. Following a pointer to no row is the error \<open>Undefined_access\<close>.
  The charges for RAM that an action makes are returned as a list of accounts and signed sizes.
\<close>

subsection \<open>Actions and transactions\<close>

record updateauth = up_account :: account_name  up_permission :: permission_name  up_parent :: permission_name  up_auth :: authority
record deleteauth = del_account :: account_name  del_permission :: permission_name
record linkauth = lk_account :: account_name  lk_code :: account_name  lk_type :: action_name  lk_requirement :: permission_name
record unlinkauth = ul_account :: account_name  ul_code :: account_name  ul_type :: action_name
record canceldelay = cd_canceling_auth :: permission_level  cd_trx_id :: digest
record setconfig = cfg_typ :: name  cfg_num :: int  cfg_key :: account_name  cfg_fee :: asset
record setfee = sf_account :: account_name  sf_action :: action_name  sf_fee :: asset  sf_cpu_limit :: int  sf_net_limit :: int  sf_ram_limit :: int

text \<open>An action. The data of native actions and of the actions that the node sends itself is unpacked; that of other
  actions is left to the contracts.\<close>

datatype native_data =
    Newaccount account_name account_name authority authority
  | Setcode account_name int int "nat list"
  | Setabi account_name "nat list"
  | Updateauth updateauth
  | Deleteauth deleteauth
  | Linkauth linkauth
  | Unlinkauth unlinkauth
  | Canceldelay canceldelay
  | Setconfig setconfig
  | Setfee setfee
  | Transfer_fee account_name asset
  | Fee_voteage account_name account_name int
  | Onerror int "nat list"
  | Other_data

record chain_action =
  act_account :: account_name
  act_name :: action_name
  act_authorization :: "permission_level list"
  act_data :: native_data

text \<open>The identifier and the packed size of a transaction are parameters of the operations that need them.\<close>

record transaction =
  trx_expiration :: int
  trx_ref_block_num :: int
  trx_ref_block_prefix :: int
  trx_max_net_usage_words :: int
  trx_max_cpu_usage_ms :: int
  trx_delay_sec :: int
  trx_context_free_actions :: "chain_action list"
  trx_actions :: "chain_action list"
  trx_extensions :: "(int \<times> account_name) list"

subsection \<open>The database\<close>

record permission_object =
  perm_usage_id :: int
  perm_parent :: int
  perm_owner :: account_name
  perm_name :: permission_name
  perm_last_updated :: int
  perm_auth :: authority

record account_object =
  acc_privileged :: bool
  acc_creation_date :: int
  acc_last_code_update :: int
  acc_code_version :: digest
  acc_code :: "nat list"
  acc_abi :: "nat list"
  acc_code_sequence :: int
  acc_abi_sequence :: int

type_synonym link_key = "account_name \<times> account_name \<times> action_name"

record deferred_transaction =
  def_sender :: account_name
  def_sender_id :: int
  def_payer :: account_name
  def_packed_size :: int
  def_published :: int
  def_delay_until :: int
  def_expiration :: int
  def_trx :: transaction

record auth_db =
  permissions :: "(int, permission_object) tbl"
  usages :: "(int, int) tbl"
  next_permission_id :: int
  next_usage_id :: int
  permission_links :: "(link_key, permission_name) tbl"
  db_accounts :: "(account_name, account_object) tbl"
  deferred :: "(digest \<times> deferred_transaction) list"

datatype auth_error =
    Action_validate_exception
  | Irrelevant_auth_exception
  | Unsatisfied_authorization
  | Tx_irrelevant_sig
  | Permission_query_exception
  | Account_query_exception
  | Account_name_exists_exception
  | Unlinkable_min_permission_action
  | Missing_auth_exception
  | Transaction_exception
  | Tx_not_found
  | Set_exact_code
  | Invalid_contract_vm
  | Wasm_exception
  | Unpack_exception
  | Key_blacklist_exception
  | Db_exception
  | Undefined_access
  | Endless_loop

definition empty_authority :: authority where
  "empty_authority = \<lparr>threshold = 0, auth_keys = [], auth_accounts = [], auth_waits = []\<rparr>"

text \<open>Permission 0 is reserved: a parent of 0 means that there is no parent.\<close>

definition initialize_permissions :: auth_db where
  "initialize_permissions = \<lparr>permissions = [(0, \<lparr>perm_usage_id = 0, perm_parent = 0, perm_owner = 0, perm_name = 0,
       perm_last_updated = 0, perm_auth = empty_authority\<rparr>)],
     usages = [], next_permission_id = 1, next_usage_id = 0, permission_links = [], db_accounts = [], deferred = []\<rparr>"

definition find_by_owner :: "auth_db \<Rightarrow> account_name \<Rightarrow> permission_name \<Rightarrow> (int \<times> permission_object) option" where
  "find_by_owner db owner n = find (\<lambda>r. perm_owner (snd r) = owner \<and> perm_name (snd r) = n) (permissions db)"

definition create_permission ::
  "int \<Rightarrow> account_name \<Rightarrow> permission_name \<Rightarrow> int \<Rightarrow> authority \<Rightarrow> int \<Rightarrow> auth_db \<Rightarrow> auth_error + int \<times> auth_db" where
  "create_permission now account n parent auth initial_creation_time db =
     (let creation_time = (if initial_creation_time = 0 then now else initial_creation_time);
          i = next_permission_id db; u = next_usage_id db in
      chk (find_by_owner db account n = None) Db_exception
       (Inr (i, db\<lparr>usages := tbl_put u creation_time (usages db), next_usage_id := u + 1,
          permissions := tbl_put i \<lparr>perm_usage_id = u, perm_parent = parent, perm_owner = account, perm_name = n,
            perm_last_updated = creation_time, perm_auth = auth\<rparr> (permissions db),
          next_permission_id := i + 1\<rparr>)))"

definition modify_permission :: "int \<Rightarrow> int \<times> permission_object \<Rightarrow> authority \<Rightarrow> auth_db \<Rightarrow> auth_db" where
  "modify_permission now p auth db =
     db\<lparr>permissions := tbl_put (fst p) ((snd p)\<lparr>perm_auth := auth, perm_last_updated := now\<rparr>) (permissions db)\<rparr>"

definition remove_permission :: "int \<times> permission_object \<Rightarrow> auth_db \<Rightarrow> auth_error + auth_db" where
  "remove_permission p db =
     chk (list_all (\<lambda>r. perm_parent (snd r) \<noteq> fst p) (permissions db)) Action_validate_exception
      (Inr (db\<lparr>usages := tbl_del (perm_usage_id (snd p)) (usages db), permissions := tbl_del (fst p) (permissions db)\<rparr>))"

definition update_permission_usage :: "int \<Rightarrow> permission_object \<Rightarrow> auth_db \<Rightarrow> auth_error + auth_db" where
  "update_permission_usage now p db =
     need (tbl_find (usages db) (perm_usage_id p)) Db_exception (\<lambda>_.
       Inr (db\<lparr>usages := tbl_put (perm_usage_id p) now (usages db)\<rparr>))"

definition get_permission_last_used :: "permission_object \<Rightarrow> auth_db \<Rightarrow> auth_error + int" where
  "get_permission_last_used p db = need (tbl_find (usages db) (perm_usage_id p)) Db_exception Inr"

definition find_permission :: "auth_db \<Rightarrow> permission_level \<Rightarrow> auth_error + (int \<times> permission_object) option" where
  "find_permission db level =
     chk (fst level \<noteq> 0 \<and> snd level \<noteq> 0) Permission_query_exception (Inr (find_by_owner db (fst level) (snd level)))"

definition get_permission :: "auth_db \<Rightarrow> permission_level \<Rightarrow> auth_error + int \<times> permission_object" where
  "get_permission db level =
     chk (fst level \<noteq> 0 \<and> snd level \<noteq> 0) Permission_query_exception
      (need (find_by_owner db (fst level) (snd level)) Permission_query_exception Inr)"

subsection \<open>The hierarchy\<close>

text \<open>The walk up the parents. It ends because a parent has a smaller id than its children; the number of rows bounds
  the steps.\<close>

fun parent_walk :: "nat \<Rightarrow> auth_db \<Rightarrow> int \<Rightarrow> permission_object \<Rightarrow> auth_error + bool" where
  "parent_walk n db i parent =
     (if i = perm_parent parent then Inr True
      else if perm_parent parent = 0 then Inr False
      else (case n of 0 \<Rightarrow> Inl Endless_loop
        | Suc m \<Rightarrow> need (tbl_find (permissions db) (perm_parent parent)) Undefined_access (\<lambda>p. parent_walk m db i p)))"

declare parent_walk.simps [simp del]

definition satisfies :: "auth_db \<Rightarrow> int \<times> permission_object \<Rightarrow> int \<times> permission_object \<Rightarrow> auth_error + bool" where
  "satisfies db p other =
     (if perm_owner (snd p) \<noteq> perm_owner (snd other) then Inr False
      else if fst p = fst other \<or> fst p = perm_parent (snd other) then Inr True
      else need (tbl_find (permissions db) (perm_parent (snd other))) Undefined_access (\<lambda>parent.
        parent_walk (length (permissions db)) db (fst p) parent))"

definition require_satisfies :: "auth_db \<Rightarrow> permission_level \<Rightarrow> int \<times> permission_object \<Rightarrow> auth_error + unit" where
  "require_satisfies db auth minimum =
     bnd (get_permission db auth) (\<lambda>p. bnd (satisfies db p minimum) (\<lambda>b. chk b Irrelevant_auth_exception (Inr ())))"

definition lookup_linked_permission :: "auth_db \<Rightarrow> account_name \<Rightarrow> account_name \<Rightarrow> action_name \<Rightarrow> permission_name option" where
  "lookup_linked_permission db authorizer scope message_type =
     (case tbl_find (permission_links db) (authorizer, scope, message_type) of Some r \<Rightarrow> Some r
      | None \<Rightarrow> tbl_find (permission_links db) (authorizer, scope, 0))"

definition updateauth_name :: action_name where "updateauth_name = string_to_name ''updateauth''"
definition deleteauth_name :: action_name where "deleteauth_name = string_to_name ''deleteauth''"
definition linkauth_name :: action_name where "linkauth_name = string_to_name ''linkauth''"
definition unlinkauth_name :: action_name where "unlinkauth_name = string_to_name ''unlinkauth''"
definition canceldelay_name :: action_name where "canceldelay_name = string_to_name ''canceldelay''"

definition native_auth_actions :: "action_name list" where
  "native_auth_actions = [updateauth_name, deleteauth_name, linkauth_name, unlinkauth_name, canceldelay_name]"

definition lookup_minimum_permission ::
  "auth_db \<Rightarrow> account_name \<Rightarrow> account_name \<Rightarrow> action_name \<Rightarrow> auth_error + permission_name option" where
  "lookup_minimum_permission db authorizer scope message_type =
     chk (scope = system_account_name \<longrightarrow> message_type \<notin> set native_auth_actions) Unlinkable_min_permission_action
      (Inr (case lookup_linked_permission db authorizer scope message_type of None \<Rightarrow> Some active_name
        | Some l \<Rightarrow> if l = any_name then None else Some l))"

subsection \<open>Checks of native actions\<close>

definition single_auth :: "permission_level list \<Rightarrow> account_name \<Rightarrow> (permission_level \<Rightarrow> auth_error + 'a) \<Rightarrow> auth_error + 'a" where
  "single_auth auths account k =
     chk (length auths = 1) Irrelevant_auth_exception
      (chk (fst (hd auths) = account) Irrelevant_auth_exception (k (hd auths)))"

definition check_updateauth_authorization :: "auth_db \<Rightarrow> updateauth \<Rightarrow> permission_level list \<Rightarrow> auth_error + unit" where
  "check_updateauth_authorization db up auths =
     single_auth auths (up_account up) (\<lambda>auth.
       bnd (find_permission db (up_account up, up_permission up)) (\<lambda>found.
       bnd (case found of Some p \<Rightarrow> Inr p | None \<Rightarrow> get_permission db (up_account up, up_parent up)) (\<lambda>minimum.
         require_satisfies db auth minimum)))"

definition check_deleteauth_authorization :: "auth_db \<Rightarrow> deleteauth \<Rightarrow> permission_level list \<Rightarrow> auth_error + unit" where
  "check_deleteauth_authorization db del auths =
     single_auth auths (del_account del) (\<lambda>auth.
       bnd (get_permission db (del_account del, del_permission del)) (\<lambda>minimum. require_satisfies db auth minimum))"

definition check_linkauth_authorization :: "auth_db \<Rightarrow> linkauth \<Rightarrow> permission_level list \<Rightarrow> auth_error + unit" where
  "check_linkauth_authorization db lk auths =
     single_auth auths (lk_account lk) (\<lambda>auth.
       chk (lk_type lk \<notin> set native_auth_actions) Action_validate_exception
       (bnd (lookup_minimum_permission db (lk_account lk) (lk_code lk) (lk_type lk)) (\<lambda>linked.
        case linked of None \<Rightarrow> Inr ()
        | Some n \<Rightarrow> bnd (get_permission db (lk_account lk, n)) (\<lambda>minimum. require_satisfies db auth minimum))))"

definition check_unlinkauth_authorization :: "auth_db \<Rightarrow> unlinkauth \<Rightarrow> permission_level list \<Rightarrow> auth_error + unit" where
  "check_unlinkauth_authorization db ul auths =
     single_auth auths (ul_account ul) (\<lambda>auth.
       need (lookup_linked_permission db (ul_account ul) (ul_code ul) (ul_type ul)) Transaction_exception (\<lambda>n.
        if n = any_name then Inr ()
        else bnd (get_permission db (ul_account ul, n)) (\<lambda>minimum. require_satisfies db auth minimum)))"

text \<open>Returns the delay of the transaction that is cancelled.\<close>

definition check_canceldelay_authorization :: "auth_db \<Rightarrow> canceldelay \<Rightarrow> permission_level list \<Rightarrow> auth_error + int" where
  "check_canceldelay_authorization db cd auths =
     chk (length auths = 1) Irrelevant_auth_exception
     (bnd (get_permission db (cd_canceling_auth cd)) (\<lambda>minimum.
      bnd (require_satisfies db (hd auths) minimum) (\<lambda>_.
      need (find (\<lambda>r. fst r = cd_trx_id cd) (deferred db)) Tx_not_found (\<lambda>r.
      chk (def_sender (snd r) = 0) Tx_not_found
      (chk (cd_canceling_auth cd \<in> set (concat (map act_authorization (trx_actions (def_trx (snd r)))))) Action_validate_exception
        (Inr (s64 (def_delay_until (snd r) - def_published (snd r)))))))))"

subsection \<open>Authorization of a transaction\<close>

record auth_config =
  max_transaction_delay :: int
  max_authority_depth :: nat

text \<open>The switch over the native actions: whether the action is one of them, and the delay it requires.\<close>

definition check_native_action :: "auth_db \<Rightarrow> chain_action \<Rightarrow> int \<Rightarrow> auth_error + bool \<times> int" where
  "check_native_action db act delay =
     (if act_account act \<noteq> system_account_name then Inr (False, delay)
      else if act_name act = updateauth_name then
        (case act_data act of Updateauth d \<Rightarrow> bnd (check_updateauth_authorization db d (act_authorization act)) (\<lambda>_. Inr (True, delay))
         | _ \<Rightarrow> Inl Unpack_exception)
      else if act_name act = deleteauth_name then
        (case act_data act of Deleteauth d \<Rightarrow> bnd (check_deleteauth_authorization db d (act_authorization act)) (\<lambda>_. Inr (True, delay))
         | _ \<Rightarrow> Inl Unpack_exception)
      else if act_name act = linkauth_name then
        (case act_data act of Linkauth d \<Rightarrow> bnd (check_linkauth_authorization db d (act_authorization act)) (\<lambda>_. Inr (True, delay))
         | _ \<Rightarrow> Inl Unpack_exception)
      else if act_name act = unlinkauth_name then
        (case act_data act of Unlinkauth d \<Rightarrow> bnd (check_unlinkauth_authorization db d (act_authorization act)) (\<lambda>_. Inr (True, delay))
         | _ \<Rightarrow> Inl Unpack_exception)
      else if act_name act = canceldelay_name then
        (case act_data act of Canceldelay d \<Rightarrow> bnd (check_canceldelay_authorization db d (act_authorization act)) (\<lambda>t. Inr (True, max delay t))
         | _ \<Rightarrow> Inl Unpack_exception)
      else Inr (False, delay))"

text \<open>One declared authorization: it must satisfy the minimum permission, and it is noted with the least delay.\<close>

definition check_declared ::
  "auth_db \<Rightarrow> permission_level list \<Rightarrow> chain_action \<Rightarrow> bool \<Rightarrow> int \<Rightarrow> permission_level \<Rightarrow> (permission_level, int) tbl
    \<Rightarrow> auth_error + (permission_level, int) tbl" where
  "check_declared db satisfied_authorizations act special_case delay declared todo =
     bnd (if special_case then Inr ()
          else bnd (lookup_minimum_permission db (fst declared) (act_account act) (act_name act)) (\<lambda>m.
            case m of None \<Rightarrow> Inr ()
            | Some n \<Rightarrow> bnd (get_permission db (fst declared, n)) (\<lambda>minimum. require_satisfies db declared minimum))) (\<lambda>_.
       Inr (if declared \<in> set satisfied_authorizations then todo
            else (case tbl_find todo declared of
                None \<Rightarrow> tbl_put declared delay todo
              | Some d \<Rightarrow> if d > delay then tbl_put declared delay todo else todo)))"

definition check_action ::
  "auth_db \<Rightarrow> permission_level list \<Rightarrow> int \<Rightarrow> chain_action \<Rightarrow> (permission_level, int) tbl \<Rightarrow> auth_error + (permission_level, int) tbl" where
  "check_action db satisfied_authorizations delay act todo =
     bnd (check_native_action db act delay) (\<lambda>(special_case, d).
       for_each (check_declared db satisfied_authorizations act special_case d) (act_authorization act) todo)"

definition authority_of :: "auth_db \<Rightarrow> permission_level \<Rightarrow> authority option" where
  "authority_of db p = (case get_permission db p of Inl e \<Rightarrow> None | Inr r \<Rightarrow> Some (perm_auth (snd r)))"

definition effective_delay :: "auth_config \<Rightarrow> int \<Rightarrow> int" where
  "effective_delay cfg delay = (if delay \<ge> max_transaction_delay cfg * 1000000 then INT64_MAX else delay)"

definition require_satisfied :: "checker \<Rightarrow> permission_level \<times> int \<Rightarrow> bool list \<Rightarrow> auth_error + bool list" where
  "require_satisfied c p marks =
     (let r = satisfied_permission_delay c (fst p) (snd p) marks in chk (fst r) Unsatisfied_authorization (Inr (snd r)))"

definition check_authorization ::
  "auth_config \<Rightarrow> auth_db \<Rightarrow> chain_action list \<Rightarrow> public_key list \<Rightarrow> permission_level list \<Rightarrow> int \<Rightarrow> bool
    \<Rightarrow> permission_level list \<Rightarrow> auth_error + unit" where
  "check_authorization cfg db actions keys perms delay allow_unused_keys satisfied_authorizations =
     (let d = effective_delay cfg delay;
          (c, marks) = make_auth_checker (authority_of db) (max_authority_depth cfg) keys perms d in
      bnd (for_each (check_action db satisfied_authorizations d) actions []) (\<lambda>todo.
      bnd (for_each (require_satisfied c) todo marks) (\<lambda>marks'.
      chk (allow_unused_keys \<or> all_keys_used marks') Tx_irrelevant_sig (Inr ()))))"

definition check_authorization_account ::
  "auth_config \<Rightarrow> auth_db \<Rightarrow> account_name \<Rightarrow> permission_name \<Rightarrow> public_key list \<Rightarrow> permission_level list \<Rightarrow> int \<Rightarrow> bool
    \<Rightarrow> auth_error + unit" where
  "check_authorization_account cfg db account permission keys perms delay allow_unused_keys =
     (let (c, marks) = make_auth_checker (authority_of db) (max_authority_depth cfg) keys perms (effective_delay cfg delay);
          r = satisfied_permission c (account, permission) marks in
      chk (fst r) Unsatisfied_authorization
       (chk (allow_unused_keys \<or> all_keys_used (snd r)) Tx_irrelevant_sig (Inr ())))"

definition get_required_keys ::
  "auth_config \<Rightarrow> auth_db \<Rightarrow> chain_action list \<Rightarrow> public_key list \<Rightarrow> int \<Rightarrow> auth_error + public_key list" where
  "get_required_keys cfg db actions candidate_keys delay =
     (let (c, marks) = make_auth_checker (authority_of db) (max_authority_depth cfg) candidate_keys [] delay in
      bnd (for_each (\<lambda>p m. let r = satisfied_permission c p m in chk (fst r) Unsatisfied_authorization (Inr (snd r)))
             (concat (map act_authorization actions)) marks) (\<lambda>marks'. Inr (used_keys c marks')))"

subsection \<open>Native actions\<close>

type_synonym ram_delta = "account_name \<times> int"

record native_context =
  nc_authorization :: "permission_level list"
  nc_time :: int
  nc_max_delay :: int
  nc_check_keys :: bool
  nc_key_allowed :: "public_key \<Rightarrow> bool"
  nc_pack_size :: "public_key \<Rightarrow> int"
  nc_hash :: "nat list \<Rightarrow> digest"
  nc_wasm_valid :: "nat list \<Rightarrow> bool"

text \<open>The code under \<open>wasm_interface\<close>, the hash of a code, the size of a key and the list of forbidden keys are parameters of
  the context. \<open>producers_account_name\<close> and \<open>chain_config_name\<close> are those of the default root account.\<close>

definition producers_account_name :: account_name where "producers_account_name = string_to_name ''force.prods''"
definition chain_config_name :: account_name where "chain_config_name = string_to_name ''force.config''"

definition require_authorization :: "native_context \<Rightarrow> account_name \<Rightarrow> auth_error + 'a \<Rightarrow> auth_error + 'a" where
  "require_authorization nc account k =
     chk (list_ex (\<lambda>p. fst p = account) (nc_authorization nc)) Missing_auth_exception k"

definition validate_account_permission :: "auth_db \<Rightarrow> permission_level_weight \<Rightarrow> auth_error + unit" where
  "validate_account_permission db a =
     chk (tbl_find (db_accounts db) (fst (plw_permission a)) \<noteq> None) Action_validate_exception
      (if snd (plw_permission a) \<in> {owner_name, active_name, code_name} then Inr ()
       else (case get_permission db (plw_permission a) of Inl e \<Rightarrow> Inl Action_validate_exception | Inr r \<Rightarrow> Inr ()))"

definition validate_authority_precondition :: "native_context \<Rightarrow> auth_db \<Rightarrow> authority \<Rightarrow> auth_error + unit" where
  "validate_authority_precondition nc db auth =
     bnd (for_each (\<lambda>a _. validate_account_permission db a) (auth_accounts auth) ()) (\<lambda>_.
       chk (nc_check_keys nc \<longrightarrow> list_all (\<lambda>k. nc_key_allowed nc (kw_key k)) (auth_keys auth)) Key_blacklist_exception (Inr ()))"

definition starts_with :: "string \<Rightarrow> string \<Rightarrow> bool" where
  "starts_with s p \<longleftrightarrow> take (length p) s = p"

definition permission_object_size :: int where
  "permission_object_size = billable_size_v (billable_size_v (3 * 16 + 4) + 64 + 5 * 32)"

definition link_object_size :: int where
  "link_object_size = billable_size_v (40 + 3 * 32)"

definition apply_newaccount ::
  "native_context \<Rightarrow> account_name \<Rightarrow> account_name \<Rightarrow> authority \<Rightarrow> authority \<Rightarrow> auth_db \<Rightarrow> auth_error + auth_db \<times> ram_delta list" where
  "apply_newaccount nc creator n owner active db =
     require_authorization nc creator
     (chk (validate owner) Action_validate_exception
     (chk (validate active) Action_validate_exception
     (chk (n \<noteq> 0) Action_validate_exception
     (chk (length (chain_to_string n) \<le> 12) Action_validate_exception
     (need (tbl_find (db_accounts db) creator) Db_exception (\<lambda>cr.
      chk (\<not> acc_privileged cr) Action_validate_exception
      (chk (creator \<notin> {system_account_name, producers_account_name, chain_config_name} \<longrightarrow>
              \<not> starts_with (chain_to_string n) ''force.'' \<and> \<not> starts_with (chain_to_string n) ''codex.'') Action_validate_exception
      (chk (tbl_find (db_accounts db) n = None) Account_name_exists_exception
       (let db1 = db\<lparr>db_accounts := tbl_put n \<lparr>acc_privileged = False, acc_creation_date = nc_time nc, acc_last_code_update = 0,
               acc_code_version = zero_digest, acc_code = [], acc_abi = [], acc_code_sequence = 0, acc_abi_sequence = 0\<rparr> (db_accounts db)\<rparr> in
        bnd (validate_authority_precondition nc db1 owner) (\<lambda>_.
        bnd (validate_authority_precondition nc db1 active) (\<lambda>_.
        bnd (create_permission (nc_time nc) n owner_name 0 owner 0 db1) (\<lambda>(oid, db2).
        bnd (create_permission (nc_time nc) n active_name oid active 0 db2) (\<lambda>(aid, db3).
        Inr (db3, [(n, 2 * 1024 + 2 * permission_object_size + get_billable_size (nc_pack_size nc) owner
                       + get_billable_size (nc_pack_size nc) active)]))))))))))))))"

definition apply_setcode ::
  "native_context \<Rightarrow> account_name \<Rightarrow> int \<Rightarrow> int \<Rightarrow> nat list \<Rightarrow> auth_db \<Rightarrow> auth_error + auth_db \<times> ram_delta list" where
  "apply_setcode nc account vmtype vmversion code db =
     require_authorization nc account
     (chk (vmtype = 0) Invalid_contract_vm
     (chk (vmversion = 0) Invalid_contract_vm
     (chk (code \<noteq> [] \<longrightarrow> nc_wasm_valid nc code) Wasm_exception
     (need (tbl_find (db_accounts db) account) Db_exception (\<lambda>acc.
      let code_id = (if code = [] then zero_digest else nc_hash nc code);
          old_size = int (length (acc_code acc)) * 10; new_size = int (length code) * 10 in
      chk (acc_code_version acc \<noteq> code_id) Set_exact_code
       (Inr (db\<lparr>db_accounts := tbl_put account (acc\<lparr>acc_last_code_update := nc_time nc, acc_code_version := code_id,
               acc_code := code, acc_code_sequence := acc_code_sequence acc + 1\<rparr>) (db_accounts db)\<rparr>,
             if new_size \<noteq> old_size then [(account, new_size - old_size)] else [])))))))"

definition apply_setabi :: "native_context \<Rightarrow> account_name \<Rightarrow> nat list \<Rightarrow> auth_db \<Rightarrow> auth_error + auth_db \<times> ram_delta list" where
  "apply_setabi nc account abi db =
     require_authorization nc account
     (need (tbl_find (db_accounts db) account) Db_exception (\<lambda>acc.
      let old_size = int (length (acc_abi acc)); new_size = int (length abi) in
      Inr (db\<lparr>db_accounts := tbl_put account (acc\<lparr>acc_abi := abi, acc_abi_sequence := acc_abi_sequence acc + 1\<rparr>) (db_accounts db)\<rparr>,
           if new_size \<noteq> old_size then [(account, new_size - old_size)] else [])))"

definition apply_updateauth :: "native_context \<Rightarrow> updateauth \<Rightarrow> auth_db \<Rightarrow> auth_error + auth_db \<times> ram_delta list" where
  "apply_updateauth nc up db =
     (let n = up_permission up; s = chain_to_string n; size = (\<lambda>a. permission_object_size + get_billable_size (nc_pack_size nc) a) in
      require_authorization nc (up_account up)
     (chk (n \<noteq> 0) Action_validate_exception
     (chk (\<not> starts_with s ''eosio.'' \<and> \<not> starts_with s ''force.'' \<and> \<not> starts_with s ''codex.'') Action_validate_exception
     (chk (n \<noteq> up_parent up) Action_validate_exception
     (chk (tbl_find (db_accounts db) (up_account up) \<noteq> None) Db_exception
     (chk (validate (up_auth up)) Action_validate_exception
     (chk (n = active_name \<longrightarrow> up_parent up = owner_name) Action_validate_exception
     (chk (if n = owner_name then up_parent up = 0 else up_parent up \<noteq> 0) Action_validate_exception
     (chk (auth_waits (up_auth up) \<noteq> [] \<longrightarrow> ww_wait_sec (last (auth_waits (up_auth up))) \<le> nc_max_delay nc) Action_validate_exception
     (bnd (validate_authority_precondition nc db (up_auth up)) (\<lambda>_.
      bnd (find_permission db (up_account up, n)) (\<lambda>found.
      bnd (if n \<noteq> owner_name then bnd (get_permission db (up_account up, up_parent up)) (\<lambda>p. Inr (fst p)) else Inr 0) (\<lambda>parent_id.
      case found of
        Some p \<Rightarrow> chk (parent_id = perm_parent (snd p)) Action_validate_exception
          (Inr (modify_permission (nc_time nc) p (up_auth up) db, [(perm_owner (snd p), size (up_auth up) - size (perm_auth (snd p)))]))
      | None \<Rightarrow> bnd (create_permission (nc_time nc) (up_account up) n parent_id (up_auth up) 0 db) (\<lambda>(i, db').
          Inr (db', [(up_account up, size (up_auth up))])))))))))))))))"

definition apply_deleteauth :: "native_context \<Rightarrow> deleteauth \<Rightarrow> auth_db \<Rightarrow> auth_error + auth_db \<times> ram_delta list" where
  "apply_deleteauth nc del db =
     require_authorization nc (del_account del)
     (chk (del_permission del \<noteq> active_name) Action_validate_exception
     (chk (del_permission del \<noteq> owner_name) Action_validate_exception
     (chk (list_all (\<lambda>l. \<not> (fst (fst l) = del_account del \<and> snd l = del_permission del)) (permission_links db)) Action_validate_exception
     (bnd (get_permission db (del_account del, del_permission del)) (\<lambda>p.
      bnd (remove_permission p db) (\<lambda>db'.
      Inr (db', [(del_account del, - (permission_object_size + get_billable_size (nc_pack_size nc) (perm_auth (snd p))))])))))))"

definition apply_linkauth :: "native_context \<Rightarrow> linkauth \<Rightarrow> auth_db \<Rightarrow> auth_error + auth_db \<times> ram_delta list" where
  "apply_linkauth nc lk db =
     chk (lk_requirement lk \<noteq> 0) Action_validate_exception
     (require_authorization nc (lk_account lk)
     (chk (tbl_find (db_accounts db) (lk_account lk) \<noteq> None) Account_query_exception
     (chk (tbl_find (db_accounts db) (lk_code lk) \<noteq> None) Account_query_exception
     (chk (lk_requirement lk \<noteq> any_name \<longrightarrow> list_ex (\<lambda>r. perm_name (snd r) = lk_requirement lk) (permissions db)) Permission_query_exception
      (let key = (lk_account lk, lk_code lk, lk_type lk);
           db' = db\<lparr>permission_links := tbl_put key (lk_requirement lk) (permission_links db)\<rparr> in
       case tbl_find (permission_links db) key of
         Some r \<Rightarrow> chk (r \<noteq> lk_requirement lk) Action_validate_exception (Inr (db', []))
       | None \<Rightarrow> Inr (db', [(lk_account lk, link_object_size)]))))))"

definition apply_unlinkauth :: "native_context \<Rightarrow> unlinkauth \<Rightarrow> auth_db \<Rightarrow> auth_error + auth_db \<times> ram_delta list" where
  "apply_unlinkauth nc ul db =
     require_authorization nc (ul_account ul)
     (let key = (ul_account ul, ul_code ul, ul_type ul) in
      need (tbl_find (permission_links db) key) Action_validate_exception (\<lambda>_.
        Inr (db\<lparr>permission_links := tbl_del key (permission_links db)\<rparr>, [(ul_account ul, - link_object_size)])))"

definition transaction_id_to_sender_id :: "digest \<Rightarrow> int" where
  "transaction_id_to_sender_id tid = uint (hash3 tid) * 2 ^ 64 + uint (hash2 tid)"

definition generated_transaction_size :: int where
  "generated_transaction_size = billable_size_v (96 + 4 + 5 * 32)"

definition cancel_deferred_transaction :: "int \<Rightarrow> account_name \<Rightarrow> auth_db \<Rightarrow> auth_db \<times> ram_delta list" where
  "cancel_deferred_transaction sender_id sender db =
     (case find (\<lambda>r. def_sender (snd r) = sender \<and> def_sender_id (snd r) = sender_id) (deferred db) of
        None \<Rightarrow> (db, [])
      | Some r \<Rightarrow> (db\<lparr>deferred := filter (\<lambda>x. fst x \<noteq> fst r) (deferred db)\<rparr>,
          [(def_payer (snd r), - (generated_transaction_size + def_packed_size (snd r)))]))"

definition apply_canceldelay :: "native_context \<Rightarrow> canceldelay \<Rightarrow> auth_db \<Rightarrow> auth_error + auth_db \<times> ram_delta list" where
  "apply_canceldelay nc cd db =
     require_authorization nc (fst (cd_canceling_auth cd))
      (Inr (cancel_deferred_transaction (transaction_id_to_sender_id (cd_trx_id cd)) 0 db))"

definition apply_native :: "native_context \<Rightarrow> native_data \<Rightarrow> auth_db \<Rightarrow> auth_error + auth_db \<times> ram_delta list" where
  "apply_native nc d db =
     (case d of
        Newaccount creator n owner active \<Rightarrow> apply_newaccount nc creator n owner active db
      | Setcode account vmtype vmversion code \<Rightarrow> apply_setcode nc account vmtype vmversion code db
      | Setabi account abi \<Rightarrow> apply_setabi nc account abi db
      | Updateauth up \<Rightarrow> apply_updateauth nc up db
      | Deleteauth del \<Rightarrow> apply_deleteauth nc del db
      | Linkauth lk \<Rightarrow> apply_linkauth nc lk db
      | Unlinkauth ul \<Rightarrow> apply_unlinkauth nc ul db
      | Canceldelay cd \<Rightarrow> apply_canceldelay nc cd db
      | _ \<Rightarrow> Inl Unpack_exception)"

subsection \<open>Genesis\<close>

text \<open>\<open>controller_impl::initialize_chain_database\<close> as far as it concerns accounts and permissions. The ABIs of the two accounts
  with native actions are parameters.\<close>

record genesis_account = gen_name :: account_name  gen_key :: public_key
record system_contract = sc_name :: account_name  sc_code :: "nat list"  sc_abi :: "nat list"

record genesis =
  gen_time :: int
  gen_initial_key :: public_key
  gen_accounts :: "genesis_account list"
  gen_system :: system_contract
  gen_token :: system_contract
  gen_msig :: system_contract
  gen_relay :: system_contract
  gen_native_abi :: "account_name \<Rightarrow> nat list"
  gen_hash :: "nat list \<Rightarrow> digest"
  gen_pack_size :: "public_key \<Rightarrow> int"

type_synonym genesis_step = "auth_db \<times> ram_delta list \<Rightarrow> auth_error + auth_db \<times> ram_delta list"

definition null_account_name :: account_name where "null_account_name = string_to_name ''force.null''"
definition native_account_name :: account_name where "native_account_name = string_to_name ''force.native''"
definition majority_producers_permission_name :: permission_name where
  "majority_producers_permission_name = string_to_name ''prod.major''"
definition minority_producers_permission_name :: permission_name where
  "minority_producers_permission_name = string_to_name ''prod.minor''"

definition create_native_account ::
  "genesis \<Rightarrow> account_name \<Rightarrow> authority \<Rightarrow> authority \<Rightarrow> bool \<Rightarrow> genesis_step" where
  "create_native_account g n owner active is_privileged = (\<lambda>(db, effs).
     chk (tbl_find (db_accounts db) n = None) Db_exception
      (let abi = (if n \<in> {system_account_name, native_account_name} then gen_native_abi g n else []);
           db1 = db\<lparr>db_accounts := tbl_put n \<lparr>acc_privileged = is_privileged, acc_creation_date = gen_time g, acc_last_code_update = 0,
               acc_code_version = zero_digest, acc_code = [], acc_abi = abi, acc_code_sequence = 0, acc_abi_sequence = 0\<rparr> (db_accounts db)\<rparr> in
       bnd (create_permission (gen_time g) n owner_name 0 owner (gen_time g) db1) (\<lambda>(oid, db2).
       bnd (create_permission (gen_time g) n active_name oid active (gen_time g) db2) (\<lambda>(aid, db3).
       Inr (db3, effs @ [(n, 2 * 1024 + 2 * permission_object_size + get_billable_size (gen_pack_size g) owner
                                + get_billable_size (gen_pack_size g) active)])))))"

definition initialize_genesis_accounts :: "genesis \<Rightarrow> genesis_step" where
  "initialize_genesis_accounts g = for_each (\<lambda>a. create_native_account g (gen_name a) (authority_of_key (gen_key a) 0)
     (authority_of_key (gen_key a) 0) False) (gen_accounts g)"

definition initialize_contract :: "genesis \<Rightarrow> system_contract \<Rightarrow> bool \<Rightarrow> genesis_step" where
  "initialize_contract g sc privileged = (\<lambda>(db, effs).
     need (tbl_find (db_accounts db) (sc_name sc)) Db_exception (\<lambda>acc.
       Inr (db\<lparr>db_accounts := tbl_put (sc_name sc) (acc\<lparr>acc_last_code_update := gen_time g, acc_privileged := privileged,
              acc_code_version := gen_hash g (sc_code sc), acc_code := sc_code sc, acc_abi := sc_abi sc,
              acc_code_sequence := acc_code_sequence acc + 1, acc_abi_sequence := acc_abi_sequence acc + 1\<rparr>) (db_accounts db)\<rparr>,
            effs @ [(sc_name sc, (int (length (sc_code sc)) + int (length (sc_abi sc))) * 10)])))"

definition accounts_authority :: "int \<Rightarrow> permission_level list \<Rightarrow> authority" where
  "accounts_authority t ps = \<lparr>threshold = t, auth_keys = [],
     auth_accounts = map (\<lambda>p. \<lparr>plw_permission = p, plw_weight = 1\<rparr>) ps, auth_waits = []\<rparr>"

text \<open>Replaces the authority of a permission when it differs; the time of the last update stays.\<close>

definition update_permission_auth :: "permission_level \<Rightarrow> authority \<Rightarrow> auth_db \<Rightarrow> auth_error + auth_db" where
  "update_permission_auth level auth db =
     bnd (get_permission db level) (\<lambda>p.
       Inr (if perm_auth (snd p) \<noteq> auth
            then db\<lparr>permissions := tbl_put (fst p) ((snd p)\<lparr>perm_auth := auth\<rparr>) (permissions db)\<rparr> else db))"

definition update_reward_authority :: "auth_db \<Rightarrow> auth_error + auth_db" where
  "update_reward_authority = update_permission_auth (reward_account_name, active_name)
     (accounts_authority 1 [(system_account_name, code_name), (relay_token_account_name, code_name), (token_account_name, code_name)])"

definition update_relay_authority :: "auth_db \<Rightarrow> auth_error + auth_db" where
  "update_relay_authority = update_permission_auth (relay_account_name, active_name)
     (accounts_authority 1 [(system_account_name, code_name), (relay_account_name, code_name)])"

definition update_eosio_authority :: "auth_db \<Rightarrow> auth_error + auth_db" where
  "update_eosio_authority db =
     (let auth = accounts_authority 1 [(producers_account_name, active_name)] in
      bnd (update_permission_auth (system_account_name, active_name) auth db) (\<lambda>db1.
        update_permission_auth (token_account_name, active_name) auth db1))"

definition calculate_threshold :: "producer_schedule \<Rightarrow> int \<Rightarrow> int \<Rightarrow> int" where
  "calculate_threshold s numerator denominator = u32 (u32 (int (length (sched_producers s)) * numerator) div denominator + 1)"

definition update_producers_authority :: "producer_schedule \<Rightarrow> auth_db \<Rightarrow> auth_error + auth_db" where
  "update_producers_authority s db =
     (let auth = (\<lambda>t. accounts_authority t (map (\<lambda>p. (producer_name p, active_name)) (sched_producers s))) in
      bnd (update_permission_auth (producers_account_name, active_name) (auth (calculate_threshold s 2 3)) db) (\<lambda>db1.
      bnd (update_permission_auth (producers_account_name, majority_producers_permission_name) (auth (calculate_threshold s 1 2)) db1) (\<lambda>db2.
        update_permission_auth (producers_account_name, minority_producers_permission_name) (auth (calculate_threshold s 1 3)) db2)))"

definition keep_effects :: "(auth_db \<Rightarrow> auth_error + auth_db) \<Rightarrow> genesis_step" where
  "keep_effects f = (\<lambda>(db, effs). bnd (f db) (\<lambda>db'. Inr (db', effs)))"

definition initialize_database_force :: "genesis \<Rightarrow> genesis_step" where
  "initialize_database_force g st =
     (let system_auth = authority_of_key (gen_initial_key g) 0 in
      bnd (for_each (\<lambda>n. create_native_account g n system_auth system_auth False)
             [token_account_name, msig_account_name, fee_account_name, relay_account_name, reward_account_name] st) (\<lambda>st.
      bnd (initialize_contract g (gen_system g) True st) (\<lambda>st.
      bnd (initialize_contract g (gen_token g) False st) (\<lambda>st.
      bnd (initialize_contract g (gen_msig g) True st) (\<lambda>st.
      bnd (initialize_contract g (gen_relay g) False st) (\<lambda>st.
      bnd (initialize_genesis_accounts g st) (\<lambda>st.
      bnd (keep_effects update_eosio_authority st) (\<lambda>st.
      bnd (keep_effects update_reward_authority st) (\<lambda>st.
        keep_effects update_relay_authority st)))))))))"

definition create_producers_permission :: "genesis \<Rightarrow> permission_name \<Rightarrow> permission_name \<Rightarrow> genesis_step" where
  "create_producers_permission g n parent = (\<lambda>(db, effs).
     bnd (get_permission db (producers_account_name, parent)) (\<lambda>p.
     bnd (create_permission (gen_time g) producers_account_name n (fst p)
            (accounts_authority 1 [(system_account_name, active_name)]) (gen_time g) db) (\<lambda>(i, db').
       Inr (db', effs))))"

definition initialize_chain_database :: "genesis \<Rightarrow> auth_error + auth_db \<times> ram_delta list" where
  "initialize_chain_database g =
     (let system_auth = authority_of_key (gen_initial_key g) 0; empty_auth = accounts_authority 1 [];
          active_producers_authority = accounts_authority 1 [(system_account_name, active_name)] in
      bnd (create_native_account g system_account_name system_auth system_auth True (initialize_permissions, [])) (\<lambda>st.
      bnd (create_native_account g native_account_name system_auth system_auth True st) (\<lambda>st.
      bnd (initialize_database_force g st) (\<lambda>st.
      bnd (create_native_account g null_account_name empty_auth empty_auth False st) (\<lambda>st.
      bnd (create_native_account g producers_account_name empty_auth active_producers_authority False st) (\<lambda>st.
      bnd (create_producers_permission g majority_producers_permission_name active_name st) (\<lambda>st.
        create_producers_permission g minority_producers_permission_name majority_producers_permission_name st)))))))"

lemmas auth_name_consts = updateauth_name_def deleteauth_name_def linkauth_name_def unlinkauth_name_def
  canceldelay_name_def producers_account_name_def chain_config_name_def null_account_name_def
  native_account_name_def majority_producers_permission_name_def minority_producers_permission_name_def

lemma auth_name_literals [code abstract]:
  "Word.the_int updateauth_name = 15371467950649982976"
  "Word.the_int deleteauth_name = 5378050746259030016"
  "Word.the_int linkauth_name = 10063015651234021376"
  "Word.the_int unlinkauth_name = 15340080295291076608"
  "Word.the_int canceldelay_name = 4730614990712192000"
  "Word.the_int producers_account_name = 6714450341173293056"
  "Word.the_int chain_config_name = 6714450334143143104"
  "Word.the_int null_account_name = 6714450340148428800"
  "Word.the_int native_account_name = 6714450339817043616"
  "Word.the_int majority_producers_permission_name = 12531424605554196480"
  "Word.the_int minority_producers_permission_name = 12531424609916272640"
  by (simp_all add: auth_name_consts string_to_name_eval)

subsection \<open>The permission tree\<close>

definition weights_nonneg :: "authority \<Rightarrow> bool" where
  "weights_nonneg a \<longleftrightarrow> (\<forall>f \<in> set (meta_permission_set a). 0 \<le> meta_weight f)"

text \<open>Ids ascend from parents to children, a parent exists and belongs to the same account, an account has at most one
  permission of a name, and permission 0 is the reserved one.\<close>

definition perm_row_ok :: "auth_db \<Rightarrow> int \<Rightarrow> permission_object \<Rightarrow> bool" where
  "perm_row_ok db i p \<longleftrightarrow> 0 \<le> i \<and> i < next_permission_id db \<and> weights_nonneg (perm_auth p) \<and>
     (if i = 0 then perm_owner p = 0 \<and> perm_parent p = 0
      else perm_owner p \<noteq> 0 \<and> perm_name p \<noteq> 0 \<and> 0 \<le> perm_parent p \<and> perm_parent p < i
        \<and> (case tbl_find (permissions db) (perm_parent p) of None \<Rightarrow> False
           | Some q \<Rightarrow> perm_parent p \<noteq> 0 \<longrightarrow> perm_owner q = perm_owner p))"

definition perms_ok :: "auth_db \<Rightarrow> bool" where
  "perms_ok db \<longleftrightarrow> tbl_ok (permissions db) \<and> tbl_find (permissions db) 0 \<noteq> None
     \<and> (\<forall>i p. tbl_find (permissions db) i = Some p \<longrightarrow> perm_row_ok db i p)
     \<and> (\<forall>i j p q. tbl_find (permissions db) i = Some p \<longrightarrow> tbl_find (permissions db) j = Some q \<longrightarrow>
          perm_owner p = perm_owner q \<longrightarrow> perm_name p = perm_name q \<longrightarrow> i = j)"

definition parents :: "auth_db \<Rightarrow> (int \<times> int) set" where
  "parents db = {(i, j). j \<noteq> 0 \<and> i \<noteq> 0 \<and> (\<exists>p. tbl_find (permissions db) j = Some p \<and> perm_parent p = i)}"

lemma perms_okD:
  assumes "perms_ok db"
  shows "tbl_ok (permissions db)" "tbl_find (permissions db) i = Some p \<Longrightarrow> perm_row_ok db i p"
    "tbl_find (permissions db) i = Some p \<Longrightarrow> tbl_find (permissions db) j = Some q \<Longrightarrow>
       perm_owner p = perm_owner q \<Longrightarrow> perm_name p = perm_name q \<Longrightarrow> i = j"
    "\<exists>p. tbl_find (permissions db) 0 = Some p"
  using assms unfolding perms_ok_def by blast+

lemma find_by_owner_Some:
  assumes "find_by_owner db a n = Some r" "tbl_ok (permissions db)"
  shows "tbl_find (permissions db) (fst r) = Some (snd r)" "perm_owner (snd r) = a" "perm_name (snd r) = n"
proof -
  have "r \<in> set (permissions db)" "perm_owner (snd r) = a" "perm_name (snd r) = n"
    using assms(1) by (auto simp: find_by_owner_def find_Some_iff)
  then show "tbl_find (permissions db) (fst r) = Some (snd r)" "perm_owner (snd r) = a" "perm_name (snd r) = n"
    using tbl_rows_find[OF assms(2), of "fst r" "snd r"] by auto
qed

lemma find_by_owner_None:
  assumes "find_by_owner db a n = None" "tbl_find (permissions db) i = Some p" "tbl_ok (permissions db)"
  shows "\<not> (perm_owner p = a \<and> perm_name p = n)"
proof -
  have "(i, p) \<in> set (permissions db)" using tbl_rows_find[OF assms(3)] assms(2) by simp
  then show ?thesis using assms(1) by (force simp: find_by_owner_def find_None_iff)
qed

text \<open>The walk decides the strict ancestor relation.\<close>

lemma parent_step:
  assumes "perms_ok db" "tbl_find (permissions db) k = Some p" "perm_parent p \<noteq> 0"
  obtains q where "tbl_find (permissions db) (perm_parent p) = Some q" "(perm_parent p, k) \<in> parents db"
    "perm_parent p < k" "perm_owner q = perm_owner p" "k \<noteq> 0"
proof -
  have r: "perm_row_ok db k p" by (rule perms_okD(2)[OF assms(1,2)])
  then have "k \<noteq> 0" using assms(3) by (auto simp: perm_row_ok_def split: if_splits)
  then show thesis using r assms that by (auto simp: perm_row_ok_def parents_def split: option.splits)
qed

lemma parents_trancl_iff:
  assumes "tbl_find (permissions db) k = Some p"
  shows "(i, k) \<in> (parents db)\<^sup>+ \<longleftrightarrow> k \<noteq> 0 \<and> perm_parent p \<noteq> 0 \<and> (i = perm_parent p \<or> (i, perm_parent p) \<in> (parents db)\<^sup>+)"
proof
  assume "(i, k) \<in> (parents db)\<^sup>+"
  then show "k \<noteq> 0 \<and> perm_parent p \<noteq> 0 \<and> (i = perm_parent p \<or> (i, perm_parent p) \<in> (parents db)\<^sup>+)"
    by (cases rule: trancl.cases) (use assms in \<open>auto simp: parents_def\<close>)
next
  assume "k \<noteq> 0 \<and> perm_parent p \<noteq> 0 \<and> (i = perm_parent p \<or> (i, perm_parent p) \<in> (parents db)\<^sup>+)"
  moreover have "(perm_parent p, k) \<in> parents db" if "k \<noteq> 0" "perm_parent p \<noteq> 0" using that assms by (auto simp: parents_def)
  ultimately show "(i, k) \<in> (parents db)\<^sup>+" by (auto intro: trancl_into_trancl)
qed

lemma parent_walk_ok:
  assumes "perms_ok db" "tbl_find (permissions db) k = Some p" "i \<noteq> 0"
    and "length (filter (\<lambda>r. fst r < k) (permissions db)) \<le> n"
  shows "parent_walk n db i p = Inr ((i, k) \<in> (parents db)\<^sup>+)"
  using assms(2,4)
proof (induction n arbitrary: k p)
  case 0
  have "perm_parent p = 0"
  proof (rule ccontr)
    assume "perm_parent p \<noteq> 0"
    then obtain q where q: "tbl_find (permissions db) (perm_parent p) = Some q" "perm_parent p < k"
      using parent_step[OF assms(1) 0(1)] by metis
    then have "(perm_parent p, q) \<in> set (permissions db)" using tbl_rows_find[OF perms_okD(1)[OF assms(1)]] by simp
    then show False using q(2) 0(2) by (auto simp: filter_empty_conv)
  qed
  then show ?case using parents_trancl_iff[OF 0(1), of i] assms(3) by (simp add: parent_walk.simps)
next
  case (Suc n)
  show ?case
  proof (cases "perm_parent p = 0")
    case True
    then show ?thesis using parents_trancl_iff[OF Suc(2), of i] assms(3) by (simp add: parent_walk.simps)
  next
    case False
    obtain q where q: "tbl_find (permissions db) (perm_parent p) = Some q" "perm_parent p < k" "k \<noteq> 0"
      using parent_step[OF assms(1) Suc(2) False] by metis
    have m: "(perm_parent p, q) \<in> set (filter (\<lambda>r. fst r < k) (permissions db))"
      using tbl_rows_find[OF perms_okD(1)[OF assms(1)]] q(1,2) by simp
    have "filter (\<lambda>r. fst r < perm_parent p) (permissions db)
        = filter (\<lambda>r. fst r < perm_parent p) (filter (\<lambda>r. fst r < k) (permissions db))"
      using q(2) by (auto intro: filter_cong)
    then have "length (filter (\<lambda>r. fst r < perm_parent p) (permissions db)) \<le> n"
      using length_filter_less[OF m, of "\<lambda>r. fst r < perm_parent p"] Suc(3) by simp
    from Suc(1)[OF q(1) this] show ?thesis
      using q False parents_trancl_iff[OF Suc(2), of i] by (simp add: parent_walk.simps[of "Suc n"])
  qed
qed

lemma satisfies_iff:
  assumes ok: "perms_ok db" and p: "tbl_find (permissions db) i = Some p" "i \<noteq> 0"
    and o: "tbl_find (permissions db) j = Some oo" "j \<noteq> 0"
  shows "satisfies db (i, p) (j, oo) = Inr ((i, j) \<in> (parents db)\<^sup>*)"
proof -
  have own: "(a, b) \<in> (parents db)\<^sup>* \<Longrightarrow> tbl_find (permissions db) a = Some x \<Longrightarrow> tbl_find (permissions db) b = Some y
      \<Longrightarrow> perm_owner x = perm_owner y" for a b x y
  proof (induction arbitrary: y rule: rtrancl_induct)
    case (step u v)
    then have "perm_parent y = u" "u \<noteq> 0" by (auto simp: parents_def)
    then obtain q where "tbl_find (permissions db) u = Some q" "perm_owner q = perm_owner y"
      using parent_step[OF ok step(5)] by metis
    then show ?case using step by simp
  qed simp
  have r: "perm_row_ok db j oo" by (rule perms_okD(2)[OF ok o(1)])
  then obtain q where q: "tbl_find (permissions db) (perm_parent oo) = Some q"
    using o(2) by (auto simp: perm_row_ok_def split: option.splits)
  have w: "parent_walk (length (permissions db)) db i q = Inr ((i, perm_parent oo) \<in> (parents db)\<^sup>+)"
    by (rule parent_walk_ok[OF ok q p(2)]) simp
  have "(i, j) \<in> (parents db)\<^sup>+ \<longleftrightarrow> perm_parent oo \<noteq> 0 \<and> (i = perm_parent oo \<or> (i, perm_parent oo) \<in> (parents db)\<^sup>+)"
    using parents_trancl_iff[OF o(1), of i] o(2) by simp
  moreover have "\<not> (i, 0) \<in> (parents db)\<^sup>+" by (auto simp: parents_def elim: tranclE)
  ultimately have "(i, j) \<in> (parents db)\<^sup>* \<longleftrightarrow> i = j \<or> i = perm_parent oo \<or> (i, perm_parent oo) \<in> (parents db)\<^sup>+"
    using p(2) by (auto simp: rtrancl_eq_or_trancl)
  then show ?thesis using own[OF _ p(1) o(1)] q w by (auto simp: satisfies_def)
qed

subsection \<open>Every operation keeps the tree\<close>

lemma perms_ok_frame:
  "permissions db' = permissions db \<Longrightarrow> next_permission_id db' = next_permission_id db \<Longrightarrow> perms_ok db' \<longleftrightarrow> perms_ok db"
  by (simp add: perms_ok_def perm_row_ok_def)

lemma perms_okI:
  assumes "tbl_ok (permissions db)" "\<exists>p. tbl_find (permissions db) 0 = Some p"
    "\<And>i p. tbl_find (permissions db) i = Some p \<Longrightarrow> perm_row_ok db i p"
    "\<And>i j p q. tbl_find (permissions db) i = Some p \<Longrightarrow> tbl_find (permissions db) j = Some q \<Longrightarrow>
       perm_owner p = perm_owner q \<Longrightarrow> perm_name p = perm_name q \<Longrightarrow> i = j"
  shows "perms_ok db"
  using assms unfolding perms_ok_def by blast

lemma perms_ok_next_pos: "perms_ok db \<Longrightarrow> 0 < next_permission_id db"
  using perms_okD(2,4) by (force simp: perm_row_ok_def)

lemma perms_ok_below: "perms_ok db \<Longrightarrow> tbl_find (permissions db) i = Some p \<Longrightarrow> 0 \<le> i \<and> i < next_permission_id db"
  using perms_okD(2) by (fastforce simp: perm_row_ok_def)

lemma initialize_permissions_ok: "perms_ok initialize_permissions"
  by (auto simp: perms_ok_def perm_row_ok_def initialize_permissions_def tbl_find_def tbl_ok_def weights_nonneg_def
      meta_permission_set_def empty_authority_def)

definition parent_ok :: "auth_db \<Rightarrow> account_name \<Rightarrow> int \<Rightarrow> bool" where
  "parent_ok db account i \<longleftrightarrow> (case tbl_find (permissions db) i of None \<Rightarrow> False | Some q \<Rightarrow> i \<noteq> 0 \<longrightarrow> perm_owner q = account)"

lemma parent_ok_0: "perms_ok db \<Longrightarrow> parent_ok db account 0"
  using perms_okD(4) by (force simp: parent_ok_def)

lemma create_permission_ok:
  assumes "perms_ok db" "create_permission t account n parent auth t0 db = Inr (i, db')"
    and "account \<noteq> 0" "n \<noteq> 0" "weights_nonneg auth" "parent_ok db account parent"
  shows "perms_ok db' \<and> parent_ok db' account i"
proof -
  let ?ps = "permissions db" and ?ps' = "permissions db'"
  define p where "p = \<lparr>perm_usage_id = next_usage_id db, perm_parent = parent, perm_owner = account, perm_name = n,
    perm_last_updated = (if t0 = 0 then t else t0), perm_auth = auth\<rparr>"
  have i: "i = next_permission_id db" "next_permission_id db' = i + 1" and new: "find_by_owner db account n = None"
    and put: "?ps' = tbl_put i p ?ps"
    using assms(2) by (auto simp: create_permission_def Let_def res_simps p_def)
  have p: "perm_owner p = account" "perm_name p = n" "perm_parent p = parent" "perm_auth p = auth" by (simp_all add: p_def)
  have t: "tbl_ok ?ps" by (rule perms_okD(1)[OF assms(1)])
  have f: "tbl_find ?ps' j = (if j = i then Some p else tbl_find ?ps j)" for j using tbl_find_put[OF t] put by simp
  have i0: "0 < i" using perms_ok_next_pos[OF assms(1)] i by simp
  have less: "tbl_find ?ps j = Some q \<Longrightarrow> 0 \<le> j \<and> j < i" for j q using perms_ok_below[OF assms(1)] i(1) by simp
  have old: "perm_row_ok db' j q" if "tbl_find ?ps j = Some q" for j q
  proof -
    have r: "perm_row_ok db j q" by (rule perms_okD(2)[OF assms(1) that])
    then have "j \<noteq> 0 \<Longrightarrow> perm_parent q < j" by (auto simp: perm_row_ok_def)
    then have "j \<noteq> 0 \<Longrightarrow> perm_parent q \<noteq> i" using less[OF that] by simp
    then show ?thesis using r i by (auto simp: perm_row_ok_def f split: option.splits)
  qed
  have "perm_row_ok db' i p"
    using p i i0 less[of parent] assms(3-6) by (auto simp: perm_row_ok_def f parent_ok_def split: option.splits)
  moreover have u: "\<not> (perm_owner q = account \<and> perm_name q = n)" if "tbl_find ?ps j = Some q" for j q
    using find_by_owner_None[OF new that t] .
  moreover have "tbl_ok ?ps'" using tbl_ok_put[OF t] put by simp
  ultimately have "perms_ok db'"
  proof (intro perms_okI)
    show "j = k" if "tbl_find ?ps' j = Some q" "tbl_find ?ps' k = Some r" "perm_owner q = perm_owner r" "perm_name q = perm_name r" for j k q r
      using that u[of j q] u[of k r] perms_okD(3)[OF assms(1), of j q k r] p(1,2) unfolding f by (auto split: if_splits)
  qed (use perms_okD(4)[OF assms(1)] in \<open>auto simp: f old split: if_splits\<close>)
  then show ?thesis using p(1) by (simp add: parent_ok_def f)
qed

lemma replace_permission_ok:
  assumes "perms_ok db" "tbl_find (permissions db) i = Some p" "perm_owner p' = perm_owner p" "perm_name p' = perm_name p"
    "perm_parent p' = perm_parent p" "weights_nonneg (perm_auth p')"
  shows "perms_ok (db\<lparr>permissions := tbl_put i p' (permissions db)\<rparr>)" (is "perms_ok ?db")
proof -
  have t: "tbl_ok (permissions db)" by (rule perms_okD(1)[OF assms(1)])
  have f: "tbl_find (permissions ?db) j = (if j = i then Some p' else tbl_find (permissions db) j)" for j
    using tbl_find_put[OF t] by simp
  have row: "perm_row_ok ?db j q'" if "perm_row_ok db j q" "perm_owner q' = perm_owner q" "perm_name q' = perm_name q"
      "perm_parent q' = perm_parent q" "weights_nonneg (perm_auth q')" for j q q'
    using that assms(2,3) unfolding perm_row_ok_def f by (auto split: option.splits if_splits)
  show ?thesis
  proof (rule perms_okI)
    show "perm_row_ok ?db j q" if "tbl_find (permissions ?db) j = Some q" for j q
    proof (cases "j = i")
      case True
      then show ?thesis using row[OF perms_okD(2)[OF assms(1,2)] assms(3-6)] that f by simp
    next
      case False
      then have "tbl_find (permissions db) j = Some q" using that f by simp
      then have r: "perm_row_ok db j q" by (rule perms_okD(2)[OF assms(1)])
      then have "weights_nonneg (perm_auth q)" by (simp add: perm_row_ok_def)
      then show ?thesis by (rule row[OF r refl refl refl])
    qed
    show "j = k" if "tbl_find (permissions ?db) j = Some q" "tbl_find (permissions ?db) k = Some r"
      "perm_owner q = perm_owner r" "perm_name q = perm_name r" for j k q r
      using that perms_okD(3)[OF assms(1)] assms(2-4) unfolding f by (auto split: if_splits)
  qed (use tbl_ok_put[OF t] f perms_okD(4)[OF assms(1)] in auto)
qed

lemma remove_permission_ok:
  assumes "perms_ok db" "tbl_find (permissions db) (fst p) = Some (snd p)" "fst p \<noteq> 0" "remove_permission p db = Inr db'"
  shows "perms_ok db'"
proof -
  have t: "tbl_ok (permissions db)" by (rule perms_okD(1)[OF assms(1)])
  have d: "permissions db' = tbl_del (fst p) (permissions db)" "next_permission_id db' = next_permission_id db"
    and no: "list_all (\<lambda>r. perm_parent (snd r) \<noteq> fst p) (permissions db)"
    using assms(4) by (auto simp: remove_permission_def res_simps)
  have f: "tbl_find (permissions db') j = (if j = fst p then None else tbl_find (permissions db) j)" for j
    using tbl_find_del d by metis
  have np: "perm_parent q \<noteq> fst p" if "tbl_find (permissions db) j = Some q" for j q
    using no tbl_rows_find[OF t, of j q] that by (force simp: list_all_iff)
  show ?thesis
  proof (rule perms_okI)
    show "perm_row_ok db' j q" if "tbl_find (permissions db') j = Some q" for j q
      using that perms_okD(2)[OF assms(1), of j q] np[of j q] d(2) unfolding perm_row_ok_def f by (auto split: if_splits)
    show "j = k" if "tbl_find (permissions db') j = Some q" "tbl_find (permissions db') k = Some r"
      "perm_owner q = perm_owner r" "perm_name q = perm_name r" for j k q r
      using that perms_okD(3)[OF assms(1)] unfolding f by (auto split: if_splits)
  qed (use tbl_ok_del[OF t] f perms_okD(4)[OF assms(1)] assms(3) d(1) in auto)
qed

lemma get_permission_row:
  assumes "get_permission db level = Inr r" "perms_ok db"
  shows "tbl_find (permissions db) (fst r) = Some (snd r)" "perm_owner (snd r) = fst level" "perm_name (snd r) = snd level"
    "fst r \<noteq> 0" "parent_ok db (fst level) (fst r)"
proof -
  have l: "fst level \<noteq> 0" "find_by_owner db (fst level) (snd level) = Some r"
    using assms(1) by (auto simp: get_permission_def res_simps)
  note r = find_by_owner_Some[OF l(2) perms_okD(1)[OF assms(2)]]
  show "tbl_find (permissions db) (fst r) = Some (snd r)" "perm_owner (snd r) = fst level" "perm_name (snd r) = snd level"
    using r by blast+
  show "fst r \<noteq> 0" using perms_okD(2)[OF assms(2) r(1)] r(2) l(1) by (auto simp: perm_row_ok_def)
  show "parent_ok db (fst level) (fst r)" using r by (simp add: parent_ok_def)
qed

lemma update_permission_auth_ok:
  assumes "perms_ok db" "update_permission_auth level auth db = Inr db'" "weights_nonneg auth"
  shows "perms_ok db'"
proof -
  obtain r where r: "get_permission db level = Inr r"
    "db' = (if perm_auth (snd r) \<noteq> auth then db\<lparr>permissions := tbl_put (fst r) ((snd r)\<lparr>perm_auth := auth\<rparr>) (permissions db)\<rparr> else db)"
    using assms(2) by (auto simp: update_permission_auth_def res_simps)
  then show ?thesis
    using assms(1,3) replace_permission_ok[OF assms(1) get_permission_row(1)[OF r(1) assms(1)], of "(snd r)\<lparr>perm_auth := auth\<rparr>"] by auto
qed

lemma weights_nonneg_ok: "weights_ok a \<Longrightarrow> weights_nonneg a"
  by (auto simp: weights_ok_def weights_nonneg_def meta_permission_set_def)

lemma names_nonzero:
  "owner_name \<noteq> 0" "active_name \<noteq> 0" "system_account_name \<noteq> 0" "native_account_name \<noteq> 0" "token_account_name \<noteq> 0"
  "msig_account_name \<noteq> 0" "fee_account_name \<noteq> 0" "relay_account_name \<noteq> 0" "reward_account_name \<noteq> 0" "null_account_name \<noteq> 0"
  "producers_account_name \<noteq> 0" "majority_producers_permission_name \<noteq> 0" "minority_producers_permission_name \<noteq> 0"
  unfolding name_consts native_account_name_def null_account_name_def producers_account_name_def majority_producers_permission_name_def
    minority_producers_permission_name_def
  by (rule valid_not_zero, simp add: valid_name_string_def charmap_def)+

lemma create_account_permissions_ok:
  assumes "perms_ok db" "n \<noteq> 0" "weights_nonneg owner" "weights_nonneg active"
    and "create_permission t n owner_name 0 owner t0 db = Inr (i, db1)"
    and "create_permission t n active_name i active t0 db1 = Inr (j, db2)"
  shows "perms_ok db2"
  using create_permission_ok[OF _ assms(6,2) names_nonzero(2) assms(4)]
    create_permission_ok[OF assms(1,5,2) names_nonzero(1) assms(3) parent_ok_0[OF assms(1)]] by blast

lemma authorities_nonneg: "weights_nonneg (accounts_authority t ps)" "weights_nonneg (authority_of_key k d)"
  by (auto simp: accounts_authority_def authority_of_key_def weights_nonneg_def meta_permission_set_def)

lemma create_native_account_ok:
  assumes "create_native_account g n owner active priv st = Inr st'" "perms_ok (fst st)" "n \<noteq> 0"
    "weights_nonneg owner" "weights_nonneg active"
  shows "perms_ok (fst st')"
proof -
  obtain db effs where st: "st = (db, effs)" by force
  obtain i db1 j db2 accs where "create_permission (gen_time g) n owner_name 0 owner (gen_time g) (db\<lparr>db_accounts := accs\<rparr>) = Inr (i, db1)"
    "create_permission (gen_time g) n active_name i active (gen_time g) db1 = Inr (j, db2)" "fst st' = db2"
    using assms(1) by (auto simp: st create_native_account_def Let_def res_simps)
  moreover have "perms_ok (db\<lparr>db_accounts := accs\<rparr>)" using assms(2) st perms_ok_frame[of "db\<lparr>db_accounts := accs\<rparr>" db] by simp
  ultimately show ?thesis using create_account_permissions_ok[OF _ assms(3-5)] by blast
qed

lemma initialize_contract_ok: "initialize_contract g sc priv st = Inr st' \<Longrightarrow> perms_ok (fst st) \<Longrightarrow> perms_ok (fst st')"
  using perms_ok_frame[of "fst st'" "fst st"] by (cases st) (auto simp: initialize_contract_def res_simps)

lemma keep_effects_Inr [res_simps]: "keep_effects f st = Inr st' \<longleftrightarrow> f (fst st) = Inr (fst st') \<and> snd st' = snd st"
  by (cases st; cases st') (auto simp: keep_effects_def res_simps)

lemma update_authority_ok:
  assumes "perms_ok db"
  shows "update_eosio_authority db = Inr db' \<Longrightarrow> perms_ok db'" "update_reward_authority db = Inr db' \<Longrightarrow> perms_ok db'"
    "update_relay_authority db = Inr db' \<Longrightarrow> perms_ok db'" "update_producers_authority s db = Inr db' \<Longrightarrow> perms_ok db'"
  using assms update_permission_auth_ok[OF _ _ authorities_nonneg(1)]
  by (auto simp: update_eosio_authority_def update_reward_authority_def update_relay_authority_def update_producers_authority_def
      Let_def res_simps) blast+

lemma initialize_chain_database_ok:
  assumes "initialize_chain_database g = Inr st" "\<forall>a \<in> set (gen_accounts g). gen_name a \<noteq> 0"
  shows "perms_ok (fst st)"
proof -
  have force: "perms_ok (fst st')" if "initialize_database_force g st = Inr st'" "perms_ok (fst st)" for st st'
  proof -
    note run = that(1) and ok = that(2)
    obtain s1 s2 s3 s4 s5 s6 s7 s8 where s:
      "for_each (\<lambda>n. create_native_account g n (authority_of_key (gen_initial_key g) 0) (authority_of_key (gen_initial_key g) 0) False)
             [token_account_name, msig_account_name, fee_account_name, relay_account_name, reward_account_name] st = Inr s1"
      "initialize_contract g (gen_system g) True s1 = Inr s2" "initialize_contract g (gen_token g) False s2 = Inr s3"
      "initialize_contract g (gen_msig g) True s3 = Inr s4" "initialize_contract g (gen_relay g) False s4 = Inr s5"
      "initialize_genesis_accounts g s5 = Inr s6" "keep_effects update_eosio_authority s6 = Inr s7"
      "keep_effects update_reward_authority s7 = Inr s8" "keep_effects update_relay_authority s8 = Inr st'"
      using run unfolding initialize_database_force_def Let_def bnd_Inr by (elim exE conjE) (rule that)
    have 1: "perms_ok (fst s1)"
      by (rule for_each_inv[OF s(1), of "\<lambda>s. perms_ok (fst s)"])
        (use ok create_native_account_ok[OF _ _ _ authorities_nonneg(2) authorities_nonneg(2)] names_nonzero in auto)
    have 5: "perms_ok (fst s5)" using 1 s(2-5) initialize_contract_ok by blast
    have "perms_ok (fst s6)"
      by (rule for_each_inv[OF s(6)[unfolded initialize_genesis_accounts_def], of "\<lambda>s. perms_ok (fst s)"])
        (use 5 create_native_account_ok[OF _ _ _ authorities_nonneg(2) authorities_nonneg(2)] assms(2) in auto)
    then show ?thesis using s(7-9) update_authority_ok(1-3) unfolding keep_effects_Inr by blast
  qed
  have prod: "perms_ok (fst st')" if "create_producers_permission g n parent st = Inr st'" "perms_ok (fst st)" "n \<noteq> 0" for n parent st st'
  proof -
    note run = that(1)
    obtain p db where p: "get_permission (fst st) (producers_account_name, parent) = Inr p"
      "create_permission (gen_time g) producers_account_name n (fst p)
            (accounts_authority 1 [(system_account_name, active_name)]) (gen_time g) (fst st) = Inr db" "fst st' = snd db"
      using run unfolding create_producers_permission_def split_beta bnd_Inr by (elim exE conjE) (rule that, auto)
    then show ?thesis
      using create_permission_ok[OF that(2) _ names_nonzero(11) that(3) authorities_nonneg(1)]
        get_permission_row(5)[OF p(1) that(2)] by (cases db) auto
  qed
  have 0: "perms_ok (fst (initialize_permissions, []))" using initialize_permissions_ok by simp
  note acc = create_native_account_ok[OF _ _ _ authorities_nonneg(2) authorities_nonneg(2)]
    create_native_account_ok[OF _ _ _ authorities_nonneg(1) authorities_nonneg(1)]
  from assms(1) show ?thesis
    unfolding initialize_chain_database_def Let_def bnd_Inr
    apply (elim exE conjE)
    apply (drule acc(1)[OF _ 0 names_nonzero(3)])
    apply (drule (1) acc(1)[OF _ _ names_nonzero(4)])
    apply (drule (1) force)
    apply (drule (1) acc(2)[OF _ _ names_nonzero(10)])
    apply (drule (1) acc(2)[OF _ _ names_nonzero(11)])
    apply (drule (1) prod[OF _ _ names_nonzero(12)])
    apply (drule (1) prod[OF _ _ names_nonzero(13)])
    apply assumption
    done
qed

subsection \<open>Reachable databases\<close>

text \<open>The typing of the data of an action: weights are 16-bit numbers.\<close>

definition data_ok :: "native_data \<Rightarrow> bool" where
  "data_ok d \<longleftrightarrow> (case d of Newaccount creator n owner active \<Rightarrow> weights_ok owner \<and> weights_ok active
     | Updateauth up \<Rightarrow> weights_ok (up_auth up) | _ \<Rightarrow> True)"

definition genesis_ok :: "genesis \<Rightarrow> bool" where
  "genesis_ok g \<longleftrightarrow> (\<forall>a \<in> set (gen_accounts g). gen_name a \<noteq> 0)"

inductive auth_reachable :: "auth_db \<Rightarrow> bool" where
  genesis: "genesis_ok g \<Longrightarrow> initialize_chain_database g = Inr (db, effs) \<Longrightarrow> auth_reachable db"
| action: "auth_reachable db \<Longrightarrow> data_ok d \<Longrightarrow> apply_native nc d db = Inr (db', effs) \<Longrightarrow> auth_reachable db'"
| deferral: "auth_reachable db \<Longrightarrow> auth_reachable (db\<lparr>deferred := ds\<rparr>)"
| usage: "auth_reachable db \<Longrightarrow> update_permission_usage now p db = Inr db' \<Longrightarrow> auth_reachable db'"
| schedule: "auth_reachable db \<Longrightarrow> update_producers_authority s db = Inr db' \<Longrightarrow> auth_reachable db'"

lemma apply_newaccount_ok:
  assumes "apply_newaccount nc creator n owner active db = Inr (db', effs)" "perms_ok db" "weights_ok owner" "weights_ok active"
  shows "perms_ok db'"
proof -
  obtain r1 r2 accs where "create_permission (nc_time nc) n owner_name 0 owner 0 (db\<lparr>db_accounts := accs\<rparr>) = Inr r1"
    "create_permission (nc_time nc) n active_name (fst r1) active 0 (snd r1) = Inr r2" "n \<noteq> 0" "db' = snd r2"
    using assms(1) unfolding apply_newaccount_def require_authorization_def Let_def chk_Inr need_Inr bnd_Inr split_beta
    by (elim exE conjE) (rule that, assumption, assumption, auto)
  moreover have "perms_ok (db\<lparr>db_accounts := accs\<rparr>)" using assms(2) perms_ok_frame[of "db\<lparr>db_accounts := accs\<rparr>" db] by simp
  ultimately show ?thesis using create_account_permissions_ok[of _ n owner active] weights_nonneg_ok assms(3,4)
    by (metis prod.collapse)
qed

lemma apply_updateauth_ok:
  assumes "apply_updateauth nc up db = Inr (db', effs)" "perms_ok db" "weights_ok (up_auth up)"
  shows "perms_ok db'"
proof -
  let ?n = "up_permission up" and ?a = "up_account up"
  obtain found i where f: "find_permission db (?a, ?n) = Inr found"
    "(if ?n \<noteq> owner_name then bnd (get_permission db (?a, up_parent up)) (\<lambda>p. Inr (fst p)) else Inr 0) = Inr i" "?n \<noteq> 0"
    and r: "(case found of Some p \<Rightarrow> db' = modify_permission (nc_time nc) p (up_auth up) db
       | None \<Rightarrow> (\<exists>j. create_permission (nc_time nc) ?a ?n i (up_auth up) 0 db = Inr (j, db')))"
    using assms(1) unfolding apply_updateauth_def require_authorization_def Let_def chk_Inr bnd_Inr
    by (elim exE conjE) (rule that, assumption, assumption, auto simp: res_simps split: option.splits)
  have a: "?a \<noteq> 0" "found = find_by_owner db ?a ?n" using f(1) by (auto simp: find_permission_def res_simps)
  have p: "parent_ok db ?a i"
    using f(2) get_permission_row(5)[OF _ assms(2), of "(?a, up_parent up)"] parent_ok_0[OF assms(2)] by (auto simp: res_simps split: if_splits)
  note w = weights_nonneg_ok[OF assms(3)]
  show ?thesis
  proof (cases found)
    case None
    then show ?thesis using r create_permission_ok[OF assms(2) _ a(1) f(3) w p] by auto
  next
    case (Some q)
    then have "tbl_find (permissions db) (fst q) = Some (snd q)"
      using find_by_owner_Some(1)[OF _ perms_okD(1)[OF assms(2)]] a(2) by simp
    from replace_permission_ok[OF assms(2) this, of "(snd q)\<lparr>perm_auth := up_auth up, perm_last_updated := nc_time nc\<rparr>"]
    show ?thesis using Some r w by (simp add: modify_permission_def)
  qed
qed

lemma apply_deleteauth_ok:
  assumes "apply_deleteauth nc del db = Inr (db', effs)" "perms_ok db"
  shows "perms_ok db'"
proof -
  obtain p where p: "get_permission db (del_account del, del_permission del) = Inr p" "remove_permission p db = Inr db'"
    using assms(1) unfolding apply_deleteauth_def require_authorization_def chk_Inr bnd_Inr by (elim exE conjE) (rule that, auto)
  show ?thesis by (rule remove_permission_ok[OF assms(2) get_permission_row(1,4)[OF p(1) assms(2)] p(2)])
qed

lemma apply_native_frame:
  assumes "apply_native nc d db = Inr (db', effs)"
    "\<forall>creator n owner active. d \<noteq> Newaccount creator n owner active" "\<forall>up. d \<noteq> Updateauth up" "\<forall>del. d \<noteq> Deleteauth del"
  shows "permissions db' = permissions db \<and> next_permission_id db' = next_permission_id db"
  using assms
  by (cases d) (auto simp: apply_native_def apply_setcode_def apply_setabi_def apply_linkauth_def apply_unlinkauth_def
      apply_canceldelay_def cancel_deferred_transaction_def require_authorization_def Let_def res_simps split: option.splits)

lemma apply_native_ok:
  assumes "apply_native nc d db = Inr (db', effs)" "perms_ok db" "data_ok d"
  shows "perms_ok db'"
proof -
  consider (a) creator n owner active where "d = Newaccount creator n owner active" | (b) up where "d = Updateauth up"
    | (c) del where "d = Deleteauth del"
    | (d) "\<forall>creator n owner active. d \<noteq> Newaccount creator n owner active" "\<forall>up. d \<noteq> Updateauth up" "\<forall>del. d \<noteq> Deleteauth del" by blast
  then show ?thesis
  proof cases
    case a
    then show ?thesis using assms apply_newaccount_ok by (auto simp: apply_native_def data_ok_def)
  next
    case b
    then show ?thesis using assms apply_updateauth_ok by (auto simp: apply_native_def data_ok_def)
  next
    case c
    then show ?thesis using assms apply_deleteauth_ok by (auto simp: apply_native_def)
  next
    case d
    from apply_native_frame[OF assms(1) this] show ?thesis using perms_ok_frame[of db' db] assms(2) by simp
  qed
qed

lemma auth_reachable_ok: "auth_reachable db \<Longrightarrow> perms_ok db"
proof (induction rule: auth_reachable.induct)
  case (genesis g db effs)
  then show ?case using initialize_chain_database_ok[of g "(db, effs)"] by (simp add: genesis_ok_def)
next
  case (action db d nc db' effs)
  then show ?case using apply_native_ok by blast
next
  case (deferral db ds)
  then show ?case using perms_ok_frame[of "db\<lparr>deferred := ds\<rparr>" db] by simp
next
  case (usage db now p db')
  then show ?case using perms_ok_frame[of db' db] by (auto simp: update_permission_usage_def res_simps)
next
  case (schedule db s db')
  then show ?case using update_authority_ok(4) by blast
qed

subsection \<open>Soundness of the checks\<close>

lemma authority_of_pta_ok:
  assumes "perms_ok db" "permission_to_authority c = authority_of db"
  shows "pta_ok c"
  unfolding pta_ok_def
proof (intro allI impI)
  fix p a assume "permission_to_authority c p = Some a"
  then obtain r where r: "get_permission db p = Inr r" "a = perm_auth (snd r)"
    using assms(2) by (auto simp: authority_of_def split: sum.splits)
  have "perm_row_ok db (fst r) (snd r)" by (rule perms_okD(2)[OF assms(1) get_permission_row(1)[OF r(1) assms(1)]])
  then show "snd p \<noteq> 0 \<and> (\<forall>f\<in>set (meta_permission_set a). 0 \<le> meta_weight f)"
    using r by (auto simp: perm_row_ok_def weights_nonneg_def get_permission_def res_simps)
qed

text \<open>A level has authority over a permission: it names the permission itself or an ancestor in the tree of its account.\<close>

definition has_authority :: "auth_db \<Rightarrow> permission_level \<Rightarrow> permission_level \<Rightarrow> bool" where
  "has_authority db level required \<longleftrightarrow> (\<exists>p q. get_permission db level = Inr p \<and> get_permission db required = Inr q
     \<and> (fst p, fst q) \<in> (parents db)\<^sup>*)"

lemma require_satisfies_iff:
  assumes "perms_ok db" "get_permission db required = Inr q"
  shows "require_satisfies db level q = Inr () \<longleftrightarrow> has_authority db level required"
proof (cases "get_permission db level")
  case (Inl e)
  then show ?thesis by (simp add: require_satisfies_def has_authority_def)
next
  case (Inr p)
  have "satisfies db p q = Inr ((fst p, fst q) \<in> (parents db)\<^sup>*)"
    using satisfies_iff[OF assms(1) get_permission_row(1,4)[OF Inr assms(1)] get_permission_row(1,4)[OF assms(2,1)]] by simp
  then show ?thesis using Inr assms(2) by (auto simp: require_satisfies_def has_authority_def res_simps)
qed

text \<open>What a declared authorization of an action must have authority over: by the rules of the five native actions, or
  else the permission linked to the action, \<open>active\<close> when there is none, and nothing under the link \<open>any\<close>.\<close>

definition is_native_auth_action :: "chain_action \<Rightarrow> bool" where
  "is_native_auth_action act \<longleftrightarrow> act_account act = system_account_name \<and> act_name act \<in> set native_auth_actions"

definition minimum_ok :: "auth_db \<Rightarrow> chain_action \<Rightarrow> permission_level \<Rightarrow> bool" where
  "minimum_ok db act level \<longleftrightarrow>
     (case lookup_linked_permission db (fst level) (act_account act) (act_name act) of
        None \<Rightarrow> has_authority db level (fst level, active_name)
      | Some n \<Rightarrow> n = any_name \<or> has_authority db level (fst level, n))"

lemma check_native_special:
  "check_native_action db act d = Inr (b, t) \<Longrightarrow> b = is_native_auth_action act \<and> d \<le> t \<and> (t = d \<or> act_name act = canceldelay_name)"
  by (auto simp: check_native_action_def is_native_auth_action_def native_auth_actions_def res_simps split: if_splits native_data.splits)

text \<open>The map of the delays that remain to be checked: each entry is only ever lowered.\<close>

definition todo_from :: "int \<Rightarrow> ('k :: linorder, int) tbl \<Rightarrow> ('k, int) tbl \<Rightarrow> bool" where
  "todo_from d todo todo' \<longleftrightarrow> tbl_ok todo'
     \<and> (\<forall>l t. tbl_find todo l = Some t \<longrightarrow> (\<exists>t'. tbl_find todo' l = Some t' \<and> t' \<le> t))
     \<and> (\<forall>l t. tbl_find todo' l = Some t \<longrightarrow> d \<le> t \<or> tbl_find todo l = Some t)"

lemma todo_from_refl: "tbl_ok todo \<Longrightarrow> todo_from d todo todo"
  unfolding todo_from_def by blast

lemma todo_from_trans: "todo_from d a b \<Longrightarrow> todo_from d b c \<Longrightarrow> todo_from d a c"
  unfolding todo_from_def by (meson order_trans)

lemma todo_from_find: "todo_from d a b \<Longrightarrow> \<exists>t. tbl_find a l = Some t \<and> t \<le> u \<Longrightarrow> \<exists>t. tbl_find b l = Some t \<and> t \<le> u"
  unfolding todo_from_def by (meson order_trans)

lemma todo_put:
  assumes "tbl_ok todo" "todo' = (case tbl_find todo k of None \<Rightarrow> tbl_put k e todo | Some x \<Rightarrow> if x > e then tbl_put k e todo else todo)" "d \<le> e"
  shows "todo_from d todo todo' \<and> (\<exists>t. tbl_find todo' k = Some t \<and> t \<le> e)"
  using assms tbl_ok_put[OF assms(1)] tbl_find_put[OF assms(1)]
  by (auto simp: todo_from_def split: if_splits option.splits)

lemma check_declared_result:
  assumes "check_declared db sat act b e level todo = Inr todo'" "perms_ok db" "tbl_ok todo" "d \<le> e"
  shows "(b \<or> minimum_ok db act level) \<and> todo_from d todo todo'
    \<and> (level \<in> set sat \<or> (\<exists>t. tbl_find todo' level = Some t \<and> t \<le> e))"
proof -
  have "b \<or> minimum_ok db act level"
    using assms(1) require_satisfies_iff[OF assms(2), of "(fst level, _)"]
    by (auto simp: check_declared_def res_simps lookup_minimum_permission_def minimum_ok_def split: if_splits option.splits)
  moreover have "todo' = (if level \<in> set sat then todo else
      (case tbl_find todo level of None \<Rightarrow> tbl_put level e todo | Some x \<Rightarrow> if x > e then tbl_put level e todo else todo))"
    using assms(1) unfolding check_declared_def bnd_Inr by auto
  ultimately show ?thesis
    using todo_put[OF assms(3) _ assms(4)] todo_from_refl[OF assms(3)] by (cases "level \<in> set sat") simp_all
qed

lemma check_declared_all:
  assumes "for_each (check_declared db sat act b e) ls todo = Inr todo'" "perms_ok db" "tbl_ok todo" "d \<le> e"
  shows "todo_from d todo todo' \<and> (\<forall>level \<in> set ls. (b \<or> minimum_ok db act level)
    \<and> (level \<in> set sat \<or> (\<exists>t. tbl_find todo' level = Some t \<and> t \<le> e)))"
  using assms(1,3)
proof (induction ls arbitrary: todo)
  case Nil
  then show ?case using todo_from_refl by simp
next
  case (Cons l ls)
  then obtain todo1 where t: "check_declared db sat act b e l todo = Inr todo1"
    "for_each (check_declared db sat act b e) ls todo1 = Inr todo'" by (auto simp: res_simps)
  note h = check_declared_result[OF t(1) assms(2) Cons(3) assms(4)]
  then have "tbl_ok todo1" by (simp add: todo_from_def)
  note r = Cons(1)[OF t(2) this]
  have "todo_from d todo todo'" using h r todo_from_trans by blast
  moreover have "level \<in> set sat \<or> (\<exists>t. tbl_find todo' level = Some t \<and> t \<le> e)" if "level = l" for level
    using h r that todo_from_find[of d todo1 todo' l e] by blast
  ultimately show ?case using h r by auto
qed

definition action_checked :: "auth_db \<Rightarrow> permission_level list \<Rightarrow> int \<Rightarrow> (permission_level, int) tbl \<Rightarrow> chain_action \<Rightarrow> bool" where
  "action_checked db sat d todo act \<longleftrightarrow> (\<forall>level \<in> set (act_authorization act). (is_native_auth_action act \<or> minimum_ok db act level)
     \<and> (level \<in> set sat \<or> (\<exists>t. tbl_find todo level = Some t \<and> d \<le> t \<and> (t = d \<or> act_name act = canceldelay_name))))"

definition todo_above :: "int \<Rightarrow> ('k :: linorder, int) tbl \<Rightarrow> bool" where
  "todo_above d todo \<longleftrightarrow> tbl_ok todo \<and> (\<forall>l t. tbl_find todo l = Some t \<longrightarrow> d \<le> t)"

lemma todo_above_from: "todo_above d a \<Longrightarrow> todo_from d a b \<Longrightarrow> todo_above d b"
  unfolding todo_above_def todo_from_def by blast

lemma action_checked_from:
  assumes "action_checked db sat d a act" "todo_above d b" "todo_from d a b"
  shows "action_checked db sat d b act"
proof -
  have "\<exists>t'. tbl_find b l = Some t' \<and> d \<le> t' \<and> (t' = d \<or> act_name act = canceldelay_name)"
    if "tbl_find a l = Some t" "t = d \<or> act_name act = canceldelay_name" for l t
    using assms(2,3) that unfolding todo_above_def todo_from_def by (meson order_antisym)
  then show ?thesis using assms(1) unfolding action_checked_def by blast
qed

lemma check_action_result:
  assumes "check_action db sat d act todo = Inr todo'" "perms_ok db" "todo_above d todo"
  shows "todo_from d todo todo' \<and> action_checked db sat d todo' act"
proof -
  obtain b e where n: "check_native_action db act d = Inr (b, e)"
    "for_each (check_declared db sat act b e) (act_authorization act) todo = Inr todo'"
    using assms(1) by (auto simp: check_action_def res_simps)
  note s = check_native_special[OF n(1)]
  have ok: "tbl_ok todo" using assms(3) by (simp add: todo_above_def)
  note r = check_declared_all[OF n(2) assms(2) ok conjunct1[OF conjunct2[OF s]]]
  then have "todo_above d todo'" using todo_above_from assms(3) by blast
  then show ?thesis using r s unfolding action_checked_def todo_above_def by (meson order_antisym)
qed

lemma check_actions_result:
  assumes "for_each (check_action db sat d) acts todo = Inr todo'" "perms_ok db" "todo_above d todo"
  shows "todo_from d todo todo' \<and> (\<forall>act \<in> set acts. action_checked db sat d todo' act)"
  using assms(1,3)
proof (induction acts arbitrary: todo)
  case Nil
  then show ?case by (auto intro: todo_from_refl simp: todo_above_def)
next
  case (Cons a as)
  then obtain todo1 where t: "check_action db sat d a todo = Inr todo1" "for_each (check_action db sat d) as todo1 = Inr todo'"
    by (auto simp: res_simps)
  note h = check_action_result[OF t(1) assms(2) Cons(3)]
  then have 1: "todo_above d todo1" using todo_above_from Cons(3) by blast
  note r = Cons(1)[OF t(2) this]
  then have "todo_above d todo'" using todo_above_from 1 by blast
  then show ?case using h r action_checked_from todo_from_trans by (metis set_ConsD)
qed

lemma require_satisfied_all:
  assumes "for_each (require_satisfied c) todo marks = Inr marks'" "p \<in> set todo"
  shows "\<exists>m. fst (satisfied_permission_delay c (fst p) (snd p) m)"
  using assms by (induction todo arbitrary: marks) (auto simp: res_simps require_satisfied_def Let_def)

lemma check_authorization_sound_aux:
  assumes "perms_ok db" "check_authorization cfg db acts keys perms delay allow sat = Inr ()"
    and "act \<in> set acts" "level \<in> set (act_authorization act)"
  shows "(is_native_auth_action act \<or> minimum_ok db act level)
    \<and> (level \<in> set sat \<or> (\<exists>t \<ge> effective_delay cfg delay. (t = effective_delay cfg delay \<or> act_name act = canceldelay_name)
         \<and> perm_sat (fst (make_auth_checker (authority_of db) (max_authority_depth cfg) keys perms t)) level))"
proof -
  let ?d = "effective_delay cfg delay"
  obtain c marks where c: "make_auth_checker (authority_of db) (max_authority_depth cfg) keys perms ?d = (c, marks)" by force
  obtain todo marks' where t: "for_each (check_action db sat ?d) acts [] = Inr todo" "for_each (require_satisfied c) todo marks = Inr marks'"
    using assms(2) unfolding check_authorization_def Let_def c by (auto simp: res_simps)
  have e: "todo_above ?d []" by (simp add: todo_above_def tbl_find_Nil)
  note r = check_actions_result[OF t(1) assms(1) e]
  then have ok: "tbl_ok todo" by (simp add: todo_from_def)
  have "perm_sat (fst (make_auth_checker (authority_of db) (max_authority_depth cfg) keys perms u)) level"
    if "tbl_find todo level = Some u" for u
  proof -
    have "(level, u) \<in> set todo" using tbl_rows_find[OF ok] that by simp
    from require_satisfied_all[OF t(2) this] obtain m where "fst (satisfied_permission_delay c level u m)" by auto
    moreover have "c\<lparr>provided_delay := u\<rparr> = fst (make_auth_checker (authority_of db) (max_authority_depth cfg) keys perms u)"
      using c by (auto simp: make_auth_checker_def)
    moreover have "pta_ok (c\<lparr>provided_delay := u\<rparr>)"
      by (rule authority_of_pta_ok[OF assms(1)]) (use c in \<open>auto simp: make_auth_checker_def\<close>)
    ultimately show ?thesis using satisfied_permission_sound_aux by (simp add: satisfied_permission_delay_def)
  qed
  then show ?thesis using r assms(3,4) unfolding action_checked_def by blast
qed

subsection \<open>A small chain\<close>

definition demo_contract :: "account_name \<Rightarrow> system_contract" where
  "demo_contract n = \<lparr>sc_name = n, sc_code = [1, 2], sc_abi = [3]\<rparr>"

definition alice :: account_name where "alice = string_to_name ''alice''"
definition bob :: account_name where "bob = string_to_name ''bob''"
definition spend :: permission_name where "spend = string_to_name ''spend''"
definition demo_action_name :: action_name where "demo_action_name = string_to_name ''transfer''"

lemma demo_literals [code abstract]:
  "Word.the_int alice = 3773036822876127232" "Word.the_int bob = 4399453885987553280" "Word.the_int spend = 14219329122852667392" "Word.the_int demo_action_name = 14829575313431724032"
  by (simp_all add: alice_def bob_def spend_def demo_action_name_def string_to_name_eval)

definition demo_conf :: genesis where
  "demo_conf = \<lparr>gen_time = 5, gen_initial_key = 1,
     gen_accounts = [\<lparr>gen_name = alice, gen_key = 7\<rparr>, \<lparr>gen_name = bob, gen_key = 8\<rparr>],
     gen_system = demo_contract system_account_name, gen_token = demo_contract token_account_name,
     gen_msig = demo_contract msig_account_name, gen_relay = demo_contract relay_account_name,
     gen_native_abi = (\<lambda>_. [9]), gen_hash = (\<lambda>_. zero_digest), gen_pack_size = (\<lambda>_. 34)\<rparr>"

definition demo_nc :: "permission_level \<Rightarrow> native_context" where
  "demo_nc p = \<lparr>nc_authorization = [p], nc_time = 10, nc_max_delay = 100, nc_check_keys = True, nc_key_allowed = (\<lambda>_. True),
     nc_pack_size = (\<lambda>_. 34), nc_hash = (\<lambda>_. zero_digest), nc_wasm_valid = (\<lambda>_. True)\<rparr>"

definition demo_config :: auth_config where
  "demo_config = \<lparr>max_transaction_delay = 100, max_authority_depth = 6\<rparr>"

definition demo_auth_db :: auth_db where
  "demo_auth_db = (case initialize_chain_database demo_conf of Inr (db, effs) \<Rightarrow> db | Inl e \<Rightarrow> initialize_permissions)"

definition demo_transfer :: "permission_name \<Rightarrow> chain_action" where
  "demo_transfer p = \<lparr>act_account = token_account_name, act_name = demo_action_name, act_authorization = [(alice, p)], act_data = Other_data\<rparr>"

definition demo_link :: linkauth where
  "demo_link = \<lparr>lk_account = alice, lk_code = token_account_name, lk_type = demo_action_name, lk_requirement = majority_producers_permission_name\<rparr>"

lemma demo_reachable: "auth_reachable demo_auth_db"
proof -
  have "isl (initialize_chain_database demo_conf) = False" by code_simp
  then obtain db effs where g: "initialize_chain_database demo_conf = Inr (db, effs)" by (cases "initialize_chain_database demo_conf") auto
  have "genesis_ok demo_conf" by code_simp
  from auth_reachable.genesis[OF this g] show ?thesis using g by (simp add: demo_auth_db_def)
qed

definition demo_producers :: producer_schedule where
  "demo_producers = \<lparr>sched_version = 1, sched_producers = [\<lparr>producer_name = alice, key_of_producer = 7\<rparr>, \<lparr>producer_name = bob, key_of_producer = 8\<rparr>]\<rparr>"

subsection \<open>The authority of the producers\<close>

lemma authority_of_iff:
  assumes "perms_ok db"
  shows "authority_of db l = Some a \<longleftrightarrow> fst l \<noteq> 0 \<and> snd l \<noteq> 0
    \<and> (\<exists>i p. tbl_find (permissions db) i = Some p \<and> perm_owner p = fst l \<and> perm_name p = snd l \<and> perm_auth p = a)" (is "_ \<longleftrightarrow> ?R")
proof -
  have eq: "authority_of db l = Some a \<longleftrightarrow> (\<exists>r. get_permission db l = Inr r \<and> a = perm_auth (snd r))"
    by (auto simp: authority_of_def split: sum.splits)
  have "?R" if "get_permission db l = Inr r" "a = perm_auth (snd r)" for r
    using get_permission_row[OF that(1) assms] that by (auto simp: get_permission_def res_simps)
  moreover have "\<exists>r. get_permission db l = Inr r \<and> a = perm_auth (snd r)" if R: "?R"
  proof -
    obtain i p where p: "tbl_find (permissions db) i = Some p" "perm_owner p = fst l" "perm_name p = snd l" "perm_auth p = a" using R by blast
    then obtain r where r: "find_by_owner db (fst l) (snd l) = Some r"
      using find_by_owner_None[OF _ p(1) perms_okD(1)[OF assms]] by (cases "find_by_owner db (fst l) (snd l)") auto
    note fr = find_by_owner_Some[OF r perms_okD(1)[OF assms]]
    have "fst r = i" by (rule perms_okD(3)[OF assms fr(1) p(1)]) (simp_all add: fr p)
    then have "snd r = p" using fr(1) p(1) by simp
    then show ?thesis using r R p(4) by (auto simp: get_permission_def res_simps)
  qed
  ultimately show ?thesis using eq by blast
qed

lemma authority_of_update:
  assumes "perms_ok db" "update_permission_auth level auth db = Inr db'" "weights_nonneg auth"
  shows "authority_of db' l = (if l = level then Some auth else authority_of db l)"
proof -
  obtain r where r: "get_permission db level = Inr r"
    "db' = (if perm_auth (snd r) \<noteq> auth then db\<lparr>permissions := tbl_put (fst r) ((snd r)\<lparr>perm_auth := auth\<rparr>) (permissions db)\<rparr> else db)"
    using assms(2) by (auto simp: update_permission_auth_def res_simps)
  note row = get_permission_row[OF r(1) assms(1)] and ok' = update_permission_auth_ok[OF assms]
  have z: "fst level \<noteq> 0" "snd level \<noteq> 0" using r(1) by (auto simp: get_permission_def res_simps)
  have f: "tbl_find (permissions db') i = (if i = fst r then Some ((snd r)\<lparr>perm_auth := auth\<rparr>) else tbl_find (permissions db) i)" for i
    using r(2) row(1) tbl_find_put[OF perms_okD(1)[OF assms(1)]] by auto
  have "authority_of db' level = Some auth" using row(2,3) z by (auto simp: authority_of_iff[OF ok'] f)
  moreover have "authority_of db' l = Some a \<longleftrightarrow> authority_of db l = Some a" if "l \<noteq> level" for a
  proof -
    have "(tbl_find (permissions db') i = Some p \<and> perm_owner p = fst l \<and> perm_name p = snd l \<and> perm_auth p = a)
      \<longleftrightarrow> (tbl_find (permissions db) i = Some p \<and> perm_owner p = fst l \<and> perm_name p = snd l \<and> perm_auth p = a)" for i p
      using that row(1-3) by (cases l; cases level) (auto simp: f split: if_splits)
    then show ?thesis unfolding authority_of_iff[OF ok'] authority_of_iff[OF assms(1)] by blast
  qed
  ultimately show ?thesis by (metis option.exhaust)
qed

lemma weight_with_mset: "weight_with c S fs = (\<Sum>f\<in>#filter_mset (factor_ok c S) (mset fs). meta_weight f)"
  by (simp add: weight_with_def flip: sum_mset_sum_list mset_map mset_filter)

lemma auth_sat_accounts:
  "distinct ps \<Longrightarrow> auth_sat c (accounts_authority t ps) \<longleftrightarrow> t \<le> int (card {p \<in> set ps. perm_sat c p})"
proof -
  assume d: "distinct ps"
  let ?S = "{p. perm_sat c p}"
  have "weight_with c ?S (meta_permission_set (accounts_authority t ps))
      = weight_with c ?S (map (\<lambda>p. Account_permission \<lparr>plw_permission = p, plw_weight = 1\<rparr>) ps)"
    by (simp add: weight_with_mset meta_permission_set_def accounts_authority_def comp_def)
  also have "\<dots> = int (length (filter (perm_sat c) ps))"
    by (induction ps) (auto simp: weight_with_def factor_ok_def)
  also have "\<dots> = int (card {p \<in> set ps. perm_sat c p})"
    using d by (simp add: distinct_card[symmetric, of "filter (perm_sat c) ps"])
  finally show ?thesis by (simp add: auth_sat_def accounts_authority_def)
qed

lemma threshold_iff:
  assumes "int (length (sched_producers s)) < 2 ^ 30" "num \<in> {1, 2}" "den \<in> {2, 3}"
  shows "calculate_threshold s num den \<le> k \<longleftrightarrow> num * int (length (sched_producers s)) < den * k"
proof -
  let ?n = "int (length (sched_producers s))"
  have "?n * num < 2 ^ 31" using assms(1,2) by auto
  then have "u32 (?n * num) = ?n * num" using assms(2) by (auto simp: u32_def)
  moreover have "?n * num div den + 1 < 2 ^ 32" using \<open>?n * num < 2 ^ 31\<close> assms(3) by auto
  moreover have "0 \<le> ?n * num div den" using assms(2,3) by auto
  ultimately have "calculate_threshold s num den = ?n * num div den + 1" by (simp add: calculate_threshold_def u32_def)
  then show ?thesis using assms(3) by (auto simp: mult.commute)
qed

lemma producers_distinct: "distinct (map producer_name ps) \<Longrightarrow> distinct (map (\<lambda>p. (producer_name p, active_name)) ps)"
  by (simp add: distinct_map inj_on_def)

definition supporters :: "checker \<Rightarrow> producer_schedule \<Rightarrow> nat" where
  "supporters c s = card {a \<in> set (map producer_name (sched_producers s)). perm_sat c (a, active_name)}"

lemma producers_authority_sat:
  assumes "perms_ok db" "update_producers_authority s db = Inr db'" "distinct (map producer_name (sched_producers s))"
    and "int (length (sched_producers s)) < 2 ^ 30" "permission_to_authority c = authority_of db'"
    and "(name, num, den) \<in> {(active_name, 2, 3), (majority_producers_permission_name, 1, 2), (minority_producers_permission_name, 1, 3)}"
  shows "perm_sat c (producers_account_name, name) \<longleftrightarrow> provided c (producers_account_name, name)
     \<or> num * int (length (sched_producers s)) < den * int (supporters c s)"
proof -
  let ?ps = "map (\<lambda>p. (producer_name p, active_name)) (sched_producers s)"
  let ?u = "\<lambda>n t. update_permission_auth (producers_account_name, n) (accounts_authority t ?ps)"
  obtain db1 db2 where u: "?u active_name (calculate_threshold s 2 3) db = Inr db1"
    "?u majority_producers_permission_name (calculate_threshold s 1 2) db1 = Inr db2"
    "?u minority_producers_permission_name (calculate_threshold s 1 3) db2 = Inr db'"
    using assms(2) by (auto simp: update_producers_authority_def Let_def res_simps)
  note ok1 = update_permission_auth_ok[OF assms(1) u(1) authorities_nonneg(1)]
  note ok2 = update_permission_auth_ok[OF ok1 u(2) authorities_nonneg(1)]
  note ok' = update_permission_auth_ok[OF ok2 u(3) authorities_nonneg(1)]
  have ne: "active_name \<noteq> majority_producers_permission_name" "active_name \<noteq> minority_producers_permission_name"
    "majority_producers_permission_name \<noteq> minority_producers_permission_name" by code_simp+
  have a: "authority_of db' (producers_account_name, name) = Some (accounts_authority (calculate_threshold s num den) ?ps)"
    using assms(6) ne authority_of_update[OF ok2 u(3) authorities_nonneg(1)] authority_of_update[OF ok1 u(2) authorities_nonneg(1)]
      authority_of_update[OF assms(1) u(1) authorities_nonneg(1)] by auto
  have "{p \<in> set ?ps. perm_sat c p} = (\<lambda>a. (a, active_name)) ` {a \<in> set (map producer_name (sched_producers s)). perm_sat c (a, active_name)}"
    by auto
  then have card: "card {p \<in> set ?ps. perm_sat c p} = supporters c s" by (simp add: supporters_def card_image inj_on_def)
  have nd: "num \<in> {1, 2}" "den \<in> {2, 3}" using assms(6) by auto
  show ?thesis
    using perm_sat_iff[OF authority_of_pta_ok[OF ok' assms(5)], of "(producers_account_name, name)"] a assms(5)
      auth_sat_accounts[OF producers_distinct[OF assms(3)], of c] card threshold_iff[OF assms(4) nd] by simp
qed

subsection \<open>Properties\<close>

text \<open>C31. The type invariant of the permission database: in every database that genesis, native actions, updates of the
  usage and changes of the producer schedule can reach, ids ascend from parents to children, a parent exists and belongs to
  the same account, an account has at most one permission of a name, and permission 0 stays reserved.\<close>

theorem permission_tree_invariant:
  assumes "auth_reachable db"
  shows "perms_ok db"
  by (rule auth_reachable_ok[OF assms])

theorem permission_tree_invariant_witness: "perms_ok demo_auth_db"
  by (rule permission_tree_invariant[OF demo_reachable])

text \<open>C11. The loop of \<open>permission_object::satisfies\<close> implements the abstract hierarchy: on every reachable database it
  ends, follows no dangling parent, and answers whether the first permission is the second one or one of its ancestors.\<close>

theorem satisfies_refines_hierarchy:
  assumes "auth_reachable db" and "tbl_find (permissions db) i = Some p" and "i \<noteq> 0"
    and "tbl_find (permissions db) j = Some q" and "j \<noteq> 0"
  shows "satisfies db (i, p) (j, q) = Inr ((i, j) \<in> (parents db)\<^sup>*)"
  by (rule satisfies_iff[OF auth_reachable_ok[OF assms(1)] assms(2-5)])

theorem satisfies_refines_hierarchy_witness:
  "\<exists>p q. satisfies demo_auth_db (1, p) (2, q) = Inr ((1, 2) \<in> (parents demo_auth_db)\<^sup>*)"
proof -
  have "tbl_find (permissions demo_auth_db) 1 \<noteq> None \<and> tbl_find (permissions demo_auth_db) 2 \<noteq> None" by code_simp
  then obtain p q where "tbl_find (permissions demo_auth_db) 1 = Some p" "tbl_find (permissions demo_auth_db) 2 = Some q" by blast
  from satisfies_refines_hierarchy[OF demo_reachable this(1) _ this(2)] show ?thesis by force
qed



text \<open>C32. After \<open>update_producers_authority\<close> the account of the producers acts exactly when enough producers do: its \<open>active\<close>
  permission needs more than two thirds of the scheduled producers, \<open>prod.major\<close> more than one half and \<open>prod.minor\<close> more
  than one third, where a producer counts when its own \<open>active\<close> permission is satisfied.\<close>

theorem producers_authority_thresholds:
  assumes "auth_reachable db" and "update_producers_authority s db = Inr db'" and "distinct (map producer_name (sched_producers s))"
    and "int (length (sched_producers s)) < 2 ^ 30" and "permission_to_authority c = authority_of db'"
    and "(name, num, den) \<in> {(active_name, 2, 3), (majority_producers_permission_name, 1, 2), (minority_producers_permission_name, 1, 3)}"
  shows "perm_sat c (producers_account_name, name) \<longleftrightarrow> provided c (producers_account_name, name)
     \<or> num * int (length (sched_producers s)) < den * int (supporters c s)"
  by (rule producers_authority_sat[OF auth_reachable_ok[OF assms(1)] assms(2-6)])

theorem producers_authority_thresholds_witness:
  "\<exists>db' c. update_producers_authority demo_producers demo_auth_db = Inr db' \<and> permission_to_authority c = authority_of db'
     \<and> (perm_sat c (producers_account_name, active_name) \<longleftrightarrow> 4 < 3 * int (supporters c demo_producers))"
proof -
  have "isl (update_producers_authority demo_producers demo_auth_db) = False" by code_simp
  then obtain db' where u: "update_producers_authority demo_producers demo_auth_db = Inr db'"
    by (cases "update_producers_authority demo_producers demo_auth_db") auto
  let ?c = "fst (make_auth_checker (authority_of db') 6 [7, 8] [] 0)"
  have d: "distinct (map producer_name (sched_producers demo_producers))" by code_simp
  have c: "permission_to_authority ?c = authority_of db'" "\<not> provided ?c (producers_account_name, active_name)"
    by (simp_all add: make_auth_checker_def provided_def)
  from producers_authority_thresholds[OF demo_reachable u d _ c(1), of active_name 2 3] c u
  show ?thesis by (intro exI[of _ db'] exI[of _ ?c]) (simp add: demo_producers_def)
qed


end
