(* ===== verification/Msig.thy ===== *)
theory Msig
  imports Authorization
begin

text \<open>
  The contract \<open>force.msig\<close> (\<open>force.msig.cpp\<close>): proposed transactions that run once enough of the requested permissions
  have approved them. The contract asks the node whether a list of permissions authorises a transaction; the node answers
  with \<open>check_authorization\<close> of the authorization manager, and the account of the contract is privileged, so that the
  deferred transaction is not checked again. A packed transaction is kept unpacked.
\<close>

record approvals_info =
  requested_approvals :: "permission_level list"
  provided_approvals :: "permission_level list"

type_synonym proposal_key = "account_name \<times> name"

record msig_state =
  proposals :: "(proposal_key, transaction) tbl"
  approvals :: "(proposal_key, approvals_info) tbl"

text \<open>What the contract sees: the authorizations of the action, the time, and the answer of the node.\<close>

record msig_context =
  ms_authorization :: "permission_level list"
  ms_now :: int
  ms_cfg :: auth_config
  ms_db :: auth_db

definition ms_require_auth :: "msig_context \<Rightarrow> account_name \<Rightarrow> contract_error + 'a \<Rightarrow> contract_error + 'a" where
  "ms_require_auth ctx a k = chk (list_ex (\<lambda>p. fst p = a) (ms_authorization ctx)) (Missing_auth a) k"

definition ms_require_level :: "msig_context \<Rightarrow> permission_level \<Rightarrow> contract_error + 'a \<Rightarrow> contract_error + 'a" where
  "ms_require_level ctx level k = chk (list_ex (\<lambda>p. p = level) (ms_authorization ctx)) (Missing_auth (fst level)) k"

text \<open>The intrinsic \<open>check_transaction_authorization\<close> without keys: a failed check is the answer no, or an exception that
  ends the action; both end in an error of the action.\<close>

definition check_transaction_authorization :: "msig_context \<Rightarrow> transaction \<Rightarrow> permission_level list \<Rightarrow> bool" where
  "check_transaction_authorization ctx trx perms \<longleftrightarrow>
     check_authorization (ms_cfg ctx) (ms_db ctx) (trx_actions trx) [] perms (trx_delay_sec trx * 1000000) False [] = Inr ()"

definition propose :: "msig_context \<Rightarrow> account_name \<Rightarrow> name \<Rightarrow> permission_level list \<Rightarrow> transaction \<Rightarrow> msig_state \<Rightarrow> contract_error + msig_state" where
  "propose ctx proposer proposal_name requested trx s =
     ms_require_auth ctx proposer
     (chk (trx_expiration trx \<ge> ms_now ctx) (Assert ''transaction expired'')
     (chk (tbl_find (proposals s) (proposer, proposal_name) = None) (Assert ''proposal with the same name exists'')
     (chk (check_transaction_authorization ctx trx requested) (Assert ''transaction authorization failed'')
     (chk (tbl_find (approvals s) (proposer, proposal_name) = None) Table_error
       (Inr (s\<lparr>proposals := tbl_put (proposer, proposal_name) trx (proposals s),
               approvals := tbl_put (proposer, proposal_name) \<lparr>requested_approvals = requested, provided_approvals = []\<rparr> (approvals s)\<rparr>))))))"

definition approve :: "msig_context \<Rightarrow> account_name \<Rightarrow> name \<Rightarrow> permission_level \<Rightarrow> msig_state \<Rightarrow> contract_error + msig_state" where
  "approve ctx proposer proposal_name level s =
     ms_require_level ctx level
     (need (tbl_find (approvals s) (proposer, proposal_name)) (Assert ''proposal not found'') (\<lambda>apps.
      chk (level \<in> set (requested_approvals apps)) (Assert ''approval is not on the list of requested approvals'')
       (Inr (s\<lparr>approvals := tbl_put (proposer, proposal_name)
          (apps\<lparr>provided_approvals := provided_approvals apps @ [level],
                requested_approvals := remove1 level (requested_approvals apps)\<rparr>) (approvals s)\<rparr>))))"

definition unapprove :: "msig_context \<Rightarrow> account_name \<Rightarrow> name \<Rightarrow> permission_level \<Rightarrow> msig_state \<Rightarrow> contract_error + msig_state" where
  "unapprove ctx proposer proposal_name level s =
     ms_require_level ctx level
     (need (tbl_find (approvals s) (proposer, proposal_name)) (Assert ''proposal not found'') (\<lambda>apps.
      chk (level \<in> set (provided_approvals apps)) (Assert ''no approval previously granted'')
       (Inr (s\<lparr>approvals := tbl_put (proposer, proposal_name)
          (apps\<lparr>requested_approvals := requested_approvals apps @ [level],
                provided_approvals := remove1 level (provided_approvals apps)\<rparr>) (approvals s)\<rparr>))))"

definition erase_proposal :: "account_name \<Rightarrow> name \<Rightarrow> msig_state \<Rightarrow> msig_state" where
  "erase_proposal proposer proposal_name s =
     s\<lparr>proposals := tbl_del (proposer, proposal_name) (proposals s), approvals := tbl_del (proposer, proposal_name) (approvals s)\<rparr>"

definition cancel :: "msig_context \<Rightarrow> account_name \<Rightarrow> name \<Rightarrow> account_name \<Rightarrow> msig_state \<Rightarrow> contract_error + msig_state" where
  "cancel ctx proposer proposal_name canceler s =
     ms_require_auth ctx canceler
     (need (tbl_find (proposals s) (proposer, proposal_name)) (Assert ''proposal not found'') (\<lambda>prop.
      chk (canceler \<noteq> proposer \<longrightarrow> trx_expiration prop < ms_now ctx) (Assert ''cannot cancel until expiration'')
      (need (tbl_find (approvals s) (proposer, proposal_name)) (Assert ''proposal not found'') (\<lambda>apps.
       Inr (erase_proposal proposer proposal_name s)))))"

text \<open>Returns the deferred transaction with its sender id and payer.\<close>

definition exec :: "msig_context \<Rightarrow> account_name \<Rightarrow> name \<Rightarrow> account_name \<Rightarrow> msig_state
    \<Rightarrow> contract_error + msig_state \<times> (int \<times> account_name \<times> transaction)" where
  "exec ctx proposer proposal_name executer s =
     ms_require_auth ctx executer
     (need (tbl_find (proposals s) (proposer, proposal_name)) (Assert ''proposal not found'') (\<lambda>prop.
      need (tbl_find (approvals s) (proposer, proposal_name)) (Assert ''proposal not found'') (\<lambda>apps.
      chk (trx_expiration prop \<ge> ms_now ctx) (Assert ''transaction expired'')
      (chk (check_transaction_authorization ctx prop (provided_approvals apps)) (Assert ''transaction authorization failed'')
       (Inr (erase_proposal proposer proposal_name s, (uint proposer * 2 ^ 64 + uint proposal_name, executer, prop)))))))"

subsection \<open>Runs\<close>

datatype msig_action =
    Propose account_name name "permission_level list" transaction
  | Approve account_name name permission_level
  | Unapprove account_name name permission_level
  | Cancel account_name name account_name
  | Exec account_name name account_name

definition msig_apply :: "msig_context \<Rightarrow> msig_action \<Rightarrow> msig_state \<Rightarrow> contract_error + msig_state" where
  "msig_apply ctx a s =
     (case a of
        Propose proposer n requested trx \<Rightarrow> propose ctx proposer n requested trx s
      | Approve proposer n level \<Rightarrow> approve ctx proposer n level s
      | Unapprove proposer n level \<Rightarrow> unapprove ctx proposer n level s
      | Cancel proposer n canceler \<Rightarrow> cancel ctx proposer n canceler s
      | Exec proposer n executer \<Rightarrow> bnd (exec ctx proposer n executer s) (\<lambda>r. Inr (fst r)))"

definition msig_empty :: msig_state where
  "msig_empty = \<lparr>proposals = [], approvals = []\<rparr>"

text \<open>A run is the list of the successful actions, the latest first.\<close>

inductive msig_run :: "(msig_context \<times> msig_action) list \<Rightarrow> msig_state \<Rightarrow> bool" where
  start: "msig_run [] msig_empty"
| step: "msig_run h s \<Longrightarrow> msig_apply ctx a s = Inr s' \<Longrightarrow> msig_run ((ctx, a) # h) s'"

text \<open>The proposal that is open under a key after a run, and how often a permission has approved it, less how often it
  has withdrawn its approval. Both are read from the run alone.\<close>

fun open_proposal :: "proposal_key \<Rightarrow> (msig_context \<times> msig_action) list \<Rightarrow> transaction option" where
  "open_proposal k [] = None"
| "open_proposal k ((ctx, a) # h) =
     (case a of Propose proposer n requested trx \<Rightarrow> if k = (proposer, n) then Some trx else open_proposal k h
      | Cancel proposer n c \<Rightarrow> if k = (proposer, n) then None else open_proposal k h
      | Exec proposer n c \<Rightarrow> if k = (proposer, n) then None else open_proposal k h
      | _ \<Rightarrow> open_proposal k h)"

fun standing :: "proposal_key \<Rightarrow> permission_level \<Rightarrow> (msig_context \<times> msig_action) list \<Rightarrow> int" where
  "standing k l [] = 0"
| "standing k l ((ctx, a) # h) =
     (case a of Approve proposer n level \<Rightarrow> standing k l h + (if k = (proposer, n) \<and> level = l then 1 else 0)
      | Unapprove proposer n level \<Rightarrow> standing k l h - (if k = (proposer, n) \<and> level = l then 1 else 0)
      | Propose proposer n requested trx \<Rightarrow> if k = (proposer, n) then 0 else standing k l h
      | _ \<Rightarrow> standing k l h)"

definition msig_inv :: "(msig_context \<times> msig_action) list \<Rightarrow> msig_state \<Rightarrow> bool" where
  "msig_inv h s \<longleftrightarrow> tbl_ok (proposals s) \<and> tbl_ok (approvals s)
     \<and> (\<forall>k. tbl_find (proposals s) k = open_proposal k h \<and> (tbl_find (approvals s) k = None \<longleftrightarrow> open_proposal k h = None)
         \<and> (\<forall>apps l. tbl_find (approvals s) k = Some apps \<longrightarrow> int (count (mset (provided_approvals apps)) l) = standing k l h))"

text \<open>Every approval in a run carries the authorization of the permission that approves.\<close>

definition approvals_authorized :: "(msig_context \<times> msig_action) list \<Rightarrow> bool" where
  "approvals_authorized h \<longleftrightarrow> (\<forall>ctx proposer n level. (ctx, Approve proposer n level) \<in> set h \<longrightarrow> level \<in> set (ms_authorization ctx))"

lemma msig_invD:
  assumes "msig_inv h s"
  shows "tbl_ok (proposals s)" "tbl_ok (approvals s)" "tbl_find (proposals s) k = open_proposal k h"
    "tbl_find (approvals s) k = None \<longleftrightarrow> open_proposal k h = None"
    "tbl_find (approvals s) k = Some apps \<Longrightarrow> int (count (mset (provided_approvals apps)) l) = standing k l h"
  using assms unfolding msig_inv_def by blast+

lemma msig_invI:
  assumes "tbl_ok (proposals s)" "tbl_ok (approvals s)" "\<And>k. tbl_find (proposals s) k = open_proposal k h"
    "\<And>k. tbl_find (approvals s) k = None \<longleftrightarrow> open_proposal k h = None"
    "\<And>k apps l. tbl_find (approvals s) k = Some apps \<Longrightarrow> int (count (mset (provided_approvals apps)) l) = standing k l h"
  shows "msig_inv h s"
  using assms unfolding msig_inv_def by blast

lemma propose_inv:
  assumes "msig_inv h s" "propose ctx proposer n requested trx s = Inr s'"
  shows "msig_inv ((ctx, Propose proposer n requested trx) # h) s'"
proof -
  have s': "proposals s' = tbl_put (proposer, n) trx (proposals s)"
    "approvals s' = tbl_put (proposer, n) \<lparr>requested_approvals = requested, provided_approvals = []\<rparr> (approvals s)"
    using assms(2) by (auto simp: propose_def ms_require_auth_def res_simps)
  note d = msig_invD[OF assms(1)]
  show ?thesis
    by (rule msig_invI) (auto simp: s' tbl_ok_put d(1,2,5) tbl_find_put[OF d(1)] tbl_find_put[OF d(2)] d(3,4) split: if_splits)
qed

lemma set_approvals_inv:
  assumes "msig_inv h s" "tbl_find (approvals s) k = Some apps"
    "s' = s\<lparr>approvals := tbl_put k apps' (approvals s)\<rparr>"
    "\<And>k'. open_proposal k' h' = open_proposal k' h" "\<And>k' l. k' \<noteq> k \<Longrightarrow> standing k' l h' = standing k' l h"
    "\<And>l. int (count (mset (provided_approvals apps')) l) = standing k l h'"
  shows "msig_inv h' s'"
proof -
  note d = msig_invD[OF assms(1)]
  have o: "open_proposal k h \<noteq> None" using d(4)[of k] assms(2) by simp
  have f: "tbl_find (approvals s') k' = (if k' = k then Some apps' else tbl_find (approvals s) k')" for k'
    using tbl_find_put[OF d(2)] assms(3) by simp
  show ?thesis
  proof (rule msig_invI)
    show "tbl_find (approvals s') k' = None \<longleftrightarrow> open_proposal k' h' = None" for k'
      using d(4)[of k'] o by (simp add: f assms(4))
    show "int (count (mset (provided_approvals a)) l) = standing k' l h'" if "tbl_find (approvals s') k' = Some a" for k' a l
      using that d(5)[of k' a l] assms(5,6) unfolding f by (auto split: if_splits)
  qed (simp_all add: assms(3,4) d tbl_ok_put)
qed

lemma approve_inv:
  assumes "msig_inv h s" "approve ctx proposer n level s = Inr s'"
  shows "msig_inv ((ctx, Approve proposer n level) # h) s'"
proof -
  obtain apps where a: "tbl_find (approvals s) (proposer, n) = Some apps"
    "s' = s\<lparr>approvals := tbl_put (proposer, n) (apps\<lparr>provided_approvals := provided_approvals apps @ [level],
                requested_approvals := remove1 level (requested_approvals apps)\<rparr>) (approvals s)\<rparr>"
    using assms(2) by (auto simp: approve_def ms_require_level_def res_simps)
  show ?thesis by (rule set_approvals_inv[OF assms(1) a]) (auto simp: msig_invD(5)[OF assms(1) a(1)])
qed

lemma unapprove_inv:
  assumes "msig_inv h s" "unapprove ctx proposer n level s = Inr s'"
  shows "msig_inv ((ctx, Unapprove proposer n level) # h) s'"
proof -
  obtain apps where a: "tbl_find (approvals s) (proposer, n) = Some apps"
    "s' = s\<lparr>approvals := tbl_put (proposer, n) (apps\<lparr>requested_approvals := requested_approvals apps @ [level],
                provided_approvals := remove1 level (provided_approvals apps)\<rparr>) (approvals s)\<rparr>"
    and l: "level \<in> set (provided_approvals apps)"
    using assms(2) by (auto simp: unapprove_def ms_require_level_def res_simps)
  have "0 < count (mset (provided_approvals apps)) level" using l by (simp add: count_greater_zero_iff)
  then show ?thesis by (intro set_approvals_inv[OF assms(1) a]) (auto simp: msig_invD(5)[OF assms(1) a(1), symmetric])
qed

lemma erase_inv:
  assumes "msig_inv h s" "\<And>k. open_proposal k h' = (if k = (proposer, n) then None else open_proposal k h)"
    "\<And>k l. k \<noteq> (proposer, n) \<Longrightarrow> standing k l h' = standing k l h"
  shows "msig_inv h' (erase_proposal proposer n s)"
proof -
  note d = msig_invD[OF assms(1)]
  show ?thesis
    by (rule msig_invI) (auto simp: erase_proposal_def tbl_ok_del d(1-3,5) tbl_find_del assms(2,3) d(4) split: if_splits)
qed

lemma msig_apply_inv:
  assumes "msig_inv h s" "msig_apply ctx a s = Inr s'"
  shows "msig_inv ((ctx, a) # h) s'"
proof (cases a)
  case (Cancel proposer n c)
  then have "s' = erase_proposal proposer n s" using assms(2) by (auto simp: msig_apply_def cancel_def ms_require_auth_def res_simps)
  then show ?thesis using erase_inv[OF assms(1), of "(ctx, a) # h" proposer n] Cancel by simp
next
  case (Exec proposer n c)
  then have "s' = erase_proposal proposer n s" using assms(2) by (auto simp: msig_apply_def exec_def ms_require_auth_def res_simps)
  then show ?thesis using erase_inv[OF assms(1), of "(ctx, a) # h" proposer n] Exec by simp
qed (use assms in \<open>simp_all add: msig_apply_def propose_inv approve_inv unapprove_inv\<close>)

lemma msig_run_inv: "msig_run h s \<Longrightarrow> msig_inv h s"
proof (induction rule: msig_run.induct)
  case start
  show ?case by (rule msig_invI) (simp_all add: msig_empty_def tbl_find_Nil)
next
  case (step h s ctx a s')
  then show ?case using msig_apply_inv by blast
qed

lemma msig_run_authorized: "msig_run h s \<Longrightarrow> approvals_authorized h"
proof (induction rule: msig_run.induct)
  case start
  show ?case by (simp add: approvals_authorized_def)
next
  case (step h s ctx a s')
  have "level \<in> set (ms_authorization ctx)" if "a = Approve proposer n level" for proposer n level
    using step(2) that by (auto simp: msig_apply_def approve_def ms_require_level_def res_simps list_ex_iff)
  then show ?case using step(3) unfolding approvals_authorized_def by auto
qed

lemma standing_approved: "0 < standing k l h \<Longrightarrow> \<exists>ctx. (ctx, Approve (fst k) (snd k) l) \<in> set h"
proof (induction h)
  case (Cons e h)
  then show ?case by (cases e) (auto split: msig_action.splits if_splits)
qed simp

lemma exec_approved:
  assumes "msig_run h s" "exec ctx proposer n executer s = Inr (s', sender_id, payer, trx)"
  shows "open_proposal (proposer, n) h = Some trx \<and> (\<exists>perms. check_transaction_authorization ctx trx perms
    \<and> (\<forall>l \<in> set perms. 0 < standing (proposer, n) l h \<and> (\<exists>c. (c, Approve proposer n l) \<in> set h \<and> l \<in> set (ms_authorization c))))"
proof -
  obtain apps where a: "tbl_find (proposals s) (proposer, n) = Some trx" "tbl_find (approvals s) (proposer, n) = Some apps"
    "check_transaction_authorization ctx trx (provided_approvals apps)"
    using assms(2) by (auto simp: exec_def ms_require_auth_def res_simps)
  note d = msig_invD[OF msig_run_inv[OF assms(1)]]
  have st: "0 < standing (proposer, n) l h" if "l \<in> set (provided_approvals apps)" for l
    using that d(5)[OF a(2), of l] by (metis count_greater_zero_iff of_nat_0_less_iff set_mset_mset)
  moreover have "\<exists>c. (c, Approve proposer n l) \<in> set h \<and> l \<in> set (ms_authorization c)" if "l \<in> set (provided_approvals apps)" for l
    using standing_approved[OF st[OF that]] msig_run_authorized[OF assms(1)] unfolding approvals_authorized_def by fastforce
  ultimately have "\<forall>l \<in> set (provided_approvals apps). 0 < standing (proposer, n) l h
    \<and> (\<exists>c. (c, Approve proposer n l) \<in> set h \<and> l \<in> set (ms_authorization c))" by blast
  moreover have "open_proposal (proposer, n) h = Some trx" using a(1) d(3)[of "(proposer, n)"] by simp
  ultimately show ?thesis using a(3) by (intro conjI exI[of _ "provided_approvals apps"])
qed

lemma exec_sound:
  assumes "msig_run h s" "auth_reachable (ms_db ctx)" "exec ctx proposer n executer s = Inr (s', sender_id, payer, trx)"
  shows "open_proposal (proposer, n) h = Some trx \<and> (\<exists>perms.
    (\<forall>l \<in> set perms. 0 < standing (proposer, n) l h \<and> (\<exists>c. (c, Approve proposer n l) \<in> set h \<and> l \<in> set (ms_authorization c)))
    \<and> (\<forall>act \<in> set (trx_actions trx). \<forall>level \<in> set (act_authorization act). (is_native_auth_action act \<or> minimum_ok (ms_db ctx) act level)
        \<and> (\<exists>t. perm_sat (fst (make_auth_checker (authority_of (ms_db ctx)) (max_authority_depth (ms_cfg ctx)) [] perms t)) level)))"
proof -
  obtain perms where p: "open_proposal (proposer, n) h = Some trx"
    "\<forall>l \<in> set perms. 0 < standing (proposer, n) l h \<and> (\<exists>c. (c, Approve proposer n l) \<in> set h \<and> l \<in> set (ms_authorization c))"
    "check_authorization (ms_cfg ctx) (ms_db ctx) (trx_actions trx) [] perms (trx_delay_sec trx * 1000000) False [] = Inr ()"
    using exec_approved[OF assms(1,3)] unfolding check_transaction_authorization_def by blast
  note c = check_authorization_sound_aux[OF auth_reachable_ok[OF assms(2)] p(3)]
  have "(is_native_auth_action act \<or> minimum_ok (ms_db ctx) act level)
      \<and> (\<exists>t. perm_sat (fst (make_auth_checker (authority_of (ms_db ctx)) (max_authority_depth (ms_cfg ctx)) [] perms t)) level)"
    if "act \<in> set (trx_actions trx)" "level \<in> set (act_authorization act)" for act level
    using c[OF that] by auto
  then show ?thesis using p(1,2) by blast
qed

subsection \<open>Properties\<close>

definition demo_ms :: "permission_level \<Rightarrow> msig_context" where
  "demo_ms p = \<lparr>ms_authorization = [p], ms_now = 10, ms_cfg = demo_config, ms_db = demo_auth_db\<rparr>"

definition demo_trx :: transaction where
  "demo_trx = \<lparr>trx_expiration = 20, trx_ref_block_num = 0, trx_ref_block_prefix = 0, trx_max_net_usage_words = 0,
     trx_max_cpu_usage_ms = 0, trx_delay_sec = 0, trx_context_free_actions = [], trx_actions = [demo_transfer active_name], trx_extensions = []\<rparr>"

definition demo_history :: "(msig_context \<times> msig_action) list" where
  "demo_history = [(demo_ms (alice, active_name), Approve bob 5 (alice, active_name)),
     (demo_ms (bob, active_name), Propose bob 5 [(alice, active_name)] demo_trx)]"

definition demo_approved :: msig_state where
  "demo_approved = \<lparr>proposals = [((bob, 5), demo_trx)],
     approvals = [((bob, 5), \<lparr>requested_approvals = [], provided_approvals = [(alice, active_name)]\<rparr>)]\<rparr>"

lemma demo_check: "check_transaction_authorization (demo_ms p) demo_trx [(alice, active_name)]"
  unfolding check_transaction_authorization_def demo_ms_def demo_trx_def by simp code_simp

lemma demo_msig_run: "msig_run demo_history demo_approved"
proof -
  let ?s = "\<lparr>proposals = [((bob, 5), demo_trx)], approvals = [((bob, 5), \<lparr>requested_approvals = [(alice, active_name)], provided_approvals = []\<rparr>)]\<rparr>"
  have "msig_apply (demo_ms (bob, active_name)) (Propose bob 5 [(alice, active_name)] demo_trx) msig_empty = Inr ?s"
    using demo_check by (simp add: msig_apply_def propose_def ms_require_auth_def msig_empty_def tbl_find_def demo_ms_def demo_trx_def)
  from msig_run.step[OF msig_run.start this]
  have 1: "msig_run [(demo_ms (bob, active_name), Propose bob 5 [(alice, active_name)] demo_trx)] ?s" .
  have "msig_apply (demo_ms (alice, active_name)) (Approve bob 5 (alice, active_name)) ?s = Inr demo_approved"
    by (simp add: msig_apply_def approve_def ms_require_level_def tbl_find_def demo_ms_def demo_approved_def)
  from msig_run.step[OF 1 this] show ?thesis by (simp add: demo_history_def)
qed



end
