(* ===== verification/System_State.thy ===== *)
theory System_State
  imports Contract
begin

text \<open>
  The tables of the contract \<open>force.system\<close> (\<open>force.system.hpp\<close>) and the arithmetic on amounts of the core token.

  Every asset in these tables is an amount of \<open>CORE_SYMBOL\<close>: the actions check the symbol of what they are given, and the
  constructor of an asset uses it as default. The tables therefore hold amounts, and the operators of \<open>asset\<close> are the
  functions \<open>core_add\<close> to \<open>core_div\<close>, which abort exactly when the operators do.
\<close>

subsection \<open>Amounts of the core token\<close>

definition core :: "int \<Rightarrow> asset" where
  "core a = \<lparr>amount = a, symbol = CORE_SYMBOL\<rparr>"

definition CORE_SYMBOL_PRECISION :: int where "CORE_SYMBOL_PRECISION = 10000"

definition core_range :: "int \<Rightarrow> contract_error + int" where
  "core_range r = chk (- max_amount \<le> r) (Assert ''underflow'') (chk (r \<le> max_amount) (Assert ''overflow'') (Inr r))"

definition core_add :: "int \<Rightarrow> int \<Rightarrow> contract_error + int" where
  "core_add x a = core_range (s64 (x + a))"

definition core_sub :: "int \<Rightarrow> int \<Rightarrow> contract_error + int" where
  "core_sub x a = core_range (s64 (x - a))"

definition core_neg :: "int \<Rightarrow> int" where
  "core_neg x = s64 (- x)"

definition core_mult :: "int \<Rightarrow> int \<Rightarrow> contract_error + int" where
  "core_mult x a =
     (let tmp = s128 (x * a) in
      chk (tmp \<le> max_amount) (Assert ''multiplication overflow'')
       (chk (tmp \<ge> - max_amount) (Assert ''multiplication underflow'') (Inr (s64 tmp))))"

definition core_div :: "int \<Rightarrow> int \<Rightarrow> contract_error + int" where
  "core_div x a =
     chk (a \<noteq> 0) (Assert ''divide by zero'')
      (chk (\<not> (x = INT64_MIN \<and> a = -1)) (Assert ''signed division overflow'') (Inr (tdiv x a)))"

text \<open>\<open>asset(a)\<close>: the constructor with the default symbol.\<close>

definition core_asset :: "int \<Rightarrow> contract_error + int" where
  "core_asset a =
     (let r = s64 a in
      chk (- max_amount \<le> r \<and> r \<le> max_amount) (Assert ''magnitude of asset amount must be less than 2^62'') (Inr r))"

definition same_result :: "contract_error + int \<Rightarrow> contract_error + asset \<Rightarrow> bool" where
  "same_result m r \<longleftrightarrow> (case m of Inr a \<Rightarrow> r = Inr (core a) | Inl _ \<Rightarrow> (\<exists>e. r = Inl e))"

lemma core_ops:
  "same_result (core_add x a) (asset_add (core x) (core a))"
  "same_result (core_sub x a) (asset_sub (core x) (core a))"
  "same_result (core_mult x b) (asset_mult (core x) b)"
  "same_result (core_div x b) (asset_div (core x) b)"
  "same_result (core_asset b) (mk_asset b CORE_SYMBOL)"
  "core (core_neg x) = asset_neg (core x)"
  using CORE_SYMBOL_valid
  by (auto simp: same_result_def core_def core_add_def core_sub_def core_mult_def core_div_def core_range_def core_asset_def core_neg_def
      asset_add_def asset_sub_def asset_mult_def asset_div_def mk_asset_def asset_neg_def is_amount_within_range_def Let_def res_simps
      split: sum.splits)

text \<open>On amounts in range the operators are exact.\<close>

definition in_range :: "int \<Rightarrow> bool" where
  "in_range a \<longleftrightarrow> - max_amount \<le> a \<and> a \<le> max_amount"

named_theorems core_simps \<open>when an operation on core amounts succeeds, and its result\<close>

lemma core_add_Inr [core_simps]:
  "in_range x \<Longrightarrow> in_range a \<Longrightarrow> core_add x a = Inr r \<longleftrightarrow> in_range (x + a) \<and> r = x + a"
  using s64_id[of "x + a"] by (auto simp: core_add_def core_range_def in_range_def res_simps max_amount_def INT64_MIN_def INT64_MAX_def)

lemma core_sub_Inr [core_simps]:
  "in_range x \<Longrightarrow> in_range a \<Longrightarrow> core_sub x a = Inr r \<longleftrightarrow> in_range (x - a) \<and> r = x - a"
  using s64_id[of "x - a"] by (auto simp: core_sub_def core_range_def in_range_def res_simps max_amount_def INT64_MIN_def INT64_MAX_def)

lemma core_neg_eq [core_simps]: "in_range x \<Longrightarrow> core_neg x = - x"
  using s64_id[of "- x"] by (auto simp: core_neg_def in_range_def max_amount_def INT64_MIN_def INT64_MAX_def)

lemma core_results_in_range:
  "core_add x a = Inr r \<Longrightarrow> in_range r" "core_sub x a = Inr r \<Longrightarrow> in_range r"
  by (auto simp: core_add_def core_sub_def core_range_def in_range_def res_simps)

subsection \<open>The tables\<close>

record freeze_info =
  staked :: int
  unstaking :: int
  unstake_height :: int

record vote_info =
  vote_amount :: int
  voteage :: int
  voteage_update_height :: int
  total_reward :: int

record votes_info =
  mv_producers :: "account_name list"
  mv_staked :: int

record vote_reward_info =
  vr_total_voteage :: int
  vr_total_reward :: int

text \<open>The states of a producer: \<open>active_type\<close>.\<close>

definition Normal :: int where "Normal = 0"
definition Punish :: int where "Punish = 1"
definition LackMortgage :: int where "LackMortgage = 2"
definition Removed :: int where "Removed = 3"

definition BLOCK_OUT_WEIGHT :: int where "BLOCK_OUT_WEIGHT = 1000"

record bp_info =
  block_signing_key :: int
  commission_rate :: int
  total_staked :: int
  rewards_block :: int
  total_voteage :: int
  bp_voteage_update_height :: int
  bp_url :: string
  bp_active_type :: int
  block_age :: int
  last_block_amount :: int
  block_weight :: int
  mortgage :: int
  total_drain_block :: int
  remain_punish :: int
  active_change_block_num :: int
  reward_size :: int

text \<open>The member initialisers: a new producer was updated at the current block.\<close>

definition new_bp :: "int \<Rightarrow> bp_info" where
  "new_bp height = \<lparr>block_signing_key = 0, commission_rate = 0, total_staked = 0, rewards_block = 0, total_voteage = 0,
     bp_voteage_update_height = height, bp_url = [], bp_active_type = Normal, block_age = 0, last_block_amount = 0,
     block_weight = BLOCK_OUT_WEIGHT, mortgage = 0, total_drain_block = 0, remain_punish = 0, active_change_block_num = 0, reward_size = 0\<rparr>"

definition isactive :: "bp_info \<Rightarrow> bool" where
  "isactive b \<longleftrightarrow> bp_active_type b \<noteq> Removed"

record schedule_info =
  sch_block_height :: int
  sch_producers :: "(account_name \<times> int) list"

record reward_info =
  reward_block_out :: int
  reward_budget :: int
  total_block_out_age :: int
  cycle_reward :: int
  gradient :: int
  total_reward_time :: int
  last_reward_block_num :: int
  last_producer_name :: account_name
  reward_block_num :: "int list"

record creation_bp =
  cb_total_staked :: int
  cb_mortgage :: int

record punish_bp_info =
  pb_initiator :: account_name
  pb_drain_num :: int
  pb_update_block_num :: int

record last_drain_block =
  ld_drain_num :: int
  ld_update_block_num :: int

record sys_state =
  freezed :: "(account_name, freeze_info) tbl"
  votes :: "(account_name \<times> account_name, vote_info) tbl"
  votes4ram :: "(account_name \<times> account_name, vote_info) tbl"
  mvotes :: "(account_name, votes_info) tbl"
  vote4ramsum :: "(account_name, int) tbl"
  bps :: "(account_name, bp_info) tbl"
  vote_rewards :: "(account_name \<times> int, vote_reward_info) tbl"
  schedules :: "(int, schedule_info) tbl"
  reward_tbl :: "reward_info option"
  creation_bps :: "(account_name, creation_bp) tbl"
  last_drain :: "(account_name, last_drain_block) tbl"
  punish_bps :: "(account_name, punish_bp_info) tbl"
  approve_punish :: "(account_name, account_name list) tbl"

definition empty_sys :: sys_state where
  "empty_sys = \<lparr>freezed = [], votes = [], votes4ram = [], mvotes = [], vote4ramsum = [], bps = [], vote_rewards = [], schedules = [],
     reward_tbl = None, creation_bps = [], last_drain = [], punish_bps = [], approve_punish = []\<rparr>"

text \<open>What the contract reads of \<open>relay.token\<close> and \<open>sys.match\<close> for one coin: whether the coin is rewarded, and, if the
  coin exists, its mineage at the current block (if that was recorded), its average price and its number of decimals.\<close>

record coin_reward =
  reward_now :: bool
  coin_stat :: "(int option \<times> int \<times> nat) option"

text \<open>What an action sees besides its context: whether the build has multiple votes (\<open>IS_ACTIVE_MULTIPLE_VOTE\<close>, off by
  default), the active producers that the node reports, the coins that are mined, and the outcome of reading past a
  copied row (see \<open>unfreeze\<close>).\<close>

record sys_context =
  sc_ctx :: action_context
  multiple_vote :: bool
  active_producers :: "account_name list"
  coin_rewards :: "coin_reward list"
  past_copy_ok :: bool

end
