(* ===== verification/Token.thy ===== *)
theory Token
  imports Contract
begin

text \<open>
  The token contract \<open>force.token\<close> (\<open>contracts/force.token\<close>): its three tables, every action, and the
  invariant that for each symbol the supply recorded in \<open>stat\<close> is the sum of all balances and open casts.
\<close>

subsection \<open>State\<close>

text \<open>Rows of \<open>stat\<close> and \<open>coincast\<close>; a row of \<open>accounts\<close> is a balance. \<open>accounts\<close> is scoped by
  the owner and \<open>coincast\<close> by the receiver; the scope of \<open>stat\<close> is its primary key.\<close>

record currency_stats =
  stat_supply :: asset
  stat_max_supply :: asset
  stat_issuer :: account_name

record coin_cast =
  cast_balance :: asset
  cast_finish_block :: int

record token_state =
  accounts :: "(account_name \<times> 64 word, asset) tbl"
  stat :: "(64 word, currency_stats) tbl"
  coincast :: "(account_name \<times> int, coin_cast) tbl"

subsection \<open>Balances\<close>

definition sub_balance :: "account_name \<Rightarrow> asset \<Rightarrow> token_state \<Rightarrow> contract_error + token_state" where
  "sub_balance owner v s =
     need (tbl_find (accounts s) (owner, symbol_code (symbol v))) (Assert ''no balance object found'')
       (\<lambda>from.
         chk (amount from \<ge> amount v) (Assert ''overdrawn balance'')
          (if amount from = amount v
           then Inr (s\<lparr>accounts := tbl_del (owner, symbol_code (symbol v)) (accounts s)\<rparr>)
           else bnd (asset_sub from v)
             (\<lambda>b. Inr (s\<lparr>accounts := tbl_put (owner, symbol_code (symbol v)) b (accounts s)\<rparr>))))"

definition add_balance :: "account_name \<Rightarrow> asset \<Rightarrow> token_state \<Rightarrow> contract_error + token_state" where
  "add_balance owner v s =
     (case tbl_find (accounts s) (owner, symbol_code (symbol v)) of
        None \<Rightarrow> Inr (s\<lparr>accounts := tbl_put (owner, symbol_code (symbol v)) v (accounts s)\<rparr>)
      | Some to \<Rightarrow> bnd (asset_add to v)
          (\<lambda>b. Inr (s\<lparr>accounts := tbl_put (owner, symbol_code (symbol v)) b (accounts s)\<rparr>)))"

definition get_balance :: "token_state \<Rightarrow> account_name \<Rightarrow> 64 word \<Rightarrow> contract_error + asset" where
  "get_balance s owner n = need (tbl_find (accounts s) (owner, n)) (Assert ''unable to find key'') Inr"

definition get_supply :: "token_state \<Rightarrow> 64 word \<Rightarrow> contract_error + asset" where
  "get_supply s n = need (tbl_find (stat s) n) (Assert ''unable to find key'') (\<lambda>st. Inr (stat_supply st))"

subsection \<open>Supply and transfers\<close>

definition create :: "action_context \<Rightarrow> account_name \<Rightarrow> asset \<Rightarrow> token_state \<Rightarrow> token_state result" where
  "create ctx issuer maximum_supply s =
     require_auth ctx issuer
      (let sy = symbol maximum_supply in
       chk (is_valid_symbol sy) (Assert ''invalid symbol name'')
       (chk (asset_is_valid maximum_supply) (Assert ''invalid supply'')
       (chk (amount maximum_supply > 0) (Assert ''max-supply must be positive'')
       (chk (sy \<noteq> CORE_SYMBOL) (Assert ''not allow create core symbol token by token contract'')
       (chk (tbl_find (stat s) (symbol_code sy) = None) (Assert ''token with symbol already exists'')
         (Inr (s\<lparr>stat := tbl_put (symbol_code sy)
                  \<lparr>stat_supply = \<lparr>amount = 0, symbol = sy\<rparr>, stat_max_supply = maximum_supply, stat_issuer = issuer\<rparr>
                  (stat s)\<rparr>, [])))))))"

definition issue :: "action_context \<Rightarrow> account_name \<Rightarrow> asset \<Rightarrow> string \<Rightarrow> token_state \<Rightarrow> token_state result" where
  "issue ctx to quantity memo s =
     (let sy = symbol quantity in
      chk (is_valid_symbol sy) (Assert ''invalid symbol name'')
      (chk (length memo \<le> 256) (Assert ''memo has more than 256 bytes'')
      (need (tbl_find (stat s) (symbol_code sy))
         (Assert ''token with symbol does not exist, create token before issue'')
       (\<lambda>st. require_auth ctx (stat_issuer st)
        (chk (asset_is_valid quantity) (Assert ''invalid quantity'')
        (chk (amount quantity > 0) (Assert ''must issue positive quantity'')
        (chk (symbol quantity = symbol (stat_supply st)) (Assert ''symbol precision mismatch'')
        (chk (amount quantity \<le> s64 (amount (stat_max_supply st) - amount (stat_supply st)))
           (Assert ''quantity exceeds available supply'')
         (bnd (asset_add (stat_supply st) quantity) (\<lambda>supply'.
          bnd (add_balance (stat_issuer st) quantity
                (s\<lparr>stat := tbl_put (symbol_code sy) (st\<lparr>stat_supply := supply'\<rparr>) (stat s)\<rparr>)) (\<lambda>s'.
          Inr (s', if to \<noteq> stat_issuer st
                   then [Inline (self ctx) (string_to_name ''transfer'') [(stat_issuer st, active_name)]
                          (Transfer_data (stat_issuer st) to quantity memo)]
                   else []))))))))))))"

definition transfer ::
  "action_context \<Rightarrow> account_name \<Rightarrow> account_name \<Rightarrow> asset \<Rightarrow> string \<Rightarrow> token_state \<Rightarrow> token_state result" where
  "transfer ctx from to quantity memo s =
     chk (from \<noteq> to) (Assert ''cannot transfer to self'')
     (require_auth ctx from
     (chk (is_account ctx to) (Assert ''to account does not exist'')
     (need (tbl_find (stat s) (symbol_code (symbol quantity))) (Assert ''unable to find key'') (\<lambda>st.
      chk (asset_is_valid quantity) (Assert ''invalid quantity'')
      (chk (amount quantity > 0) (Assert ''must transfer positive quantity'')
      (chk (symbol quantity = symbol (stat_supply st)) (Assert ''symbol precision mismatch'')
      (chk (length memo \<le> 256) (Assert ''memo has more than 256 bytes'')
       (bnd (sub_balance from quantity s) (\<lambda>s1.
        bnd (add_balance to quantity s1) (\<lambda>s2.
        Inr (s2, [Notify from, Notify to])))))))))))"

definition fee :: "action_context \<Rightarrow> account_name \<Rightarrow> asset \<Rightarrow> token_state \<Rightarrow> token_state result" where
  "fee ctx payer quantity s =
     require_auth ctx payer
     (need (tbl_find (stat s) (symbol_code (symbol quantity))) (Assert ''unable to find key'') (\<lambda>st.
      chk (asset_is_valid quantity) (Assert ''invalid quantity'')
      (chk (amount quantity > 0) (Assert ''must transfer positive quantity'')
      (chk (symbol quantity = symbol (stat_supply st)) (Assert ''symbol precision mismatch'')
       (bnd (sub_balance payer quantity s) (\<lambda>s1.
        bnd (add_balance fee_account_name quantity s1) (\<lambda>s2. Inr (s2, []))))))))"

subsection \<open>Casts\<close>

definition PRE_CAST_NUM :: int where "PRE_CAST_NUM = 28800"
definition STABLE_CAST_NUM :: int where "STABLE_CAST_NUM = 7200"

text \<open>\<open>current_block / WEAKEN_CAST_NUM\<close> is a division of doubles by 2.5, truncated: for a 32-bit block
  number its result is \<open>\<lfloor>2 b / 5\<rfloor>\<close>, because the exact quotient is a multiple of 0.4 and the rounding error
  is far below 0.2.\<close>

definition finish_block :: "action_context \<Rightarrow> int" where
  "finish_block ctx =
     (let cast_num = s32 (u32 (PRE_CAST_NUM - 2 * block_num ctx div 5));
          cast_num' = (if cast_num < STABLE_CAST_NUM then STABLE_CAST_NUM else cast_num)
      in u32 (block_num ctx + cast_num'))"

definition castcoin ::
  "action_context \<Rightarrow> account_name \<Rightarrow> account_name \<Rightarrow> asset \<Rightarrow> token_state \<Rightarrow> token_state result" where
  "castcoin ctx from to quantity s =
     chk (from = reward_account_name) (Assert ''only the account reward can cast coin to others'')
     (require_auth ctx from
     (chk (is_account ctx to) (Assert ''to account does not exist'')
     (chk (asset_is_valid quantity) (Assert ''invalid quantity'')
     (chk (amount quantity > 0) (Assert ''must transfer positive quantity'')
     (need (tbl_find (coincast s) (to, finish_block ctx)) (Assert ''the cast is not opened'') (\<lambda>cc.
      chk (symbol quantity = symbol (cast_balance cc)) (Assert ''symbol precision mismatch'')
       (bnd (sub_balance from quantity s) (\<lambda>s1.
        bnd (asset_add (cast_balance cc) quantity) (\<lambda>b.
        Inr (s1\<lparr>coincast := tbl_put (to, finish_block ctx) (cc\<lparr>cast_balance := b\<rparr>) (coincast s1)\<rparr>,
             [Notify from, Notify to]))))))))))"

text \<open>The first loop of \<open>takecoin\<close>: the blocks of the finished casts and the sum of their balances.\<close>

fun takecoin_scan :: "int \<Rightarrow> (int \<times> coin_cast) list \<Rightarrow> int list \<times> asset \<Rightarrow> contract_error + int list \<times> asset" where
  "takecoin_scan current [] acc = Inr acc"
| "takecoin_scan current ((k, cc) # rows) (blocks, coin) =
     (if cast_finish_block cc < current
      then bnd (asset_add coin (cast_balance cc))
             (\<lambda>coin'. takecoin_scan current rows (blocks @ [cast_finish_block cc], coin'))
      else takecoin_scan current rows (blocks, coin))"

definition takecoin :: "action_context \<Rightarrow> account_name \<Rightarrow> token_state \<Rightarrow> token_state result" where
  "takecoin ctx to s =
     require_auth ctx to
      (bnd (mk_asset 0 CORE_SYMBOL) (\<lambda>zero.
       bnd (takecoin_scan (block_num ctx) (tbl_scope to (coincast s)) ([], zero)) (\<lambda>(blocks, coin).
       bnd (add_balance to coin s) (\<lambda>s1.
       Inr (s1\<lparr>coincast := tbl_del_scope to blocks (coincast s1)\<rparr>, [])))))"

definition opencast :: "action_context \<Rightarrow> account_name \<Rightarrow> token_state \<Rightarrow> token_state result" where
  "opencast ctx to s =
     require_auth ctx to
     (chk (is_account ctx to) (Assert ''to account does not exist'')
     (chk (tbl_find (coincast s) (to, finish_block ctx) = None) (Assert ''the cast is been opened'')
     (bnd (mk_asset 0 CORE_SYMBOL) (\<lambda>zero.
      Inr (s\<lparr>coincast := tbl_put (to, finish_block ctx)
               \<lparr>cast_balance = zero, cast_finish_block = finish_block ctx\<rparr> (coincast s)\<rparr>, [])))))"

text \<open>\<open>static_cast<uint64_t>(finish_block)\<close> of an \<open>int32_t\<close> sign-extends.\<close>

definition closecast :: "action_context \<Rightarrow> account_name \<Rightarrow> int \<Rightarrow> token_state \<Rightarrow> token_state result" where
  "closecast ctx to finish s =
     require_auth ctx to
     (chk (is_account ctx to) (Assert ''to account does not exist'')
     (need (tbl_find (coincast s) (to, u64 (s32 finish))) (Assert ''the cast is not exist'') (\<lambda>cc.
      bnd (mk_asset 0 CORE_SYMBOL) (\<lambda>zero.
      bnd (asset_eq (cast_balance cc) zero) (\<lambda>empty.
      chk empty (Assert ''the cast can not be closed'')
       (Inr (s\<lparr>coincast := tbl_del (to, u64 (s32 finish)) (coincast s)\<rparr>, [])))))))"

subsection \<open>Trades\<close>

fun splitMemo_loop :: "char \<Rightarrow> string \<Rightarrow> string \<Rightarrow> string list \<Rightarrow> string list" where
  "splitMemo_loop separator [] start results = (if start \<noteq> [] then results @ [start] else results)"
| "splitMemo_loop separator (c # cs) start results =
     (if c = separator then splitMemo_loop separator cs [] (results @ [start])
      else splitMemo_loop separator cs (start @ [c]) results)"

definition splitMemo :: "string \<Rightarrow> char \<Rightarrow> string list" where
  "splitMemo memo separator = splitMemo_loop separator memo [] []"

definition is_digit :: "char \<Rightarrow> bool" where
  "is_digit c \<longleftrightarrow> of_char CHR ''0'' \<le> (of_char c :: nat) \<and> (of_char c :: nat) \<le> of_char CHR ''9''"

definition is_space :: "char \<Rightarrow> bool" where
  "is_space c \<longleftrightarrow> (let n = of_char c :: nat in n = 32 \<or> (9 \<le> n \<and> n \<le> 13))"

text \<open>\<open>atoi\<close>: leading blanks, an optional sign, digits; the \<open>int\<close> wraps.\<close>

definition atoi :: "string \<Rightarrow> int" where
  "atoi str =
     (let s = dropWhile is_space (c_str str);
          neg = (s \<noteq> [] \<and> hd s = CHR ''-'');
          s' = (if s \<noteq> [] \<and> (hd s = CHR ''-'' \<or> hd s = CHR ''+'') then tl s else s);
          n = foldl (\<lambda>v c. 10 * v + int (of_char c - of_char CHR ''0'')) 0 (takeWhile is_digit s')
      in s32 (if neg then - n else n))"

text \<open>\<open>sys_bridge_addmort::parse\<close> and \<open>sys_bridge_exchange::parse\<close>.\<close>

definition parse_addmort :: "string \<Rightarrow> contract_error + name \<times> account_name \<times> int" where
  "parse_addmort memo =
     (let parts = splitMemo memo CHR '';'' in
      chk (length parts = 3) (Assert ''memo is not adapted with bridge_addmortgage'')
       (let type = u64 (atoi (parts ! 2)) in
        chk (type = 1 \<or> type = 2) (Assert ''type is not adapted with bridge_addmortgage'')
          (Inr (string_to_name (parts ! 0), string_to_name (parts ! 1), type))))"

definition parse_exchange :: "string \<Rightarrow> contract_error + name \<times> account_name \<times> account_name \<times> int" where
  "parse_exchange memo =
     (let parts = splitMemo memo CHR '';'' in
      chk (length parts = 4) (Assert ''memo is not adapted with bridge_addmortgage'')
       (let type = u64 (atoi (parts ! 3)) in
        chk (type = 1 \<or> type = 2) (Assert ''type is not adapted with bridge_addmortgage'')
          (Inr (string_to_name (parts ! 0), string_to_name (parts ! 1), string_to_name (parts ! 2), type))))"

text \<open>\<open>enum class func_type\<close>; any other 64-bit value reaches the last branch.\<close>

definition func_match :: int where "func_match = 1"
definition func_bridge_addmortgage :: int where "func_bridge_addmortgage = 2"
definition func_bridge_exchange :: int where "func_bridge_exchange = 3"

definition trade ::
  "action_context \<Rightarrow> account_name \<Rightarrow> account_name \<Rightarrow> asset \<Rightarrow> int \<Rightarrow> string \<Rightarrow> token_state \<Rightarrow> token_state result" where
  "trade ctx from to quantity type memo s =
     (if type = func_bridge_addmortgage \<and> to = bridge_account_name then
        bnd (transfer ctx from to quantity memo s) (\<lambda>(s', effs).
        bnd (parse_addmort memo) (\<lambda>(trade_name, trade_maker, ty).
        Inr (s', effs @ [Inline bridge_account_name (string_to_name ''addmortgage'') [(bridge_account_name, active_name)]
               (Addmortgage_data trade_name trade_maker from (string_to_name ''self'') quantity ty)])))
      else if type = func_bridge_exchange \<and> to = bridge_account_name then
        bnd (transfer ctx from to quantity memo s) (\<lambda>(s', effs).
        bnd (parse_exchange memo) (\<lambda>(trade_name, trade_maker, recv, ty).
        Inr (s', effs @ [Inline bridge_account_name (string_to_name ''exchange'') [(bridge_account_name, active_name)]
               (Exchange_data trade_name trade_maker from recv (string_to_name ''self'') quantity ty)])))
      else if type = func_match \<and> to = match_account_name then
        Inr (s, [Inline (self ctx) (string_to_name ''transfer'') [(from, active_name)]
               (Transfer_data from to quantity memo)])
      else Inl (Assert ''invalid type''))"

subsection \<open>Dispatch\<close>

datatype token_action =
    Create account_name asset
  | Issue account_name asset string
  | Transfer account_name account_name asset string
  | Fee account_name asset
  | Trade account_name account_name asset int string
  | Castcoin account_name account_name asset
  | Takecoin account_name
  | Opencast account_name
  | Closecast account_name int

fun token_apply :: "action_context \<times> token_action \<Rightarrow> token_state \<Rightarrow> token_state result" where
  "token_apply (ctx, Create i m) s = create ctx i m s"
| "token_apply (ctx, Issue t q m) s = issue ctx t q m s"
| "token_apply (ctx, Transfer f t q m) s = transfer ctx f t q m s"
| "token_apply (ctx, Fee p q) s = fee ctx p q s"
| "token_apply (ctx, Trade f t q ty m) s = trade ctx f t q ty m s"
| "token_apply (ctx, Castcoin f t q) s = castcoin ctx f t q s"
| "token_apply (ctx, Takecoin t) s = takecoin ctx t s"
| "token_apply (ctx, Opencast t) s = opencast ctx t s"
| "token_apply (ctx, Closecast t b) s = closecast ctx t b s"

subsection \<open>The balance table is a ledger\<close>

definition bal_of :: "token_state \<Rightarrow> account_name \<Rightarrow> 64 word \<Rightarrow> int" where
  "bal_of s a n = (case tbl_find (accounts s) (a, n) of None \<Rightarrow> 0 | Some b \<Rightarrow> amount b)"

definition circ_of :: "token_state \<Rightarrow> 64 word \<Rightarrow> int" where
  "circ_of s n = tbl.total (\<lambda>(a, m) b. if m = n then amount b else 0) (accounts s)"

definition accounts_ok :: "token_state \<Rightarrow> bool" where
  "accounts_ok s \<longleftrightarrow> tbl_ok (accounts s) \<and>
     (\<forall>a n b. tbl_find (accounts s) (a, n) = Some b \<longrightarrow>
        symbol_code (symbol b) = n \<and> 0 \<le> amount b \<and> amount b \<le> max_amount)"

lemma accounts_okD:
  assumes "accounts_ok s"
  shows "tbl_ok (accounts s)"
    and "tbl_find (accounts s) (a, n) = Some b \<Longrightarrow> symbol_code (symbol b) = n"
    and "tbl_find (accounts s) (a, n) = Some b \<Longrightarrow> 0 \<le> amount b"
    and "tbl_find (accounts s) (a, n) = Some b \<Longrightarrow> is_amount_within_range b"
  using assms by (force simp: accounts_ok_def is_amount_within_range_def max_amount_def)+

lemma accounts_ok_put:
  "accounts_ok s \<Longrightarrow> symbol_code (symbol b) = n \<Longrightarrow> 0 \<le> amount b \<Longrightarrow> amount b \<le> max_amount \<Longrightarrow>
     accounts_ok (s\<lparr>accounts := tbl_put (a, n) b (accounts s)\<rparr>)"
  by (auto simp: accounts_ok_def tbl_simps split: if_splits)

lemma accounts_ok_del: "accounts_ok s \<Longrightarrow> accounts_ok (s\<lparr>accounts := tbl_del k (accounts s)\<rparr>)"
  by (auto simp: accounts_ok_def tbl_simps split: if_splits)

lemma max_amount_pos: "0 < max_amount"
  by (simp add: max_amount_def)

text \<open>A successful \<open>sub_balance\<close> or \<open>add_balance\<close> replaces one balance by the exact difference or sum.\<close>

lemma sub_balance_cases:
  assumes "accounts_ok s" "0 < amount q" "is_amount_within_range q" "sub_balance a q s = Inr s'"
  obtains b where "tbl_find (accounts s) (a, symbol_code (symbol q)) = Some b" "amount q \<le> amount b"
    "s' = s\<lparr>accounts := (if amount b = amount q then tbl_del (a, symbol_code (symbol q)) (accounts s)
       else tbl_put (a, symbol_code (symbol q)) (b\<lparr>amount := amount b - amount q\<rparr>) (accounts s))\<rparr>"
  using assms accounts_okD(4) [OF assms(1)]
  by (auto simp: sub_balance_def res_simps asset_simps split: if_splits)

lemma add_balance_cases:
  assumes "accounts_ok s" "0 \<le> amount q" "is_amount_within_range q" "add_balance a q s = Inr s'"
  obtains "tbl_find (accounts s) (a, symbol_code (symbol q)) = None"
      "s' = s\<lparr>accounts := tbl_put (a, symbol_code (symbol q)) q (accounts s)\<rparr>"
    | b where "tbl_find (accounts s) (a, symbol_code (symbol q)) = Some b" "symbol b = symbol q"
      "amount b + amount q \<le> max_amount"
      "s' = s\<lparr>accounts := tbl_put (a, symbol_code (symbol q)) (b\<lparr>amount := amount b + amount q\<rparr>) (accounts s)\<rparr>"
  using assms accounts_okD(4) [OF assms(1)]
  by (auto simp: add_balance_def res_simps asset_simps split: option.splits)

interpretation tok: ledger sub_balance add_balance bal_of circ_of accounts_ok
proof (unfold_locales, goal_cases)
  case (1 s q a s')
  show ?case
  proof (rule sub_balance_cases [OF 1])
    fix b assume b: "tbl_find (accounts s) (a, symbol_code (symbol q)) = Some b" "amount q \<le> amount b"
      and s': "s' = s\<lparr>accounts := (if amount b = amount q then tbl_del (a, symbol_code (symbol q)) (accounts s)
       else tbl_put (a, symbol_code (symbol q)) (b\<lparr>amount := amount b - amount q\<rparr>) (accounts s))\<rparr>"
    show ?thesis
      using accounts_okD [OF 1(1)] b 1(1,2) unfolding s'
      by (auto simp: is_amount_within_range_def intro!: accounts_ok_put accounts_ok_del) fastforce
  qed
next
  case (2 s q a s' b n)
  show ?case
    by (rule sub_balance_cases [OF 2]) (use 2(1,2) in \<open>auto simp: bal_of_def accounts_okD(1) tbl_simps\<close>)
next
  case (3 s q a s' n)
  show ?case
    by (rule sub_balance_cases [OF 3]) (use 3(1,2) in \<open>auto simp: circ_of_def accounts_okD(1) tbl_simps\<close>)
next
  case (4 s q a s')
  show ?case
    by (rule sub_balance_cases [OF 4]) (use 4(1,2) in \<open>auto simp: bal_of_def\<close>)
next
  case (5 s q a s')
  show ?case
    by (rule add_balance_cases [OF 5])
      (use 5(1-3) accounts_okD(3) [OF 5(1)] in \<open>auto simp: is_amount_within_range_def intro!: accounts_ok_put\<close>)
next
  case (6 s q a s' b n)
  show ?case
    by (rule add_balance_cases [OF 6]) (use 6(1,2) in \<open>auto simp: bal_of_def accounts_okD(1) tbl_simps\<close>)
next
  case (7 s q a s' n)
  show ?case
    by (rule add_balance_cases [OF 7]) (use 7(1,2) in \<open>auto simp: circ_of_def accounts_okD(1) tbl_simps\<close>)
next
  case (8 s a n)
  then show ?case
    by (auto simp: bal_of_def accounts_okD(3) split: option.splits)
qed

subsection \<open>The invariant\<close>

definition supply_of :: "token_state \<Rightarrow> 64 word \<Rightarrow> int" where
  "supply_of s n = (case tbl_find (stat s) n of None \<Rightarrow> 0 | Some st \<Rightarrow> amount (stat_supply st))"

definition cast_total :: "token_state \<Rightarrow> int" where
  "cast_total s = tbl.total (\<lambda>k cc. amount (cast_balance cc)) (coincast s)"

definition stat_ok :: "64 word \<Rightarrow> currency_stats \<Rightarrow> bool" where
  "stat_ok n st \<longleftrightarrow> symbol_code (symbol (stat_supply st)) = n \<and> symbol (stat_max_supply st) = symbol (stat_supply st) \<and>
     is_valid_symbol (symbol (stat_supply st)) \<and> 0 \<le> amount (stat_supply st) \<and> amount (stat_supply st) \<le> amount (stat_max_supply st) \<and>
     amount (stat_max_supply st) \<le> max_amount"

definition stats_ok :: "token_state \<Rightarrow> bool" where
  "stats_ok s \<longleftrightarrow> tbl_ok (stat s) \<and> (\<forall>n st. tbl_find (stat s) n = Some st \<longrightarrow> stat_ok n st) \<and>
     (\<exists>st. tbl_find (stat s) (symbol_code CORE_SYMBOL) = Some st \<and> symbol (stat_supply st) = CORE_SYMBOL)"

definition cast_ok :: "int \<Rightarrow> coin_cast \<Rightarrow> bool" where
  "cast_ok b cc \<longleftrightarrow> symbol (cast_balance cc) = CORE_SYMBOL \<and> 0 \<le> amount (cast_balance cc) \<and>
     amount (cast_balance cc) \<le> max_amount \<and> cast_finish_block cc = b"

definition casts_ok :: "token_state \<Rightarrow> bool" where
  "casts_ok s \<longleftrightarrow> tbl_ok (coincast s) \<and> (\<forall>a b cc. tbl_find (coincast s) (a, b) = Some cc \<longrightarrow> cast_ok b cc)"

definition has_symbol :: "token_state \<Rightarrow> symbol_name \<Rightarrow> bool" where
  "has_symbol s sy \<longleftrightarrow> (\<exists>st. tbl_find (stat s) (symbol_code sy) = Some st \<and> symbol (stat_supply st) = sy)"

definition rows_typed :: "token_state \<Rightarrow> bool" where
  "rows_typed s \<longleftrightarrow> (\<forall>a n b. tbl_find (accounts s) (a, n) = Some b \<longrightarrow> has_symbol s (symbol b))"

definition token_wf :: "token_state \<Rightarrow> bool" where
  "token_wf s \<longleftrightarrow> accounts_ok s \<and> stats_ok s \<and> casts_ok s \<and> rows_typed s"

definition conserved :: "token_state \<Rightarrow> bool" where
  "conserved s \<longleftrightarrow>
     (\<forall>n. supply_of s n = circ_of s n + (if n = symbol_code CORE_SYMBOL then cast_total s else 0))"

definition token_inv :: "token_state \<Rightarrow> bool" where
  "token_inv s \<longleftrightarrow> token_wf s \<and> conserved s"

lemma coincast_irrelevant [simp]:
  "accounts_ok (s\<lparr>coincast := t\<rparr>) = accounts_ok s" "stats_ok (s\<lparr>coincast := t\<rparr>) = stats_ok s"
  "rows_typed (s\<lparr>coincast := t\<rparr>) = rows_typed s" "supply_of (s\<lparr>coincast := t\<rparr>) n = supply_of s n"
  "circ_of (s\<lparr>coincast := t\<rparr>) n = circ_of s n"
  by (simp_all add: accounts_ok_def stats_ok_def rows_typed_def has_symbol_def supply_of_def circ_of_def)

lemma sub_keeps:
  assumes "accounts_ok s" "0 < amount q" "is_amount_within_range q" "sub_balance a q s = Inr s'"
  shows "stat s' = stat s" "coincast s' = coincast s" "rows_typed s \<Longrightarrow> rows_typed s'"
  by (rule sub_balance_cases [OF assms];
      use accounts_okD(1) [OF assms(1)] in \<open>auto simp: rows_typed_def has_symbol_def tbl_simps split: if_splits\<close>)+

lemma add_keeps:
  assumes "accounts_ok s" "0 \<le> amount q" "is_amount_within_range q" "add_balance a q s = Inr s'"
  shows "stat s' = stat s" "coincast s' = coincast s" "rows_typed s \<Longrightarrow> has_symbol s (symbol q) \<Longrightarrow> rows_typed s'"
  by (rule add_balance_cases [OF assms];
      use accounts_okD(1) [OF assms(1)] in \<open>auto simp: rows_typed_def has_symbol_def tbl_simps split: if_splits\<close>)+

lemma sub_wf:
  assumes "token_wf s" "0 < amount q" "is_amount_within_range q" "sub_balance a q s = Inr s'"
  shows "token_wf s'"
proof -
  have a: "accounts_ok s" using assms(1) by (simp add: token_wf_def)
  note k = sub_keeps [OF a assms(2-4)]
  show ?thesis
    using assms(1) k tok.sub_inv [OF a assms(2-4)]
    by (simp add: token_wf_def stats_ok_def casts_ok_def)
qed

lemma add_wf:
  assumes "token_wf s" "0 \<le> amount q" "is_amount_within_range q" "has_symbol s (symbol q)" "add_balance a q s = Inr s'"
  shows "token_wf s'"
proof -
  have a: "accounts_ok s" using assms(1) by (simp add: token_wf_def)
  note k = add_keeps [OF a assms(2,3,5)]
  show ?thesis
    using assms(1,4) k tok.add_inv [OF a assms(2,3,5)]
    by (simp add: token_wf_def stats_ok_def casts_ok_def)
qed

text \<open>What moves between accounts leaves the supply and the casts alone.\<close>

lemma move_token_inv:
  assumes "token_inv s" "0 < amount q" "is_amount_within_range q" "has_symbol s (symbol q)"
    "sub_balance a q s = Inr s1" "add_balance b q s1 = Inr s2"
  shows "token_inv s2"
proof -
  have w: "token_wf s" and c: "conserved s" using assms(1) by (auto simp: token_inv_def)
  have a: "accounts_ok s" using w by (simp add: token_wf_def)
  have w1: "token_wf s1" using sub_wf [OF w assms(2,3,5)] .
  have a1: "accounts_ok s1" using w1 by (simp add: token_wf_def)
  note k = sub_keeps [OF a assms(2,3,5)] add_keeps [OF a1 less_imp_le [OF assms(2)] assms(3,6)]
  have w2: "token_wf s2"
    using add_wf [OF w1 less_imp_le [OF assms(2)] assms(3) _ assms(6)] assms(4) k by (simp add: has_symbol_def)
  have "circ_of s2 n = circ_of s n" for n
    using tok.move_circ [OF a assms(2,3), of a b s2 n] assms(5,6) by (simp add: tok.move_def)
  then show ?thesis
    using w2 c k by (simp add: token_inv_def conserved_def supply_of_def cast_total_def)
qed

lemma token_wf_accounts: "token_wf s \<Longrightarrow> accounts_ok s"
  by (simp add: token_wf_def)

lemma valid_range: "asset_is_valid q \<Longrightarrow> is_amount_within_range q"
  by (simp add: asset_is_valid_def)

lemma transfer_inv:
  assumes "token_inv s" "transfer ctx from to q memo s = Inr (s', effs)"
  shows "token_inv s'"
proof -
  obtain s1 where "0 < amount q" "asset_is_valid q" "has_symbol s (symbol q)"
    "sub_balance from q s = Inr s1" "add_balance to q s1 = Inr s'"
    using assms(2) by (auto simp: transfer_def res_simps has_symbol_def)
  then show ?thesis using move_token_inv [OF assms(1)] valid_range by blast
qed

lemma fee_inv:
  assumes "token_inv s" "fee ctx payer q s = Inr (s', effs)"
  shows "token_inv s'"
proof -
  obtain s1 where "0 < amount q" "asset_is_valid q" "has_symbol s (symbol q)"
    "sub_balance payer q s = Inr s1" "add_balance fee_account_name q s1 = Inr s'"
    using assms(2) by (auto simp: fee_def res_simps has_symbol_def)
  then show ?thesis using move_token_inv [OF assms(1)] valid_range by blast
qed

lemma trade_inv:
  assumes "token_inv s" "trade ctx from to q ty memo s = Inr (s', effs)"
  shows "token_inv s'"
  using assms by (auto simp: trade_def res_simps split: if_splits prod.splits intro: transfer_inv)

lemma stats_okD: "stats_ok s \<Longrightarrow> tbl_find (stat s) n = Some st \<Longrightarrow> stat_ok n st"
  by (simp add: stats_ok_def)

lemma create_inv:
  assumes "token_inv s" "create ctx issuer m s = Inr (s', effs)"
  shows "token_inv s'"
proof -
  let ?n = "symbol_code (symbol m)"
  let ?st = "\<lparr>stat_supply = \<lparr>amount = 0, symbol = symbol m\<rparr>, stat_max_supply = m, stat_issuer = issuer\<rparr>"
  have s': "s' = s\<lparr>stat := tbl_put ?n ?st (stat s)\<rparr>" and new: "tbl_find (stat s) ?n = None"
    and m: "0 < amount m" "amount m \<le> max_amount" "is_valid_symbol (symbol m)"
    using assms(2) by (auto simp: create_def Let_def res_simps asset_is_valid_def is_amount_within_range_def)
  have ok: "tbl_ok (stat s)" using assms(1) by (simp add: token_inv_def token_wf_def stats_ok_def)
  have f: "tbl_find (stat s') n = (if n = ?n then Some ?st else tbl_find (stat s) n)" for n
    using ok by (simp add: s' tbl_simps)
  have other: "has_symbol s sy \<Longrightarrow> has_symbol s' sy" for sy
    using new by (auto simp: has_symbol_def f)
  have "stat_ok ?n ?st" using m by (simp add: stat_ok_def)
  then have "token_wf s'"
    using assms(1) new ok other unfolding token_inv_def token_wf_def stats_ok_def rows_typed_def accounts_ok_def casts_ok_def
    by (auto simp: f) (auto simp: s' tbl_simps)
  moreover have "conserved s'"
  proof -
    have "supply_of s' n = supply_of s n" for n using new by (auto simp: supply_of_def f)
    moreover have "circ_of s' n = circ_of s n" "cast_total s' = cast_total s" for n
      by (simp_all add: s' circ_of_def cast_total_def)
    ultimately show ?thesis using assms(1) by (simp add: token_inv_def conserved_def)
  qed
  ultimately show ?thesis by (simp add: token_inv_def)
qed

lemma issue_inv:
  assumes "token_inv s" "issue ctx to q memo s = Inr (s', effs)"
  shows "token_inv s'"
proof -
  let ?n = "symbol_code (symbol q)"
  obtain st sup where st: "tbl_find (stat s) ?n = Some st" and v: "asset_is_valid q" "0 < amount q"
    and sy: "symbol q = symbol (stat_supply st)"
    and lim: "amount q \<le> s64 (amount (stat_max_supply st) - amount (stat_supply st))"
    and sup: "asset_add (stat_supply st) q = Inr sup"
    and add: "add_balance (stat_issuer st) q (s\<lparr>stat := tbl_put ?n (st\<lparr>stat_supply := sup\<rparr>) (stat s)\<rparr>) = Inr s'"
    using assms(2) by (auto simp: issue_def Let_def res_simps)
  let ?s1 = "s\<lparr>stat := tbl_put ?n (st\<lparr>stat_supply := sup\<rparr>) (stat s)\<rparr>"
  have w: "token_wf s" and c: "conserved s" using assms(1) by (auto simp: token_inv_def)
  have ok: "tbl_ok (stat s)" and sto: "stat_ok ?n st"
    using w st by (auto simp: token_wf_def stats_ok_def)
  have "s64 (amount (stat_max_supply st) - amount (stat_supply st)) = amount (stat_max_supply st) - amount (stat_supply st)"
    using sto by (intro s64_id) (auto simp: stat_ok_def max_amount_def INT64_MIN_def INT64_MAX_def)
  with lim have lim': "amount (stat_supply st) + amount q \<le> amount (stat_max_supply st)" by simp
  have r: "is_amount_within_range (stat_supply st)" "is_amount_within_range q"
    using sto v by (auto simp: stat_ok_def asset_is_valid_def is_amount_within_range_def max_amount_def)
  have sup': "sup = (stat_supply st)\<lparr>amount := amount (stat_supply st) + amount q\<rparr>"
    using sup r by (simp add: asset_simps)
  have f: "tbl_find (stat ?s1) n = (if n = ?n then Some (st\<lparr>stat_supply := sup\<rparr>) else tbl_find (stat s) n)" for n
    using ok by (simp add: tbl_simps)
  have hs: "has_symbol ?s1 sy = has_symbol s sy" for sy
    using st ok by (auto simp: has_symbol_def f sup' tbl_simps)
  have "stat_ok ?n (st\<lparr>stat_supply := sup\<rparr>)"
    using sto lim' v(2) by (auto simp: stat_ok_def sup')
  then have w1: "token_wf ?s1"
    using w ok st hs unfolding token_wf_def stats_ok_def rows_typed_def accounts_ok_def casts_ok_def
    by (auto simp: tbl_simps sup' split: if_splits)
  have h: "has_symbol ?s1 (symbol q)"
    unfolding hs using st sy by (auto simp: has_symbol_def)
  have w2: "token_wf s'"
    using add_wf [OF w1 _ r(2) h add] v(2) by simp
  note k = add_keeps [OF token_wf_accounts [OF w1] less_imp_le [OF v(2)] r(2) add]
  note circ = tok.add_circ [OF token_wf_accounts [OF w1] less_imp_le [OF v(2)] r(2) add]
  have "supply_of s' n = supply_of s n + (if n = ?n then amount q else 0)" for n
    using st by (simp add: supply_of_def k f sup' tbl_simps ok)
  moreover have "circ_of s' n = circ_of s n + (if n = ?n then amount q else 0)" for n
    using circ by (simp add: circ_of_def)
  moreover have "cast_total s' = cast_total s" by (simp add: cast_total_def k)
  ultimately have "conserved s'" using c by (simp add: conserved_def)
  with w2 show ?thesis by (simp add: token_inv_def)
qed

lemma castcoin_inv:
  assumes "token_inv s" "castcoin ctx from to q s = Inr (s', effs)"
  shows "token_inv s'"
proof -
  let ?k = "(to, finish_block ctx)"
  obtain cc s1 b where v: "asset_is_valid q" "0 < amount q"
    and cc: "tbl_find (coincast s) ?k = Some cc" and sy: "symbol q = symbol (cast_balance cc)"
    and sub: "sub_balance from q s = Inr s1" and b: "asset_add (cast_balance cc) q = Inr b"
    and s': "s' = s1\<lparr>coincast := tbl_put ?k (cc\<lparr>cast_balance := b\<rparr>) (coincast s1)\<rparr>"
    using assms(2) by (auto simp: castcoin_def res_simps)
  have w: "token_wf s" and c: "conserved s" using assms(1) by (auto simp: token_inv_def)
  have co: "cast_ok (finish_block ctx) cc" and ok: "tbl_ok (coincast s)"
    using w cc by (auto simp: token_wf_def casts_ok_def)
  have r: "is_amount_within_range (cast_balance cc)" "is_amount_within_range q"
    using co v by (auto simp: cast_ok_def asset_is_valid_def is_amount_within_range_def)
  have b': "b = (cast_balance cc)\<lparr>amount := amount (cast_balance cc) + amount q\<rparr>"
    "amount (cast_balance cc) + amount q \<le> max_amount"
    using b r by (auto simp: asset_simps)
  have w1: "token_wf s1" using sub_wf [OF w v(2) r(2) sub] .
  note k = sub_keeps [OF token_wf_accounts [OF w] v(2) r(2) sub]
  note circ = tok.sub_circ [OF token_wf_accounts [OF w] v(2) r(2) sub]
  have "cast_ok (finish_block ctx) (cc\<lparr>cast_balance := b\<rparr>)"
    using co v(2) b' by (simp add: cast_ok_def)
  then have "casts_ok s'"
    using w1 ok unfolding token_wf_def casts_ok_def s' by (auto simp: tbl_simps k)
  moreover have "accounts_ok s'" "stats_ok s'" "rows_typed s'"
    using w1 by (simp_all add: token_wf_def s')
  ultimately have "token_wf s'" by (simp add: token_wf_def)
  moreover have "conserved s'"
  proof -
    have "supply_of s' n = supply_of s n" for n by (simp add: supply_of_def s' k)
    moreover have "circ_of s' n = circ_of s n - (if n = symbol_code CORE_SYMBOL then amount q else 0)" for n
      using circ [of n] sy co by (simp add: circ_of_def s' cast_ok_def)
    moreover have "cast_total s' = cast_total s + amount q"
      using ok cc by (simp add: cast_total_def s' k tbl_simps b')
    ultimately show ?thesis using c by (simp add: conserved_def)
  qed
  ultimately show ?thesis by (simp add: token_inv_def)
qed

lemma mk_zero [simp]: "mk_asset 0 CORE_SYMBOL = Inr \<lparr>amount = 0, symbol = CORE_SYMBOL\<rparr>"
  using CORE_SYMBOL_valid by (simp add: mk_asset_Inr INT64_MIN_def INT64_MAX_def max_amount_def)

lemma opencast_inv:
  assumes "token_inv s" "opencast ctx to s = Inr (s', effs)"
  shows "token_inv s'"
proof -
  let ?k = "(to, finish_block ctx)"
  have new: "tbl_find (coincast s) ?k = None" and
    s': "s' = s\<lparr>coincast := tbl_put ?k \<lparr>cast_balance = \<lparr>amount = 0, symbol = CORE_SYMBOL\<rparr>,
             cast_finish_block = finish_block ctx\<rparr> (coincast s)\<rparr>"
    using assms(2) by (auto simp: opencast_def res_simps)
  have w: "token_wf s" and c: "conserved s" using assms(1) by (auto simp: token_inv_def)
  then have ok: "tbl_ok (coincast s)" by (simp add: token_wf_def casts_ok_def)
  have "casts_ok s'"
    using w ok unfolding token_wf_def casts_ok_def s'
    by (auto simp: tbl_simps cast_ok_def max_amount_def split: if_splits)
  then have "token_wf s'"
    using w by (simp add: token_wf_def s')
  moreover have "conserved s'"
    using c new ok by (simp add: conserved_def supply_of_def circ_of_def cast_total_def s' tbl_simps)
  ultimately show ?thesis by (simp add: token_inv_def)
qed

lemma closecast_inv:
  assumes "token_inv s" "closecast ctx to b s = Inr (s', effs)"
  shows "token_inv s'"
proof -
  let ?k = "(to, u64 (s32 b))"
  obtain cc where cc: "tbl_find (coincast s) ?k = Some cc" "amount (cast_balance cc) = 0"
    and s': "s' = s\<lparr>coincast := tbl_del ?k (coincast s)\<rparr>"
    using assms(2) by (auto simp: closecast_def res_simps asset_cmp_defs)
  have w: "token_wf s" and c: "conserved s" using assms(1) by (auto simp: token_inv_def)
  then have ok: "tbl_ok (coincast s)" by (simp add: token_wf_def casts_ok_def)
  have "token_wf s'"
    using w ok by (auto simp: token_wf_def casts_ok_def s' tbl_simps)
  moreover have "conserved s'"
    using c cc ok by (simp add: conserved_def supply_of_def circ_of_def cast_total_def s' tbl_simps)
  ultimately show ?thesis by (simp add: token_inv_def)
qed

text \<open>\<open>takecoin\<close>: the scan adds up the finished casts, which are then erased.\<close>

lemma takecoin_scan_result:
  assumes "takecoin_scan cur rows (bl, coin) = Inr (bl', coin')"
    and "is_amount_within_range coin" and "0 \<le> amount coin"
    and "\<And>k cc. (k, cc) \<in> set rows \<Longrightarrow> cast_ok k cc"
  shows "bl' = bl @ map fst (filter (\<lambda>(k, cc). k < cur) rows) \<and> symbol coin' = symbol coin \<and>
    is_amount_within_range coin' \<and> 0 \<le> amount coin' \<and>
    amount coin' = amount coin + (\<Sum>r\<leftarrow>filter (\<lambda>(k, cc). k < cur) rows. amount (cast_balance (snd r)))"
  using assms
proof (induction rows arbitrary: bl coin)
  case (Cons row rows)
  obtain k cc where row: "row = (k, cc)" by fastforce
  have co: "cast_ok k cc" using Cons(5) by (simp add: row)
  then have fb: "cast_finish_block cc = k" by (simp add: cast_ok_def)
  show ?case
  proof (cases "k < cur")
    case True
    then obtain c where c: "asset_add coin (cast_balance cc) = Inr c"
      and rec: "takecoin_scan cur rows (bl @ [k], c) = Inr (bl', coin')"
      using Cons(2) fb by (auto simp: res_simps row)
    have r: "is_amount_within_range (cast_balance cc)" using co by (auto simp: cast_ok_def is_amount_within_range_def)
    have c': "c = coin\<lparr>amount := amount coin + amount (cast_balance cc)\<rparr>" "is_amount_within_range c" "0 \<le> amount c"
      using c Cons(3,4) r asset_add_range [OF c] co by (auto simp: asset_simps cast_ok_def)
    show ?thesis
      using Cons.IH [OF rec c'(2,3)] Cons(5) True by (simp add: row c'(1))
  next
    case False
    then show ?thesis using Cons.IH [of bl coin] Cons(2-5) fb by (simp add: row)
  qed
qed simp

lemma takecoin_inv:
  assumes "token_inv s" "takecoin ctx to s = Inr (s', effs)"
  shows "token_inv s'"
proof -
  let ?rows = "tbl_scope to (coincast s)" and ?zero = "\<lparr>amount = 0, symbol = CORE_SYMBOL\<rparr>"
  let ?fin = "filter (\<lambda>(k, cc). k < block_num ctx) ?rows"
  obtain bl coin s1 where scan: "takecoin_scan (block_num ctx) ?rows ([], ?zero) = Inr (bl, coin)"
    and add: "add_balance to coin s = Inr s1"
    and s': "s' = s1\<lparr>coincast := tbl_del_scope to bl (coincast s1)\<rparr>"
    using assms(2) by (auto simp: takecoin_def res_simps)
  have w: "token_wf s" and c: "conserved s" using assms(1) by (auto simp: token_inv_def)
  have ok: "tbl_ok (coincast s)" and co: "\<And>a b cc. tbl_find (coincast s) (a, b) = Some cc \<Longrightarrow> cast_ok b cc"
    using w by (auto simp: token_wf_def casts_ok_def)
  have res: "bl = map fst ?fin" "symbol coin = CORE_SYMBOL" "is_amount_within_range coin" "0 \<le> amount coin"
    "amount coin = (\<Sum>r\<leftarrow>?fin. amount (cast_balance (snd r)))"
    using takecoin_scan_result [OF scan] co ok
    by (auto simp: tbl_scope_find is_amount_within_range_def max_amount_def)
  have d: "distinct bl"
    unfolding res(1) using tbl_scope_distinct [OF ok] by (simp add: distinct_map_filter)
  have "has_symbol s CORE_SYMBOL" using w by (simp add: token_wf_def stats_ok_def has_symbol_def)
  then have w1: "token_wf s1" using add_wf [OF w res(4,3) _ add] res(2) by simp
  note k = add_keeps [OF token_wf_accounts [OF w] res(4,3) add]
  note del = tbl_del_scope_laws [OF ok d, where s = to]
  have "casts_ok s'"
    using del(1,2) co by (auto simp: casts_ok_def s' k split: if_splits)
  then have "token_wf s'" using w1 by (simp add: token_wf_def s')
  moreover have "conserved s'"
  proof -
    have "(\<Sum>b\<leftarrow>bl. tbl.part (\<lambda>k cc. amount (cast_balance cc)) (coincast s) (to, b)) = amount coin"
      unfolding res(1,5) using ok
      by (auto simp: tbl.part_def tbl_scope_find o_def intro!: arg_cong [where f = sum_list] map_cong)
    then have "cast_total s' = cast_total s - amount coin"
      using del(3) by (simp add: cast_total_def s' k)
    moreover have "circ_of s' n = circ_of s n + (if n = symbol_code CORE_SYMBOL then amount coin else 0)" for n
      using tok.add_circ [OF token_wf_accounts [OF w] res(4,3) add, of n] res(2) by (simp add: s')
    moreover have "supply_of s' n = supply_of s n" for n by (simp add: supply_of_def s' k)
    ultimately show ?thesis using c by (simp add: conserved_def)
  qed
  ultimately show ?thesis by (simp add: token_inv_def)
qed

lemma token_apply_inv: "token_inv s \<Longrightarrow> token_apply a s = Inr (s', effs) \<Longrightarrow> token_inv s'"
  by (cases "(a, s)" rule: token_apply.cases)
    (auto intro: create_inv issue_inv transfer_inv fee_inv trade_inv castcoin_inv takecoin_inv opencast_inv closecast_inv)

text \<open>One action on the tables of the contract.\<close>

definition token_step :: "action_context \<times> token_action \<Rightarrow> token_state \<Rightarrow> contract_error + token_state" where
  "token_step a s = drop_effects (token_apply a s)"

interpretation tok_run: action_system token_step token_inv "\<lambda>a. True"
  by unfold_locales (auto simp: token_step_def res_simps intro: token_apply_inv)

subsection \<open>Consequences of the invariant\<close>

lemma stat_supply_bound:
  assumes "token_inv s" shows "0 \<le> supply_of s n" "supply_of s n \<le> max_amount"
  using assms max_amount_pos
  by (auto simp: supply_of_def token_inv_def token_wf_def dest!: stats_okD split: option.splits) (auto simp: stat_ok_def)

lemma bal_le_circ:
  assumes "accounts_ok s" shows "bal_of s a n \<le> circ_of s n"
  using tbl.part_le_total [OF accounts_okD(1) [OF assms], of "\<lambda>(a, m) b. if m = n then amount b else 0" "(a, n)"]
    accounts_okD(3) [OF assms]
  by (auto simp: bal_of_def circ_of_def tbl.part_def split: option.splits if_splits)

lemma two_bal_le_circ:
  assumes "accounts_ok s" "a \<noteq> b" shows "bal_of s a n + bal_of s b n \<le> circ_of s n"
proof -
  let ?s = "s\<lparr>accounts := tbl_del (b, n) (accounts s)\<rparr>"
  have "bal_of ?s a n \<le> circ_of ?s n" using accounts_ok_del [OF assms(1)] by (rule bal_le_circ)
  then show ?thesis
    using assms accounts_okD(1) [OF assms(1)]
    by (auto simp: bal_of_def circ_of_def tbl_simps split: option.splits)
qed

lemma cast_total_nonneg: "casts_ok s \<Longrightarrow> 0 \<le> cast_total s"
  unfolding cast_total_def by (intro tbl.total_nonneg) (auto simp: casts_ok_def cast_ok_def)

lemma circ_le_supply:
  assumes "token_inv s" shows "circ_of s n \<le> supply_of s n"
  using assms cast_total_nonneg [of s] by (auto simp: token_inv_def token_wf_def conserved_def)

lemma sub_balance_succeeds:
  assumes "token_wf s" "has_symbol s (symbol q)" "0 < amount q" "amount q \<le> bal_of s a (symbol_code (symbol q))"
  shows "\<exists>s'. sub_balance a q s = Inr s'"
proof -
  obtain b where b: "tbl_find (accounts s) (a, symbol_code (symbol q)) = Some b" "amount q \<le> amount b"
    using assms(3,4) by (auto simp: bal_of_def split: option.splits)
  have ok: "accounts_ok s" using assms(1) by (rule token_wf_accounts)
  have sy: "symbol b = symbol q"
  proof -
    have "has_symbol s (symbol b)" using assms(1) b by (auto simp: token_wf_def rows_typed_def)
    then show ?thesis using assms(2) accounts_okD(2) [OF ok b(1)] by (auto simp: has_symbol_def)
  qed
  have r: "is_amount_within_range b" "is_amount_within_range q"
    using accounts_okD(4) [OF ok b(1)] assms(3) b(2) by (auto simp: is_amount_within_range_def)
  have "asset_sub b q = Inr (b\<lparr>amount := amount b - amount q\<rparr>)"
    using asset_sub_Inr [OF r] sy b(2) assms(3) r by (auto simp: is_amount_within_range_def)
  then show ?thesis using b by (simp add: sub_balance_def)
qed

lemma add_balance_succeeds:
  assumes "token_wf s" "has_symbol s (symbol q)" "0 < amount q" "is_amount_within_range q"
    "bal_of s a (symbol_code (symbol q)) + amount q \<le> max_amount"
  shows "\<exists>s'. add_balance a q s = Inr s'"
proof (cases "tbl_find (accounts s) (a, symbol_code (symbol q))")
  case (Some b)
  have ok: "accounts_ok s" using assms(1) by (rule token_wf_accounts)
  have "has_symbol s (symbol b)" using assms(1) Some by (auto simp: token_wf_def rows_typed_def)
  then have sy: "symbol b = symbol q"
    using assms(2) accounts_okD(2) [OF ok Some] by (auto simp: has_symbol_def)
  have "asset_add b q = Inr (b\<lparr>amount := amount b + amount q\<rparr>)"
    using asset_add_Inr [OF accounts_okD(4) [OF ok Some] assms(4)] accounts_okD(3) [OF ok Some] sy assms(3,5) Some max_amount_pos
    by (simp add: bal_of_def)
  then show ?thesis using Some by (simp add: add_balance_def)
qed (simp add: add_balance_def)

definition transfer_enabled :: "action_context \<Rightarrow> account_name \<Rightarrow> account_name \<Rightarrow> asset \<Rightarrow> string \<Rightarrow> token_state \<Rightarrow> bool" where
  "transfer_enabled ctx from to q memo s \<longleftrightarrow>
     from \<noteq> to \<and> has_auth ctx from \<and> is_account ctx to \<and> length memo \<le> 256 \<and> has_symbol s (symbol q) \<and>
     0 < amount q \<and> amount q \<le> bal_of s from (symbol_code (symbol q))"

lemma transfer_Inr_iff:
  "transfer ctx from to q memo s = Inr (s', effs) \<longleftrightarrow>
     from \<noteq> to \<and> has_auth ctx from \<and> is_account ctx to \<and> has_symbol s (symbol q) \<and> asset_is_valid q \<and> 0 < amount q \<and>
     length memo \<le> 256 \<and> tok.move from to q s = Inr s' \<and> effs = [Notify from, Notify to]"
  by (auto simp: transfer_def res_simps has_symbol_def tok.move_def)

lemma transfer_succeeds_iff:
  assumes "token_inv s"
  shows "(\<exists>s' effs. transfer ctx from to q memo s = Inr (s', effs)) \<longleftrightarrow> transfer_enabled ctx from to q memo s"
proof
  assume "\<exists>s' effs. transfer ctx from to q memo s = Inr (s', effs)"
  then obtain s' effs where t: "transfer ctx from to q memo s = Inr (s', effs)" by blast
  then show "transfer_enabled ctx from to q memo s"
    using assms tok.move_bal(4) [of s q "from" to s']
    by (auto simp: transfer_Inr_iff transfer_enabled_def token_inv_def token_wf_def valid_range)
next
  assume e: "transfer_enabled ctx from to q memo s"
  have w: "token_wf s" and ok: "accounts_ok s" using assms by (auto simp: token_inv_def token_wf_def)
  let ?n = "symbol_code (symbol q)"
  have le: "bal_of s from ?n + bal_of s to ?n \<le> max_amount"
    using two_bal_le_circ [OF ok, of "from" to ?n] circ_le_supply [OF assms, of ?n] stat_supply_bound [OF assms, of ?n] e
    by (simp add: transfer_enabled_def)
  have r: "is_amount_within_range q"
    using e le tok.bal_nonneg [OF ok, of to ?n] max_amount_pos by (auto simp: transfer_enabled_def is_amount_within_range_def)
  have v: "is_valid_symbol (symbol q)"
    using e w stats_okD [of s ?n]
    by (auto simp: transfer_enabled_def has_symbol_def token_wf_def) (metis stat_ok_def)
  obtain s1 where s1: "sub_balance from q s = Inr s1"
    using sub_balance_succeeds [OF w] e by (auto simp: transfer_enabled_def)
  have q: "0 < amount q" using e by (simp add: transfer_enabled_def)
  have w1: "token_wf s1" using sub_wf [OF w q r s1] .
  have "has_symbol s1 (symbol q)"
    using e sub_keeps(1) [OF ok q r s1] by (simp add: transfer_enabled_def has_symbol_def)
  moreover have "bal_of s1 to ?n + amount q \<le> max_amount"
    using tok.sub_bal [OF ok q r s1, of to ?n] le e by (auto simp: transfer_enabled_def)
  ultimately obtain s2 where "add_balance to q s1 = Inr s2"
    using add_balance_succeeds [OF w1 _ q r] by blast
  then show "\<exists>s' effs. transfer ctx from to q memo s = Inr (s', effs)"
    using e s1 r v unfolding transfer_Inr_iff
    by (auto simp: transfer_enabled_def asset_is_valid_def tok.move_def)
qed

lemma transfer_result:
  assumes "token_inv s" and t: "transfer ctx from to q memo s = Inr (s', effs)"
  shows "(\<forall>a n. bal_of s' a n = bal_of s a n +
         (if n = symbol_code (symbol q) then (if a = to then amount q else if a = from then - amount q else 0) else 0)) \<and>
      stat s' = stat s \<and> coincast s' = coincast s \<and> effs = [Notify from, Notify to]"
proof -
  have ok: "accounts_ok s" using assms by (simp add: token_inv_def token_wf_def)
  have q: "0 < amount q" "is_amount_within_range q" "from \<noteq> to" and e: "effs = [Notify from, Notify to]"
    and m: "tok.move from to q s = Inr s'"
    using t by (auto simp: transfer_Inr_iff valid_range)
  obtain s1 where s1: "sub_balance from q s = Inr s1" "add_balance to q s1 = Inr s'"
    using m by (auto simp: tok.move_def res_simps)
  note k = sub_keeps(1,2) [OF ok q(1,2) s1(1)]
    add_keeps(1,2) [OF tok.sub_inv [OF ok q(1,2) s1(1)] less_imp_le [OF q(1)] q(2) s1(2)]
  show ?thesis
    using tok.sub_bal [OF ok q(1,2) s1(1)]
      tok.add_bal [OF tok.sub_inv [OF ok q(1,2) s1(1)] less_imp_le [OF q(1)] q(2) s1(2)] k q(3) e
    by auto
qed

subsection \<open>Who can spend\<close>

lemma sub_other: "accounts_ok s \<Longrightarrow> 0 < amount q \<Longrightarrow> is_amount_within_range q \<Longrightarrow> sub_balance a q s = Inr s' \<Longrightarrow> b \<noteq> a \<Longrightarrow> bal_of s' b n = bal_of s b n"
  using tok.sub_bal by simp

lemma add_more: "accounts_ok s \<Longrightarrow> 0 \<le> amount q \<Longrightarrow> is_amount_within_range q \<Longrightarrow> add_balance a q s = Inr s' \<Longrightarrow> bal_of s b n \<le> bal_of s' b n"
  using tok.add_bal[of s q a s' b n] by simp

lemma add_other:
  assumes "accounts_ok s" "add_balance a q s = Inr s'" "b \<noteq> a"
  shows "bal_of s' b n = bal_of s b n"
  using assms(2,3) accounts_okD(1)[OF assms(1)]
  by (auto simp: add_balance_def bal_of_def tbl_find_put res_simps split: option.splits)

lemma bal_of_coincast [simp]: "bal_of (s\<lparr>coincast := t\<rparr>) a n = bal_of s a n" "bal_of (s\<lparr>stat := u\<rparr>) a n = bal_of s a n"
  by (simp_all add: bal_of_def)

lemma move_other:
  assumes "accounts_ok s" "0 < amount q" "is_amount_within_range q" "sub_balance a q s = Inr s1" "add_balance b q s1 = Inr s2" "c \<noteq> a"
  shows "bal_of s c n \<le> bal_of s2 c n"
  using sub_other[OF assms(1-4,6), of n] add_more[OF tok.sub_inv[OF assms(1-4)] less_imp_le[OF assms(2)] assms(3,5), of c n] by simp

lemma transfer_other:
  assumes "token_inv s" "transfer ctx from to q memo s = Inr (s', effs)" "\<not> has_auth ctx c"
  shows "bal_of s c n \<le> bal_of s' c n"
proof -
  have "c \<noteq> from" "0 < amount q" using assms(2,3) by (auto simp: transfer_def res_simps)
  then show ?thesis using transfer_result[OF assms(1,2)] by auto
qed

lemma spend_needs_auth:
  assumes inv: "token_inv s" and run: "token_apply (ctx, a) s = Inr (s', effs)" and no: "\<not> has_auth ctx c"
  shows "bal_of s c n \<le> bal_of s' c n"
proof -
  have ok: "accounts_ok s" using inv by (simp add: token_inv_def token_wf_def)
  have ok': "accounts_ok (s\<lparr>stat := t\<rparr>)" for t using ok by (simp add: accounts_ok_def)
  show ?thesis
  proof (cases a)
    case (Create i m)
    then show ?thesis using run by (auto simp: create_def Let_def res_simps)
  next
    case (Issue t q m)
    then obtain st iss where i: "0 < amount q" "is_amount_within_range q" "add_balance iss q (s\<lparr>stat := st\<rparr>) = Inr s'"
      using run by (auto simp: issue_def Let_def res_simps valid_range)
    from add_more[OF ok' less_imp_le[OF i(1)] i(2,3), of c n] show ?thesis by simp
  next
    case (Transfer f t q m)
    then show ?thesis using run transfer_other[OF inv _ no] by simp
  next
    case (Fee p q)
    then obtain s1 where i: "0 < amount q" "is_amount_within_range q" "sub_balance p q s = Inr s1" "add_balance fee_account_name q s1 = Inr s'"
      and p: "has_auth ctx p"
      using run by (auto simp: fee_def res_simps valid_range)
    have "c \<noteq> p" using p no by auto
    from move_other[OF ok i this] show ?thesis .
  next
    case (Trade f t q ty m)
    then show ?thesis using run transfer_other[OF inv _ no] by (auto simp: trade_def res_simps split: if_splits)
  next
    case (Castcoin f t q)
    then obtain s1 cc where i: "0 < amount q" "is_amount_within_range q" "sub_balance f q s = Inr s1" "s' = s1\<lparr>coincast := cc\<rparr>"
      and f: "has_auth ctx f"
      using run by (auto simp: castcoin_def res_simps valid_range)
    have "c \<noteq> f" using f no by auto
    from sub_other[OF ok i(1-3) this, of n] show ?thesis using i(4) by simp
  next
    case (Takecoin t)
    then have "t \<noteq> c" using run no by (auto simp: takecoin_def res_simps)
    moreover obtain coin s1 cc where "add_balance t coin s = Inr s1" "s' = s1\<lparr>coincast := cc\<rparr>"
      using Takecoin run by (auto simp: takecoin_def res_simps)
    ultimately show ?thesis using add_other[OF ok, of t coin s1 c n] by simp
  next
    case (Opencast t)
    then show ?thesis using run by (auto simp: opencast_def res_simps)
  next
    case (Closecast t b)
    then show ?thesis using run by (auto simp: closecast_def res_simps)
  qed
qed

subsection \<open>A genesis state\<close>

text \<open>The core token with its supply in one account, as the node sets it up at genesis.\<close>

definition genesis_ctx :: "account_name \<Rightarrow> action_context" where
  "genesis_ctx a = \<lparr>authorization = [(a, active_name)], self = token_account_name, block_num = 100, time_now = 0,
     is_account = (\<lambda>_. True)\<rparr>"

definition genesis_state :: token_state where
  "genesis_state = \<lparr>accounts = [((1, symbol_code CORE_SYMBOL), \<lparr>amount = 1000, symbol = CORE_SYMBOL\<rparr>)],
     stat = [(symbol_code CORE_SYMBOL, \<lparr>stat_supply = \<lparr>amount = 1000, symbol = CORE_SYMBOL\<rparr>,
        stat_max_supply = \<lparr>amount = 5000, symbol = CORE_SYMBOL\<rparr>, stat_issuer = 1\<rparr>)],
     coincast = []\<rparr>"

lemma genesis_inv: "token_inv genesis_state"
proof -
  show ?thesis
    using CORE_SYMBOL_valid
    by (auto simp: tbl_ok_Cons genesis_state_def token_inv_def token_wf_def accounts_ok_def stats_ok_def casts_ok_def rows_typed_def
        has_symbol_def stat_ok_def conserved_def supply_of_def circ_of_def cast_total_def tbl.total_def tbl_find_def
        max_amount_def)
qed

subsection \<open>Properties\<close>

text \<open>C5. Conservation. Starting from a state in which the books balance, after every sequence of actions
  (successful or refused), for every symbol: the recorded supply is the sum of all account balances, plus
  the coins held in open casts for the core symbol; no balance is negative; and the supply stays within
  the maximum supply.\<close>

theorem token_supply_conserved:
  assumes "token_inv s" and "s' = run_actions token_step acts s"
  shows "supply_of s' n = circ_of s' n + (if n = symbol_code CORE_SYMBOL then cast_total s' else 0) \<and>
    0 \<le> bal_of s' a n \<and> bal_of s' a n \<le> supply_of s' n \<and>
    (\<forall>st. tbl_find (stat s') n = Some st \<longrightarrow> supply_of s' n \<le> amount (stat_max_supply st))"
proof -
  have i: "token_inv s'" unfolding assms(2) by (rule tok_run.run_inv [OF assms(1)]) (simp add: list_all_iff)
  then have ok: "accounts_ok s'" and c: "conserved s'" and st: "stats_ok s'" by (auto simp: token_inv_def token_wf_def)
  have "supply_of s' n \<le> amount (stat_max_supply st)" if "tbl_find (stat s') n = Some st" for st
    using stats_okD [OF st that] that by (simp add: supply_of_def stat_ok_def)
  then show ?thesis
    using c tok.bal_nonneg [OF ok] bal_le_circ [OF ok, of a n] circ_le_supply [OF i, of n]
    by (simp add: conserved_def)
qed

lemma genesis_transfer:
  "run_actions token_step [(genesis_ctx 1, Transfer 1 2 \<lparr>amount = 100, symbol = CORE_SYMBOL\<rparr> [])] genesis_state =
    genesis_state\<lparr>accounts := [((1, symbol_code CORE_SYMBOL), \<lparr>amount = 900, symbol = CORE_SYMBOL\<rparr>),
      ((2, symbol_code CORE_SYMBOL), \<lparr>amount = 100, symbol = CORE_SYMBOL\<rparr>)]\<rparr>"
  using CORE_SYMBOL_valid
  by (simp add: run_actions_def apply_action_def token_step_def drop_effects_def transfer_def genesis_ctx_def genesis_state_def require_auth_def has_auth_def
      tbl_find_def asset_is_valid_def is_amount_within_range_def max_amount_def sub_balance_def add_balance_def
      asset_sub_def s64_def)

theorem token_supply_conserved_witness:
  "token_inv genesis_state \<and>
   (let s' = run_actions token_step
        [(genesis_ctx 1, Transfer 1 2 \<lparr>amount = 100, symbol = CORE_SYMBOL\<rparr> [])] genesis_state in
    bal_of s' 2 (symbol_code CORE_SYMBOL) = 100 \<and>
    supply_of s' (symbol_code CORE_SYMBOL) = circ_of s' (symbol_code CORE_SYMBOL) + cast_total s')"
  using genesis_inv token_supply_conserved [OF genesis_inv refl,
      of "[(genesis_ctx 1, Transfer 1 2 \<lparr>amount = 100, symbol = CORE_SYMBOL\<rparr> [])]" "symbol_code CORE_SYMBOL" 2]
  by (simp add: Let_def) (simp add: genesis_transfer bal_of_def tbl_find_def)

text \<open>C17. A transfer goes through exactly when the sender differs from the receiver and has authorised it,
  the receiver exists, the token exists with the same precision, the amount is positive and covered by the
  sender's balance, and the memo is at most 256 bytes; no transfer that these conditions allow is refused for
  an overflow. It then moves the amount from the sender to the receiver, leaves every other balance and
  every other table as it was, and notifies both.\<close>

theorem transfer_correct:
  assumes "token_inv s"
  shows "((\<exists>r. transfer ctx from to q memo s = Inr r) \<longleftrightarrow> transfer_enabled ctx from to q memo s) \<and>
    (\<forall>s' effs. transfer ctx from to q memo s = Inr (s', effs) \<longrightarrow>
      (\<forall>a n. bal_of s' a n = bal_of s a n +
         (if n = symbol_code (symbol q) then (if a = to then amount q else if a = from then - amount q else 0) else 0)) \<and>
      stat s' = stat s \<and> coincast s' = coincast s \<and> effs = [Notify from, Notify to])"
  using transfer_succeeds_iff [OF assms] transfer_result [OF assms] by auto

theorem transfer_correct_witness:
  "token_inv genesis_state \<and>
   (\<exists>r. transfer (genesis_ctx 1) 1 2 \<lparr>amount = 100, symbol = CORE_SYMBOL\<rparr> [] genesis_state = Inr r) \<and>
   \<not> (\<exists>r. transfer (genesis_ctx 1) 1 2 \<lparr>amount = 1001, symbol = CORE_SYMBOL\<rparr> [] genesis_state = Inr r)"
proof -
  have "transfer_enabled (genesis_ctx 1) 1 2 \<lparr>amount = a, symbol = CORE_SYMBOL\<rparr> [] genesis_state \<longleftrightarrow> 0 < a \<and> a \<le> 1000" for a
    by (simp add: transfer_enabled_def has_symbol_def genesis_ctx_def genesis_state_def has_auth_def bal_of_def tbl_find_def)
  then show ?thesis
    using genesis_inv transfer_correct [OF genesis_inv, of "genesis_ctx 1" 1 2 _ "[]"] by simp
qed

text \<open>C34. Nobody spends the tokens of somebody else: no action of the contract lowers a balance of an account whose
  authorization the action does not carry.\<close>

theorem token_spend_authorized:
  assumes "token_inv s" and "token_apply (ctx, a) s = Inr (s', effs)" and "\<not> has_auth ctx c"
  shows "bal_of s c n \<le> bal_of s' c n"
  by (rule spend_needs_auth[OF assms])

theorem token_spend_authorized_witness:
  "\<exists>s' effs. token_apply (genesis_ctx 1, Transfer 1 2 \<lparr>amount = 100, symbol = CORE_SYMBOL\<rparr> []) genesis_state = Inr (s', effs)
     \<and> bal_of genesis_state 2 (symbol_code CORE_SYMBOL) \<le> bal_of s' 2 (symbol_code CORE_SYMBOL)"
proof -
  obtain r where r: "token_apply (genesis_ctx 1, Transfer 1 2 \<lparr>amount = 100, symbol = CORE_SYMBOL\<rparr> []) genesis_state = Inr r"
    using transfer_succeeds_iff[OF genesis_inv, of "genesis_ctx 1" 1 2 "\<lparr>amount = 100, symbol = CORE_SYMBOL\<rparr>" "[]"]
    by (auto simp: transfer_enabled_def has_symbol_def genesis_ctx_def genesis_state_def has_auth_def bal_of_def tbl_find_def)
  moreover have "\<not> has_auth (genesis_ctx 1) 2" by (simp add: has_auth_def genesis_ctx_def)
  ultimately show ?thesis
    using token_spend_authorized[OF genesis_inv, of "genesis_ctx 1" _ "fst r" "snd r" 2 "symbol_code CORE_SYMBOL"] by (metis prod.collapse)
qed

end
