(* ===== verification/System_Voting.thy ===== *)
theory System_Voting
  imports System_State Token
begin

text \<open>
  Staking and voting in \<open>force.system\<close>: \<open>voting.cpp\<close>, \<open>vote4ram.cpp\<close>, \<open>multiple_vote.cpp\<close>, and the settlement of vote
  rewards (\<open>settlebpvote\<close>, \<open>settlevoter\<close> of \<open>producer.cpp\<close>).

  A voter freezes tokens, which moves them to the system account, and votes with frozen tokens for producers. The age of a
  vote is the number of voted tokens times the blocks it has stood. Once a day the age of all votes for a producer is
  recorded; the reward of that day is later divided among the voters by their age.
\<close>

subsection \<open>Ages\<close>

text \<open>\<open>tokens * (curr_block_num - update_height)\<close> in 64 bits; the difference is an unsigned 32-bit number.\<close>

definition aged :: "int \<Rightarrow> int \<Rightarrow> int \<Rightarrow> int \<Rightarrow> int" where
  "aged age tokens now height = s64 (age + s64 (tokens * u32 (now - height)))"

definition tokens_of :: "int \<Rightarrow> int" where
  "tokens_of a = tdiv a CORE_SYMBOL_PRECISION"

definition is_integral_stake :: "asset \<Rightarrow> contract_error + 'a \<Rightarrow> contract_error + 'a" where
  "is_integral_stake stake k =
     chk (symbol stake = CORE_SYMBOL) (Assert ''only support CORE SYMBOL token'')
      (chk (0 \<le> amount stake \<and> amount stake mod CORE_SYMBOL_PRECISION = 0)
         (Assert ''need stake quantity >= 0 and quantity is integer'') k)"

subsection \<open>Settlement\<close>

record settle_state =
  st_last_voteage :: int
  st_last_height :: int
  st_reward :: int
  st_cross_day :: bool
  st_records :: "(account_name \<times> int, vote_reward_info) tbl"

definition settle_record :: "account_name \<Rightarrow> int \<Rightarrow> int \<times> vote_reward_info \<Rightarrow> settle_state \<Rightarrow> contract_error + settle_state" where
  "settle_record bpname vote_amt rec st =
     (let r = fst rec; info = snd rec in
      if st_last_height st < u32 r then
        (let day_voteage = aged (st_last_voteage st) (tokens_of vote_amt) r (st_last_height st) in
         bnd (core_mult (vr_total_reward info) day_voteage) (\<lambda>m.
         bnd (core_div m (vr_total_voteage info)) (\<lambda>reward.
         bnd (core_add (st_reward st) reward) (\<lambda>total.
         bnd (core_sub (vr_total_reward info) reward) (\<lambda>rest.
         Inr \<lparr>st_last_voteage = 0, st_last_height = u32 r, st_reward = total, st_cross_day = True,
              st_records = tbl_put (bpname, r) \<lparr>vr_total_voteage = s64 (vr_total_voteage info - day_voteage), vr_total_reward = rest\<rparr>
                 (st_records st)\<rparr>)))))
      else Inr st)"

definition settlevoter :: "int \<Rightarrow> account_name \<Rightarrow> account_name \<Rightarrow> sys_state \<Rightarrow> contract_error + sys_state" where
  "settlevoter now voter bpname s =
     need (tbl_find (bps s) bpname) (Assert ''bpname is not registered'') (\<lambda>bp.
     need (tbl_find (votes s) (voter, bpname)) (Assert ''settlevoter wrong'') (\<lambda>vts.
     bnd (for_each (settle_record bpname (vote_amount vts)) (tbl_scope bpname (vote_rewards s))
            \<lparr>st_last_voteage = voteage vts, st_last_height = voteage_update_height vts, st_reward = 0, st_cross_day = False,
             st_records = vote_rewards s\<rparr>) (\<lambda>st.
     bnd (core_add (total_reward vts) (st_reward st)) (\<lambda>tr.
       Inr (s\<lparr>vote_rewards := st_records st,
              votes := tbl_put (voter, bpname)
                (vts\<lparr>total_reward := tr,
                     voteage := aged (if st_cross_day st then 0 else voteage vts) (tokens_of (vote_amount vts)) now (st_last_height st),
                     voteage_update_height := now\<rparr>) (votes s)\<rparr>)))))"

definition BP_REWARD_RECORD_SIZE :: int where "BP_REWARD_RECORD_SIZE = 360"

text \<open>The oldest record of a full list is erased, and the reward of the second one is dropped.\<close>

definition drop_oldest :: "account_name \<Rightarrow> (account_name \<times> int, vote_reward_info) tbl \<Rightarrow> (account_name \<times> int, vote_reward_info) tbl" where
  "drop_oldest bpname t =
     (case tbl_scope bpname t of
        (r1, i1) # (r2, i2) # rest \<Rightarrow> tbl_del (bpname, r1) (tbl_put (bpname, r2) (i2\<lparr>vr_total_reward := 0\<rparr>) t)
      | _ \<Rightarrow> t)"

definition settle_bp :: "int \<Rightarrow> account_name \<times> bp_info \<Rightarrow> sys_state \<Rightarrow> sys_state" where
  "settle_bp now row s =
     (let bpname = fst row; b = snd row in
      s\<lparr>vote_rewards :=
          (case tbl_find (vote_rewards s) (bpname, now) of
             Some _ \<Rightarrow> vote_rewards s
           | None \<Rightarrow>
               (let t = tbl_put (bpname, now)
                     \<lparr>vr_total_voteage = aged (total_voteage b) (total_staked b) now (bp_voteage_update_height b), vr_total_reward = 0\<rparr>
                     (vote_rewards s)
                in if reward_size b = BP_REWARD_RECORD_SIZE then drop_oldest bpname t else t)),
        bps := tbl_put bpname
          (b\<lparr>bp_voteage_update_height := now, total_voteage := 0,
             reward_size := (if reward_size b \<noteq> BP_REWARD_RECORD_SIZE then reward_size b + 1 else reward_size b)\<rparr>) (bps s)\<rparr>)"

definition settlebpvote :: "int \<Rightarrow> sys_state \<Rightarrow> sys_state" where
  "settlebpvote now s = fold (settle_bp now) (bps s) s"

subsection \<open>Changes of a vote\<close>

text \<open>What a change of the votes for a producer does to its totals.\<close>

definition change_bp :: "int \<Rightarrow> account_name \<Rightarrow> bp_info \<Rightarrow> int \<Rightarrow> sys_state \<Rightarrow> sys_state" where
  "change_bp now bpname b change s =
     s\<lparr>bps := tbl_put bpname
        (b\<lparr>total_voteage := aged (total_voteage b) (total_staked b) now (bp_voteage_update_height b),
           bp_voteage_update_height := now,
           total_staked := s64 (total_staked b + tokens_of change)\<rparr>) (bps s)\<rparr>"

text \<open>Tokens that are taken back from a vote return to the frozen tokens.\<close>

definition return_stake :: "int \<Rightarrow> account_name \<Rightarrow> int \<Rightarrow> sys_state \<Rightarrow> contract_error + sys_state" where
  "return_stake now voter change s =
     (if change < 0 then
        (case tbl_find (freezed s) voter of
           None \<Rightarrow> Inr (s\<lparr>freezed := tbl_put voter \<lparr>staked = core_neg change, unstaking = 0, unstake_height = now\<rparr> (freezed s)\<rparr>)
         | Some f \<Rightarrow> bnd (core_add (staked f) (core_neg change)) (\<lambda>st.
             Inr (s\<lparr>freezed := tbl_put voter (f\<lparr>staked := st, unstake_height := now\<rparr>) (freezed s)\<rparr>)))
      else Inr s)"

definition take_stake :: "account_name \<Rightarrow> int \<Rightarrow> sys_state \<Rightarrow> contract_error + sys_state" where
  "take_stake voter change s =
     (if change > 0 then
        need (tbl_find (freezed s) voter) (Assert ''voter freeze token < vote token'') (\<lambda>f.
          chk (staked f \<ge> change) (Assert ''voter freeze token < vote token'')
           (bnd (core_sub (staked f) change) (\<lambda>st.
             Inr (s\<lparr>freezed := tbl_put voter (f\<lparr>staked := st\<rparr>) (freezed s)\<rparr>))))
      else Inr s)"

text \<open>The row of the vote: a first vote is stored, a later one is settled and replaced. The result is the change of the stake.\<close>

definition cast_vote :: "int \<Rightarrow> account_name \<Rightarrow> account_name \<Rightarrow> int \<Rightarrow> sys_state \<Rightarrow> contract_error + int \<times> sys_state" where
  "cast_vote now voter bpname a s =
     (case tbl_find (votes s) (voter, bpname) of
        None \<Rightarrow> Inr (a, s\<lparr>votes := tbl_put (voter, bpname)
          \<lparr>vote_amount = a, voteage = 0, voteage_update_height = now, total_reward = 0\<rparr> (votes s)\<rparr>)
      | Some _ \<Rightarrow>
          bnd (settlevoter now voter bpname s) (\<lambda>s1.
          need (tbl_find (votes s1) (voter, bpname)) Table_error (\<lambda>v.
          bnd (core_sub a (vote_amount v)) (\<lambda>change.
          bnd (return_stake now voter change s1) (\<lambda>s2.
          Inr (change, s2\<lparr>votes := tbl_put (voter, bpname) (v\<lparr>vote_amount := a\<rparr>) (votes s2)\<rparr>))))))"

definition vote :: "sys_context \<Rightarrow> account_name \<Rightarrow> account_name \<Rightarrow> asset \<Rightarrow> sys_state \<Rightarrow> sys_state result" where
  "vote sc voter bpname stake s =
     (let now = block_num (sc_ctx sc) in
      require_auth (sc_ctx sc) voter
     (chk (\<not> multiple_vote sc) (Assert ''curr chain is active mutiple vote, no allow vote to simple bp'')
     (chk (tbl_find (creation_bps s) bpname = None) (Assert ''creation bp can not to be voted'')
     (is_integral_stake stake
     (bnd (cast_vote now voter bpname (amount stake) s) (\<lambda>r.
      need (tbl_find (bps (snd r)) bpname) (Assert ''bpname is not registered'') (\<lambda>bp.
      chk (isactive bp \<or> fst r < 0) (Assert ''bp is not active'')
      (bnd (take_stake voter (fst r) (snd r)) (\<lambda>s4.
       Inr (change_bp now bpname bp (fst r) s4, []))))))))))"

definition cast_vote4ram :: "int \<Rightarrow> account_name \<Rightarrow> account_name \<Rightarrow> int \<Rightarrow> sys_state \<Rightarrow> contract_error + int \<times> sys_state" where
  "cast_vote4ram now voter bpname a s =
     (case tbl_find (votes4ram s) (voter, bpname) of
        None \<Rightarrow> Inr (a, s\<lparr>votes4ram := tbl_put (voter, bpname)
          \<lparr>vote_amount = a, voteage = 0, voteage_update_height = now, total_reward = 0\<rparr> (votes4ram s)\<rparr>)
      | Some v \<Rightarrow>
          bnd (core_sub a (vote_amount v)) (\<lambda>change.
          bnd (return_stake now voter change s) (\<lambda>s2.
          Inr (change, s2\<lparr>votes4ram := tbl_put (voter, bpname)
            (v\<lparr>voteage := aged (voteage v) (tokens_of (vote_amount v)) now (voteage_update_height v),
               voteage_update_height := now, vote_amount := a\<rparr>) (votes4ram s2)\<rparr>))))"

definition vote4ram :: "sys_context \<Rightarrow> account_name \<Rightarrow> account_name \<Rightarrow> asset \<Rightarrow> sys_state \<Rightarrow> sys_state result" where
  "vote4ram sc voter bpname stake s =
     (let now = block_num (sc_ctx sc) in
      require_auth (sc_ctx sc) voter
     (need (tbl_find (bps s) bpname) (Assert ''bpname is not registered'') (\<lambda>bp.
      is_integral_stake stake
     (bnd (cast_vote4ram now voter bpname (amount stake) s) (\<lambda>r.
      chk (isactive bp \<or> fst r < 0) (Assert ''bp is not active'')
      (bnd (take_stake voter (fst r) (snd r)) (\<lambda>s4.
       bnd (case tbl_find (vote4ramsum s4) voter of None \<Rightarrow> Inr (amount stake) | Some t \<Rightarrow> core_add t (fst r)) (\<lambda>sum.
        Inr ((change_bp now bpname bp (fst r) s4)\<lparr>vote4ramsum := tbl_put voter sum (vote4ramsum s4)\<rparr>,
             [Need_check_ram_limit voter])))))))))"

subsection \<open>Multiple votes\<close>

record producer_delta =
  delta :: int
  is_old :: bool

definition add_delta :: "(int \<Rightarrow> contract_error + int) \<Rightarrow> bool \<Rightarrow> account_name \<Rightarrow> (account_name, producer_delta) tbl
    \<Rightarrow> contract_error + (account_name, producer_delta) tbl" where
  "add_delta f old p ds =
     (let d = (case tbl_find ds p of None \<Rightarrow> \<lparr>delta = 0, is_old = False\<rparr> | Some d \<Rightarrow> d) in
      bnd (f (delta d)) (\<lambda>x. Inr (tbl_put p \<lparr>delta = x, is_old = is_old d \<or> old\<rparr> ds)))"

definition apply_delta :: "int \<Rightarrow> account_name \<Rightarrow> account_name \<times> producer_delta \<Rightarrow> sys_state \<Rightarrow> contract_error + sys_state" where
  "apply_delta now voter pd s =
     (let p = fst pd; change = delta (snd pd) in
      if change = 0 then Inr s
      else need (tbl_find (bps s) p) (Assert ''bp is not found!'') (\<lambda>bp.
        bnd (case tbl_find (votes s) (voter, p) of
               None \<Rightarrow> chk (change > 0) (Assert ''for no vote bp, cannot del vote'')
                 (Inr \<lparr>vote_amount = change, voteage = 0, voteage_update_height = now, total_reward = 0\<rparr>)
             | Some v \<Rightarrow> bnd (core_add (vote_amount v) change) (\<lambda>sum.
                 chk (sum \<ge> 0) (Assert ''canot change vote < 0'')
                 (Inr (v\<lparr>voteage := aged (voteage v) (tokens_of (vote_amount v)) now (voteage_update_height v),
                         voteage_update_height := now, vote_amount := sum\<rparr>)))) (\<lambda>v'.
        chk (isactive bp \<or> change < 0) (Assert ''bp is not active'')
         (Inr (change_bp now p bp change (s\<lparr>votes := tbl_put (voter, p) v' (votes s)\<rparr>))))))"

definition update_votes :: "sys_context \<Rightarrow> account_name \<Rightarrow> account_name list \<Rightarrow> sys_state \<Rightarrow> contract_error + sys_state" where
  "update_votes sc voter_name ps s =
     chk (multiple_vote sc) (Assert ''curr chain multiple vote is not active'')
     (chk (length ps \<le> 30) (Assert ''attempt to vote for too many producers'')
     (chk (sorted_wrt (<) ps) (Assert ''producer votes must be unique and sorted'')
     (need (tbl_find (freezed s) voter_name) (Assert ''voter need freeze first'') (\<lambda>f.
      bnd (case tbl_find (mvotes s) voter_name of
             None \<Rightarrow> Inr []
           | Some m \<Rightarrow> for_each (add_delta (\<lambda>x. core_sub x (mv_staked m)) True) (mv_producers m) []) (\<lambda>ds.
      bnd (for_each (add_delta (\<lambda>x. core_add x (staked f)) False) ps ds) (\<lambda>ds.
        for_each (apply_delta (block_num (sc_ctx sc)) voter_name) ds
          (s\<lparr>mvotes := tbl_put voter_name \<lparr>mv_producers = ps, mv_staked = staked f\<rparr> (mvotes s)\<rparr>)))))))"

definition voteproducer :: "sys_context \<Rightarrow> account_name \<Rightarrow> account_name list \<Rightarrow> sys_state \<Rightarrow> sys_state result" where
  "voteproducer sc voter_name ps s =
     require_auth (sc_ctx sc) voter_name (bnd (update_votes sc voter_name ps s) (\<lambda>s'. Inr (s', [])))"

subsection \<open>Freezing\<close>

definition transfer_name :: action_name where "transfer_name = string_to_name ''transfer''"

lemma transfer_name_literal [code abstract]: "Word.the_int transfer_name = 14829575313431724032"
  by (simp add: transfer_name_def string_to_name_eval)

definition freeze :: "sys_context \<Rightarrow> account_name \<Rightarrow> asset \<Rightarrow> sys_state \<Rightarrow> sys_state result" where
  "freeze sc voter stake s =
     (let now = block_num (sc_ctx sc) in
      require_auth (sc_ctx sc) voter
     (is_integral_stake stake
     (bnd (case tbl_find (freezed s) voter of
             None \<Rightarrow> Inr (amount stake, s\<lparr>freezed := tbl_put voter \<lparr>staked = amount stake, unstaking = 0, unstake_height = now\<rparr> (freezed s)\<rparr>)
           | Some f \<Rightarrow>
               bnd (core_sub (amount stake) (staked f)) (\<lambda>change.
               bnd (if change < 0 then core_add (unstaking f) (core_neg change) else Inr (unstaking f)) (\<lambda>u.
               let s1 = s\<lparr>freezed := tbl_put voter (f\<lparr>staked := amount stake, unstaking := u,
                             unstake_height := (if change < 0 then now else unstake_height f)\<rparr>) (freezed s)\<rparr> in
               bnd (case tbl_find (mvotes s1) voter of
                      Some m \<Rightarrow> if change \<noteq> 0 then update_votes sc voter (mv_producers m) s1 else Inr s1
                    | None \<Rightarrow> Inr s1) (\<lambda>s2. Inr (change, s2))))) (\<lambda>(change, s').
      Inr (s', if change > 0 then [Inline token_account_name transfer_name [(voter, active_name)]
                 (Transfer_data voter system_account_name (core change) ''freeze'')] else [])))))"

text \<open>The row is copied out of the table (\<open>const auto itr\<close>), and the copy is passed to \<open>modify\<close>, which reads the
  bookkeeping fields of a table item behind it. What it finds there is not defined; \<open>past_copy_ok\<close> says whether they
  happen to be those of the row. If not, \<open>modify\<close> aborts.\<close>

definition FROZEN_DELAY :: int where "FROZEN_DELAY = 3 * 24 * 20 * 60"

definition unfreeze :: "sys_context \<Rightarrow> account_name \<Rightarrow> sys_state \<Rightarrow> sys_state result" where
  "unfreeze sc voter s =
     (let now = block_num (sc_ctx sc) in
      require_auth (sc_ctx sc) voter
     (need (tbl_find (freezed s) voter) (Assert ''voter have not freeze token yet'') (\<lambda>itr.
      chk (u32 (unstake_height itr + FROZEN_DELAY) < now) (Assert ''unfreeze is not available yet'')
      (chk (0 < unstaking itr) (Assert ''need unstaking quantity > 0'')
      (chk (past_copy_ok sc) (Assert ''object passed to modify is not in multi_index'')
       (Inr (s\<lparr>freezed := tbl_put voter (itr\<lparr>unstaking := 0, unstake_height := now\<rparr>) (freezed s)\<rparr>,
             [Inline token_account_name transfer_name [(system_account_name, active_name)]
                (Transfer_data system_account_name voter (core (unstaking itr)) ''unfreeze'')])))))))"

definition get_freezed :: "account_name \<Rightarrow> sys_state \<Rightarrow> contract_error + int" where
  "get_freezed voter s = need (tbl_find (freezed s) voter) (Assert ''voter has not freezed tokens'') (\<lambda>f. Inr (staked f))"

text \<open>Paying with the age of a vote. Neither the votes nor the producer are settled first.\<close>

definition vote_fee :: "sys_context \<Rightarrow> account_name \<Rightarrow> account_name \<Rightarrow> int \<Rightarrow> sys_state \<Rightarrow> sys_state result" where
  "vote_fee sc payer bpname age s =
     (let now = block_num (sc_ctx sc) in
      require_auth (sc_ctx sc) payer
     (need (tbl_find (bps s) bpname) (Assert ''bpname is not registered'') (\<lambda>bp.
      let newest_total = aged (total_voteage bp) (total_staked bp) now (bp_voteage_update_height bp) in
      need (tbl_find (votes s) (payer, bpname)) (Assert ''voter have not add votes to the the producer yet'') (\<lambda>vts.
      let newest = aged (voteage vts) (tokens_of (vote_amount vts)) now (voteage_update_height vts) in
      chk (age > 0 \<and> age \<le> newest) (Assert ''voteage must be greater than zero and have sufficient voteage!'')
       (Inr (s\<lparr>votes := tbl_put (payer, bpname) (vts\<lparr>voteage := s64 (newest - age), voteage_update_height := now\<rparr>) (votes s),
               bps := tbl_put bpname (bp\<lparr>total_voteage := s64 (newest_total - age), bp_voteage_update_height := now\<rparr>) (bps s)\<rparr>, []))))))"

subsection \<open>Stakes and their sums\<close>

definition freeze_stake :: "account_name \<Rightarrow> freeze_info \<Rightarrow> int" where
  "freeze_stake k f = staked f + unstaking f"

definition vote_stake :: "account_name \<times> account_name \<Rightarrow> vote_info \<Rightarrow> int" where
  "vote_stake k v = vote_amount v"

definition vote_for :: "account_name \<Rightarrow> account_name \<times> account_name \<Rightarrow> vote_info \<Rightarrow> int" where
  "vote_for b k v = (if snd k = b then vote_amount v else 0)"

definition total_stake :: "sys_state \<Rightarrow> int" where
  "total_stake s = tbl.total freeze_stake (freezed s) + tbl.total vote_stake (votes s) + tbl.total vote_stake (votes4ram s)"

definition bp_votes :: "account_name \<Rightarrow> sys_state \<Rightarrow> int" where
  "bp_votes b s = tbl.total (vote_for b) (votes s) + tbl.total (vote_for b) (votes4ram s)"

definition freeze_ok :: "(account_name, freeze_info) tbl \<Rightarrow> bool" where
  "freeze_ok t \<longleftrightarrow> tbl_ok t \<and> (\<forall>k f. tbl_find t k = Some f \<longrightarrow> 0 \<le> staked f \<and> staked f \<le> max_amount \<and> 0 \<le> unstaking f \<and> unstaking f \<le> max_amount)"

definition votes_ok :: "(account_name \<times> account_name, vote_info) tbl \<Rightarrow> bool" where
  "votes_ok t \<longleftrightarrow> tbl_ok t \<and> (\<forall>k v. tbl_find t k = Some v \<longrightarrow> 0 \<le> vote_amount v \<and> vote_amount v \<le> max_amount \<and> CORE_SYMBOL_PRECISION dvd vote_amount v)"

text \<open>The well-formedness of the staking tables: stakes are in range, and the total of a producer is the sum of the votes
  for it.\<close>

definition stakes_ok :: "sys_state \<Rightarrow> bool" where
  "stakes_ok s \<longleftrightarrow> freeze_ok (freezed s) \<and> votes_ok (votes s) \<and> votes_ok (votes4ram s) \<and> tbl_ok (bps s) \<and> mvotes s = []
     \<and> (\<forall>b. bp_votes b s = (case tbl_find (bps s) b of None \<Rightarrow> 0 | Some i \<Rightarrow> total_staked i * CORE_SYMBOL_PRECISION))"

lemma freeze_okD:
  assumes "freeze_ok t" shows "tbl_ok t" "tbl_find t k = Some f \<Longrightarrow> 0 \<le> staked f \<and> staked f \<le> max_amount \<and> 0 \<le> unstaking f \<and> unstaking f \<le> max_amount"
  using assms by (auto simp: freeze_ok_def)

lemma votes_okD:
  assumes "votes_ok t" shows "tbl_ok t" "tbl_find t k = Some v \<Longrightarrow> 0 \<le> vote_amount v \<and> vote_amount v \<le> max_amount \<and> CORE_SYMBOL_PRECISION dvd vote_amount v"
  using assms unfolding votes_ok_def by blast+

lemma freeze_ok_put:
  "freeze_ok t \<Longrightarrow> 0 \<le> staked f \<Longrightarrow> staked f \<le> max_amount \<Longrightarrow> 0 \<le> unstaking f \<Longrightarrow> unstaking f \<le> max_amount \<Longrightarrow> freeze_ok (tbl_put k f t)"
  by (auto simp: freeze_ok_def tbl_ok_put tbl_find_put split: if_splits)

lemma votes_ok_put:
  assumes "votes_ok t" "0 \<le> vote_amount v" "vote_amount v \<le> max_amount" "CORE_SYMBOL_PRECISION dvd vote_amount v"
  shows "votes_ok (tbl_put k v t)"
  using votes_okD[OF assms(1)] assms(2-) unfolding votes_ok_def
  by (auto simp: tbl_ok_put tbl_find_put[OF votes_okD(1)[OF assms(1)]] split: if_splits)

lemma total_freeze_put:
  "freeze_ok t \<Longrightarrow> tbl.total freeze_stake (tbl_put k f t) = tbl.total freeze_stake t
     - (case tbl_find t k of None \<Rightarrow> 0 | Some g \<Rightarrow> staked g + unstaking g) + staked f + unstaking f"
  using tbl.total_store[OF freeze_okD(1), of t freeze_stake k f] by (simp add: tbl.part_def freeze_stake_def split: option.splits)

lemma total_votes_put:
  assumes "votes_ok t"
  shows "tbl.total vote_stake (tbl_put k v t) = tbl.total vote_stake t - (case tbl_find t k of None \<Rightarrow> 0 | Some g \<Rightarrow> vote_amount g) + vote_amount v"
    "tbl.total (vote_for b) (tbl_put k v t) = tbl.total (vote_for b) t
      + (if snd k = b then vote_amount v - (case tbl_find t k of None \<Rightarrow> 0 | Some g \<Rightarrow> vote_amount g) else 0)"
  using tbl.total_store[OF votes_okD(1)[OF assms], of vote_stake k v] tbl.total_store[OF votes_okD(1)[OF assms], of "vote_for b" k v]
  by (auto simp: tbl.part_def vote_stake_def vote_for_def split: option.splits)

lemma max_amount_small: "max_amount < 2 ^ 62" "0 < max_amount"
  by (simp_all add: max_amount_def)

lemma return_stake_result:
  assumes "return_stake now voter change s = Inr s'" "freeze_ok (freezed s)" "in_range change"
  shows "\<exists>fz. s' = s\<lparr>freezed := fz\<rparr> \<and> freeze_ok fz \<and> tbl.total freeze_stake fz = tbl.total freeze_stake (freezed s) + max 0 (- change)"
proof (cases "change < 0")
  case False
  then show ?thesis using assms by (intro exI[of _ "freezed s"]) (auto simp: return_stake_def)
next
  case True
  note n = core_neg_eq[OF assms(3)]
  show ?thesis
  proof (cases "tbl_find (freezed s) voter")
    case None
    then show ?thesis
      using True assms n total_freeze_put[OF assms(2), of voter] freeze_ok_put[OF assms(2), of _ voter] max_amount_small
      by (intro exI[of _ "freezed s'"]) (auto simp: return_stake_def in_range_def)
  next
    case (Some f)
    have f: "0 \<le> staked f" "staked f \<le> max_amount" "0 \<le> unstaking f" "unstaking f \<le> max_amount" using freeze_okD(2)[OF assms(2) Some] by auto
    have "in_range (staked f)" "in_range (- change)" using f assms(3) by (auto simp: in_range_def)
    then obtain "in_range (staked f - change)" "s' = s\<lparr>freezed := tbl_put voter (f\<lparr>staked := staked f - change, unstake_height := now\<rparr>) (freezed s)\<rparr>"
      using assms(1) True Some n by (auto simp: return_stake_def res_simps core_simps)
    then show ?thesis
      using True Some f total_freeze_put[OF assms(2), of voter] freeze_ok_put[OF assms(2), of _ voter]
      by (intro exI[of _ "freezed s'"]) (auto simp: in_range_def)
  qed
qed

lemma take_stake_result:
  assumes "take_stake voter change s = Inr s'" "freeze_ok (freezed s)"
  shows "\<exists>fz. s' = s\<lparr>freezed := fz\<rparr> \<and> freeze_ok fz \<and> tbl.total freeze_stake fz = tbl.total freeze_stake (freezed s) - max 0 change
    \<and> change \<le> max_amount"
proof (cases "change > 0")
  case False
  then show ?thesis using assms max_amount_small by (intro exI[of _ "freezed s"]) (auto simp: take_stake_def)
next
  case True
  then obtain f where f: "tbl_find (freezed s) voter = Some f" "change \<le> staked f"
    using assms(1) by (auto simp: take_stake_def res_simps)
  have g: "0 \<le> staked f" "staked f \<le> max_amount" "0 \<le> unstaking f" "unstaking f \<le> max_amount" using freeze_okD(2)[OF assms(2) f(1)] by auto
  have "in_range (staked f)" "in_range change" using f g True by (auto simp: in_range_def)
  then have "s' = s\<lparr>freezed := tbl_put voter (f\<lparr>staked := staked f - change\<rparr>) (freezed s)\<rparr>"
    using assms(1) True f by (auto simp: take_stake_def res_simps core_simps)
  then show ?thesis
    using True f g total_freeze_put[OF assms(2), of voter] freeze_ok_put[OF assms(2), of _ voter]
    by (intro exI[of _ "freezed s'"]) auto
qed

text \<open>Settling changes ages and rewards, not stakes.\<close>

lemma settlevoter_frame:
  assumes "settlevoter now voter b s = Inr s1"
  shows "\<exists>v v' vr. tbl_find (votes s) (voter, b) = Some v \<and> vote_amount v' = vote_amount v
    \<and> s1 = s\<lparr>vote_rewards := vr, votes := tbl_put (voter, b) v' (votes s)\<rparr>"
proof -
  obtain v and st :: settle_state and tr where v: "tbl_find (votes s) (voter, b) = Some v"
    "s1 = s\<lparr>vote_rewards := st_records st, votes := tbl_put (voter, b)
       (v\<lparr>total_reward := tr, voteage := aged (if st_cross_day st then 0 else voteage v) (tokens_of (vote_amount v)) now (st_last_height st),
          voteage_update_height := now\<rparr>) (votes s)\<rparr>"
    using assms unfolding settlevoter_def need_Inr bnd_Inr sum.inject by metis
  let ?v = "v\<lparr>total_reward := tr, voteage := aged (if st_cross_day st then 0 else voteage v) (tokens_of (vote_amount v)) now (st_last_height st),
          voteage_update_height := now\<rparr>"
  show ?thesis by (intro exI[of _ v] exI[of _ ?v] exI[of _ "st_records st"] conjI v) simp
qed

lemma tokens_exact: "CORE_SYMBOL_PRECISION dvd a \<Longrightarrow> tokens_of a * CORE_SYMBOL_PRECISION = a"
  by (auto simp: tokens_of_def tdiv_def CORE_SYMBOL_PRECISION_def dvd_def abs_mult sgn_mult mult_sgn_abs mult.commute[of "sgn _"] abs_mult_sgn)

lemma int64_sub:
  assumes "0 \<le> x" "x \<le> INT64_MAX" "0 \<le> a" "a \<le> max_amount"
  shows "core_sub x a = Inr r \<longleftrightarrow> x - a \<le> max_amount \<and> r = x - a"
  using s64_id[of "x - a"] assms by (auto simp: core_sub_def core_range_def res_simps max_amount_def INT64_MIN_def INT64_MAX_def)

lemma bp_votes_nonneg:
  assumes "votes_ok (votes s)" "votes_ok (votes4ram s)" shows "0 \<le> bp_votes b s" "bp_votes b s \<le> tbl.total vote_stake (votes s) + tbl.total vote_stake (votes4ram s)"
proof -
  have p: "0 \<le> tbl.total (vote_for b) t \<and> tbl.total (vote_for b) t \<le> tbl.total vote_stake t" if "votes_ok t" for t
  proof -
    have "tbl.total vote_stake t = tbl.total (vote_for b) t + tbl.total (\<lambda>k v. if snd k = b then 0 else vote_amount v) t"
      unfolding tbl.total_add[symmetric] by (rule tbl.total_cong[OF votes_okD(1)[OF that]]) (auto simp: vote_stake_def vote_for_def)
    moreover have "0 \<le> tbl.total (\<lambda>k v. if snd k = b then 0 else vote_amount v) t" "0 \<le> tbl.total (vote_for b) t"
      using votes_okD[OF that] by (auto intro!: tbl.total_nonneg simp: vote_for_def)
    ultimately show ?thesis by simp
  qed
  show "0 \<le> bp_votes b s" "bp_votes b s \<le> tbl.total vote_stake (votes s) + tbl.total vote_stake (votes4ram s)"
    using p[OF assms(1)] p[OF assms(2)] by (auto simp: bp_votes_def)
qed

lemma stakes_okD:
  assumes "stakes_ok s"
  shows "freeze_ok (freezed s)" "votes_ok (votes s)" "votes_ok (votes4ram s)" "tbl_ok (bps s)" "mvotes s = []"
    "tbl_find (bps s) b = Some i \<Longrightarrow> bp_votes b s = total_staked i * CORE_SYMBOL_PRECISION"
    "tbl_find (bps s) b = None \<Longrightarrow> bp_votes b s = 0"
  using assms by (auto simp: stakes_ok_def split: option.splits)

lemma stakes_okI:
  assumes "freeze_ok (freezed s)" "votes_ok (votes s)" "votes_ok (votes4ram s)" "tbl_ok (bps s)" "mvotes s = []"
    "\<And>b i. tbl_find (bps s) b = Some i \<Longrightarrow> bp_votes b s = total_staked i * CORE_SYMBOL_PRECISION"
    "\<And>b. tbl_find (bps s) b = None \<Longrightarrow> bp_votes b s = 0"
  shows "stakes_ok s"
  using assms by (auto simp: stakes_ok_def split: option.splits)

text \<open>The new total of a producer is exact: it is a share of all stakes, which are in range.\<close>

lemma total_staked_exact:
  assumes "total_staked i * CORE_SYMBOL_PRECISION + change = t" "0 \<le> t" "t \<le> max_amount" "CORE_SYMBOL_PRECISION dvd change"
  shows "s64 (total_staked i + tokens_of change) * CORE_SYMBOL_PRECISION = t"
proof -
  have e: "(total_staked i + tokens_of change) * CORE_SYMBOL_PRECISION = t"
    using assms(1) tokens_exact[OF assms(4)] by (simp add: distrib_right)
  then have "0 \<le> total_staked i + tokens_of change" "total_staked i + tokens_of change \<le> max_amount"
    using assms(2,3) by (auto simp: CORE_SYMBOL_PRECISION_def zero_le_mult_iff) 
  then have "s64 (total_staked i + tokens_of change) = total_staked i + tokens_of change"
    by (intro s64_id) (auto simp: max_amount_def INT64_MIN_def INT64_MAX_def)
  then show ?thesis using e by simp
qed

text \<open>A vote that changes by an amount that leaves or enters the frozen tokens keeps the sums. \<open>put\<close> and \<open>get\<close> select the
  table of the votes.\<close>

lemma recast_ok:
  assumes ok: "stakes_ok s" and small: "total_stake s \<le> max_amount"
    and bp: "tbl_find (bps s) b = Some i"
    and fz: "freeze_ok fz" "tbl.total freeze_stake fz = tbl.total freeze_stake (freezed s) - change"
    and a: "0 \<le> a" "a \<le> max_amount" "CORE_SYMBOL_PRECISION dvd a" "vote_amount v = a"
    and s': "freezed s' = fz" "bps s' = tbl_put b (i\<lparr>total_voteage := x, bp_voteage_update_height := y,
        total_staked := s64 (total_staked i + tokens_of change)\<rparr>) (bps s)" "mvotes s' = mvotes s"
    and tables: "votes s' = tbl_put (voter, b) v (votes s) \<and> votes4ram s' = votes4ram s
        \<and> change = a - (case tbl_find (votes s) (voter, b) of None \<Rightarrow> 0 | Some g \<Rightarrow> vote_amount g)
      \<or> votes4ram s' = tbl_put (voter, b) v (votes4ram s) \<and> votes s' = votes s
        \<and> change = a - (case tbl_find (votes4ram s) (voter, b) of None \<Rightarrow> 0 | Some g \<Rightarrow> vote_amount g)"
  shows "stakes_ok s' \<and> total_stake s' = total_stake s"
proof -
  note d = stakes_okD[OF ok]
  have v: "votes_ok (tbl_put (voter, b) v (votes s))" "votes_ok (tbl_put (voter, b) v (votes4ram s))"
    using votes_ok_put d(2,3) a by auto
  have vo: "votes_ok (votes s')" "votes_ok (votes4ram s')" using tables v d(2,3) by auto
  have bv: "bp_votes c s' = bp_votes c s + (if c = b then change else 0)" for c
    using tables total_votes_put(2)[OF d(2), of c "(voter, b)" v] total_votes_put(2)[OF d(3), of c "(voter, b)" v] a(4)
    by (auto simp: bp_votes_def)
  have tv: "tbl.total vote_stake (votes s') + tbl.total vote_stake (votes4ram s')
      = tbl.total vote_stake (votes s) + tbl.total vote_stake (votes4ram s) + change"
    using tables total_votes_put(1)[OF d(2), of "(voter, b)" v] total_votes_put(1)[OF d(3), of "(voter, b)" v] a(4) by auto
  then have ts: "total_stake s' = total_stake s" using fz(2) s'(1) by (simp add: total_stake_def)
  have "0 \<le> tbl.total freeze_stake fz"
    using freeze_okD[OF fz(1)] by (intro tbl.total_nonneg) (auto simp: freeze_stake_def)
  then have "0 \<le> bp_votes b s'" "bp_votes b s' \<le> max_amount"
    using bp_votes_nonneg[OF vo, of b] ts small s'(1) by (auto simp: total_stake_def)
  moreover have "CORE_SYMBOL_PRECISION dvd change"
    using tables votes_okD(2)[OF d(2)] votes_okD(2)[OF d(3)] a(3) by (auto split: option.splits)
  ultimately have ex: "bp_votes b s' = s64 (total_staked i + tokens_of change) * CORE_SYMBOL_PRECISION"
    using total_staked_exact[of i change "bp_votes b s'"] bv[of b] d(6)[OF bp] by simp
  have f: "tbl_find (bps s') c = (if c = b then Some (i\<lparr>total_voteage := x, bp_voteage_update_height := y,
        total_staked := s64 (total_staked i + tokens_of change)\<rparr>) else tbl_find (bps s) c)" for c
    using s'(2) tbl_find_put[OF d(4)] by simp
  have "tbl_ok (bps s')" using s'(2) tbl_ok_put[OF d(4)] by simp
  then have "stakes_ok s'"
    using vo fz(1) s'(1,3) d(5) ex bv d(6,7) by (intro stakes_okI) (auto simp: f split: if_splits)
  then show ?thesis using ts by simp
qed

lemma settlevoter_stakes:
  assumes "stakes_ok s" "settlevoter now voter b s = Inr s1"
  shows "stakes_ok s1 \<and> total_stake s1 = total_stake s \<and> freezed s1 = freezed s \<and> bps s1 = bps s \<and> mvotes s1 = mvotes s
    \<and> votes4ram s1 = votes4ram s"
proof -
  note d = stakes_okD[OF assms(1)]
  obtain v v' vr where v: "tbl_find (votes s) (voter, b) = Some v" "vote_amount v' = vote_amount v"
    "s1 = s\<lparr>vote_rewards := vr, votes := tbl_put (voter, b) v' (votes s)\<rparr>"
    using settlevoter_frame[OF assms(2)] by blast
  have "votes_ok (votes s1)" using votes_ok_put[OF d(2)] votes_okD(2)[OF d(2) v(1)] v(2,3) by simp
  moreover have bv: "bp_votes c s1 = bp_votes c s" for c
    using total_votes_put(2)[OF d(2), of c "(voter, b)" v'] v by (auto simp: bp_votes_def)
  ultimately have "stakes_ok s1" using d v(3) by (intro stakes_okI) simp_all
  moreover have "total_stake s1 = total_stake s"
    using total_votes_put(1)[OF d(2), of "(voter, b)" v'] v by (simp add: total_stake_def)
  ultimately show ?thesis using v(3) by simp
qed

lemma integral_stake_Inr: "is_integral_stake st k = Inr x \<longleftrightarrow> symbol st = CORE_SYMBOL \<and> 0 \<le> amount st \<and> CORE_SYMBOL_PRECISION dvd amount st \<and> k = Inr x"
  by (auto simp: is_integral_stake_def res_simps CORE_SYMBOL_PRECISION_def)

text \<open>What casting a vote leaves: the row has the new amount, and what it had more before is frozen again.\<close>

lemma cast_vote_result:
  assumes ok: "stakes_ok s" and run: "cast_vote now voter b a s = Inr (change, s3)" and a: "0 \<le> a" "a \<le> INT64_MAX"
  shows "\<exists>s1 fz v. stakes_ok s1 \<and> total_stake s1 = total_stake s \<and> bps s1 = bps s \<and> s3 = s1\<lparr>freezed := fz, votes := tbl_put (voter, b) v (votes s1)\<rparr>
    \<and> vote_amount v = a \<and> change = a - (case tbl_find (votes s1) (voter, b) of None \<Rightarrow> 0 | Some g \<Rightarrow> vote_amount g)
    \<and> freeze_ok fz \<and> tbl.total freeze_stake fz = tbl.total freeze_stake (freezed s1) + max 0 (- change)"
proof (cases "tbl_find (votes s) (voter, b)")
  case None
  then have c: "change = a" "s3 = s\<lparr>votes := tbl_put (voter, b) \<lparr>vote_amount = a, voteage = 0, voteage_update_height = now, total_reward = 0\<rparr> (votes s)\<rparr>"
    using run by (auto simp: cast_vote_def)
  show ?thesis
    by (intro exI[of _ s] exI[of _ "freezed s"] exI[of _ "\<lparr>vote_amount = a, voteage = 0, voteage_update_height = now, total_reward = 0\<rparr>"])
      (use ok c None a stakes_okD(1)[OF ok] in simp)
next
  case (Some v0)
  then obtain s1 v s2 where s1: "settlevoter now voter b s = Inr s1" "tbl_find (votes s1) (voter, b) = Some v"
    "core_sub a (vote_amount v) = Inr change" "return_stake now voter change s1 = Inr s2"
    "s3 = s2\<lparr>votes := tbl_put (voter, b) (v\<lparr>vote_amount := a\<rparr>) (votes s2)\<rparr>"
    using run by (auto simp: cast_vote_def res_simps)
  note k = settlevoter_stakes[OF ok s1(1)]
  note d = stakes_okD[OF conjunct1[OF k]]
  have va: "0 \<le> vote_amount v" "vote_amount v \<le> max_amount" using votes_okD(2)[OF d(2) s1(2)] by auto
  have ch: "change = a - vote_amount v" "change \<le> max_amount" using iffD1[OF int64_sub[OF a va] s1(3)] by auto
  then have "in_range change" using va a(1) by (auto simp: in_range_def)
  then obtain fz where fz: "s2 = s1\<lparr>freezed := fz\<rparr>" "freeze_ok fz"
    "tbl.total freeze_stake fz = tbl.total freeze_stake (freezed s1) + max 0 (- change)"
    using return_stake_result[OF s1(4) d(1)] by blast
  show ?thesis
    by (intro exI[of _ s1] exI[of _ fz] exI[of _ "v\<lparr>vote_amount := a\<rparr>"]) (use k fz s1(2,5) ch in simp)
qed

lemma cast_vote4ram_result:
  assumes ok: "stakes_ok s" and run: "cast_vote4ram now voter b a s = Inr (change, s3)" and a: "0 \<le> a" "a \<le> INT64_MAX"
  shows "\<exists>fz v. s3 = s\<lparr>freezed := fz, votes4ram := tbl_put (voter, b) v (votes4ram s)\<rparr>
    \<and> vote_amount v = a \<and> change = a - (case tbl_find (votes4ram s) (voter, b) of None \<Rightarrow> 0 | Some g \<Rightarrow> vote_amount g)
    \<and> freeze_ok fz \<and> tbl.total freeze_stake fz = tbl.total freeze_stake (freezed s) + max 0 (- change)"
proof (cases "tbl_find (votes4ram s) (voter, b)")
  case None
  then have c: "change = a" "s3 = s\<lparr>votes4ram := tbl_put (voter, b) \<lparr>vote_amount = a, voteage = 0, voteage_update_height = now, total_reward = 0\<rparr> (votes4ram s)\<rparr>"
    using run by (auto simp: cast_vote4ram_def)
  show ?thesis
    by (intro exI[of _ "freezed s"] exI[of _ "\<lparr>vote_amount = a, voteage = 0, voteage_update_height = now, total_reward = 0\<rparr>"])
      (use c None a stakes_okD(1)[OF ok] in simp)
next
  case (Some v)
  let ?v = "v\<lparr>voteage := aged (voteage v) (tokens_of (vote_amount v)) now (voteage_update_height v), voteage_update_height := now, vote_amount := a\<rparr>"
  obtain s2 where s1: "core_sub a (vote_amount v) = Inr change" "return_stake now voter change s = Inr s2"
    "s3 = s2\<lparr>votes4ram := tbl_put (voter, b) ?v (votes4ram s2)\<rparr>"
    using run Some by (auto simp: cast_vote4ram_def res_simps)
  note d = stakes_okD[OF ok]
  have va: "0 \<le> vote_amount v" "vote_amount v \<le> max_amount" using votes_okD(2)[OF d(3) Some] by auto
  have ch: "change = a - vote_amount v" "change \<le> max_amount" using iffD1[OF int64_sub[OF a va] s1(1)] by auto
  then have "in_range change" using va a(1) by (auto simp: in_range_def)
  then obtain fz where fz: "s2 = s\<lparr>freezed := fz\<rparr>" "freeze_ok fz"
    "tbl.total freeze_stake fz = tbl.total freeze_stake (freezed s) + max 0 (- change)"
    using return_stake_result[OF s1(2) d(1)] by blast
  show ?thesis
    by (intro exI[of _ fz] exI[of _ ?v]) (use fz s1(3) ch Some in simp)
qed

lemma change_le_stake:
  assumes "take_stake voter change s3 = Inr s4" "freeze_ok (freezed s3)" "change = a - g" "0 \<le> g" "g \<le> max_amount" "a \<le> INT64_MAX"
    "tbl.total freeze_stake (freezed s3) + g \<le> max_amount + max 0 (- change)"
  shows "a \<le> max_amount"
proof (cases "change > 0")
  case False
  then show ?thesis using assms by simp
next
  case True
  then obtain f where f: "tbl_find (freezed s3) voter = Some f" "change \<le> staked f"
    using assms(1) by (auto simp: take_stake_def res_simps)
  have "freeze_stake voter f \<le> tbl.total freeze_stake (freezed s3)"
    using tbl.part_le_total[OF freeze_okD(1)[OF assms(2)], of freeze_stake voter] freeze_okD(2)[OF assms(2)] f(1)
    by (force simp: tbl.part_def freeze_stake_def)
  moreover have "0 \<le> unstaking f" using freeze_okD(2)[OF assms(2) f(1)] by simp
  ultimately show ?thesis using f(2) assms(3,7) True by (simp add: freeze_stake_def)
qed

lemma vote_le_total: "votes_ok t \<Longrightarrow> 0 \<le> (case tbl_find t k of None \<Rightarrow> 0 | Some g \<Rightarrow> vote_amount g)
    \<and> (case tbl_find t k of None \<Rightarrow> 0 | Some g \<Rightarrow> vote_amount g) \<le> tbl.total vote_stake t \<and> 0 \<le> tbl.total vote_stake t"
  using tbl.part_le_total[OF votes_okD(1), of t vote_stake k] tbl.total_nonneg[OF votes_okD(1), of t vote_stake] votes_okD(2)[of t]
  by (auto simp: tbl.part_def vote_stake_def split: option.splits) 

lemma vote_stakes:
  assumes ok: "stakes_ok s" "total_stake s \<le> max_amount" and run: "vote sc voter b stake s = Inr (s', effs)"
    and ty: "amount stake \<le> INT64_MAX"
  shows "stakes_ok s' \<and> total_stake s' = total_stake s \<and> effs = []"
proof -
  let ?now = "block_num (sc_ctx sc)" and ?a = "amount stake"
  obtain r bp s4 where r: "0 \<le> ?a" "CORE_SYMBOL_PRECISION dvd ?a" "cast_vote ?now voter b ?a s = Inr r"
    "tbl_find (bps (snd r)) b = Some bp" "take_stake voter (fst r) (snd r) = Inr s4" "s' = change_bp ?now b bp (fst r) s4" "effs = []"
    using run by (auto simp: vote_def Let_def res_simps integral_stake_Inr)
  obtain s1 fz v where s1: "stakes_ok s1" "total_stake s1 = total_stake s" "bps s1 = bps s"
    "snd r = s1\<lparr>freezed := fz, votes := tbl_put (voter, b) v (votes s1)\<rparr>" "vote_amount v = ?a"
    "fst r = ?a - (case tbl_find (votes s1) (voter, b) of None \<Rightarrow> 0 | Some g \<Rightarrow> vote_amount g)"
    "freeze_ok fz" "tbl.total freeze_stake fz = tbl.total freeze_stake (freezed s1) + max 0 (- fst r)"
    using cast_vote_result[OF ok(1) _ r(1) ty, of ?now voter b "fst r" "snd r"] r(3) by force
  obtain fz' where fz': "s4 = (snd r)\<lparr>freezed := fz'\<rparr>" "freeze_ok fz'" "tbl.total freeze_stake fz' = tbl.total freeze_stake fz - max 0 (fst r)"
    using take_stake_result[OF r(5)] s1(4,7) by auto
  note d = stakes_okD[OF s1(1)]
  have small: "total_stake s1 \<le> max_amount" using ok(2) s1(2) by simp
  define g where "g = (case tbl_find (votes s1) (voter, b) of None \<Rightarrow> 0 | Some g \<Rightarrow> vote_amount g)"
  have g: "0 \<le> g" "g \<le> tbl.total vote_stake (votes s1)" "0 \<le> tbl.total vote_stake (votes4ram s1)"
    using vote_le_total[OF d(2), of "(voter, b)"] vote_le_total[OF d(3), of "(voter, b)"] by (auto simp: g_def)
  have z: "0 \<le> tbl.total freeze_stake (freezed s1)"
    using freeze_okD[OF d(1)] by (intro tbl.total_nonneg) (auto simp: freeze_stake_def)
  have ch: "fst r = ?a - g" using s1 by (simp add: g_def)
  have "?a \<le> max_amount"
    using change_le_stake[OF r(5) _ ch g(1) _ ty] s1 g z small by (simp add: total_stake_def)
  then show ?thesis
    using recast_ok[OF s1(1) small, of b bp fz' "fst r" ?a v s', where x = "aged (total_voteage bp) (total_staked bp) ?now (bp_voteage_update_height bp)"
        and y = ?now and voter = voter] r s1 fz' ch by (simp add: change_bp_def max_def flip: g_def)
qed

lemma vote4ram_stakes:
  assumes ok: "stakes_ok s" "total_stake s \<le> max_amount" and run: "vote4ram sc voter b stake s = Inr (s', effs)"
    and ty: "amount stake \<le> INT64_MAX"
  shows "stakes_ok s' \<and> total_stake s' = total_stake s \<and> effs = [Need_check_ram_limit voter]"
proof -
  let ?now = "block_num (sc_ctx sc)" and ?a = "amount stake"
  obtain r bp s4 sum where r: "0 \<le> ?a" "CORE_SYMBOL_PRECISION dvd ?a" "cast_vote4ram ?now voter b ?a s = Inr r"
    "tbl_find (bps s) b = Some bp" "take_stake voter (fst r) (snd r) = Inr s4"
    "s' = (change_bp ?now b bp (fst r) s4)\<lparr>vote4ramsum := tbl_put voter sum (vote4ramsum s4)\<rparr>" "effs = [Need_check_ram_limit voter]"
    using run by (auto simp: vote4ram_def Let_def res_simps integral_stake_Inr)
  obtain fz v where s1: "snd r = s\<lparr>freezed := fz, votes4ram := tbl_put (voter, b) v (votes4ram s)\<rparr>" "vote_amount v = ?a"
    "fst r = ?a - (case tbl_find (votes4ram s) (voter, b) of None \<Rightarrow> 0 | Some g \<Rightarrow> vote_amount g)"
    "freeze_ok fz" "tbl.total freeze_stake fz = tbl.total freeze_stake (freezed s) + max 0 (- fst r)"
    using cast_vote4ram_result[OF ok(1) _ r(1) ty, of ?now voter b "fst r" "snd r"] r(3) by force
  obtain fz' where fz': "s4 = (snd r)\<lparr>freezed := fz'\<rparr>" "freeze_ok fz'" "tbl.total freeze_stake fz' = tbl.total freeze_stake fz - max 0 (fst r)"
    using take_stake_result[OF r(5)] s1(1,4) by auto
  note d = stakes_okD[OF ok(1)]
  define g where "g = (case tbl_find (votes4ram s) (voter, b) of None \<Rightarrow> 0 | Some g \<Rightarrow> vote_amount g)"
  have g: "0 \<le> g" "g \<le> tbl.total vote_stake (votes4ram s)" "0 \<le> tbl.total vote_stake (votes s)"
    using vote_le_total[OF d(3), of "(voter, b)"] vote_le_total[OF d(2), of "(voter, b)"] by (auto simp: g_def)
  have z: "0 \<le> tbl.total freeze_stake (freezed s)"
    using freeze_okD[OF d(1)] by (intro tbl.total_nonneg) (auto simp: freeze_stake_def)
  have ch: "fst r = ?a - g" using s1 by (simp add: g_def)
  have "?a \<le> max_amount"
    using change_le_stake[OF r(5) _ ch g(1) _ ty] s1 g z ok(2) by (simp add: total_stake_def)
  then show ?thesis
    using recast_ok[OF ok, of b bp fz' "fst r" ?a v s', where x = "aged (total_voteage bp) (total_staked bp) ?now (bp_voteage_update_height bp)"
        and y = ?now and voter = voter] r s1 fz' ch by (simp add: change_bp_def max_def flip: g_def)
qed

subsection \<open>Staking together with the token contract\<close>

datatype staking_action =
    Freeze account_name asset
  | Unfreeze account_name
  | Vote account_name account_name asset
  | Vote4ram account_name account_name asset
  | Voteproducer account_name "account_name list"
  | Vote_fee account_name account_name int

fun staking_apply :: "sys_context \<Rightarrow> staking_action \<Rightarrow> sys_state \<Rightarrow> sys_state result" where
  "staking_apply sc (Freeze voter stake) s = freeze sc voter stake s"
| "staking_apply sc (Unfreeze voter) s = unfreeze sc voter s"
| "staking_apply sc (Vote voter bpname stake) s = vote sc voter bpname stake s"
| "staking_apply sc (Vote4ram voter bpname stake) s = vote4ram sc voter bpname stake s"
| "staking_apply sc (Voteproducer voter ps) s = voteproducer sc voter ps s"
| "staking_apply sc (Vote_fee payer bpname age) s = vote_fee sc payer bpname age s"

text \<open>The node runs the inline actions of an action after it; when one fails, all is undone.\<close>

definition run_effect :: "action_context \<Rightarrow> effect \<Rightarrow> token_state \<Rightarrow> contract_error + token_state" where
  "run_effect ctx e t =
     (case e of
        Inline acc act perms (Transfer_data from to q memo) \<Rightarrow>
          if acc = token_account_name
          then drop_effects (transfer (ctx\<lparr>authorization := perms, self := token_account_name\<rparr>) from to q memo t)
          else Inr t
      | _ \<Rightarrow> Inr t)"

datatype chain_act = Staking sys_context staking_action | Token_action action_context token_action

fun chain_step :: "chain_act \<Rightarrow> sys_state \<times> token_state \<Rightarrow> contract_error + sys_state \<times> token_state" where
  "chain_step (Staking sc a) (s, t) =
     bnd (staking_apply sc a s) (\<lambda>(s', effs). bnd (for_each (run_effect (sc_ctx sc)) effs t) (\<lambda>t'. Inr (s', t')))"
| "chain_step (Token_action ctx a) (s, t) = bnd (token_apply (ctx, a) t) (\<lambda>(t', effs). Inr (s, t'))"

text \<open>The build without multiple votes; amounts are 64-bit numbers; no action with the authorization of the system account,
  which its contract alone can give, reaches the token contract by itself.\<close>

fun chain_admissible :: "chain_act \<Rightarrow> bool" where
  "chain_admissible (Staking sc a) \<longleftrightarrow> \<not> multiple_vote sc \<and>
     (case a of Freeze v q \<Rightarrow> amount q \<le> INT64_MAX | Vote v b q \<Rightarrow> amount q \<le> INT64_MAX | Vote4ram v b q \<Rightarrow> amount q \<le> INT64_MAX | _ \<Rightarrow> True)"
| "chain_admissible (Token_action ctx a) \<longleftrightarrow> \<not> has_auth ctx system_account_name"

definition core_code :: "64 word" where "core_code = symbol_code CORE_SYMBOL"

definition staking_inv :: "sys_state \<times> token_state \<Rightarrow> bool" where
  "staking_inv st \<longleftrightarrow> stakes_ok (fst st) \<and> token_inv (snd st) \<and> total_stake (fst st) \<le> bal_of (snd st) system_account_name core_code"

lemma bal_le_max: "token_inv t \<Longrightarrow> bal_of t a n \<le> max_amount"
  using bal_le_circ[of t a n] circ_le_supply[of t n] stat_supply_bound(2)[of t n] by (simp add: token_inv_def token_wf_def)

lemma token_account_not_system: "token_account_name \<noteq> system_account_name"
  by code_simp

lemma inline_transfer:
  assumes "token_inv t" "run_effect ctx (Inline token_account_name act perms (Transfer_data from to (core a) memo)) t = Inr t'"
  shows "token_inv t' \<and> 0 < a \<and> from \<noteq> to
    \<and> bal_of t' system_account_name core_code = bal_of t system_account_name core_code
        + (if to = system_account_name then a else if from = system_account_name then - a else 0)"
proof -
  obtain effs where tr: "transfer (ctx\<lparr>authorization := perms, self := token_account_name\<rparr>) from to (core a) memo t = Inr (t', effs)"
    using assms(2) by (auto simp: run_effect_def res_simps)
  have "0 < a" "from \<noteq> to" using tr by (auto simp: transfer_def res_simps core_def)
  then show ?thesis using transfer_result[OF assms(1) tr] transfer_inv[OF assms(1) tr] by (auto simp: core_def core_code_def)
qed

text \<open>Replacing the frozen row of a voter.\<close>

lemma put_freeze_ok:
  assumes "stakes_ok s" "0 \<le> staked f" "staked f \<le> max_amount" "0 \<le> unstaking f" "unstaking f \<le> max_amount"
  shows "stakes_ok (s\<lparr>freezed := tbl_put voter f (freezed s)\<rparr>)
    \<and> total_stake (s\<lparr>freezed := tbl_put voter f (freezed s)\<rparr>) = total_stake s
        - (case tbl_find (freezed s) voter of None \<Rightarrow> 0 | Some g \<Rightarrow> staked g + unstaking g) + staked f + unstaking f"
  using stakes_okD[OF assms(1)] assms freeze_ok_put[of "freezed s" f voter] total_freeze_put[of "freezed s" voter f]
  by (auto simp: stakes_ok_def total_stake_def bp_votes_def)

lemma stake_le_total:
  assumes "stakes_ok s" "tbl_find (freezed s) voter = Some f"
  shows "staked f + unstaking f \<le> total_stake s"
proof -
  note d = stakes_okD[OF assms(1)]
  have "freeze_stake voter f \<le> tbl.total freeze_stake (freezed s)"
    using tbl.part_le_total[OF freeze_okD(1)[OF d(1)], of freeze_stake voter] freeze_okD(2)[OF d(1)] assms(2)
    by (force simp: tbl.part_def freeze_stake_def)
  then show ?thesis using vote_le_total[OF d(2), of undefined] vote_le_total[OF d(3), of undefined] by (simp add: total_stake_def freeze_stake_def)
qed

lemma freeze_inv:
  assumes inv: "staking_inv (s, t)" and run: "freeze sc voter stake s = Inr (s', effs)" "for_each (run_effect (sc_ctx sc)) effs t = Inr t'"
    and ty: "amount stake \<le> INT64_MAX" "\<not> multiple_vote sc"
  shows "staking_inv (s', t')"
proof -
  let ?now = "block_num (sc_ctx sc)" and ?a = "amount stake"
  have ok: "stakes_ok s" and ti: "token_inv t" and sol: "total_stake s \<le> bal_of t system_account_name core_code"
    using inv by (auto simp: staking_inv_def)
  note d = stakes_okD[OF ok]
  have a: "0 \<le> ?a" using run(1) by (auto simp: freeze_def Let_def res_simps integral_stake_Inr)
  obtain change f where f: "s' = s\<lparr>freezed := tbl_put voter f (freezed s)\<rparr>" "staked f = ?a"
    "effs = (if change > 0 then [Inline token_account_name transfer_name [(voter, active_name)]
                 (Transfer_data voter system_account_name (core change) ''freeze'')] else [])"
    "0 \<le> unstaking f \<and> unstaking f \<le> max_amount"
    "?a + unstaking f = (case tbl_find (freezed s) voter of None \<Rightarrow> 0 | Some g \<Rightarrow> staked g + unstaking g) + max 0 change"
    "?a = (case tbl_find (freezed s) voter of None \<Rightarrow> 0 | Some g \<Rightarrow> staked g) + change"
  proof (cases "tbl_find (freezed s) voter")
    case None
    then show ?thesis
      using that[of "\<lparr>staked = ?a, unstaking = 0, unstake_height = ?now\<rparr>" ?a] run(1) a max_amount_small
      by (auto simp: freeze_def Let_def res_simps integral_stake_Inr)
  next
    case (Some g)
    have g: "0 \<le> staked g" "staked g \<le> max_amount" "0 \<le> unstaking g" "unstaking g \<le> max_amount" using freeze_okD(2)[OF d(1) Some] by auto
    obtain change u where c: "core_sub ?a (staked g) = Inr change"
      "(if change < 0 then core_add (unstaking g) (core_neg change) else Inr (unstaking g)) = Inr u"
      "s' = s\<lparr>freezed := tbl_put voter (g\<lparr>staked := ?a, unstaking := u, unstake_height := (if change < 0 then ?now else unstake_height g)\<rparr>) (freezed s)\<rparr>"
      "effs = (if change > 0 then [Inline token_account_name transfer_name [(voter, active_name)]
                 (Transfer_data voter system_account_name (core change) ''freeze'')] else [])"
      using run(1) Some d(5) unfolding freeze_def by (auto simp: Let_def res_simps integral_stake_Inr tbl_find_Nil split del: if_split)
    have ch: "change = ?a - staked g" "change \<le> max_amount" using iffD1[OF int64_sub[OF a ty(1) g(1,2)] c(1)] by auto
    then have "in_range change" "in_range (unstaking g)" "in_range (- change)" using g a by (auto simp: in_range_def)
    then have u: "u = unstaking g + max 0 (- change)" "u \<le> max_amount" using c(2) g by (auto simp: core_simps in_range_def split: if_splits)
    show ?thesis
      by (rule that[of "g\<lparr>staked := ?a, unstaking := u, unstake_height := (if change < 0 then ?now else unstake_height g)\<rparr>" change])
        (use c(3,4) u ch Some g in auto)
  qed
  define old where "old = (case tbl_find (freezed s) voter of None \<Rightarrow> 0 | Some g \<Rightarrow> staked g + unstaking g)"
  have t': "token_inv t' \<and> bal_of t' system_account_name core_code = bal_of t system_account_name core_code + max 0 change"
  proof (cases "change > 0")
    case True
    then show ?thesis using run(2) f(3) inline_transfer[OF ti] by (auto simp: res_simps)
  next
    case False
    then show ?thesis using run(2) f(3) ti by simp
  qed
  have le: "old \<le> total_stake s"
  proof (cases "tbl_find (freezed s) voter")
    case None
    then show ?thesis
      using vote_le_total[OF d(2)] vote_le_total[OF d(3)] tbl.total_nonneg[OF freeze_okD(1)[OF d(1)], of freeze_stake] freeze_okD(2)[OF d(1)]
      by (auto simp: old_def total_stake_def freeze_stake_def)
  qed (use stake_le_total[OF ok] in \<open>auto simp: old_def\<close>)
  have "?a + unstaking f \<le> max_amount"
    using f(5) le sol t' bal_le_max[of t' system_account_name core_code] by (simp add: old_def)
  then show ?thesis
    using put_freeze_ok[OF ok, of f voter] f a t' sol by (auto simp: staking_inv_def old_def)
qed

lemma unfreeze_inv:
  assumes inv: "staking_inv (s, t)" and run: "unfreeze sc voter s = Inr (s', effs)" "for_each (run_effect (sc_ctx sc)) effs t = Inr t'"
  shows "staking_inv (s', t')"
proof -
  have ok: "stakes_ok s" and ti: "token_inv t" and sol: "total_stake s \<le> bal_of t system_account_name core_code"
    using inv by (auto simp: staking_inv_def)
  obtain f where f: "tbl_find (freezed s) voter = Some f" "s' = s\<lparr>freezed := tbl_put voter (f\<lparr>unstaking := 0, unstake_height := block_num (sc_ctx sc)\<rparr>) (freezed s)\<rparr>"
    "effs = [Inline token_account_name transfer_name [(system_account_name, active_name)]
                (Transfer_data system_account_name voter (core (unstaking f)) ''unfreeze'')]"
    using run(1) by (auto simp: unfreeze_def Let_def res_simps)
  have "0 \<le> staked f" "staked f \<le> max_amount" using freeze_okD(2)[OF stakes_okD(1)[OF ok] f(1)] by auto
  moreover have "token_inv t' \<and> bal_of t' system_account_name core_code = bal_of t system_account_name core_code - unstaking f"
    using run(2) f(3) inline_transfer[OF ti, of "sc_ctx sc" transfer_name "[(system_account_name, active_name)]" system_account_name voter "unstaking f" "''unfreeze''" t']
    by (auto simp: res_simps)
  ultimately show ?thesis
    using put_freeze_ok[OF ok, of "f\<lparr>unstaking := 0, unstake_height := block_num (sc_ctx sc)\<rparr>" voter] f sol max_amount_small
    by (simp add: staking_inv_def)
qed

lemma vote_fee_stakes:
  assumes "stakes_ok s" "vote_fee sc payer b age s = Inr (s', effs)"
  shows "stakes_ok s' \<and> total_stake s' = total_stake s \<and> effs = []"
proof -
  note d = stakes_okD[OF assms(1)]
  obtain bp v x y where r: "tbl_find (bps s) b = Some bp" "tbl_find (votes s) (payer, b) = Some v" "effs = []"
    "s' = s\<lparr>votes := tbl_put (payer, b) (v\<lparr>voteage := x, voteage_update_height := block_num (sc_ctx sc)\<rparr>) (votes s),
       bps := tbl_put b (bp\<lparr>total_voteage := y, bp_voteage_update_height := block_num (sc_ctx sc)\<rparr>) (bps s)\<rparr>"
    using assms(2) by (auto simp: vote_fee_def Let_def res_simps)
  have "votes_ok (votes s')" using votes_ok_put[OF d(2)] votes_okD(2)[OF d(2) r(2)] r(4) by simp
  moreover have bv: "bp_votes c s' = bp_votes c s" for c
    using total_votes_put(2)[OF d(2), of c "(payer, b)" "v\<lparr>voteage := x, voteage_update_height := block_num (sc_ctx sc)\<rparr>"] r
    by (auto simp: bp_votes_def)
  moreover have "tbl_find (bps s') c = (if c = b then Some (bp\<lparr>total_voteage := y, bp_voteage_update_height := block_num (sc_ctx sc)\<rparr>)
      else tbl_find (bps s) c)" for c using tbl_find_put[OF d(4)] r(4) by simp
  moreover have "tbl_ok (bps s')" using tbl_ok_put[OF d(4)] r(4) by simp
  ultimately have "stakes_ok s'" using d(1,3,5-7) r(1,4) by (intro stakes_okI) (auto split: if_splits)
  moreover have "total_stake s' = total_stake s"
    using total_votes_put(1)[OF d(2), of "(payer, b)" "v\<lparr>voteage := x, voteage_update_height := block_num (sc_ctx sc)\<rparr>"] r
    by (simp add: total_stake_def)
  ultimately show ?thesis using r(3) by simp
qed

lemma chain_step_inv:
  assumes inv: "staking_inv st" and adm: "chain_admissible a" and run: "chain_step a st = Inr st'"
  shows "staking_inv st'"
proof (cases a)
  case (Token_action ctx act)
  obtain s t where st: "st = (s, t)" by force
  obtain t' effs where t': "token_apply (ctx, act) t = Inr (t', effs)" "st' = (s, t')" using run Token_action st by (auto simp: res_simps)
  have "token_inv t" using inv st by (simp add: staking_inv_def)
  then show ?thesis
    using inv st t' token_apply_inv[OF _ t'(1)] spend_needs_auth[OF _ t'(1), of system_account_name core_code] adm Token_action
    by (auto simp: staking_inv_def)
next
  case (Staking sc act)
  obtain s t where st: "st = (s, t)" by force
  obtain s' effs t' where r: "staking_apply sc act s = Inr (s', effs)" "for_each (run_effect (sc_ctx sc)) effs t = Inr t'" "st' = (s', t')"
    using run Staking st by (auto simp: res_simps)
  have i: "stakes_ok s" "token_inv t" "total_stake s \<le> bal_of t system_account_name core_code" "\<not> multiple_vote sc"
    using inv adm st Staking by (auto simp: staking_inv_def)
  have small: "total_stake s \<le> max_amount" using i(3) bal_le_max[OF i(2), of system_account_name core_code] by simp
  show ?thesis
  proof (cases act)
    case (Freeze v q)
    then show ?thesis using freeze_inv[of s t sc v q s' effs t'] inv st r i(4) adm Staking by simp
  next
    case (Unfreeze v)
    then show ?thesis using unfreeze_inv[of s t sc v s' effs t'] inv st r by simp
  next
    case (Vote v b q)
    then have "stakes_ok s' \<and> total_stake s' = total_stake s \<and> effs = []"
      using vote_stakes[OF i(1) small] r(1) adm Staking by simp
    then show ?thesis using r i by (simp add: staking_inv_def)
  next
    case (Vote4ram v b q)
    then have "stakes_ok s' \<and> total_stake s' = total_stake s \<and> effs = [Need_check_ram_limit v]"
      using vote4ram_stakes[OF i(1) small] r(1) adm Staking by simp
    then show ?thesis using r i by (simp add: staking_inv_def run_effect_def)
  next
    case (Voteproducer v ps)
    then show ?thesis using r(1) i(4) by (auto simp: voteproducer_def update_votes_def res_simps)
  next
    case (Vote_fee p b age)
    then have "stakes_ok s' \<and> total_stake s' = total_stake s \<and> effs = []" using vote_fee_stakes[OF i(1)] r(1) by simp
    then show ?thesis using r i by (simp add: staking_inv_def)
  qed
qed

interpretation staking_run: action_system chain_step staking_inv chain_admissible
  by unfold_locales (rule chain_step_inv)

text \<open>The staking tables before the first action: producers may be registered, nothing is staked.\<close>

definition staking_start :: "sys_state \<Rightarrow> bool" where
  "staking_start s \<longleftrightarrow> freezed s = [] \<and> votes s = [] \<and> votes4ram s = [] \<and> mvotes s = [] \<and> tbl_ok (bps s)
     \<and> list_all (\<lambda>r. total_staked (snd r) = 0) (bps s)"

lemma staking_start_inv:
  assumes "staking_start s" "token_inv t"
  shows "staking_inv (s, t)"
proof -
  have "total_staked i = 0" if "tbl_find (bps s) b = Some i" for b i
    using assms(1) that tbl_rows_find[of "bps s" b i] by (auto simp: staking_start_def list_all_iff)
  then have "stakes_ok s"
    using assms(1) by (intro stakes_okI) (auto simp: staking_start_def freeze_ok_def votes_ok_def bp_votes_def tbl_find_Nil tbl_total_Nil)
  moreover have "0 \<le> bal_of t system_account_name core_code"
    using tok.bal_nonneg assms(2) by (simp add: token_inv_def token_wf_def)
  ultimately show ?thesis using assms by (simp add: staking_inv_def staking_start_def total_stake_def tbl_total_Nil)
qed

subsection \<open>Properties\<close>

definition demo_tokens :: token_state where
  "demo_tokens = \<lparr>accounts = [((1, symbol_code CORE_SYMBOL), core 1000000)],
     stat = [(symbol_code CORE_SYMBOL, \<lparr>stat_supply = core 1000000, stat_max_supply = core 2000000, stat_issuer = system_account_name\<rparr>)],
     coincast = []\<rparr>"

lemma demo_tokens_inv: "token_inv demo_tokens"
  using CORE_SYMBOL_valid
  by (auto simp: demo_tokens_def token_inv_def token_wf_def conserved_def accounts_ok_def stats_ok_def stat_ok_def casts_ok_def rows_typed_def
      has_symbol_def supply_of_def circ_of_def cast_total_def tbl_find_def tbl_ok_def tbl.total_def max_amount_def core_def
      asset_is_valid_def is_amount_within_range_def split: if_splits)

definition demo_sys :: sys_state where
  "demo_sys = empty_sys\<lparr>bps := [(7, new_bp 1)]\<rparr>"

definition demo_sc :: "account_name \<Rightarrow> int \<Rightarrow> sys_context" where
  "demo_sc a n = \<lparr>sc_ctx = \<lparr>authorization = [(a, active_name)], self = system_account_name, block_num = n, time_now = 0, is_account = (\<lambda>_. True)\<rparr>,
     multiple_vote = False, active_producers = [7], coin_rewards = [], past_copy_ok = True\<rparr>"



end
