(* ===== verification/Binary64.thy ===== *)
theory Binary64
  imports Complex_Main Prelude
begin

text \<open>
  The double-precision arithmetic of one expression of the contract \<open>force.system\<close>:
  \<open>static_cast<int64_t>(reward_amount * (double(a) / double(b)))\<close> in \<open>reward_bps\<close>.

  A finite double \<open>m * 2 ^ e\<close> is the pair \<open>(m, e)\<close> with at most 53 bits in \<open>m\<close>. Every operation rounds the exact
  result to the nearest double, ties to even, as IEEE 754 and the interpreter of the node do. The operands come from
  64-bit integers, so the exponents stay far inside the range of a double: neither overflow nor subnormal numbers arise.
\<close>

type_synonym float64 = "int \<times> int"

text \<open>The quotient of two positive integers to the nearest integer, ties to even.\<close>

definition nearest_even :: "int \<Rightarrow> int \<Rightarrow> int" where
  "nearest_even n d =
     (let q = n div d; r = n mod d in if 2 * r < d \<or> 2 * r = d \<and> even q then q else q + 1)"

fun bits_of :: "int \<Rightarrow> nat" where
  "bits_of n = (if n \<le> 0 then 0 else Suc (bits_of (n div 2)))"

declare bits_of.simps [simp del]

text \<open>The binary exponent of a positive ratio: \<open>2 ^ ratio_exponent n d \<le> n / d < 2 * 2 ^ ratio_exponent n d\<close>.\<close>

definition ratio_exponent :: "int \<Rightarrow> int \<Rightarrow> int" where
  "ratio_exponent n d =
     (let l = int (bits_of n) - int (bits_of d) in
      if d * 2 ^ nat l \<le> n * 2 ^ nat (- l) then l else l - 1)"

text \<open>\<open>n / d * 2 ^ e\<close> as a double.\<close>

definition f64_round :: "int \<Rightarrow> int \<Rightarrow> int \<Rightarrow> float64" where
  "f64_round n d e =
     (if n = 0 then (0, 0)
      else let k = 52 - ratio_exponent n d in (nearest_even (n * 2 ^ nat k) (d * 2 ^ nat (- k)), e - k))"

definition f64_of_int :: "int \<Rightarrow> float64" where
  "f64_of_int x = f64_round x 1 0"

fun f64_div :: "float64 \<Rightarrow> float64 \<Rightarrow> float64" where
  "f64_div (m, e) (n, f) = f64_round m n (e - f)"

fun f64_mult :: "float64 \<Rightarrow> float64 \<Rightarrow> float64" where
  "f64_mult (m, e) (n, f) = f64_round (m * n) 1 (e + f)"

fun f64_trunc :: "float64 \<Rightarrow> int" where
  "f64_trunc (m, e) = m * 2 ^ nat e div 2 ^ nat (- e)"

text \<open>\<open>static_cast<int64_t>(amount * (double(a) / double(b)))\<close> for positive \<open>a\<close> and \<open>b\<close>.\<close>

definition f64_share :: "int \<Rightarrow> int \<Rightarrow> int \<Rightarrow> int" where
  "f64_share amt a b = sgn amt * f64_trunc (f64_mult (f64_of_int \<bar>amt\<bar>) (f64_div (f64_of_int a) (f64_of_int b)))"

subsection \<open>Rounding errors\<close>

definition f64_val :: "float64 \<Rightarrow> real" where
  "f64_val x = of_int (fst x) * 2 powi snd x"

lemma bits_of_bounds:
  "0 < n \<Longrightarrow> 2 ^ bits_of n \<le> 2 * n \<and> n < 2 ^ bits_of n"
proof (induction n rule: bits_of.induct)
  case (1 n)
  show ?case
  proof (cases "n = 1")
    case True
    have "bits_of 1 = 1" by (simp add: bits_of.simps[of 1] bits_of.simps[of 0])
    then show ?thesis using True by simp
  next
    case False
    then have "0 < n div 2" using 1(2) by simp
    then have ih: "2 ^ bits_of (n div 2) \<le> 2 * (n div 2)" "n div 2 < 2 ^ bits_of (n div 2)" using 1 by auto
    have "bits_of n = Suc (bits_of (n div 2))" using 1(2) by (simp add: bits_of.simps[of n])
    then show ?thesis using ih by simp linarith
  qed
qed

text \<open>A power of two with an integer exponent, as a quotient of powers.\<close>

lemma powi_split: "(2 :: real) powi k = 2 ^ nat k / 2 ^ nat (- k)"
  by (cases "0 \<le> k") (auto simp: power_int_def divide_simps)

lemma ratio_exponent_bounds:
  assumes "0 < n" "0 < d"
  shows "2 powi ratio_exponent n d \<le> real_of_int n / of_int d" "real_of_int n / of_int d < 2 * 2 powi ratio_exponent n d"
proof -
  let ?l = "int (bits_of n) - int (bits_of d)"
  have test: "d * 2 ^ nat ?l \<le> n * 2 ^ nat (- ?l) \<longleftrightarrow> 2 powi ?l \<le> real_of_int n / of_int d"
  proof -
    have "d * 2 ^ nat ?l \<le> n * 2 ^ nat (- ?l) \<longleftrightarrow> real_of_int (d * 2 ^ nat ?l) \<le> of_int (n * 2 ^ nat (- ?l))" by linarith
    also have "\<dots> \<longleftrightarrow> of_int d * 2 ^ nat ?l \<le> real_of_int n * 2 ^ nat (- ?l)" by simp
    also have "\<dots> \<longleftrightarrow> 2 powi ?l \<le> real_of_int n / of_int d"
      using assms unfolding powi_split by (simp add: divide_simps mult.commute)
    finally show ?thesis .
  qed
  have b: "2 ^ bits_of n \<le> 2 * real_of_int n" "real_of_int n < 2 ^ bits_of n"
      "2 ^ bits_of d \<le> 2 * real_of_int d" "real_of_int d < 2 ^ bits_of d"
    using bits_of_bounds[OF assms(1)] bits_of_bounds[OF assms(2)] by (simp_all flip: of_int_less_iff of_int_le_iff[where 'a = real])
  have l: "2 powi ?l = (2 :: real) ^ bits_of n / 2 ^ bits_of d"
    by (simp add: power_int_diff)
  have "2 powi ?l / 2 \<le> real_of_int n / of_int d" "real_of_int n / of_int d < 2 * 2 powi ?l"
  proof -
    have "2 ^ bits_of n * real_of_int d \<le> 2 * real_of_int n * 2 ^ bits_of d"
      using b assms by (intro mult_mono) auto
    then show "2 powi ?l / 2 \<le> real_of_int n / of_int d" unfolding l using assms by (simp add: divide_simps mult_ac)
    have "real_of_int n * 2 ^ bits_of d < 2 ^ bits_of n * (2 * of_int d)"
      using b assms by (intro mult_less_le_imp_less) auto
    then show "real_of_int n / of_int d < 2 * 2 powi ?l" unfolding l using assms by (simp add: divide_simps mult_ac)
  qed
  moreover have "(2 :: real) powi (?l - 1) = 2 powi ?l / 2" by (simp add: power_int_diff)
  ultimately show "2 powi ratio_exponent n d \<le> real_of_int n / of_int d" "real_of_int n / of_int d < 2 * 2 powi ratio_exponent n d"
    unfolding ratio_exponent_def Let_def test by (cases "2 powi ?l \<le> real_of_int n / of_int d"; simp only: if_True if_False; linarith)+
qed

lemma nearest_even_error: "0 < d \<Longrightarrow> \<bar>real_of_int (nearest_even n d) - of_int n / of_int d\<bar> \<le> 1 / 2"
proof -
  assume d: "0 < d"
  have n: "n div d * d = n - n mod d" by (simp add: minus_mod_eq_div_mult)
  have "\<bar>2 * (nearest_even n d * d - n)\<bar> \<le> d"
    using d pos_mod_bound[OF d, of n] pos_mod_sign[OF d, of n]
    by (auto simp: nearest_even_def Let_def distrib_right n)
  then have "2 * (nearest_even n d * d) \<le> 2 * n + d" "2 * n \<le> 2 * (nearest_even n d * d) + d" by auto
  then have "real_of_int (2 * (nearest_even n d * d)) \<le> of_int (2 * n + d)" "real_of_int (2 * n) \<le> of_int (2 * (nearest_even n d * d) + d)"
    by (simp_all only: of_int_le_iff)
  then have "\<bar>real_of_int (nearest_even n d) * of_int d - of_int n\<bar> \<le> of_int d / 2"
    unfolding of_int_mult of_int_add of_int_numeral by linarith
  moreover have "real_of_int (nearest_even n d) * of_int d - of_int n = (real_of_int (nearest_even n d) - of_int n / of_int d) * of_int d"
    using d by (simp add: left_diff_distrib)
  ultimately show ?thesis using d by (simp add: abs_mult)
qed

definition f64_eps :: real where "f64_eps = 1 / 2 ^ 53"

lemma f64_eps_range [simp]: "0 < f64_eps" "f64_eps < 1" "0 \<le> f64_eps" "f64_eps \<le> 1"
  by (simp_all add: f64_eps_def)

text \<open>Rounding is off by at most a factor of \<open>1 + 2 ^ -53\<close>.\<close>

lemma f64_round_error:
  assumes "0 \<le> n" "0 < d"
  shows "\<bar>f64_val (f64_round n d e) - of_int n / of_int d * 2 powi e\<bar> \<le> of_int n / of_int d * 2 powi e * f64_eps"
proof (cases "n = 0")
  case False
  then have n: "0 < n" using assms by simp
  define k where "k = 52 - ratio_exponent n d"
  let ?q = "real_of_int n / of_int d" and ?m = "nearest_even (n * 2 ^ nat k) (d * 2 ^ nat (- k))"
  have "0 < d * 2 ^ nat (- k)" using assms by simp
  then have "\<bar>real_of_int ?m - of_int (n * 2 ^ nat k) / of_int (d * 2 ^ nat (- k))\<bar> \<le> 1 / 2" by (rule nearest_even_error)
  moreover have "real_of_int (n * 2 ^ nat k) / of_int (d * 2 ^ nat (- k)) = ?q * 2 powi k"
    unfolding powi_split by simp
  ultimately have err: "\<bar>real_of_int ?m - ?q * 2 powi k\<bar> \<le> 1 / 2" by simp
  have "2 powi 52 = 2 powi ratio_exponent n d * (2 :: real) powi k"
    by (simp add: k_def flip: power_int_add)
  also have "\<dots> \<le> ?q * 2 powi k" using ratio_exponent_bounds(1)[OF n assms(2)] by (intro mult_right_mono) auto
  finally have "2 powi 52 \<le> ?q * 2 powi k" .
  then have "2 powi 52 * f64_eps \<le> ?q * 2 powi k * f64_eps" by (intro mult_right_mono) auto
  then have big: "1 / 2 \<le> ?q * 2 powi k * f64_eps" by (simp add: f64_eps_def)
  have "f64_val (f64_round n d e) - ?q * 2 powi e = (real_of_int ?m - ?q * 2 powi k) * 2 powi (e - k)"
    using False by (simp add: f64_val_def f64_round_def Let_def k_def left_diff_distrib mult.assoc flip: power_int_add)
  then have "\<bar>f64_val (f64_round n d e) - ?q * 2 powi e\<bar> = \<bar>real_of_int ?m - ?q * 2 powi k\<bar> * 2 powi (e - k)"
    by (simp add: abs_mult)
  also have "\<dots> \<le> ?q * 2 powi k * f64_eps * 2 powi (e - k)" using order_trans[OF err big] by (intro mult_right_mono) auto
  also have "\<dots> = ?q * 2 powi e * f64_eps" by (simp add: mult.assoc flip: power_int_add)
  finally show ?thesis .
qed (simp add: f64_round_def f64_val_def)

lemma f64_round_le:
  "0 \<le> n \<Longrightarrow> 0 < d \<Longrightarrow> f64_val (f64_round n d e) \<le> of_int n / of_int d * 2 powi e * (1 + f64_eps)"
  using f64_round_error[of n d e] unfolding distrib_left mult_1_right by linarith

lemma f64_round_ge:
  "0 \<le> n \<Longrightarrow> 0 < d \<Longrightarrow> of_int n / of_int d * 2 powi e * (1 - f64_eps) \<le> f64_val (f64_round n d e)"
  using f64_round_error[of n d e] unfolding right_diff_distrib mult_1_right by linarith

lemma f64_val_pos: "0 \<le> f64_val x \<longleftrightarrow> 0 \<le> fst x" "0 < f64_val x \<longleftrightarrow> 0 < fst x"
proof -
  have p: "(0 :: real) < 2 powi snd x" by simp
  show "0 \<le> f64_val x \<longleftrightarrow> 0 \<le> fst x" "0 < f64_val x \<longleftrightarrow> 0 < fst x"
    by (simp_all add: f64_val_def zero_le_mult_iff zero_less_mult_iff p[unfolded not_le[symmetric]] less_imp_le[OF p, unfolded not_less[symmetric]])
qed

lemma f64_round_nonneg:
  assumes "0 \<le> n" "0 < d" shows "0 \<le> fst (f64_round n d e)" "0 < n \<Longrightarrow> 0 < fst (f64_round n d e)"
proof -
  have "0 \<le> real_of_int n / of_int d * 2 powi e * (1 - f64_eps)" using assms by (intro mult_nonneg_nonneg) auto
  then show "0 \<le> fst (f64_round n d e)" using f64_round_ge[OF assms, of e] unfolding f64_val_pos(1)[symmetric] by linarith
  assume "0 < n"
  then have "0 < real_of_int n / of_int d * 2 powi e * (1 - f64_eps)" using assms by (intro mult_pos_pos) auto
  then show "0 < fst (f64_round n d e)" using f64_round_ge[OF assms, of e] unfolding f64_val_pos(2)[symmetric] by linarith
qed

lemma f64_trunc_le: "0 \<le> fst x \<Longrightarrow> of_int (f64_trunc x) \<le> f64_val x"
proof (cases x)
  case (Pair m e)
  have "real_of_int (m * 2 ^ nat e div 2 ^ nat (- e)) \<le> of_int (m * 2 ^ nat e) / of_int (2 ^ nat (- e))"
    using floor_divide_of_int_eq[of "m * 2 ^ nat e" "2 ^ nat (- e)", where 'a = real] by linarith
  then show ?thesis using Pair by (simp add: f64_val_def powi_split)
qed

text \<open>A share exceeds the exact share by less than a part in \<open>2 ^ 50\<close>.\<close>

lemma f64_share_le:
  assumes "0 \<le> amt" "0 \<le> a" "0 < b"
  shows "of_int (f64_share amt a b) \<le> of_int amt * of_int a / of_int b * (1 + 1 / 2 ^ 50 :: real)"
proof (cases "amt = 0")
  case False
  obtain m e where A: "f64_of_int a = (m, e)" by fastforce
  obtain n f where B: "f64_of_int b = (n, f)" by fastforce
  obtain q g where Q: "f64_div (m, e) (n, f) = (q, g)" by fastforce
  obtain r h where R: "f64_of_int amt = (r, h)" by fastforce
  let ?u = f64_eps
  have pos: "0 \<le> m" "0 < n" "0 \<le> q" "0 \<le> r" "0 \<le> r * q"
    using f64_round_nonneg[of a 1 0] f64_round_nonneg[of b 1 0] f64_round_nonneg[of amt 1 0] f64_round_nonneg[of m n "e - f"] assms A B Q R
    by (auto simp: f64_of_int_def)
  have va: "of_int m * 2 powi e \<le> of_int a * (1 + ?u)"
    using f64_round_le[of a 1 0] assms A by (simp add: f64_of_int_def f64_val_def)
  have vb: "of_int b * (1 - ?u) \<le> of_int n * 2 powi f"
    using f64_round_ge[of b 1 0] assms B by (simp add: f64_of_int_def f64_val_def)
  have vr: "of_int r * 2 powi h \<le> of_int amt * (1 + ?u)"
    using f64_round_le[of amt 1 0] assms R by (simp add: f64_of_int_def f64_val_def)
  have "of_int q * 2 powi g \<le> of_int m / of_int n * 2 powi (e - f) * (1 + ?u)"
    using f64_round_le[OF pos(1,2), of "e - f"] Q by (simp add: f64_val_def)
  also have "of_int m / of_int n * 2 powi (e - f) = (of_int m * 2 powi e) / (real_of_int n * 2 powi f)"
    by (simp add: power_int_diff)
  also have "\<dots> \<le> (of_int a * (1 + ?u)) / (of_int b * (1 - ?u))"
    using va vb pos assms by (intro frac_le) auto
  finally have vq: "of_int q * 2 powi g \<le> of_int a * (1 + ?u) / (of_int b * (1 - ?u)) * (1 + ?u)" by (simp add: mult_right_mono)
  have "of_int (f64_share amt a b) \<le> f64_val (f64_mult (r, h) (q, g))"
    using f64_trunc_le[of "f64_mult (r, h) (q, g)"] f64_round_nonneg(1)[OF pos(5), of 1] assms False A B Q R
    by (simp add: f64_share_def)
  also have "\<dots> \<le> of_int (r * q) * 2 powi (h + g) * (1 + ?u)"
    using f64_round_le[OF pos(5), of 1 "h + g"] by simp
  also have "of_int (r * q) * 2 powi (h + g) = (of_int r * 2 powi h) * (real_of_int q * 2 powi g)"
    by (simp add: power_int_add)
  also have "\<dots> * (1 + ?u) \<le> of_int amt * (1 + ?u) * (of_int a * (1 + ?u) / (of_int b * (1 - ?u)) * (1 + ?u)) * (1 + ?u)"
    using pos assms by (intro mult_right_mono mult_mono[OF vr vq]) auto
  also have "\<dots> = of_int amt * of_int a / of_int b * ((1 + ?u) ^ 4 / (1 - ?u))"
    by (simp add: power4_eq_xxxx)
  also have "\<dots> \<le> of_int amt * of_int a / of_int b * (1 + 1 / 2 ^ 50)"
    using assms by (intro mult_left_mono) (auto simp: f64_eps_def power4_eq_xxxx)
  finally show ?thesis by simp
qed (simp add: f64_share_def)

text \<open>Shares of parts that do not exceed the whole do not exceed what is shared, although each of them is rounded.\<close>

lemma f64_share_nonneg: "0 \<le> amt \<Longrightarrow> 0 \<le> a \<Longrightarrow> 0 < b \<Longrightarrow> 0 \<le> f64_share amt a b"
proof -
  assume a: "0 \<le> amt" "0 \<le> a" "0 < b"
  obtain m e n f r h where E: "f64_of_int a = (m, e)" "f64_of_int b = (n, f)" "f64_of_int amt = (r, h)"
    by (metis surj_pair)
  have p: "0 \<le> m" "0 < n" "0 \<le> r"
    using f64_round_nonneg[of a 1 0] f64_round_nonneg[of b 1 0] f64_round_nonneg[of amt 1 0] a E by (auto simp: f64_of_int_def)
  obtain q g where Q: "f64_div (m, e) (n, f) = (q, g)" by fastforce
  then have "0 \<le> q" using f64_round_nonneg(1)[OF p(1,2), of "e - f"] by simp
  then have "0 \<le> fst (f64_mult (r, h) (q, g))" using f64_round_nonneg(1)[of "r * q" 1 "h + g"] p by simp
  then have "0 \<le> f64_trunc (f64_mult (r, h) (q, g))" by (cases "f64_mult (r, h) (q, g)") (simp add: pos_imp_zdiv_nonneg_iff)
  then show ?thesis using a E Q by (simp add: f64_share_def sgn_if)
qed

lemma f64_shares_le:
  assumes "0 \<le> amt" "amt < 2 ^ 50" "\<forall>a \<in> set as. 0 \<le> a" "sum_list as \<le> b" "0 < b"
  shows "(\<Sum>a\<leftarrow>as. f64_share amt a b) \<le> amt"
proof -
  have "real_of_int (\<Sum>a\<leftarrow>as. f64_share amt a b) = (\<Sum>a\<leftarrow>as. of_int (f64_share amt a b))"
    by (induction as) simp_all
  also have "\<dots> \<le> (\<Sum>a\<leftarrow>as. of_int amt * of_int a / of_int b * (1 + 1 / 2 ^ 50))"
    using assms f64_share_le by (intro sum_list_mono) auto
  also have "\<dots> = of_int amt * (of_int (sum_list as) / of_int b) * (1 + 1 / 2 ^ 50)"
    unfolding times_divide_eq_right[symmetric] by (induction as) (simp_all add: distrib_left distrib_right add_divide_distrib)
  also have "\<dots> \<le> of_int amt * 1 * (1 + 1 / 2 ^ 50)"
    using assms by (intro mult_right_mono mult_left_mono) auto
  also have "\<dots> < of_int amt + 1" using assms(2) by simp
  finally show ?thesis by linarith
qed

end
