(* ===== verification/System_Producer.thy ===== *)
theory System_Producer
  imports System_Voting Binary64
begin

text \<open>
  Producers in \<open>force.system\<close>: \<open>producer.cpp\<close>. A producer registers, deposits a mortgage and is elected by the votes for it.
  At every block \<open>onblock\<close> counts the block for its producer; at the end of a cycle it issues the reward of the cycle,
  settles what each producer earned or lost and proposes the producers of the next schedule; once a day it records the
  ages of the votes and has the reward of the day divided among producers and voters. Producers that miss blocks can be
  punished by the others.

  The constants are those of the build, which defines \<open>BEFORE_ONLINE_TEST\<close>.
\<close>

subsection \<open>Constants\<close>

definition NUM_OF_TOP_BPS :: nat where "NUM_OF_TOP_BPS = 23"
definition CYCLE_PREHOUR :: int where "CYCLE_PREHOUR = 10"
definition CYCLE_PREBP_BLOCK :: int where "CYCLE_PREBP_BLOCK = 3"
definition CYCLE_PREDAY :: int where "CYCLE_PREDAY = 5"
definition STABLE_DAY :: int where "STABLE_DAY = 10"
definition PRE_BLOCK_REWARDS :: int where "PRE_BLOCK_REWARDS = 586000"
definition STABLE_BLOCK_REWARDS :: int where "STABLE_BLOCK_REWARDS = 126 * CORE_SYMBOL_PRECISION"
definition PRE_GRADIENT :: int where "PRE_GRADIENT = 10250"
definition STABLE_GRADIENT :: int where "STABLE_GRADIENT = 10010"
definition UPDATE_CYCLE :: int where "UPDATE_CYCLE = CYCLE_PREBP_BLOCK * int NUM_OF_TOP_BPS"
definition MORTGAGE :: int where "MORTGAGE = 8228"
definition REWARD_RATIO_PRECISION :: int where "REWARD_RATIO_PRECISION = 10000"
definition REWARD_BP :: int where "REWARD_BP = 300"
definition REWARD_MINE :: int where "REWARD_MINE = REWARD_RATIO_PRECISION - REWARD_BP"
definition OTHER_COIN_WEIGHT :: int where "OTHER_COIN_WEIGHT = 500"
definition LACKMORTGAGE_FREEZE :: int where "LACKMORTGAGE_FREEZE = UPDATE_CYCLE * CYCLE_PREHOUR"
definition PUNISH_BP_FEE :: int where "PUNISH_BP_FEE = 100 * CORE_SYMBOL_PRECISION"
definition BAIL_PUNISH_FEE :: int where "BAIL_PUNISH_FEE = 10 * CORE_SYMBOL_PRECISION"
definition REWARD_RECORD_SIZE :: int where "REWARD_RECORD_SIZE = 2000"

lemmas producer_constants =
  NUM_OF_TOP_BPS_def CYCLE_PREHOUR_def CYCLE_PREBP_BLOCK_def CYCLE_PREDAY_def STABLE_DAY_def PRE_BLOCK_REWARDS_def
  STABLE_BLOCK_REWARDS_def PRE_GRADIENT_def STABLE_GRADIENT_def UPDATE_CYCLE_def MORTGAGE_def REWARD_RATIO_PRECISION_def
  REWARD_BP_def REWARD_MINE_def OTHER_COIN_WEIGHT_def LACKMORTGAGE_FREEZE_def PUNISH_BP_FEE_def BAIL_PUNISH_FEE_def
  REWARD_RECORD_SIZE_def CORE_SYMBOL_PRECISION_def

text \<open>The producers of the genesis: name, stake and mortgage that they are taken to have.\<close>

definition CREATION_BP :: "(account_name \<times> creation_bp) list" where
  "CREATION_BP = map (\<lambda>(n, st). (string_to_name n, \<lparr>cb_total_staked = st, cb_mortgage = 200000 * CORE_SYMBOL_PRECISION\<rparr>))
     [(''biosbpa'', 400000), (''biosbpb'', 400000), (''biosbpc'', 400000), (''biosbpd'', 400000),
      (''biosbpe'', 600000), (''biosbpf'', 600000), (''biosbpg'', 600000), (''biosbph'', 600000),
      (''biosbpi'', 1300000), (''biosbpj'', 1300000), (''biosbpk'', 1300000), (''biosbpl'', 2100000),
      (''biosbpm'', 2100000), (''biosbpn'', 10000000), (''biosbpo'', 10000000), (''biosbpp'', 10000000),
      (''biosbpq'', 10000000), (''biosbpr'', 10000000), (''biosbps'', 10000000), (''biosbpt'', 10000000),
      (''biosbpu'', 10000000), (''biosbpv'', 100000), (''biosbpw'', 100000), (''biosbpx'', 100000),
      (''biosbpy'', 100000), (''biosbpz'', 100000)]"

subsection \<open>Registration\<close>

definition bp_update :: "int \<Rightarrow> int \<Rightarrow> string \<Rightarrow> bp_info \<Rightarrow> bp_info" where
  "bp_update key rate u b = b\<lparr>block_signing_key := key, commission_rate := rate, bp_url := u\<rparr>"

definition deactivate :: "bp_info \<Rightarrow> bp_info" where
  "deactivate b = b\<lparr>bp_active_type := Removed\<rparr>"

definition updatebp :: "sys_context \<Rightarrow> account_name \<Rightarrow> int \<Rightarrow> int \<Rightarrow> string \<Rightarrow> sys_state \<Rightarrow> sys_state result" where
  "updatebp sc bpname key rate url s =
     require_auth (sc_ctx sc) bpname
     (chk (length url < 64) (Assert ''url too long'')
     (chk (1 \<le> rate \<and> rate \<le> REWARD_RATIO_PRECISION) (Assert ''need 1 <= commission rate <= 10000'')
     (let b = (case tbl_find (bps s) bpname of None \<Rightarrow> new_bp (block_num (sc_ctx sc)) | Some b \<Rightarrow> b) in
      Inr (s\<lparr>bps := tbl_put bpname (bp_update key rate url b) (bps s)\<rparr>, []))))"

definition removebp :: "sys_context \<Rightarrow> account_name \<Rightarrow> sys_state \<Rightarrow> sys_state result" where
  "removebp sc bpname s =
     require_auth (sc_ctx sc) (self (sc_ctx sc))
     (need (tbl_find (bps s) bpname) (Assert ''bpname is not registered'') (\<lambda>b.
      Inr (s\<lparr>bps := tbl_put bpname (deactivate b) (bps s)\<rparr>, [])))"

definition init_creation_bp :: "sys_state \<Rightarrow> contract_error + sys_state" where
  "init_creation_bp s =
     bnd (for_each (\<lambda>(n, c) t. case tbl_find t n of None \<Rightarrow> Inr (tbl_put n c t) | Some _ \<Rightarrow> Inl Table_error) CREATION_BP (creation_bps s)) (\<lambda>t.
      Inr (s\<lparr>creation_bps := t\<rparr>))"

definition creation_mortgage :: "account_name \<Rightarrow> int option" where
  "creation_mortgage n = map_option cb_mortgage (map_of CREATION_BP n)"

subsection \<open>The reward table\<close>

text \<open>\<open>init_reward_info\<close> leaves the last producer uninitialised; nothing reads it.\<close>

definition init_reward_info :: "sys_state \<Rightarrow> sys_state" where
  "init_reward_info s =
     (case reward_tbl s of
        None \<Rightarrow> s\<lparr>reward_tbl := Some \<lparr>reward_block_out = 0, reward_budget = 0, total_block_out_age = 0, cycle_reward = PRE_BLOCK_REWARDS,
          gradient = PRE_GRADIENT, total_reward_time = 0, last_reward_block_num = 0, last_producer_name = 0, reward_block_num = [0]\<rparr>\<rparr>
      | Some _ \<Rightarrow> s)"

definition update_reward_stable :: "reward_info \<Rightarrow> reward_info" where
  "update_reward_stable r = r\<lparr>cycle_reward := STABLE_BLOCK_REWARDS, gradient := STABLE_GRADIENT\<rparr>"

definition reset_bp_weight :: "account_name \<Rightarrow> sys_state \<Rightarrow> contract_error + sys_state" where
  "reset_bp_weight p s =
     need (tbl_find (bps s) p) (Assert ''bpname is not registered'') (\<lambda>b.
      Inr (s\<lparr>bps := tbl_put p (b\<lparr>block_weight := BLOCK_OUT_WEIGHT, last_block_amount := 0\<rparr>) (bps s)\<rparr>))"

definition reset_block_weight :: "account_name list \<Rightarrow> sys_state \<Rightarrow> contract_error + sys_state" where
  "reset_block_weight = for_each reset_bp_weight"

subsection \<open>Schedules\<close>

definition last_schedule :: "sys_state \<Rightarrow> schedule_info option" where
  "last_schedule s = (case rev (schedules s) of [] \<Rightarrow> None | r # _ \<Rightarrow> Some (snd r))"

definition in_schedule :: "account_name \<Rightarrow> schedule_info \<Rightarrow> bool" where
  "in_schedule n sch \<longleftrightarrow> list_ex (\<lambda>p. fst p = n) (sch_producers sch)"

definition is_super_bp :: "account_name \<Rightarrow> sys_state \<Rightarrow> contract_error + bool" where
  "is_super_bp n s = need (last_schedule s) Table_error (\<lambda>sch. Inr (in_schedule n sch))"

text \<open>The blocks that a schedule counts for a producer, and counting one more: the first entry with its name.\<close>

definition sched_amount :: "account_name \<Rightarrow> (account_name \<times> int) list \<Rightarrow> int" where
  "sched_amount n ps = (case map_of ps n of None \<Rightarrow> 0 | Some a \<Rightarrow> a)"

fun count_block :: "account_name \<Rightarrow> (account_name \<times> int) list \<Rightarrow> (account_name \<times> int) list" where
  "count_block n [] = []"
| "count_block n ((p, a) # ps) = (if p = n then (p, u32 (a + 1)) # ps else (p, a) # count_block n ps)"

subsection \<open>Election\<close>

text \<open>\<open>floor_mortgage\<close> is the mortgage that a producer needs. The stake and mortgage that count for a producer: an active producer
  of the genesis without a mortgage has those of its creation.\<close>

definition counted_stake :: "account_name \<Rightarrow> bp_info \<Rightarrow> sys_state \<Rightarrow> contract_error + int \<times> int" where
  "counted_stake n b s =
     (case (if isactive b \<and> mortgage b \<le> 0 then tbl_find (creation_bps s) n else None) of
        Some c \<Rightarrow> bnd (core_asset (cb_mortgage c)) (\<lambda>m. Inr (cb_total_staked c, m))
      | None \<Rightarrow> Inr (total_staked b, mortgage b))"

text \<open>A producer that lacked the mortgage is reinstated after a while; one that lacks it now is marked.\<close>

definition reinstate :: "int \<Rightarrow> bp_info \<Rightarrow> bp_info" where
  "reinstate now b =
     (if bp_active_type b = LackMortgage \<and> u32 (active_change_block_num b) < u32 (now - LACKMORTGAGE_FREEZE)
      then b\<lparr>bp_active_type := Normal\<rparr> else b)"

definition mark_lack :: "int \<Rightarrow> account_name \<Rightarrow> int \<Rightarrow> int \<Rightarrow> sys_state \<Rightarrow> bp_info \<Rightarrow> contract_error + bp_info" where
  "mark_lack now n m floor_mortgage s b =
     (if m < floor_mortgage then
        bnd (is_super_bp n s) (\<lambda>sup.
          Inr (if sup \<and> bp_active_type b = Normal then b\<lparr>bp_active_type := LackMortgage, active_change_block_num := s32 now\<rparr> else b))
      else Inr b)"

definition insert_at :: "nat \<Rightarrow> 'a \<Rightarrow> 'a list \<Rightarrow> 'a list" where
  "insert_at i x xs = take i xs @ x # drop i xs"

type_synonym ballot = "(account_name \<times> int) list \<times> int list"

text \<open>The inner loop of the election, at position \<open>i\<close> with \<open>k\<close> positions to go: the place of a producer among those found
  so far, which are kept with their stakes in descending order.\<close>

fun elect_loop :: "int \<Rightarrow> account_name \<Rightarrow> int \<Rightarrow> sys_state \<Rightarrow> nat \<Rightarrow> nat \<Rightarrow> bp_info \<Rightarrow> ballot \<Rightarrow> contract_error + bp_info \<times> ballot" where
  "elect_loop now n block_mortgege s 0 i b (sched, sorts) = Inr (b, sched, sorts)"
| "elect_loop now n block_mortgege s (Suc k) i b (sched, sorts) =
     bnd (counted_stake n b s) (\<lambda>(total_shaked, m).
     bnd (core_asset block_mortgege) (\<lambda>floor_mortgage.
     bnd (mark_lack now n m floor_mortgage s (reinstate now b)) (\<lambda>b.
       if sorts ! i \<le> total_shaked \<and> isactive b \<and> bp_active_type b \<noteq> Punish \<and> m > floor_mortgage
       then Inr (b, insert_at i (n, block_signing_key b) sched, insert_at i total_shaked sorts)
       else elect_loop now n block_mortgege s k (Suc i) b (sched, sorts))))"

definition elect_bp :: "int \<Rightarrow> int \<Rightarrow> sys_state \<Rightarrow> account_name \<times> bp_info \<Rightarrow> (account_name, bp_info) tbl \<times> ballot
    \<Rightarrow> contract_error + (account_name, bp_info) tbl \<times> ballot" where
  "elect_bp now block_mortgege s row tv =
     bnd (elect_loop now (fst row) block_mortgege s NUM_OF_TOP_BPS 0 (snd row) (snd tv)) (\<lambda>(b, v).
       Inr (tbl_put (fst row) b (fst tv), v))"

definition update_elected_bps :: "sys_context \<Rightarrow> sys_state \<Rightarrow> sys_state result" where
  "update_elected_bps sc s =
     bnd (if tbl_find (creation_bps s) (fst (hd CREATION_BP)) = None then init_creation_bp s else Inr s) (\<lambda>s.
     need (reward_tbl (init_reward_info s)) Table_error (\<lambda>reward.
     let s = init_reward_info s;
         reward_pre_block = tdiv (cycle_reward reward) UPDATE_CYCLE;
         block_mortgege = reward_pre_block * MORTGAGE in
     bnd (for_each (elect_bp (block_num (sc_ctx sc)) block_mortgege s) (bps s) (bps s, [], replicate NUM_OF_TOP_BPS 0)) (\<lambda>(t, sched, sorts).
      Inr (s\<lparr>bps := t\<rparr>, [Set_proposed_producers (sort_key fst (take NUM_OF_TOP_BPS sched))]))))"

subsection \<open>The reward of a cycle\<close>

text \<open>What a scheduled producer earns in a cycle, or loses for the blocks that it did not produce. \<open>age\<close> sums the ages of
  all producers.\<close>

definition drained_bp :: "int \<Rightarrow> int \<Rightarrow> bp_info \<Rightarrow> contract_error + bp_info" where
  "drained_bp reward_pre_block drain_block_num b =
     (if drain_block_num \<noteq> 0 then
        bnd (core_asset (s64 (reward_pre_block * 2) * drain_block_num)) (\<lambda>fine.
        bnd (core_sub (mortgage b) fine) (\<lambda>m.
        bnd (core_add (remain_punish b) fine) (\<lambda>r.
         Inr (b\<lparr>block_weight := BLOCK_OUT_WEIGHT, mortgage := m, remain_punish := r,
               total_drain_block := s32 (total_drain_block b + drain_block_num)\<rparr>))))
      else Inr (b\<lparr>block_weight := s64 (block_weight b + 1)\<rparr>))"

definition record_drain :: "int \<Rightarrow> account_name \<Rightarrow> int \<Rightarrow> sys_state \<Rightarrow> sys_state" where
  "record_drain now n drain_block_num s =
     (if drain_block_num \<noteq> 0 then
        s\<lparr>last_drain := tbl_put n
           \<lparr>ld_drain_num = s32 ((case tbl_find (last_drain s) n of None \<Rightarrow> 0 | Some d \<Rightarrow> ld_drain_num d) + drain_block_num),
            ld_update_block_num = s32 now\<rparr> (last_drain s)\<rparr>
      else s\<lparr>last_drain := tbl_del n (last_drain s)\<rparr>)"

definition blocks_out :: "int \<Rightarrow> bp_info \<Rightarrow> int" where
  "blocks_out amt b = (if amt \<ge> last_block_amount b then u32 (amt - last_block_amount b) else amt)"

definition reward_block_bp :: "int \<Rightarrow> int \<Rightarrow> bool \<Rightarrow> account_name \<times> int \<Rightarrow> sys_state \<times> int \<Rightarrow> contract_error + sys_state \<times> int" where
  "reward_block_bp now reward_pre_block force_change p sa =
     (let n = fst p; amt = snd p; s = fst sa; age = snd sa in
      need (tbl_find (bps s) n) (Assert ''cannot find bpinfo'') (\<lambda>b.
      let m = (if mortgage b \<le> 0 then (case creation_mortgage n of Some c \<Rightarrow> c | None \<Rightarrow> mortgage b) else mortgage b) in
      bnd (core_asset (MORTGAGE * reward_pre_block)) (\<lambda>floor_mortgage.
      if m < floor_mortgage then Inr (s, age)
      else
        (let drain_block_num = (if force_change then 0 else u32 (CYCLE_PREBP_BLOCK + last_block_amount b - amt));
             gained = s64 (blocks_out amt b * block_weight b) in
         bnd (drained_bp reward_pre_block drain_block_num (b\<lparr>block_age := s64 (block_age b + gained)\<rparr>)) (\<lambda>b'.
          Inr (record_drain now n drain_block_num (s\<lparr>bps := tbl_put n (b'\<lparr>last_block_amount := amt\<rparr>) (bps s)\<rparr>), s64 (age + gained)))))))"

definition reward_block :: "int \<Rightarrow> int \<Rightarrow> int \<Rightarrow> bool \<Rightarrow> sys_state \<Rightarrow> contract_error + sys_state" where
  "reward_block now schedule_version reward_amount force_change s =
     need (tbl_find (schedules s) schedule_version) (Assert ''cannot find schedule'') (\<lambda>sch.
     need (reward_tbl (init_reward_info s)) Table_error (\<lambda>reward.
     let s = init_reward_info s in
     bnd (for_each (reward_block_bp now (tdiv (cycle_reward reward) UPDATE_CYCLE) force_change) (sch_producers sch) (s, 0)) (\<lambda>(s, age).
     bnd (core_asset reward_amount) (\<lambda>a.
     bnd (core_add (reward_block_out reward) a) (\<lambda>r.
      Inr (s\<lparr>reward_tbl := Some (reward\<lparr>reward_block_out := r, total_block_out_age := s64 (total_block_out_age reward + age)\<rparr>)\<rparr>))))))"

subsection \<open>The reward of a day\<close>

fun precision :: "nat \<Rightarrow> int" where
  "precision 0 = 1"
| "precision (Suc p) = s64 (precision p * 10)"

definition add_coin_power :: "coin_reward \<Rightarrow> int \<Rightarrow> contract_error + int" where
  "add_coin_power c total_power =
     (if \<not> reward_now c then Inr total_power
      else need (coin_stat c) (Assert ''token with symbol already exists'') (\<lambda>(mineage, price, decimals).
        case mineage of
          None \<Rightarrow> Inr total_power
        | Some m \<Rightarrow>
            chk (precision decimals \<noteq> 0) Trap
              (Inr (s128 (total_power +
                 tdiv (s128 (tdiv (s128 (m * OTHER_COIN_WEIGHT)) REWARD_RATIO_PRECISION * price)) (precision decimals))))))"

definition get_coin_power :: "sys_context \<Rightarrow> contract_error + int" where
  "get_coin_power sc = for_each add_coin_power (coin_rewards sc) 0"

text \<open>The sum of the ages that were recorded at the current block, in the integer type \<open>wrap\<close>.\<close>

definition recorded_voteage :: "(int \<Rightarrow> int) \<Rightarrow> int \<Rightarrow> sys_state \<Rightarrow> contract_error + int" where
  "recorded_voteage wrap now s =
     for_each (\<lambda>row t. need (tbl_find (vote_rewards s) (fst row, now)) (Assert ''reward info can not find'') (\<lambda>r.
       Inr (wrap (t + vr_total_voteage r)))) (bps s) 0"

definition get_vote_power :: "int \<Rightarrow> sys_state \<Rightarrow> contract_error + int" where
  "get_vote_power now s = bnd (recorded_voteage s128 now s) (\<lambda>t. Inr (s128 (t * CORE_SYMBOL_PRECISION)))"

definition rewardmine_name :: action_name where "rewardmine_name = string_to_name ''rewardmine''"
definition settlemine_name :: action_name where "settlemine_name = string_to_name ''settlemine''"
definition activemine_name :: action_name where "activemine_name = string_to_name ''activemine''"
definition issue_name :: action_name where "issue_name = string_to_name ''issue''"
definition castcoin_name :: action_name where "castcoin_name = string_to_name ''castcoin''"

lemma producer_name_literals [code abstract]:
  "Word.the_int rewardmine_name = 13454622248796848128"
  "Word.the_int settlemine_name = 14029725121419837440"
  "Word.the_int activemine_name = 3617214766450900992"
  "Word.the_int issue_name = 8516769789752901632"
  "Word.the_int castcoin_name = 4733727762496356352"
  by (simp_all add: rewardmine_name_def settlemine_name_def activemine_name_def issue_name_def castcoin_name_def string_to_name_eval)

definition reward_mines :: "sys_context \<Rightarrow> int \<Rightarrow> contract_error + effect list" where
  "reward_mines sc reward_amount =
     bnd (core_asset reward_amount) (\<lambda>a.
      Inr [Inline relay_token_account_name rewardmine_name [(self (sc_ctx sc), active_name)] (Amount_data (core a))])"

text \<open>The share of a producer, in double precision; a result outside of \<open>int64_t\<close> traps.\<close>

definition vote_share :: "int \<Rightarrow> int \<Rightarrow> int \<Rightarrow> contract_error + int" where
  "vote_share reward_amount a b =
     (let r = f64_share reward_amount a b in chk (INT64_MIN \<le> r \<and> r \<le> INT64_MAX) Trap (Inr r))"

definition reward_bp :: "int \<Rightarrow> int \<Rightarrow> int \<Rightarrow> account_name \<times> bp_info \<Rightarrow> sys_state \<times> int \<Rightarrow> contract_error + sys_state \<times> int" where
  "reward_bp now reward_amount staked_all_bps row sb =
     (let n = fst row; it = snd row; s = fst sb; budget = snd sb in
      need (tbl_find (vote_rewards s) (n, now)) (Assert ''reward info can not find'') (\<lambda>r.
      if vr_total_voteage r \<le> tdiv staked_all_bps 200 \<or> commission_rate it < 1 \<or> commission_rate it > REWARD_RATIO_PRECISION then Inr (s, budget)
      else
        bnd (vote_share reward_amount (vr_total_voteage r) staked_all_bps) (\<lambda>vote_reward.
        if bp_active_type it = Punish \<or> bp_active_type it = Removed then
          bnd (core_asset vote_reward) (\<lambda>a. bnd (core_add budget a) (\<lambda>budget. Inr (s, budget)))
        else
          bnd (core_asset (tdiv (s64 (vote_reward * commission_rate it)) REWARD_RATIO_PRECISION)) (\<lambda>c.
          bnd (core_add (rewards_block it) c) (\<lambda>rb.
          bnd (core_asset (tdiv (s64 (vote_reward * u32 (REWARD_RATIO_PRECISION - commission_rate it))) REWARD_RATIO_PRECISION)) (\<lambda>v.
          bnd (core_add (vr_total_reward r) v) (\<lambda>tr.
           Inr (s\<lparr>bps := tbl_put n (it\<lparr>rewards_block := rb\<rparr>) (bps s),
                  vote_rewards := tbl_put (n, now) (r\<lparr>vr_total_reward := tr\<rparr>) (vote_rewards s)\<rparr>, budget))))))))"

definition reward_bps :: "int \<Rightarrow> int \<Rightarrow> sys_state \<Rightarrow> contract_error + sys_state" where
  "reward_bps now reward_amount s =
     bnd (recorded_voteage s64 now s) (\<lambda>staked_all_bps.
     if staked_all_bps \<le> 0 then Inr s
     else
       bnd (for_each (reward_bp now reward_amount staked_all_bps) (bps s) (s, 0)) (\<lambda>(s, budget).
       need (reward_tbl (init_reward_info s)) Table_error (\<lambda>reward.
       bnd (core_add (reward_budget reward) budget) (\<lambda>x.
        Inr ((init_reward_info s)\<lparr>reward_tbl := Some (reward\<lparr>reward_budget := x\<rparr>)\<rparr>)))))"

definition rewardmine :: "sys_context \<Rightarrow> int \<Rightarrow> sys_state \<Rightarrow> sys_state result" where
  "rewardmine sc reward_num s =
     require_auth (sc_ctx sc) system_account_name
     (bnd (get_vote_power (block_num (sc_ctx sc)) s) (\<lambda>vote_power.
      bnd (get_coin_power sc) (\<lambda>coin_power.
      let total_power = s128 (vote_power + coin_power) in
      if total_power \<noteq> 0 then
        (let reward_bp = s64 (tdiv (s128 (reward_num * vote_power)) total_power) in
         bnd (reward_mines sc (s64 (reward_num - reward_bp))) (\<lambda>effs.
         bnd (reward_bps (block_num (sc_ctx sc)) reward_bp s) (\<lambda>s. Inr (s, effs))))
      else Inr (s, []))))"

subsection \<open>Every block\<close>

text \<open>The end of a cycle. The row of the reward table that the code holds since the start of the action (\<open>held\<close>) is not
  the row in the table (\<open>row\<close>): the stable reward and the record of this cycle are written through other handles, and
  the reward of the day is computed from the row that is held.\<close>

definition day_reward :: "int \<Rightarrow> reward_info \<Rightarrow> contract_error + int" where
  "day_reward now held =
     (let i = u32 (int (length (reward_block_num held)) - CYCLE_PREDAY) in
      chk (i < int (length (reward_block_num held))) Trap
       (Inr (tdiv (s64 (tdiv (s64 (cycle_reward held * u32 (now - reward_block_num held ! nat i))) UPDATE_CYCLE * REWARD_MINE))
          REWARD_RATIO_PRECISION)))"

definition end_of_day :: "int \<Rightarrow> reward_info \<Rightarrow> sys_state \<Rightarrow> sys_state result" where
  "end_of_day now held s =
     bnd (day_reward now held) (\<lambda>block_rewards.
      Inr (settlebpvote now s,
        [Inline relay_token_account_name settlemine_name [(system_account_name, active_name)] (Account_data system_account_name),
         Inline system_account_name rewardmine_name [(system_account_name, active_name)] (Number_data block_rewards),
         Inline relay_token_account_name activemine_name [(system_account_name, active_name)] (Account_data system_account_name)]))"

definition record_reward :: "int \<Rightarrow> account_name \<Rightarrow> reward_info \<Rightarrow> reward_info" where
  "record_reward now bpname r =
     (let nums = reward_block_num r @ [s32 now] in
      r\<lparr>total_reward_time := s32 (total_reward_time r + 1), last_reward_block_num := s32 now, last_producer_name := bpname,
        reward_block_num := (if REWARD_RECORD_SIZE < int (length nums) then drop (nat (REWARD_RECORD_SIZE div 2)) nums else nums)\<rparr>)"

definition end_of_cycle :: "sys_context \<Rightarrow> account_name \<Rightarrow> int \<Rightarrow> bool \<Rightarrow> sys_state \<Rightarrow> sys_state result" where
  "end_of_cycle sc bpname reward_block_version force_change s =
     need (reward_tbl (init_reward_info s)) Table_error (\<lambda>reward.
     let now = block_num (sc_ctx sc);
         block_rewards = tdiv (s64 (cycle_reward reward * u32 (now - last_reward_block_num reward))) UPDATE_CYCLE;
         reward_times = u32 (s32 (total_reward_time reward + 1));
         stable = (reward_times = CYCLE_PREDAY * STABLE_DAY);
         daily = (\<not> stable \<and> reward_times mod CYCLE_PREDAY = 0);
         held = (if daily then reward\<lparr>cycle_reward := tdiv (s64 (cycle_reward reward * gradient reward)) REWARD_RATIO_PRECISION\<rparr> else reward);
         row = record_reward now bpname (if stable then update_reward_stable reward else held) in
     bnd (core_asset block_rewards) (\<lambda>issued.
     bnd (reward_block now reward_block_version (tdiv (s64 (block_rewards * REWARD_BP)) REWARD_RATIO_PRECISION) force_change
            ((init_reward_info s)\<lparr>reward_tbl := Some row\<rparr>)) (\<lambda>s.
     bnd (if stable \<or> daily then end_of_day now held s else Inr (s, [])) (\<lambda>(s, effs).
     bnd (if force_change then Inr (s, []) else update_elected_bps sc s) (\<lambda>(s, effs').
      Inr (s, Inline token_account_name issue_name [(system_account_name, active_name)]
                (Issue_data reward_account_name (core issued) ''issue tokens for producer pay'') # effs @ effs'))))))"

definition open_schedule :: "sys_context \<Rightarrow> account_name \<Rightarrow> int \<Rightarrow> sys_state \<Rightarrow> contract_error + sys_state" where
  "open_schedule sc bpname schedule_version s =
     (let block_producers = take NUM_OF_TOP_BPS (active_producers sc @ replicate NUM_OF_TOP_BPS 0) in
      reset_block_weight block_producers
        (s\<lparr>schedules := tbl_put schedule_version
            \<lparr>sch_block_height = block_num (sc_ctx sc), sch_producers = map (\<lambda>p. (p, if p = bpname then 1 else 0)) block_producers\<rparr>
            (schedules s)\<rparr>))"

definition onblock :: "sys_context \<Rightarrow> account_name \<Rightarrow> int \<Rightarrow> sys_state \<Rightarrow> sys_state result" where
  "onblock sc bpname schedule_version s =
     (case tbl_find (schedules s) schedule_version of
        None \<Rightarrow>
          bnd (if schedule_version \<noteq> 0 then end_of_cycle sc bpname (u32 (schedule_version - 1)) True s else Inr (s, [])) (\<lambda>(s, effs).
          bnd (open_schedule sc bpname schedule_version s) (\<lambda>s. Inr (s, effs)))
      | Some sch \<Rightarrow>
          need (tbl_find (bps s) bpname) (Assert ''bpname is not registered'') (\<lambda>bp.
          bnd (if u32 (sched_amount bpname (sch_producers sch) - last_block_amount bp) = CYCLE_PREBP_BLOCK
               then end_of_cycle sc bpname schedule_version False s else Inr (s, [])) (\<lambda>(s, effs).
           Inr (s\<lparr>schedules := tbl_put schedule_version (sch\<lparr>sch_producers := count_block bpname (sch_producers sch)\<rparr>) (schedules s)\<rparr>, effs))))"

subsection \<open>Mortgages and claims\<close>

definition addmortgage :: "sys_context \<Rightarrow> account_name \<Rightarrow> account_name \<Rightarrow> asset \<Rightarrow> sys_state \<Rightarrow> sys_state result" where
  "addmortgage sc bpname payer quantity s =
     require_auth (sc_ctx sc) payer
     (chk (tbl_find (creation_bps s) bpname = None) (Assert ''creation bp cannot add mortgage'')
     (need (tbl_find (bps s) bpname) (Assert ''can not find the bp'') (\<lambda>b.
      chk (symbol quantity = CORE_SYMBOL) (Assert ''attempt to add asset with different symbol'')
      (bnd (core_add (mortgage b) (amount quantity)) (\<lambda>m.
       Inr (s\<lparr>bps := tbl_put bpname (b\<lparr>mortgage := m\<rparr>) (bps s)\<rparr>,
            [Inline token_account_name transfer_name [(payer, active_name)]
               (Transfer_data payer reward_account_name quantity ''add mortgage'')]))))))"

definition claimmortgage :: "sys_context \<Rightarrow> account_name \<Rightarrow> account_name \<Rightarrow> asset \<Rightarrow> sys_state \<Rightarrow> sys_state result" where
  "claimmortgage sc bpname receiver quantity s =
     require_auth (sc_ctx sc) bpname
     (need (tbl_find (bps s) bpname) (Assert ''can not find the bp'') (\<lambda>b.
      chk (symbol quantity = CORE_SYMBOL) (Assert ''comparison of assets with different symbols is not allowed'')
      (chk (mortgage b > amount quantity) (Assert ''the quantity is bigger then bp mortgage'')
      (bnd (core_sub (mortgage b) (amount quantity)) (\<lambda>m.
       Inr (s\<lparr>bps := tbl_put bpname (b\<lparr>mortgage := m\<rparr>) (bps s)\<rparr>,
            [Inline token_account_name transfer_name [(reward_account_name, active_name)]
               (Transfer_data reward_account_name receiver quantity ''claim bp mortgage'')]))))))"

definition CLAIM_MINIMUM :: int where "CLAIM_MINIMUM = 100000"

definition claimbp :: "sys_context \<Rightarrow> account_name \<Rightarrow> account_name \<Rightarrow> sys_state \<Rightarrow> sys_state result" where
  "claimbp sc bpname receiver s =
     require_auth (sc_ctx sc) bpname
     (need (tbl_find (bps s) bpname) (Assert ''can not find the bp'') (\<lambda>b.
      need (reward_tbl s) (Assert ''reward info do not find'') (\<lambda>reward.
      bnd (core_mult (reward_block_out reward) (block_age b)) (\<lambda>x.
      bnd (core_div x (total_block_out_age reward)) (\<lambda>claim_block.
      bnd (core_sub (reward_block_out reward) claim_block) (\<lambda>rest.
      chk (claim_block > CLAIM_MINIMUM) (Assert ''claim amount must > 10'')
      (let s1 = s\<lparr>bps := tbl_put bpname (b\<lparr>block_age := 0\<rparr>) (bps s)\<rparr>;
           reward = reward\<lparr>reward_block_out := rest, total_block_out_age := s64 (total_block_out_age reward - block_age b)\<rparr> in
       if mortgage b = 0 then
         bnd (core_add (reward_budget reward) claim_block) (\<lambda>x. Inr (s1\<lparr>reward_tbl := Some (reward\<lparr>reward_budget := x\<rparr>)\<rparr>, []))
       else Inr (s1\<lparr>reward_tbl := Some reward\<rparr>,
         [Inline token_account_name castcoin_name [(reward_account_name, active_name)]
            (Castcoin_data reward_account_name receiver (core claim_block))]))))))))"

definition claimvote :: "sys_context \<Rightarrow> account_name \<Rightarrow> account_name \<Rightarrow> sys_state \<Rightarrow> sys_state result" where
  "claimvote sc bpname receiver s =
     require_auth (sc_ctx sc) receiver
     (bnd (settlevoter (block_num (sc_ctx sc)) receiver bpname s) (\<lambda>s.
      need (tbl_find (bps s) bpname) (Assert ''bpname is not registered'') (\<lambda>b.
      need (tbl_find (votes s) (receiver, bpname)) (Assert ''voter have not add votes to the the producer yet'') (\<lambda>v.
      bnd (if receiver = bpname then core_add (total_reward v) (rewards_block b) else Inr (total_reward v)) (\<lambda>reward_all.
      chk (reward_all > CLAIM_MINIMUM) (Assert ''claim amount must > 10'')
       (Inr (s\<lparr>bps := (if receiver = bpname then tbl_put bpname (b\<lparr>rewards_block := 0\<rparr>) (bps s) else bps s),
               votes := tbl_put (receiver, bpname) (v\<lparr>total_reward := 0\<rparr>) (votes s)\<rparr>,
             [Inline token_account_name castcoin_name [(reward_account_name, active_name)]
                (Castcoin_data reward_account_name receiver (core reward_all))])))))))"

subsection \<open>Punishment\<close>

definition EXPIRATION :: int where "EXPIRATION = UPDATE_CYCLE * CYCLE_PREDAY"

definition system_pays :: "account_name \<Rightarrow> int \<Rightarrow> string \<Rightarrow> effect" where
  "system_pays to a memo = Inline token_account_name transfer_name [(system_account_name, active_name)]
     (Transfer_data system_account_name to (core a) memo)"

definition pays_system :: "account_name \<Rightarrow> int \<Rightarrow> string \<Rightarrow> effect" where
  "pays_system payer a memo = Inline token_account_name transfer_name [(payer, active_name)]
     (Transfer_data payer system_account_name (core a) memo)"

definition effective_approve_num :: "account_name \<Rightarrow> sys_state \<Rightarrow> contract_error + nat" where
  "effective_approve_num punishbpname s =
     need (tbl_find (punish_bps s) punishbpname) (Assert ''the bp is not be punish'') (\<lambda>_.
     need (tbl_find (approve_punish s) punishbpname) (Assert ''no producer approve to punish the bp'') (\<lambda>approvers.
     need (last_schedule s) Table_error (\<lambda>sch. Inr (length (filter (\<lambda>a. in_schedule a sch) approvers)))))"

definition exec_punish_bp :: "sys_context \<Rightarrow> account_name \<Rightarrow> sys_state \<Rightarrow> sys_state result" where
  "exec_punish_bp sc punishbpname s =
     bnd (effective_approve_num punishbpname s) (\<lambda>effective_approve.
     if effective_approve < NUM_OF_TOP_BPS * 2 div 3 then Inr (s, [])
     else (case tbl_find (bps s) punishbpname of
       None \<Rightarrow> Inr (s, [])
     | Some b \<Rightarrow>
        bnd (core_div (remain_punish b) 2) (\<lambda>half.
        need (tbl_find (punish_bps s) punishbpname) (Assert ''the bp is not be punish'') (\<lambda>bp_punish.
        bnd (core_add half PUNISH_BP_FEE) (\<lambda>reward_initiator.
        bnd (core_div half (int effective_approve)) (\<lambda>reward_approve.
        need (tbl_find (approve_punish s) punishbpname) (Assert ''no producer approve to punish the bp'') (\<lambda>approvers.
        need (last_schedule s) Table_error (\<lambda>sch.
         Inr (s\<lparr>bps := tbl_put punishbpname
                  (b\<lparr>remain_punish := 0, bp_active_type := Punish, active_change_block_num := s32 (block_num (sc_ctx sc))\<rparr>) (bps s),
                punish_bps := tbl_del punishbpname (punish_bps s),
                approve_punish := tbl_del punishbpname (approve_punish s),
                last_drain := tbl_del punishbpname (last_drain s)\<rparr>,
              system_pays (pb_initiator bp_punish) reward_initiator ''cancle punishbp deposit''
                # map (\<lambda>a. system_pays a reward_approve ''cancle punishbp deposit'') (filter (\<lambda>a. in_schedule a sch) approvers))))))))))"

definition expired :: "int \<Rightarrow> punish_bp_info \<Rightarrow> bool" where
  "expired now p \<longleftrightarrow> pb_update_block_num p < s32 (u32 (now - EXPIRATION))"

definition punishbp :: "sys_context \<Rightarrow> account_name \<Rightarrow> account_name \<Rightarrow> sys_state \<Rightarrow> sys_state result" where
  "punishbp sc initiator bpname s =
     (let now = block_num (sc_ctx sc); deposit = pays_system initiator PUNISH_BP_FEE ''punishbp deposit'' in
      require_auth (sc_ctx sc) initiator
     (need (tbl_find (last_drain s) bpname) (Assert ''the bp cannot be punished'') (\<lambda>drainbp.
      chk (tbl_find (creation_bps s) bpname = None) (Assert ''creation bp cannot be punished'')
      (let motion = \<lparr>pb_initiator = initiator, pb_drain_num = ld_drain_num drainbp, pb_update_block_num = s32 now\<rparr> in
       case tbl_find (punish_bps s) bpname of
         None \<Rightarrow> Inr (s\<lparr>punish_bps := tbl_put bpname motion (punish_bps s)\<rparr>, [deposit])
       | Some p \<Rightarrow>
           chk (expired now p) (Assert ''the punish motion has exist'')
            (Inr (s\<lparr>punish_bps := tbl_put bpname motion (punish_bps s), approve_punish := tbl_del bpname (approve_punish s)\<rparr>,
                  [deposit, system_pays (pb_initiator p) PUNISH_BP_FEE ''cancle punishbp return deposit'']))))))"

definition canclepunish :: "sys_context \<Rightarrow> account_name \<Rightarrow> account_name \<Rightarrow> sys_state \<Rightarrow> sys_state result" where
  "canclepunish sc initiator bpname s =
     require_auth (sc_ctx sc) initiator
     (need (tbl_find (punish_bps s) bpname) (Assert ''the bp is not be punish'') (\<lambda>p.
      chk (initiator = pb_initiator p) (Assert ''only the initiator can cancle the punish proposal'')
       (Inr (s\<lparr>punish_bps := tbl_del bpname (punish_bps s), approve_punish := tbl_del bpname (approve_punish s)\<rparr>,
             if expired (block_num (sc_ctx sc)) p then [system_pays initiator PUNISH_BP_FEE ''cancle punishbp return deposit''] else []))))"

definition apppunish :: "sys_context \<Rightarrow> account_name \<Rightarrow> account_name \<Rightarrow> sys_state \<Rightarrow> sys_state result" where
  "apppunish sc bpname punishbpname s =
     require_auth (sc_ctx sc) bpname
     (bnd (is_super_bp bpname s) (\<lambda>sup.
      chk sup (Assert ''only super bp can approve to punish bp'')
     (need (tbl_find (punish_bps s) punishbpname) (Assert ''the bp is not be punish'') (\<lambda>p.
      chk (pb_update_block_num p > s32 (u32 (block_num (sc_ctx sc) - EXPIRATION))) (Assert ''the punish motion is already expired'')
      (bnd (case tbl_find (approve_punish s) punishbpname of
              None \<Rightarrow> Inr [bpname]
            | Some l \<Rightarrow> chk (bpname \<notin> set l) (Assert ''the bp has approved'') (Inr (l @ [bpname]))) (\<lambda>l.
       let s1 = s\<lparr>approve_punish := tbl_put punishbpname l (approve_punish s)\<rparr> in
       if length l > NUM_OF_TOP_BPS * 2 div 3 then exec_punish_bp sc punishbpname s1 else Inr (s1, [])))))))"

text \<open>Any account may withdraw, and all approvals go.\<close>

definition unapppunish :: "sys_context \<Rightarrow> account_name \<Rightarrow> account_name \<Rightarrow> sys_state \<Rightarrow> sys_state result" where
  "unapppunish sc bpname punishbpname s =
     require_auth (sc_ctx sc) bpname
     (need (tbl_find (approve_punish s) punishbpname) (Assert ''can find the approve punish record'') (\<lambda>_.
      Inr (s\<lparr>approve_punish := tbl_del punishbpname (approve_punish s)\<rparr>, [])))"

definition bailpunish :: "sys_context \<Rightarrow> account_name \<Rightarrow> sys_state \<Rightarrow> sys_state result" where
  "bailpunish sc punishbpname s =
     require_auth (sc_ctx sc) punishbpname
     (need (tbl_find (bps s) punishbpname) (Assert ''can not find bp'') (\<lambda>b.
      chk (bp_active_type b = Punish \<and> u32 (active_change_block_num b + EXPIRATION * 2) < block_num (sc_ctx sc)) (Assert ''the bp can not to be bailed'')
       (Inr (s\<lparr>bps := tbl_put punishbpname (b\<lparr>bp_active_type := Normal\<rparr>) (bps s)\<rparr>,
             [pays_system punishbpname BAIL_PUNISH_FEE ''bail punish fee'']))))"

end
