(* ===== verification/System_Election.thy ===== *)
theory System_Election
  imports System_Producer
begin

text \<open>
  The election of \<open>update_elected_bps\<close>: a bounded insertion into two parallel vectors, interleaved with updates of the
  producers, chooses the best staked producers among those that are eligible.
\<close>

subsection \<open>What the election is about\<close>

text \<open>The stake and mortgage that count for a producer, and the mortgage that it needs.\<close>

definition counts_as :: "sys_state \<Rightarrow> account_name \<times> bp_info \<Rightarrow> int \<times> int" where
  "counts_as s r =
     (case (if isactive (snd r) \<and> mortgage (snd r) \<le> 0 then tbl_find (creation_bps s) (fst r) else None) of
        Some c \<Rightarrow> (cb_total_staked c, cb_mortgage c)
      | None \<Rightarrow> (total_staked (snd r), mortgage (snd r)))"

definition stake_of :: "sys_state \<Rightarrow> account_name \<times> bp_info \<Rightarrow> int" where
  "stake_of s r = fst (counts_as s r)"

definition required_mortgage :: "sys_state \<Rightarrow> int" where
  "required_mortgage s = (case reward_tbl s of None \<Rightarrow> 0 | Some r \<Rightarrow> s64 (tdiv (cycle_reward r) UPDATE_CYCLE * MORTGAGE))"

definition eligible :: "int \<Rightarrow> sys_state \<Rightarrow> account_name \<times> bp_info \<Rightarrow> bool" where
  "eligible m s r \<longleftrightarrow> isactive (snd r) \<and> bp_active_type (snd r) \<noteq> Punish \<and> m < snd (counts_as s r)"

definition creation_ok :: "sys_state \<Rightarrow> bool" where
  "creation_ok s \<longleftrightarrow> tbl_ok (creation_bps s) \<and>
     (\<forall>n c. tbl_find (creation_bps s) n = Some c \<longrightarrow> 0 \<le> cb_total_staked c \<and> 0 \<le> cb_mortgage c \<and> cb_mortgage c \<le> max_amount)"

definition candidate_key :: "account_name \<times> bp_info \<Rightarrow> account_name \<times> int" where
  "candidate_key r = (fst r, block_signing_key (snd r))"

subsection \<open>The inner loop\<close>

lemma counted_stake_eq: "creation_ok s \<Longrightarrow> counted_stake n b s = Inr (counts_as s (n, b))"
proof -
  assume ok: "creation_ok s"
  have "core_asset (cb_mortgage c) = Inr (cb_mortgage c)" if "tbl_find (creation_bps s) n = Some c" for c
  proof -
    have "0 \<le> cb_mortgage c" "cb_mortgage c \<le> max_amount" using ok that by (auto simp: creation_ok_def)
    then show ?thesis using s64_id[of "cb_mortgage c"]
      by (simp add: core_asset_def Let_def res_simps max_amount_def INT64_MIN_def INT64_MAX_def)
  qed
  then show ?thesis by (auto simp: counted_stake_def counts_as_def split: option.splits)
qed

definition same_candidate :: "bp_info \<Rightarrow> bp_info \<Rightarrow> bool" where
  "same_candidate b b' \<longleftrightarrow> isactive b' = isactive b \<and> (bp_active_type b' = Punish \<longleftrightarrow> bp_active_type b = Punish)
     \<and> mortgage b' = mortgage b \<and> total_staked b' = total_staked b \<and> block_signing_key b' = block_signing_key b"

lemmas active_types = Normal_def Punish_def LackMortgage_def Removed_def

lemma update_same_candidate:
  assumes "mark_lack now n m l s (reinstate now b) = Inr b'" shows "same_candidate b b'"
  using assms
  by (auto simp: same_candidate_def mark_lack_def reinstate_def res_simps isactive_def active_types split: if_splits)

lemma same_candidate_eq:
  assumes "same_candidate b b'"
  shows "counts_as s (n, b') = counts_as s (n, b)" "eligible m s (n, b') = eligible m s (n, b)" "stake_of s (n, b') = stake_of s (n, b)"
    "candidate_key (n, b') = candidate_key (n, b)"
proof -
  show c: "counts_as s (n, b') = counts_as s (n, b)"
    using assms by (simp add: counts_as_def same_candidate_def cong: if_cong) (simp split: option.split)
  show "eligible m s (n, b') = eligible m s (n, b)" "stake_of s (n, b') = stake_of s (n, b)" "candidate_key (n, b') = candidate_key (n, b)"
    using assms by (simp_all add: eligible_def stake_of_def candidate_key_def c) (simp_all add: same_candidate_def)
qed

lemma same_candidate_trans: "same_candidate a b \<Longrightarrow> same_candidate b c \<Longrightarrow> same_candidate a c"
  by (simp add: same_candidate_def)

text \<open>The loop inserts an eligible producer at the first of the positions whose stake it reaches, if there is one.\<close>

lemma elect_loop_result:
  assumes "elect_loop now n bm s k i b (sched, sorts) = Inr (b', v)" "creation_ok s"
  shows "same_candidate b b' \<and>
    (eligible (s64 bm) s (n, b) \<and> (\<exists>j. i \<le> j \<and> j < i + k \<and> sorts ! j \<le> stake_of s (n, b) \<and> (\<forall>l. i \<le> l \<and> l < j \<longrightarrow> stake_of s (n, b) < sorts ! l)
        \<and> v = (insert_at j (candidate_key (n, b)) sched, insert_at j (stake_of s (n, b)) sorts))
     \<or> (eligible (s64 bm) s (n, b) \<longrightarrow> (\<forall>l. i \<le> l \<and> l < i + k \<longrightarrow> stake_of s (n, b) < sorts ! l)) \<and> v = (sched, sorts))"
  using assms(1)
proof (induction k arbitrary: i b)
  case 0
  then show ?case by (auto simp: same_candidate_def)
next
  case (Suc k)
  let ?st = "stake_of s (n, b)"
  obtain m b1 where m: "core_asset bm = Inr m" and b1: "mark_lack now n (snd (counts_as s (n, b))) m s (reinstate now b) = Inr b1"
    and rest: "(if sorts ! i \<le> ?st \<and> isactive b1 \<and> bp_active_type b1 \<noteq> Punish \<and> snd (counts_as s (n, b)) > m
       then Inr (b1, insert_at i (n, block_signing_key b1) sched, insert_at i ?st sorts)
       else elect_loop now n bm s k (Suc i) b1 (sched, sorts)) = Inr (b', v)"
    using Suc.prems unfolding stake_of_def by (auto simp: counted_stake_eq[OF assms(2)] res_simps split_beta)
  have mm: "m = s64 bm" using m by (auto simp: core_asset_def Let_def res_simps)
  note same = update_same_candidate[OF b1] 
  note eq = same_candidate_eq[OF same]
  have cond: "sorts ! i \<le> ?st \<and> isactive b1 \<and> bp_active_type b1 \<noteq> Punish \<and> snd (counts_as s (n, b)) > m
      \<longleftrightarrow> sorts ! i \<le> ?st \<and> eligible m s (n, b)"
    using eq(1)[of s n] eq(2)[of m s n] by (auto simp: eligible_def)
  show ?case
  proof (cases "sorts ! i \<le> ?st \<and> eligible m s (n, b)")
    case True
    then have "b' = b1" "v = (insert_at i (candidate_key (n, b)) sched, insert_at i ?st sorts)"
      using rest cond eq(4)[of n] by (auto simp: candidate_key_def)
    then show ?thesis using True same mm by (intro conjI disjI1 exI[of _ i]) auto
  next
    case False
    have "elect_loop now n bm s k (Suc i) b1 (sched, sorts) = Inr (b', v)" using rest unfolding cond if_not_P[OF False] .
    note ih = Suc.IH[OF this, unfolded eq]
    have i: "?st < sorts ! i" if "eligible (s64 bm) s (n, b)" using False that mm by auto
    have sp: "(\<forall>l. i \<le> l \<and> l < j \<longrightarrow> ?st < sorts ! l) \<longleftrightarrow> (i < j \<longrightarrow> ?st < sorts ! i) \<and> (\<forall>l. Suc i \<le> l \<and> l < j \<longrightarrow> ?st < sorts ! l)" for j
      by (metis Suc_leI le_less less_or_eq_imp_le Suc_le_lessD)
    show ?thesis
      unfolding sp using ih same_candidate_trans[OF same] i by (elim conjE disjE exE) (auto intro: Suc_leD simp: less_Suc_eq_le)
  qed
qed

subsection \<open>The outer loop\<close>

text \<open>The producers \<open>E\<close> found so far, among the rows \<open>P\<close> seen so far.\<close>

definition elected_so_far :: "int \<Rightarrow> sys_state \<Rightarrow> (account_name \<times> bp_info) list \<Rightarrow> (account_name \<times> bp_info) list \<Rightarrow> ballot \<Rightarrow> bool" where
  "elected_so_far m s P E v \<longleftrightarrow>
     v = (map candidate_key E, map (stake_of s) E @ replicate NUM_OF_TOP_BPS 0)
     \<and> sorted_wrt (\<lambda>x y. stake_of s y \<le> stake_of s x) E \<and> distinct E \<and> set E \<subseteq> {r \<in> set P. eligible m s r}
     \<and> (\<forall>r \<in> set P. eligible m s r \<longrightarrow> r \<in> set E \<or> NUM_OF_TOP_BPS \<le> length E \<and> (\<forall>l < NUM_OF_TOP_BPS. stake_of s r \<le> stake_of s (E ! l)))"

lemma insert_at_map: "insert_at j (f x) (map f xs) = map f (insert_at j x xs)"
  by (simp add: insert_at_def take_map drop_map)

lemma insert_at_append: "j \<le> length xs \<Longrightarrow> insert_at j x (xs @ ys) = insert_at j x xs @ ys"
  by (simp add: insert_at_def)

lemma insert_at_simps [simp]: "length (insert_at j x xs) = Suc (length xs)" "set (insert_at j x xs) = insert x (set xs)"
proof -
  have "set xs = set (take j xs) \<union> set (drop j xs)" by (simp flip: set_append)
  then show "length (insert_at j x xs) = Suc (length xs)" "set (insert_at j x xs) = insert x (set xs)"
    by (auto simp: insert_at_def min_def)
qed

lemma insert_at_distinct: "distinct (insert_at j x xs) \<longleftrightarrow> x \<notin> set xs \<and> distinct xs"
proof -
  have "distinct (insert_at j x xs) \<longleftrightarrow> distinct (x # take j xs @ drop j xs)"
    unfolding insert_at_def by (rule mset_eq_imp_distinct_iff) (simp del: append_take_drop_id)
  then show ?thesis by simp
qed

lemma insert_at_nth: "j \<le> length xs \<Longrightarrow> l \<le> length xs \<Longrightarrow> insert_at j x xs ! l = (if l < j then xs ! l else if l = j then x else xs ! (l - 1))"
  by (auto simp: insert_at_def nth_append min_def nth_Cons' )

lemma insert_at_sorted:
  assumes "sorted_wrt (\<lambda>x y. f y \<le> (f x :: int)) xs" "j \<le> length xs" "\<And>l. l < j \<Longrightarrow> f x \<le> f (xs ! l)" "j < length xs \<Longrightarrow> f (xs ! j) \<le> f x"
  shows "sorted_wrt (\<lambda>x y. f y \<le> f x) (insert_at j x xs)"
proof -
  have s: "sorted_wrt (\<lambda>x y. f y \<le> f x) (take j xs @ drop j xs)" using assms(1) by simp
  have d: "f y \<le> f x" if y: "y \<in> set (drop j xs)" for y
  proof -
    obtain l where "l < length (drop j xs)" "drop j xs ! l = y" using y unfolding in_set_conv_nth by blast
    then have l: "j + l < length xs" "y = xs ! (j + l)" using assms(2) by auto
    then have "f y \<le> f (xs ! j)" using sorted_wrt_nth_less[OF assms(1), of j "j + l"] by (cases "l = 0") auto
    then show ?thesis using assms(4) l by simp
  qed
  have t: "f x \<le> f y" if "y \<in> set (take j xs)" for y
    using that assms(2,3) by (auto simp: in_set_conv_nth)
  show ?thesis using s d t unfolding insert_at_def sorted_wrt_append by auto
qed

lemma elected_step:
  assumes I: "elected_so_far m s P E (sched, sorts)" and new: "(n, b) \<notin> set P" and st: "0 \<le> stake_of s (n, b)"
    and step: "eligible m s (n, b) \<and> (\<exists>j. j < NUM_OF_TOP_BPS \<and> sorts ! j \<le> stake_of s (n, b) \<and> (\<forall>l < j. stake_of s (n, b) < sorts ! l)
        \<and> v = (insert_at j (candidate_key (n, b)) sched, insert_at j (stake_of s (n, b)) sorts))
     \<or> (eligible m s (n, b) \<longrightarrow> (\<forall>l < NUM_OF_TOP_BPS. stake_of s (n, b) < sorts ! l)) \<and> v = (sched, sorts)"
  shows "\<exists>E'. elected_so_far m s (P @ [(n, b)]) E' v"
proof -
  let ?x = "(n, b)" and ?f = "stake_of s"
  have sorts: "sorts = map ?f E @ replicate NUM_OF_TOP_BPS 0" and sched: "sched = map candidate_key E" using I by (auto simp: elected_so_far_def)
  have at_end: "sorts ! length E = 0" "length E < NUM_OF_TOP_BPS \<Longrightarrow> sorts ! length E = 0"
    unfolding sorts by (simp_all add: nth_append NUM_OF_TOP_BPS_def)
  have inside: "sorts ! l = ?f (E ! l)" if "l < length E" for l using that unfolding sorts by (simp add: nth_append)
  from step show ?thesis
  proof (elim disjE conjE exE)
    fix j assume el: "eligible m s ?x" and j: "j < NUM_OF_TOP_BPS" "sorts ! j \<le> ?f ?x" "\<forall>l < j. ?f ?x < sorts ! l"
      and v: "v = (insert_at j (candidate_key ?x) sched, insert_at j (?f ?x) sorts)"
    have le: "j \<le> length E" using j(3) at_end st by (metis linorder_not_less)
    have nonins: "?f r \<le> ?f (insert_at j ?x E ! l)"
      if r: "\<forall>l < NUM_OF_TOP_BPS. ?f r \<le> ?f (E ! l)" and big: "NUM_OF_TOP_BPS \<le> length E" and l: "l < NUM_OF_TOP_BPS" for r l
    proof -
      have "?f r \<le> ?f ?x" using r j big inside[of j] by (metis less_le_trans order_trans)
      then show ?thesis using r l big le by (auto simp: insert_at_nth)
    qed
    have "v = (map candidate_key (insert_at j ?x E), map ?f (insert_at j ?x E) @ replicate NUM_OF_TOP_BPS 0)"
      using v le by (simp add: sched sorts insert_at_append insert_at_map)
    moreover have "sorted_wrt (\<lambda>x y. ?f y \<le> ?f x) (insert_at j ?x E)"
      using I le j inside by (intro insert_at_sorted) (auto simp: elected_so_far_def less_imp_le)
    moreover have "distinct (insert_at j ?x E)" using I new by (auto simp: insert_at_distinct elected_so_far_def)
    ultimately have "elected_so_far m s (P @ [?x]) (insert_at j ?x E) v"
      using I el nonins unfolding elected_so_far_def by (auto simp del: map_append)
    then show ?thesis by blast
  next
    assume no: "eligible m s ?x \<longrightarrow> (\<forall>l < NUM_OF_TOP_BPS. ?f ?x < sorts ! l)" and v: "v = (sched, sorts)"
    have "NUM_OF_TOP_BPS \<le> length E \<and> (\<forall>l < NUM_OF_TOP_BPS. ?f ?x \<le> ?f (E ! l))" if "eligible m s ?x"
    proof -
      have a: "\<forall>l < NUM_OF_TOP_BPS. ?f ?x < sorts ! l" using no that by blast
      then have big: "NUM_OF_TOP_BPS \<le> length E" using at_end st by (metis linorder_not_less)
      then show ?thesis using a inside by (auto intro: less_imp_le dest: less_le_trans)
    qed
    then have "elected_so_far m s (P @ [?x]) E v" using I v unfolding elected_so_far_def by auto
    then show ?thesis by blast
  qed
qed

lemma elect_rows:
  assumes "for_each (elect_bp now bm s) rows (t, v) = Inr (t', v')" "creation_ok s"
    and "elected_so_far (s64 bm) s P E v" "distinct (P @ rows)" "\<forall>r \<in> set rows. 0 \<le> stake_of s r"
  shows "\<exists>E'. elected_so_far (s64 bm) s (P @ rows) E' v'"
  using assms
proof (induction rows arbitrary: t v P E)
  case Nil
  then show ?case by auto
next
  case (Cons r rows)
  obtain n b where r: "r = (n, b)" by fastforce
  obtain sched sorts where v: "v = (sched, sorts)" by fastforce
  obtain b1 v1 where b1: "elect_loop now n bm s NUM_OF_TOP_BPS 0 b v = Inr (b1, v1)"
    and rest: "for_each (elect_bp now bm s) rows (tbl_put n b1 t, v1) = Inr (t', v')"
    using Cons.prems(1) r unfolding for_each.simps elect_bp_def[of now bm s r] by (auto simp: res_simps)
  have "\<exists>E1. elected_so_far (s64 bm) s (P @ [(n, b)]) E1 v1"
    using elect_loop_result[OF b1[unfolded v] assms(2)] Cons.prems(3-5) r v
    by (intro elected_step[of "s64 bm" s P E sched sorts]) auto
  then obtain E1 where "elected_so_far (s64 bm) s (P @ [r]) E1 v1" using r by blast
  then show ?case using Cons.IH[OF rest assms(2), of "P @ [r]" E1] Cons.prems(4,5) by simp
qed

subsection \<open>The result\<close>

lemma creation_bp_values: "\<forall>(n, c) \<in> set CREATION_BP. 0 \<le> cb_total_staked c \<and> 0 \<le> cb_mortgage c \<and> cb_mortgage c \<le> max_amount"
  by (simp add: CREATION_BP_def max_amount_def CORE_SYMBOL_PRECISION_def)

lemma init_creation_ok:
  assumes "creation_ok s" "init_creation_bp s = Inr s'" shows "creation_ok s' \<and> bps s' = bps s \<and> reward_tbl s' = reward_tbl s"
proof -
  let ?P = "\<lambda>t. tbl_ok t \<and> (\<forall>n c. tbl_find t n = Some c \<longrightarrow> 0 \<le> cb_total_staked c \<and> 0 \<le> cb_mortgage c \<and> cb_mortgage c \<le> max_amount)"
  obtain t where t: "for_each (\<lambda>(n, c) t. case tbl_find t n of None \<Rightarrow> Inr (tbl_put n c t) | Some _ \<Rightarrow> Inl Table_error) CREATION_BP (creation_bps s) = Inr t"
    "s' = s\<lparr>creation_bps := t\<rparr>" using assms(2) by (auto simp: init_creation_bp_def res_simps)
  have "?P t"
  proof (rule for_each_inv[OF t(1)])
    show "?P (creation_bps s)" using assms(1) by (simp add: creation_ok_def)
  next
    fix x u u' assume "x \<in> set CREATION_BP" "?P u"
      "(case x of (n, c) \<Rightarrow> \<lambda>t. case tbl_find t n of None \<Rightarrow> Inr (tbl_put n c t) | Some _ \<Rightarrow> Inl Table_error) u = Inr u'"
    then show "?P u'" using creation_bp_values by (fastforce simp: tbl_ok_put tbl_find_put split: prod.splits option.splits if_splits)
  qed
  then show ?thesis using t(2) by (simp add: creation_ok_def)
qed

lemma init_reward_frame:
  "bps (init_reward_info s) = bps s" "creation_bps (init_reward_info s) = creation_bps s" "schedules (init_reward_info s) = schedules s"
  "\<exists>r. reward_tbl (init_reward_info s) = Some r"
  by (auto simp: init_reward_info_def split: option.splits)

lemma counts_as_cong: "creation_bps s' = creation_bps s \<Longrightarrow> counts_as s' r = counts_as s r"
  by (simp add: counts_as_def cong: if_cong)

text \<open>The first \<open>NUM_OF_TOP_BPS\<close> of the producers found.\<close>

lemma elected_top:
  assumes I: "elected_so_far m s P E v" and P: "distinct P"
  shows "length (take NUM_OF_TOP_BPS E) = min NUM_OF_TOP_BPS (length (filter (eligible m s) P))"
    "set (take NUM_OF_TOP_BPS E) \<subseteq> {r \<in> set P. eligible m s r}"
    "r \<in> set P \<Longrightarrow> eligible m s r \<Longrightarrow> r \<notin> set (take NUM_OF_TOP_BPS E) \<Longrightarrow> e \<in> set (take NUM_OF_TOP_BPS E) \<Longrightarrow> stake_of s r \<le> stake_of s e"
proof -
  let ?f = "stake_of s" and ?N = NUM_OF_TOP_BPS
  have sub: "set E \<subseteq> set (filter (eligible m s) P)" and srt: "sorted_wrt (\<lambda>x y. ?f y \<le> ?f x) E" and dE: "distinct E"
    and out: "\<And>r. r \<in> set P \<Longrightarrow> eligible m s r \<Longrightarrow> r \<in> set E \<or> ?N \<le> length E \<and> (\<forall>l < ?N. ?f r \<le> ?f (E ! l))"
    using I by (auto simp: elected_so_far_def)
  have dC: "distinct (filter (eligible m s) P)" using P by simp
  have le: "length E \<le> length (filter (eligible m s) P)"
    using card_mono[OF _ sub] distinct_card[OF dE] distinct_card[OF dC] by simp
  show "length (take ?N E) = min ?N (length (filter (eligible m s) P))"
  proof (cases "?N \<le> length E")
    case False
    then have "set (filter (eligible m s) P) \<subseteq> set E" using out by auto
    from card_mono[OF finite_set this] have "length (filter (eligible m s) P) \<le> length E"
      unfolding distinct_card[OF dE] distinct_card[OF dC] .
    then show ?thesis using le False by simp
  qed (use le in simp)
  show "set (take ?N E) \<subseteq> {r \<in> set P. eligible m s r}" using sub set_take_subset[of ?N E] by auto
  assume r: "r \<in> set P" "eligible m s r" "r \<notin> set (take ?N E)" and e: "e \<in> set (take ?N E)"
  obtain l where l: "l < ?N" "l < length E" "e = E ! l" using e by (auto simp: in_set_conv_nth)
  from out[OF r(1,2)] show "?f r \<le> ?f e"
  proof
    assume "r \<in> set E"
    then obtain i where i: "i < length E" "r = E ! i" by (auto simp: in_set_conv_nth)
    have "r \<in> set (take ?N E)" if "i < ?N" unfolding in_set_conv_nth by (rule exI[of _ i]) (use that i in simp)
    then have "?N \<le> i" using r(3) by (meson not_less)
    then show ?thesis using sorted_wrt_nth_less[OF srt, of l i] l i by simp
  qed (use l in blast)
qed

lemma update_elected_unfold:
  assumes "update_elected_bps sc s = Inr (s', effs)"
  shows "\<exists>s0 reward t sched sorts. (if tbl_find (creation_bps s) (fst (hd CREATION_BP)) = None then init_creation_bp s else Inr s) = Inr s0
    \<and> reward_tbl (init_reward_info s0) = Some reward
    \<and> for_each (elect_bp (block_num (sc_ctx sc)) (tdiv (cycle_reward reward) UPDATE_CYCLE * MORTGAGE) (init_reward_info s0))
        (bps s0) (bps s0, [], replicate NUM_OF_TOP_BPS 0) = Inr (t, sched, sorts)
    \<and> s' = (init_reward_info s0)\<lparr>bps := t\<rparr> \<and> effs = [Set_proposed_producers (sort_key fst (take NUM_OF_TOP_BPS sched))]"
proof -
  obtain s0 reward x where s0: "(if tbl_find (creation_bps s) (fst (hd CREATION_BP)) = None then init_creation_bp s else Inr s) = Inr s0"
    and reward: "reward_tbl (init_reward_info s0) = Some reward"
    and each: "for_each (elect_bp (block_num (sc_ctx sc)) (tdiv (cycle_reward reward) UPDATE_CYCLE * MORTGAGE) (init_reward_info s0))
        (bps (init_reward_info s0)) (bps (init_reward_info s0), [], replicate NUM_OF_TOP_BPS 0) = Inr x"
    and res: "s' = (init_reward_info s0)\<lparr>bps := fst x\<rparr>" "effs = [Set_proposed_producers (sort_key fst (take NUM_OF_TOP_BPS (fst (snd x))))]"
    using assms unfolding update_elected_bps_def Let_def bnd_Inr need_Inr split_beta by (elim exE conjE) (rule that, assumption+, auto)
  obtain t sched sorts where "x = (t, sched, sorts)" by (metis surj_pair)
  then show ?thesis using s0 reward each res unfolding init_reward_frame(1) by auto
qed

lemma update_elected_steps:
  assumes "update_elected_bps sc s = Inr (s', effs)" "creation_ok s"
  shows "\<exists>s1 bm t sched sorts. creation_ok s1 \<and> bps s1 = bps s \<and> required_mortgage s1 = s64 bm
    \<and> for_each (elect_bp (block_num (sc_ctx sc)) bm s1) (bps s) (bps s, [], replicate NUM_OF_TOP_BPS 0) = Inr (t, sched, sorts)
    \<and> s' = s1\<lparr>bps := t\<rparr> \<and> effs = [Set_proposed_producers (sort_key fst (take NUM_OF_TOP_BPS sched))]"
proof -
  obtain s0 reward t sched sorts where s0: "(if tbl_find (creation_bps s) (fst (hd CREATION_BP)) = None then init_creation_bp s else Inr s) = Inr s0"
    and reward: "reward_tbl (init_reward_info s0) = Some reward"
    and each: "for_each (elect_bp (block_num (sc_ctx sc)) (tdiv (cycle_reward reward) UPDATE_CYCLE * MORTGAGE) (init_reward_info s0))
        (bps s0) (bps s0, [], replicate NUM_OF_TOP_BPS 0) = Inr (t, sched, sorts)"
    and res: "s' = (init_reward_info s0)\<lparr>bps := t\<rparr>" "effs = [Set_proposed_producers (sort_key fst (take NUM_OF_TOP_BPS sched))]"
    using update_elected_unfold[OF assms(1)] by blast
  have "creation_ok s0 \<and> bps s0 = bps s" using s0 init_creation_ok[OF assms(2)] assms(2) by (auto split: if_splits)
  then show ?thesis
    using each res reward init_reward_frame(1,2)[of s0]
    by (intro exI[of _ "init_reward_info s0"] exI[of _ "tdiv (cycle_reward reward) UPDATE_CYCLE * MORTGAGE"] exI[of _ t] exI[of _ sched] exI[of _ sorts])
      (simp add: creation_ok_def required_mortgage_def)
qed

lemma elected_result:
  assumes run: "update_elected_bps sc s = Inr (s', effs)" and ok: "tbl_ok (bps s)" "creation_ok s"
    and st: "\<forall>(n, b) \<in> set (bps s). 0 \<le> total_staked b"
  shows "\<exists>E. effs = [Set_proposed_producers (sort_key fst (map candidate_key E))] \<and> distinct (map fst E)
    \<and> set E \<subseteq> {r \<in> set (bps s). eligible (required_mortgage s') s' r}
    \<and> length E = min NUM_OF_TOP_BPS (length (filter (eligible (required_mortgage s') s') (bps s)))
    \<and> (\<forall>r \<in> set (bps s). eligible (required_mortgage s') s' r \<longrightarrow> r \<notin> set E \<longrightarrow> (\<forall>e \<in> set E. stake_of s' r \<le> stake_of s' e))"
proof -
  obtain s1 bm t sched sorts where s1: "creation_ok s1" "bps s1 = bps s" "required_mortgage s1 = s64 bm"
    and each: "for_each (elect_bp (block_num (sc_ctx sc)) bm s1) (bps s) (bps s, [], replicate NUM_OF_TOP_BPS 0) = Inr (t, sched, sorts)"
    and res: "s' = s1\<lparr>bps := t\<rparr>" "effs = [Set_proposed_producers (sort_key fst (take NUM_OF_TOP_BPS sched))]"
    using update_elected_steps[OF run ok(2)] by blast
  have dm: "distinct (map fst (bps s))" using ok(1) by (rule tbl_ok_distinct)
  then have d: "distinct (bps s)" by (simp add: distinct_map)
  have "0 \<le> stake_of s1 r" if "r \<in> set (bps s)" for r
    using st that s1(1) by (auto simp: stake_of_def counts_as_def creation_ok_def split: option.splits if_splits)
  then obtain E where E: "elected_so_far (s64 bm) s1 (bps s) E (sched, sorts)"
    using elect_rows[OF each s1(1), of "[]" "[]"] d by (auto simp: elected_so_far_def)
  let ?E = "take NUM_OF_TOP_BPS E"
  have c: "eligible m s' r = eligible m s1 r" "stake_of s' r = stake_of s1 r" for m r
    using counts_as_cong[of s' s1 r] res(1) by (simp_all add: eligible_def stake_of_def)
  have m: "required_mortgage s' = s64 bm" using s1(3) res(1) by (simp add: required_mortgage_def)
  have "sched = map candidate_key E" using E by (simp add: elected_so_far_def)
  then have "effs = [Set_proposed_producers (sort_key fst (map candidate_key ?E))]" using res(2) by (simp add: take_map)
  moreover have "set ?E \<subseteq> set (bps s)" using elected_top(2)[OF E d] by auto
  moreover have "distinct ?E" using E by (simp add: elected_so_far_def)
  ultimately show ?thesis
    using elected_top[OF E d] dm unfolding c m
    by (intro exI[of _ ?E]) (auto simp: distinct_map inj_on_subset)
qed

definition demo_candidate :: "int \<Rightarrow> bp_info" where
  "demo_candidate st = (new_bp 1)\<lparr>total_staked := st, mortgage := 100000000\<rparr>"
definition demo_candidates :: sys_state where
  "demo_candidates = empty_sys\<lparr>creation_bps := [hd CREATION_BP], bps := [(1, demo_candidate 5), (2, demo_candidate 9), (3, demo_candidate 7)]\<rparr>"

lemma demo_election: "\<not> isl (update_elected_bps (demo_sc 1 700) demo_candidates)"
  by (simp add: update_elected_bps_def demo_candidates_def empty_sys_def init_reward_info_def demo_candidate_def new_bp_def
      tbl_find_def elect_bp_def NUM_OF_TOP_BPS_def numeral_3_eq_3 eval_nat_numeral counted_stake_def core_asset_def s64_def
      PRE_BLOCK_REWARDS_def UPDATE_CYCLE_def CYCLE_PREBP_BLOCK_def MORTGAGE_def max_amount_def reinstate_def mark_lack_def
      isactive_def active_types insert_at_def tdiv_def Let_def split: prod.splits)

text \<open>C13. The election proposes the best staked producers. Among the producers that are neither removed nor punished and
  have more than the required mortgage, where a producer of the genesis without a mortgage counts with the stake and
  mortgage of its creation, \<open>update_elected_bps\<close> proposes 23, or all if there are fewer; no two of them have the same
  name, and no eligible producer that is left out has a larger stake than one that is proposed.\<close>

theorem elects_top_producers:
  assumes "update_elected_bps sc s = Inr (s', effs)" and "tbl_ok (bps s)" and "creation_ok s"
    and "\<forall>(n, b) \<in> set (bps s). 0 \<le> total_staked b"
  shows "\<exists>E. effs = [Set_proposed_producers (sort_key fst (map candidate_key E))] \<and> distinct (map fst E)
    \<and> set E \<subseteq> {r \<in> set (bps s). eligible (required_mortgage s') s' r}
    \<and> length E = min NUM_OF_TOP_BPS (length (filter (eligible (required_mortgage s') s') (bps s)))
    \<and> (\<forall>r \<in> set (bps s). eligible (required_mortgage s') s' r \<longrightarrow> r \<notin> set E \<longrightarrow> (\<forall>e \<in> set E. stake_of s' r \<le> stake_of s' e))"
  by (rule elected_result[OF assms])

theorem elects_top_producers_witness:
  "\<exists>s' E. update_elected_bps (demo_sc 1 700) demo_candidates = Inr (s', [Set_proposed_producers (sort_key fst (map candidate_key E))])
    \<and> distinct (map fst E) \<and> set E \<subseteq> set (bps demo_candidates)
    \<and> length E = min NUM_OF_TOP_BPS (length (filter (eligible (required_mortgage s') s') (bps demo_candidates)))"
proof -
  obtain s' effs where run: "update_elected_bps (demo_sc 1 700) demo_candidates = Inr (s', effs)"
    using demo_election by (cases "update_elected_bps (demo_sc 1 700) demo_candidates") auto
  have "tbl_ok (bps demo_candidates)" "\<forall>(n, b) \<in> set (bps demo_candidates). 0 \<le> total_staked b"
    by (simp_all add: demo_candidates_def tbl_ok_Cons demo_candidate_def)
  moreover have "creation_ok demo_candidates"
    using creation_bp_values by (auto simp: creation_ok_def demo_candidates_def CREATION_BP_def tbl_ok_Cons tbl_find_def split: if_splits)
  ultimately show ?thesis using elects_top_producers[OF run] run by auto
qed

end
