(* ===== verification/System_Rewards.thy ===== *)
theory System_Rewards
  imports System_Producer
begin

text \<open>
  The rewards of \<open>force.system\<close>: what a day allots to producers and voters, what a cycle allots to producers, and what
  they can claim.
\<close>

subsection \<open>What is allotted\<close>

definition allotted :: "sys_state \<Rightarrow> int" where
  "allotted s = tbl.total (\<lambda>_. rewards_block) (bps s) + tbl.total (\<lambda>_. vr_total_reward) (vote_rewards s)"

definition budget_of :: "sys_state \<Rightarrow> int" where
  "budget_of s = (case reward_tbl s of None \<Rightarrow> 0 | Some r \<Rightarrow> reward_budget r)"

definition rewards_ok :: "sys_state \<Rightarrow> bool" where
  "rewards_ok s \<longleftrightarrow> tbl_ok (bps s) \<and> tbl_ok (vote_rewards s) \<and> (\<forall>n b. tbl_find (bps s) n = Some b \<longrightarrow> in_range (rewards_block b))
     \<and> (\<forall>k r. tbl_find (vote_rewards s) k = Some r \<longrightarrow> in_range (vr_total_reward r))"

definition age_at :: "int \<Rightarrow> sys_state \<Rightarrow> account_name \<Rightarrow> int" where
  "age_at now s n = (case tbl_find (vote_rewards s) (n, now) of None \<Rightarrow> 0 | Some r \<Rightarrow> vr_total_voteage r)"

lemma core_asset_Inr: "core_asset a = Inr r \<longleftrightarrow> r = s64 a \<and> in_range r"
  by (auto simp: core_asset_def Let_def res_simps in_range_def)

lemma s64_small: "0 \<le> x \<Longrightarrow> x < 2 ^ 63 \<Longrightarrow> s64 x = x"
  by (rule s64_id) (simp_all add: INT64_MIN_def INT64_MAX_def)

text \<open>The two parts of a share, commission and the rest, never exceed it.\<close>

lemma split_share:
  assumes "0 \<le> x" "x \<le> 10 ^ 14" "1 \<le> rate" "rate \<le> 10000"
  shows "s64 (tdiv (s64 (x * rate)) 10000) + s64 (tdiv (s64 (x * u32 (10000 - rate))) 10000) \<le> x"
    "0 \<le> s64 (tdiv (s64 (x * rate)) 10000)" "0 \<le> s64 (tdiv (s64 (x * u32 (10000 - rate))) 10000)"
proof -
  have exact: "s64 (tdiv (s64 (x * k)) 10000) = x * k div 10000" if "0 \<le> k" "k \<le> 10000" for k
  proof -
    have "x * k \<le> 10 ^ 14 * 10000" using assms that by (intro mult_mono) auto
    then have "0 \<le> x * k" "x * k < 2 ^ 63" using assms that by auto
    moreover have "x * k div 10000 \<le> x * k" "0 \<le> x * k div 10000" using \<open>0 \<le> x * k\<close> by linarith+
    ultimately show ?thesis by (simp add: s64_small)
  qed
  have u: "u32 (10000 - rate) = 10000 - rate" using assms by (intro u32_id) (auto simp: UINT32_MAX_def)
  have "x * rate div 10000 + x * (10000 - rate) div 10000 \<le> (x * rate + x * (10000 - rate)) div 10000" by linarith
  also have "x * rate + x * (10000 - rate) = x * 10000" by (simp add: algebra_simps)
  finally show "s64 (tdiv (s64 (x * rate)) 10000) + s64 (tdiv (s64 (x * u32 (10000 - rate))) 10000) \<le> x"
    using assms by (simp add: exact u)
  show "0 \<le> s64 (tdiv (s64 (x * rate)) 10000)" "0 \<le> s64 (tdiv (s64 (x * u32 (10000 - rate))) 10000)"
    using assms by (simp_all add: exact u pos_imp_zdiv_nonneg_iff)
qed

lemma allotted_put:
  assumes "rewards_ok s"
  shows "tbl.total (\<lambda>_. rewards_block) (tbl_put n b (bps s)) = tbl.total (\<lambda>_. rewards_block) (bps s)
      - (case tbl_find (bps s) n of None \<Rightarrow> 0 | Some c \<Rightarrow> rewards_block c) + rewards_block b"
    "tbl.total (\<lambda>_. vr_total_reward) (tbl_put k r (vote_rewards s)) = tbl.total (\<lambda>_. vr_total_reward) (vote_rewards s)
      - (case tbl_find (vote_rewards s) k of None \<Rightarrow> 0 | Some q \<Rightarrow> vr_total_reward q) + vr_total_reward r"
  using assms by (simp_all add: rewards_ok_def tbl.total_store tbl.part_def split: option.splits)

text \<open>One producer's part of the reward of a day: at most its share is allotted, to it, to its voters or to the budget.\<close>

lemma reward_bp_result:
  assumes run: "reward_bp now amt all (n, it) (s, bud) = Inr (s', bud')" and ok: "rewards_ok s" "in_range bud" and it: "tbl_find (bps s) n = Some it"
    and share: "0 \<le> f64_share amt (age_at now s n) all" "f64_share amt (age_at now s n) all \<le> 10 ^ 14"
  shows "rewards_ok s' \<and> in_range bud' \<and> allotted s + bud \<le> allotted s' + bud'
    \<and> allotted s' + bud' \<le> allotted s + bud + f64_share amt (age_at now s n) all
    \<and> (\<forall>m. m \<noteq> n \<longrightarrow> tbl_find (bps s') m = tbl_find (bps s) m) \<and> (\<forall>m. age_at now s' m = age_at now s m) \<and> reward_tbl s' = reward_tbl s"
proof -
  let ?x = "f64_share amt (age_at now s n) all"
  have tb: "tbl_ok (bps s)" "tbl_ok (vote_rewards s)" and rng: "in_range (rewards_block it)" using ok(1) it by (auto simp: rewards_ok_def)
  obtain r where r: "tbl_find (vote_rewards s) (n, now) = Some r" using run by (auto simp: reward_bp_def Let_def res_simps)
  then have age: "age_at now s n = vr_total_voteage r" and rr: "in_range (vr_total_reward r)" using ok(1) by (auto simp: age_at_def rewards_ok_def)
  consider (skip) "s' = s" "bud' = bud"
    | (budget) a where "a = s64 ?x" "in_range a" "core_add bud a = Inr bud'" "s' = s"
    | (pay) c v rb tr where "1 \<le> commission_rate it" "commission_rate it \<le> 10000"
        "c = s64 (tdiv (s64 (?x * commission_rate it)) 10000)" "in_range c" "core_add (rewards_block it) c = Inr rb"
        "v = s64 (tdiv (s64 (?x * u32 (10000 - commission_rate it))) 10000)" "in_range v" "core_add (vr_total_reward r) v = Inr tr"
        "s' = s\<lparr>bps := tbl_put n (it\<lparr>rewards_block := rb\<rparr>) (bps s), vote_rewards := tbl_put (n, now) (r\<lparr>vr_total_reward := tr\<rparr>) (vote_rewards s)\<rparr>" "bud' = bud"
  proof (cases "vr_total_voteage r \<le> tdiv all 200 \<or> commission_rate it < 1 \<or> commission_rate it > REWARD_RATIO_PRECISION")
    case True
    then show thesis using run r skip by (auto simp: reward_bp_def Let_def)
  next
    case False
    then show thesis
      using run r budget pay by (auto simp: reward_bp_def Let_def vote_share_def res_simps core_asset_Inr age REWARD_RATIO_PRECISION_def split: if_splits)
  qed
  then show ?thesis
  proof cases
    case skip
    then show ?thesis using ok share by simp
  next
    case budget
    have "s64 ?x = ?x" using share by (intro s64_small) auto
    then show ?thesis
      using budget ok share core_results_in_range(1)[OF budget(3)] by (simp add: core_simps)
  next
    case pay
    note sp = split_share[OF share pay(1,2), folded pay(3,6)]
    have e: "rb = rewards_block it + c" "tr = vr_total_reward r + v" "in_range rb" "in_range tr"
      using pay(4,5,7,8) rng rr core_results_in_range(1)[OF pay(5)] core_results_in_range(1)[OF pay(8)] by (simp_all add: core_simps)
    have "allotted s' = allotted s + c + v"
      using allotted_put(1)[OF ok(1), of n] allotted_put(2)[OF ok(1), of "(n, now)"] it r e(1,2) pay(9) by (simp add: allotted_def)
    moreover have "rewards_ok s'"
      using ok(1) pay(9) e(3,4) tb by (auto simp: rewards_ok_def tbl_ok_put tbl_find_put split: if_splits)
    moreover have "age_at now s' m = age_at now s m" for m
      using pay(9) tb r by (simp add: age_at_def tbl_find_put)
    ultimately show ?thesis using sp pay(9,10) ok(2) tb by (simp add: tbl_find_put)
  qed
qed

lemma reward_rows_result:
  assumes "for_each (reward_bp now amt all) rows (s, bud) = Inr (s', bud')" "rewards_ok s" "in_range bud"
    and "distinct (map fst rows)" "\<forall>(n, b) \<in> set rows. tbl_find (bps s) n = Some b"
    and "\<forall>n \<in> fst ` set rows. 0 \<le> f64_share amt (age_at now s n) all \<and> f64_share amt (age_at now s n) all \<le> 10 ^ 14"
  shows "rewards_ok s' \<and> in_range bud' \<and> allotted s + bud \<le> allotted s' + bud'
    \<and> allotted s' + bud' \<le> allotted s + bud + (\<Sum>r\<leftarrow>rows. f64_share amt (age_at now s (fst r)) all) \<and> reward_tbl s' = reward_tbl s"
  using assms
proof (induction rows arbitrary: s bud)
  case (Cons row rows)
  obtain n it where row: "row = (n, it)" by fastforce
  obtain s1 bud1 where s1: "reward_bp now amt all (n, it) (s, bud) = Inr (s1, bud1)" "for_each (reward_bp now amt all) rows (s1, bud1) = Inr (s', bud')"
    using Cons.prems(1) row by (auto simp: res_simps)
  have step: "rewards_ok s1 \<and> in_range bud1 \<and> allotted s + bud \<le> allotted s1 + bud1
    \<and> allotted s1 + bud1 \<le> allotted s + bud + f64_share amt (age_at now s n) all
    \<and> (\<forall>m. m \<noteq> n \<longrightarrow> tbl_find (bps s1) m = tbl_find (bps s) m) \<and> (\<forall>m. age_at now s1 m = age_at now s m) \<and> reward_tbl s1 = reward_tbl s"
    using reward_bp_result[OF s1(1)] Cons.prems row by auto
  have "rewards_ok s' \<and> in_range bud' \<and> allotted s1 + bud1 \<le> allotted s' + bud'
    \<and> allotted s' + bud' \<le> allotted s1 + bud1 + (\<Sum>r\<leftarrow>rows. f64_share amt (age_at now s1 (fst r)) all) \<and> reward_tbl s' = reward_tbl s1"
  proof (rule Cons.IH[OF s1(2)])
    show "\<forall>(m, b) \<in> set rows. tbl_find (bps s1) m = Some b"
    proof (clarify)
      fix m b assume m: "(m, b) \<in> set rows"
      then have "m \<noteq> n" using Cons.prems(4) row by force
      then show "tbl_find (bps s1) m = Some b" using step Cons.prems(5) m by auto
    qed
  qed (use step Cons.prems(4,6) row in auto)
  then show ?case using step row by auto
qed auto

lemma recorded_voteage_sum:
  assumes run: "recorded_voteage wrap now s = Inr t" and wrap: "\<And>x. 0 \<le> x \<Longrightarrow> x \<le> INT64_MAX \<Longrightarrow> wrap x = x"
    and ages: "\<forall>n \<in> fst ` set (bps s). 0 \<le> age_at now s n" "(\<Sum>r\<leftarrow>bps s. age_at now s (fst r)) \<le> INT64_MAX"
  shows "t = (\<Sum>r\<leftarrow>bps s. age_at now s (fst r))"
proof -
  let ?f = "\<lambda>row t. need (tbl_find (vote_rewards s) (fst row, now)) (Assert ''reward info can not find'') (\<lambda>r. Inr (wrap (t + vr_total_voteage r)))"
  have "u' = u + (\<Sum>r\<leftarrow>rows. age_at now s (fst r))"
    if "for_each ?f rows u = Inr u'" "\<forall>n \<in> fst ` set rows. 0 \<le> age_at now s n" "0 \<le> u" "u + (\<Sum>r\<leftarrow>rows. age_at now s (fst r)) \<le> INT64_MAX" for rows u u'
    using that
  proof (induction rows arbitrary: u)
    case (Cons row rows)
    obtain r where r: "tbl_find (vote_rewards s) (fst row, now) = Some r" "for_each ?f rows (wrap (u + vr_total_voteage r)) = Inr u'"
      using Cons.prems(1) by (auto simp: res_simps)
    have a: "age_at now s (fst row) = vr_total_voteage r" using r(1) by (simp add: age_at_def)
    have "0 \<le> (\<Sum>r\<leftarrow>rows. age_at now s (fst r))" using Cons.prems(2) by (intro sum_list_nonneg) auto
    then have "wrap (u + vr_total_voteage r) = u + vr_total_voteage r"
      using Cons.prems(2-4) a by (intro wrap) auto
    then show ?case using Cons.IH[OF r(2)] Cons.prems(2-4) a by simp
  qed simp
  from this[of "bps s" 0 t] show ?thesis using run ages by (simp add: recorded_voteage_def)
qed

lemma s128_small: "0 \<le> x \<Longrightarrow> x < 2 ^ 127 \<Longrightarrow> s128 x = x"
  by (simp add: s128_def)

lemma reward_bps_result:
  assumes run: "reward_bps now amt s = Inr s'" and ok: "rewards_ok s" "in_range (budget_of s)" and amt: "0 \<le> amt" "amt \<le> 10 ^ 14"
    and ages: "\<forall>n \<in> fst ` set (bps s). 0 \<le> age_at now s n" "(\<Sum>r\<leftarrow>bps s. age_at now s (fst r)) \<le> INT64_MAX"
  shows "allotted s + budget_of s \<le> allotted s' + budget_of s' \<and> allotted s' + budget_of s' \<le> allotted s + budget_of s + amt"
proof -
  let ?b = "\<Sum>r\<leftarrow>bps s. age_at now s (fst r)"
  have all: "recorded_voteage s64 now s = Inr ?b" using run recorded_voteage_sum[of s64, OF _ _ ages] s64_id
    by (auto simp: reward_bps_def res_simps INT64_MIN_def)
  show ?thesis
  proof (cases "?b \<le> 0")
    case True
    then show ?thesis using run all amt by (simp add: reward_bps_def)
  next
    case False
    then obtain s1 bud reward x where s1: "for_each (reward_bp now amt ?b) (bps s) (s, 0) = Inr (s1, bud)"
      and reward: "reward_tbl (init_reward_info s1) = Some reward" "core_add (reward_budget reward) bud = Inr x"
        "s' = (init_reward_info s1)\<lparr>reward_tbl := Some (reward\<lparr>reward_budget := x\<rparr>)\<rparr>"
      using run all by (auto simp: reward_bps_def res_simps)
    have sum: "(\<Sum>r\<leftarrow>bps s. f64_share amt (age_at now s (fst r)) ?b) \<le> amt"
      using f64_shares_le[of amt "map (\<lambda>r. age_at now s (fst r)) (bps s)" ?b] amt ages False by (simp add: comp_def)
    have one: "0 \<le> f64_share amt (age_at now s n) ?b \<and> f64_share amt (age_at now s n) ?b \<le> 10 ^ 14" if "n \<in> fst ` set (bps s)" for n
    proof -
      have "age_at now s n \<le> ?b" using that ages(1) member_le_sum_list[of "age_at now s n" "map (\<lambda>r. age_at now s (fst r)) (bps s)"] by auto
      then show ?thesis using f64_shares_le[of amt "[age_at now s n]" ?b] f64_share_nonneg[of amt "age_at now s n" ?b] amt ages(1) that False by simp
    qed
    have "distinct (map fst (bps s))" "\<forall>(n, b) \<in> set (bps s). tbl_find (bps s) n = Some b"
      using ok(1) tbl_ok_distinct[of "bps s"] by (auto simp: rewards_ok_def tbl_rows_find)
    then have r: "in_range bud" "allotted s \<le> allotted s1 + bud" "allotted s1 + bud \<le> allotted s + amt" "reward_tbl s1 = reward_tbl s"
      using reward_rows_result[OF s1 ok(1)] one sum by (auto simp: in_range_def max_amount_def)
    have b: "reward_budget reward = budget_of s" using reward(1) r(4) by (auto simp: budget_of_def init_reward_info_def split: option.splits)
    have "x = budget_of s + bud" using reward(2) b r(1) ok(2) by (simp add: core_simps)
    moreover have "allotted s' = allotted s1" "budget_of s' = x"
      using reward(3) by (auto simp: allotted_def budget_of_def init_reward_info_def split: option.splits)
    ultimately show ?thesis using r(2,3) by simp
  qed
qed

text \<open>What the contract sends to the miners of other coins.\<close>

fun mined :: "effect \<Rightarrow> int" where
  "mined (Inline a n ps (Amount_data q)) = amount q"
| "mined _ = 0"

lemma vote_power_sum:
  assumes "get_vote_power now s = Inr p" "\<forall>n \<in> fst ` set (bps s). 0 \<le> age_at now s n" "(\<Sum>r\<leftarrow>bps s. age_at now s (fst r)) \<le> INT64_MAX"
  shows "0 \<le> p \<and> p \<le> INT64_MAX * CORE_SYMBOL_PRECISION"
proof -
  have w: "s128 x = x" if "0 \<le> x" "x \<le> INT64_MAX" for x using that by (intro s128_small) (auto simp: INT64_MAX_def)
  obtain t where t: "p = s128 (t * CORE_SYMBOL_PRECISION)" "t = (\<Sum>r\<leftarrow>bps s. age_at now s (fst r))"
    using assms(1) recorded_voteage_sum[of s128, OF _ w assms(2,3)] by (auto simp: get_vote_power_def res_simps)
  have "0 \<le> t" unfolding t(2) using assms(2) by (intro sum_list_nonneg) auto
  then have "p = t * CORE_SYMBOL_PRECISION" using t assms(3) by (simp add: s128_small CORE_SYMBOL_PRECISION_def INT64_MAX_def)
  then show ?thesis using \<open>0 \<le> t\<close> t(2) assms(3) by (simp add: CORE_SYMBOL_PRECISION_def)
qed

definition demo_day :: sys_state where
  "demo_day = empty_sys\<lparr>bps := [(1, (new_bp 1)\<lparr>commission_rate := 1000\<rparr>), (2, (new_bp 1)\<lparr>commission_rate := 500\<rparr>)],
     vote_rewards := [((1, 345), \<lparr>vr_total_voteage = 100, vr_total_reward = 0\<rparr>), ((2, 345), \<lparr>vr_total_voteage = 200, vr_total_reward = 0\<rparr>)]\<rparr>"

lemma demo_day_run: "\<not> isl (rewardmine (demo_sc system_account_name 345) 1000 demo_day)"
  by code_simp

text \<open>C35. The reward of a day is never exceeded. When \<open>rewardmine\<close> divides a reward between the miners of other coins and
  the producers, and the part of the producers among them by the age of their votes in double precision, splitting each
  share between the producer and its voters, then what is sent to the miners, credited to producers and voters and kept
  in the budget is together at most the reward.\<close>

theorem day_reward_not_exceeded:
  assumes "rewardmine sc reward_num s = Inr (s', effs)" and "rewards_ok s" and "in_range (budget_of s)"
    and "0 \<le> reward_num" and "reward_num \<le> 10 ^ 14"
    and "\<forall>n \<in> fst ` set (bps s). 0 \<le> age_at (block_num (sc_ctx sc)) s n"
    and "(\<Sum>r\<leftarrow>bps s. age_at (block_num (sc_ctx sc)) s (fst r)) \<le> INT64_MAX"
    and "\<exists>c. get_coin_power sc = Inr c \<and> 0 \<le> c \<and> c < 2 ^ 126"
  shows "(\<Sum>e\<leftarrow>effs. mined e) + allotted s' + budget_of s' \<le> allotted s + budget_of s + reward_num"
proof -
  obtain c where c: "get_coin_power sc = Inr c" "0 \<le> c" "c < 2 ^ 126" using assms(8) by blast
  obtain p where p: "get_vote_power (block_num (sc_ctx sc)) s = Inr p" using assms(1) by (auto simp: rewardmine_def res_simps)
  have pr: "0 \<le> p" "p \<le> INT64_MAX * CORE_SYMBOL_PRECISION" using vote_power_sum[OF p assms(6,7)] by auto
  then have t: "s128 (p + c) = p + c" using c by (intro s128_small) (auto simp: INT64_MAX_def CORE_SYMBOL_PRECISION_def)
  have "reward_num * p \<le> 10 ^ 14 * (INT64_MAX * CORE_SYMBOL_PRECISION)" using assms(4,5) pr by (intro mult_mono) auto
  then have m: "s128 (reward_num * p) = reward_num * p" using assms(4) pr by (intro s128_small) (auto simp: INT64_MAX_def CORE_SYMBOL_PRECISION_def)
  show ?thesis
  proof (cases "p + c = 0")
    case True
    then show ?thesis using assms(1,4) c(1) p t by (auto simp: rewardmine_def res_simps)
  next
    case False
    then have pos: "0 < p + c" using pr c by simp
    let ?x = "reward_num * p div (p + c)"
    have "reward_num * p \<le> reward_num * (p + c)" using assms(4) c by (simp add: mult_left_mono)
    then have x: "0 \<le> ?x" "?x \<le> reward_num"
      using pos pr assms(4) zdiv_mono1[of "reward_num * p" "reward_num * (p + c)" "p + c"] by (auto simp: pos_imp_zdiv_nonneg_iff)
    have xs: "s64 (tdiv (reward_num * p) (p + c)) = ?x" "s64 (reward_num - ?x) = reward_num - ?x"
      using x assms(4,5) pos pr by (auto intro!: s64_small)
    obtain a where "reward_bps (block_num (sc_ctx sc)) ?x s = Inr s'" and "core_asset (reward_num - ?x) = Inr a"
      and effs: "effs = [Inline relay_token_account_name rewardmine_name [(self (sc_ctx sc), active_name)] (Amount_data (core a))]"
      using assms(1) c(1) p t m xs False by (auto simp: rewardmine_def reward_mines_def res_simps Let_def)
    then have "reward_bps (block_num (sc_ctx sc)) ?x s = Inr s'" "a = reward_num - ?x" using xs by (auto simp: core_asset_Inr)
    then show ?thesis
      using reward_bps_result[OF _ assms(2,3) x(1) _ assms(6,7)] x assms(5) effs by (simp add: core_def)
  qed
qed

theorem day_reward_not_exceeded_witness:
  "\<exists>s' effs. rewardmine (demo_sc system_account_name 345) 1000 demo_day = Inr (s', effs)
    \<and> (\<Sum>e\<leftarrow>effs. mined e) + allotted s' + budget_of s' \<le> allotted demo_day + budget_of demo_day + 1000"
proof -
  obtain s' effs where run: "rewardmine (demo_sc system_account_name 345) 1000 demo_day = Inr (s', effs)"
    using demo_day_run by (cases "rewardmine (demo_sc system_account_name 345) 1000 demo_day") auto
  have ok: "rewards_ok demo_day"
    by (auto simp: rewards_ok_def demo_day_def tbl_ok_Cons tbl_find_def in_range_def max_amount_def new_bp_def split: if_splits)
  have ages: "age_at 345 demo_day 1 = 100" "age_at 345 demo_day 2 = 200" by (simp_all add: age_at_def demo_day_def tbl_find_def)
  have b: "bps demo_day = [(1, (new_bp 1)\<lparr>commission_rate := 1000\<rparr>), (2, (new_bp 1)\<lparr>commission_rate := 500\<rparr>)]" by (simp add: demo_day_def)
  have "in_range (budget_of demo_day)" by (simp add: budget_of_def demo_day_def empty_sys_def in_range_def max_amount_def)
  moreover have "\<exists>c. get_coin_power (demo_sc system_account_name 345) = Inr c \<and> 0 \<le> c \<and> c < 2 ^ 126" by (simp add: get_coin_power_def demo_sc_def)
  moreover have "block_num (sc_ctx (demo_sc system_account_name 345)) = 345" by (simp add: demo_sc_def)
  ultimately show ?thesis using day_reward_not_exceeded[OF run ok] run by (simp add: ages b INT64_MAX_def)
qed

subsection \<open>What a day promises and what it issues\<close>

fun issued :: "effect \<Rightarrow> int" where
  "issued (Inline a n ps (Issue_data to q m)) = amount q"
| "issued _ = 0"

fun promised :: "effect \<Rightarrow> int" where
  "promised (Inline a n ps (Number_data r)) = r"
| "promised _ = 0"

text \<open>The row of the reward table at the end of a cycle, as a function of the row before.\<close>

definition cycle_issue :: "int \<Rightarrow> reward_info \<Rightarrow> int" where
  "cycle_issue now r = tdiv (s64 (cycle_reward r * u32 (now - last_reward_block_num r))) UPDATE_CYCLE"

definition is_stable :: "reward_info \<Rightarrow> bool" where
  "is_stable r \<longleftrightarrow> u32 (s32 (total_reward_time r + 1)) = CYCLE_PREDAY * STABLE_DAY"

definition is_daily :: "reward_info \<Rightarrow> bool" where
  "is_daily r \<longleftrightarrow> \<not> is_stable r \<and> u32 (s32 (total_reward_time r + 1)) mod CYCLE_PREDAY = 0"

definition held_row :: "reward_info \<Rightarrow> reward_info" where
  "held_row r = (if is_daily r then r\<lparr>cycle_reward := tdiv (s64 (cycle_reward r * gradient r)) REWARD_RATIO_PRECISION\<rparr> else r)"

definition cycle_row :: "int \<Rightarrow> account_name \<Rightarrow> reward_info \<Rightarrow> reward_info" where
  "cycle_row now bpname r = record_reward now bpname (if is_stable r then update_reward_stable r else held_row r)"

definition bp_part :: "int \<Rightarrow> reward_info \<Rightarrow> int" where
  "bp_part now r = tdiv (s64 (cycle_issue now r * REWARD_BP)) REWARD_RATIO_PRECISION"

lemma init_reward_Some: "reward_tbl s = Some r \<Longrightarrow> init_reward_info s = s"
  by (simp add: init_reward_info_def)

lemma reward_block_row:
  assumes "reward_block now v amt fc s = Inr s'" "reward_tbl s = Some r" "in_range (reward_block_out r)" "in_range (s64 amt)"
  shows "\<exists>age. reward_tbl s' = Some (r\<lparr>reward_block_out := reward_block_out r + s64 amt, total_block_out_age := age\<rparr>)"
  using assms by (auto simp: reward_block_def init_reward_Some Let_def res_simps core_asset_Inr core_simps)

lemma settlebpvote_row: "reward_tbl (settlebpvote now s) = reward_tbl s"
proof -
  have "reward_tbl (fold (settle_bp now) rows s) = reward_tbl s" for rows
    by (induction rows arbitrary: s) (simp_all add: settle_bp_def Let_def)
  then show ?thesis by (simp add: settlebpvote_def)
qed

lemma update_elected_row:
  "update_elected_bps sc s = Inr (s', effs) \<Longrightarrow> reward_tbl s = Some r \<Longrightarrow>
    reward_tbl s' = Some r \<and> (\<Sum>e\<leftarrow>effs. issued e) = 0 \<and> (\<Sum>e\<leftarrow>effs. promised e) = 0"
  by (auto simp: update_elected_bps_def init_creation_bp_def init_reward_info_def res_simps Let_def split_beta split: if_splits)

lemma end_of_cycle_unfold:
  assumes "end_of_cycle sc bpname v fc s = Inr (s', effs)" "block_num (sc_ctx sc) = now"
  shows "\<exists>r iss s1 x2 x3. reward_tbl (init_reward_info s) = Some r \<and> core_asset (cycle_issue now r) = Inr iss
    \<and> reward_block now v (bp_part now r) fc ((init_reward_info s)\<lparr>reward_tbl := Some (cycle_row now bpname r)\<rparr>) = Inr s1
    \<and> (if is_stable r \<or> is_daily r then end_of_day now (held_row r) s1 else Inr (s1, [])) = Inr x2
    \<and> (if fc then Inr (fst x2, []) else update_elected_bps sc (fst x2)) = Inr x3 \<and> s' = fst x3
    \<and> effs = Inline token_account_name issue_name [(system_account_name, active_name)]
                (Issue_data reward_account_name (core iss) ''issue tokens for producer pay'') # snd x2 @ snd x3"
proof -
  obtain r where r: "reward_tbl (init_reward_info s) = Some r" using assms(1) by (auto simp: end_of_cycle_def need_Inr)
  obtain iss s1 x2 x3 where "core_asset (cycle_issue now r) = Inr iss"
    "reward_block now v (bp_part now r) fc ((init_reward_info s)\<lparr>reward_tbl := Some (cycle_row now bpname r)\<rparr>) = Inr s1"
    "(if is_stable r \<or> is_daily r then end_of_day now (held_row r) s1 else Inr (s1, [])) = Inr x2"
    "(if fc then Inr (fst x2, []) else update_elected_bps sc (fst x2)) = Inr x3"
    "s' = fst x3" "effs = Inline token_account_name issue_name [(system_account_name, active_name)]
                (Issue_data reward_account_name (core iss) ''issue tokens for producer pay'') # snd x2 @ snd x3"
    using assms r unfolding end_of_cycle_def Let_def bnd_Inr need_Inr split_beta cycle_issue_def bp_part_def is_daily_def is_stable_def held_row_def cycle_row_def
    by auto
  then show ?thesis using r by blast
qed

lemma end_of_cycle_row:
  assumes run: "end_of_cycle sc bpname v fc s = Inr (s', effs)" and r: "reward_tbl (init_reward_info s) = Some r" and now: "block_num (sc_ctx sc) = now"
    and rng: "in_range (reward_block_out r)" "in_range (bp_part now r)"
  shows "(\<exists>age. reward_tbl s' = Some ((cycle_row now bpname r)\<lparr>reward_block_out := reward_block_out r + bp_part now r, total_block_out_age := age\<rparr>))
    \<and> (\<Sum>e\<leftarrow>effs. issued e) = s64 (cycle_issue now r)
    \<and> (if is_stable r \<or> is_daily r then day_reward now (held_row r) = Inr (\<Sum>e\<leftarrow>effs. promised e) else (\<Sum>e\<leftarrow>effs. promised e) = 0)"
proof -
  obtain iss s1 x2 x3 where iss: "core_asset (cycle_issue now r) = Inr iss"
    and s1: "reward_block now v (bp_part now r) fc ((init_reward_info s)\<lparr>reward_tbl := Some (cycle_row now bpname r)\<rparr>) = Inr s1"
    and x2: "(if is_stable r \<or> is_daily r then end_of_day now (held_row r) s1 else Inr (s1, [])) = Inr x2"
    and x3: "(if fc then Inr (fst x2, []) else update_elected_bps sc (fst x2)) = Inr x3"
    and res: "s' = fst x3" "effs = Inline token_account_name issue_name [(system_account_name, active_name)]
                (Issue_data reward_account_name (core iss) ''issue tokens for producer pay'') # snd x2 @ snd x3"
    using end_of_cycle_unfold[OF run now] r by auto
  have out: "reward_block_out (cycle_row now bpname r) = reward_block_out r"
    by (simp add: cycle_row_def record_reward_def update_reward_stable_def held_row_def Let_def)
  have "s64 (bp_part now r) = bp_part now r" using rng(2) by (intro s64_id) (auto simp: in_range_def max_amount_def INT64_MIN_def INT64_MAX_def)
  then obtain age where row1: "reward_tbl s1 = Some ((cycle_row now bpname r)\<lparr>reward_block_out := reward_block_out r + bp_part now r, total_block_out_age := age\<rparr>)"
    using reward_block_row[OF s1] rng out by auto
  have row2: "reward_tbl (fst x2) = reward_tbl s1 \<and> (\<Sum>e\<leftarrow>snd x2. issued e) = 0
      \<and> (if is_stable r \<or> is_daily r then day_reward now (held_row r) = Inr (\<Sum>e\<leftarrow>snd x2. promised e) else (\<Sum>e\<leftarrow>snd x2. promised e) = 0)"
    using x2 settlebpvote_row[of now s1] by (auto simp: end_of_day_def res_simps split: if_splits)
  have row3: "reward_tbl (fst x3) = reward_tbl (fst x2) \<and> (\<Sum>e\<leftarrow>snd x3. issued e) = 0 \<and> (\<Sum>e\<leftarrow>snd x3. promised e) = 0"
    using x3 update_elected_row[of sc "fst x2" "fst x3" "snd x3"] row1 row2 by (auto split: if_splits)
  show ?thesis using row1 row2 row3 res iss by (auto simp: core_def core_asset_Inr)
qed

text \<open>The first day of a chain, cycle by cycle.\<close>

definition first_row :: "nat \<Rightarrow> int \<Rightarrow> account_name \<Rightarrow> reward_info" where
  "first_row k age bpname = \<lparr>reward_block_out = 17580 * int k, reward_budget = 0, total_block_out_age = age, cycle_reward = PRE_BLOCK_REWARDS,
     gradient = PRE_GRADIENT, total_reward_time = int k, last_reward_block_num = 69 * int k, last_producer_name = bpname,
     reward_block_num = map (\<lambda>i. 69 * int i) [0..<Suc k]\<rparr>"

lemmas row_eval = cycle_row_def cycle_issue_def bp_part_def is_stable_def is_daily_def held_row_def first_row_def record_reward_def
  producer_constants wrap_simps tdiv_def

lemma first_row_step:
  assumes "k \<in> {0, 1, 2, 3}"
  shows "cycle_row (69 * int (Suc k)) bpname (first_row k age b) = (first_row (Suc k) age bpname)\<lparr>reward_block_out := 17580 * int k\<rparr>"
    "cycle_issue (69 * int (Suc k)) (first_row k age b) = 586000" "bp_part (69 * int (Suc k)) (first_row k age b) = 17580"
    "\<not> is_stable (first_row k age b)" "\<not> is_daily (first_row k age b)"
  using assms by (elim insertE emptyE; simp add: row_eval Let_def numeral_2_eq_2 numeral_3_eq_3 upt_rec)+

lemma first_row_run:
  assumes "end_of_cycle sc bpname v fc s = Inr (s', effs)" "reward_tbl (init_reward_info s) = Some (first_row k age b)" "k \<in> {0, 1, 2, 3}"
    "block_num (sc_ctx sc) = 69 * int (Suc k)"
  shows "\<exists>age'. reward_tbl (init_reward_info s') = Some (first_row (Suc k) age' bpname)" "(\<Sum>e\<leftarrow>effs. issued e) = 586000" "(\<Sum>e\<leftarrow>effs. promised e) = 0"
proof -
  have "in_range (reward_block_out (first_row k age b))" "in_range 17580" using assms(3) by (auto simp: in_range_def first_row_def max_amount_def)
  note r = end_of_cycle_row[OF assms(1,2,4), unfolded first_row_step(2,3)[OF assms(3)], OF this]
  show "\<exists>age'. reward_tbl (init_reward_info s') = Some (first_row (Suc k) age' bpname)"
    using r init_reward_Some[of s'] first_row_step(1)[OF assms(3), of bpname age b] by (auto simp: first_row_def distrib_left)
  show "(\<Sum>e\<leftarrow>effs. issued e) = 586000" "(\<Sum>e\<leftarrow>effs. promised e) = 0"
    using r first_row_step(4,5)[OF assms(3)] by (auto simp: s64_def)
qed

lemma first_row_4:
  "reward_block_num (first_row 4 age b) = [0, 69, 138, 207, 276]" "cycle_reward (first_row 4 age b) = 586000" "gradient (first_row 4 age b) = 10250"
  "total_reward_time (first_row 4 age b) = 4" "last_reward_block_num (first_row 4 age b) = 276" "reward_block_out (first_row 4 age b) = 70320"
  by (simp_all add: first_row_def upt_rec PRE_BLOCK_REWARDS_def PRE_GRADIENT_def)

lemma first_day_end:
  "is_daily (first_row 4 age b)" "day_reward 345 (held_row (first_row 4 age b)) = Inr 2913152"
  "cycle_issue 345 (first_row 4 age b) = 586000" "bp_part 345 (first_row 4 age b) = 17580"
proof -
  show d: "is_daily (first_row 4 age b)"
    by (simp add: is_daily_def is_stable_def first_row_4 wrap_simps CYCLE_PREDAY_def STABLE_DAY_def)
  show i: "cycle_issue 345 (first_row 4 age b) = 586000"
    by (simp add: cycle_issue_def first_row_4 wrap_simps UPDATE_CYCLE_def CYCLE_PREBP_BLOCK_def NUM_OF_TOP_BPS_def)
  show "bp_part 345 (first_row 4 age b) = 17580"
    by (simp add: bp_part_def i wrap_simps REWARD_BP_def REWARD_RATIO_PRECISION_def)
  show "day_reward 345 (held_row (first_row 4 age b)) = Inr 2913152"
    by (simp add: day_reward_def held_row_def d first_row_4 Let_def wrap_simps UPDATE_CYCLE_def CYCLE_PREBP_BLOCK_def NUM_OF_TOP_BPS_def
        CYCLE_PREDAY_def REWARD_MINE_def REWARD_BP_def REWARD_RATIO_PRECISION_def)
qed

text \<open>C36. A day promises more than it issues. On a chain whose first five cycles have 69 blocks each, the contract has 2930000
  units issued for them; but it puts 87900 units aside for the producers of the blocks and has 2913152 units divided among
  miners, producers and voters, 71052 units more than were issued: the reward of the day is computed with the reward of
  the next day.\<close>

theorem day_promises_more_than_issued:
  assumes "end_of_cycle sc1 b1 v1 f1 s0 = Inr (s1, e1)" and "end_of_cycle sc2 b2 v2 f2 s1 = Inr (s2, e2)"
    and "end_of_cycle sc3 b3 v3 f3 s2 = Inr (s3, e3)" and "end_of_cycle sc4 b4 v4 f4 s3 = Inr (s4, e4)"
    and "end_of_cycle sc5 b5 v5 f5 s4 = Inr (s5, e5)" and "reward_tbl s0 = None"
    and "map (\<lambda>sc. block_num (sc_ctx sc)) [sc1, sc2, sc3, sc4, sc5] = [69, 138, 207, 276, 345]"
  shows "(\<Sum>e\<leftarrow>e1 @ e2 @ e3 @ e4 @ e5. issued e) = 2930000
    \<and> (\<Sum>e\<leftarrow>e1 @ e2 @ e3 @ e4 @ e5. promised e) = 2913152 \<and> map_option reward_block_out (reward_tbl s5) = Some 87900"
proof -
  have "reward_tbl (init_reward_info s0) = Some (first_row 0 0 0)" using assms(6) by (simp add: init_reward_info_def first_row_def)
  note r1 = first_row_run[OF assms(1) this]
  obtain a1 where a1: "reward_tbl (init_reward_info s1) = Some (first_row 1 a1 b1)" using r1(1) assms(7) by auto
  note r2 = first_row_run[OF assms(2) a1]
  obtain a2 where a2: "reward_tbl (init_reward_info s2) = Some (first_row 2 a2 b2)" using r2(1) assms(7) by (auto simp: numeral_2_eq_2)
  note r3 = first_row_run[OF assms(3) a2]
  obtain a3 where a3: "reward_tbl (init_reward_info s3) = Some (first_row 3 a3 b3)" using r3(1) assms(7) by (auto simp: numeral_3_eq_3)
  note r4 = first_row_run[OF assms(4) a3]
  obtain a4 where a4: "reward_tbl (init_reward_info s4) = Some (first_row 4 a4 b4)" using r4(1) assms(7) by (auto simp: eval_nat_numeral)
  have rng: "in_range 70320" "in_range 17580" by (simp_all add: in_range_def max_amount_def)
  have now: "block_num (sc_ctx sc5) = 345" using assms(7) by simp
  note r5 = end_of_cycle_row[OF assms(5) a4 now, unfolded first_day_end(3,4) first_row_4(6), OF rng]
  have "(\<Sum>e\<leftarrow>e5. issued e) = 586000" "(\<Sum>e\<leftarrow>e5. promised e) = 2913152" "map_option reward_block_out (reward_tbl s5) = Some 87900"
    using r5 first_day_end(1,2)[of a4 b4] by (auto simp: s64_def)
  then show ?thesis using r1(2,3) r2(2,3) r3(2,3) r4(2,3) assms(7) by simp
qed

definition demo_cycle :: "int \<Rightarrow> sys_state \<Rightarrow> sys_state result" where
  "demo_cycle now = end_of_cycle (demo_sc system_account_name now) 1 1 True"

definition demo_scheduled :: sys_state where
  "demo_scheduled = empty_sys\<lparr>bps := [(1, (new_bp 0)\<lparr>mortgage := 100000000\<rparr>)],
     schedules := [(1, \<lparr>sch_block_height = 1, sch_producers = [(1, 3)]\<rparr>)]\<rparr>"

definition demo_cycles :: "contract_error + sys_state" where
  "demo_cycles = for_each (\<lambda>now s. drop_effects (demo_cycle now s)) [69, 138, 207, 276, 345] demo_scheduled"

lemma demo_cycles_run: "\<not> isl demo_cycles" by code_simp

theorem day_promises_more_than_issued_witness:
  "\<exists>s5 es. demo_cycles = Inr s5 \<and> (\<Sum>e\<leftarrow>es. issued e) = 2930000
    \<and> (\<Sum>e\<leftarrow>es. promised e) = 2913152 \<and> map_option reward_block_out (reward_tbl s5) = Some 87900"
proof -
  obtain s5 where s5: "demo_cycles = Inr s5" using demo_cycles_run by (metis isl_def sumE sum.disc(1))
  then obtain s1 e1 s2 e2 s3 e3 s4 e4 e5 where runs: "demo_cycle 69 demo_scheduled = Inr (s1, e1)" "demo_cycle 138 s1 = Inr (s2, e2)"
    "demo_cycle 207 s2 = Inr (s3, e3)" "demo_cycle 276 s3 = Inr (s4, e4)" "demo_cycle 345 s4 = Inr (s5, e5)"
    unfolding demo_cycles_def by (auto simp: res_simps)
  have "reward_tbl demo_scheduled = None" by (simp add: demo_scheduled_def empty_sys_def)
  then show ?thesis
    using day_promises_more_than_issued[OF runs[unfolded demo_cycle_def]] s5 runs(1)
    by (intro exI[of _ s5] exI[of _ "e1 @ e2 @ e3 @ e4 @ e5"]) (auto simp: demo_sc_def demo_cycle_def drop_effects_def)
qed

end
