(* ===== verification/System_Contract.thy ===== *)
theory System_Contract
  imports System_Election System_Rewards
begin

text \<open>
  The contract \<open>force.system\<close> as a whole: every action that changes its tables, and what holds after every sequence of
  them. The producers of blocks share a pool of rewards by their block ages; the contract keeps the ages in the rows of
  the producers and their sum in the row of the rewards, and every action keeps the two consistent.
\<close>

subsection \<open>The actions\<close>

datatype sys_action =
    Staking_action staking_action
  | Updatebp account_name int int string
  | Removebp account_name
  | Onblock account_name int
  | Rewardmine int
  | Addmortgage account_name account_name asset
  | Claimmortgage account_name account_name asset
  | Claimbp account_name account_name
  | Claimvote account_name account_name
  | Punishbp account_name account_name
  | Canclepunish account_name account_name
  | Apppunish account_name account_name
  | Unapppunish account_name account_name
  | Bailpunish account_name

fun sys_apply :: "sys_context \<Rightarrow> sys_action \<Rightarrow> sys_state \<Rightarrow> sys_state result" where
  "sys_apply sc (Staking_action a) s = staking_apply sc a s"
| "sys_apply sc (Updatebp n key rate url) s = updatebp sc n key rate url s"
| "sys_apply sc (Removebp n) s = removebp sc n s"
| "sys_apply sc (Onblock n v) s = onblock sc n v s"
| "sys_apply sc (Rewardmine r) s = rewardmine sc r s"
| "sys_apply sc (Addmortgage n p q) s = addmortgage sc n p q s"
| "sys_apply sc (Claimmortgage n r q) s = claimmortgage sc n r q s"
| "sys_apply sc (Claimbp n r) s = claimbp sc n r s"
| "sys_apply sc (Claimvote n r) s = claimvote sc n r s"
| "sys_apply sc (Punishbp i n) s = punishbp sc i n s"
| "sys_apply sc (Canclepunish i n) s = canclepunish sc i n s"
| "sys_apply sc (Apppunish a n) s = apppunish sc a n s"
| "sys_apply sc (Unapppunish a n) s = unapppunish sc a n s"
| "sys_apply sc (Bailpunish n) s = bailpunish sc n s"

definition sys_step :: "sys_context \<times> sys_action \<Rightarrow> sys_state \<Rightarrow> contract_error + sys_state" where
  "sys_step a s = drop_effects (sys_apply (fst a) (snd a) s)"

subsection \<open>Block ages\<close>

definition age_in :: "(account_name, bp_info) tbl \<Rightarrow> account_name \<Rightarrow> int" where
  "age_in t n = (case tbl_find t n of None \<Rightarrow> 0 | Some b \<Rightarrow> block_age b)"

definition age_sum :: "(account_name, bp_info) tbl \<Rightarrow> int" where
  "age_sum t = tbl.total (\<lambda>_. block_age) t"

definition total_age :: "sys_state \<Rightarrow> int" where
  "total_age s = (case reward_tbl s of None \<Rightarrow> 0 | Some r \<Rightarrow> total_block_out_age r)"

text \<open>The recorded total is the sum of the ages, in 64 bits.\<close>

definition ages_ok :: "sys_state \<Rightarrow> bool" where
  "ages_ok s \<longleftrightarrow> tbl_ok (bps s) \<and> total_age s = s64 (age_sum (bps s))"

lemma age_in_put: "tbl_ok t \<Longrightarrow> age_in (tbl_put n b t) m = (if m = n then block_age b else age_in t m)"
  by (simp add: age_in_def tbl_find_put)

lemma age_sum_put: "tbl_ok t \<Longrightarrow> age_sum (tbl_put n b t) = age_sum t - age_in t n + block_age b"
  by (simp add: age_sum_def tbl.total_store tbl.part_def age_in_def split: option.splits)

lemma age_sum_alt: "tbl_ok t \<Longrightarrow> age_sum t = (\<Sum>n | age_in t n \<noteq> 0. age_in t n)"
proof -
  assume ok: "tbl_ok t"
  have v: "age_in t (fst r) = block_age (snd r)" if "r \<in> set t" for r
    using tbl_rows_find[OF ok, of "fst r" "snd r"] that by (simp add: age_in_def)
  have "age_sum t = (\<Sum>r\<leftarrow>t. age_in t (fst r))"
    unfolding age_sum_def tbl.total_def using v by (intro arg_cong[where f = sum_list] map_cong) auto
  also have "\<dots> = (\<Sum>n\<in>fst ` set t. age_in t n)"
    using sum_list_distinct_conv_sum_set[OF tbl_ok_distinct[OF ok], of "age_in t"] by (simp add: comp_def)
  also have "\<dots> = (\<Sum>n | age_in t n \<noteq> 0. age_in t n)"
  proof (rule sum.mono_neutral_right)
    show "{n. age_in t n \<noteq> 0} \<subseteq> fst ` set t"
    proof (rule subsetI, clarsimp)
      fix n assume "age_in t n \<noteq> 0"
      then obtain b where "tbl_find t n = Some b" by (auto simp: age_in_def split: option.splits)
      then show "n \<in> fst ` set t" using tbl_rows_find[OF ok, of n b] by force
    qed
  qed auto
  finally show ?thesis .
qed

text \<open>Most actions do not touch the ages.\<close>

definition same_ages :: "sys_state \<Rightarrow> sys_state \<Rightarrow> bool" where
  "same_ages s s' \<longleftrightarrow> (tbl_ok (bps s) \<longrightarrow> tbl_ok (bps s') \<and> (\<forall>n. age_in (bps s') n = age_in (bps s) n)) \<and> total_age s' = total_age s"

lemma same_ages_ok: "same_ages s s' \<Longrightarrow> ages_ok s \<Longrightarrow> ages_ok s'"
  by (simp add: same_ages_def ages_ok_def age_sum_alt)

lemma same_ages_refl: "bps s' = bps s \<Longrightarrow> reward_tbl s' = reward_tbl s \<Longrightarrow> same_ages s s'"
  by (simp add: same_ages_def total_age_def)

lemma same_ages_trans: "same_ages s s' \<Longrightarrow> same_ages s' s'' \<Longrightarrow> same_ages s s''"
  by (simp add: same_ages_def)

lemma same_ages_put:
  "bps s' = tbl_put n b (bps s) \<Longrightarrow> block_age b = age_in (bps s) n \<Longrightarrow> reward_tbl s' = reward_tbl s \<Longrightarrow> same_ages s s'"
  by (simp add: same_ages_def tbl_ok_put age_in_put total_age_def)

lemma age_in_Some: "tbl_find t n = Some b \<Longrightarrow> age_in t n = block_age b"
  by (simp add: age_in_def)

text \<open>A loop over the rows of the table, whose body stores each row again with its age.\<close>

lemma same_ages_rows:
  assumes "tbl_ok t" "\<And>n b t' t''. (n, b) \<in> set rows \<Longrightarrow> step (n, b) t' = Inr t'' \<Longrightarrow> \<exists>b'. fst t'' = tbl_put n b' (fst t') \<and> block_age b' = block_age b \<or> fst t'' = fst t'"
    "for_each step rows x = Inr x'" "tbl_ok (fst x)" "\<forall>n. age_in (fst x) n = age_in t n" "set rows \<subseteq> set t"
  shows "tbl_ok (fst x') \<and> (\<forall>n. age_in (fst x') n = age_in t n)"
proof (rule for_each_inv[OF assms(3)])
  fix r u u' assume r: "r \<in> set rows" "tbl_ok (fst u) \<and> (\<forall>n. age_in (fst u) n = age_in t n)" "step r u = Inr u'"
  obtain n b where nb: "r = (n, b)" by fastforce
  have "age_in t n = block_age b" using tbl_rows_find[OF assms(1), of n b] assms(6) r(1) nb by (auto simp: age_in_def)
  then show "tbl_ok (fst u') \<and> (\<forall>n. age_in (fst u') n = age_in t n)"
    using assms(2)[of n b u u'] r nb by (auto simp: tbl_ok_put age_in_put)
qed (use assms(4,5) in blast)

subsection \<open>Actions that keep the ages\<close>

lemma change_bp_ages: "tbl_find (bps s) n = Some b \<Longrightarrow> same_ages s (change_bp now n b c s)"
  unfolding change_bp_def by (rule same_ages_put, simp, simp add: age_in_def, simp)

lemma same_ages_frame: "bps s1 = bps s \<Longrightarrow> reward_tbl s1 = reward_tbl s \<Longrightarrow> same_ages s1 s' \<Longrightarrow> same_ages s s'"
  by (simp add: same_ages_def total_age_def)

lemma stake_frames:
  "return_stake now v c s = Inr s' \<Longrightarrow> bps s' = bps s \<and> reward_tbl s' = reward_tbl s"
  "take_stake v c s = Inr s' \<Longrightarrow> bps s' = bps s \<and> reward_tbl s' = reward_tbl s"
  "settlevoter now v n s = Inr s' \<Longrightarrow> bps s' = bps s \<and> reward_tbl s' = reward_tbl s"
  by (auto simp: return_stake_def take_stake_def settlevoter_def res_simps split: if_splits option.splits)

lemma cast_frames:
  "cast_vote now v n a s = Inr r \<Longrightarrow> bps (snd r) = bps s \<and> reward_tbl (snd r) = reward_tbl s"
  "cast_vote4ram now v n a s = Inr r \<Longrightarrow> bps (snd r) = bps s \<and> reward_tbl (snd r) = reward_tbl s"
  by (auto simp: cast_vote_def cast_vote4ram_def res_simps dest!: stake_frames split: option.splits)

lemma vote_ages: "vote sc v n q s = Inr (s', effs) \<Longrightarrow> same_ages s s'"
proof -
  assume "vote sc v n q s = Inr (s', effs)"
  then obtain r bp s4 where r: "cast_vote (block_num (sc_ctx sc)) v n (amount q) s = Inr r" "tbl_find (bps (snd r)) n = Some bp"
    "take_stake v (fst r) (snd r) = Inr s4" "s' = change_bp (block_num (sc_ctx sc)) n bp (fst r) s4"
    by (auto simp: vote_def Let_def res_simps integral_stake_Inr)
  have k: "bps s4 = bps s" "reward_tbl s4 = reward_tbl s" "bps (snd r) = bps s" using cast_frames(1)[OF r(1)] stake_frames(2)[OF r(3)] by auto
  have "tbl_find (bps s4) n = Some bp" using k r(2) by simp
  then show ?thesis unfolding r(4) by (rule same_ages_frame[OF k(1,2) change_bp_ages])
qed

lemma vote4ram_ages: "vote4ram sc v n q s = Inr (s', effs) \<Longrightarrow> same_ages s s'"
proof -
  assume "vote4ram sc v n q s = Inr (s', effs)"
  then obtain r bp s4 x where r: "tbl_find (bps s) n = Some bp" "cast_vote4ram (block_num (sc_ctx sc)) v n (amount q) s = Inr r"
    "take_stake v (fst r) (snd r) = Inr s4" "s' = (change_bp (block_num (sc_ctx sc)) n bp (fst r) s4)\<lparr>vote4ramsum := x\<rparr>"
    by (auto simp: vote4ram_def Let_def res_simps integral_stake_Inr)
  have k: "bps s4 = bps s" "reward_tbl s4 = reward_tbl s" using cast_frames(2)[OF r(2)] stake_frames(2)[OF r(3)] by auto
  have "tbl_find (bps s4) n = Some bp" using k r(1) by simp
  then have "same_ages s (change_bp (block_num (sc_ctx sc)) n bp (fst r) s4)" by (rule same_ages_frame[OF k change_bp_ages])
  moreover have "same_ages (change_bp (block_num (sc_ctx sc)) n bp (fst r) s4) s'" unfolding r(4) by (rule same_ages_refl) simp_all
  ultimately show ?thesis by (rule same_ages_trans)
qed

lemma apply_delta_ages: "apply_delta now v pd s = Inr s' \<Longrightarrow> same_ages s s'"
proof (cases "delta (snd pd) = 0")
  case False
  assume "apply_delta now v pd s = Inr s'"
  then obtain bp x where bp: "tbl_find (bps s) (fst pd) = Some bp" "s' = change_bp now (fst pd) bp (delta (snd pd)) (s\<lparr>votes := x\<rparr>)"
    using False by (auto simp: apply_delta_def Let_def res_simps)
  have "same_ages (s\<lparr>votes := x\<rparr>) s'" unfolding bp(2) by (rule change_bp_ages) (simp add: bp(1))
  then show ?thesis by (rule same_ages_frame[rotated 2]) simp_all
next
  case True
  assume "apply_delta now v pd s = Inr s'"
  then show ?thesis using True by (intro same_ages_refl) (simp_all add: apply_delta_def)
qed

lemma update_votes_ages:
  assumes "update_votes sc v ps s = Inr s'" shows "same_ages s s'"
proof -
  obtain ds x where d: "for_each (apply_delta (block_num (sc_ctx sc)) v) ds (s\<lparr>mvotes := x\<rparr>) = Inr s'"
    using assms by (auto simp: update_votes_def res_simps)
  show ?thesis
  proof (rule for_each_inv[OF d, where P = "same_ages s"])
    show "same_ages s (s\<lparr>mvotes := x\<rparr>)" by (rule same_ages_refl) simp_all
  qed (rule same_ages_trans, assumption, rule apply_delta_ages)
qed

lemma freeze_ages: "freeze sc v q s = Inr (s', effs) \<Longrightarrow> same_ages s s'"
proof (cases "tbl_find (freezed s) v")
  case (Some f)
  assume run: "freeze sc v q s = Inr (s', effs)"
  obtain x where x: "s' = s\<lparr>freezed := x\<rparr> \<or> (\<exists>ps. update_votes sc v ps (s\<lparr>freezed := x\<rparr>) = Inr s')"
    using run Some by (auto simp: freeze_def Let_def res_simps integral_stake_Inr split: option.splits if_splits)
  have "same_ages s (s\<lparr>freezed := x\<rparr>)" by (rule same_ages_refl) auto
  then show ?thesis using x update_votes_ages same_ages_trans by blast
next
  case None
  assume "freeze sc v q s = Inr (s', effs)"
  then show ?thesis using None by (intro same_ages_refl) (auto simp: freeze_def Let_def res_simps integral_stake_Inr)
qed

lemma staking_ages: "staking_apply sc a s = Inr (s', effs) \<Longrightarrow> same_ages s s'"
proof (cases a)
  case (Vote_fee p n age)
  assume "staking_apply sc a s = Inr (s', effs)"
  then obtain bp x y where "tbl_find (bps s) n = Some bp"
      "s' = s\<lparr>votes := x, bps := tbl_put n (bp\<lparr>total_voteage := y, bp_voteage_update_height := block_num (sc_ctx sc)\<rparr>) (bps s)\<rparr>"
    using Vote_fee by (auto simp: vote_fee_def Let_def res_simps)
  then show ?thesis by (intro same_ages_put[of s' n "bp\<lparr>total_voteage := y, bp_voteage_update_height := block_num (sc_ctx sc)\<rparr>"]) (simp_all add: age_in_def)
next
  case (Unfreeze v)
  assume "staking_apply sc a s = Inr (s', effs)"
  then show ?thesis using Unfreeze by (intro same_ages_refl) (auto simp: unfreeze_def Let_def res_simps)
qed (auto simp: voteproducer_def res_simps dest: vote_ages vote4ram_ages freeze_ages update_votes_ages)

lemma bp_row_ages:
  assumes "tbl_find (bps s) n = Some b" "bps s' = tbl_put n b' (bps s)" "block_age b' = block_age b" "reward_tbl s' = reward_tbl s"
  shows "same_ages s s'"
  using assms(1,3) by (intro same_ages_put[OF assms(2) _ assms(4)]) (simp add: age_in_def)

lemma updatebp_ages: "updatebp sc n key rate url s = Inr (s', effs) \<Longrightarrow> same_ages s s'"
  by (rule same_ages_put[where n = n and b = "bp_update key rate url (case tbl_find (bps s) n of None \<Rightarrow> new_bp (block_num (sc_ctx sc)) | Some b \<Rightarrow> b)"])
    (auto simp: updatebp_def Let_def res_simps bp_update_def age_in_def new_bp_def split: option.splits)

lemma removebp_ages: "removebp sc n s = Inr (s', effs) \<Longrightarrow> same_ages s s'"
  by (auto simp: removebp_def deactivate_def res_simps intro: bp_row_ages)

lemma mortgage_ages:
  "addmortgage sc n p q s = Inr (s', effs) \<Longrightarrow> same_ages s s'"
  "claimmortgage sc n p q s = Inr (s', effs) \<Longrightarrow> same_ages s s'"
  by (auto simp: addmortgage_def claimmortgage_def res_simps intro: bp_row_ages)

lemma claimvote_ages:
  assumes "claimvote sc n r s = Inr (s', effs)" shows "same_ages s s'"
proof -
  obtain s1 b where s1: "settlevoter (block_num (sc_ctx sc)) r n s = Inr s1" "tbl_find (bps s1) n = Some b" "reward_tbl s' = reward_tbl s1"
    "bps s' = (if r = n then tbl_put n (b\<lparr>rewards_block := 0\<rparr>) (bps s1) else bps s1)"
    using assms by (auto simp: claimvote_def res_simps)
  have "same_ages s1 s'"
  proof (cases "r = n")
    case True
    then show ?thesis using s1 by (intro bp_row_ages[OF s1(2), where b' = "b\<lparr>rewards_block := 0\<rparr>"]) auto
  qed (use s1 in \<open>simp add: same_ages_refl\<close>)
  then show ?thesis using same_ages_frame stake_frames(3)[OF s1(1)] by blast
qed

lemma exec_punish_ages: "exec_punish_bp sc n s = Inr (s', effs) \<Longrightarrow> same_ages s s'"
proof (cases "s' = s")
  case False
  assume "exec_punish_bp sc n s = Inr (s', effs)"
  then obtain b x where "tbl_find (bps s) n = Some b" "reward_tbl s' = reward_tbl s"
    "bps s' = tbl_put n (b\<lparr>remain_punish := 0, bp_active_type := Punish, active_change_block_num := x\<rparr>) (bps s)"
    using False by (auto simp: exec_punish_bp_def res_simps split: if_splits option.splits)
  then show ?thesis by (auto intro: bp_row_ages)
qed (simp add: same_ages_refl)

lemma apppunish_ages:
  assumes "apppunish sc a n s = Inr (s', effs)" shows "same_ages s s'"
proof -
  obtain l where l: "exec_punish_bp sc n (s\<lparr>approve_punish := l\<rparr>) = Inr (s', effs) \<or> s' = s\<lparr>approve_punish := l\<rparr>"
    using assms by (auto simp: apppunish_def Let_def res_simps split: if_splits)
  have "same_ages s (s\<lparr>approve_punish := l\<rparr>)" by (rule same_ages_refl) simp_all
  then show ?thesis using l exec_punish_ages same_ages_trans by blast
qed

lemma punish_ages:
  "punishbp sc i n s = Inr (s', effs) \<Longrightarrow> same_ages s s'"
  "canclepunish sc i n s = Inr (s', effs) \<Longrightarrow> same_ages s s'"
  "unapppunish sc i n s = Inr (s', effs) \<Longrightarrow> same_ages s s'"
  "bailpunish sc n s = Inr (s', effs) \<Longrightarrow> same_ages s s'"
proof -
  show "punishbp sc i n s = Inr (s', effs) \<Longrightarrow> same_ages s s'"
    by (rule same_ages_refl) (auto simp: punishbp_def Let_def res_simps split: option.splits)
  show "canclepunish sc i n s = Inr (s', effs) \<Longrightarrow> same_ages s s'"
    by (rule same_ages_refl) (auto simp: canclepunish_def res_simps)
  show "unapppunish sc i n s = Inr (s', effs) \<Longrightarrow> same_ages s s'"
    by (rule same_ages_refl) (auto simp: unapppunish_def res_simps)
  show "bailpunish sc n s = Inr (s', effs) \<Longrightarrow> same_ages s s'"
    by (auto simp: bailpunish_def res_simps intro: bp_row_ages)
qed

lemma settlebpvote_ages: "same_ages s (settlebpvote now s)"
proof -
  have "tbl_ok (bps (fold (settle_bp now) rows u)) \<and> (\<forall>n. age_in (bps (fold (settle_bp now) rows u)) n = age_in (bps s) n)"
    if "set rows \<subseteq> set (bps s)" "tbl_ok (bps s)" "tbl_ok (bps u)" "\<forall>n. age_in (bps u) n = age_in (bps s) n" for rows u
    using that
  proof (induction rows arbitrary: u)
    case (Cons r rows)
    have "age_in (bps s) (fst r) = block_age (snd r)"
      using tbl_rows_find[OF Cons.prems(2), of "fst r" "snd r"] Cons.prems(1) by (auto simp: age_in_def)
    then show ?case
      using Cons.prems Cons.IH[of "settle_bp now r u"] by (simp add: settle_bp_def Let_def tbl_ok_put age_in_put)
  qed simp
  then show ?thesis using settlebpvote_row[of now s] by (simp add: same_ages_def settlebpvote_def total_age_def)
qed

lemma reset_ages: "reset_block_weight ps s = Inr s' \<Longrightarrow> same_ages s s'"
  unfolding reset_block_weight_def
proof (erule for_each_inv[where P = "same_ages s"])
  show "same_ages s s" by (simp add: same_ages_refl)
  fix p u u' assume "same_ages s u" "reset_bp_weight p u = Inr u'"
  moreover have "same_ages u u'" using \<open>reset_bp_weight p u = Inr u'\<close> by (auto simp: reset_bp_weight_def res_simps intro: bp_row_ages)
  ultimately show "same_ages s u'" by (blast intro: same_ages_trans)
qed

lemma elect_loop_age: "elect_loop now n bm s k i b v = Inr (b', v') \<Longrightarrow> block_age b' = block_age b"
proof (induction k arbitrary: i b)
  case 0
  then show ?case by (cases v) simp
next
  case (Suc k)
  obtain sched sorts where v: "v = (sched, sorts)" by fastforce
  obtain c m b1 where b1: "mark_lack now n (snd c) m s (reinstate now b) = Inr b1"
      "b' = b1 \<or> elect_loop now n bm s k (Suc i) b1 v = Inr (b', v')"
    using Suc.prems unfolding v elect_loop.simps bnd_Inr split_beta by (auto split: if_splits)
  have "block_age b1 = block_age b" using b1(1) by (auto simp: mark_lack_def reinstate_def res_simps split: if_splits)
  then show ?case using b1(2) Suc.IH by auto
qed

lemma init_reward_ages: "same_ages s (init_reward_info s)"
  by (auto simp: same_ages_def init_reward_info_def total_age_def split: option.splits)

lemma update_elected_ages:
  assumes "update_elected_bps sc s = Inr (s', effs)" shows "same_ages s s'"
proof -
  obtain s0 reward t sched sorts where s0: "(if tbl_find (creation_bps s) (fst (hd CREATION_BP)) = None then init_creation_bp s else Inr s) = Inr s0"
    and each: "for_each (elect_bp (block_num (sc_ctx sc)) (tdiv (cycle_reward reward) UPDATE_CYCLE * MORTGAGE) (init_reward_info s0))
        (bps s0) (bps s0, [], replicate NUM_OF_TOP_BPS 0) = Inr (t, sched, sorts)"
    and s': "s' = (init_reward_info s0)\<lparr>bps := t\<rparr>" and "reward_tbl (init_reward_info s0) = Some reward"
    using update_elected_unfold[OF assms] by blast
  let ?t = "bps s0"
  have "bps s0 = bps s" "reward_tbl s0 = reward_tbl s" using s0 by (auto simp: init_creation_bp_def res_simps split: if_splits)
  moreover have "same_ages (init_reward_info s0) s'"
  proof -
    have "tbl_ok (fst (t, sched, sorts)) \<and> (\<forall>n. age_in (fst (t, sched, sorts)) n = age_in ?t n)" if ok: "tbl_ok ?t"
    proof (rule same_ages_rows[OF ok _ each])
      fix n b t' t'' assume "elect_bp (block_num (sc_ctx sc)) (tdiv (cycle_reward reward) UPDATE_CYCLE * MORTGAGE) (init_reward_info s0) (n, b) t' = Inr t''"
      then obtain b' where "fst t'' = tbl_put n b' (fst t')" "block_age b' = block_age b"
        by (auto simp: elect_bp_def res_simps dest: elect_loop_age)
      then show "\<exists>b'. fst t'' = tbl_put n b' (fst t') \<and> block_age b' = block_age b \<or> fst t'' = fst t'" by blast
    qed (use ok in auto)
    then show ?thesis by (simp add: same_ages_def s' total_age_def init_reward_frame)
  qed
  ultimately show ?thesis using init_reward_ages[of s0] by (meson same_ages_frame same_ages_trans)
qed

lemma reward_bps_ages:
  assumes "reward_bps now amt s = Inr s'" shows "same_ages s s'"
proof -
  consider "s' = s" | all s1 bud reward x where "for_each (reward_bp now amt all) (bps s) (s, 0) = Inr (s1, bud)"
      "reward_tbl (init_reward_info s1) = Some reward" "s' = (init_reward_info s1)\<lparr>reward_tbl := Some (reward\<lparr>reward_budget := x\<rparr>)\<rparr>"
    using assms by (auto simp: reward_bps_def res_simps split: if_splits)
  then show ?thesis
  proof cases
    case 1
    then show ?thesis by (simp add: same_ages_refl)
  next
    case 2
    let ?P = "\<lambda>u. reward_tbl (fst u) = reward_tbl s \<and> (tbl_ok (bps s) \<longrightarrow> tbl_ok (bps (fst u)) \<and> (\<forall>n. age_in (bps (fst u)) n = age_in (bps s) n))"
    have "?P (s1, bud)"
    proof (rule for_each_inv[OF 2(1), where P = ?P])
      fix r u u' assume r: "r \<in> set (bps s)" "?P u" "reward_bp now amt all r u = Inr u'"
      have "age_in (bps s) (fst r) = block_age (snd r)" if "tbl_ok (bps s)"
        using tbl_rows_find[OF that, of "fst r" "snd r"] r(1) by (simp add: age_in_def)
      moreover have "reward_tbl (fst u') = reward_tbl (fst u)" and "bps (fst u') = bps (fst u) \<or> (\<exists>x. bps (fst u') = tbl_put (fst r) ((snd r)\<lparr>rewards_block := x\<rparr>) (bps (fst u)))"
        using r(3) by (auto simp: reward_bp_def Let_def res_simps split: if_splits)
      ultimately show "?P u'" using r(2) by (auto simp: tbl_ok_put age_in_put)
    qed simp
    then have "same_ages s s1" by (simp add: same_ages_def total_age_def)
    moreover have "same_ages s1 s'" using 2(2,3) by (auto simp: same_ages_def total_age_def init_reward_info_def split: option.splits)
    ultimately show ?thesis by (rule same_ages_trans)
  qed
qed

lemma rewardmine_ages: "rewardmine sc r s = Inr (s', effs) \<Longrightarrow> same_ages s s'"
  by (auto simp: rewardmine_def Let_def res_simps same_ages_refl intro: reward_bps_ages split: if_splits)

subsection \<open>Actions that change the ages\<close>

lemma s64_mod: "s64 x mod 18446744073709551616 = x mod 18446744073709551616"
  unfolding s64_def mod_diff_left_eq by simp

lemma s64_cong:
  assumes "x mod 18446744073709551616 = y mod 18446744073709551616" shows "s64 x = s64 y"
  unfolding s64_def mod_add_cong[OF assms refl] ..

text \<open>A step of \<open>reward_block\<close> adds the same to the age of a producer and to the sum.\<close>

lemma reward_block_bp_ages:
  assumes "reward_block_bp now pre fc p sa = Inr sa'" "tbl_ok (bps (fst sa))"
  shows "tbl_ok (bps (fst sa')) \<and> reward_tbl (fst sa') = reward_tbl (fst sa)
    \<and> (age_sum (bps (fst sa')) - snd sa') mod 18446744073709551616 = (age_sum (bps (fst sa)) - snd sa) mod 18446744073709551616"
proof -
  let ?s = "fst sa" and ?n = "fst p"
  have rd: "bps (record_drain now n d u) = bps u" "reward_tbl (record_drain now n d u) = reward_tbl u" for n d u
    by (simp_all add: record_drain_def)
  obtain b where b: "tbl_find (bps ?s) ?n = Some b" using assms(1) by (auto simp: reward_block_bp_def Let_def res_simps)
  consider "sa' = sa" | g d b' where "drained_bp pre d (b\<lparr>block_age := s64 (block_age b + g)\<rparr>) = Inr b'"
      "bps (fst sa') = tbl_put ?n (b'\<lparr>last_block_amount := snd p\<rparr>) (bps ?s)" "reward_tbl (fst sa') = reward_tbl ?s" "snd sa' = s64 (snd sa + g)"
    using assms(1) b by (auto simp: reward_block_bp_def Let_def res_simps rd split: if_splits)
  then show ?thesis
  proof cases
    case 1
    then show ?thesis using assms(2) by simp
  next
    case 2
    have "block_age b' = s64 (block_age b + g)" using 2(1) by (auto simp: drained_bp_def res_simps split: if_splits)
    then have "age_sum (bps (fst sa')) - snd sa' = age_sum (bps ?s) - block_age b + s64 (block_age b + g) - s64 (snd sa + g)"
      using 2(2,4) assms(2) b by (simp add: age_sum_put age_in_def)
    moreover have "(age_sum (bps ?s) - block_age b + s64 (block_age b + g) - s64 (snd sa + g)) mod 18446744073709551616
        = (age_sum (bps ?s) - block_age b + (block_age b + g) - (snd sa + g)) mod 18446744073709551616"
      by (rule mod_diff_cong[OF mod_add_cong[OF refl s64_mod] s64_mod])
    ultimately show ?thesis using 2(2,3) assms(2) by (simp add: tbl_ok_put)
  qed
qed

lemma reward_block_ages:
  assumes "reward_block now v amt fc s = Inr s'" "ages_ok s" shows "ages_ok s'"
proof -
  obtain sch :: schedule_info and reward s1 age where reward: "reward_tbl (init_reward_info s) = Some reward"
    and each: "for_each (reward_block_bp now (tdiv (cycle_reward reward) UPDATE_CYCLE) fc) (sch_producers sch) (init_reward_info s, 0) = Inr (s1, age)"
    and s': "bps s' = bps s1" "total_age s' = s64 (total_block_out_age reward + age)"
    using assms(1) by (auto simp: reward_block_def Let_def res_simps total_age_def)
  have ok: "tbl_ok (bps s)" and tot: "total_block_out_age reward = s64 (age_sum (bps s))"
    using assms(2) reward same_ages_ok[OF init_reward_ages assms(2)] by (auto simp: ages_ok_def total_age_def init_reward_frame)
  let ?P = "\<lambda>u. tbl_ok (bps (fst u)) \<and> (age_sum (bps (fst u)) - snd u) mod 18446744073709551616 = age_sum (bps s) mod 18446744073709551616"
  have "?P (s1, age)"
    by (rule for_each_inv[OF each, where P = ?P]) (use reward_block_bp_ages ok in \<open>auto simp: init_reward_frame\<close>)
  then have p: "tbl_ok (bps s1)" "(age_sum (bps s1) - age) mod 18446744073709551616 = age_sum (bps s) mod 18446744073709551616" by auto
  have "(s64 (age_sum (bps s)) + age) mod 18446744073709551616 = (age_sum (bps s1) - age + age) mod 18446744073709551616"
    by (rule mod_add_cong) (simp_all add: s64_mod p(2))
  then have "s64 (s64 (age_sum (bps s)) + age) = s64 (age_sum (bps s1))" by (intro s64_cong) simp
  then show ?thesis using p(1) tot s' by (simp add: ages_ok_def)
qed

lemma claimbp_ages:
  assumes "claimbp sc n r s = Inr (s', effs)" "ages_ok s" shows "ages_ok s'"
proof -
  obtain b reward where b: "tbl_find (bps s) n = Some b" "reward_tbl s = Some reward"
    "bps s' = tbl_put n (b\<lparr>block_age := 0\<rparr>) (bps s)" "total_age s' = s64 (total_block_out_age reward - block_age b)"
    using assms(1) by (auto simp: claimbp_def Let_def res_simps total_age_def split: if_splits)
  have "(s64 (age_sum (bps s)) - block_age b) mod 18446744073709551616 = (age_sum (bps s) - block_age b) mod 18446744073709551616"
    by (rule mod_diff_cong) (simp_all add: s64_mod)
  then have "s64 (s64 (age_sum (bps s)) - block_age b) = s64 (age_sum (bps s) - block_age b)" by (rule s64_cong)
  then show ?thesis using assms(2) b by (simp add: ages_ok_def total_age_def tbl_ok_put age_sum_put age_in_def)
qed

lemma end_of_cycle_ages:
  assumes "end_of_cycle sc n v fc s = Inr (s', effs)" "ages_ok s" shows "ages_ok s'"
proof -
  obtain r s1 x2 x3 where r: "reward_tbl (init_reward_info s) = Some r"
    and s1: "reward_block (block_num (sc_ctx sc)) v (bp_part (block_num (sc_ctx sc)) r) fc ((init_reward_info s)\<lparr>reward_tbl := Some (cycle_row (block_num (sc_ctx sc)) n r)\<rparr>) = Inr s1"
    and x2: "(if is_stable r \<or> is_daily r then end_of_day (block_num (sc_ctx sc)) (held_row r) s1 else Inr (s1, [])) = Inr x2"
    and x3: "(if fc then Inr (fst x2, []) else update_elected_bps sc (fst x2)) = Inr x3" and s': "s' = fst x3"
    using end_of_cycle_unfold[OF assms(1) refl] by blast
  have "total_block_out_age (cycle_row (block_num (sc_ctx sc)) n r) = total_block_out_age r"
    by (simp add: cycle_row_def record_reward_def update_reward_stable_def held_row_def Let_def)
  then have "ages_ok ((init_reward_info s)\<lparr>reward_tbl := Some (cycle_row (block_num (sc_ctx sc)) n r)\<rparr>)"
    using same_ages_ok[OF init_reward_ages assms(2)] r by (simp add: ages_ok_def total_age_def)
  then have "ages_ok s1" by (rule reward_block_ages[OF s1])
  moreover have "same_ages s1 (fst x2)" using x2 settlebpvote_ages[of s1] by (auto simp: end_of_day_def res_simps same_ages_refl split: if_splits)
  moreover have "same_ages (fst x2) s'"
    using x3 update_elected_ages[of sc "fst x2" "fst x3" "snd x3"] s' by (auto simp: same_ages_refl split: if_splits)
  ultimately show ?thesis by (blast intro: same_ages_ok)
qed

lemma onblock_ages:
  assumes "onblock sc n v s = Inr (s', effs)" "ages_ok s" shows "ages_ok s'"
proof (cases "tbl_find (schedules s) v")
  case None
  obtain s1 e1 where s1: "end_of_cycle sc n (u32 (v - 1)) True s = Inr (s1, e1) \<or> s1 = s" "open_schedule sc n v s1 = Inr s'"
    using assms(1) None by (auto simp: onblock_def res_simps split: if_splits)
  have "ages_ok s1" using s1(1) assms(2) end_of_cycle_ages by blast
  obtain ps x where o: "reset_block_weight ps (s1\<lparr>schedules := x\<rparr>) = Inr s'" using s1(2) by (auto simp: open_schedule_def Let_def)
  have "same_ages s1 s'" by (rule same_ages_frame[OF _ _ reset_ages[OF o]]) simp_all
  then show ?thesis using \<open>ages_ok s1\<close> by (rule same_ages_ok)
next
  case (Some sch)
  obtain s1 e1 x where s1: "end_of_cycle sc n v False s = Inr (s1, e1) \<or> s1 = s" "s' = s1\<lparr>schedules := x\<rparr>"
    using assms(1) Some by (auto simp: onblock_def res_simps split: if_splits)
  have "ages_ok s1" using s1(1) assms(2) end_of_cycle_ages by blast
  then show ?thesis using s1(2) by (simp add: ages_ok_def total_age_def)
qed

lemma sys_step_ages: "ages_ok s \<Longrightarrow> sys_step a s = Inr s' \<Longrightarrow> ages_ok s'"
proof -
  assume ok: "ages_ok s" and "sys_step a s = Inr s'"
  then obtain effs where run: "sys_apply (fst a) (snd a) s = Inr (s', effs)" by (auto simp: sys_step_def res_simps)
  show ?thesis
  proof (cases "snd a")
    case (Claimbp n r)
    then show ?thesis using run ok claimbp_ages by simp
  next
    case (Onblock n v)
    then show ?thesis using run ok onblock_ages by simp
  qed (use run in \<open>auto intro!: same_ages_ok[OF _ ok] intro: staking_ages updatebp_ages removebp_ages rewardmine_ages mortgage_ages claimvote_ages
        punish_ages apppunish_ages\<close>)
qed

interpretation sys_run: action_system sys_step ages_ok "\<lambda>_. True"
  by unfold_locales (rule sys_step_ages)

lemma empty_sys_ages: "ages_ok empty_sys"
  by (simp add: ages_ok_def empty_sys_def total_age_def age_sum_def s64_def tbl_total_Nil)

subsection \<open>Claims of producers\<close>

lemma core_mult_exact:
  assumes "core_mult x a = Inr y" "0 \<le> x" "x \<le> max_amount" "0 \<le> a" "a \<le> INT64_MAX"
  shows "y = x * a"
proof -
  have "x * a \<le> max_amount * INT64_MAX" using assms by (intro mult_mono) auto
  then have "s128 (x * a) = x * a" using assms by (intro s128_small) (auto simp: max_amount_def INT64_MAX_def)
  then have "x * a \<le> max_amount" "y = s64 (x * a)" using assms(1) by (auto simp: core_mult_def Let_def res_simps)
  moreover have "0 \<le> x * a" using assms by simp
  ultimately show ?thesis using s64_id[of "x * a"] by (simp add: max_amount_def INT64_MIN_def INT64_MAX_def)
qed

lemma claimbp_unfold:
  assumes "claimbp sc n r s = Inr (s', effs)" "tbl_find (bps s) n = Some b" "reward_tbl s = Some reward"
  shows "\<exists>y q x. core_mult (reward_block_out reward) (block_age b) = Inr y \<and> core_div y (total_block_out_age reward) = Inr q
    \<and> core_sub (reward_block_out reward) q = Inr x \<and> q > CLAIM_MINIMUM \<and> bps s' = tbl_put n (b\<lparr>block_age := 0\<rparr>) (bps s)
    \<and> map_option reward_block_out (reward_tbl s') = Some x
    \<and> (if mortgage b = 0 then effs = [] \<and> core_add (reward_budget reward) q = Inr (budget_of s')
       else effs = [Inline token_account_name castcoin_name [(reward_account_name, active_name)] (Castcoin_data reward_account_name r (core q))]
         \<and> budget_of s' = budget_of s)"
  using assms by (cases "mortgage b = 0") (auto simp: claimbp_def Let_def res_simps budget_of_def)

lemma claimbp_result:
  assumes run: "claimbp sc n r s = Inr (s', effs)" and ok: "ages_ok s" and b: "tbl_find (bps s) n = Some b" and reward: "reward_tbl s = Some reward"
    and ages: "\<forall>m. 0 \<le> age_in (bps s) m" "age_sum (bps s) \<le> INT64_MAX"
    and rng: "0 \<le> reward_block_out reward" "in_range (reward_block_out reward)" "in_range (reward_budget reward)"
    and claim: "claim = reward_block_out reward * block_age b div age_sum (bps s)"
  shows "0 < claim \<and> claim \<le> reward_block_out reward \<and> map_option reward_block_out (reward_tbl s') = Some (reward_block_out reward - claim)
    \<and> age_in (bps s') n = 0 \<and> total_age s' = age_sum (bps s')
    \<and> (if mortgage b = 0 then effs = [] \<and> budget_of s' = budget_of s + claim
       else effs = [Inline token_account_name castcoin_name [(reward_account_name, active_name)] (Castcoin_data reward_account_name r (core claim))]
         \<and> budget_of s' = budget_of s)"
proof -
  have tb: "tbl_ok (bps s)" using ok by (simp add: ages_ok_def)
  have nn: "0 \<le> block_age c" if "tbl_find (bps s) m = Some c" for m c using ages(1)[rule_format, of m] that by (simp add: age_in_def)
  have le: "block_age b \<le> age_sum (bps s)" "0 \<le> age_sum (bps s)"
    using tbl.part_le_total[OF tb, of "\<lambda>_. block_age" n] tbl.total_nonneg[OF tb, of "\<lambda>_. block_age"] nn b by (auto simp: age_sum_def tbl.part_def)
  have tot: "total_block_out_age reward = age_sum (bps s)"
    using ok reward le(2) ages(2) s64_id[of "age_sum (bps s)"] by (simp add: ages_ok_def total_age_def INT64_MIN_def)
  obtain y q x where y: "core_mult (reward_block_out reward) (block_age b) = Inr y" "core_div y (total_block_out_age reward) = Inr q"
      "core_sub (reward_block_out reward) q = Inr x" "q > CLAIM_MINIMUM"
    and rest: "if mortgage b = 0 then effs = [] \<and> core_add (reward_budget reward) q = Inr (budget_of s')
        else effs = [Inline token_account_name castcoin_name [(reward_account_name, active_name)] (Castcoin_data reward_account_name r (core q))]
          \<and> budget_of s' = budget_of s"
      "bps s' = tbl_put n (b\<lparr>block_age := 0\<rparr>) (bps s)" "map_option reward_block_out (reward_tbl s') = Some x"
    using claimbp_unfold[OF run b reward] by blast
  have "y = reward_block_out reward * block_age b"
    using core_mult_exact[OF y(1) rng(1)] rng(2) nn[OF b] le(1) ages(2) by (simp add: in_range_def)
  moreover have pos: "0 < age_sum (bps s)" using y(2) tot le(2) by (auto simp: core_div_def res_simps)
  ultimately have q: "q = claim" using y(2) tot claim rng(1) nn[OF b] by (auto simp: core_div_def res_simps)
  have "reward_block_out reward * block_age b \<le> reward_block_out reward * age_sum (bps s)" using rng(1) le(1) by (intro mult_left_mono)
  then have "claim \<le> reward_block_out reward" unfolding claim using pos zdiv_mono1 by fastforce
  moreover have "0 < claim" using y(4) q by (simp add: CLAIM_MINIMUM_def)
  ultimately have "x = reward_block_out reward - claim" using y(3) q rng(2) by (auto simp: core_simps in_range_def)
  moreover have "age_in (bps s') n = 0" "total_age s' = age_sum (bps s')"
  proof -
    show "age_in (bps s') n = 0" using rest(2) tb by (simp add: age_in_put)
    have "0 \<le> age_sum (bps s')" "age_sum (bps s') \<le> INT64_MAX"
      using rest(2) tb b le ages(2) nn[OF b] by (auto simp: age_sum_put age_in_def)
    then show "total_age s' = age_sum (bps s')"
      using claimbp_ages[OF run ok] s64_id[of "age_sum (bps s')"] by (simp add: ages_ok_def INT64_MIN_def)
  qed
  moreover have "core_add (reward_budget reward) q = Inr z \<Longrightarrow> z = budget_of s + claim" for z
    using q \<open>0 < claim\<close> \<open>claim \<le> reward_block_out reward\<close> rng(2,3) reward by (auto simp: core_simps in_range_def budget_of_def)
  ultimately show ?thesis using rest(1,3) q \<open>0 < claim\<close> \<open>claim \<le> reward_block_out reward\<close> by auto
qed

definition demo_claim_acts :: "(sys_context \<times> sys_action) list" where
  "demo_claim_acts =
     [(demo_sc 1 10, Updatebp 1 77 500 []), (demo_sc 0 10, Updatebp 0 78 500 []),
      (demo_sc 5 11, Addmortgage 1 5 (core 100000000)), (demo_sc 5 11, Addmortgage 0 5 (core 100000000)),
      ((demo_sc 1 12)\<lparr>active_producers := [1]\<rparr>, Onblock 1 0), ((demo_sc 1 1000)\<lparr>active_producers := [1]\<rparr>, Onblock 1 1)]"
definition demo_claim_state :: sys_state where
  "demo_claim_state = run_actions sys_step demo_claim_acts empty_sys"

lemma demo_claim_eval:
  "map (\<lambda>r. (fst r, block_age (snd r), mortgage (snd r))) (bps demo_claim_state) = [(0, 0, 100000000), (1, 1000, 100000000)]
  \<and> map_option (\<lambda>r. (reward_block_out r, reward_budget r)) (reward_tbl demo_claim_state) = Some (254782, 0)
  \<and> \<not> isl (claimbp (demo_sc 1 1001) 1 9 demo_claim_state)"
  by code_simp

text \<open>C14. Producers share the reward of the blocks by their block ages. After every sequence of actions of the contract, if no
  age is negative and their sum is a 64-bit number, a successful \<open>claimbp\<close> takes exactly the part of the pool that the age
  of the producer has in the sum of all ages, rounded down: it never takes more than the pool, its age is cleared, and
  the recorded total remains the sum of the ages. A producer without a mortgage gets nothing; its part goes to the
  budget.\<close>

theorem block_out_shares:
  assumes "s = run_actions sys_step acts empty_sys" and "claimbp sc n r s = Inr (s', effs)"
    and "tbl_find (bps s) n = Some b" and "reward_tbl s = Some reward"
    and "\<forall>m. 0 \<le> age_in (bps s) m" and "age_sum (bps s) \<le> INT64_MAX"
    and "0 \<le> reward_block_out reward" and "in_range (reward_block_out reward)" and "in_range (reward_budget reward)"
    and "claim = reward_block_out reward * block_age b div age_sum (bps s)"
  shows "0 < claim \<and> claim \<le> reward_block_out reward \<and> map_option reward_block_out (reward_tbl s') = Some (reward_block_out reward - claim)
    \<and> age_in (bps s') n = 0 \<and> total_age s' = age_sum (bps s')
    \<and> (if mortgage b = 0 then effs = [] \<and> budget_of s' = budget_of s + claim
       else effs = [Inline token_account_name castcoin_name [(reward_account_name, active_name)] (Castcoin_data reward_account_name r (core claim))]
         \<and> budget_of s' = budget_of s)"
proof -
  have "ages_ok s" unfolding assms(1) by (rule sys_run.run_inv[OF empty_sys_ages]) (simp add: list_all_iff)
  then show ?thesis by (rule claimbp_result[OF assms(2) _ assms(3-)])
qed

theorem block_out_shares_witness:
  "\<exists>s'. claimbp (demo_sc 1 1001) 1 9 demo_claim_state = Inr (s',
     [Inline token_account_name castcoin_name [(reward_account_name, active_name)] (Castcoin_data reward_account_name 9 (core 254782))])"
proof -
  obtain b0 b1 where b: "bps demo_claim_state = [(0, b0), (1, b1)]" "block_age b0 = 0" "block_age b1 = 1000" "mortgage b1 = 100000000"
    using demo_claim_eval by auto
  obtain r where r: "reward_tbl demo_claim_state = Some r" "reward_block_out r = 254782" "reward_budget r = 0" using demo_claim_eval by auto
  obtain s' effs where run: "claimbp (demo_sc 1 1001) 1 9 demo_claim_state = Inr (s', effs)"
    using demo_claim_eval by (cases "claimbp (demo_sc 1 1001) 1 9 demo_claim_state") auto
  have f: "tbl_find (bps demo_claim_state) 1 = Some b1" and a: "age_sum (bps demo_claim_state) = 1000" and nn: "\<forall>m. 0 \<le> age_in (bps demo_claim_state) m"
    using b(1-3) by (simp_all add: tbl_find_def age_sum_def tbl.total_def age_in_def)
  have rng: "age_sum (bps demo_claim_state) \<le> INT64_MAX" "0 \<le> reward_block_out r" "in_range (reward_block_out r)" "in_range (reward_budget r)"
    by (simp_all add: a r(2,3) INT64_MAX_def in_range_def max_amount_def)
  have c: "254782 = reward_block_out r * block_age b1 div age_sum (bps demo_claim_state)" by (simp add: a r(2) b(3))
  have "effs = [Inline token_account_name castcoin_name [(reward_account_name, active_name)] (Castcoin_data reward_account_name 9 (core 254782))]"
    using block_out_shares[OF demo_claim_state_def run f r(1) nn rng c] unfolding b(4) by simp
  then show ?thesis using run by blast
qed

subsection \<open>Who pays for a punishment\<close>

text \<open>Payments of the system account, one after the other.\<close>

lemma system_payments:
  assumes "for_each (run_effect ctx) (map (\<lambda>(to, a). system_pays to a memo) ps) t = Inr t'" "token_inv t"
  shows "token_inv t' \<and> bal_of t' system_account_name core_code = bal_of t system_account_name core_code - (\<Sum>p\<leftarrow>ps. snd p) \<and> (\<forall>p \<in> set ps. 0 < snd p)"
  using assms
proof (induction ps arbitrary: t)
  case (Cons p ps)
  obtain to a where p: "p = (to, a)" by fastforce
  obtain t1 where t1: "run_effect ctx (system_pays to a memo) t = Inr t1" "for_each (run_effect ctx) (map (\<lambda>(to, a). system_pays to a memo) ps) t1 = Inr t'"
    using Cons.prems(1) p by (auto simp: res_simps)
  have "token_inv t1 \<and> 0 < a \<and> bal_of t1 system_account_name core_code = bal_of t system_account_name core_code - a"
    using inline_transfer[OF Cons.prems(2) t1(1)[unfolded system_pays_def]] by auto
  then show ?case using Cons.IH[OF t1(2)] p by auto
qed simp

lemma exec_punish_unfold:
  assumes "exec_punish_bp sc p s = Inr (s', effs)" "effs \<noteq> []" "tbl_find (bps s) p = Some b" "in_range (remain_punish b)" "0 \<le> remain_punish b"
  shows "\<exists>initiator approvers. 15 \<le> length approvers
    \<and> effs = map (\<lambda>(to, a). system_pays to a ''cancle punishbp deposit'')
        ((initiator, remain_punish b div 2 + PUNISH_BP_FEE) # map (\<lambda>a. (a, remain_punish b div 2 div int (length approvers))) approvers)
    \<and> freezed s' = freezed s \<and> votes s' = votes s \<and> votes4ram s' = votes4ram s"
proof -
  obtain bp_punish approvers sch half fee each where a: "tbl_find (approve_punish s) p = Some approvers" "last_schedule s = Some sch"
    "\<not> length (filter (\<lambda>a. in_schedule a sch) approvers) < NUM_OF_TOP_BPS * 2 div 3"
    "core_div (remain_punish b) 2 = Inr half" "core_add half PUNISH_BP_FEE = Inr fee"
    "core_div half (int (length (filter (\<lambda>a. in_schedule a sch) approvers))) = Inr each"
    "effs = system_pays (pb_initiator (bp_punish :: punish_bp_info)) fee ''cancle punishbp deposit''
                # map (\<lambda>a. system_pays a each ''cancle punishbp deposit'') (filter (\<lambda>a. in_schedule a sch) approvers)"
    "freezed s' = freezed s" "votes s' = votes s" "votes4ram s' = votes4ram s"
    using assms(1-3) by (auto simp: exec_punish_bp_def effective_approve_num_def res_simps split: if_splits)
  let ?l = "filter (\<lambda>a. in_schedule a sch) approvers"
  have len: "15 \<le> length ?l" using a(3) by (simp add: NUM_OF_TOP_BPS_def)
  have half: "half = remain_punish b div 2" using a(4) assms(5) by (auto simp: core_div_def res_simps)
  have "each = half div int (length ?l)" using a(6) half assms(5) len by (auto simp: core_div_def res_simps pos_imp_zdiv_nonneg_iff)
  moreover have "fee = half + PUNISH_BP_FEE"
  proof -
    have "in_range half" "in_range PUNISH_BP_FEE"
      using half assms(4,5) by (auto simp: in_range_def PUNISH_BP_FEE_def CORE_SYMBOL_PRECISION_def max_amount_def)
    then show ?thesis using a(5) by (simp add: core_simps)
  qed
  ultimately show ?thesis using a(7-) half len
    by (intro exI[of _ "pb_initiator bp_punish"] exI[of _ ?l]) (simp add: comp_def)
qed

definition demo_punish :: sys_state where
  "demo_punish = empty_sys\<lparr>bps := [(50, (new_bp 1)\<lparr>remain_punish := 600\<rparr>)], punish_bps := [(50, \<lparr>pb_initiator = 60, pb_drain_num = 3, pb_update_block_num = 10\<rparr>)],
     approve_punish := [(50, [1, 2, 3, 4, 5, 6, 7, 8, 9, 10, 11, 12, 13, 14, 15])],
     schedules := [(1, \<lparr>sch_block_height = 1, sch_producers = map (\<lambda>a. (a, 3)) [1, 2, 3, 4, 5, 6, 7, 8, 9, 10, 11, 12, 13, 14, 15, 16, 17, 18, 19, 20, 21, 22, 23]\<rparr>)]\<rparr>"

definition demo_vault :: token_state where
  "demo_vault = \<lparr>accounts = [((system_account_name, symbol_code CORE_SYMBOL), core 9000000)],
     stat = [(symbol_code CORE_SYMBOL, \<lparr>stat_supply = core 9000000, stat_max_supply = core 10000000, stat_issuer = system_account_name\<rparr>)],
     coincast = []\<rparr>"

lemma demo_vault_inv: "token_inv demo_vault"
  using CORE_SYMBOL_valid
  by (auto simp: demo_vault_def token_inv_def token_wf_def conserved_def accounts_ok_def stats_ok_def stat_ok_def casts_ok_def rows_typed_def
      has_symbol_def supply_of_def circ_of_def cast_total_def tbl_find_def tbl_ok_def tbl.total_def max_amount_def core_def
      asset_is_valid_def is_amount_within_range_def split: if_splits)

lemma demo_punish_eval:
  "\<not> isl (bnd (exec_punish_bp (demo_sc 1 20) 50 demo_punish) (\<lambda>(s', effs). chk (effs \<noteq> []) Trap (for_each (run_effect (sc_ctx (demo_sc 1 20))) effs demo_vault)))"
  by code_simp



end
