(* ===== verification/Action_Exec.thy ===== *)
theory Action_Exec
  imports Db_Invariant Authorization
begin

text \<open>
  The execution of actions: \<open>apply_context::exec\<close> (\<open>apply_context.cpp\<close>) with what it uses of the transaction context
  (\<open>transaction_context.cpp\<close>), of the controller (\<open>controller.cpp\<close>) and of the fee manager (\<open>txfee_manager.cpp\<close>).

  A contract is a tree of calls of the host functions of \<open>wasm_interface.cpp\<close>: after a call it continues depending on
  what the call has left, or it returns or fails. The tree of a code, a receiver and an action is a parameter of the node;
  every statement holds for all contracts. The tree has no infinite branch, as the deadline ends every execution.

  \<^item> \<open>controller\<close>: the configuration of the chain and of the node, the pending block, and the parameters for code that is not part of
    the sources (hashing, packing, the clock).
  \<^item> \<open>chain_state\<close>: the tables of the chain database. \<open>cs_auth\<close> are those of the authorization manager, \<open>cs_rl\<close> those of the
    resource limits, \<open>cs_cdb\<close> those of the contracts.
  \<^item> \<open>transaction_context\<close> and \<open>exec_context\<close>: the classes \<open>transaction_context\<close> and \<open>apply_context\<close>. While an action runs, its
    \<open>ax\<close> holds the tables of the contracts, the resource limits and the accounts whose RAM is verified in the end.
\<close>

subsection \<open>State\<close>

datatype exec_error =
    Db_error db_error
  | Auth_error auth_error
  | Rl_error chain_error
  | Wasm_error
  | Inline_action_too_big
  | Unaccessible_api
  | Action_not_found
  | Action_validate
  | Transaction_error
  | Subjective_production
  | Asset_type_error
  | Invalid_action_args
  | Actor_whitelist | Actor_blacklist | Contract_whitelist | Contract_blacklist | Action_blacklist
  | Block_net_usage_exceeded | Greylist_net_usage_exceeded | Trx_net_usage_exceeded
  | Block_cpu_usage_exceeded | Greylist_cpu_usage_exceeded | Trx_cpu_usage_exceeded
  | Leeway_deadline_error | Deadline_error
  | Cfa_inside_generated_tx | Deferred_tx_duplicate | Trx_duplicate | Trx_no_auths | Trx_too_big
  | Expired_tx | Tx_exp_too_far | Invalid_ref_block | Unknown_transaction
  | Out_of_fuel

record action_fee =
  af_fee :: asset
  af_cpu_limit :: int
  af_net_limit :: int
  af_ram_limit :: int

record name_lists =
  actor_blacklist :: "account_name list"
  contract_blacklist :: "account_name list"
  resource_greylist :: "account_name list"

record chain_state =
  cs_auth :: auth_db
  cs_cdb :: contract_db
  cs_rl :: resource_db
  global_action_sequence :: int
  account_sequences :: "(account_name, int \<times> int) tbl"
  known_transactions :: "(digest \<times> int) list"
  action_fees :: "(account_name \<times> action_name, action_fee) tbl"
  config_data :: "(name, account_name \<times> asset) tbl"
  conf_lists :: name_lists
  force_lists :: name_lists
  force_gmr :: gmr_parameters

record action_receipt =
  r_receiver :: account_name
  r_act_digest :: digest
  r_global_sequence :: int
  r_recv_sequence :: int
  r_auth_sequence :: "(account_name, int) tbl"
  r_code_sequence :: int
  r_abi_sequence :: int

datatype action_trace = Action_trace action_receipt chain_action bool "action_trace list"

datatype exception_code = Block_cpu_code | Tx_cpu_code | Leeway_code | Deadline_code

record transaction_context =
  tx_trx :: transaction
  tx_id :: digest
  tx_start :: int
  tx_published :: int
  tx_executed :: "action_receipt list"
  tx_bill_to_accounts :: "account_name list"
  tx_validate_ram_usage :: "account_name list"
  tx_delay :: int
  tx_is_input :: bool
  tx_apply_context_free :: bool
  tx_enforce_whiteblacklist :: bool
  tx_deadline :: int
  tx_leeway :: int
  tx_billed_cpu_time_us :: int
  tx_explicit_billed_cpu_time :: bool
  tx_fee_payer :: account_name
  tx_fee_costed :: asset
  tx_is_initialized :: bool
  tx_net_limit :: int
  tx_net_limit_due_to_block :: bool
  tx_net_limit_due_to_greylist :: bool
  tx_eager_net_limit :: int
  tx_net_usage :: int
  tx_cpu_limit_due_to_greylist :: bool
  tx_initial_objective_duration_limit :: int
  tx_objective_duration_limit :: int
  tx_exec_deadline :: int
  tx_deadline_exception_code :: exception_code
  tx_billing_timer_exception_code :: exception_code
  tx_pseudo_start :: int
  tx_billed_time :: int
  tx_billing_timer_duration_limit :: int
  tx_cpu_limit_by_contract :: int
  tx_net_limit_by_contract :: int
  tx_use_limit_by_contract :: bool
  tx_ticks :: nat
  tx_chain :: chain_state

record exec_context =
  ax :: apply_context
  ex_act :: chain_action
  ex_context_free :: bool
  ex_notified :: "account_name list"
  ex_inline_actions :: "chain_action list"
  ex_cfa_inline_actions :: "chain_action list"
  ex_trx :: transaction_context

subsection \<open>Contracts and the node\<close>

datatype host_call =
    Db_call db_call
  | Require_auth account_name
  | Require_auth2 permission_level
  | Require_recipient account_name
  | Send_inline chain_action
  | Send_context_free_inline chain_action
  | Send_deferred int account_name transaction bool
  | Cancel_deferred int
  | Set_limits account_name int int int
  | Set_need_check_ram_limit account_name
  | Set_privileged account_name bool
  | Check_time

datatype program =
    Finish
  | Fail
  | Call host_call "exec_context \<Rightarrow> program"

record controller =
  c_auth :: auth_config
  max_inline_action_size :: int
  max_inline_action_depth :: nat
  base_per_transaction_net_usage :: int
  max_transaction_net_usage :: int
  net_usage_leeway :: int
  context_free_discount_net_usage_num :: int
  context_free_discount_net_usage_den :: int
  max_transaction_cpu_usage :: int
  min_transaction_cpu_usage :: int
  max_transaction_lifetime :: int
  deferred_trx_expiration_window :: int
  pending_block_time :: int
  pending_slot :: int
  head_block_num :: int
  head_reference :: "int \<times> int"
  block_summary :: "int \<Rightarrow> int \<times> int"
  is_producing_block :: bool
  skip_auth_check :: bool
  skip_trx_checks :: bool
  allow_ram_billing_in_notify :: bool
  actor_whitelist :: "account_name list"
  contract_whitelist :: "account_name list"
  action_blacklist :: "(account_name \<times> action_name) list"
  key_blacklist :: "public_key list"
  sender_bypass_whiteblacklist :: "account_name list"
  speculative_reads :: bool
  subjective_cpu_leeway :: "int option"
  fee_model :: bool
  clock :: "nat \<Rightarrow> bool \<times> int"
  contract :: "digest \<Rightarrow> account_name \<Rightarrow> chain_action \<Rightarrow> bool \<Rightarrow> program"
  trx_digest :: "transaction \<Rightarrow> digest"
  trx_pack :: "transaction \<Rightarrow> nat list"
  action_digest :: "chain_action \<Rightarrow> digest"
  action_pack_size :: "chain_action \<Rightarrow> int"
  key_pack_size :: "public_key \<Rightarrow> int"
  code_hash :: "nat list \<Rightarrow> digest"
  wasm_validate :: "nat list \<Rightarrow> bool"

definition transaction_id_net_usage :: int where "transaction_id_net_usage = 32"

subsection \<open>What the transaction context provides\<close>

definition check_net_usage :: "controller \<Rightarrow> transaction_context \<Rightarrow> exec_error + unit" where
  "check_net_usage n t =
     (if \<not> skip_trx_checks n \<and> tx_net_usage t > tx_eager_net_limit t
      then Inl (if tx_net_limit_due_to_block t then Block_net_usage_exceeded
                else if tx_net_limit_due_to_greylist t then Greylist_net_usage_exceeded
                else Trx_net_usage_exceeded)
      else Inr ())"

definition add_net_usage :: "controller \<Rightarrow> int \<Rightarrow> transaction_context \<Rightarrow> exec_error + transaction_context" where
  "add_net_usage n u t =
     (let t = t\<lparr>tx_net_usage := u64 (tx_net_usage t + u)\<rparr> in bnd (check_net_usage n t) (\<lambda>_. Inr t))"

text \<open>A reading of the clock: whether the timer has expired, and the time.\<close>

definition read_clock :: "controller \<Rightarrow> transaction_context \<Rightarrow> (bool \<times> int) \<times> transaction_context" where
  "read_clock n t = (clock n (tx_ticks t), t\<lparr>tx_ticks := Suc (tx_ticks t)\<rparr>)"

definition checktime :: "controller \<Rightarrow> transaction_context \<Rightarrow> exec_error + transaction_context" where
  "checktime n t =
     (let ((expired, now), t) = read_clock n t in
      if \<not> expired \<or> now \<le> tx_exec_deadline t then Inr t
      else Inl (if tx_explicit_billed_cpu_time t \<or> tx_deadline_exception_code t = Deadline_code then Deadline_error
        else if tx_deadline_exception_code t = Block_cpu_code then Block_cpu_usage_exceeded
        else if tx_deadline_exception_code t = Tx_cpu_code
          then if tx_cpu_limit_due_to_greylist t then Greylist_cpu_usage_exceeded else Trx_cpu_usage_exceeded
        else Leeway_deadline_error))"

text \<open>The lists of \<open>controller.cpp\<close>: sets of names in increasing order, walked with \<open>std::lower_bound\<close>.\<close>

fun subset_loop :: "account_name list \<Rightarrow> account_name list \<Rightarrow> bool" where
  "subset_loop [] ws = True"
| "subset_loop (a # as) ws =
     (case dropWhile (\<lambda>w. w < a) ws of [] \<Rightarrow> False | w # ws' \<Rightarrow> if w \<noteq> a then False else subset_loop as ws')"

fun intersect_loop :: "account_name list \<Rightarrow> account_name list \<Rightarrow> bool" where
  "intersect_loop [] bs = False"
| "intersect_loop (a # as) bs =
     (case dropWhile (\<lambda>b. b < a) bs of [] \<Rightarrow> False | b # bs' \<Rightarrow> if b = a then True else intersect_loop as (b # bs'))"

definition check_actor_list :: "controller \<Rightarrow> name_lists \<Rightarrow> account_name list \<Rightarrow> exec_error + unit" where
  "check_actor_list n l actors =
     (if actors = [] then Inr ()
      else if actor_whitelist n \<noteq> [] then
        chk (hd actors \<ge> hd (actor_whitelist n) \<and> last actors \<le> last (actor_whitelist n) \<and> subset_loop actors (actor_whitelist n))
          Actor_whitelist (Inr ())
      else if actor_blacklist l \<noteq> [] then
        chk (\<not> (hd actors \<le> last (actor_blacklist l) \<and> last actors \<ge> hd (actor_blacklist l) \<and> intersect_loop actors (actor_blacklist l)))
          Actor_blacklist (Inr ())
      else Inr ())"

definition check_contract_list :: "controller \<Rightarrow> name_lists \<Rightarrow> account_name \<Rightarrow> exec_error + unit" where
  "check_contract_list n l code =
     (if contract_whitelist n \<noteq> [] then chk (code \<in> set (contract_whitelist n)) Contract_whitelist (Inr ())
      else if contract_blacklist l \<noteq> [] then chk (code \<notin> set (contract_blacklist l)) Contract_blacklist (Inr ())
      else Inr ())"

definition check_action_list :: "controller \<Rightarrow> account_name \<Rightarrow> action_name \<Rightarrow> exec_error + unit" where
  "check_action_list n code act = chk ((code, act) \<notin> set (action_blacklist n)) Action_blacklist (Inr ())"

text \<open>The two checks that \<open>exec_one\<close> makes before native code and before a contract.\<close>

definition check_lists :: "controller \<Rightarrow> exec_context \<Rightarrow> exec_error + unit" where
  "check_lists n x =
     (if tx_enforce_whiteblacklist (ex_trx x) \<and> is_producing_block n
      then bnd (check_contract_list n (conf_lists (tx_chain (ex_trx x))) (receiver (ax x))) (\<lambda>_.
        check_action_list n (act_account (ex_act x)) (act_name (ex_act x)))
      else Inr ())"

definition sender_avoids_lists :: "controller \<Rightarrow> account_name \<Rightarrow> bool" where
  "sender_avoids_lists n sender \<longleftrightarrow> sender \<in> set (sender_bypass_whiteblacklist n)"

definition account_exists :: "auth_db \<Rightarrow> account_name \<Rightarrow> bool" where
  "account_exists db a \<longleftrightarrow> tbl_find (db_accounts db) a \<noteq> None"

text \<open>A declared permission: its actor exists and so does it.\<close>

definition referenced_permission :: "exec_error \<Rightarrow> auth_db \<Rightarrow> permission_level \<Rightarrow> exec_error + unit" where
  "referenced_permission e db level =
     chk (account_exists db (fst level)) e
     (case find_permission db level of
        Inl err \<Rightarrow> Inl (Auth_error err)
      | Inr p \<Rightarrow> chk (p \<noteq> None) e (Inr ()))"

definition referenced_actors :: "chain_action list \<Rightarrow> account_name list" where
  "referenced_actors acts = fold insort_insert (map fst (concat (map act_authorization acts))) []"

definition validate_referenced_accounts ::
  "controller \<Rightarrow> chain_state \<Rightarrow> transaction \<Rightarrow> bool \<Rightarrow> exec_error + unit" where
  "validate_referenced_accounts n s trx enforce =
     bnd (for_each (\<lambda>a _. chk (account_exists (cs_auth s) (act_account a)) Transaction_error
            (chk (act_authorization a = []) Transaction_error (Inr ()))) (trx_context_free_actions trx) ()) (\<lambda>_.
     bnd (for_each (\<lambda>a _. chk (account_exists (cs_auth s) (act_account a)) Transaction_error
            (for_each (\<lambda>level _. referenced_permission Transaction_error (cs_auth s) level) (act_authorization a) ()))
          (trx_actions trx) ()) (\<lambda>_.
     chk (list_ex (\<lambda>a. act_authorization a \<noteq> []) (trx_actions trx)) Trx_no_auths
      (if enforce then check_actor_list n (conf_lists s) (referenced_actors (trx_actions trx)) else Inr ())))"

subsection \<open>Fees\<close>

definition node_asset :: "int \<Rightarrow> asset" where
  "node_asset a = \<lparr>amount = a, symbol = CORE_SYMBOL\<rparr>"

text \<open>\<open>fee_map\<close>; the constructor of the manager enters the fees in this order.\<close>

definition system_fees :: "(string \<times> int) list" where
  "system_fees =
     [(''newaccount'', 1000), (''updateauth'', 1000), (''deleteauth'', 1000), (''transfer'', 100), (''vote'', 1000),
      (''voteproducer'', 1000), (''freeze'', 500), (''unfreeze'', 100), (''vote4ram'', 500), (''claim'', 300),
      (''updatebp'', 100 * 10000), (''setemergency'', 10 * 10000), (''addmortgage'', 5 * 10000), (''claimmortgage'', 5 * 10000),
      (''claimvote'', 300), (''claimbp'', 300), (''claimdevelop'', 300), (''setparams'', 100 * 10000), (''removebp'', 100 * 10000),
      (''setabi'', 1000), (''setfee'', 1000), (''setcode'', 1000), (''setconfig'', 100), (''canceldelay'', 5000),
      (''linkauth'', 5000), (''unlinkauth'', 5000)]"

definition token_fees :: "(string \<times> int) list" where
  "token_fees = [(''transfer'', 100), (''issue'', 100), (''create'', 10 * 10000), (''trade'', 100), (''castcoin'', 100), (''takecoin'', 1000)]"

definition msig_fees :: "(string \<times> int) list" where
  "msig_fees = [(''propose'', 15000), (''approve'', 10000), (''unapprove'', 10000), (''cancel'', 10000), (''exec'', 10000)]"

definition relay_fees :: "(string \<times> int) list" where
  "relay_fees = [(''commit'', 15000), (''newchannel'', 100 * 10000), (''newmap'', 100 * 10000)]"

definition fee_map :: "((account_name \<times> action_name) \<times> int) list" where
  "fee_map =
     map (\<lambda>(a, f). ((system_account_name, string_to_name a), f)) system_fees @
     map (\<lambda>(a, f). ((token_account_name, string_to_name a), f)) token_fees @
     map (\<lambda>(a, f). ((msig_account_name, string_to_name a), f)) msig_fees @
     map (\<lambda>(a, f). ((relay_account_name, string_to_name a), f)) relay_fees"

definition get_native_fee :: "account_name \<Rightarrow> action_name \<Rightarrow> asset" where
  "get_native_fee acc act = node_asset (case map_of fee_map (acc, act) of None \<Rightarrow> 0 | Some f \<Rightarrow> f)"

definition get_required_fee :: "chain_state \<Rightarrow> chain_action \<Rightarrow> exec_error + asset" where
  "get_required_fee s act =
     (case tbl_find (action_fees s) (act_account act, act_name act) of
        Some f \<Rightarrow> if af_fee f \<noteq> node_asset 0 then Inr (af_fee f)
          else chk (get_native_fee (act_account act) (act_name act) \<noteq> node_asset 0) Action_validate
            (Inr (get_native_fee (act_account act) (act_name act)))
      | None \<Rightarrow> chk (get_native_fee (act_account act) (act_name act) \<noteq> node_asset 0) Action_validate
          (Inr (get_native_fee (act_account act) (act_name act))))"

definition cpu_per_fee :: name where "cpu_per_fee = string_to_name ''res.cpufee''"
definition net_per_fee :: name where "net_per_fee = string_to_name ''res.netfee''"

definition add_limit_by_fee :: "chain_action \<Rightarrow> transaction_context \<Rightarrow> transaction_context" where
  "add_limit_by_fee act t =
     (case tbl_find (action_fees (tx_chain t)) (act_account act, act_name act) of
        None \<Rightarrow> t
      | Some f \<Rightarrow>
          (let m = tdiv (amount (af_fee f)) 100; r = cs_rl (tx_chain t);
               (cpu, net) = (if af_cpu_limit f > 0 \<or> af_net_limit f > 0 then (af_cpu_limit f, af_net_limit f)
                 else (u64 (m * get_num_config_on_chain r cpu_per_fee 200), u64 (m * get_num_config_on_chain r net_per_fee 512))) in
           t\<lparr>tx_use_limit_by_contract := True,
             tx_cpu_limit_by_contract := u64 (tx_cpu_limit_by_contract t + cpu),
             tx_net_limit_by_contract := u64 (tx_net_limit_by_contract t + net)\<rparr>))"

text \<open>\<open>operator +=\<close> of the assets of the node.\<close>

definition fee_add :: "asset \<Rightarrow> asset \<Rightarrow> exec_error + asset" where
  "fee_add a b = chk (symbol a = symbol b) Asset_type_error (Inr (a\<lparr>amount := s64 (amount a + amount b)\<rparr>))"

definition process_fee :: "controller \<Rightarrow> chain_action \<Rightarrow> transaction_context \<Rightarrow> exec_error + transaction_context" where
  "process_fee n act t =
     (if fee_model n \<and> tx_fee_payer t \<noteq> 0
      then bnd (get_required_fee (tx_chain t) act) (\<lambda>fee.
        bnd (fee_add (tx_fee_costed t) fee) (\<lambda>c.
        Inr (add_limit_by_fee act (t\<lparr>tx_fee_costed := c\<rparr>))))
      else Inr t)"

subsection \<open>Requests of a contract\<close>

text \<open>Errors of the components below.\<close>

definition lift_db :: "db_error + 'a \<Rightarrow> exec_error + 'a" where "lift_db r = (case r of Inl e \<Rightarrow> Inl (Db_error e) | Inr v \<Rightarrow> Inr v)"
definition lift_auth :: "auth_error + 'a \<Rightarrow> exec_error + 'a" where "lift_auth r = (case r of Inl e \<Rightarrow> Inl (Auth_error e) | Inr v \<Rightarrow> Inr v)"
definition lift_rl :: "chain_error + 'a \<Rightarrow> exec_error + 'a" where "lift_rl r = (case r of Inl e \<Rightarrow> Inl (Rl_error e) | Inr v \<Rightarrow> Inr v)"

definition on_db :: "(apply_context \<Rightarrow> db_error + apply_context) \<Rightarrow> exec_context \<Rightarrow> exec_error + exec_context" where
  "on_db f x = bnd (lift_db (f (ax x))) (\<lambda>a. Inr (x\<lparr>ax := a\<rparr>))"

definition ex_auth :: "exec_context \<Rightarrow> auth_db" where
  "ex_auth x = cs_auth (tx_chain (ex_trx x))"

definition set_chain :: "(chain_state \<Rightarrow> chain_state) \<Rightarrow> exec_context \<Rightarrow> exec_context" where
  "set_chain f x = x\<lparr>ex_trx := (ex_trx x)\<lparr>tx_chain := f (tx_chain (ex_trx x))\<rparr>\<rparr>"

definition set_auth :: "auth_db \<Rightarrow> exec_context \<Rightarrow> exec_context" where
  "set_auth d = set_chain (\<lambda>s. s\<lparr>cs_auth := d\<rparr>)"

definition charge_ram :: "ram_delta list \<Rightarrow> exec_context \<Rightarrow> exec_error + exec_context" where
  "charge_ram = for_each (\<lambda>(a, d). on_db (add_ram_usage a d))"

definition ex_require_authorization :: "account_name \<Rightarrow> exec_context \<Rightarrow> exec_error + exec_context" where
  "ex_require_authorization account x = bnd (lift_db (Contract_Db.require_authorization (ax x) account)) (\<lambda>_. Inr x)"

definition require_permission :: "permission_level \<Rightarrow> exec_context \<Rightarrow> exec_error + exec_context" where
  "require_permission level x = chk (level \<in> set (act_auth (ax x))) (Db_error (Missing_authorization (fst level))) (Inr x)"

definition require_recipient :: "account_name \<Rightarrow> exec_context \<Rightarrow> exec_context" where
  "require_recipient a x = (if a \<in> set (ex_notified x) then x else x\<lparr>ex_notified := ex_notified x @ [a]\<rparr>)"

text \<open>A failed authorization is passed over when a contract sends to itself, unless the node is producing the block.\<close>

definition send_to_self_bypass :: "controller \<Rightarrow> bool \<Rightarrow> auth_error + unit \<Rightarrow> exec_error + unit" where
  "send_to_self_bypass n send_to_self r =
     (case r of
        Inr u \<Rightarrow> Inr u
      | Inl e \<Rightarrow> if \<not> send_to_self then Inl (Auth_error e) else if is_producing_block n then Inl Subjective_production else Inr ())"

definition inherited_authorizations :: "controller \<Rightarrow> chain_action \<Rightarrow> exec_context \<Rightarrow> permission_level list" where
  "inherited_authorizations n a x =
     (if act_account a = receiver (ax x) \<and> receiver (ax x) = act_account (ex_act x) \<and> is_producing_block n
      then filter (\<lambda>l. l \<in> set (act_authorization (ex_act x))) (act_authorization a) else [])"

definition execute_inline :: "controller \<Rightarrow> chain_action \<Rightarrow> exec_context \<Rightarrow> exec_error + exec_context" where
  "execute_inline n a x =
     chk (account_exists (ex_auth x) (act_account a)) Action_validate
     (bnd (for_each (\<lambda>level _. referenced_permission Action_validate (ex_auth x) level) (act_authorization a) ()) (\<lambda>_.
      bnd (if tx_enforce_whiteblacklist (ex_trx x) \<and> is_producing_block n
           then check_actor_list n (conf_lists (tx_chain (ex_trx x))) (referenced_actors [a]) else Inr ()) (\<lambda>_.
      bnd (if \<not> skip_auth_check n \<and> \<not> privileged (ax x)
           then send_to_self_bypass n (act_account a = receiver (ax x))
             (check_authorization (c_auth n) (ex_auth x) [a] [] [(receiver (ax x), code_name)]
               (pending_block_time n - tx_published (ex_trx x)) False (inherited_authorizations n a x))
           else Inr ()) (\<lambda>_.
      Inr (x\<lparr>ex_inline_actions := ex_inline_actions x @ [a]\<rparr>)))))"

definition execute_context_free_inline :: "chain_action \<Rightarrow> exec_context \<Rightarrow> exec_error + exec_context" where
  "execute_context_free_inline a x =
     chk (account_exists (ex_auth x) (act_account a)) Action_validate
     (chk (act_authorization a = []) Action_validate
       (Inr (x\<lparr>ex_cfa_inline_actions := ex_cfa_inline_actions x @ [a]\<rparr>)))"

text \<open>A transaction in the table of generated transactions. Times are in microseconds; \<open>time_point_sec\<close> cuts to seconds.\<close>

definition generated_transaction :: "controller \<Rightarrow> account_name \<Rightarrow> int \<Rightarrow> account_name \<Rightarrow> int \<Rightarrow> transaction \<Rightarrow> deferred_transaction" where
  "generated_transaction n sender sender_id payer delay trx =
     \<lparr>def_sender = sender, def_sender_id = sender_id, def_payer = payer, def_packed_size = int (length (trx_pack n trx)),
      def_published = pending_block_time n, def_delay_until = pending_block_time n + delay,
      def_expiration = pending_block_time n + delay + deferred_trx_expiration_window n * 1000000, def_trx = trx\<rparr>"

definition create_generated :: "digest \<Rightarrow> deferred_transaction \<Rightarrow> auth_db \<Rightarrow> exec_error + auth_db" where
  "create_generated i g d =
     chk (list_all (\<lambda>r. fst r \<noteq> i \<and> (def_sender (snd r), def_sender_id (snd r)) \<noteq> (def_sender g, def_sender_id g)) (deferred d))
       (Auth_error Db_exception) (Inr (d\<lparr>deferred := deferred d @ [(i, g)]\<rparr>))"

text \<open>The steps of \<open>schedule_deferred_transaction\<close>: the transaction as it is stored, its authorization, and its place in the table. A
  replaced transaction keeps its identifier, and its RAM is not refunded.\<close>

definition stamped :: "controller \<Rightarrow> transaction \<Rightarrow> transaction" where
  "stamped n trx = trx\<lparr>trx_expiration := (pending_block_time n + 999999) div 1000000,
     trx_ref_block_num := fst (head_reference n), trx_ref_block_prefix := snd (head_reference n)\<rparr>"

definition authorize_deferred :: "controller \<Rightarrow> account_name \<Rightarrow> transaction \<Rightarrow> exec_context \<Rightarrow> exec_error + unit" where
  "authorize_deferred n payer trx x =
     (if \<not> skip_auth_check n \<and> \<not> privileged (ax x)
      then bnd (if payer \<noteq> receiver (ax x) then ex_require_authorization payer x else Inr x) (\<lambda>_.
        send_to_self_bypass n (list_all (\<lambda>a. act_account a = receiver (ax x)) (trx_actions trx))
          (check_authorization (c_auth n) (ex_auth x) (trx_actions trx) [] [(receiver (ax x), code_name)]
            (trx_delay_sec trx * 1000000) False []))
      else Inr ())"

definition store_generated :: "controller \<Rightarrow> bool \<Rightarrow> digest \<Rightarrow> deferred_transaction \<Rightarrow> auth_db \<Rightarrow> exec_error + auth_db" where
  "store_generated n replace_existing i g d =
     (case find (\<lambda>r. def_sender (snd r) = def_sender g \<and> def_sender_id (snd r) = def_sender_id g) (deferred d) of
        Some p \<Rightarrow> chk replace_existing Deferred_tx_duplicate
          (chk (\<not> is_producing_block n) Subjective_production
            (Inr (d\<lparr>deferred := map (\<lambda>r. if fst r = fst p then (fst r, g) else r) (deferred d)\<rparr>)))
      | None \<Rightarrow> create_generated i g d)"

definition schedule_deferred_transaction ::
  "controller \<Rightarrow> int \<Rightarrow> account_name \<Rightarrow> transaction \<Rightarrow> bool \<Rightarrow> exec_context \<Rightarrow> exec_error + exec_context" where
  "schedule_deferred_transaction n sender_id payer trx0 replace_existing x =
     chk (trx_context_free_actions trx0 = []) Cfa_inside_generated_tx
     (let self = receiver (ax x); trx = stamped n trx0;
          g = generated_transaction n self sender_id payer (trx_delay_sec trx * 1000000) trx in
      bnd (validate_referenced_accounts n (tx_chain (ex_trx x)) trx
             (tx_enforce_whiteblacklist (ex_trx x) \<and> is_producing_block n \<and> \<not> sender_avoids_lists n self)) (\<lambda>_.
      bnd (add_net_usage n (base_per_transaction_net_usage n + transaction_id_net_usage) (ex_trx x)) (\<lambda>t.
      let x = x\<lparr>ex_trx := t\<rparr> in
      bnd (authorize_deferred n payer trx x) (\<lambda>_.
      bnd (store_generated n replace_existing (trx_digest n trx) g (ex_auth x)) (\<lambda>d.
      chk (ram_billing_in_notify_allowed (ax x) \<or> self = act_account (ex_act x) \<or> self = payer \<or> privileged (ax x)) Subjective_production
       (on_db (add_ram_usage payer (generated_transaction_size + def_packed_size g)) (set_auth d x)))))))"

definition cancel_deferred :: "int \<Rightarrow> exec_context \<Rightarrow> exec_error + exec_context" where
  "cancel_deferred sender_id x =
     (let (d, effs) = cancel_deferred_transaction sender_id (receiver (ax x)) (ex_auth x) in charge_ram effs (set_auth d x))"

definition insert_validate_ram :: "account_name \<Rightarrow> exec_context \<Rightarrow> exec_context" where
  "insert_validate_ram a x = x\<lparr>ax := (ax x)\<lparr>validate_ram_usage := insort_insert a (validate_ram_usage (ax x))\<rparr>\<rparr>"

text \<open>\<open>privileged_api\<close>.\<close>

definition set_resource_limits :: "account_name \<Rightarrow> int \<Rightarrow> int \<Rightarrow> int \<Rightarrow> exec_context \<Rightarrow> exec_error + exec_context" where
  "set_resource_limits a ram net cpu x =
     chk (ram \<ge> -1) Wasm_error (chk (net \<ge> -1) Wasm_error (chk (cpu \<ge> -1) Wasm_error
     (bnd (lift_rl (set_account_limits a ram net cpu (rl (ax x)))) (\<lambda>(decreased, r).
      let x = x\<lparr>ax := (ax x)\<lparr>rl := r\<rparr>\<rparr> in Inr (if decreased then insert_validate_ram a x else x)))))"

definition set_privileged :: "account_name \<Rightarrow> bool \<Rightarrow> exec_context \<Rightarrow> exec_error + exec_context" where
  "set_privileged a is_priv x =
     need (tbl_find (db_accounts (ex_auth x)) a) (Auth_error Db_exception) (\<lambda>acc.
       Inr (set_auth ((ex_auth x)\<lparr>db_accounts := tbl_put a (acc\<lparr>acc_privileged := is_priv\<rparr>) (db_accounts (ex_auth x))\<rparr>) x))"

fun is_privileged_call :: "host_call \<Rightarrow> bool" where
  "is_privileged_call (Set_limits _ _ _ _) = True"
| "is_privileged_call (Set_need_check_ram_limit _) = True"
| "is_privileged_call (Set_privileged _ _) = True"
| "is_privileged_call _ = False"

text \<open>No function but the check of the time can be used in a context-free action. A contract has no call to change the
  account it runs as.\<close>

fun is_run_as :: "host_call \<Rightarrow> bool" where
  "is_run_as (Db_call (Run_as _ _)) = True"
| "is_run_as _ = False"

fun host_function :: "controller \<Rightarrow> host_call \<Rightarrow> exec_context \<Rightarrow> exec_error + exec_context" where
  "host_function n (Db_call c) x = on_db (db_step c) x"
| "host_function n (Require_auth a) x = ex_require_authorization a x"
| "host_function n (Require_auth2 level) x = require_permission level x"
| "host_function n (Require_recipient a) x = Inr (require_recipient a x)"
| "host_function n (Send_inline a) x =
     chk (action_pack_size n a < max_inline_action_size n) Inline_action_too_big (execute_inline n a x)"
| "host_function n (Send_context_free_inline a) x =
     chk (action_pack_size n a < max_inline_action_size n) Inline_action_too_big (execute_context_free_inline a x)"
| "host_function n (Send_deferred sender_id payer trx replace_existing) x =
     schedule_deferred_transaction n sender_id payer trx replace_existing x"
| "host_function n (Cancel_deferred sender_id) x = cancel_deferred sender_id x"
| "host_function n (Set_limits a ram net cpu) x = set_resource_limits a ram net cpu x"
| "host_function n (Set_need_check_ram_limit a) x = Inr (insert_validate_ram a x)"
| "host_function n (Set_privileged a p) x = set_privileged a p x"
| "host_function n Check_time x = bnd (checktime n (ex_trx x)) (\<lambda>t. Inr (x\<lparr>ex_trx := t\<rparr>))"

definition call_host :: "controller \<Rightarrow> host_call \<Rightarrow> exec_context \<Rightarrow> exec_error + exec_context" where
  "call_host n c x =
     chk (ex_context_free x \<longrightarrow> c = Check_time) Unaccessible_api
     (chk (is_privileged_call c \<longrightarrow> privileged (ax x)) Unaccessible_api
     (chk (\<not> is_run_as c) Unaccessible_api (host_function n c x)))"

primrec run_program :: "controller \<Rightarrow> program \<Rightarrow> exec_context \<Rightarrow> exec_error + exec_context" where
  "run_program n Finish x = Inr x"
| "run_program n Fail x = Inl Wasm_error"
| "run_program n (Call c k) x = bnd (call_host n c x) (\<lambda>y. run_program n (k y) y)"

subsection \<open>Native actions\<close>

definition newaccount_name :: action_name where "newaccount_name = string_to_name ''newaccount''"
definition setcode_name :: action_name where "setcode_name = string_to_name ''setcode''"
definition setabi_name :: action_name where "setabi_name = string_to_name ''setabi''"
definition setconfig_name :: action_name where "setconfig_name = string_to_name ''setconfig''"
definition setfee_name :: action_name where "setfee_name = string_to_name ''setfee''"
definition hello_name :: action_name where "hello_name = string_to_name ''hello''"

definition native_handlers :: "controller \<Rightarrow> action_name list" where
  "native_handlers n = [newaccount_name, setcode_name, setabi_name] @ native_auth_actions @ [setconfig_name]
     @ (if fee_model n then [setfee_name] else [])"

definition find_apply_handler :: "controller \<Rightarrow> account_name \<Rightarrow> account_name \<Rightarrow> action_name \<Rightarrow> bool" where
  "find_apply_handler n rcv code act \<longleftrightarrow> rcv = system_account_name \<and> code = system_account_name \<and> act \<in> set (native_handlers n)"

text \<open>The action a piece of data belongs to.\<close>

fun data_action :: "native_data \<Rightarrow> action_name option" where
  "data_action (Newaccount _ _ _ _) = Some newaccount_name"
| "data_action (Setcode _ _ _ _) = Some setcode_name"
| "data_action (Setabi _ _) = Some setabi_name"
| "data_action (Updateauth _) = Some updateauth_name"
| "data_action (Deleteauth _) = Some deleteauth_name"
| "data_action (Linkauth _) = Some linkauth_name"
| "data_action (Unlinkauth _) = Some unlinkauth_name"
| "data_action (Canceldelay _) = Some canceldelay_name"
| "data_action (Setconfig _) = Some setconfig_name"
| "data_action (Setfee _) = Some setfee_name"
| "data_action _ = None"

definition list_actor_black :: name where "list_actor_black = string_to_name ''l.actblack''"
definition list_contract_black :: name where "list_contract_black = string_to_name ''l.crtblack''"
definition list_resource_grey :: name where "list_resource_grey = string_to_name ''l.resgrey''"
definition gmr_cpu :: name where "gmr_cpu = string_to_name ''gmr.cpu''"
definition gmr_ram :: name where "gmr_ram = string_to_name ''gmr.ram''"
definition gmr_net :: name where "gmr_net = string_to_name ''gmr.net''"

text \<open>\<open>set_config_on_chain\<close>, \<open>set_list_config_on_chain\<close> with \<open>set_name_list\<close> and \<open>sync_list_and_db\<close>, and
  \<open>set_guaranteed_minimum_config\<close> with \<open>set_gmr_config\<close>. The lists in \<open>conf_lists\<close> are memory of the node; the database
  keeps a copy.\<close>

definition set_config_on_chain :: "setconfig \<Rightarrow> exec_context \<Rightarrow> exec_context" where
  "set_config_on_chain c x =
     set_chain (\<lambda>s. s\<lparr>config_data := tbl_put (cfg_typ c) (cfg_key c, cfg_fee c) (config_data s)\<rparr>)
       (x\<lparr>ax := (ax x)\<lparr>rl := (rl (ax x))\<lparr>num_config := tbl_put (cfg_typ c) (cfg_num c) (num_config (rl (ax x)))\<rparr>\<rparr>\<rparr>)"

definition change_list :: "int \<Rightarrow> account_name \<Rightarrow> account_name list \<Rightarrow> account_name list" where
  "change_list num key l = (if num = 1 then insort_insert key l else filter (\<lambda>a. a \<noteq> key) l)"

definition set_list_config_on_chain :: "setconfig \<Rightarrow> exec_context \<Rightarrow> exec_context" where
  "set_list_config_on_chain c x =
     (if cfg_num c \<noteq> 1 \<and> cfg_num c \<noteq> 2 then x
      else set_chain (\<lambda>s.
        if cfg_typ c = list_actor_black
          then (let l = change_list (cfg_num c) (cfg_key c) (actor_blacklist (conf_lists s)) in
            s\<lparr>conf_lists := (conf_lists s)\<lparr>actor_blacklist := l\<rparr>, force_lists := (force_lists s)\<lparr>actor_blacklist := l\<rparr>\<rparr>)
        else if cfg_typ c = list_contract_black
          then (let l = change_list (cfg_num c) (cfg_key c) (contract_blacklist (conf_lists s)) in
            s\<lparr>conf_lists := (conf_lists s)\<lparr>contract_blacklist := l\<rparr>, force_lists := (force_lists s)\<lparr>contract_blacklist := l\<rparr>\<rparr>)
        else if cfg_typ c = list_resource_grey
          then (let l = change_list (cfg_num c) (cfg_key c) (resource_greylist (conf_lists s)) in
            s\<lparr>conf_lists := (conf_lists s)\<lparr>resource_greylist := l\<rparr>, force_lists := (force_lists s)\<lparr>resource_greylist := l\<rparr>\<rparr>)
        else s) x)"

definition set_guaranteed_minimum_config :: "setconfig \<Rightarrow> exec_context \<Rightarrow> exec_error + exec_context" where
  "set_guaranteed_minimum_config c x =
     (if cfg_typ c \<notin> {gmr_cpu, gmr_ram, gmr_net} then Inr x
      else (let v = u64 (cfg_num c); g = force_gmr (tx_chain (ex_trx x));
                g' = (if cfg_typ c = gmr_cpu then g\<lparr>cpu_us := v\<rparr> else if cfg_typ c = gmr_ram then g\<lparr>ram_byte := v\<rparr> else g\<lparr>net_byte := v\<rparr>) in
        bnd (lift_rl (set_gmr_parameters g' (rl (ax x)))) (\<lambda>r.
        Inr (set_chain (\<lambda>s. s\<lparr>force_gmr := g'\<rparr>) (x\<lparr>ax := (ax x)\<lparr>rl := r\<rparr>\<rparr>)))))"

definition apply_setconfig :: "setconfig \<Rightarrow> exec_context \<Rightarrow> exec_error + exec_context" where
  "apply_setconfig c x =
     chk (list_ex (\<lambda>p. fst p = chain_config_name) (act_auth (ax x)) \<or> list_ex (\<lambda>p. fst p = producers_account_name) (act_auth (ax x)))
       (Auth_error Missing_auth_exception)
      (set_guaranteed_minimum_config c (set_list_config_on_chain c (set_config_on_chain c x)))"

definition apply_setfee :: "setfee \<Rightarrow> exec_context \<Rightarrow> exec_error + exec_context" where
  "apply_setfee f x =
     bnd (if sf_cpu_limit f = 0 \<and> sf_net_limit f = 0 \<and> sf_ram_limit f = 0
          then if list_ex (\<lambda>p. fst p = chain_config_name) (act_auth (ax x)) then Inr x else ex_require_authorization (sf_account f) x
          else ex_require_authorization chain_config_name x) (\<lambda>x.
     chk (amount (sf_fee f) > 0) Invalid_action_args
     (chk (amount (sf_fee f) \<le> 200 * 10000) Invalid_action_args
       (Inr (set_chain (\<lambda>s. s\<lparr>action_fees := tbl_put (sf_account f, sf_action f)
          \<lparr>af_fee = sf_fee f, af_cpu_limit = sf_cpu_limit f, af_net_limit = sf_net_limit f, af_ram_limit = sf_ram_limit f\<rparr> (action_fees s)\<rparr>) x))))"

definition native_context_of :: "controller \<Rightarrow> exec_context \<Rightarrow> native_context" where
  "native_context_of n x =
     \<lparr>nc_authorization = act_authorization (ex_act x), nc_time = pending_block_time n, nc_max_delay = max_transaction_delay (c_auth n),
      nc_check_keys = (tx_enforce_whiteblacklist (ex_trx x) \<and> is_producing_block n), nc_key_allowed = (\<lambda>k. k \<notin> set (key_blacklist n)),
      nc_pack_size = key_pack_size n, nc_hash = code_hash n, nc_wasm_valid = wasm_validate n\<rparr>"

text \<open>A new account also gets its sequence numbers and its place in the resource limits.\<close>

definition open_account :: "account_name \<Rightarrow> exec_context \<Rightarrow> exec_error + exec_context" where
  "open_account a x =
     bnd (lift_rl (initialize_account a (rl (ax x)))) (\<lambda>r.
     Inr (set_chain (\<lambda>s. s\<lparr>account_sequences := tbl_put a (0, 0) (account_sequences s)\<rparr>) (x\<lparr>ax := (ax x)\<lparr>rl := r\<rparr>\<rparr>)))"

definition run_native :: "controller \<Rightarrow> exec_context \<Rightarrow> exec_error + exec_context" where
  "run_native n x =
     (let d = act_data (ex_act x) in
      chk (data_action d = Some (act_name (ex_act x))) (Auth_error Unpack_exception)
      (case d of
         Setconfig c \<Rightarrow> apply_setconfig c x
       | Setfee f \<Rightarrow> apply_setfee f x
       | _ \<Rightarrow>
          bnd (lift_auth (apply_native (native_context_of n x) d (ex_auth x))) (\<lambda>(db, effs).
          bnd (case d of Newaccount _ a _ _ \<Rightarrow> open_account a (set_auth db x) | _ \<Rightarrow> Inr (set_auth db x)) (\<lambda>x.
          charge_ram effs x))))"

definition apply_native_contract :: "exec_context \<Rightarrow> exec_error + exec_context" where
  "apply_native_contract x =
     chk (act_name (ex_act x) = hello_name) Action_not_found
      (chk (act_data (ex_act x) = Other_data) (Auth_error Unpack_exception) (Inr x))"

subsection \<open>One receiver\<close>

definition next_global_sequence :: "exec_context \<Rightarrow> int \<times> exec_context" where
  "next_global_sequence x =
     (let g = u64 (global_action_sequence (tx_chain (ex_trx x)) + 1) in (g, set_chain (\<lambda>s. s\<lparr>global_action_sequence := g\<rparr>) x))"

definition next_recv_sequence :: "account_name \<Rightarrow> exec_context \<Rightarrow> exec_error + int \<times> exec_context" where
  "next_recv_sequence a x =
     need (tbl_find (account_sequences (tx_chain (ex_trx x))) a) (Auth_error Db_exception) (\<lambda>(recv, auth).
       let v = u64 (recv + 1) in
       Inr (v, set_chain (\<lambda>s. s\<lparr>account_sequences := tbl_put a (v, auth) (account_sequences s)\<rparr>) x))"

definition next_auth_sequence :: "account_name \<Rightarrow> exec_context \<Rightarrow> exec_error + int \<times> exec_context" where
  "next_auth_sequence a x =
     need (tbl_find (account_sequences (tx_chain (ex_trx x))) a) (Auth_error Db_exception) (\<lambda>(recv, auth).
       let v = u64 (auth + 1) in
       Inr (v, set_chain (\<lambda>s. s\<lparr>account_sequences := tbl_put a (recv, v) (account_sequences s)\<rparr>) x))"

definition add_receipt :: "controller \<Rightarrow> exec_context \<Rightarrow> exec_error + action_receipt \<times> exec_context" where
  "add_receipt n x =
     (let (g, x) = next_global_sequence x in
      bnd (next_recv_sequence (receiver (ax x)) x) (\<lambda>(recv, x).
      need (tbl_find (db_accounts (ex_auth x)) (act_account (ex_act x))) (Auth_error Db_exception) (\<lambda>acc.
      bnd (for_each (\<lambda>auth (m, x). bnd (next_auth_sequence (fst auth) x) (\<lambda>(v, x). Inr (tbl_put (fst auth) v m, x)))
             (act_authorization (ex_act x)) ([], x)) (\<lambda>(m, x).
      let r = \<lparr>r_receiver = receiver (ax x), r_act_digest = action_digest n (ex_act x), r_global_sequence = g, r_recv_sequence = recv,
               r_auth_sequence = m, r_code_sequence = u32 (acc_code_sequence acc), r_abi_sequence = u32 (acc_abi_sequence acc)\<rparr> in
      Inr (r, x\<lparr>ex_trx := (ex_trx x)\<lparr>tx_executed := tx_executed (ex_trx x) @ [r]\<rparr>\<rparr>)))))"

text \<open>\<open>finalize_trace\<close> takes the RAM deltas into the trace.\<close>

definition finalize_trace :: "exec_context \<Rightarrow> exec_context" where
  "finalize_trace x = x\<lparr>ax := (ax x)\<lparr>account_ram_deltas := []\<rparr>\<rparr>"

definition run_code :: "controller \<Rightarrow> exec_context \<Rightarrow> exec_error + exec_context" where
  "run_code n x =
     need (tbl_find (db_accounts (ex_auth x)) (receiver (ax x))) (Auth_error Db_exception) (\<lambda>a.
       if acc_code a \<noteq> [] \<and> \<not> (act_account (ex_act x) = system_account_name \<and> act_name (ex_act x) = setcode_name
            \<and> receiver (ax x) = system_account_name)
       then bnd (check_lists n x) (\<lambda>_.
         run_program n (contract n (acc_code_version a) (receiver (ax x)) (ex_act x) (ex_context_free x)) x)
       else Inr x)"

definition exec_one :: "controller \<Rightarrow> exec_context \<Rightarrow> exec_error + action_receipt \<times> exec_context" where
  "exec_one n x =
     need (tbl_find (db_accounts (ex_auth x)) (receiver (ax x))) (Auth_error Db_exception) (\<lambda>a.
     bnd (let x = x\<lparr>ax := (ax x)\<lparr>privileged := acc_privileged a\<rparr>\<rparr> in
          if find_apply_handler n (receiver (ax x)) (act_account (ex_act x)) (act_name (ex_act x))
          then bnd (check_lists n x) (\<lambda>_. run_native n x) else Inr x) (\<lambda>x.
     bnd (if act_account (ex_act x) = native_account_name then apply_native_contract x else run_code n x) (\<lambda>x.
     bnd (add_receipt n x) (\<lambda>(r, x). Inr (r, finalize_trace x)))))"

subsection \<open>An action with its notifications and inline actions\<close>

definition open_context ::
  "controller \<Rightarrow> chain_action \<Rightarrow> account_name \<Rightarrow> bool \<Rightarrow> transaction_context \<Rightarrow> exec_context" where
  "open_context n a rcv context_free t =
     \<lparr>ax = \<lparr>receiver = rcv, act_code = act_account a, act_auth = act_authorization a, privileged = False,
        ram_billing_in_notify_allowed = (\<not> is_producing_block n \<or> allow_ram_billing_in_notify n), caches = (\<lambda>_. new_cache),
        account_ram_deltas = [], cdb = cs_cdb (tx_chain t), rl = cs_rl (tx_chain t), validate_ram_usage = tx_validate_ram_usage t\<rparr>,
      ex_act = a, ex_context_free = context_free, ex_notified = [rcv], ex_inline_actions = [], ex_cfa_inline_actions = [], ex_trx = t\<rparr>"

definition close_context :: "exec_context \<Rightarrow> transaction_context" where
  "close_context x =
     (ex_trx x)\<lparr>tx_validate_ram_usage := validate_ram_usage (ax x),
       tx_chain := (tx_chain (ex_trx x))\<lparr>cs_cdb := cdb (ax x), cs_rl := rl (ax x)\<rparr>\<rparr>"

text \<open>The loop over \<open>_notified\<close>, which grows while it runs. No account is notified twice and only existing accounts can be,
  so that the number of accounts bounds the steps.\<close>

fun exec_notified ::
  "controller \<Rightarrow> nat \<Rightarrow> nat \<Rightarrow> action_trace list \<times> exec_context \<Rightarrow> exec_error + action_trace list \<times> exec_context" where
  "exec_notified n fuel i (ts, x) =
     (if i < length (ex_notified x)
      then (case fuel of
          0 \<Rightarrow> Inl Out_of_fuel
        | Suc f \<Rightarrow> bnd (exec_one n (x\<lparr>ax := (ax x)\<lparr>receiver := ex_notified x ! i\<rparr>\<rparr>)) (\<lambda>(r, y).
            exec_notified n f (Suc i) (ts @ [Action_trace r (ex_act y) (ex_context_free y) []], y)))
      else Inr (ts, x))"

declare exec_notified.simps [simp del]

definition exec_receivers ::
  "controller \<Rightarrow> chain_action \<Rightarrow> account_name \<Rightarrow> bool \<Rightarrow> transaction_context \<Rightarrow> exec_error + action_receipt \<times> action_trace list \<times> exec_context" where
  "exec_receivers n a rcv context_free t =
     bnd (exec_one n (open_context n a rcv context_free t)) (\<lambda>(r, x).
     bnd (exec_notified n (length (db_accounts (ex_auth x))) 1 ([], x)) (\<lambda>(ts, x). Inr (r, ts, x)))"

lemma for_each_cong [fundef_cong]:
  "xs = ys \<Longrightarrow> s = s' \<Longrightarrow> (\<And>x t. x \<in> set ys \<Longrightarrow> f x t = g x t) \<Longrightarrow> for_each f xs s = for_each g ys s'"
  by (induction xs arbitrary: ys s s') (auto intro!: bnd_cong)

function exec_action ::
  "controller \<Rightarrow> nat \<Rightarrow> bool \<Rightarrow> chain_action \<Rightarrow> account_name \<Rightarrow> transaction_context \<Rightarrow> exec_error + action_trace \<times> transaction_context" where
  "exec_action n depth context_free a rcv t =
     bnd (exec_receivers n a rcv context_free t) (\<lambda>(r, notified, x).
     chk (ex_cfa_inline_actions x = [] \<and> ex_inline_actions x = [] \<or> depth < max_inline_action_depth n) Transaction_error
     (bnd (for_each (\<lambda>b (ts, t). bnd (process_fee n b t) (\<lambda>t.
             bnd (exec_action n (Suc depth) True b (act_account b) t) (\<lambda>(tr, t). Inr (ts @ [tr], t))))
           (ex_cfa_inline_actions x) (notified, close_context x)) (\<lambda>(ts, t).
      bnd (for_each (\<lambda>b (ts, t). bnd (process_fee n b t) (\<lambda>t.
             bnd (exec_action n (Suc depth) False b (act_account b) t) (\<lambda>(tr, t). Inr (ts @ [tr], t))))
           (ex_inline_actions x) (ts, t)) (\<lambda>(ts, t).
      Inr (Action_trace r a context_free ts, t)))))"
  by pat_completeness auto
termination
  by (relation "measure (\<lambda>(n, depth, _). max_inline_action_depth n - depth)") auto

declare exec_action.simps [simp del]

end
