(* ===== verification/Transaction_Context.thy ===== *)
theory Transaction_Context
  imports Action_Exec
begin

text \<open>
  The life of a transaction in the pending block: \<open>transaction_context\<close> (\<open>transaction_context.cpp\<close>) sets the limits that
  the transaction has to respect, executes its actions, and bills the accounts that authorise it; \<open>controller\<close>
  (\<open>controller.cpp\<close>) pushes input transactions and retires scheduled ones. The code for the fee model is part of the
  functions under the flag \<open>fee_model\<close>, which stands for \<open>RESOURCE_MODEL_FEE\<close>.
\<close>

subsection \<open>Billing\<close>

definition large_number_no_overflow :: int where "large_number_no_overflow = INT64_MAX div 2"

definition validate_cpu_usage_to_bill :: "controller \<Rightarrow> int \<Rightarrow> bool \<Rightarrow> transaction_context \<Rightarrow> exec_error + unit" where
  "validate_cpu_usage_to_bill n billed_us check_minimum t =
     (if skip_trx_checks n then Inr ()
      else chk (check_minimum \<longrightarrow> billed_us \<ge> min_transaction_cpu_usage n) Transaction_error
        (chk (billed_us \<le> tx_objective_duration_limit t)
          (if tx_billing_timer_exception_code t = Block_cpu_code then Block_cpu_usage_exceeded
           else if tx_cpu_limit_due_to_greylist t then Greylist_cpu_usage_exceeded else Trx_cpu_usage_exceeded) (Inr ())))"

definition update_billed_cpu_time :: "controller \<Rightarrow> int \<Rightarrow> transaction_context \<Rightarrow> transaction_context" where
  "update_billed_cpu_time n now t =
     (if tx_explicit_billed_cpu_time t then t
      else t\<lparr>tx_billed_cpu_time_us := max (now - tx_pseudo_start t) (min_transaction_cpu_usage n)\<rparr>)"

text \<open>One account of the loop of \<open>max_bandwidth_billed_accounts_can_pay\<close>; the state is the least limit for NET and for CPU so far
  and whether the greylist lowered them.\<close>

definition account_can_pay ::
  "controller \<Rightarrow> chain_state \<Rightarrow> bool \<Rightarrow> account_name \<Rightarrow> int \<times> int \<times> bool \<times> bool \<Rightarrow> exec_error + int \<times> int \<times> bool \<times> bool" where
  "account_can_pay n s force_elastic_limits a lims =
     (let (net, cpu, gn, gc) = lims;
          elastic = (force_elastic_limits \<or> \<not> (is_producing_block n \<and> a \<in> set (resource_greylist (conf_lists s)))) in
      bnd (lift_rl (get_account_net_limit (cs_rl s) a elastic)) (\<lambda>net_limit.
      bnd (lift_rl (get_account_cpu_limit (cs_rl s) a elastic)) (\<lambda>cpu_limit.
      Inr (if net_limit \<ge> 0 then min net net_limit else net, if cpu_limit \<ge> 0 then min cpu cpu_limit else cpu,
           gn \<or> net_limit \<ge> 0 \<and> \<not> elastic, gc \<or> cpu_limit \<ge> 0 \<and> \<not> elastic))))"

definition max_bandwidth_billed_accounts_can_pay ::
  "controller \<Rightarrow> bool \<Rightarrow> transaction_context \<Rightarrow> exec_error + int \<times> int \<times> bool \<times> bool" where
  "max_bandwidth_billed_accounts_can_pay n force_elastic_limits t =
     for_each (account_can_pay n (tx_chain t) force_elastic_limits) (tx_bill_to_accounts t)
       (large_number_no_overflow, large_number_no_overflow, False, False)"

text \<open>The timer stands still while the code of a contract is prepared.\<close>

definition pause_billing_timer :: "controller \<Rightarrow> transaction_context \<Rightarrow> transaction_context" where
  "pause_billing_timer n t =
     (if tx_explicit_billed_cpu_time t \<or> tx_pseudo_start t = 0 then t
      else (let ((_, now), t) = read_clock n t in
        t\<lparr>tx_billed_time := now - tx_pseudo_start t, tx_deadline_exception_code := Deadline_code, tx_pseudo_start := 0\<rparr>))"

definition resume_billing_timer :: "controller \<Rightarrow> transaction_context \<Rightarrow> transaction_context" where
  "resume_billing_timer n t =
     (if tx_explicit_billed_cpu_time t \<or> tx_pseudo_start t \<noteq> 0 then t
      else (let ((_, now), t) = read_clock n t; t = t\<lparr>tx_pseudo_start := now - tx_billed_time t\<rparr> in
        if tx_pseudo_start t + tx_billing_timer_duration_limit t \<le> tx_deadline t
        then t\<lparr>tx_exec_deadline := tx_pseudo_start t + tx_billing_timer_duration_limit t,
               tx_deadline_exception_code := tx_billing_timer_exception_code t\<rparr>
        else t\<lparr>tx_exec_deadline := tx_deadline t, tx_deadline_exception_code := Deadline_code\<rparr>))"

subsection \<open>Initialisation\<close>

definition new_context :: "transaction \<Rightarrow> digest \<Rightarrow> int \<Rightarrow> chain_state \<Rightarrow> exec_error + transaction_context" where
  "new_context trx i start s =
     chk (length (trx_extensions trx) \<le> 16) Trx_too_big
      (Inr \<lparr>tx_trx = trx, tx_id = i, tx_start = start, tx_published = 0, tx_executed = [], tx_bill_to_accounts = [],
        tx_validate_ram_usage = [], tx_delay = 0, tx_is_input = False, tx_apply_context_free = True, tx_enforce_whiteblacklist = True,
        tx_deadline = INT64_MAX, tx_leeway = 3000, tx_billed_cpu_time_us = 0, tx_explicit_billed_cpu_time = False,
        tx_fee_payer = 0, tx_fee_costed = node_asset 0, tx_is_initialized = False, tx_net_limit = 0, tx_net_limit_due_to_block = True,
        tx_net_limit_due_to_greylist = False, tx_eager_net_limit = 0, tx_net_usage = 0, tx_cpu_limit_due_to_greylist = False,
        tx_initial_objective_duration_limit = 0, tx_objective_duration_limit = 0, tx_exec_deadline = INT64_MAX,
        tx_deadline_exception_code = Block_cpu_code, tx_billing_timer_exception_code = Block_cpu_code, tx_pseudo_start = start,
        tx_billed_time = 0, tx_billing_timer_duration_limit = 0, tx_cpu_limit_by_contract = 0, tx_net_limit_by_contract = 0,
        tx_use_limit_by_contract = False, tx_ticks = 0, tx_chain = s\<rparr>)"

definition lower_net_limit :: "int \<Rightarrow> transaction_context \<Rightarrow> transaction_context" where
  "lower_net_limit l t = (if l \<le> tx_net_limit t then t\<lparr>tx_net_limit := l, tx_net_limit_due_to_block := False\<rparr> else t)"

definition lower_cpu_limit :: "int \<Rightarrow> transaction_context \<Rightarrow> transaction_context" where
  "lower_cpu_limit l t =
     (if l \<le> tx_objective_duration_limit t
      then t\<lparr>tx_objective_duration_limit := l, tx_billing_timer_exception_code := Tx_cpu_code, tx_exec_deadline := tx_start t + l\<rparr> else t)"

text \<open>The limits of the block, of the chain and of the header of the transaction.\<close>

definition objective_limits :: "controller \<Rightarrow> transaction_context \<Rightarrow> transaction_context" where
  "objective_limits n t =
     (let r = cs_rl (tx_chain t);
          t = t\<lparr>tx_net_limit := get_block_net_limit r, tx_objective_duration_limit := s64 (get_block_cpu_limit r),
                tx_exec_deadline := tx_start t + s64 (get_block_cpu_limit r)\<rparr>;
          t = lower_net_limit (max_transaction_net_usage n) t;
          t = lower_cpu_limit (max_transaction_cpu_usage n) t;
          w = trx_max_net_usage_words (tx_trx t) * 8;
          t = (if w > 0 then lower_net_limit w t else t);
          m = trx_max_cpu_usage_ms (tx_trx t) * 1000;
          t = (if m > 0 then lower_cpu_limit m t else t) in
      t\<lparr>tx_initial_objective_duration_limit := tx_objective_duration_limit t\<rparr>)"

text \<open>What the billed accounts can pay, with the leeways, and the deadline of the caller.\<close>

definition eager_limits :: "controller \<Rightarrow> int \<Rightarrow> int \<Rightarrow> transaction_context \<Rightarrow> transaction_context" where
  "eager_limits n account_net_limit account_cpu_limit t =
     (let t = t\<lparr>tx_eager_net_limit := tx_net_limit t\<rparr>;
          e = min (tx_eager_net_limit t) (u64 (account_net_limit + net_usage_leeway n));
          t = (if e < tx_eager_net_limit t then t\<lparr>tx_eager_net_limit := e, tx_net_limit_due_to_block := False\<rparr> else t);
          t = (if account_cpu_limit + tx_leeway t \<le> tx_exec_deadline t - tx_start t
               then t\<lparr>tx_exec_deadline := tx_start t + account_cpu_limit + tx_leeway t, tx_billing_timer_exception_code := Leeway_code\<rparr> else t);
          t = t\<lparr>tx_billing_timer_duration_limit := tx_exec_deadline t - tx_start t\<rparr>;
          t = (if tx_explicit_billed_cpu_time t \<or> tx_deadline t < tx_exec_deadline t
               then t\<lparr>tx_exec_deadline := tx_deadline t, tx_deadline_exception_code := Deadline_code\<rparr>
               else t\<lparr>tx_deadline_exception_code := tx_billing_timer_exception_code t\<rparr>) in
      t\<lparr>tx_eager_net_limit := tx_eager_net_limit t div 8 * 8\<rparr>)"

definition init :: "controller \<Rightarrow> int \<Rightarrow> transaction_context \<Rightarrow> exec_error + transaction_context" where
  "init n initial_net_usage t =
     chk (\<not> tx_is_initialized t) Transaction_error
     (let t = objective_limits n t in
      bnd (if tx_billed_cpu_time_us t > 0 then validate_cpu_usage_to_bill n (tx_billed_cpu_time_us t) False t else Inr ()) (\<lambda>_.
      let t = t\<lparr>tx_bill_to_accounts := referenced_actors (trx_actions (tx_trx t))\<rparr> in
      bnd (lift_rl (update_account_usage (tx_bill_to_accounts t) (pending_slot n) (cs_rl (tx_chain t)))) (\<lambda>r.
      let t = t\<lparr>tx_chain := (tx_chain t)\<lparr>cs_rl := r\<rparr>\<rparr> in
      bnd (max_bandwidth_billed_accounts_can_pay n False t) (\<lambda>(net, cpu, gn, gc).
      let t = eager_limits n net cpu (t\<lparr>tx_net_limit_due_to_greylist := tx_net_limit_due_to_greylist t \<or> gn,
                tx_cpu_limit_due_to_greylist := tx_cpu_limit_due_to_greylist t \<or> gc\<rparr>) in
      bnd (if initial_net_usage > 0 then add_net_usage n initial_net_usage t else Inr t) (\<lambda>t.
      bnd (checktime n t) (\<lambda>t. Inr (t\<lparr>tx_is_initialized := True\<rparr>)))))))"

definition init_for_implicit_trx :: "controller \<Rightarrow> int \<Rightarrow> transaction_context \<Rightarrow> exec_error + transaction_context" where
  "init_for_implicit_trx n initial_net_usage t = init n initial_net_usage (t\<lparr>tx_published := pending_block_time n\<rparr>)"

definition validate_expiration :: "controller \<Rightarrow> transaction \<Rightarrow> exec_error + unit" where
  "validate_expiration n trx =
     chk (trx_expiration trx * 1000000 \<ge> pending_block_time n) Expired_tx
     (chk (trx_expiration trx * 1000000 \<le> pending_block_time n + max_transaction_lifetime n * 1000000) Tx_exp_too_far (Inr ()))"

definition validate_tapos :: "controller \<Rightarrow> transaction \<Rightarrow> exec_error + unit" where
  "validate_tapos n trx =
     chk ((trx_ref_block_num trx, trx_ref_block_prefix trx) = block_summary n (trx_ref_block_num trx)) Invalid_ref_block (Inr ())"

definition record_transaction :: "digest \<Rightarrow> int \<Rightarrow> transaction_context \<Rightarrow> exec_error + transaction_context" where
  "record_transaction i expire t =
     chk (i \<notin> set (map fst (known_transactions (tx_chain t)))) Trx_duplicate
      (Inr (t\<lparr>tx_chain := (tx_chain t)\<lparr>known_transactions := known_transactions (tx_chain t) @ [(i, expire)]\<rparr>\<rparr>))"

definition discounted_size :: "controller \<Rightarrow> int \<Rightarrow> int" where
  "discounted_size n size_pruned =
     (let num = context_free_discount_net_usage_num n; den = context_free_discount_net_usage_den n in
      if den > 0 \<and> num < den then u64 (u64 (u64 (size_pruned * num) + den) - 1) div den else size_pruned)"

definition init_for_input_trx ::
  "controller \<Rightarrow> int \<Rightarrow> int \<Rightarrow> bool \<Rightarrow> transaction_context \<Rightarrow> exec_error + transaction_context" where
  "init_for_input_trx n unprunable_size prunable_size skip_recording t =
     (let u = u64 (base_per_transaction_net_usage n + unprunable_size + discounted_size n prunable_size);
          u = (if trx_delay_sec (tx_trx t) > 0 then u64 (u + base_per_transaction_net_usage n + transaction_id_net_usage) else u);
          t = t\<lparr>tx_published := pending_block_time n, tx_is_input := True\<rparr> in
      bnd (if skip_trx_checks n then Inr ()
           else bnd (validate_expiration n (tx_trx t)) (\<lambda>_. bnd (validate_tapos n (tx_trx t)) (\<lambda>_.
             validate_referenced_accounts n (tx_chain t) (tx_trx t) (tx_enforce_whiteblacklist t \<and> is_producing_block n)))) (\<lambda>_.
      bnd (init n u t) (\<lambda>t.
      if skip_recording then Inr t else record_transaction (tx_id t) (trx_expiration (tx_trx t)) t)))"

definition init_for_deferred_trx :: "controller \<Rightarrow> int \<Rightarrow> transaction_context \<Rightarrow> exec_error + transaction_context" where
  "init_for_deferred_trx n published t = init n 0 (t\<lparr>tx_published := published, tx_apply_context_free := False\<rparr>)"

subsection \<open>Execution\<close>

definition dispatch_action ::
  "controller \<Rightarrow> bool \<Rightarrow> chain_action \<Rightarrow> action_trace list \<times> transaction_context \<Rightarrow> exec_error + action_trace list \<times> transaction_context" where
  "dispatch_action n context_free a = (\<lambda>(ts, t).
     bnd (exec_action n 0 context_free a (act_account a) t) (\<lambda>(tr, t). Inr (ts @ [tr], t)))"

definition set_fee_data :: "transaction_context \<Rightarrow> exec_error + transaction_context" where
  "set_fee_data t =
     (case trx_actions (tx_trx t) of
        a # _ \<Rightarrow>
          (case act_authorization a of
             [] \<Rightarrow> Inl Transaction_error
           | l # _ \<Rightarrow> chk (fst l \<noteq> 0) Transaction_error (Inr (t\<lparr>tx_fee_payer := fst l\<rparr>)))
      | [] \<Rightarrow> Inl (Auth_error Undefined_access))"

definition fee_name :: action_name where "fee_name = string_to_name ''fee''"

text \<open>\<open>is_fee_voteage\<close> compares the producer in the extension with its argument, which is the empty name.\<close>

definition is_fee_voteage :: "transaction \<Rightarrow> account_name \<Rightarrow> bool" where
  "is_fee_voteage trx bp_name = list_ex (\<lambda>e. fst e = 1 \<and> bp_name = snd e) (trx_extensions trx)"

definition fee_action :: "transaction_context \<Rightarrow> chain_action" where
  "fee_action t =
     (if is_fee_voteage (tx_trx t) 0
      then \<lparr>act_account = system_account_name, act_name = fee_name, act_authorization = [(tx_fee_payer t, active_name)],
            act_data = Fee_voteage (tx_fee_payer t) 0 (amount (tx_fee_costed t))\<rparr>
      else \<lparr>act_account = token_account_name, act_name = fee_name, act_authorization = [(tx_fee_payer t, active_name)],
            act_data = Transfer_fee (tx_fee_payer t) (tx_fee_costed t)\<rparr>)"

definition dispatch_fee_action ::
  "controller \<Rightarrow> action_trace list \<times> transaction_context \<Rightarrow> exec_error + action_trace list \<times> transaction_context" where
  "dispatch_fee_action n st = (if tx_fee_payer (snd st) \<noteq> 0 then dispatch_action n False (fee_action (snd st)) st else Inr st)"

definition first_authorizor :: "transaction \<Rightarrow> account_name" where
  "first_authorizor trx = (case concat (map act_authorization (trx_actions trx)) of [] \<Rightarrow> 0 | l # _ \<Rightarrow> fst l)"

definition trx_charge_ram :: "account_name \<Rightarrow> int \<Rightarrow> transaction_context \<Rightarrow> exec_error + transaction_context" where
  "trx_charge_ram account ram_delta t =
     bnd (lift_rl (add_pending_ram_usage account ram_delta (cs_rl (tx_chain t)))) (\<lambda>r.
     Inr (t\<lparr>tx_chain := (tx_chain t)\<lparr>cs_rl := r\<rparr>,
        tx_validate_ram_usage := (if ram_delta > 0 then insort_insert account (tx_validate_ram_usage t) else tx_validate_ram_usage t)\<rparr>))"

definition schedule_transaction :: "controller \<Rightarrow> transaction_context \<Rightarrow> exec_error + transaction_context" where
  "schedule_transaction n t =
     bnd (if trx_delay_sec (tx_trx t) = 0 then add_net_usage n (base_per_transaction_net_usage n + transaction_id_net_usage) t else Inr t) (\<lambda>t.
     let g = generated_transaction n 0 (transaction_id_to_sender_id (tx_id t)) (first_authorizor (tx_trx t)) (tx_delay t) (tx_trx t) in
     bnd (create_generated (tx_id t) g (cs_auth (tx_chain t))) (\<lambda>d.
     trx_charge_ram (def_payer g) (generated_transaction_size + def_packed_size g) (t\<lparr>tx_chain := (tx_chain t)\<lparr>cs_auth := d\<rparr>\<rparr>)))"

text \<open>The loops over the actions.\<close>

definition exec_actions ::
  "controller \<Rightarrow> bool \<Rightarrow> chain_action list \<Rightarrow> action_trace list \<times> transaction_context \<Rightarrow> exec_error + action_trace list \<times> transaction_context" where
  "exec_actions n context_free =
     for_each (\<lambda>a (ts, t). bnd (process_fee n a t) (\<lambda>t. dispatch_action n context_free a (ts, t)))"

definition exec_trx :: "controller \<Rightarrow> transaction_context \<Rightarrow> exec_error + action_trace list \<times> transaction_context" where
  "exec_trx n t =
     chk (tx_is_initialized t) Transaction_error
     (bnd (if tx_apply_context_free t then exec_actions n True (trx_context_free_actions (tx_trx t)) ([], t) else Inr ([], t)) (\<lambda>(ts, t).
      bnd (if tx_delay t = 0 then exec_actions n False (trx_actions (tx_trx t)) (ts, t)
           else bnd (schedule_transaction n t) (\<lambda>t. Inr (ts, t))) (\<lambda>st.
      if fee_model n then dispatch_fee_action n st else Inr st)))"

subsection \<open>The end of a transaction\<close>

definition update_usages :: "controller \<Rightarrow> transaction_context \<Rightarrow> exec_error + transaction_context" where
  "update_usages n t =
     (if tx_is_input t
      then bnd (lift_auth (for_each (\<lambda>l db. bnd (get_permission db l) (\<lambda>p. update_permission_usage (pending_block_time n) (snd p) db))
             (concat (map act_authorization (trx_actions (tx_trx t)))) (cs_auth (tx_chain t)))) (\<lambda>d.
        Inr (t\<lparr>tx_chain := (tx_chain t)\<lparr>cs_auth := d\<rparr>\<rparr>))
      else Inr t)"

text \<open>\<open>finalize\<close> lowers the limits to what the billed accounts can pay and rounds the NET usage up to words.\<close>

definition final_limits :: "int \<times> int \<times> bool \<times> bool \<Rightarrow> transaction_context \<Rightarrow> transaction_context" where
  "final_limits lims t =
     (let (net, cpu, gn, gc) = lims;
          t = t\<lparr>tx_net_limit_due_to_greylist := tx_net_limit_due_to_greylist t \<or> gn,
                tx_cpu_limit_due_to_greylist := tx_cpu_limit_due_to_greylist t \<or> gc\<rparr>;
          t = lower_net_limit (u64 net) t;
          t = (if cpu \<le> tx_objective_duration_limit t
               then t\<lparr>tx_objective_duration_limit := cpu, tx_billing_timer_exception_code := Tx_cpu_code\<rparr> else t) in
      t\<lparr>tx_net_usage := u64 (tx_net_usage t + 7) div 8 * 8, tx_eager_net_limit := tx_net_limit t\<rparr>)"

text \<open>\<open>finalize\<close> up to the last call, which bills the accounts.\<close>

definition finalize_checks :: "controller \<Rightarrow> transaction_context \<Rightarrow> exec_error + transaction_context" where
  "finalize_checks n t =
     chk (tx_is_initialized t) Transaction_error
     (bnd (update_usages n t) (\<lambda>t.
      bnd (lift_rl (for_each (\<lambda>a _. verify_account_ram_usage a (cs_rl (tx_chain t))) (tx_validate_ram_usage t) ())) (\<lambda>_.
      bnd (max_bandwidth_billed_accounts_can_pay n False t) (\<lambda>lims.
      let t = final_limits lims t in
      bnd (check_net_usage n t) (\<lambda>_.
      let ((_, now), t) = read_clock n t; t = update_billed_cpu_time n now t in
      bnd (validate_cpu_usage_to_bill n (tx_billed_cpu_time_us t) True t) (\<lambda>_.
      chk (tx_use_limit_by_contract t \<longrightarrow> u64 (tx_billed_cpu_time_us t) \<le> tx_cpu_limit_by_contract t) Trx_cpu_usage_exceeded
      (chk (tx_use_limit_by_contract t \<longrightarrow> tx_net_usage t \<le> tx_net_limit_by_contract t) Trx_net_usage_exceeded (Inr t))))))))"

definition finalize :: "controller \<Rightarrow> transaction_context \<Rightarrow> exec_error + transaction_context" where
  "finalize n t =
     bnd (finalize_checks n t) (\<lambda>t.
     bnd (lift_rl (add_transaction_usage (tx_bill_to_accounts t) (u64 (tx_billed_cpu_time_us t)) (tx_net_usage t) (pending_slot n)
            (cs_rl (tx_chain t)))) (\<lambda>r.
     Inr (t\<lparr>tx_chain := (tx_chain t)\<lparr>cs_rl := r\<rparr>\<rparr>)))"

end
