(* ===== verification/Push_Transaction.thy ===== *)
theory Push_Transaction
  imports Transaction_Context
begin

text \<open>
  How the controller (\<open>controller.cpp\<close>) applies transactions to the pending block: \<open>push_transaction\<close> for input and implicit
  transactions, \<open>push_scheduled_transaction\<close> for generated ones with \<open>apply_onerror\<close> when they fail. The pending block is
  the state of the chain with the receipts collected so far. A transaction that throws is undone: the result holds the
  exception of its trace and the state before. The lists of names that \<open>setconfig\<close> changes in the memory of the
  node are restored with it in the model; the node keeps the change.
\<close>

datatype trx_status = Executed | Soft_fail | Hard_fail | Delayed | Expired

record transaction_receipt =
  tr_trx :: digest
  tr_status :: trx_status
  tr_cpu_usage_us :: int
  tr_net_usage_words :: int

record pending_state =
  pb_chain :: chain_state
  pb_transactions :: "transaction_receipt list"
  pb_actions :: "action_receipt list"

text \<open>A transaction with what the node knows about it: its identifier, the sizes of its parts and the keys that signed it.\<close>

record transaction_metadata =
  tm_trx :: transaction
  tm_id :: digest
  tm_implicit :: bool
  tm_unprunable_size :: int
  tm_prunable_size :: int
  tm_keys :: "public_key list"

definition failure_is_subjective :: "exec_error \<Rightarrow> bool" where
  "failure_is_subjective e \<longleftrightarrow> e \<in> {Subjective_production, Db_error Subjective_block_production, Block_net_usage_exceeded,
     Greylist_net_usage_exceeded, Block_cpu_usage_exceeded, Greylist_cpu_usage_exceeded, Deadline_error, Leeway_deadline_error,
     Actor_whitelist, Actor_blacklist, Contract_whitelist, Contract_blacklist, Action_blacklist, Auth_error Key_blacklist_exception}"

definition scheduled_failure_is_subjective :: "exec_error \<Rightarrow> bool" where
  "scheduled_failure_is_subjective e \<longleftrightarrow> e \<in> {Trx_cpu_usage_exceeded, Rl_error Tx_cpu_usage_exceeded} \<or> failure_is_subjective e"

definition push_receipt :: "digest \<Rightarrow> trx_status \<Rightarrow> int \<Rightarrow> int \<Rightarrow> pending_state \<Rightarrow> exec_error + pending_state" where
  "push_receipt trx status cpu net p =
     chk (net div 8 * 8 = net) Transaction_error
      (Inr (p\<lparr>pb_transactions := pb_transactions p @
         [\<lparr>tr_trx = trx, tr_status = status, tr_cpu_usage_us = u32 cpu, tr_net_usage_words = u32 (net div 8)\<rparr>]\<rparr>))"

definition chain_maintain_stat :: name where "chain_maintain_stat = string_to_name ''f.maintain''"
definition onblock_name :: action_name where "onblock_name = string_to_name ''onblock''"
definition onerror_name :: action_name where "onerror_name = string_to_name ''onerror''"

definition is_func_has_open :: "controller \<Rightarrow> chain_state \<Rightarrow> name \<Rightarrow> bool" where
  "is_func_has_open n s typ =
     (let open_num = get_num_config_on_chain (cs_rl s) typ (-1) in
      if open_num < 0 \<or> head_block_num n < 0 then False else head_block_num n \<ge> open_num)"

text \<open>\<open>check_action\<close>: while the chain is in maintenance only three actions are allowed.\<close>

definition check_maintain :: "controller \<Rightarrow> chain_state \<Rightarrow> chain_action list \<Rightarrow> exec_error + unit" where
  "check_maintain n s acts =
     chk (list_all (\<lambda>a. \<not> is_func_has_open n s chain_maintain_stat
         \<or> (act_account a = system_account_name \<and> (act_name a = setconfig_name \<or> act_name a = onblock_name))
         \<or> (act_account a = token_account_name \<and> act_name a = fee_name)) acts) Invalid_action_args (Inr ())"

subsection \<open>Input transactions\<close>

definition init_trx ::
  "controller \<Rightarrow> transaction_metadata \<Rightarrow> bool \<Rightarrow> transaction_context \<Rightarrow> exec_error + transaction_context" where
  "init_trx n m skip_recording t =
     (if tm_implicit m
      then bnd (init_for_implicit_trx n 0 t) (\<lambda>t. Inr (t\<lparr>tx_enforce_whiteblacklist := False\<rparr>))
      else init_for_input_trx n (tm_unprunable_size m) (tm_prunable_size m) skip_recording t)"

text \<open>The body of the inner \<open>try\<close>: the pending block with the receipt, and the state of the chain after the transaction. A
  producing node that does not read speculatively takes everything back.\<close>

definition run_input_trx ::
  "controller \<Rightarrow> transaction_metadata \<Rightarrow> bool \<Rightarrow> transaction_context \<Rightarrow> pending_state \<Rightarrow> exec_error + pending_state" where
  "run_input_trx n m skip_recording t p =
     bnd (init_trx n m skip_recording t) (\<lambda>t.
     let t = t\<lparr>tx_delay := trx_delay_sec (tm_trx m) * 1000000\<rparr> in
     bnd (if \<not> skip_auth_check n \<and> \<not> tm_implicit m
          then lift_auth (check_authorization (c_auth n) (cs_auth (tx_chain t)) (trx_actions (tm_trx m)) (tm_keys m) [] (tx_delay t) False [])
          else Inr ()) (\<lambda>_.
     bnd (if fee_model n \<and> \<not> tm_implicit m then set_fee_data t else Inr t) (\<lambda>t.
     bnd (exec_trx n t) (\<lambda>(_, t).
     bnd (finalize n t) (\<lambda>t.
     bnd (if tm_implicit m then Inr p
          else push_receipt (tm_id m) (if tx_delay t = 0 then Executed else Delayed) (u64 (tx_billed_cpu_time_us t)) (tx_net_usage t) p) (\<lambda>q.
     Inr (if \<not> speculative_reads n \<and> is_producing_block n then p
          else q\<lparr>pb_actions := pb_actions q @ tx_executed t, pb_chain := tx_chain t\<rparr>)))))))"

text \<open>The exception of the trace, and the pending block.\<close>

definition push_transaction ::
  "controller \<Rightarrow> transaction_metadata \<Rightarrow> int \<Rightarrow> int \<Rightarrow> bool \<Rightarrow> bool \<Rightarrow> pending_state \<Rightarrow> exec_error + exec_error option \<times> pending_state" where
  "push_transaction n m deadline billed explicit skip_recording p =
     chk (deadline \<noteq> 0) Transaction_error
     (bnd (check_maintain n (pb_chain p) (trx_actions (tm_trx m))) (\<lambda>_.
      bnd (new_context (tm_trx m) (tm_id m) (snd (clock n 0)) (pb_chain p)) (\<lambda>t.
      let t = (case subjective_cpu_leeway n of
                 Some l \<Rightarrow> if is_producing_block n then t\<lparr>tx_leeway := l\<rparr> else t
               | None \<Rightarrow> t);
          t = t\<lparr>tx_deadline := deadline, tx_explicit_billed_cpu_time := explicit, tx_billed_cpu_time_us := billed\<rparr> in
      case run_input_trx n m skip_recording t p of
        Inl e \<Rightarrow> Inr (Some e, p)
      | Inr q \<Rightarrow> Inr (None, q))))"

subsection \<open>Generated transactions\<close>

definition remove_scheduled_transaction :: "digest \<times> deferred_transaction \<Rightarrow> chain_state \<Rightarrow> exec_error + chain_state" where
  "remove_scheduled_transaction g s =
     bnd (lift_rl (add_pending_ram_usage (def_payer (snd g)) (- (generated_transaction_size + def_packed_size (snd g))) (cs_rl s))) (\<lambda>r.
     Inr (s\<lparr>cs_rl := r, cs_auth := (cs_auth s)\<lparr>deferred := filter (\<lambda>x. fst x \<noteq> fst g) (deferred (cs_auth s))\<rparr>\<rparr>))"

definition onerror_trx :: "controller \<Rightarrow> deferred_transaction \<Rightarrow> transaction" where
  "onerror_trx n g =
     \<lparr>trx_expiration = (pending_block_time n + 999999) div 1000000, trx_ref_block_num = fst (head_reference n),
      trx_ref_block_prefix = snd (head_reference n), trx_max_net_usage_words = 0, trx_max_cpu_usage_ms = 0, trx_delay_sec = 0,
      trx_context_free_actions = [],
      trx_actions = [\<lparr>act_account = system_account_name, act_name = onerror_name, act_authorization = [(def_sender g, active_name)],
        act_data = Onerror (def_sender_id g) (trx_pack n (def_trx g))\<rparr>], trx_extensions = []\<rparr>"

definition run_onerror ::
  "controller \<Rightarrow> digest \<times> deferred_transaction \<Rightarrow> transaction_context \<Rightarrow> pending_state \<Rightarrow> exec_error + pending_state" where
  "run_onerror n g t p =
     bnd (init_for_implicit_trx n 0 t) (\<lambda>t.
     let t = t\<lparr>tx_published := def_published (snd g)\<rparr> in
     bnd (exec_action n 0 False (hd (trx_actions (tx_trx t))) (def_sender (snd g)) t) (\<lambda>(_, t).
     bnd (finalize n t) (\<lambda>t.
     bnd (push_receipt (fst g) Soft_fail (u64 (tx_billed_cpu_time_us t)) (tx_net_usage t) p) (\<lambda>p.
     Inr (p\<lparr>pb_actions := pb_actions p @ tx_executed t, pb_chain := tx_chain t\<rparr>)))))"

definition apply_onerror ::
  "controller \<Rightarrow> digest \<times> deferred_transaction \<Rightarrow> int \<Rightarrow> int \<Rightarrow> int \<Rightarrow> bool \<Rightarrow> bool \<Rightarrow> pending_state \<Rightarrow> exec_error + pending_state" where
  "apply_onerror n g deadline start billed explicit enforce p =
     bnd (new_context (onerror_trx n (snd g)) (trx_digest n (onerror_trx n (snd g))) start (pb_chain p)) (\<lambda>t.
     run_onerror n g (t\<lparr>tx_deadline := deadline, tx_explicit_billed_cpu_time := explicit, tx_billed_cpu_time_us := billed,
       tx_enforce_whiteblacklist := enforce\<rparr>) p)"

definition run_scheduled_trx ::
  "controller \<Rightarrow> digest \<times> deferred_transaction \<Rightarrow> transaction_context \<Rightarrow> pending_state \<Rightarrow> exec_error + pending_state" where
  "run_scheduled_trx n g t p =
     bnd (check_maintain n (pb_chain p) (trx_actions (def_trx (snd g)))) (\<lambda>_.
     bnd (init_for_deferred_trx n (def_published (snd g)) t) (\<lambda>t.
     bnd (if fee_model n then set_fee_data t else Inr t) (\<lambda>t.
     bnd (if tx_enforce_whiteblacklist t \<and> is_producing_block n
          then check_actor_list n (conf_lists (tx_chain t)) (tx_bill_to_accounts t) else Inr ()) (\<lambda>_.
     bnd (exec_trx n t) (\<lambda>(_, t).
     bnd (finalize n t) (\<lambda>t.
     bnd (push_receipt (fst g) Executed (u64 (tx_billed_cpu_time_us t)) (tx_net_usage t) p) (\<lambda>p.
     Inr (p\<lparr>pb_actions := pb_actions p @ tx_executed t, pb_chain := tx_chain t\<rparr>))))))))"

text \<open>The accounts and the CPU limit that the context of a failed transaction holds.\<close>

definition failed_limits :: "controller \<Rightarrow> transaction_context \<Rightarrow> account_name list \<times> int" where
  "failed_limits n t =
     (if check_maintain n (tx_chain t) (trx_actions (tx_trx t)) \<noteq> Inr () then ([], 0)
      else (let t = objective_limits n t; billed = tx_billed_cpu_time_us t in
        (if billed > 0 \<and> validate_cpu_usage_to_bill n billed False t \<noteq> Inr () then [] else referenced_actors (trx_actions (tx_trx t)),
         tx_initial_objective_duration_limit t)))"

text \<open>A transaction that failed for good: its accounts pay for the CPU time, as far as they can.\<close>

definition hard_fail ::
  "controller \<Rightarrow> digest \<Rightarrow> transaction_context \<Rightarrow> int \<Rightarrow> bool \<Rightarrow> pending_state \<Rightarrow> exec_error + pending_state" where
  "hard_fail n i t cpu_time explicit p =
     (let (accounts, initial) = failed_limits n t; s = pb_chain p in
      bnd (if explicit then Inr (cpu_time, s)
           else bnd (lift_rl (update_account_usage accounts (pending_slot n) (cs_rl s))) (\<lambda>r.
             let s = s\<lparr>cs_rl := r\<rparr> in
             bnd (max_bandwidth_billed_accounts_can_pay n True (t\<lparr>tx_bill_to_accounts := accounts, tx_chain := s\<rparr>)) (\<lambda>(_, cpu, _, _).
             Inr (u32 (min (min cpu_time cpu) initial), s)))) (\<lambda>(cpu, s).
      bnd (lift_rl (add_transaction_usage accounts cpu 0 (pending_slot n) (cs_rl s))) (\<lambda>r.
      push_receipt i Hard_fail cpu 0 (p\<lparr>pb_chain := s\<lparr>cs_rl := r\<rparr>\<rparr>))))"

text \<open>What remains when the transaction and its error handler have failed with \<open>e\<close>.\<close>

definition retire_failed ::
  "controller \<Rightarrow> digest \<Rightarrow> transaction_context \<Rightarrow> exec_error \<Rightarrow> int \<Rightarrow> bool \<Rightarrow> pending_state \<Rightarrow> pending_state
    \<Rightarrow> exec_error + exec_error option \<times> pending_state" where
  "retire_failed n i t e cpu_time explicit p removed =
     (if (if explicit then failure_is_subjective e else scheduled_failure_is_subjective e) then Inr (Some e, p)
      else bnd (hard_fail n i t cpu_time explicit removed) (\<lambda>q. Inr (Some e, q)))"

text \<open>\<open>now1\<close> and \<open>now2\<close> are the times read when the transaction and when the error handler has failed. Checks are never skipped
  (\<open>in_trx_requiring_checks\<close>).\<close>

definition billed_on_failure :: "controller \<Rightarrow> bool \<Rightarrow> int \<Rightarrow> int \<Rightarrow> int \<Rightarrow> int" where
  "billed_on_failure n explicit billed start now = u32 (if explicit then billed else max (now - start) (min_transaction_cpu_usage n))"

definition push_scheduled_transaction ::
  "controller \<Rightarrow> digest \<Rightarrow> int \<Rightarrow> int \<Rightarrow> bool \<Rightarrow> int \<Rightarrow> int \<Rightarrow> pending_state \<Rightarrow> exec_error + exec_error option \<times> pending_state" where
  "push_scheduled_transaction n0 i deadline billed explicit now1 now2 p =
     need (find (\<lambda>r. fst r = i) (deferred (cs_auth (pb_chain p)))) Unknown_transaction (\<lambda>g.
     bnd (remove_scheduled_transaction g (pb_chain p)) (\<lambda>s.
     let removed = p\<lparr>pb_chain := s\<rparr> in
     chk (def_delay_until (snd g) \<le> pending_block_time n0) Transaction_error
     (if def_expiration (snd g) < pending_block_time n0
      then bnd (push_receipt i Expired billed 0 removed) (\<lambda>q. Inr (None, q))
      else (let n = n0\<lparr>skip_auth_check := False, skip_trx_checks := False\<rparr>; start = snd (clock n 0);
                enforce = (def_sender (snd g) = 0 \<or> \<not> sender_avoids_lists n (def_sender (snd g))) in
        bnd (new_context (def_trx (snd g)) i start s) (\<lambda>t.
        let t = t\<lparr>tx_leeway := 0, tx_deadline := deadline, tx_explicit_billed_cpu_time := explicit, tx_billed_cpu_time_us := billed,
                  tx_enforce_whiteblacklist := enforce\<rparr> in
        case run_scheduled_trx n g t removed of
          Inr q \<Rightarrow> Inr (None, q)
        | Inl e \<Rightarrow>
            (let cpu_time = billed_on_failure n explicit billed start now1 in
             if def_sender (snd g) \<noteq> 0 \<and> \<not> failure_is_subjective e
             then (case apply_onerror n g deadline start billed explicit enforce removed of
                     Inr q \<Rightarrow> Inr (None, q)
                   | Inl e' \<Rightarrow> retire_failed n i t e' (billed_on_failure n explicit billed start now2) explicit p removed)
             else retire_failed n i t e cpu_time explicit p removed))))))"

end
