(* ===== verification/Exec_Invariant.thy ===== *)
theory Exec_Invariant
  imports Push_Transaction
begin

text \<open>
  Invariants of the execution of a transaction. The locale \<open>exec_invariant\<close> is the contract between the execution and a property of
  the state: what every host function, every native action and every piece of bookkeeping keeps, the whole execution
  keeps, for all contracts and any nesting of notifications and inline actions. The theories that follow interpret it.
\<close>

subsection \<open>Typing of the data of contracts\<close>

definition auth_size :: "controller \<Rightarrow> authority \<Rightarrow> int" where
  "auth_size n a = get_billable_size (key_pack_size n) a"

fun data_typed :: "controller \<Rightarrow> native_data \<Rightarrow> bool" where
  "data_typed n (Newaccount _ _ owner active) \<longleftrightarrow> auth_size n owner < 2 ^ 60 \<and> auth_size n active < 2 ^ 60"
| "data_typed n (Setcode _ _ _ code) \<longleftrightarrow> int (length code) < 2 ^ 32"
| "data_typed n (Setabi _ abi) \<longleftrightarrow> int (length abi) < 2 ^ 32"
| "data_typed n (Updateauth up) \<longleftrightarrow> auth_size n (up_auth up) < 2 ^ 60"
| "data_typed n _ \<longleftrightarrow> True"

definition action_typed :: "controller \<Rightarrow> chain_action \<Rightarrow> bool" where
  "action_typed n a \<longleftrightarrow> data_typed n (act_data a) \<and> data_ok (act_data a)"

definition trx_typed :: "controller \<Rightarrow> transaction \<Rightarrow> bool" where
  "trx_typed n trx \<longleftrightarrow> list_all (action_typed n) (trx_context_free_actions trx) \<and> list_all (action_typed n) (trx_actions trx)"

definition int64_range :: "int \<Rightarrow> bool" where
  "int64_range v \<longleftrightarrow> INT64_MIN \<le> v \<and> v \<le> INT64_MAX"

fun call_typed :: "controller \<Rightarrow> host_call \<Rightarrow> bool" where
  "call_typed n (Db_call c) \<longleftrightarrow> call_ok c"
| "call_typed n (Send_inline a) \<longleftrightarrow> action_typed n a"
| "call_typed n (Send_context_free_inline a) \<longleftrightarrow> action_typed n a"
| "call_typed n (Send_deferred i p trx r) \<longleftrightarrow> trx_typed n trx"
| "call_typed n (Set_limits a ram net cpu) \<longleftrightarrow> int64_range ram \<and> int64_range net \<and> int64_range cpu"
| "call_typed n _ \<longleftrightarrow> True"

primrec program_typed :: "controller \<Rightarrow> program \<Rightarrow> bool" where
  "program_typed n Finish \<longleftrightarrow> True"
| "program_typed n Fail \<longleftrightarrow> True"
| "program_typed n (Call c k) \<longleftrightarrow> call_typed n c \<and> (\<forall>x. program_typed n (k x))"

text \<open>The contracts of the chain respect the types of the host functions; a packed transaction has less than \<open>2 ^ 32\<close> bytes.\<close>

definition node_typed :: "controller \<Rightarrow> bool" where
  "node_typed n \<longleftrightarrow> (\<forall>c r a cf. program_typed n (contract n c r a cf)) \<and> (\<forall>trx. int (length (trx_pack n trx)) < 2 ^ 32)"

definition context_typed :: "controller \<Rightarrow> exec_context \<Rightarrow> bool" where
  "context_typed n x \<longleftrightarrow> action_typed n (ex_act x) \<and> list_all (action_typed n) (ex_inline_actions x)
     \<and> list_all (action_typed n) (ex_cfa_inline_actions x)"

subsection \<open>What the operations leave alone\<close>

lemma lift_Inr [res_simps]:
  "lift_db r1 = Inr v1 \<longleftrightarrow> r1 = Inr v1" "lift_auth r2 = Inr v2 \<longleftrightarrow> r2 = Inr v2" "lift_rl r3 = Inr v3 \<longleftrightarrow> r3 = Inr v3"
  by (auto simp: lift_db_def lift_auth_def lift_rl_def split: sum.splits)

text \<open>The action and the requests of the running context.\<close>

definition same_frame :: "exec_context \<Rightarrow> exec_context \<Rightarrow> bool" where
  "same_frame x y \<longleftrightarrow> ex_act y = ex_act x \<and> ex_context_free y = ex_context_free x \<and> ex_notified y = ex_notified x
     \<and> ex_inline_actions y = ex_inline_actions x \<and> ex_cfa_inline_actions y = ex_cfa_inline_actions x"

lemma same_frame_refl: "same_frame x x"
  by (simp add: same_frame_def)

lemma same_frame_trans: "same_frame x y \<Longrightarrow> same_frame y z \<Longrightarrow> same_frame x z"
  by (simp add: same_frame_def)

lemma same_frame_on_db: "on_db f x = Inr y \<Longrightarrow> same_frame x y"
  by (auto simp: on_db_def res_simps same_frame_def)

lemma same_frame_charge: "charge_ram effs x = Inr y \<Longrightarrow> same_frame x y"
  unfolding charge_ram_def
  by (erule for_each_inv [where P = "same_frame x"])
    (auto simp: same_frame_refl intro: same_frame_trans dest: same_frame_on_db)

lemma same_frame_set [simp]: "same_frame x (set_chain f y) = same_frame x y" "same_frame x (set_auth d y) = same_frame x y"
  "same_frame x (y\<lparr>ax := a\<rparr>) = same_frame x y" "same_frame x (y\<lparr>ex_trx := t\<rparr>) = same_frame x y"
  by (simp_all add: same_frame_def set_chain_def set_auth_def)

lemma same_frame_set_left [simp]: "same_frame (set_chain f x) y = same_frame x y" "same_frame (set_auth d x) y = same_frame x y"
  "same_frame (x\<lparr>ax := a\<rparr>) y = same_frame x y" "same_frame (x\<lparr>ex_trx := t\<rparr>) y = same_frame x y"
  by (simp_all add: same_frame_def set_chain_def set_auth_def)

lemma schedule_deferredE:
  assumes "schedule_deferred_transaction n i payer trx r x = Inr y"
  obtains t d where "add_net_usage n (base_per_transaction_net_usage n + transaction_id_net_usage) (ex_trx x) = Inr t"
    and "store_generated n r (trx_digest n (stamped n trx))
       (generated_transaction n (receiver (ax x)) i payer (trx_delay_sec trx * 1000000) (stamped n trx)) (ex_auth (x\<lparr>ex_trx := t\<rparr>)) = Inr d"
    and "on_db (add_ram_usage payer (generated_transaction_size + int (length (trx_pack n (stamped n trx))))) (set_auth d (x\<lparr>ex_trx := t\<rparr>)) = Inr y"
proof -
  have "trx_delay_sec (stamped n trx) = trx_delay_sec trx" by (simp add: stamped_def)
  then show ?thesis
    using assms that unfolding schedule_deferred_transaction_def Let_def
    by (auto simp: res_simps generated_transaction_def)
qed

lemma same_frame_schedule: "schedule_deferred_transaction n i p trx r x = Inr y \<Longrightarrow> same_frame x y"
  by (elim schedule_deferredE) (drule same_frame_on_db, simp)

lemma same_frame_cancel: "cancel_deferred i x = Inr y \<Longrightarrow> same_frame x y"
  by (auto simp: cancel_deferred_def Let_def split: prod.splits dest!: same_frame_charge simp: same_frame_def set_auth_def set_chain_def)

lemma same_frame_limits: "set_resource_limits a ram net cpu x = Inr y \<Longrightarrow> same_frame x y"
  by (auto simp: set_resource_limits_def res_simps Let_def insert_validate_ram_def same_frame_def split: if_splits)

lemma same_frame_native:
  assumes "run_native n x = Inr y"
  shows "same_frame x y"
proof -
  have g: "set_guaranteed_minimum_config c z = Inr y \<Longrightarrow> same_frame z y" for c z
    by (auto simp: set_guaranteed_minimum_config_def Let_def res_simps same_frame_def set_chain_def split: if_splits)
  have c: "same_frame x (set_list_config_on_chain c (set_config_on_chain c x))" for c
    by (auto simp: set_list_config_on_chain_def set_config_on_chain_def same_frame_def set_chain_def)
  have r: "same_frame z z'" if "ex_require_authorization a z = Inr z'" for a z z'
    using that by (auto simp: ex_require_authorization_def res_simps same_frame_refl)
  have o: "same_frame z z'" if "open_account a z = Inr z'" for a z z'
    using that by (auto simp: open_account_def res_simps same_frame_refl)
  show ?thesis
    using assms unfolding run_native_def Let_def
    apply (auto simp: res_simps apply_setconfig_def apply_setfee_def split: native_data.splits if_splits dest!: g same_frame_charge o r intro: same_frame_trans [OF c])
    apply (auto simp: same_frame_def set_auth_def set_chain_def)
    done
qed

lemma add_receiptE:
  assumes "add_receipt n x = Inr (r, y)"
  obtains q acc m where "next_recv_sequence (receiver (ax (snd (next_global_sequence x)))) (snd (next_global_sequence x)) = Inr q"
    and "tbl_find (db_accounts (ex_auth (snd q))) (act_account (ex_act (snd q))) = Some acc"
    and "for_each (\<lambda>auth (m, x). bnd (next_auth_sequence (fst auth) x) (\<lambda>(v, x). Inr (tbl_put (fst auth) v m, x)))
             (act_authorization (ex_act (snd q))) ([], snd q) = Inr m"
    and "r = \<lparr>r_receiver = receiver (ax (snd m)), r_act_digest = action_digest n (ex_act (snd m)), r_global_sequence = fst (next_global_sequence x),
         r_recv_sequence = fst q, r_auth_sequence = fst m, r_code_sequence = u32 (acc_code_sequence acc), r_abi_sequence = u32 (acc_abi_sequence acc)\<rparr>"
    and "y = (snd m)\<lparr>ex_trx := (ex_trx (snd m))\<lparr>tx_executed := tx_executed (ex_trx (snd m)) @ [r]\<rparr>\<rparr>"
proof -
  show ?thesis
    using assms unfolding add_receipt_def Let_def case_prod_beta bnd_Inr need_Inr
    by (elim exE conjE) (rule that, assumption, assumption, unfold case_prod_beta, assumption, auto)
qed

lemma same_frame_receipt:
  assumes "add_receipt n x = Inr (r, y)"
  shows "same_frame x y" "ax y = ax x"
proof -
  have loop: "same_frame z (snd p') \<and> ax (snd p') = ax z"
    if "for_each (\<lambda>auth (m, x). bnd (next_auth_sequence (fst auth) x) (\<lambda>(v, x). Inr (tbl_put (fst auth) v m, x))) as p = Inr p'"
      "same_frame z (snd p) \<and> ax (snd p) = ax z" for z as p p'
    by (rule for_each_inv [OF that(1), where P = "\<lambda>p. same_frame z (snd p) \<and> ax (snd p) = ax z", OF that(2)])
      (auto simp: next_auth_sequence_def res_simps Let_def split: prod.splits, (simp_all add: set_chain_def same_frame_def)?)
  show "same_frame x y" "ax y = ax x"
    using assms
    by (auto simp: add_receipt_def next_global_sequence_def next_recv_sequence_def Let_def res_simps split: prod.splits
        dest!: loop [where z = x]) (simp_all add: set_chain_def same_frame_def)
qed

lemma context_typed_frame: "same_frame x y \<Longrightarrow> context_typed n x \<Longrightarrow> context_typed n y"
  by (simp add: same_frame_def context_typed_def)

lemma context_typed_host:
  assumes "call_host n c x = Inr y" "call_typed n c" "context_typed n x"
  shows "context_typed n y" "ex_act y = ex_act x"
proof -
  have h: "host_function n c x = Inr y" using assms(1) by (simp add: call_host_def res_simps)
  have f: "same_frame x y \<Longrightarrow> context_typed n y \<and> ex_act y = ex_act x"
    using context_typed_frame [OF _ assms(3)] by (simp add: same_frame_def)
  have "context_typed n y \<and> ex_act y = ex_act x"
  proof (cases c)
    case (Require_recipient a)
    then show ?thesis using h assms(3) by (auto simp: context_typed_def require_recipient_def)
  next
    case (Send_inline a)
    then show ?thesis using h assms(2,3) by (auto simp: context_typed_def execute_inline_def res_simps)
  next
    case (Send_context_free_inline a)
    then show ?thesis using h assms(2,3) by (auto simp: context_typed_def execute_context_free_inline_def res_simps)
  next
    case (Db_call d)
    then show ?thesis using h same_frame_on_db by (intro f) simp
  next
    case (Send_deferred i p trx r)
    then show ?thesis using h same_frame_schedule by (intro f) simp
  next
    case (Cancel_deferred i)
    then show ?thesis using h same_frame_cancel by (intro f) simp
  next
    case (Set_limits a r1 r2 r3)
    then show ?thesis using h same_frame_limits by (intro f) simp
  next
    case (Require_auth a)
    then show ?thesis using h assms(3) by (auto simp: ex_require_authorization_def res_simps)
  next
    case (Require_auth2 a)
    then show ?thesis using h assms(3) by (auto simp: require_permission_def res_simps)
  next
    case (Set_privileged a b)
    then show ?thesis using h by (intro f) (auto simp: set_privileged_def res_simps same_frame_refl)
  next
    case (Set_need_check_ram_limit a)
    then show ?thesis using h by (intro f) (auto simp: insert_validate_ram_def same_frame_refl)
  next
    case Check_time
    then show ?thesis using h by (intro f) (auto simp: res_simps same_frame_refl)
  qed
  then show "context_typed n y" "ex_act y = ex_act x" by auto
qed

lemma context_typed_open: "action_typed n a \<Longrightarrow> context_typed n (open_context n a rcv cf t)"
  by (simp add: context_typed_def open_context_def)

lemma exec_oneE:
  assumes "exec_one n x = Inr (r, y)"
  obtains a x0 x1 x2 y' where "tbl_find (db_accounts (ex_auth x)) (receiver (ax x)) = Some a"
    and "x0 = x\<lparr>ax := (ax x)\<lparr>privileged := acc_privileged a\<rparr>\<rparr>"
    and "(if find_apply_handler n (receiver (ax x0)) (act_account (ex_act x0)) (act_name (ex_act x0))
       then bnd (check_lists n x0) (\<lambda>_. run_native n x0) else Inr x0) = Inr x1"
    and "(if act_account (ex_act x1) = native_account_name then apply_native_contract x1 else run_code n x1) = Inr x2"
    and "add_receipt n x2 = Inr (r, y')" "y = finalize_trace y'"
proof -
  obtain a where a: "tbl_find (db_accounts (ex_auth x)) (receiver (ax x)) = Some a"
    using assms by (auto simp: exec_one_def res_simps)
  define x0 where "x0 = x\<lparr>ax := (ax x)\<lparr>privileged := acc_privileged a\<rparr>\<rparr>"
  from assms obtain x1 x2 y' where
    "(if find_apply_handler n (receiver (ax x0)) (act_account (ex_act x0)) (act_name (ex_act x0))
       then bnd (check_lists n x0) (\<lambda>_. run_native n x0) else Inr x0) = Inr x1"
    "(if act_account (ex_act x1) = native_account_name then apply_native_contract x1 else run_code n x1) = Inr x2"
    "add_receipt n x2 = Inr (r, y')" "y = finalize_trace y'"
    unfolding exec_one_def Let_def a need.simps x0_def [symmetric] bnd_Inr split_beta
    by (elim exE conjE) (metis Inr_inject fst_conv prod.collapse snd_conv)
  from that [OF a x0_def this] show ?thesis .
qed

subsection \<open>The locale\<close>

locale exec_invariant =
  fixes n :: controller
    and P :: "transaction_context \<Rightarrow> bool"
    and Q :: "exec_context \<Rightarrow> bool"
  assumes opened: "P t \<Longrightarrow> Q (open_context n a rcv cf t)"
    and received: "Q x \<Longrightarrow> Q (x\<lparr>ax := (ax x)\<lparr>receiver := r\<rparr>\<rparr>)"
    and privileged_set: "Q x \<Longrightarrow> Q (x\<lparr>ax := (ax x)\<lparr>privileged := b\<rparr>\<rparr>)"
    and host: "Q x \<Longrightarrow> call_typed n c \<Longrightarrow> call_host n c x = Inr y \<Longrightarrow> Q y"
    and native: "Q x \<Longrightarrow> action_typed n (ex_act x) \<Longrightarrow> run_native n x = Inr y \<Longrightarrow> Q y"
    and receipt: "Q x \<Longrightarrow> add_receipt n x = Inr (rc, y) \<Longrightarrow> Q (finalize_trace y)"
    and closed: "Q x \<Longrightarrow> P (close_context x)"
    and fee: "P t \<Longrightarrow> process_fee n a t = Inr t' \<Longrightarrow> P t'"
    and node: "Q x \<Longrightarrow> node_typed n"
begin

lemma run_program_keeps:
  assumes "run_program n p x = Inr y" "program_typed n p" "Q x" "context_typed n x"
  shows "Q y" "context_typed n y" "ex_act y = ex_act x"
proof -
  have "Q y \<and> context_typed n y \<and> ex_act y = ex_act x"
    using assms
  proof (induction p arbitrary: x)
    case (Call c k)
    then obtain z where z: "call_host n c x = Inr z" "run_program n (k z) z = Inr y" by (auto simp: res_simps)
    then show ?case
      using Call.IH [of "k z" z] Call.prems(2,3,4) host [OF Call.prems(3) _ z(1)] context_typed_host [OF z(1)] by auto
  qed simp_all
  then show "Q y" "context_typed n y" "ex_act y = ex_act x" by auto
qed

lemma exec_one_keeps:
  assumes "exec_one n x = Inr (r, y)" "Q x" "context_typed n x"
  shows "Q y" "context_typed n y"
proof -
  obtain a x0 x1 x2 y' where "tbl_find (db_accounts (ex_auth x)) (receiver (ax x)) = Some a"
    and x0: "x0 = x\<lparr>ax := (ax x)\<lparr>privileged := acc_privileged a\<rparr>\<rparr>"
    and x1: "(if find_apply_handler n (receiver (ax x0)) (act_account (ex_act x0)) (act_name (ex_act x0))
       then bnd (check_lists n x0) (\<lambda>_. run_native n x0) else Inr x0) = Inr x1"
    and x2: "(if act_account (ex_act x1) = native_account_name then apply_native_contract x1 else run_code n x1) = Inr x2"
    and y': "add_receipt n x2 = Inr (r, y')" "y = finalize_trace y'"
    by (rule exec_oneE [OF assms(1)])
  have 0: "Q x0" "context_typed n x0" "action_typed n (ex_act x0)"
    unfolding x0 using privileged_set [OF assms(2)] assms(3) by (simp_all add: context_typed_def)
  have 1: "Q x1" "context_typed n x1"
    using x1 0 native [OF 0(1,3)] context_typed_frame [OF same_frame_native 0(2)]
    by (auto simp: res_simps split: if_splits)
  have 2: "Q x2 \<and> context_typed n x2"
  proof (cases "act_account (ex_act x1) = native_account_name")
    case True
    then show ?thesis using x2 1 by (auto simp: apply_native_contract_def res_simps)
  next
    case False
    then show ?thesis using x2 1 node [OF 1(1)] run_program_keeps by (auto simp: run_code_def res_simps node_typed_def split: if_splits)
  qed
  show "Q y" using receipt [OF _ y'(1)] 2 y'(2) by simp
  show "context_typed n y"
    using 2 context_typed_frame [OF same_frame_receipt(1) [OF y'(1)]] y'(2) by (simp add: finalize_trace_def context_typed_def)
qed

lemma exec_notified_keeps:
  assumes "exec_notified n fuel i (ts, x) = Inr (ts', y)" "Q x" "context_typed n x"
  shows "Q y \<and> context_typed n y"
  using assms
proof (induction fuel arbitrary: i ts x)
  case 0
  then show ?case by (subst (asm) exec_notified.simps) (auto split: if_splits)
next
  case (Suc f)
  show ?case
  proof (cases "i < length (ex_notified x)")
    case True
    let ?x = "x\<lparr>ax := (ax x)\<lparr>receiver := ex_notified x ! i\<rparr>\<rparr>"
    obtain r z where z: "exec_one n ?x = Inr (r, z)"
      "exec_notified n f (Suc i) (ts @ [Action_trace r (ex_act z) (ex_context_free z) []], z) = Inr (ts', y)"
      using Suc.prems(1) True by (subst (asm) exec_notified.simps) (auto simp: res_simps)
    have "Q ?x" "context_typed n ?x" using received Suc.prems(2,3) by (simp_all add: context_typed_def)
    then show ?thesis using Suc.IH [OF z(2)] exec_one_keeps [OF z(1)] by blast
  next
    case False
    then show ?thesis using Suc.prems by (subst (asm) exec_notified.simps) auto
  qed
qed

lemma exec_receivers_keeps:
  assumes "exec_receivers n a rcv cf t = Inr (r, ts, x)" "P t" "action_typed n a"
  shows "Q x" "context_typed n x"
proof -
  obtain y where y: "exec_one n (open_context n a rcv cf t) = Inr (r, y)"
    "exec_notified n (length (db_accounts (ex_auth y))) 1 ([], y) = Inr (ts, x)"
    using assms(1) unfolding exec_receivers_def by (auto simp: res_simps)
  show "Q x" "context_typed n x"
    using exec_one_keeps [OF y(1) opened [OF assms(2)] context_typed_open [OF assms(3)]] exec_notified_keeps [OF y(2)] by blast+
qed

lemma exec_action_keeps:
  assumes "exec_action n depth cf a rcv t = Inr (tr, t')" "P t" "action_typed n a"
  shows "P t'"
  using assms
proof (induction "max_inline_action_depth n - depth" arbitrary: depth cf a rcv t tr t' rule: less_induct)
  case less
  obtain r nts x ts1 t1 ts2 where x: "exec_receivers n a rcv cf t = Inr (r, nts, x)"
    and d: "ex_cfa_inline_actions x = [] \<and> ex_inline_actions x = [] \<or> depth < max_inline_action_depth n"
    and l1: "for_each (\<lambda>b (ts, t). bnd (process_fee n b t) (\<lambda>t.
             bnd (exec_action n (Suc depth) True b (act_account b) t) (\<lambda>(tr, t). Inr (ts @ [tr], t))))
           (ex_cfa_inline_actions x) (nts, close_context x) = Inr (ts1, t1)"
    and l2: "for_each (\<lambda>b (ts, t). bnd (process_fee n b t) (\<lambda>t.
             bnd (exec_action n (Suc depth) False b (act_account b) t) (\<lambda>(tr, t). Inr (ts @ [tr], t))))
           (ex_inline_actions x) (ts1, t1) = Inr (ts2, t')"
    using less.prems(1) by (subst (asm) exec_action.simps) (auto simp: res_simps)
  note k = exec_receivers_keeps [OF x less.prems(2,3)]
  have loop: "P (snd q')"
    if "for_each (\<lambda>b (ts, t). bnd (process_fee n b t) (\<lambda>t.
             bnd (exec_action n (Suc depth) c b (act_account b) t) (\<lambda>(tr, t). Inr (ts @ [tr], t)))) bs q = Inr q'"
      "P (snd q)" "bs \<noteq> [] \<longrightarrow> depth < max_inline_action_depth n" "list_all (action_typed n) bs" for bs c q q'
  proof (rule for_each_inv [OF that(1), where P = "\<lambda>q. P (snd q)", OF that(2)])
    fix b q q'
    assume b: "b \<in> set bs" and p: "P (snd q)"
      and q: "(\<lambda>(ts, t). bnd (process_fee n b t) (\<lambda>t.
             bnd (exec_action n (Suc depth) c b (act_account b) t) (\<lambda>(tr, t). Inr (ts @ [tr], t)))) q = Inr q'"
    obtain tb tr where e: "process_fee n b (snd q) = Inr tb" "exec_action n (Suc depth) c b (act_account b) tb = Inr (tr, snd q')"
      using q by (cases q) (auto simp: res_simps)
    show "P (snd q')"
      using less.hyps [OF _ e(2) fee [OF p e(1)]] b that(3,4) by (auto simp: list_all_iff)
  qed
  have "P t1"
    using loop [OF l1] closed [OF k(1)] d k(2) by (auto simp: context_typed_def)
  then show ?case
    using loop [OF l2] d k(2) by (auto simp: context_typed_def)
qed

lemma exec_actions_keeps:
  assumes "exec_actions n cf as q = Inr q'" "P (snd q)" "list_all (action_typed n) as"
  shows "P (snd q')"
proof (rule for_each_inv [OF assms(1) [unfolded exec_actions_def], where P = "\<lambda>q. P (snd q)", OF assms(2)])
  fix a q q'
  assume a: "a \<in> set as" and p: "P (snd q)"
    and q: "(\<lambda>(ts, t). bnd (process_fee n a t) (\<lambda>t. dispatch_action n cf a (ts, t))) q = Inr q'"
  obtain t tr where e: "process_fee n a (snd q) = Inr t" "exec_action n 0 cf a (act_account a) t = Inr (tr, snd q')"
    using q by (cases q) (auto simp: res_simps dispatch_action_def)
  show "P (snd q')" using exec_action_keeps [OF e(2) fee [OF p e(1)]] a assms(3) by (simp add: list_all_iff)
qed

end


subsection \<open>What execution leaves alone\<close>

text \<open>The fields of a transaction context but for the ones that execution changes.\<close>

definition trx_frame :: "chain_state \<Rightarrow> transaction_context \<Rightarrow> transaction_context" where
  "trx_frame s t = t\<lparr>tx_executed := [], tx_validate_ram_usage := [], tx_fee_costed := node_asset 0, tx_net_usage := 0,
     tx_cpu_limit_by_contract := 0, tx_net_limit_by_contract := 0, tx_use_limit_by_contract := False, tx_ticks := 0, tx_chain := s\<rparr>"

definition trx_framed :: "controller \<Rightarrow> chain_state \<Rightarrow> transaction_context \<Rightarrow> transaction_context \<Rightarrow> bool" where
  "trx_framed n s f t \<longleftrightarrow> node_typed n \<and> trx_frame s t = f"

lemma trx_frame_simps [simp]:
  "trx_frame s (t\<lparr>tx_executed := e\<rparr>) = trx_frame s t" "trx_frame s (t\<lparr>tx_validate_ram_usage := v\<rparr>) = trx_frame s t"
  "trx_frame s (t\<lparr>tx_fee_costed := c\<rparr>) = trx_frame s t" "trx_frame s (t\<lparr>tx_net_usage := u\<rparr>) = trx_frame s t"
  "trx_frame s (t\<lparr>tx_ticks := k\<rparr>) = trx_frame s t" "trx_frame s (t\<lparr>tx_chain := s'\<rparr>) = trx_frame s t"
  "trx_frame s (t\<lparr>tx_cpu_limit_by_contract := l\<rparr>) = trx_frame s t" "trx_frame s (t\<lparr>tx_net_limit_by_contract := l\<rparr>) = trx_frame s t"
  "trx_frame s (t\<lparr>tx_use_limit_by_contract := b\<rparr>) = trx_frame s t"
  by (simp_all add: trx_frame_def)

lemma trx_frame_eqD:
  assumes "trx_frame s t = trx_frame s t'"
  shows "tx_trx t = tx_trx t'" "tx_id t = tx_id t'" "tx_bill_to_accounts t = tx_bill_to_accounts t'" "tx_delay t = tx_delay t'"
    "tx_is_input t = tx_is_input t'" "tx_fee_payer t = tx_fee_payer t'" "tx_net_limit t = tx_net_limit t'"
    "tx_objective_duration_limit t = tx_objective_duration_limit t'" "tx_is_initialized t = tx_is_initialized t'"
    "tx_enforce_whiteblacklist t = tx_enforce_whiteblacklist t'" "tx_published t = tx_published t'"
  using arg_cong [OF assms, of tx_trx] arg_cong [OF assms, of tx_id] arg_cong [OF assms, of tx_bill_to_accounts]
    arg_cong [OF assms, of tx_delay] arg_cong [OF assms, of tx_is_input] arg_cong [OF assms, of tx_fee_payer]
    arg_cong [OF assms, of tx_net_limit] arg_cong [OF assms, of tx_objective_duration_limit]
    arg_cong [OF assms, of tx_is_initialized] arg_cong [OF assms, of tx_enforce_whiteblacklist]
    arg_cong [OF assms, of tx_published]
  by (simp_all add: trx_frame_def)

lemma frame_set [simp]: "trx_frame s (ex_trx (set_chain f x)) = trx_frame s (ex_trx x)" "trx_frame s (ex_trx (set_auth d x)) = trx_frame s (ex_trx x)"
  by (simp_all add: set_chain_def set_auth_def)

lemma on_db_trx: "on_db f x = Inr y \<Longrightarrow> ex_trx y = ex_trx x"
  by (auto simp: on_db_def res_simps)

lemma charge_trx: "charge_ram effs x = Inr y \<Longrightarrow> ex_trx y = ex_trx x"
  unfolding charge_ram_def by (erule for_each_inv [where P = "\<lambda>y. ex_trx y = ex_trx x"]) (auto dest: on_db_trx)

lemma net_usage_frame: "add_net_usage n u t = Inr t' \<Longrightarrow> trx_frame s t' = trx_frame s t"
  by (auto simp: add_net_usage_def Let_def res_simps)

lemma frame_host:
  assumes "call_host n c x = Inr y"
  shows "trx_frame s (ex_trx y) = trx_frame s (ex_trx x)"
proof -
  have h: "host_function n c x = Inr y" using assms by (simp add: call_host_def res_simps)
  show ?thesis
  proof (cases c)
    case (Db_call d)
    then show ?thesis using h on_db_trx by simp
  next
    case (Send_deferred i p trx r)
    have "schedule_deferred_transaction n i p trx r x = Inr y" using h Send_deferred by simp
    then show ?thesis by (elim schedule_deferredE) (drule on_db_trx, drule net_usage_frame [where s = s], simp)
  next
    case (Cancel_deferred i)
    then show ?thesis using h by (auto simp: cancel_deferred_def split: prod.splits dest!: charge_trx)
  next
    case (Set_limits a r1 r2 r3)
    then show ?thesis using h by (auto simp: set_resource_limits_def Let_def insert_validate_ram_def res_simps split: if_splits)
  next
    case Check_time
    then show ?thesis using h by (auto simp: checktime_def read_clock_def res_simps split: prod.splits if_splits)
  qed (use h in \<open>auto simp: ex_require_authorization_def require_permission_def require_recipient_def execute_inline_def
      execute_context_free_inline_def set_privileged_def insert_validate_ram_def res_simps\<close>)
qed


lemma frame_native:
  assumes "run_native n x = Inr y"
  shows "trx_frame s (ex_trx y) = trx_frame s (ex_trx x)"
proof -
  have o: "open_account a z = Inr z' \<Longrightarrow> trx_frame s (ex_trx z') = trx_frame s (ex_trx z)" for a z z'
    by (auto simp: open_account_def res_simps)
  have c: "trx_frame s (ex_trx (set_list_config_on_chain c (set_config_on_chain c z))) = trx_frame s (ex_trx z)" for c z
    by (simp add: set_list_config_on_chain_def set_config_on_chain_def)
  have g: "set_guaranteed_minimum_config c z = Inr z' \<Longrightarrow> trx_frame s (ex_trx z') = trx_frame s (ex_trx z)" for c z z'
    by (auto simp: set_guaranteed_minimum_config_def Let_def res_simps split: if_splits)
  have f: "apply_setfee c z = Inr z' \<Longrightarrow> trx_frame s (ex_trx z') = trx_frame s (ex_trx z)" for c z z'
    by (auto simp: apply_setfee_def ex_require_authorization_def res_simps split: if_splits)
  show ?thesis
    using assms unfolding run_native_def Let_def
    by (auto simp: res_simps apply_setconfig_def c split: native_data.splits dest!: g f charge_trx o)
qed

lemma frame_receipt:
  assumes "add_receipt n x = Inr (r, y)"
  shows "trx_frame s (ex_trx y) = trx_frame s (ex_trx x)"
proof -
  have recv: "next_recv_sequence a z = Inr q \<Longrightarrow> trx_frame s (ex_trx (snd q)) = trx_frame s (ex_trx z)" for a z q
    by (auto simp: next_recv_sequence_def Let_def res_simps)
  have auth: "next_auth_sequence a z = Inr q \<Longrightarrow> trx_frame s (ex_trx (snd q)) = trx_frame s (ex_trx z)" for a z q
    by (auto simp: next_auth_sequence_def Let_def res_simps)
  obtain q acc m where q: "next_recv_sequence (receiver (ax (snd (next_global_sequence x)))) (snd (next_global_sequence x)) = Inr q"
    and "tbl_find (db_accounts (ex_auth (snd q))) (act_account (ex_act (snd q))) = Some acc"
    and m: "for_each (\<lambda>auth (m, x). bnd (next_auth_sequence (fst auth) x) (\<lambda>(v, x). Inr (tbl_put (fst auth) v m, x)))
             (act_authorization (ex_act (snd q))) ([], snd q) = Inr m"
    and "r = \<lparr>r_receiver = receiver (ax (snd m)), r_act_digest = action_digest n (ex_act (snd m)), r_global_sequence = fst (next_global_sequence x),
         r_recv_sequence = fst q, r_auth_sequence = fst m, r_code_sequence = u32 (acc_code_sequence acc), r_abi_sequence = u32 (acc_abi_sequence acc)\<rparr>"
    and y: "y = (snd m)\<lparr>ex_trx := (ex_trx (snd m))\<lparr>tx_executed := tx_executed (ex_trx (snd m)) @ [r]\<rparr>\<rparr>"
    by (rule add_receiptE [OF assms])
  have "trx_frame s (ex_trx (snd m)) = trx_frame s (ex_trx (snd q))"
    by (rule for_each_inv [OF m, where P = "\<lambda>p. trx_frame s (ex_trx (snd p)) = trx_frame s (ex_trx (snd q))"])
      (auto simp: res_simps dest!: auth)
  then show ?thesis using recv [OF q] by (simp add: y next_global_sequence_def Let_def)
qed

lemma frame_fee:
  assumes "process_fee n a t = Inr t'"
  shows "trx_frame s t' = trx_frame s t"
proof (cases "fee_model n \<and> tx_fee_payer t \<noteq> 0")
  case True
  then obtain c where "t' = add_limit_by_fee a (t\<lparr>tx_fee_costed := c\<rparr>)"
    using assms unfolding process_fee_def bnd_Inr by (auto simp: bnd_Inr)
  moreover have "trx_frame s (add_limit_by_fee a u) = trx_frame s u" for u
    unfolding add_limit_by_fee_def Let_def case_prod_beta by (cases "tbl_find (action_fees (tx_chain u)) (act_account a, act_name a)") simp_all
  ultimately show ?thesis by simp
qed (use assms in \<open>auto simp: process_fee_def split: if_splits\<close>)

interpretation frm: exec_invariant n "trx_framed n s f" "\<lambda>x. trx_framed n s f (ex_trx x)" for n s f
proof
  show "trx_framed n s f (ex_trx (open_context n a rcv cf t))" if "trx_framed n s f t" for a rcv cf t
    using that by (simp add: open_context_def)
  show "trx_framed n s f (close_context x)" if "trx_framed n s f (ex_trx x)" for x
    using that by (simp add: trx_framed_def close_context_def)
qed (simp_all add: trx_framed_def frame_host frame_native frame_receipt frame_fee finalize_trace_def)

lemma exec_actions_frame:
  assumes "exec_actions n cf as (ts, t) = Inr (ts', t')" "node_typed n" "list_all (action_typed n) as"
  shows "trx_frame s t' = trx_frame s t"
  using frm.exec_actions_keeps [OF assms(1) _ assms(3), of s "trx_frame s t"] assms(2) by (simp add: trx_framed_def)

lemma exec_action_frame:
  assumes "exec_action n d cf a rcv t = Inr (tr, t')" "node_typed n" "action_typed n a"
  shows "trx_frame s t' = trx_frame s t"
  using frm.exec_action_keeps [OF assms(1) _ assms(3), of s "trx_frame s t"] assms(2) by (simp add: trx_framed_def)

end
