(* ===== verification/Exec_Ram.thy ===== *)
theory Exec_Ram
  imports Exec_Invariant
begin

text \<open>
  RAM over whole transactions. The footprint of an account is what the objects it pays for are billed: tables and rows of
  contracts, its account, code and ABI, its permissions and links, and the generated transactions it pays for. Every
  operation charges exactly the change of the footprint.
\<close>

subsection \<open>The footprint in the tables of the authorization manager\<close>

definition account_bytes :: "account_object \<Rightarrow> int" where
  "account_bytes acc = 2 * 1024 + int (length (acc_code acc)) * 10 + int (length (acc_abi acc))"

definition permission_bytes :: "controller \<Rightarrow> permission_object \<Rightarrow> int" where
  "permission_bytes n p = permission_object_size + auth_size n (perm_auth p)"

definition deferred_bytes :: "deferred_transaction \<Rightarrow> int" where
  "deferred_bytes g = generated_transaction_size + def_packed_size g"

definition auth_held :: "controller \<Rightarrow> account_name \<Rightarrow> auth_db \<Rightarrow> int" where
  "auth_held n a db =
     tbl.total (\<lambda>k acc. if k = a then account_bytes acc else 0) (db_accounts db) +
     tbl.total (\<lambda>i p. if perm_owner p = a then permission_bytes n p else 0) (permissions db) +
     tbl.total (\<lambda>k r. if fst k = a then link_object_size else 0) (permission_links db) +
     (\<Sum>r\<leftarrow>deferred db. if def_payer (snd r) = a then deferred_bytes (snd r) else 0)"

definition auth_wf :: "controller \<Rightarrow> auth_db \<Rightarrow> bool" where
  "auth_wf n db \<longleftrightarrow> perms_ok db \<and> tbl_ok (permission_links db) \<and> tbl_ok (db_accounts db) \<and> distinct (map fst (deferred db)) \<and>
     (\<forall>i p. tbl_find (permissions db) i = Some p \<longrightarrow> auth_size n (perm_auth p) < 2 ^ 60) \<and>
     (\<forall>a acc. tbl_find (db_accounts db) a = Some acc \<longrightarrow> int (length (acc_code acc)) < 2 ^ 32 \<and> int (length (acc_abi acc)) < 2 ^ 32) \<and>
     (\<forall>r \<in> set (deferred db). 0 \<le> def_packed_size (snd r) \<and> def_packed_size (snd r) < 2 ^ 32 \<and> trx_typed n (def_trx (snd r)))"

lemma auth_wfD:
  assumes "auth_wf n db"
  shows "perms_ok db" "tbl_ok (permission_links db)" "tbl_ok (db_accounts db)" "distinct (map fst (deferred db))"
    and "tbl_ok (permissions db)"
    and "tbl_find (permissions db) i = Some p \<Longrightarrow> auth_size n (perm_auth p) < 2 ^ 60"
    and "tbl_find (db_accounts db) a = Some acc \<Longrightarrow> int (length (acc_code acc)) < 2 ^ 32"
    and "tbl_find (db_accounts db) a = Some acc \<Longrightarrow> int (length (acc_abi acc)) < 2 ^ 32"
    and "r \<in> set (deferred db) \<Longrightarrow> 0 \<le> def_packed_size (snd r) \<and> def_packed_size (snd r) < 2 ^ 32 \<and> trx_typed n (def_trx (snd r))"
  using assms perms_okD(1) unfolding auth_wf_def by blast+

lemma auth_size_nonneg: "0 \<le> auth_size n a"
  by (simp add: auth_size_def get_billable_size_def)

lemma object_sizes: "permission_object_size = 288" "link_object_size = 144" "generated_transaction_size = 272"
  by (simp_all add: permission_object_size_def link_object_size_def generated_transaction_size_def billable_size_v_def)

definition eff_sum :: "account_name \<Rightarrow> ram_delta list \<Rightarrow> int" where
  "eff_sum a effs = (\<Sum>e\<leftarrow>effs. if fst e = a then snd e else 0)"

lemma eff_sum_simps [simp]: "eff_sum a [] = 0" "eff_sum a (e # es) = (if fst e = a then snd e else 0) + eff_sum a es"
  by (simp_all add: eff_sum_def)

text \<open>What an operation with the charges \<open>effs\<close> must do.\<close>

definition pays :: "controller \<Rightarrow> auth_db \<Rightarrow> auth_db \<Rightarrow> ram_delta list \<Rightarrow> bool" where
  "pays n db db' effs \<longleftrightarrow> auth_wf n db' \<and> (\<forall>a. eff_sum a effs = auth_held n a db' - auth_held n a db) \<and> (\<forall>e \<in> set effs. small (snd e))"

lemma create_permission_held:
  assumes "create_permission now account nm parent auth t db = Inr (i, db')" "auth_wf n db" "perms_ok db'" "auth_size n auth < 2 ^ 60"
  shows "auth_wf n db'" "auth_held n a db' = auth_held n a db + (if account = a then permission_object_size + auth_size n auth else 0)"
    "db_accounts db' = db_accounts db"
proof -
  have f: "tbl_find (permissions db) (next_permission_id db) = None"
    using perms_ok_below [OF auth_wfD(1) [OF assms(2)]] by (cases "tbl_find (permissions db) (next_permission_id db)") force+
  define p where "p = \<lparr>perm_usage_id = next_usage_id db, perm_parent = parent, perm_owner = account, perm_name = nm,
            perm_last_updated = (if t = 0 then now else t), perm_auth = auth\<rparr>"
  have db': "permissions db' = tbl_put (next_permission_id db) p (permissions db)" "permission_links db' = permission_links db"
    "db_accounts db' = db_accounts db" "deferred db' = deferred db"
    using assms(1) by (auto simp: create_permission_def Let_def res_simps p_def)
  note w = auth_wfD [OF assms(2)]
  show "auth_wf n db'"
    using assms(3,4) w unfolding auth_wf_def db' by (auto simp: tbl_simps p_def)
  show "auth_held n a db' = auth_held n a db + (if account = a then permission_object_size + auth_size n auth else 0)"
    unfolding auth_held_def db' using w(5) f by (simp add: tbl_simps p_def permission_bytes_def)
  show "db_accounts db' = db_accounts db" by (rule db')
qed

lemma newaccount_pays:
  assumes "apply_newaccount nc creator a owner active db = Inr (db', effs)" "auth_wf n db" "perms_ok db'"
    "nc_pack_size nc = key_pack_size n" "auth_size n owner < 2 ^ 60" "auth_size n active < 2 ^ 60" "weights_ok owner"
  shows "pays n db db' effs"
proof -
  let ?acc = "\<lparr>acc_privileged = False, acc_creation_date = nc_time nc, acc_last_code_update = 0,
               acc_code_version = zero_digest, acc_code = [], acc_abi = [], acc_code_sequence = 0, acc_abi_sequence = 0\<rparr>"
  let ?db1 = "db\<lparr>db_accounts := tbl_put a ?acc (db_accounts db)\<rparr>"
  obtain oid db2 aid where c: "create_permission (nc_time nc) a owner_name 0 owner 0 ?db1 = Inr (oid, db2)"
    "create_permission (nc_time nc) a active_name oid active 0 db2 = Inr (aid, db')"
    and eff: "effs = [(a, 2 * 1024 + 2 * permission_object_size + auth_size n owner + auth_size n active)]"
    and new: "tbl_find (db_accounts db) a = None" and a: "a \<noteq> 0"
    using assms(1,4) by (auto simp: apply_newaccount_def Authorization.require_authorization_def Let_def res_simps auth_size_def)
  note w = auth_wfD [OF assms(2)]
  have w1: "auth_wf n ?db1"
    using w perms_ok_frame [of ?db1 db] unfolding auth_wf_def by (auto simp: tbl_simps)
  have h1: "auth_held n b ?db1 = auth_held n b db + (if b = a then 2 * 1024 else 0)" for b
    unfolding auth_held_def using w(3) new by (auto simp: tbl_simps account_bytes_def)
  have p2: "perms_ok db2"
    using create_permission_ok [OF auth_wfD(1) [OF w1] c(1) a names_nonzero(1) weights_nonneg_ok [OF assms(7)] parent_ok_0 [OF auth_wfD(1) [OF w1]]] by simp
  note s2 = create_permission_held [OF c(1) w1 p2 assms(5)]
  note s3 = create_permission_held [OF c(2) s2(1) assms(3,6)]
  show ?thesis
    unfolding pays_def eff using s3(1,2) s2(2) h1 assms(5,6) auth_size_nonneg [of n owner] auth_size_nonneg [of n active]
    by (auto simp: small_def object_sizes abs_of_nonneg)
qed


lemma account_pays:
  assumes "auth_wf n db" "tbl_find (db_accounts db) a = Some acc" "db' = db\<lparr>db_accounts := tbl_put a acc' (db_accounts db)\<rparr>"
    "int (length (acc_code acc')) < 2 ^ 32" "int (length (acc_abi acc')) < 2 ^ 32"
    "effs = (if d \<noteq> 0 then [(a, d)] else [])" "d = account_bytes acc' - account_bytes acc"
  shows "pays n db db' effs"
proof -
  note w = auth_wfD [OF assms(1)]
  have "auth_wf n db'"
    unfolding assms(3) using w perms_ok_frame [of "db\<lparr>db_accounts := tbl_put a acc' (db_accounts db)\<rparr>" db] assms(4,5)
    unfolding auth_wf_def by (auto simp: tbl_simps split: if_splits)
  moreover have "eff_sum b effs = auth_held n b db' - auth_held n b db" for b
    unfolding assms(3,6,7) auth_held_def using w(3) assms(2) by (auto simp: tbl_simps)
  moreover have "small d"
    using w(7,8) [OF assms(2)] assms(4,5) unfolding assms(7) by (auto simp: small_def account_bytes_def)
  ultimately show ?thesis unfolding pays_def assms(6) by auto
qed

lemma setcode_pays:
  assumes "apply_setcode nc a vt vv code db = Inr (db', effs)" "auth_wf n db" "int (length code) < 2 ^ 32"
  shows "pays n db db' effs"
proof -
  obtain acc ver where a: "tbl_find (db_accounts db) a = Some acc"
    "db' = db\<lparr>db_accounts := tbl_put a (acc\<lparr>acc_last_code_update := nc_time nc, acc_code_version := ver,
               acc_code := code, acc_code_sequence := acc_code_sequence acc + 1\<rparr>) (db_accounts db)\<rparr>"
    "effs = (if int (length code) * 10 - int (length (acc_code acc)) * 10 \<noteq> 0
       then [(a, int (length code) * 10 - int (length (acc_code acc)) * 10)] else [])"
    using assms(1) by (auto simp: apply_setcode_def Authorization.require_authorization_def Let_def res_simps)
  show ?thesis
    by (rule account_pays [OF assms(2) a(1,2) _ _ a(3)]) (use assms(3) auth_wfD(8) [OF assms(2) a(1)] in \<open>auto simp: account_bytes_def\<close>)
qed

lemma setabi_pays:
  assumes "apply_setabi nc a abi db = Inr (db', effs)" "auth_wf n db" "int (length abi) < 2 ^ 32"
  shows "pays n db db' effs"
proof -
  obtain acc where a: "tbl_find (db_accounts db) a = Some acc"
    "db' = db\<lparr>db_accounts := tbl_put a (acc\<lparr>acc_abi := abi, acc_abi_sequence := acc_abi_sequence acc + 1\<rparr>) (db_accounts db)\<rparr>"
    "effs = (if int (length abi) - int (length (acc_abi acc)) \<noteq> 0 then [(a, int (length abi) - int (length (acc_abi acc)))] else [])"
    using assms(1) by (auto simp: apply_setabi_def Authorization.require_authorization_def Let_def res_simps)
  show ?thesis
    by (rule account_pays [OF assms(2) a(1,2) _ _ a(3)]) (use assms(3) auth_wfD(7) [OF assms(2) a(1)] in \<open>auto simp: account_bytes_def\<close>)
qed

lemma updateauth_pays:
  assumes "apply_updateauth nc up db = Inr (db', effs)" "auth_wf n db" "perms_ok db'" "nc_pack_size nc = key_pack_size n" "auth_size n (up_auth up) < 2 ^ 60"
  shows "pays n db db' effs"
proof (cases "find_by_owner db (up_account up) (up_permission up)")
  case None
  then obtain i j where c: "create_permission (nc_time nc) (up_account up) (up_permission up) i (up_auth up) 0 db = Inr (j, db')"
    "effs = [(up_account up, permission_object_size + auth_size n (up_auth up))]"
    using assms(1,4) by (auto simp: apply_updateauth_def Authorization.require_authorization_def find_permission_def auth_size_def Let_def res_simps)
  show ?thesis
    using create_permission_held(1,2) [OF c(1) assms(2,3,5)] assms(5) auth_size_nonneg [of n "up_auth up"] unfolding pays_def c(2) by (auto simp: small_def object_sizes)
next
  case (Some p)
  then have c: "db' = db\<lparr>permissions := tbl_put (fst p) ((snd p)\<lparr>perm_auth := up_auth up, perm_last_updated := nc_time nc\<rparr>) (permissions db)\<rparr>"
    "effs = [(perm_owner (snd p), auth_size n (up_auth up) - auth_size n (perm_auth (snd p)))]"
    using assms(1,4)
    by (auto simp: apply_updateauth_def Authorization.require_authorization_def find_permission_def auth_size_def modify_permission_def Let_def res_simps)
  note w = auth_wfD [OF assms(2)]
  have f: "tbl_find (permissions db) (fst p) = Some (snd p)" by (rule find_by_owner_Some(1) [OF Some w(5)])
  have "auth_wf n db'"
    using assms(3,5) w unfolding c(1) auth_wf_def by (auto simp: tbl_simps split: if_splits)
  moreover have "eff_sum b effs = auth_held n b db' - auth_held n b db" for b
    unfolding c auth_held_def using w(5) f by (auto simp: tbl_simps permission_bytes_def)
  ultimately show ?thesis
    unfolding pays_def c(2) using w(6) [OF f] assms(5) auth_size_nonneg [of n "up_auth up"] auth_size_nonneg [of n "perm_auth (snd p)"]
    by (auto simp: small_def)
qed

lemma deleteauth_pays:
  assumes "apply_deleteauth nc del db = Inr (db', effs)" "auth_wf n db" "perms_ok db'" "nc_pack_size nc = key_pack_size n"
  shows "pays n db db' effs"
proof -
  note w = auth_wfD [OF assms(2)]
  obtain p where g: "get_permission db (del_account del, del_permission del) = Inr p" and r: "remove_permission p db = Inr db'"
    and eff: "effs = [(del_account del, - (permission_object_size + auth_size n (perm_auth (snd p))))]"
    using assms(1,4) by (auto simp: apply_deleteauth_def Authorization.require_authorization_def auth_size_def Let_def res_simps)
  note f = get_permission_row(1,2) [OF g w(1)]
  have db': "permissions db' = tbl_del (fst p) (permissions db)" "permission_links db' = permission_links db"
    "db_accounts db' = db_accounts db" "deferred db' = deferred db"
    using r by (auto simp: remove_permission_def res_simps)
  have "auth_wf n db'"
    using assms(3) w unfolding auth_wf_def db' by (auto simp: tbl_simps split: if_splits)
  moreover have "eff_sum b effs = auth_held n b db' - auth_held n b db" for b
    unfolding eff db' auth_held_def using w(5) f by (auto simp: tbl_simps permission_bytes_def)
  ultimately show ?thesis
    unfolding pays_def eff using w(6) [OF f(1)] auth_size_nonneg [of n "perm_auth (snd p)"] by (auto simp: small_def object_sizes)
qed

lemma linkauth_pays:
  assumes "apply_linkauth nc lk db = Inr (db', effs)" "auth_wf n db" "perms_ok db'"
  shows "pays n db db' effs"
  using assms auth_wfD(2) [OF assms(2)] unfolding pays_def auth_wf_def auth_held_def
  by (auto simp: apply_linkauth_def Authorization.require_authorization_def Let_def res_simps tbl_simps small_def object_sizes split: option.splits)

lemma unlinkauth_pays:
  assumes "apply_unlinkauth nc ul db = Inr (db', effs)" "auth_wf n db" "perms_ok db'"
  shows "pays n db db' effs"
  using assms auth_wfD(2) [OF assms(2)] unfolding pays_def auth_wf_def auth_held_def
  by (auto simp: apply_unlinkauth_def Authorization.require_authorization_def Let_def res_simps tbl_simps small_def object_sizes split: option.splits)

lemma deferred_sum_remove:
  assumes "distinct (map fst ds)" "r \<in> set ds"
  shows "(\<Sum>x\<leftarrow>ds. f x) = f r + (\<Sum>x\<leftarrow>filter (\<lambda>x. fst x \<noteq> fst r) ds. (f x :: int))"
  using assms
proof (induction ds)
  case (Cons d ds)
  show ?case
  proof (cases "r = d")
    case True
    then have "filter (\<lambda>x. fst x \<noteq> fst r) ds = ds" using Cons.prems(1) by (metis (mono_tags, lifting) distinct.simps(2) filter_True image_eqI list.simps(9) list.set_map)
    then show ?thesis using True by simp
  next
    case False
    then have "r \<in> set ds" "fst d \<noteq> fst r" using Cons.prems by auto
    then show ?thesis using Cons by simp
  qed
qed simp

lemma deferred_sum_replace:
  assumes "distinct (map fst ds)" "p \<in> set ds"
  shows "(\<Sum>x\<leftarrow>map (\<lambda>r. if fst r = fst p then (fst r, g) else r) ds. f x) = (\<Sum>x\<leftarrow>ds. f x) - f p + (f (fst p, g) :: int)"
  using assms
proof (induction ds)
  case (Cons d ds)
  show ?case
  proof (cases "p = d")
    case True
    then have "map (\<lambda>r. if fst r = fst p then (fst r, g) else r) ds = ds"
      using Cons.prems(1) by (intro map_idI) (metis distinct.simps(2) image_eqI list.simps(9) list.set_map)
    then show ?thesis using True by simp
  next
    case False
    then have "p \<in> set ds" "fst d \<noteq> fst p" using Cons.prems by auto
    then show ?thesis using Cons by simp
  qed
qed simp

lemma drop_deferred_pays:
  assumes "auth_wf n db" "r \<in> set (deferred db)" "db' = db\<lparr>deferred := filter (\<lambda>x. fst x \<noteq> fst r) (deferred db)\<rparr>"
  shows "pays n db db' [(def_payer (snd r), - deferred_bytes (snd r))]"
proof -
  note w = auth_wfD [OF assms(1)]
  have "perms_ok db'" using perms_ok_frame [of db' db] w(1) assms(3) by simp
  then have "auth_wf n db'"
    using w unfolding assms(3) auth_wf_def by (auto intro: distinct_map_filter)
  moreover have "auth_held n a db' = auth_held n a db - (if def_payer (snd r) = a then deferred_bytes (snd r) else 0)" for a
    unfolding assms(3) auth_held_def
    using deferred_sum_remove [OF w(4) assms(2), of "\<lambda>r. if def_payer (snd r) = a then deferred_bytes (snd r) else 0"] by simp
  ultimately show ?thesis
    unfolding pays_def using w(9) [OF assms(2)] by (auto simp: small_def deferred_bytes_def object_sizes)
qed

lemma pays_refl: "auth_wf n db \<Longrightarrow> pays n db db []"
  by (simp add: pays_def)

lemma cancel_pays:
  assumes "cancel_deferred_transaction i sender db = (db', effs)" "auth_wf n db"
  shows "pays n db db' effs"
proof (cases "find (\<lambda>r. def_sender (snd r) = sender \<and> def_sender_id (snd r) = i) (deferred db)")
  case None
  then show ?thesis using assms pays_refl by (simp add: cancel_deferred_transaction_def)
next
  case (Some r)
  then have "r \<in> set (deferred db)" by (auto simp: find_Some_iff)
  from drop_deferred_pays [OF assms(2) this] show ?thesis
    using assms(1) Some by (simp add: cancel_deferred_transaction_def deferred_bytes_def)
qed

lemma native_pays:
  assumes "apply_native nc d db = Inr (db', effs)" "auth_wf n db" "nc_pack_size nc = key_pack_size n" "data_typed n d" "data_ok d"
  shows "pays n db db' effs"
proof -
  have ok: "perms_ok db'" by (rule apply_native_ok [OF assms(1) auth_wfD(1) [OF assms(2)] assms(5)])
  show ?thesis
  proof (cases d)
    case (Newaccount c a owner active)
    then show ?thesis using newaccount_pays [OF _ assms(2) ok assms(3)] assms(1,4,5) by (auto simp: apply_native_def data_ok_def)
  next
    case (Canceldelay cd)
    then show ?thesis
      using cancel_pays [OF _ assms(2)] assms(1)
      by (auto simp: apply_native_def apply_canceldelay_def Authorization.require_authorization_def res_simps)
  qed (use assms(1,4) setcode_pays [OF _ assms(2)] setabi_pays [OF _ assms(2)] updateauth_pays [OF _ assms(2) ok assms(3)]
       deleteauth_pays [OF _ assms(2) ok assms(3)] linkauth_pays [OF _ assms(2) ok] unlinkauth_pays [OF _ assms(2) ok]
       in \<open>auto simp: apply_native_def\<close>)
qed


subsection \<open>The surplus of an account\<close>

text \<open>What an account is billed beyond its footprint.\<close>

definition surplus :: "controller \<Rightarrow> chain_state \<Rightarrow> account_name \<Rightarrow> int" where
  "surplus n s a = ram_of (cs_rl s) a - held a (cs_cdb s) - auth_held n a (cs_auth s)"

definition ex_surplus :: "controller \<Rightarrow> exec_context \<Rightarrow> account_name \<Rightarrow> int" where
  "ex_surplus n x a = ram_of (rl (ax x)) a - held a (cdb (ax x)) - auth_held n a (ex_auth x)"

text \<open>While the node produces a block nothing changes it; otherwise a replaced transaction leaves its RAM behind.\<close>

definition billed :: "controller \<Rightarrow> int \<Rightarrow> int \<Rightarrow> bool" where
  "billed n u v \<longleftrightarrow> v = u \<or> \<not> is_producing_block n \<and> u \<le> v"

lemma billed_refl [simp]: "billed n u u"
  by (simp add: billed_def)

lemma billed_trans: "billed n u v \<Longrightarrow> billed n v w \<Longrightarrow> billed n u w"
  by (auto simp: billed_def)

definition chain_wf :: "controller \<Rightarrow> chain_state \<Rightarrow> bool" where
  "chain_wf n s \<longleftrightarrow> db_wf (cs_cdb s) \<and> rl_ok (cs_rl s) \<and> auth_wf n (cs_auth s)"

definition context_wf :: "controller \<Rightarrow> exec_context \<Rightarrow> bool" where
  "context_wf n x \<longleftrightarrow> ctx_wf (ax x) \<and> auth_wf n (ex_auth x)"

definition context_billed :: "controller \<Rightarrow> exec_context \<Rightarrow> exec_context \<Rightarrow> bool" where
  "context_billed n x y \<longleftrightarrow> context_wf n y \<and> (\<forall>a. billed n (ex_surplus n x a) (ex_surplus n y a))"

lemma context_billed_same:
  assumes "context_wf n x" "ctx_wf (ax y)" "rl (ax y) = rl (ax x)" "cdb (ax y) = cdb (ax x)" "ex_auth y = ex_auth x"
  shows "context_billed n x y"
  using assms by (simp add: context_billed_def context_wf_def ex_surplus_def)

lemma add_ram_usage_spec:
  assumes "add_ram_usage a d x = Inr y" "rl_ok (rl x)" "small d"
  shows "same_db x y" "rl_ok (rl y)" "ram_of (rl y) b = ram_of (rl x) b + (if a = b then d else 0)"
proof -
  obtain r where r: "add_pending_ram_usage a d (rl x) = Inr r" "rl y = r" "same_db x y"
    using assms(1) by (auto simp: add_ram_usage_def trx_add_ram_usage_def res_simps same_db_def split: sum.splits)
  then show "same_db x y" "rl_ok (rl y)" "ram_of (rl y) b = ram_of (rl x) b + (if a = b then d else 0)"
    using add_pending_ram_usage_spec [OF assms(2,3)] by auto
qed

lemma on_db_Inr: "on_db f x = Inr y \<longleftrightarrow> (\<exists>a. f (ax x) = Inr a \<and> y = x\<lparr>ax := a\<rparr>)"
  by (auto simp: on_db_def res_simps)

lemma charge_ram_spec:
  assumes "charge_ram effs x = Inr y" "ctx_wf (ax x)" "\<forall>e \<in> set effs. small (snd e)"
  shows "ctx_wf (ax y)" "cdb (ax y) = cdb (ax x)" "ex_trx y = ex_trx x" "ram_of (rl (ax y)) b = ram_of (rl (ax x)) b + eff_sum b effs"
proof -
  have "ctx_wf (ax y) \<and> cdb (ax y) = cdb (ax x) \<and> ex_trx y = ex_trx x \<and> ram_of (rl (ax y)) b = ram_of (rl (ax x)) b + eff_sum b effs"
    using assms unfolding charge_ram_def
  proof (induction effs arbitrary: x)
    case (Cons e es)
    obtain a d where e: "e = (a, d)" by (cases e)
    obtain c where c: "add_ram_usage a d (ax x) = Inr c" "for_each (\<lambda>(a, d). on_db (add_ram_usage a d)) es (x\<lparr>ax := c\<rparr>) = Inr y"
      using Cons.prems(1) by (auto simp: e on_db_Inr res_simps)
    note s = add_ram_usage_spec [OF c(1) ctx_wfD(2) [OF Cons.prems(2)]]
    have "small d" using Cons.prems(3) by (simp add: e)
    note s = s [OF this]
    have "ctx_wf c" by (rule ctx_wf_same_db [OF Cons.prems(2) s(1,2)])
    with Cons.IH [OF c(2)] Cons.prems(3) s(1) s(3) [of b] show ?case by (simp add: e same_db_def)
  qed simp
  then show "ctx_wf (ax y)" "cdb (ax y) = cdb (ax x)" "ex_trx y = ex_trx x" "ram_of (rl (ax y)) b = ram_of (rl (ax x)) b + eff_sum b effs"
    by auto
qed

lemma ex_auth_simps [simp]: "ex_auth (set_auth d x) = d" "ax (set_auth d x) = ax x" "ex_auth (x\<lparr>ax := a\<rparr>) = ex_auth x"
  "ax (set_chain f x) = ax x"
  by (simp_all add: ex_auth_def set_auth_def set_chain_def)

lemma ex_auth_trx: "ex_trx y = ex_trx x \<Longrightarrow> ex_auth y = ex_auth x"
  by (simp add: ex_auth_def)

lemma pay_billed:
  assumes "charge_ram effs y = Inr z" "context_wf n x" "pays n (ex_auth x) d effs"
    "ex_auth y = d" "ctx_wf (ax y)" "cdb (ax y) = cdb (ax x)" "\<And>a. ram_of (rl (ax y)) a = ram_of (rl (ax x)) a"
  shows "context_billed n x z"
proof -
  have p: "auth_wf n d" "\<And>a. eff_sum a effs = auth_held n a d - auth_held n a (ex_auth x)" "\<forall>e \<in> set effs. small (snd e)"
    using assms(3) by (auto simp: pays_def)
  note c = charge_ram_spec [OF assms(1,5) p(3)]
  have "ex_auth z = d" using ex_auth_trx [OF c(3)] assms(4) by simp
  moreover from this have "ex_surplus n z a = ex_surplus n x a" for a
    using c(2,4) p(2) assms(6,7) by (simp add: ex_surplus_def)
  ultimately show ?thesis using c(1) p(1) by (simp add: context_billed_def context_wf_def)
qed


subsection \<open>Every operation\<close>

lemma db_call_billed:
  assumes "on_db (db_step c) x = Inr y" "context_wf n x" "call_ok c"
  shows "context_billed n x y"
proof -
  obtain b where b: "db_step c (ax x) = Inr b" "y = x\<lparr>ax := b\<rparr>" using assms(1) by (auto simp: on_db_Inr)
  have "keeps (ax x) b" using db_step_keeps [OF _ assms(3) b(1)] assms(2) by (simp add: context_wf_def)
  then have "ctx_wf b" "moved (ax x) b" by (simp_all add: keeps_def)
  then show ?thesis using assms(2) by (simp add: b(2) context_billed_def context_wf_def ex_surplus_def moved_def)
qed

lemma cancel_billed:
  assumes c: "cancel_deferred i x = Inr y" and wf: "context_wf n x"
  shows "context_billed n x y"
proof -
  obtain d effs where d: "cancel_deferred_transaction i (receiver (ax x)) (ex_auth x) = (d, effs)" by fastforce
  have "charge_ram effs (set_auth d x) = Inr y" using c d by (simp add: cancel_deferred_def)
  then show ?thesis
    by (rule pay_billed [OF _ wf cancel_pays [OF d]]) (use wf in \<open>simp_all add: context_wf_def\<close>)
qed

lemma create_generated_pays:
  assumes "create_generated i g d = Inr d'" "auth_wf n d" "def_packed_size g < 2 ^ 32" "0 \<le> def_packed_size g" "trx_typed n (def_trx g)"
  shows "pays n d d' [(def_payer g, deferred_bytes g)]"
proof -
  have d': "d' = d\<lparr>deferred := deferred d @ [(i, g)]\<rparr>" and new: "i \<notin> fst ` set (deferred d)"
    using assms(1) by (auto simp: create_generated_def res_simps list_all_iff)
  note w = auth_wfD [OF assms(2)]
  have "perms_ok d'" using perms_ok_frame [of d' d] w(1) d' by simp
  then have "auth_wf n d'" using w new assms(3,4,5) unfolding d' auth_wf_def by auto
  then show ?thesis
    unfolding pays_def using assms(3,4) by (auto simp: d' auth_held_def small_def deferred_bytes_def object_sizes)
qed

lemma store_generated_held:
  assumes "store_generated n r i g d = Inr d'" "auth_wf n d" "def_packed_size g < 2 ^ 32" "0 \<le> def_packed_size g" "trx_typed n (def_trx g)"
  shows "auth_wf n d'" "billed n (auth_held n a d' - (if def_payer g = a then deferred_bytes g else 0)) (auth_held n a d)"
proof -
  have "auth_wf n d' \<and> billed n (auth_held n a d' - (if def_payer g = a then deferred_bytes g else 0)) (auth_held n a d)"
  proof (cases "find (\<lambda>r. def_sender (snd r) = def_sender g \<and> def_sender_id (snd r) = def_sender_id g) (deferred d)")
    case None
    then have "create_generated i g d = Inr d'" using assms(1) by (simp add: store_generated_def)
    from create_generated_pays [OF this assms(2-5)]
    have "auth_wf n d'" "(if def_payer g = a then deferred_bytes g else 0) = auth_held n a d' - auth_held n a d"
      by (auto simp: pays_def dest: spec [of _ a])
    then show ?thesis by simp
  next
    case (Some p)
    let ?f = "\<lambda>r. if fst r = fst p then (fst r, g) else r" and ?b = "\<lambda>r. if def_payer (snd r) = a then deferred_bytes (snd r) else 0"
    have p: "p \<in> set (deferred d)" using Some by (auto simp: find_Some_iff)
    have d': "d' = d\<lparr>deferred := map ?f (deferred d)\<rparr>" and np: "\<not> is_producing_block n"
      using assms(1) Some by (auto simp: store_generated_def res_simps)
    note w = auth_wfD [OF assms(2)]
    have "perms_ok d'" using perms_ok_frame [of d' d] w(1) d' by simp
    moreover have m: "map fst (map ?f (deferred d)) = map fst (deferred d)" by (auto intro: map_cong)
    ultimately have "auth_wf n d'"
      using w assms(3-5) unfolding auth_wf_def by (auto simp: d' simp del: map_map)
    moreover have "(\<Sum>x\<leftarrow>map ?f (deferred d). ?b x) = (\<Sum>x\<leftarrow>deferred d. ?b x) - ?b p + (if def_payer g = a then deferred_bytes g else 0)"
      using deferred_sum_replace [OF w(4) p, of ?b g] by simp
    ultimately show ?thesis
      using np w(9) [OF p] by (auto simp: billed_def d' auth_held_def deferred_bytes_def object_sizes)
  qed
  then show "auth_wf n d'" "billed n (auth_held n a d' - (if def_payer g = a then deferred_bytes g else 0)) (auth_held n a d)" by auto
qed

lemma net_usage_chain: "add_net_usage n u t = Inr t' \<Longrightarrow> tx_chain t' = tx_chain t"
  by (auto simp: add_net_usage_def Let_def res_simps)

lemma trx_typed_stamped: "trx_typed n (stamped n trx) = trx_typed n trx"
  by (simp add: trx_typed_def stamped_def)

lemma schedule_billed:
  assumes "schedule_deferred_transaction n i payer trx r x = Inr y" "context_wf n x" "node_typed n" "trx_typed n trx"
  shows "context_billed n x y"
proof -
  obtain t d where t: "add_net_usage n (base_per_transaction_net_usage n + transaction_id_net_usage) (ex_trx x) = Inr t"
    and d: "store_generated n r (trx_digest n (stamped n trx))
       (generated_transaction n (receiver (ax x)) i payer (trx_delay_sec trx * 1000000) (stamped n trx)) (ex_auth (x\<lparr>ex_trx := t\<rparr>)) = Inr d"
    and y: "on_db (add_ram_usage payer (generated_transaction_size + int (length (trx_pack n (stamped n trx))))) (set_auth d (x\<lparr>ex_trx := t\<rparr>)) = Inr y"
    by (rule schedule_deferredE [OF assms(1)])
  have l: "int (length (trx_pack n (stamped n trx))) < 2 ^ 32" using assms(3) by (simp add: node_typed_def)
  have a: "ex_auth (x\<lparr>ex_trx := t\<rparr>) = ex_auth x" using net_usage_chain [OF t] by (simp add: ex_auth_def)
  have wf: "ctx_wf (ax x)" "auth_wf n (ex_auth x)" using assms(2) by (simp_all add: context_wf_def)
  have h: "auth_wf n d" "\<And>b. billed n (auth_held n b d - (if payer = b then generated_transaction_size + int (length (trx_pack n (stamped n trx))) else 0))
      (auth_held n b (ex_auth x))"
    using store_generated_held [OF d [unfolded a] wf(2)] l assms(4)
    by (simp_all add: generated_transaction_def deferred_bytes_def trx_typed_stamped cong: if_cong)
  obtain b where b: "add_ram_usage payer (generated_transaction_size + int (length (trx_pack n (stamped n trx)))) (ax x) = Inr b"
    "y = (set_auth d (x\<lparr>ex_trx := t\<rparr>))\<lparr>ax := b\<rparr>" using y by (auto simp: on_db_Inr)
  have "small (generated_transaction_size + int (length (trx_pack n (stamped n trx))))" using l by (simp add: small_def object_sizes)
  note s = add_ram_usage_spec [OF b(1) ctx_wfD(2) [OF wf(1)] this]
  have "ctx_wf b" by (rule ctx_wf_same_db [OF wf(1) s(1,2)])
  moreover have "billed n (ex_surplus n x c) (ex_surplus n y c)" for c
    using h(2) [of c] s(1) s(3) [of c] by (auto simp: billed_def ex_surplus_def b(2) same_db_def)
  ultimately show ?thesis using h(1) by (simp add: context_billed_def context_wf_def b(2))
qed


lemma context_billed_refl: "context_wf n x \<Longrightarrow> context_billed n x x"
  by (simp add: context_billed_def)

lemma context_billed_usage:
  assumes "context_wf n x" "usage (rl (ax y)) = usage (rl (ax x))" "cdb (ax y) = cdb (ax x)" "caches (ax y) = caches (ax x)"
    "ex_auth y = ex_auth x"
  shows "context_billed n x y"
  using assms by (simp add: context_billed_def context_wf_def ex_surplus_def ctx_wf_def rl_ok_def ram_of_def)

lemma limits_usage: "set_account_limits a ram net cpu r = Inr (dec, r') \<Longrightarrow> usage r' = usage r"
  by (auto simp: set_account_limits_def res_simps split: option.splits)

lemma privileged_pays:
  assumes "auth_wf n d" "tbl_find (db_accounts d) a = Some acc"
  shows "pays n d (d\<lparr>db_accounts := tbl_put a (acc\<lparr>acc_privileged := b\<rparr>) (db_accounts d)\<rparr>) []"
  by (rule account_pays [OF assms refl]) (use auth_wfD(7,8) [OF assms] in \<open>auto simp: account_bytes_def\<close>)

lemma host_billed:
  assumes "call_host n c x = Inr y" "call_typed n c" "context_wf n x" "node_typed n"
  shows "context_billed n x y"
proof -
  have h: "host_function n c x = Inr y" using assms(1) by (simp add: call_host_def res_simps)
  note refl = context_billed_refl [OF assms(3)]
  have wf: "ctx_wf (ax x)" using assms(3) by (simp add: context_wf_def)
  show ?thesis
  proof (cases c)
    case (Db_call d)
    then show ?thesis using h assms(2) db_call_billed [OF _ assms(3)] by simp
  next
    case (Send_deferred i p trx r)
    then show ?thesis using h assms(2) schedule_billed [OF _ assms(3,4)] by simp
  next
    case (Cancel_deferred i)
    then show ?thesis using h cancel_billed [OF _ assms(3)] by simp
  next
    case (Set_limits a ram net cpu)
    then obtain dec r where r: "set_account_limits a ram net cpu (rl (ax x)) = Inr (dec, r)"
      "y = (if dec then insert_validate_ram a (x\<lparr>ax := (ax x)\<lparr>rl := r\<rparr>\<rparr>) else x\<lparr>ax := (ax x)\<lparr>rl := r\<rparr>\<rparr>)"
      using h by (auto simp: set_resource_limits_def Let_def res_simps)
    show ?thesis using limits_usage [OF r(1)] by (intro context_billed_usage [OF assms(3)]) (simp_all add: r(2) insert_validate_ram_def)
  next
    case (Set_privileged a b)
    then obtain acc where "tbl_find (db_accounts (ex_auth x)) a = Some acc"
      and y: "y = set_auth ((ex_auth x)\<lparr>db_accounts := tbl_put a (acc\<lparr>acc_privileged := b\<rparr>) (db_accounts (ex_auth x))\<rparr>) x"
      using h by (auto simp: set_privileged_def res_simps)
    then have "pays n (ex_auth x) (ex_auth y) []" using privileged_pays assms(3) by (simp add: context_wf_def)
    then show ?thesis using assms(3) by (simp add: y context_billed_def context_wf_def pays_def ex_surplus_def)
  next
    case (Set_need_check_ram_limit a)
    then show ?thesis using h by (intro context_billed_usage [OF assms(3)]) (auto simp: insert_validate_ram_def)
  next
    case Check_time
    then have "ax y = ax x" "ex_auth y = ex_auth x"
      using h by (auto simp: checktime_def read_clock_def ex_auth_def res_simps split: prod.splits if_splits)
    then show ?thesis by (intro context_billed_usage [OF assms(3)]) simp_all
  qed (use h assms(3) wf in \<open>auto simp: ex_require_authorization_def require_permission_def require_recipient_def execute_inline_def
      execute_context_free_inline_def res_simps ex_auth_def intro!: context_billed_same split: if_splits\<close>)
qed

lemma open_account_spec:
  assumes "open_account a x = Inr y" "ctx_wf (ax x)"
  shows "ctx_wf (ax y)" "cdb (ax y) = cdb (ax x)" "ram_of (rl (ax y)) b = ram_of (rl (ax x)) b" "ex_auth y = ex_auth x"
proof -
  obtain r where r: "initialize_account a (rl (ax x)) = Inr r" "ax y = (ax x)\<lparr>rl := r\<rparr>" "ex_auth y = ex_auth x"
    using assms(1) by (auto simp: open_account_def res_simps set_chain_def ex_auth_def)
  have "rl_ok r \<and> ram_of r b = ram_of (rl (ax x)) b"
    using r(1) ctx_wfD(2) [OF assms(2)]
    by (auto simp: initialize_account_def res_simps rl_ok_def ram_of_def tbl_simps new_usage_def UINT64_MAX_def split: if_splits)
  then show "ctx_wf (ax y)" "cdb (ax y) = cdb (ax x)" "ram_of (rl (ax y)) b = ram_of (rl (ax x)) b" "ex_auth y = ex_auth x"
    using r(2,3) assms(2) by (simp_all add: ctx_wf_def)
qed

lemma setconfig_billed:
  assumes "apply_setconfig c x = Inr y" "context_wf n x"
  shows "context_billed n x y"
proof -
  define z where "z = set_list_config_on_chain c (set_config_on_chain c x)"
  have z: "usage (rl (ax z)) = usage (rl (ax x))" "cdb (ax z) = cdb (ax x)" "caches (ax z) = caches (ax x)" "ex_auth z = ex_auth x"
    by (simp_all add: z_def set_config_on_chain_def set_list_config_on_chain_def set_chain_def ex_auth_def Let_def)
  have "set_guaranteed_minimum_config c z = Inr y" using assms(1) by (simp add: apply_setconfig_def z_def res_simps)
  then have y: "usage (rl (ax y)) = usage (rl (ax z))" "cdb (ax y) = cdb (ax z)" "caches (ax y) = caches (ax z)" "ex_auth y = ex_auth z"
    by (auto simp: set_guaranteed_minimum_config_def set_gmr_parameters_def set_chain_def ex_auth_def Let_def res_simps split: if_splits)
  show ?thesis by (rule context_billed_usage [OF assms(2)]) (use y z in simp_all)
qed

lemma setfee_billed:
  assumes "apply_setfee f x = Inr y" "context_wf n x"
  shows "context_billed n x y"
  by (rule context_billed_same [OF assms(2)])
    (use assms in \<open>auto simp: apply_setfee_def ex_require_authorization_def context_wf_def set_chain_def ex_auth_def res_simps split: if_splits\<close>)

lemma native_billed:
  assumes "run_native n x = Inr y" "action_typed n (ex_act x)" "context_wf n x"
  shows "context_billed n x y"
proof -
  let ?d = "act_data (ex_act x)"
  have other: "context_billed n x y"
    if a: "apply_native (native_context_of n x) ?d (ex_auth x) = Inr (db, effs)" and z: "charge_ram effs z = Inr y"
      and o: "z = set_auth db x \<or> (\<exists>a. open_account a (set_auth db x) = Inr z)" for db effs z
  proof -
    have p: "pays n (ex_auth x) db effs"
      using native_pays [OF a] assms(2,3) by (simp add: context_wf_def action_typed_def native_context_of_def)
    show ?thesis
      by (rule pay_billed [OF z assms(3) p])
        (use o assms(3) open_account_spec [of _ "set_auth db x" z] in \<open>auto simp: context_wf_def\<close>)
  qed
  show ?thesis
  proof (cases ?d)
    case (Setconfig c)
    then show ?thesis using assms(1) setconfig_billed [OF _ assms(3)] by (auto simp: run_native_def Let_def res_simps)
  next
    case (Setfee f)
    then show ?thesis using assms(1) setfee_billed [OF _ assms(3)] by (auto simp: run_native_def Let_def res_simps)
  qed (use assms(1) other in \<open>auto simp: run_native_def Let_def res_simps\<close>)
qed

lemma receipt_auth:
  assumes "add_receipt n x = Inr (r, y)"
  shows "ex_auth y = ex_auth x"
proof -
  have loop: "ex_auth (snd p') = ex_auth z"
    if "for_each (\<lambda>auth (m, x). bnd (next_auth_sequence (fst auth) x) (\<lambda>(v, x). Inr (tbl_put (fst auth) v m, x))) as p = Inr p'"
      "ex_auth (snd p) = ex_auth z" for z as p p'
    by (rule for_each_inv [OF that(1), where P = "\<lambda>p. ex_auth (snd p) = ex_auth z", OF that(2)])
      (auto simp: next_auth_sequence_def res_simps Let_def set_chain_def ex_auth_def split: prod.splits)
  have recv_auth: "next_recv_sequence a z = Inr q \<Longrightarrow> ex_auth (snd q) = ex_auth z" for a z q
    by (auto simp: next_recv_sequence_def set_chain_def ex_auth_def Let_def res_simps)
  obtain q acc m where q: "next_recv_sequence (receiver (ax (snd (next_global_sequence x)))) (snd (next_global_sequence x)) = Inr q"
    and "tbl_find (db_accounts (ex_auth (snd q))) (act_account (ex_act (snd q))) = Some acc"
    and m: "for_each (\<lambda>auth (m, x). bnd (next_auth_sequence (fst auth) x) (\<lambda>(v, x). Inr (tbl_put (fst auth) v m, x)))
             (act_authorization (ex_act (snd q))) ([], snd q) = Inr m"
    and "r = \<lparr>r_receiver = receiver (ax (snd m)), r_act_digest = action_digest n (ex_act (snd m)), r_global_sequence = fst (next_global_sequence x),
         r_recv_sequence = fst q, r_auth_sequence = fst m, r_code_sequence = u32 (acc_code_sequence acc), r_abi_sequence = u32 (acc_abi_sequence acc)\<rparr>"
    and y: "y = (snd m)\<lparr>ex_trx := (ex_trx (snd m))\<lparr>tx_executed := tx_executed (ex_trx (snd m)) @ [r]\<rparr>\<rparr>"
    by (rule add_receiptE [OF assms])
  have "ex_auth (snd (next_global_sequence x)) = ex_auth x" by (simp add: next_global_sequence_def set_chain_def ex_auth_def Let_def)
  moreover have "ex_auth (snd q) = ex_auth (snd (next_global_sequence x))"
    by (rule recv_auth [OF q])
  moreover have "ex_auth (snd m) = ex_auth (snd q)" using loop [OF m] by simp
  ultimately show ?thesis by (simp add: y ex_auth_def)
qed

lemma limit_by_fee_chain: "tx_chain (add_limit_by_fee a t) = tx_chain t"
  unfolding add_limit_by_fee_def Let_def case_prod_beta by (cases "tbl_find (action_fees (tx_chain t)) (act_account a, act_name a)") simp_all

lemma process_fee_chain:
  assumes "process_fee n a t = Inr t'"
  shows "tx_chain t' = tx_chain t"
proof (cases "fee_model n \<and> tx_fee_payer t \<noteq> 0")
  case True
  then obtain c where "t' = add_limit_by_fee a (t\<lparr>tx_fee_costed := c\<rparr>)"
    using assms unfolding process_fee_def bnd_Inr by (auto simp: bnd_Inr)
  then show ?thesis by (simp add: limit_by_fee_chain)
qed (use assms in \<open>auto simp: process_fee_def split: if_splits\<close>)

text \<open>The state of the chain before: \<open>u\<close> is the surplus of every account.\<close>

definition trx_billed :: "controller \<Rightarrow> (account_name \<Rightarrow> int) \<Rightarrow> transaction_context \<Rightarrow> bool" where
  "trx_billed n u t \<longleftrightarrow> node_typed n \<and> chain_wf n (tx_chain t) \<and> (\<forall>a. billed n (u a) (surplus n (tx_chain t) a))"

definition exec_billed :: "controller \<Rightarrow> (account_name \<Rightarrow> int) \<Rightarrow> exec_context \<Rightarrow> bool" where
  "exec_billed n u x \<longleftrightarrow> node_typed n \<and> context_wf n x \<and> (\<forall>a. billed n (u a) (ex_surplus n x a))"

lemma exec_billed_trans: "exec_billed n u x \<Longrightarrow> context_billed n x y \<Longrightarrow> exec_billed n u y"
  by (auto simp: exec_billed_def context_billed_def intro: billed_trans)


lemma open_surplus: "ex_surplus n (open_context n a rcv cf t) = surplus n (tx_chain t)"
  by (simp add: fun_eq_iff ex_surplus_def surplus_def open_context_def ex_auth_def)

lemma close_surplus: "surplus n (tx_chain (close_context x)) = ex_surplus n x"
  by (simp add: fun_eq_iff ex_surplus_def surplus_def close_context_def ex_auth_def)

interpretation ram: exec_invariant n "trx_billed n u" "exec_billed n u" for n u
proof
  show "exec_billed n u (open_context n a rcv cf t)" if "trx_billed n u t" for a rcv cf t
    using that new_cache_wf
    by (simp add: exec_billed_def trx_billed_def open_surplus) (simp add: context_wf_def chain_wf_def ctx_wf_def open_context_def ex_auth_def)
  show "exec_billed n u (x\<lparr>ax := (ax x)\<lparr>receiver := r\<rparr>\<rparr>)" if "exec_billed n u x" for x r
    using that by (simp add: exec_billed_def context_wf_def ctx_wf_def ex_surplus_def)
  show "exec_billed n u (x\<lparr>ax := (ax x)\<lparr>privileged := b\<rparr>\<rparr>)" if "exec_billed n u x" for x b
    using that by (simp add: exec_billed_def context_wf_def ctx_wf_def ex_surplus_def)
  show "exec_billed n u y" if "exec_billed n u x" "call_typed n c" "call_host n c x = Inr y" for x c y
    by (rule exec_billed_trans [OF that(1) host_billed [OF that(3,2)]]) (use that(1) in \<open>simp_all add: exec_billed_def\<close>)
  show "exec_billed n u y" if "exec_billed n u x" "action_typed n (ex_act x)" "run_native n x = Inr y" for x y
    by (rule exec_billed_trans [OF that(1) native_billed [OF that(3,2)]]) (use that(1) in \<open>simp_all add: exec_billed_def\<close>)
  show "exec_billed n u (finalize_trace y)" if "exec_billed n u x" "add_receipt n x = Inr (rc, y)" for x rc y
    using that receipt_auth [OF that(2)] same_frame_receipt(2) [OF that(2)]
    by (simp add: exec_billed_def context_wf_def ctx_wf_def ex_surplus_def finalize_trace_def)
  show "trx_billed n u (close_context x)" if "exec_billed n u x" for x
    using that by (simp add: exec_billed_def trx_billed_def close_surplus) (simp add: context_wf_def chain_wf_def ctx_wf_def close_context_def ex_auth_def)
  show "trx_billed n u t'" if "trx_billed n u t" "process_fee n a t = Inr t'" for t a t'
    using that process_fee_chain [OF that(2)] by (simp add: trx_billed_def)
  show "node_typed n" if "exec_billed n u x" for x using that by (simp add: exec_billed_def)
qed


subsection \<open>Transactions\<close>

definition chain_billed :: "controller \<Rightarrow> chain_state \<Rightarrow> chain_state \<Rightarrow> bool" where
  "chain_billed n s s' \<longleftrightarrow> chain_wf n s' \<and> (\<forall>a. billed n (surplus n s a) (surplus n s' a))"

lemma chain_billed_trans: "chain_billed n s s' \<Longrightarrow> chain_billed n s' s'' \<Longrightarrow> chain_billed n s s''"
  by (auto simp: chain_billed_def intro: billed_trans)

lemma chain_billed_refl: "chain_wf n s \<Longrightarrow> chain_billed n s s"
  by (simp add: chain_billed_def)

text \<open>A change of the limits that leaves the RAM alone, and a change of the rest of the state.\<close>

definition same_ram :: "resource_db \<Rightarrow> resource_db \<Rightarrow> bool" where
  "same_ram r r' \<longleftrightarrow> (rl_ok r \<longrightarrow> rl_ok r') \<and> (\<forall>a. rl_ok r \<longrightarrow> ram_of r' a = ram_of r a)"

lemma same_ram_trans: "same_ram r r' \<Longrightarrow> same_ram r' r'' \<Longrightarrow> same_ram r r''"
  by (simp add: same_ram_def)

lemma same_ram_refl: "same_ram r r"
  by (simp add: same_ram_def)

lemma same_ram_billed: "same_ram (cs_rl s) r \<Longrightarrow> chain_wf n s \<Longrightarrow> chain_billed n s (s\<lparr>cs_rl := r\<rparr>)"
  by (simp add: same_ram_def chain_billed_def chain_wf_def surplus_def)

lemma same_ram_put:
  assumes "tbl_find (usage r) a = Some u" "ram_usage u' = ram_usage u"
  shows "same_ram r (r\<lparr>usage := tbl_put a u' (usage r)\<rparr>)"
  using assms by (auto simp: same_ram_def rl_ok_def ram_of_def tbl_simps split: if_splits)

lemma same_ram_update:
  assumes "update_account_usage as slot r = Inr r'"
  shows "same_ram r r'"
proof (rule for_each_inv [OF assms [unfolded update_account_usage_def], where P = "same_ram r", OF same_ram_refl])
  fix a d d'
  assume d: "same_ram r d" and s: "need (tbl_find (usage d) a) Object_not_found (\<lambda>bu.
       bnd (acc_add (net_usage bu) 0 slot (account_net_usage_average_window (rl_config d))) (\<lambda>n.
       bnd (acc_add (cpu_usage bu) 0 slot (account_cpu_usage_average_window (rl_config d))) (\<lambda>c.
       Inr (d\<lparr>usage := tbl_put a (bu\<lparr>net_usage := n, cpu_usage := c\<rparr>) (usage d)\<rparr>)))) = Inr d'"
  then have "same_ram d d'" by (auto simp: res_simps intro!: same_ram_put)
  then show "same_ram r d'" by (rule same_ram_trans [OF d])
qed

lemma same_ram_add:
  assumes "add_transaction_usage as cpu net slot r = Inr r'"
  shows "same_ram r r'"
proof -
  obtain d st where d: "for_each (add_account_usage cpu net slot) as r = Inr d" "r' = d\<lparr>rl_state := st\<rparr>"
    using assms by (auto simp: add_transaction_usage_def Let_def res_simps)
  have one: "same_ram d d'" if "add_account_usage cpu net slot a d = Inr d'" for a d d'
  proof -
    note run = that
    obtain bu x y where "tbl_find (usage d) a = Some bu" "d' = d\<lparr>usage := tbl_put a (bu\<lparr>net_usage := x, cpu_usage := y\<rparr>) (usage d)\<rparr>"
      using run unfolding add_account_usage_def need_Inr bnd_Inr chk_Inr case_prod_beta by (elim exE conjE) (rule that, assumption, erule Inr_inject [THEN sym])
    then show ?thesis using same_ram_put by simp
  qed
  have "same_ram r d"
  proof (rule for_each_inv [OF d(1), where P = "same_ram r", OF same_ram_refl])
    fix a c c' assume c: "same_ram r c" "add_account_usage cpu net slot a c = Inr c'"
    show "same_ram r c'" by (rule same_ram_trans [OF c(1) one [OF c(2)]])
  qed
  moreover have "same_ram d r'" by (simp add: d(2) same_ram_def rl_ok_def ram_of_def)
  ultimately show ?thesis by (rule same_ram_trans)
qed

lemma lower_limit_chain [simp]: "tx_chain (lower_net_limit l t) = tx_chain t" "tx_chain (lower_cpu_limit l t) = tx_chain t"
  "tx_trx (lower_net_limit l t) = tx_trx t" "tx_trx (lower_cpu_limit l t) = tx_trx t"
  "tx_executed (lower_net_limit l t) = tx_executed t" "tx_executed (lower_cpu_limit l t) = tx_executed t"
  by (simp_all add: lower_net_limit_def lower_cpu_limit_def)

lemma let_keeps: "P e \<Longrightarrow> (\<And>x. P x \<Longrightarrow> Q (f x)) \<Longrightarrow> Q (let x = e in f x)"
  by simp

definition same_trx :: "transaction_context \<Rightarrow> transaction_context \<Rightarrow> bool" where
  "same_trx t t' \<longleftrightarrow> tx_chain t' = tx_chain t \<and> tx_trx t' = tx_trx t \<and> tx_executed t' = tx_executed t"

lemma same_trx_objective: "same_trx t (objective_limits n t)"
  unfolding objective_limits_def
  apply (rule let_keeps [where P = "\<lambda>_. True"], simp)
  apply (rule let_keeps [where P = "same_trx t"], simp add: same_trx_def)
  apply (rule let_keeps [where P = "same_trx t"], simp add: same_trx_def)
  apply (rule let_keeps [where P = "same_trx t"], simp add: same_trx_def)
  apply (rule let_keeps [where P = "\<lambda>_. True"], simp)
  apply (rule let_keeps [where P = "same_trx t"], simp add: same_trx_def)
  apply (rule let_keeps [where P = "\<lambda>_. True"], simp)
  apply (rule let_keeps [where P = "same_trx t"], simp add: same_trx_def)
  apply (simp add: same_trx_def)
  done

lemma same_trx_eager: "same_trx t (eager_limits n a b t)"
  unfolding eager_limits_def
  apply (rule let_keeps [where P = "same_trx t"], simp add: same_trx_def)
  apply (rule let_keeps [where P = "\<lambda>_. True"], simp)
  apply (rule let_keeps [where P = "same_trx t"], simp add: same_trx_def)
  apply (rule let_keeps [where P = "same_trx t"], simp add: same_trx_def)
  apply (rule let_keeps [where P = "same_trx t"], simp add: same_trx_def)
  apply (rule let_keeps [where P = "same_trx t"], simp add: same_trx_def)
  apply (simp add: same_trx_def)
  done

lemma limits_chain [simp]: "tx_chain (objective_limits n t) = tx_chain t" "tx_chain (eager_limits n a b t) = tx_chain t"
  "tx_trx (objective_limits n t) = tx_trx t" "tx_trx (eager_limits n a b t) = tx_trx t"
  "tx_executed (objective_limits n t) = tx_executed t" "tx_executed (eager_limits n a b t) = tx_executed t"
  using same_trx_objective same_trx_eager by (simp_all add: same_trx_def)

lemma net_usage_trx: "add_net_usage n u t = Inr t' \<Longrightarrow> tx_trx t' = tx_trx t \<and> tx_executed t' = tx_executed t"
  by (auto simp: add_net_usage_def Let_def res_simps)

lemma checktime_chain: "checktime n t = Inr t' \<Longrightarrow> tx_chain t' = tx_chain t \<and> tx_trx t' = tx_trx t \<and> tx_executed t' = tx_executed t"
  by (auto simp: checktime_def read_clock_def split: prod.splits if_splits)

lemma init_result:
  assumes "init n u t = Inr t'"
  obtains r where "update_account_usage (referenced_actors (trx_actions (tx_trx t))) (pending_slot n) (cs_rl (tx_chain t)) = Inr r"
    and "tx_chain t' = (tx_chain t)\<lparr>cs_rl := r\<rparr>" "tx_trx t' = tx_trx t" "tx_executed t' = tx_executed t"
proof -
  obtain r z t2 t3 where r: "update_account_usage (referenced_actors (trx_actions (tx_trx t))) (pending_slot n) (cs_rl (tx_chain t)) = Inr r"
    and t2: "(if u > 0 then add_net_usage n u z else Inr z) = Inr t2" and t3: "checktime n t2 = Inr t3"
    and z: "tx_chain z = (tx_chain t)\<lparr>cs_rl := r\<rparr>" "tx_trx z = tx_trx t" "tx_executed z = tx_executed t" and t': "t' = t3\<lparr>tx_is_initialized := True\<rparr>"
    using assms unfolding init_def Let_def chk_Inr bnd_Inr case_prod_beta lift_Inr
    by (elim exE conjE) (rule that, simp, assumption, assumption, simp_all)
  have "tx_chain t2 = tx_chain z" "tx_trx t2 = tx_trx z" "tx_executed t2 = tx_executed z"
    using t2 by (auto split: if_splits dest: net_usage_chain net_usage_trx)
  then have "tx_chain t' = (tx_chain t)\<lparr>cs_rl := r\<rparr>" "tx_trx t' = tx_trx t" "tx_executed t' = tx_executed t"
    using t' z checktime_chain [OF t3] by simp_all
  with r that show ?thesis by blast
qed

lemma init_billed:
  assumes "init n u t = Inr t'" "chain_wf n (tx_chain t)"
  shows "chain_billed n (tx_chain t) (tx_chain t')" "tx_trx t' = tx_trx t"
proof -
  obtain r where r: "update_account_usage (referenced_actors (trx_actions (tx_trx t))) (pending_slot n) (cs_rl (tx_chain t)) = Inr r"
    "tx_chain t' = (tx_chain t)\<lparr>cs_rl := r\<rparr>" "tx_trx t' = tx_trx t"
    by (rule init_result [OF assms(1)])
  then show "chain_billed n (tx_chain t) (tx_chain t')" "tx_trx t' = tx_trx t"
    using same_ram_billed [OF same_ram_update [OF r(1)] assms(2)] by simp_all
qed


lemma trx_billed_I: "node_typed n \<Longrightarrow> chain_billed n s (tx_chain t) \<Longrightarrow> trx_billed n (surplus n s) t"
  by (simp add: trx_billed_def chain_billed_def)

lemma trx_billed_D: "trx_billed n (surplus n s) t \<Longrightarrow> chain_billed n s (tx_chain t)"
  by (simp add: trx_billed_def chain_billed_def)

lemma exec_actions_billed:
  assumes "exec_actions n cf as (ts, t) = Inr q" "chain_wf n (tx_chain t)" "node_typed n" "list_all (action_typed n) as"
  shows "chain_billed n (tx_chain t) (tx_chain (snd q))"
  by (rule trx_billed_D, rule ram.exec_actions_keeps [OF assms(1) _ assms(4)])
    (simp add: trx_billed_I [OF assms(3) chain_billed_refl [OF assms(2)]])

lemma exec_action_billed:
  assumes "exec_action n d cf a rcv t = Inr (tr, t')" "chain_wf n (tx_chain t)" "node_typed n" "action_typed n a"
  shows "chain_billed n (tx_chain t) (tx_chain t')"
  by (rule trx_billed_D, rule ram.exec_action_keeps [OF assms(1) _ assms(4)])
    (simp add: trx_billed_I [OF assms(3) chain_billed_refl [OF assms(2)]])

lemma chain_pays:
  assumes "chain_wf n s" "pays n (cs_auth s) d [(a, v)]" "add_pending_ram_usage a v (cs_rl s) = Inr r"
  shows "chain_billed n s (s\<lparr>cs_auth := d, cs_rl := r\<rparr>)"
proof -
  have p: "auth_wf n d" "\<And>b. (if a = b then v else 0) = auth_held n b d - auth_held n b (cs_auth s)" "small v"
    using assms(2) by (simp_all add: pays_def cong: if_cong)
  have wf: "rl_ok (cs_rl s)" "db_wf (cs_cdb s)" using assms(1) by (simp_all add: chain_wf_def)
  note c = add_pending_ram_usage_spec [OF wf(1) p(3) assms(3)]
  have "surplus n (s\<lparr>cs_auth := d, cs_rl := r\<rparr>) b = surplus n s b" for b
    using c(2) [of b] p(2) [of b] by (simp add: surplus_def eq_commute [of a b])
  then show ?thesis using p(1) c(1) wf(2) by (simp add: chain_billed_def chain_wf_def)
qed

lemma schedule_transaction_billed:
  assumes "schedule_transaction n t = Inr t'" "chain_wf n (tx_chain t)" "node_typed n" "trx_typed n (tx_trx t)"
  shows "chain_billed n (tx_chain t) (tx_chain t')"
proof -
  define g where "g = generated_transaction n 0 (transaction_id_to_sender_id (tx_id t)) (first_authorizor (tx_trx t)) (tx_delay t) (tx_trx t)"
  have net: "tx_chain z = tx_chain t \<and> tx_trx z = tx_trx t \<and> tx_id z = tx_id t \<and> tx_delay z = tx_delay t"
    if "(if trx_delay_sec (tx_trx t) = 0 then add_net_usage n (base_per_transaction_net_usage n + transaction_id_net_usage) t else Inr t) = Inr z" for z
    using that by (auto simp: add_net_usage_def Let_def res_simps split: if_splits)
  obtain d r where d: "create_generated (tx_id t) g (cs_auth (tx_chain t)) = Inr d"
    and r: "add_pending_ram_usage (def_payer g) (generated_transaction_size + def_packed_size g) (cs_rl (tx_chain t)) = Inr r"
    and t': "tx_chain t' = (tx_chain t)\<lparr>cs_auth := d, cs_rl := r\<rparr>"
    using assms(1) unfolding schedule_transaction_def bnd_Inr
    by (elim exE conjE) (drule net, auto simp: Let_def res_simps trx_charge_ram_def g_def)
  have "def_packed_size g < 2 ^ 32" "0 \<le> def_packed_size g" "trx_typed n (def_trx g)"
    using assms(3,4) by (simp_all add: g_def generated_transaction_def node_typed_def)
  from chain_pays [OF assms(2) create_generated_pays [OF d _ this]] r assms(2) show ?thesis
    by (simp add: t' deferred_bytes_def chain_wf_def)
qed

lemma fee_action_typed: "action_typed n (fee_action t)"
  by (simp add: action_typed_def fee_action_def data_ok_def)

lemma dispatch_billed:
  assumes "dispatch_action n cf a (ts, t) = Inr q" "chain_wf n (tx_chain t)" "node_typed n" "action_typed n a"
  shows "chain_billed n (tx_chain t) (tx_chain (snd q))"
  using assms(1) exec_action_billed [OF _ assms(2-4)] by (auto simp: dispatch_action_def res_simps)

lemma chain_billed_wf: "chain_billed n s s' \<Longrightarrow> chain_wf n s'"
  by (simp add: chain_billed_def)

lemma exec_trx_billed:
  assumes "exec_trx n t = Inr q" "chain_wf n (tx_chain t)" "node_typed n" "trx_typed n (tx_trx t)"
  shows "chain_billed n (tx_chain t) (tx_chain (snd q))"
proof -
  obtain p1 p2 where e:
    "(if tx_apply_context_free t then exec_actions n True (trx_context_free_actions (tx_trx t)) ([], t) else Inr ([], t)) = Inr p1"
    "(if tx_delay (snd p1) = 0 then exec_actions n False (trx_actions (tx_trx (snd p1))) (fst p1, snd p1)
       else bnd (schedule_transaction n (snd p1)) (\<lambda>t. Inr (fst p1, t))) = Inr p2"
    "(if fee_model n then dispatch_fee_action n p2 else Inr p2) = Inr q"
    using assms(1) unfolding exec_trx_def chk_Inr bnd_Inr case_prod_beta by (elim exE conjE) (rule that)
  obtain ts1 t1 ts2 t2 where pq: "p1 = (ts1, t1)" "p2 = (ts2, t2)" by (cases p1, cases p2)
  note p = e(1) [unfolded pq] and p2 = e(2) [unfolded pq fst_conv snd_conv] and q = e(3) [unfolded pq]
  note ty = assms(4) [unfolded trx_typed_def]
  have cf: "list_all (action_typed n) (trx_context_free_actions (tx_trx t))" and ac: "list_all (action_typed n) (trx_actions (tx_trx t))"
    using ty by simp_all
  have 1: "chain_billed n (tx_chain t) (tx_chain t1) \<and> tx_trx t1 = tx_trx t"
  proof (cases "tx_apply_context_free t")
    case True
    then have e: "exec_actions n True (trx_context_free_actions (tx_trx t)) ([], t) = Inr (ts1, t1)" using p by simp
    show ?thesis
      using exec_actions_billed [OF e assms(2,3) cf] trx_frame_eqD(1) [OF exec_actions_frame [OF e assms(3) cf]] by simp
  next
    case False
    then show ?thesis using p chain_billed_refl [OF assms(2)] by simp
  qed
  note wf1 = chain_billed_wf [OF 1 [THEN conjunct1]]
  have 2: "chain_billed n (tx_chain t1) (tx_chain t2)"
  proof (cases "tx_delay t1 = 0")
    case True
    then have "exec_actions n False (trx_actions (tx_trx t)) (ts1, t1) = Inr (ts2, t2)" using p2 1 by simp
    from exec_actions_billed [OF this wf1 assms(3) ac] show ?thesis by simp
  next
    case False
    then have "schedule_transaction n t1 = Inr t2" using p2 by (simp add: res_simps)
    from schedule_transaction_billed [OF this wf1 assms(3)] show ?thesis using assms(4) 1 by simp
  qed
  note wf2 = chain_billed_wf [OF 2]
  have 3: "chain_billed n (tx_chain t2) (tx_chain (snd q))"
    using q dispatch_billed [OF _ wf2 assms(3) fee_action_typed, of False t2 ts2 q] chain_billed_refl [OF wf2]
    by (auto simp: dispatch_fee_action_def split: if_splits)
  show ?thesis by (rule chain_billed_trans [OF chain_billed_trans [OF 1 [THEN conjunct1] 2] 3])
qed


lemma usage_held: "auth_held n a (db\<lparr>usages := u\<rparr>) = auth_held n a db"
  by (simp add: auth_held_def)

lemma usage_wf: "auth_wf n db \<Longrightarrow> auth_wf n (db\<lparr>usages := u\<rparr>)"
  using perms_ok_frame [of "db\<lparr>usages := u\<rparr>" db] by (simp add: auth_wf_def)

lemma update_usages_billed:
  assumes "update_usages n t = Inr t'" "chain_wf n (tx_chain t)"
  shows "chain_billed n (tx_chain t) (tx_chain t')"
proof (cases "tx_is_input t")
  case True
  then obtain d where d: "for_each (\<lambda>l db. bnd (get_permission db l) (\<lambda>p. update_permission_usage (pending_block_time n) (snd p) db))
             (concat (map act_authorization (trx_actions (tx_trx t)))) (cs_auth (tx_chain t)) = Inr d"
    and t': "t' = t\<lparr>tx_chain := (tx_chain t)\<lparr>cs_auth := d\<rparr>\<rparr>"
    using assms(1) by (auto simp: update_usages_def res_simps)
  have "auth_wf n d \<and> (\<forall>a. auth_held n a d = auth_held n a (cs_auth (tx_chain t)))"
    by (rule for_each_inv [OF d, where P = "\<lambda>d. auth_wf n d \<and> (\<forall>a. auth_held n a d = auth_held n a (cs_auth (tx_chain t)))"])
      (use assms(2) in \<open>auto simp: update_permission_usage_def res_simps usage_wf usage_held chain_wf_def\<close>)
  then show ?thesis using assms(2) by (simp add: t' chain_billed_def chain_wf_def surplus_def)
qed (use assms in \<open>simp add: update_usages_def chain_billed_refl\<close>)

lemma finalize_billed:
  assumes "finalize n t = Inr t'" "chain_wf n (tx_chain t)"
  shows "chain_billed n (tx_chain t) (tx_chain t')"
proof -
  obtain z r where z: "finalize_checks n t = Inr z"
    and r: "add_transaction_usage (tx_bill_to_accounts z) (u64 (tx_billed_cpu_time_us z)) (tx_net_usage z) (pending_slot n) (cs_rl (tx_chain z)) = Inr r"
    and t': "t' = z\<lparr>tx_chain := (tx_chain z)\<lparr>cs_rl := r\<rparr>\<rparr>"
    using assms(1) by (auto simp: finalize_def res_simps)
  obtain v lims now where v: "update_usages n t = Inr v" and z': "z = update_billed_cpu_time n now (snd (read_clock n (final_limits lims v)))"
    using z unfolding finalize_checks_def chk_Inr bnd_Inr lift_Inr Let_def case_prod_beta
    by (elim exE conjE) (rule that, assumption, erule Inr_inject [THEN sym])
  have v: "update_usages n t = Inr v" "tx_chain z = tx_chain v"
    using v by (simp_all add: z' update_billed_cpu_time_def read_clock_def final_limits_def Let_def case_prod_beta)
  note 1 = update_usages_billed [OF v(1) assms(2)]
  have "chain_billed n (tx_chain v) ((tx_chain v)\<lparr>cs_rl := r\<rparr>)"
    using same_ram_billed [OF same_ram_add [OF r]] chain_billed_wf [OF 1] v(2) by simp
  from chain_billed_trans [OF 1 this] show ?thesis by (simp add: t' v(2))
qed


subsection \<open>The transactions of a block\<close>

lemma new_context_chain: "new_context trx i start s = Inr t \<Longrightarrow> tx_chain t = s \<and> tx_trx t = trx \<and> tx_executed t = []"
  by (auto simp: new_context_def res_simps)

lemma set_fee_data_chain:
  "set_fee_data t = Inr t' \<Longrightarrow> tx_chain t' = tx_chain t \<and> tx_trx t' = tx_trx t \<and> tx_executed t' = tx_executed t"
  by (auto simp: set_fee_data_def res_simps split: list.splits)

lemma recorded_billed: "chain_wf n s \<Longrightarrow> chain_billed n s (s\<lparr>known_transactions := k\<rparr>)"
  by (simp add: chain_billed_def chain_wf_def surplus_def)

lemma init_trx_billed:
  assumes "init_trx n m skip t = Inr t'" "chain_wf n (tx_chain t)"
  shows "chain_billed n (tx_chain t) (tx_chain t') \<and> tx_trx t' = tx_trx t"
proof (cases "tm_implicit m")
  case True
  then obtain z where z: "init n 0 (t\<lparr>tx_published := pending_block_time n\<rparr>) = Inr z" "t' = z\<lparr>tx_enforce_whiteblacklist := False\<rparr>"
    using assms(1) by (auto simp: init_trx_def init_for_implicit_trx_def res_simps)
  from init_billed [OF z(1)] assms(2) show ?thesis by (simp add: z(2))
next
  case False
  then obtain u z where z: "init n u (t\<lparr>tx_published := pending_block_time n, tx_is_input := True\<rparr>) = Inr z"
    and t': "(if skip then Inr z else record_transaction (tx_id z) (trx_expiration (tx_trx z)) z) = Inr t'"
    using assms(1) unfolding init_trx_def init_for_input_trx_def Let_def by (auto simp: bnd_Inr)
  note i = init_billed [OF z]
  have 1: "chain_billed n (tx_chain t) (tx_chain z)" "tx_trx z = tx_trx t" using i assms(2) by simp_all
  show ?thesis
  proof (cases skip)
    case True
    then show ?thesis using t' 1 by simp
  next
    case False
    then obtain k where "t' = z\<lparr>tx_chain := (tx_chain z)\<lparr>known_transactions := k\<rparr>\<rparr>"
      using t' by (auto simp: record_transaction_def res_simps)
    then show ?thesis using 1 chain_billed_trans [OF 1(1) recorded_billed [OF chain_billed_wf [OF 1(1)]]] by simp
  qed
qed

definition pending_billed :: "controller \<Rightarrow> pending_state \<Rightarrow> pending_state \<Rightarrow> bool" where
  "pending_billed n p q \<longleftrightarrow> chain_billed n (pb_chain p) (pb_chain q)"

lemma push_receipt_chain: "push_receipt i st c u p = Inr q \<Longrightarrow> pb_chain q = pb_chain p"
  by (auto simp: push_receipt_def res_simps)

lemma run_input_trxE:
  assumes "run_input_trx n m skip t p = Inr q"
  obtains t1 t2 ts t3 t4 p' where "init_trx n m skip t = Inr t1"
    and "(if fee_model n \<and> \<not> tm_implicit m then set_fee_data (t1\<lparr>tx_delay := trx_delay_sec (tm_trx m) * 1000000\<rparr>)
       else Inr (t1\<lparr>tx_delay := trx_delay_sec (tm_trx m) * 1000000\<rparr>)) = Inr t2"
    and "exec_trx n t2 = Inr (ts, t3)" "finalize n t3 = Inr t4" "pb_actions p' = pb_actions p"
    and "q = (if \<not> speculative_reads n \<and> is_producing_block n then p
       else p'\<lparr>pb_actions := pb_actions p' @ tx_executed t4, pb_chain := tx_chain t4\<rparr>)"
proof -
  obtain t1 t2 e t4 p' where t1: "init_trx n m skip t = Inr t1"
    and t2: "(if fee_model n \<and> \<not> tm_implicit m then set_fee_data (t1\<lparr>tx_delay := trx_delay_sec (tm_trx m) * 1000000\<rparr>)
       else Inr (t1\<lparr>tx_delay := trx_delay_sec (tm_trx m) * 1000000\<rparr>)) = Inr t2"
    and e: "exec_trx n t2 = Inr e" and t4: "finalize n (snd e) = Inr t4"
    and p': "(if tm_implicit m then Inr p
          else push_receipt (tm_id m) (if tx_delay t4 = 0 then Executed else Delayed) (u64 (tx_billed_cpu_time_us t4)) (tx_net_usage t4) p) = Inr p'"
    and q: "q = (if \<not> speculative_reads n \<and> is_producing_block n then p
       else p'\<lparr>pb_actions := pb_actions p' @ tx_executed t4, pb_chain := tx_chain t4\<rparr>)"
    using assms unfolding run_input_trx_def Let_def bnd_Inr case_prod_beta
    by (elim exE conjE) (rule that, assumption, assumption, assumption, assumption, assumption, erule Inr_inject [THEN sym])
  have "pb_actions p' = pb_actions p" using p' by (auto simp: push_receipt_def chk_Inr split: if_splits)
  moreover have "exec_trx n t2 = Inr (fst e, snd e)" using e by simp
  ultimately show ?thesis using that [OF t1 t2 _ t4 _ q] by blast
qed

lemma run_input_trx_billed:
  assumes "run_input_trx n m skip t p = Inr q" "tx_chain t = pb_chain p" "tx_trx t = tm_trx m" "chain_wf n (pb_chain p)" "node_typed n" "trx_typed n (tm_trx m)"
  shows "chain_billed n (pb_chain p) (pb_chain q)"
proof -
  obtain t1 t2 ts t3 t4 p' where t1: "init_trx n m skip t = Inr t1"
    and t2: "(if fee_model n \<and> \<not> tm_implicit m then set_fee_data (t1\<lparr>tx_delay := trx_delay_sec (tm_trx m) * 1000000\<rparr>)
       else Inr (t1\<lparr>tx_delay := trx_delay_sec (tm_trx m) * 1000000\<rparr>)) = Inr t2"
    and e: "exec_trx n t2 = Inr (ts, t3)" and t4: "finalize n t3 = Inr t4"
    and q: "q = (if \<not> speculative_reads n \<and> is_producing_block n then p
       else p'\<lparr>pb_actions := pb_actions p' @ tx_executed t4, pb_chain := tx_chain t4\<rparr>)"
    by (rule run_input_trxE [OF assms(1)])
  note 1 = init_trx_billed [OF t1, unfolded assms(2,3), OF assms(4)]
  have 2: "tx_chain t2 = tx_chain t1" "tx_trx t2 = tm_trx m" using t2 1 by (auto split: if_splits dest: set_fee_data_chain)
  have wf: "chain_wf n (tx_chain t2)" using chain_billed_wf [OF 1 [THEN conjunct1]] 2(1) by simp
  have 3: "chain_billed n (tx_chain t2) (tx_chain t3)" using exec_trx_billed [OF e wf assms(5)] by (simp add: 2(2) assms(6))
  note 4 = finalize_billed [OF t4 chain_billed_wf [OF 3]]
  have all: "chain_billed n (pb_chain p) (tx_chain t4)"
    using chain_billed_trans [OF 1 [THEN conjunct1]] chain_billed_trans [OF 3 4] 2(1) by simp
  then show ?thesis using chain_billed_refl [OF assms(4)] by (simp add: q)
qed

lemma push_transaction_cases:
  assumes "push_transaction n m deadline b ex skip p = Inr (e, q)"
  obtains (failed) "q = p"
    | (done_trx) t where "tx_chain t = pb_chain p" "tx_trx t = tm_trx m" "tx_executed t = []" "run_input_trx n m skip t p = Inr q"
proof -
  obtain t where "tx_chain t = pb_chain p" "tx_trx t = tm_trx m" "tx_executed t = []"
    and "(case run_input_trx n m skip t p of Inl e \<Rightarrow> Inr (Some e, p) | Inr q \<Rightarrow> Inr (None, q)) = (Inr (e, q) :: exec_error + _)"
    using assms unfolding push_transaction_def chk_Inr bnd_Inr Let_def
    by (elim exE conjE, elim that [rotated 3]) (auto dest!: new_context_chain split: option.splits)
  with failed done_trx show ?thesis by (auto split: sum.splits)
qed

lemma push_transaction_billed:
  assumes "push_transaction n m deadline b ex skip p = Inr (e, q)" "chain_wf n (pb_chain p)" "node_typed n" "trx_typed n (tm_trx m)"
  shows "chain_billed n (pb_chain p) (pb_chain q)"
  using assms(1)
proof (cases rule: push_transaction_cases)
  case failed
  then show ?thesis using chain_billed_refl [OF assms(2)] by simp
next
  case (done_trx t)
  then show ?thesis using run_input_trx_billed assms(2-4) by blast
qed


text \<open>A generated transaction always runs with all checks; what the invariant says does not depend on the switches.\<close>

definition with_checks :: "controller \<Rightarrow> controller" where
  "with_checks n = n\<lparr>skip_auth_check := False, skip_trx_checks := False\<rparr>"

lemma with_checks_simps [simp]: "auth_size (with_checks n) = auth_size n" "is_producing_block (with_checks n) = is_producing_block n"
  "contract (with_checks n) = contract n" "trx_pack (with_checks n) = trx_pack n"
  by (simp_all add: with_checks_def auth_size_def fun_eq_iff)

lemma with_checks_typed [simp]: "data_typed (with_checks n) = data_typed n" "action_typed (with_checks n) = action_typed n"
  "trx_typed (with_checks n) = trx_typed n" "call_typed (with_checks n) = call_typed n" "program_typed (with_checks n) = program_typed n"
  "node_typed (with_checks n) = node_typed n"
proof -
  have d: "data_typed (with_checks n) = data_typed n"
  proof
    fix d show "data_typed (with_checks n) d = data_typed n d" by (cases d) simp_all
  qed
  have a: "action_typed (with_checks n) = action_typed n" by (simp add: fun_eq_iff action_typed_def d)
  have t: "trx_typed (with_checks n) = trx_typed n" by (simp add: fun_eq_iff trx_typed_def a)
  have c: "call_typed (with_checks n) = call_typed n"
  proof
    fix c show "call_typed (with_checks n) c = call_typed n c" by (cases c) (simp_all add: a t)
  qed
  have p: "program_typed (with_checks n) = program_typed n"
  proof
    fix p show "program_typed (with_checks n) p = program_typed n p" by (induction p) (simp_all add: c)
  qed
  show "data_typed (with_checks n) = data_typed n" "action_typed (with_checks n) = action_typed n"
    "trx_typed (with_checks n) = trx_typed n" "call_typed (with_checks n) = call_typed n" "program_typed (with_checks n) = program_typed n"
    "node_typed (with_checks n) = node_typed n" using d a t c p by (simp_all add: node_typed_def)
qed

lemma with_checks_billed [simp]: "auth_held (with_checks n) = auth_held n" "chain_wf (with_checks n) = chain_wf n" "chain_billed (with_checks n) = chain_billed n"
proof -
  have h: "auth_held (with_checks n) = auth_held n" by (simp add: fun_eq_iff auth_held_def permission_bytes_def cong: if_cong)
  have w: "chain_wf (with_checks n) = chain_wf n" by (simp add: fun_eq_iff chain_wf_def auth_wf_def)
  show "auth_held (with_checks n) = auth_held n" "chain_wf (with_checks n) = chain_wf n" by (rule h, rule w)
  show "chain_billed (with_checks n) = chain_billed n" by (simp add: fun_eq_iff chain_billed_def surplus_def billed_def h w)
qed

lemma remove_scheduled_billed:
  assumes "remove_scheduled_transaction g s = Inr s'" "chain_wf n s" "g \<in> set (deferred (cs_auth s))"
  shows "chain_billed n s s'"
proof -
  obtain r where r: "add_pending_ram_usage (def_payer (snd g)) (- deferred_bytes (snd g)) (cs_rl s) = Inr r"
    and s': "s' = s\<lparr>cs_auth := (cs_auth s)\<lparr>deferred := filter (\<lambda>x. fst x \<noteq> fst g) (deferred (cs_auth s))\<rparr>, cs_rl := r\<rparr>"
    using assms(1) by (auto simp: remove_scheduled_transaction_def deferred_bytes_def res_simps)
  have "auth_wf n (cs_auth s)" using assms(2) by (simp add: chain_wf_def)
  from chain_pays [OF assms(2) drop_deferred_pays [OF this assms(3) refl] r] show ?thesis by (simp add: s')
qed

lemma run_scheduledE:
  assumes "run_scheduled_trx n g t p = Inr q"
  obtains t1 t2 ts t3 t4 where "init n 0 (t\<lparr>tx_published := def_published (snd g), tx_apply_context_free := False\<rparr>) = Inr t1"
    and "(if fee_model n then set_fee_data t1 else Inr t1) = Inr t2"
    and "exec_trx n t2 = Inr (ts, t3)" "finalize n t3 = Inr t4" "pb_chain q = tx_chain t4" "pb_actions q = pb_actions p @ tx_executed t4"
proof -
  obtain t1 t2 e t4 where t1: "init n 0 (t\<lparr>tx_published := def_published (snd g), tx_apply_context_free := False\<rparr>) = Inr t1"
    and t2: "(if fee_model n then set_fee_data t1 else Inr t1) = Inr t2"
    and e: "exec_trx n t2 = Inr e" and t4: "finalize n (snd e) = Inr t4" and q: "pb_chain q = tx_chain t4" "pb_actions q = pb_actions p @ tx_executed t4"
    using assms(1) unfolding run_scheduled_trx_def init_for_deferred_trx_def bnd_Inr case_prod_beta
    by (elim exE conjE) (rule that, assumption, assumption, assumption, assumption, auto simp: push_receipt_def chk_Inr)
  moreover have "exec_trx n t2 = Inr (fst e, snd e)" using e by simp
  ultimately show ?thesis using that by blast
qed

lemma run_scheduled_billed:
  assumes "run_scheduled_trx n g t p = Inr q" "tx_chain t = pb_chain p" "tx_trx t = def_trx (snd g)" "chain_wf n (pb_chain p)" "node_typed n" "trx_typed n (def_trx (snd g))"
  shows "chain_billed n (pb_chain p) (pb_chain q)"
proof -
  obtain t1 t2 ts t3 t4 where t1: "init n 0 (t\<lparr>tx_published := def_published (snd g), tx_apply_context_free := False\<rparr>) = Inr t1"
    and t2: "(if fee_model n then set_fee_data t1 else Inr t1) = Inr t2"
    and e: "exec_trx n t2 = Inr (ts, t3)" and t4: "finalize n t3 = Inr t4" and q: "pb_chain q = tx_chain t4"
    by (rule run_scheduledE [OF assms(1)])
  have 1: "chain_billed n (pb_chain p) (tx_chain t1)" "tx_trx t1 = def_trx (snd g)"
    using init_billed [OF t1] assms(2-4) by simp_all
  have 2: "tx_chain t2 = tx_chain t1" "tx_trx t2 = def_trx (snd g)" using t2 1(2) by (auto split: if_splits dest: set_fee_data_chain)
  have 3: "chain_billed n (tx_chain t1) (tx_chain t3)"
    using exec_trx_billed [OF e _ assms(5)] chain_billed_wf [OF 1(1)] 2 assms(6) by simp
  note 4 = finalize_billed [OF t4 chain_billed_wf [OF 3]]
  show ?thesis using chain_billed_trans [OF 1(1) chain_billed_trans [OF 3 4]] by (simp add: q)
qed

lemma apply_onerrorE:
  assumes "apply_onerror n g deadline start b ex enforce p = Inr q"
  obtains t t1 tr t3 t4 where "tx_chain t = pb_chain p" "tx_executed t = []" "init n 0 t = Inr t1"
    and "exec_action n 0 False (hd (trx_actions (onerror_trx n (snd g)))) (def_sender (snd g)) (t1\<lparr>tx_published := def_published (snd g)\<rparr>) = Inr (tr, t3)"
    and "finalize n t3 = Inr t4" "pb_chain q = tx_chain t4" "pb_actions q = pb_actions p @ tx_executed t4"
proof -
  obtain t t1 e t4 p' where t: "new_context (onerror_trx n (snd g)) (trx_digest n (onerror_trx n (snd g))) start (pb_chain p) = Inr t"
    and t1: "init n 0 (t\<lparr>tx_deadline := deadline, tx_explicit_billed_cpu_time := ex, tx_billed_cpu_time_us := b,
       tx_enforce_whiteblacklist := enforce, tx_published := pending_block_time n\<rparr>) = Inr t1"
    and e: "exec_action n 0 False (hd (trx_actions (tx_trx (t1\<lparr>tx_published := def_published (snd g)\<rparr>)))) (def_sender (snd g))
        (t1\<lparr>tx_published := def_published (snd g)\<rparr>) = Inr e"
    and t4: "finalize n (snd e) = Inr t4"
    and p': "push_receipt (fst g) Soft_fail (u64 (tx_billed_cpu_time_us t4)) (tx_net_usage t4) p = Inr p'"
    and q': "q = p'\<lparr>pb_actions := pb_actions p' @ tx_executed t4, pb_chain := tx_chain t4\<rparr>"
    using assms(1) unfolding apply_onerror_def run_onerror_def init_for_implicit_trx_def bnd_Inr case_prod_beta Let_def
    by (elim exE conjE) (rule that, assumption, simp, assumption, assumption, assumption, erule Inr_inject [THEN sym])
  have q: "pb_chain q = tx_chain t4" "pb_actions q = pb_actions p @ tx_executed t4" using p' by (auto simp: q' push_receipt_def chk_Inr)
  have "tx_trx t1 = onerror_trx n (snd g)" by (rule init_result [OF t1]) (use new_context_chain [OF t] in simp)
  then have "exec_action n 0 False (hd (trx_actions (onerror_trx n (snd g)))) (def_sender (snd g)) (t1\<lparr>tx_published := def_published (snd g)\<rparr>) = Inr (fst e, snd e)"
    using e by simp
  from that [OF _ _ t1 this t4 q] show ?thesis using new_context_chain [OF t] by simp
qed

lemma apply_onerror_billed:
  assumes "apply_onerror n g deadline start b ex enforce p = Inr q" "chain_wf n (pb_chain p)" "node_typed n"
  shows "chain_billed n (pb_chain p) (pb_chain q)"
proof -
  obtain t t1 tr t3 t4 where t: "tx_chain t = pb_chain p" and t1: "init n 0 t = Inr t1"
    and e: "exec_action n 0 False (hd (trx_actions (onerror_trx n (snd g)))) (def_sender (snd g)) (t1\<lparr>tx_published := def_published (snd g)\<rparr>) = Inr (tr, t3)"
    and t4: "finalize n t3 = Inr t4" and q: "pb_chain q = tx_chain t4"
    by (rule apply_onerrorE [OF assms(1)])
  have 1: "chain_billed n (pb_chain p) (tx_chain t1)" using init_billed(1) [OF t1] t assms(2) by simp
  have a: "action_typed n (hd (trx_actions (onerror_trx n (snd g))))" by (simp add: onerror_trx_def action_typed_def data_ok_def)
  have 3: "chain_billed n (tx_chain t1) (tx_chain t3)" using exec_action_billed [OF e _ assms(3) a] chain_billed_wf [OF 1] by simp
  note 4 = finalize_billed [OF t4 chain_billed_wf [OF 3]]
  show ?thesis using chain_billed_trans [OF 1 chain_billed_trans [OF 3 4]] by (simp add: q)
qed

lemma hard_fail_billed:
  assumes "hard_fail n i t cpu ex p = Inr q" "chain_wf n (pb_chain p)"
  shows "chain_billed n (pb_chain p) (pb_chain q)"
proof -
  obtain cs r where c: "(if ex then Inr (cpu, pb_chain p)
           else bnd (lift_rl (update_account_usage (fst (failed_limits n t)) (pending_slot n) (cs_rl (pb_chain p)))) (\<lambda>r.
             bnd (max_bandwidth_billed_accounts_can_pay n True (t\<lparr>tx_bill_to_accounts := fst (failed_limits n t), tx_chain := (pb_chain p)\<lparr>cs_rl := r\<rparr>\<rparr>)) (\<lambda>l.
             Inr (u32 (min (min cpu (fst (snd l))) (snd (failed_limits n t))), (pb_chain p)\<lparr>cs_rl := r\<rparr>)))) = Inr cs"
    and r: "add_transaction_usage (fst (failed_limits n t)) (fst cs) 0 (pending_slot n) (cs_rl (snd cs)) = Inr r"
    and q: "push_receipt i Hard_fail (fst cs) 0 (p\<lparr>pb_chain := (snd cs)\<lparr>cs_rl := r\<rparr>\<rparr>) = Inr q"
    using assms(1) unfolding hard_fail_def Let_def bnd_Inr case_prod_beta lift_Inr by (elim exE conjE) (rule that)
  have 1: "chain_billed n (pb_chain p) (snd cs)"
    using c same_ram_billed [OF same_ram_update assms(2)] chain_billed_refl [OF assms(2)] by (auto simp: res_simps split: if_splits)
  have "chain_billed n (snd cs) ((snd cs)\<lparr>cs_rl := r\<rparr>)" by (rule same_ram_billed [OF same_ram_add [OF r] chain_billed_wf [OF 1]])
  from chain_billed_trans [OF 1 this] show ?thesis using push_receipt_chain [OF q] by simp
qed


lemma retire_failed_billed:
  assumes "retire_failed n i t e cpu ex p r = Inr (e', q)" "chain_wf n (pb_chain p)" "chain_billed n (pb_chain p) (pb_chain r)"
  shows "chain_billed n (pb_chain p) (pb_chain q)"
proof (cases "if ex then failure_is_subjective e else scheduled_failure_is_subjective e")
  case True
  then show ?thesis using assms(1) chain_billed_refl [OF assms(2)] by (auto simp: retire_failed_def split: if_splits)
next
  case False
  then have "hard_fail n i t cpu ex r = Inr q" using assms(1) by (auto simp: retire_failed_def res_simps)
  from chain_billed_trans [OF assms(3) hard_fail_billed [OF this chain_billed_wf [OF assms(3)]]] show ?thesis .
qed

lemma push_scheduled_cases:
  assumes "push_scheduled_transaction n i deadline b ex now1 now2 p = Inr (e, q)"
  obtains (outcome) g s where "g \<in> set (deferred (cs_auth (pb_chain p)))" "remove_scheduled_transaction g (pb_chain p) = Inr s"
    and "push_receipt i Expired b 0 (p\<lparr>pb_chain := s\<rparr>) = Inr q
      \<or> (\<exists>t. tx_chain t = s \<and> tx_trx t = def_trx (snd g) \<and> tx_executed t = [] \<and> run_scheduled_trx (with_checks n) g t (p\<lparr>pb_chain := s\<rparr>) = Inr q)
      \<or> (\<exists>start enforce. apply_onerror (with_checks n) g deadline start b ex enforce (p\<lparr>pb_chain := s\<rparr>) = Inr q)
      \<or> (\<exists>t e' cpu e''. retire_failed (with_checks n) i t e' cpu ex p (p\<lparr>pb_chain := s\<rparr>) = Inr (e'', q))"
proof -
  obtain g s where g: "find (\<lambda>r. fst r = i) (deferred (cs_auth (pb_chain p))) = Some g"
    and s: "remove_scheduled_transaction g (pb_chain p) = Inr s"
    using assms(1) unfolding push_scheduled_transaction_def need_Inr bnd_Inr by (elim exE conjE) (rule that)
  have gin: "g \<in> set (deferred (cs_auth (pb_chain p)))" using g by (auto simp: find_Some_iff)
  let ?r = "p\<lparr>pb_chain := s\<rparr>" and ?n = "with_checks n"
  let ?start = "snd (clock ?n 0)" and ?enf = "def_sender (snd g) = 0 \<or> \<not> sender_avoids_lists ?n (def_sender (snd g))"
  show ?thesis
  proof (cases "def_expiration (snd g) < pending_block_time n")
    case True
    then have "push_receipt i Expired b 0 ?r = Inr q"
      using assms(1) g s by (auto simp: push_scheduled_transaction_def res_simps)
    then show ?thesis using outcome [OF gin s] by blast
  next
    case False
    then obtain t0 where t0: "new_context (def_trx (snd g)) i ?start s = Inr t0"
      and run: "(case run_scheduled_trx ?n g (t0\<lparr>tx_leeway := 0, tx_deadline := deadline, tx_explicit_billed_cpu_time := ex,
            tx_billed_cpu_time_us := b, tx_enforce_whiteblacklist := ?enf\<rparr>) ?r of
          Inr q \<Rightarrow> Inr (None, q)
        | Inl e \<Rightarrow> (if def_sender (snd g) \<noteq> 0 \<and> \<not> failure_is_subjective e
             then (case apply_onerror ?n g deadline ?start b ex ?enf ?r of
                     Inr q \<Rightarrow> Inr (None, q)
                   | Inl e' \<Rightarrow> retire_failed ?n i (t0\<lparr>tx_leeway := 0, tx_deadline := deadline, tx_explicit_billed_cpu_time := ex,
            tx_billed_cpu_time_us := b, tx_enforce_whiteblacklist := ?enf\<rparr>) e' (billed_on_failure ?n ex b ?start now2) ex p ?r)
             else retire_failed ?n i (t0\<lparr>tx_leeway := 0, tx_deadline := deadline, tx_explicit_billed_cpu_time := ex,
            tx_billed_cpu_time_us := b, tx_enforce_whiteblacklist := ?enf\<rparr>) e (billed_on_failure ?n ex b ?start now1) ex p ?r))
        = (Inr (e, q) :: exec_error + _)"
      using assms(1) g s unfolding push_scheduled_transaction_def Let_def with_checks_def [symmetric] by (auto simp: res_simps)
    define t where "t = t0\<lparr>tx_leeway := 0, tx_deadline := deadline, tx_explicit_billed_cpu_time := ex,
            tx_billed_cpu_time_us := b, tx_enforce_whiteblacklist := ?enf\<rparr>"
    have "tx_chain t = s" "tx_trx t = def_trx (snd g)" "tx_executed t = []" using new_context_chain [OF t0] by (simp_all add: t_def)
    moreover have "run_scheduled_trx ?n g t ?r = Inr q \<or> (\<exists>start enforce. apply_onerror ?n g deadline start b ex enforce ?r = Inr q)
      \<or> (\<exists>t e' cpu e''. retire_failed ?n i t e' cpu ex p ?r = Inr (e'', q))"
    proof (cases "run_scheduled_trx ?n g t ?r")
      case (Inr q')
      then show ?thesis using run [folded t_def] by simp
    next
      case (Inl e1)
      note run1 = run [folded t_def, unfolded Inl sum.case]
      show ?thesis
      proof (cases "def_sender (snd g) \<noteq> 0 \<and> \<not> failure_is_subjective e1")
        case True
        note run2 = run1 [unfolded if_P [OF True]]
        show ?thesis
        proof (cases "apply_onerror ?n g deadline ?start b ex ?enf ?r")
          case (Inr q')
          then have "q' = q" using run2 by simp
          then show ?thesis using Inr by blast
        next
          case (Inl e2)
          show ?thesis using run2 [unfolded Inl sum.case] by blast
        qed
      next
        case False
        show ?thesis using run1 [unfolded if_not_P [OF False]] by blast
      qed
    qed
    ultimately show ?thesis using outcome [OF gin s] by blast
  qed
qed

lemma push_scheduled_billed:
  assumes "push_scheduled_transaction n i deadline b ex now1 now2 p = Inr (e, q)" "chain_wf n (pb_chain p)" "node_typed n"
  shows "chain_billed n (pb_chain p) (pb_chain q)"
  using assms(1)
proof (cases rule: push_scheduled_cases)
  case (outcome g s)
  have gt: "trx_typed n (def_trx (snd g))" using auth_wfD(9) [OF _ outcome(1)] assms(2) by (simp add: chain_wf_def)
  note rem = remove_scheduled_billed [OF outcome(2) assms(2) outcome(1)]
  let ?r = "p\<lparr>pb_chain := s\<rparr>" and ?n = "with_checks n"
  have sch: "chain_billed n s (pb_chain q)" if "run_scheduled_trx ?n g t ?r = Inr q" "tx_chain t = s" "tx_trx t = def_trx (snd g)" for t
    using run_scheduled_billed [OF that(1)] that(2,3) chain_billed_wf [OF rem] assms(3) gt by simp
  have err: "chain_billed n s (pb_chain q)" if "apply_onerror ?n g deadline start b ex enforce ?r = Inr q" for start enforce
    using apply_onerror_billed [OF that] chain_billed_wf [OF rem] assms(3) by simp
  have ret: "chain_billed n (pb_chain p) (pb_chain q)" if "retire_failed ?n i t e' cpu ex p ?r = Inr (e'', q)" for t e' cpu e''
    using retire_failed_billed [OF that] assms(2) rem by simp
  have exp: "chain_billed n s (pb_chain q)" if "push_receipt i Expired b 0 ?r = Inr q"
    using push_receipt_chain [OF that] chain_billed_refl [OF chain_billed_wf [OF rem]] by simp
  show ?thesis
    using outcome(3) sch err ret exp chain_billed_trans [OF rem] by blast
qed

end
