(* ===== verification/Block_Ram.thy ===== *)
theory Block_Ram
  imports Exec_Ram
begin

text \<open>
  The transactions of a block, as the calls \<open>push_transaction\<close> and \<open>push_scheduled_transaction\<close> to the controller, with a small
  chain on which they run: two accounts, one with a contract that stores a row and notifies the other account.
\<close>

datatype trx_call =
    Push transaction_metadata int int bool bool
  | Push_scheduled digest int int bool int int

fun push_call :: "controller \<Rightarrow> trx_call \<Rightarrow> pending_state \<Rightarrow> exec_error + pending_state" where
  "push_call n (Push m deadline us explicit skip_recording) p =
     bnd (push_transaction n m deadline us explicit skip_recording p) (\<lambda>(e, q). Inr q)"
| "push_call n (Push_scheduled i deadline us explicit now1 now2) p =
     bnd (push_scheduled_transaction n i deadline us explicit now1 now2 p) (\<lambda>(e, q). Inr q)"

fun trx_call_typed :: "controller \<Rightarrow> trx_call \<Rightarrow> bool" where
  "trx_call_typed n (Push m _ _ _ _) = trx_typed n (tm_trx m)"
| "trx_call_typed n (Push_scheduled _ _ _ _ _ _) = True"

definition footprint :: "controller \<Rightarrow> chain_state \<Rightarrow> account_name \<Rightarrow> int" where
  "footprint n s a = held a (cs_cdb s) + auth_held n a (cs_auth s)"

interpretation block_run: action_system "push_call n" "\<lambda>q. node_typed n \<and> chain_billed n s (pb_chain q)" "trx_call_typed n" for n s
proof
  fix p c q assume p: "node_typed n \<and> chain_billed n s (pb_chain p)" and c: "trx_call_typed n c" "push_call n c p = Inr q"
  note wf = chain_billed_wf [OF p [THEN conjunct2]]
  have "chain_billed n (pb_chain p) (pb_chain q)"
    using c p push_transaction_billed [OF _ wf] push_scheduled_billed [OF _ wf] by (cases c) (auto simp: res_simps)
  then show "node_typed n \<and> chain_billed n s (pb_chain q)" using p chain_billed_trans by blast
qed

subsection \<open>A small chain\<close>

definition demo_code :: digest where "demo_code = Digest 1 0 0 0"
definition hi_name :: action_name where "hi_name = string_to_name ''hi''"

lemma hi_literal [code abstract]: "Word.the_int hi_name = 7746191359077253120"
  by (simp add: hi_name_def string_to_name_eval)

text \<open>The contract of \<open>alice\<close>; \<open>bob\<close> has none.\<close>

definition demo_program :: "digest \<Rightarrow> account_name \<Rightarrow> chain_action \<Rightarrow> bool \<Rightarrow> program" where
  "demo_program c r a cf =
     Call (Db_call (Store 5 6 alice 7 [10, 20])) (\<lambda>_. Call (Require_recipient bob) (\<lambda>_. Finish))"

definition demo_node :: controller where
  "demo_node = \<lparr>c_auth = demo_config, max_inline_action_size = 4096, max_inline_action_depth = 4, base_per_transaction_net_usage = 12, max_transaction_net_usage = 524288,
     net_usage_leeway = 500, context_free_discount_net_usage_num = 20, context_free_discount_net_usage_den = 100,
     max_transaction_cpu_usage = 150000, min_transaction_cpu_usage = 100, max_transaction_lifetime = 3600, deferred_trx_expiration_window = 600,
     pending_block_time = 10000000, pending_slot = 20, head_block_num = 19, head_reference = (0, 0), block_summary = (\<lambda>k. (k, 0)),
     is_producing_block = True, skip_auth_check = False, skip_trx_checks = False, allow_ram_billing_in_notify = False,
     actor_whitelist = [], contract_whitelist = [], action_blacklist = [], key_blacklist = [], sender_bypass_whiteblacklist = [],
     speculative_reads = True, subjective_cpu_leeway = None, fee_model = False, clock = (\<lambda>_. (False, 5000)), contract = demo_program,
     trx_digest = (\<lambda>_. zero_digest), trx_pack = (\<lambda>_. [1, 2, 3]), action_digest = (\<lambda>_. zero_digest), action_pack_size = (\<lambda>_. 40), key_pack_size = (\<lambda>_. 34),
     code_hash = (\<lambda>_. zero_digest), wasm_validate = (\<lambda>_. True)\<rparr>"

definition demo_holder :: "digest \<Rightarrow> nat list \<Rightarrow> account_object" where
  "demo_holder v c = \<lparr>acc_privileged = False, acc_creation_date = 5, acc_last_code_update = 5, acc_code_version = v, acc_code = c, acc_abi = [],
     acc_code_sequence = 1, acc_abi_sequence = 0\<rparr>"

text \<open>\<open>alice@owner\<close> and \<open>alice@active\<close> are held by key 7. One generated transaction waits, paid for by \<open>alice\<close>.\<close>

definition hi_trx :: transaction where
  "hi_trx = \<lparr>trx_expiration = 20, trx_ref_block_num = 0, trx_ref_block_prefix = 0, trx_max_net_usage_words = 0, trx_max_cpu_usage_ms = 0,
     trx_delay_sec = 0, trx_context_free_actions = [],
     trx_actions = [\<lparr>act_account = alice, act_name = hi_name, act_authorization = [(alice, active_name)], act_data = Other_data\<rparr>],
     trx_extensions = []\<rparr>"

definition demo_deferred :: deferred_transaction where
  "demo_deferred = \<lparr>def_sender = alice, def_sender_id = 1, def_payer = alice, def_packed_size = 3, def_published = 2, def_delay_until = 3,
     def_expiration = 4, def_trx = hi_trx\<rparr>"

definition demo_permissions :: auth_db where
  "demo_permissions =
     (let d = initialize_permissions\<lparr>db_accounts := [(alice, demo_holder demo_code [1]), (bob, demo_holder zero_digest [])],
        deferred := [(demo_code, demo_deferred)]\<rparr> in
      case bnd (create_permission 5 alice owner_name 0 (authority_of_key 7 0) 5 d) (\<lambda>(i, d).
           create_permission 5 alice active_name i (authority_of_key 7 0) 5 d) of
        Inr (i, d) \<Rightarrow> d
      | Inl e \<Rightarrow> initialize_permissions)"

definition demo_chain :: chain_state where
  "demo_chain = \<lparr>cs_auth = demo_permissions,
     cs_cdb = \<lparr>tables = [], next_table_id = 0, rows = [], capacity = 100\<rparr>,
     cs_rl = initialize_database\<lparr>limits := [((False, alice), new_limits), ((False, bob), new_limits)],
        usage := [(alice, new_usage\<lparr>ram_usage := 1000\<rparr>), (bob, new_usage)]\<rparr>,
     global_action_sequence = 0, account_sequences = [(alice, (0, 0)), (bob, (0, 0))], known_transactions = [], action_fees = [],
     config_data = [], conf_lists = \<lparr>actor_blacklist = [], contract_blacklist = [], resource_greylist = []\<rparr>,
     force_lists = \<lparr>actor_blacklist = [], contract_blacklist = [], resource_greylist = []\<rparr>, force_gmr = default_gmr\<rparr>"

definition demo_push :: trx_call where
  "demo_push = Push \<lparr>tm_trx = hi_trx, tm_id = zero_digest, tm_implicit = False, tm_unprunable_size = 100, tm_prunable_size = 50, tm_keys = [7]\<rparr>
     100000 0 False False"

definition hi_pending :: pending_state where
  "hi_pending = \<lparr>pb_chain = demo_chain, pb_transactions = [], pb_actions = []\<rparr>"


lemma demo_permissions_ok: "perms_ok demo_permissions"
proof -
  define d where "d = initialize_permissions\<lparr>db_accounts := [(alice, demo_holder demo_code [1]), (bob, demo_holder zero_digest [])],
    deferred := [(demo_code, demo_deferred)]\<rparr>"
  have d: "perms_ok d" using perms_ok_frame [of d initialize_permissions] initialize_permissions_ok by (simp add: d_def)
  have a: "alice \<noteq> 0" by code_simp
  have "perms_ok d2" if "create_permission 5 alice owner_name 0 (authority_of_key 7 0) 5 d = Inr (i, d1)"
    "create_permission 5 alice active_name i (authority_of_key 7 0) 5 d1 = Inr (j, d2)" for i d1 j d2
    by (rule create_account_permissions_ok [OF d a authorities_nonneg(2) authorities_nonneg(2) that])
  then show ?thesis
    using initialize_permissions_ok unfolding demo_permissions_def Let_def d_def [symmetric]
    by (auto simp: res_simps split: sum.splits prod.splits)
qed

lemma demo_chain_wf: "chain_wf demo_node demo_chain"
proof -
  note ok = demo_permissions_ok
  have sizes: "list_all (\<lambda>r. auth_size demo_node (perm_auth (snd r)) < 2 ^ 60) (permissions demo_permissions)"
    "list_all (\<lambda>r. length (acc_code (snd r)) < 5 \<and> length (acc_abi (snd r)) < 5) (db_accounts demo_permissions)"
    "deferred demo_permissions = [(demo_code, demo_deferred)]" "permission_links demo_permissions = []"
    "sorted_wrt (<) (map fst (db_accounts demo_permissions))" by code_simp+
  have t: "tbl_ok (permissions demo_permissions)" "tbl_ok (db_accounts demo_permissions)"
    using perms_okD(1) [OF ok] sizes(5) by (simp_all add: tbl_ok_def)
  have "trx_typed demo_node hi_trx" by (simp add: trx_typed_def hi_trx_def action_typed_def data_ok_def)
  moreover have "auth_size demo_node (perm_auth p) < 2 ^ 60" if "tbl_find (permissions demo_permissions) i = Some p" for i p
    using that sizes(1) tbl_rows_find [OF t(1)] by (force simp: list_all_iff)
  moreover have "length (acc_code p) < 5 \<and> length (acc_abi p) < 5" if "tbl_find (db_accounts demo_permissions) i = Some p" for i p
    using that sizes(2) tbl_rows_find [OF t(2)] by (force simp: list_all_iff)
  ultimately have "auth_wf demo_node demo_permissions"
    using ok t(2) sizes(3,4) unfolding auth_wf_def by (force simp: tbl_ok_def demo_deferred_def)
  moreover have "db_wf (cs_cdb demo_chain)" by (rule db_wfI) (auto simp: demo_chain_def tbl_simps)
  moreover have "alice < bob" by code_simp
  then have "rl_ok (cs_rl demo_chain)"
    by (auto simp: demo_chain_def rl_ok_def tbl_ok_def tbl_find_def new_usage_def UINT64_MAX_def split: if_splits)
  ultimately show ?thesis by (simp add: chain_wf_def demo_chain_def)
qed

lemma demo_node_typed: "node_typed demo_node"
  by (simp add: node_typed_def demo_node_def demo_program_def)



end
