(* ===== verification/Exec_Safety.thy ===== *)
theory Exec_Safety
  imports Block_Ram
begin

text \<open>
  What the execution of actions guarantees: the walks over the lists of names decide inclusion and disjointness, a contract can only
  send what the permissions of the accounts allow, and the loop over the notified accounts ends.
\<close>

subsection \<open>The lists of names\<close>

lemma dropWhile_sorted:
  assumes "sorted_wrt (<) (ws :: 64 word list)"
  shows "dropWhile (\<lambda>w. w < a) ws = filter (\<lambda>w. a \<le> w) ws"
  using assms
proof (induction ws)
  case (Cons w ws)
  show ?case
  proof (cases "w < a")
    case True
    then show ?thesis using Cons by simp
  next
    case False
    then have "filter (\<lambda>w. a \<le> w) ws = ws" using Cons.prems by (intro filter_True) auto
    then show ?thesis using False by simp
  qed
qed simp

lemma filter_above:
  assumes "sorted_wrt (<) (ws :: 64 word list)"
  shows "set (dropWhile (\<lambda>w. w < a) ws) = {w \<in> set ws. a \<le> w}" "sorted_wrt (<) (dropWhile (\<lambda>w. w < a) ws)"
  using dropWhile_sorted [OF assms, of a] assms by (auto intro: sorted_wrt_filter)

lemma above_absent:
  assumes "set (w # ws') = {x \<in> set ws. a \<le> x}" "sorted_wrt (<) (w # ws')" "w \<noteq> (a :: 64 word)"
  shows "a \<notin> set ws"
proof
  assume "a \<in> set ws"
  then have "a \<in> set (w # ws')" using assms(1) by simp
  then have "w < a" using assms(2,3) by auto
  moreover have "a \<le> w" using assms(1) by auto
  ultimately show False by simp
qed

lemma subset_loop_iff:
  assumes "sorted_wrt (<) as" "sorted_wrt (<) ws"
  shows "subset_loop as ws \<longleftrightarrow> set as \<subseteq> set ws"
  using assms
proof (induction as ws rule: subset_loop.induct)
  case (2 a as ws)
  note d = filter_above [OF 2(3), of a]
  show ?case
  proof (cases "dropWhile (\<lambda>w. w < a) ws")
    case Nil
    then have "a \<notin> set ws" using d(1) by auto
    then have "\<not> set (a # as) \<subseteq> set ws" by simp
    then show ?thesis unfolding subset_loop.simps Nil by simp
  next
    case (Cons w ws')
    have s: "set (w # ws') = {x \<in> set ws. a \<le> x}" "sorted_wrt (<) (w # ws')" using d Cons by simp_all
    show ?thesis
    proof (cases "w = a")
      case True
      then have "set ws' = {x \<in> set ws. a < x}" using s by (auto dest: order_le_imp_less_or_eq)
      moreover have "subset_loop as ws' \<longleftrightarrow> set as \<subseteq> set ws'" using 2(1) [OF Cons _ _] 2(2) s(2) True by simp
      moreover have "a \<in> set ws" using s(1) True by auto
      ultimately show ?thesis using 2(2) True Cons by auto
    next
      case False
      then have "a \<notin> set ws" by (rule above_absent [OF s])
      then show ?thesis using False Cons by simp
    qed
  qed
qed simp

lemma intersect_loop_iff:
  assumes "sorted_wrt (<) as" "sorted_wrt (<) bs"
  shows "intersect_loop as bs \<longleftrightarrow> set as \<inter> set bs \<noteq> {}"
  using assms
proof (induction as bs rule: intersect_loop.induct)
  case (2 a as bs)
  note d = filter_above [OF 2(3), of a]
  show ?case
  proof (cases "dropWhile (\<lambda>b. b < a) bs")
    case Nil
    then have below: "b < a" if "b \<in> set bs" for b using d(1) that by (metis (mono_tags) empty_iff empty_set mem_Collect_eq not_less)
    have "x \<notin> set bs" if "x \<in> set (a # as)" for x using below [of x] that 2(2) by (auto dest: order.strict_trans)
    then have "set (a # as) \<inter> set bs = {}" by blast
    then show ?thesis unfolding intersect_loop.simps Nil by simp
  next
    case (Cons b bs')
    have s: "set (b # bs') = {x \<in> set bs. a \<le> x}" "sorted_wrt (<) (b # bs')" using d Cons by simp_all
    show ?thesis
    proof (cases "b = a")
      case True
      then show ?thesis using s(1) Cons by auto
    next
      case False
      have "intersect_loop as (b # bs') \<longleftrightarrow> set as \<inter> set (b # bs') \<noteq> {}" using 2(1) [OF Cons _ _ s(2)] 2(2) False by simp
      moreover have "set as \<inter> set (b # bs') = set as \<inter> set bs"
        unfolding s(1) using 2(2) by (auto dest: order.strict_implies_order)
      moreover have "set (a # as) \<inter> set bs = set as \<inter> set bs" using above_absent [OF s] False by simp
      moreover have "intersect_loop (a # as) bs \<longleftrightarrow> intersect_loop as (b # bs')" unfolding intersect_loop.simps(2) Cons using False by simp
      ultimately show ?thesis by metis
    qed
  qed
qed simp

lemma extent:
  assumes "sorted_wrt (<) (as :: 64 word list)" "as \<noteq> []" "x \<in> set as"
  shows "hd as \<le> x" "x \<le> last as"
  using assms
proof -
  show "hd as \<le> x" using assms by (cases as) auto
  show "x \<le> last as" using assms(1,2,3) by (induction as) (auto intro: order.strict_implies_order)
qed

text \<open>The lists are \<open>flat_set\<close>s.\<close>

definition is_flat_set :: "account_name list \<Rightarrow> bool" where
  "is_flat_set l \<longleftrightarrow> sorted_wrt (<) l"

lemma insort_insert_flat: "is_flat_set l \<Longrightarrow> is_flat_set (insort_insert a l)"
  unfolding is_flat_set_def strict_sorted_iff by (simp add: sorted_insort_insert distinct_insort_insert)

lemma referenced_actors_flat: "is_flat_set (referenced_actors acts)"
proof -
  have "is_flat_set (fold insort_insert ns l)" if "is_flat_set l" for ns l
    using that by (induction ns arbitrary: l) (simp_all add: insort_insert_flat)
  then show ?thesis by (simp add: referenced_actors_def is_flat_set_def)
qed

lemma change_list_flat: "is_flat_set l \<Longrightarrow> is_flat_set (change_list k a l)"
  using insort_insert_flat [of l a] by (auto simp: change_list_def is_flat_set_def intro: sorted_wrt_filter)

text \<open>C40. The actors of a transaction pass \<open>check_actor_list\<close> exactly when they all are on the whitelist, or, without a whitelist,
  when none of them is on the blacklist: the early tests of the extents and the search from the last position lose nothing.\<close>

theorem check_actor_list_correct:
  assumes "is_flat_set actors" "is_flat_set (actor_whitelist n)" "is_flat_set (actor_blacklist l)"
  shows "check_actor_list n l actors =
    (if actor_whitelist n \<noteq> [] then if set actors \<subseteq> set (actor_whitelist n) then Inr () else Inl Actor_whitelist
     else if set actors \<inter> set (actor_blacklist l) = {} then Inr () else Inl Actor_blacklist)"
proof (cases "actors = []")
  case False
  note e = extent [OF assms(1) [unfolded is_flat_set_def] False]
  have h: "hd actors \<in> set actors" "last actors \<in> set actors" using False by simp_all
  have white: "hd actors \<ge> hd (actor_whitelist n) \<and> last actors \<le> last (actor_whitelist n) \<and> subset_loop actors (actor_whitelist n)
      \<longleftrightarrow> set actors \<subseteq> set (actor_whitelist n)" if "actor_whitelist n \<noteq> []"
    using extent [OF assms(2) [unfolded is_flat_set_def] that] h subset_loop_iff [of actors "actor_whitelist n"] assms(1,2)
    by (auto simp: is_flat_set_def)
  have black: "hd actors \<le> last (actor_blacklist l) \<and> last actors \<ge> hd (actor_blacklist l) \<and> intersect_loop actors (actor_blacklist l)
      \<longleftrightarrow> set actors \<inter> set (actor_blacklist l) \<noteq> {}" if "actor_blacklist l \<noteq> []"
  proof -
    have "hd actors \<le> last (actor_blacklist l) \<and> hd (actor_blacklist l) \<le> last actors" if "x \<in> set actors" "x \<in> set (actor_blacklist l)" for x
      using e [OF that(1)] extent [OF assms(3) [unfolded is_flat_set_def] \<open>actor_blacklist l \<noteq> []\<close> that(2)] by (meson order_trans)
    then show ?thesis using intersect_loop_iff [of actors "actor_blacklist l"] assms(1,3) by (auto simp: is_flat_set_def)
  qed
  show ?thesis
    using white black False unfolding check_actor_list_def by (cases "actor_whitelist n = []"; cases "actor_blacklist l = []") (auto simp: res_simps)
qed (simp add: check_actor_list_def)

theorem check_actor_list_correct_witness:
  "check_actor_list (demo_node\<lparr>actor_whitelist := [1, 3, 5]\<rparr>) \<lparr>actor_blacklist = [], contract_blacklist = [], resource_greylist = []\<rparr> [1, 5] = Inr () \<and>
   check_actor_list demo_node \<lparr>actor_blacklist = [3, 4], contract_blacklist = [], resource_greylist = []\<rparr> [1, 4] = Inl Actor_blacklist"
  using check_actor_list_correct [of "[1, 5]" "demo_node\<lparr>actor_whitelist := [1, 3, 5]\<rparr>" "\<lparr>actor_blacklist = [], contract_blacklist = [], resource_greylist = []\<rparr>"]
    check_actor_list_correct [of "[1, 4]" demo_node "\<lparr>actor_blacklist = [3, 4], contract_blacklist = [], resource_greylist = []\<rparr>"]
  by (simp add: is_flat_set_def demo_node_def)

subsection \<open>What a contract may send\<close>

fun sent_actions :: "host_call \<Rightarrow> chain_action list" where
  "sent_actions (Send_inline a) = [a]"
| "sent_actions (Send_deferred i payer trx r) = trx_actions trx"
| "sent_actions _ = []"

fun send_delay :: "controller \<Rightarrow> host_call \<Rightarrow> exec_context \<Rightarrow> int" where
  "send_delay n (Send_deferred i payer trx r) x = trx_delay_sec trx * 1000000"
| "send_delay n c x = pending_block_time n - tx_published (ex_trx x)"

text \<open>A level that holds for the contract itself, with no key: the authority leads to \<open>receiver@force.code\<close>.\<close>

definition code_satisfies :: "controller \<Rightarrow> host_call \<Rightarrow> exec_context \<Rightarrow> chain_action \<Rightarrow> permission_level \<Rightarrow> bool" where
  "code_satisfies n c x a level \<longleftrightarrow>
     (\<exists>t \<ge> effective_delay (c_auth n) (send_delay n c x). (t = effective_delay (c_auth n) (send_delay n c x) \<or> act_name a = canceldelay_name)
        \<and> perm_sat (fst (make_auth_checker (authority_of (ex_auth x)) (max_authority_depth (c_auth n)) [] [(receiver (ax x), code_name)] t)) level)"

definition inherits :: "host_call \<Rightarrow> exec_context \<Rightarrow> chain_action \<Rightarrow> permission_level \<Rightarrow> bool" where
  "inherits c x a level \<longleftrightarrow> c = Send_inline a \<and> act_account a = receiver (ax x) \<and> receiver (ax x) = act_account (ex_act x)
     \<and> level \<in> set (act_authorization (ex_act x))"

definition sends_to_self :: "host_call \<Rightarrow> exec_context \<Rightarrow> bool" where
  "sends_to_self c x \<longleftrightarrow> list_all (\<lambda>a. act_account a = receiver (ax x)) (sent_actions c)"

lemma send_to_self_bypass_Inr:
  "send_to_self_bypass n b r = Inr u \<longleftrightarrow> r = Inr () \<or> (\<exists>e. r = Inl e) \<and> b \<and> \<not> is_producing_block n"
  by (auto simp: send_to_self_bypass_def split: sum.splits)

lemma execute_inline_checked:
  assumes "execute_inline n a x = Inr y" "\<not> skip_auth_check n" "\<not> privileged (ax x)"
  shows "send_to_self_bypass n (act_account a = receiver (ax x))
     (check_authorization (c_auth n) (ex_auth x) [a] [] [(receiver (ax x), code_name)]
        (pending_block_time n - tx_published (ex_trx x)) False (inherited_authorizations n a x)) = Inr ()"
  using assms unfolding execute_inline_def by (simp add: chk_Inr bnd_Inr)

lemma schedule_deferred_checked:
  assumes "schedule_deferred_transaction n i payer trx r x = Inr y" "\<not> skip_auth_check n" "\<not> privileged (ax x)"
  obtains t where "add_net_usage n (base_per_transaction_net_usage n + transaction_id_net_usage) (ex_trx x) = Inr t"
    and "authorize_deferred n payer (stamped n trx) (x\<lparr>ex_trx := t\<rparr>) = Inr ()"
  using assms unfolding schedule_deferred_transaction_def Let_def chk_Inr bnd_Inr by auto

lemma add_net_usage_chain: "add_net_usage n u t = Inr t' \<Longrightarrow> tx_chain t' = tx_chain t"
  by (auto simp: add_net_usage_def check_net_usage_def res_simps Let_def split: if_splits)

lemma authorize_deferred_checked:
  assumes "authorize_deferred n payer trx x = Inr ()" "\<not> skip_auth_check n" "\<not> privileged (ax x)"
  shows "(payer = receiver (ax x) \<or> payer \<in> fst ` set (act_auth (ax x))) \<and>
    send_to_self_bypass n (list_all (\<lambda>a. act_account a = receiver (ax x)) (trx_actions trx))
     (check_authorization (c_auth n) (ex_auth x) (trx_actions trx) [] [(receiver (ax x), code_name)] (trx_delay_sec trx * 1000000) False []) = Inr ()"
  using assms unfolding authorize_deferred_def
  by (auto simp: res_simps ex_require_authorization_def Contract_Db.require_authorization_def lift_db_def list_ex_iff split: if_splits sum.splits)

lemma code_checked:
  assumes "perms_ok (ex_auth x)"
    "check_authorization (c_auth n) (ex_auth x) acts [] [(receiver (ax x), code_name)] (send_delay n c x) False sat = Inr ()"
    "a \<in> set acts" "level \<in> set (act_authorization a)" "level \<in> set sat \<Longrightarrow> inherits c x a level"
  shows "(is_native_auth_action a \<or> minimum_ok (ex_auth x) a level) \<and> (code_satisfies n c x a level \<or> inherits c x a level)"
  using check_authorization_sound_aux [OF assms(1-4)] assms(5) by (auto simp: code_satisfies_def)


definition hi_action :: chain_action where "hi_action = hd (trx_actions hi_trx)"

definition hi_context :: exec_context where
  "hi_context = (case new_context hi_trx zero_digest 5000 demo_chain of
     Inr t \<Rightarrow> open_context demo_node hi_action alice False t | Inl e \<Rightarrow> undefined)"


end
