(* ===== verification/Exec_Termination.thy ===== *)
theory Exec_Termination
  imports Exec_Ram "HOL-Library.Sublist"
begin

text \<open>
  The execution of actions ends. Inline actions end by their depth, a contract by its program, and the loop over the notified
  accounts, the only one with fuel, because no account is notified twice and every notified account has to exist: the number of
  accounts is enough. So a transaction never stops for the lack of fuel, whatever the contracts do.
\<close>

subsection \<open>Results that are not for the lack of fuel\<close>

named_theorems ends_rules \<open>the operations that do not run out of fuel\<close>

definition ends :: "exec_error + 'a \<Rightarrow> bool" where "ends r \<longleftrightarrow> r \<noteq> Inl Out_of_fuel"

lemma ends_basic [ends_rules]:
  "ends (Inr v)" "e \<noteq> Out_of_fuel \<Longrightarrow> ends (Inl e)" "ends (lift_db d)" "ends (lift_auth b)" "ends (lift_rl c)"
  by (auto simp: ends_def lift_db_def lift_auth_def lift_rl_def split: sum.splits)

lemma ends_bnd [ends_rules]: "ends m \<Longrightarrow> (\<And>v. m = Inr v \<Longrightarrow> ends (f v)) \<Longrightarrow> ends (bnd m f)"
  by (cases m) (auto simp: ends_def)

lemma ends_chk [ends_rules]: "e \<noteq> Out_of_fuel \<Longrightarrow> (b \<Longrightarrow> ends k) \<Longrightarrow> ends (chk b e k)"
  by (cases b) (auto simp: ends_def)

lemma ends_need [ends_rules]: "e \<noteq> Out_of_fuel \<Longrightarrow> (\<And>v. m = Some v \<Longrightarrow> ends (f v)) \<Longrightarrow> ends (need m e f)"
  by (cases m) (auto simp: ends_def)

lemma ends_if [ends_rules]: "(b \<Longrightarrow> ends r) \<Longrightarrow> (\<not> b \<Longrightarrow> ends s) \<Longrightarrow> ends (if b then r else s)"
  by simp

lemma ends_let [ends_rules]: "(\<And>v. v = m \<Longrightarrow> ends (f v)) \<Longrightarrow> ends (let v = m in f v)"
  by simp

lemma ends_pair [ends_rules]: "(\<And>u v. p = (u, v) \<Longrightarrow> ends (f u v)) \<Longrightarrow> ends (case p of (u, v) \<Rightarrow> f u v)"
  by (cases p) simp

lemma ends_option [ends_rules]: "ends r \<Longrightarrow> (\<And>v. m = Some v \<Longrightarrow> ends (f v)) \<Longrightarrow> ends (case m of None \<Rightarrow> r | Some v \<Rightarrow> f v)"
  by (cases m) simp_all

lemma ends_for_each [ends_rules]: "(\<And>v s. v \<in> set vs \<Longrightarrow> ends (f v s)) \<Longrightarrow> ends (for_each f vs s)"
  by (induction vs arbitrary: s) (auto intro: ends_rules)

subsection \<open>The operations\<close>

lemma ends_checks [ends_rules]:
  "ends (check_net_usage n t)" "ends (checktime n t)" "ends (check_actor_list n l actors)" "ends (check_contract_list n l code)"
  "ends (check_action_list n code act)" "ends (check_lists n x)"
  by (auto simp: check_net_usage_def checktime_def check_actor_list_def check_contract_list_def check_action_list_def check_lists_def
      intro!: ends_rules split: if_splits)

lemma ends_referenced [ends_rules]: "e \<noteq> Out_of_fuel \<Longrightarrow> ends (referenced_permission e db level)"
  unfolding referenced_permission_def by (auto intro!: ends_rules split: sum.splits)

lemma ends_resources [ends_rules]: "ends (add_net_usage n u t)" "ends (validate_referenced_accounts n s trx b)"
  by (auto simp: add_net_usage_def validate_referenced_accounts_def intro!: ends_rules)

lemma ends_fee [ends_rules]: "ends (process_fee n a t)"
  by (auto simp: process_fee_def get_required_fee_def fee_add_def intro!: ends_rules)

lemma ends_on_db [ends_rules]: "ends (on_db f x)" "ends (charge_ram effs x)" "ends (ex_require_authorization a x)"
  by (auto simp: on_db_def charge_ram_def ex_require_authorization_def intro!: ends_rules)

lemma ends_bypass [ends_rules]: "ends (send_to_self_bypass n b r)"
  by (auto simp: send_to_self_bypass_def ends_def split: sum.splits)

lemma ends_send [ends_rules]:
  "ends (execute_inline n a x)" "ends (execute_context_free_inline a x)" "ends (schedule_deferred_transaction n i payer trx r x)"
  "ends (cancel_deferred i x)" "ends (authorize_deferred n payer trx x)" "ends (store_generated n r h g d)" "ends (create_generated h g d)"
  by (auto simp: execute_inline_def execute_context_free_inline_def schedule_deferred_transaction_def cancel_deferred_def authorize_deferred_def
      store_generated_def create_generated_def intro!: ends_rules)

lemma ends_call [ends_rules]: "ends (call_host n c x)"
  by (cases c) (auto simp: call_host_def require_permission_def set_resource_limits_def set_privileged_def intro!: ends_rules)

lemma ends_program [ends_rules]: "ends (run_program n k x)"
  by (induction k arbitrary: x) (auto intro!: ends_rules)

lemma ends_run_native [ends_rules]: "ends (run_native n x)" "ends (apply_native_contract x)"
  by (auto simp: run_native_def apply_native_contract_def apply_setconfig_def set_guaranteed_minimum_config_def apply_setfee_def open_account_def
      intro!: ends_rules split: native_data.splits)

lemma ends_add_receipt [ends_rules]: "ends (add_receipt n x)"
  by (auto simp: add_receipt_def next_recv_sequence_def next_auth_sequence_def intro!: ends_rules)

lemma ends_exec_one [ends_rules]: "ends (exec_one n x)"
  by (auto simp: exec_one_def run_code_def intro!: ends_rules)

subsection \<open>The notified accounts\<close>

definition known_accounts :: "exec_context \<Rightarrow> account_name set" where
  "known_accounts x = dom (tbl_find (db_accounts (ex_auth x)))"

lemma known_accounts_card: "finite (known_accounts x)" "card (known_accounts x) \<le> length (db_accounts (ex_auth x))"
proof -
  have d: "known_accounts x = set (map fst (db_accounts (ex_auth x)))"
    by (simp add: known_accounts_def tbl_find_def [abs_def] dom_map_of_conv_image_fst)
  show "finite (known_accounts x)" "card (known_accounts x) \<le> length (db_accounts (ex_auth x))"
    unfolding d using card_length [of "map fst (db_accounts (ex_auth x))"] by simp_all
qed

lemma tbl_find_update: "tbl_find (tbl_put k v t) = (tbl_find t)(k \<mapsto> v)"
  by (induction k v t rule: tbl_put.induct) (auto simp: fun_eq_iff tbl_find_def)

lemma dom_tbl_put: "dom (tbl_find (tbl_put k v t)) = insert k (dom (tbl_find t))"
  by (simp add: tbl_find_update)

definition notifies :: "exec_context \<Rightarrow> exec_context \<Rightarrow> bool" where
  "notifies x y \<longleftrightarrow> ex_act y = ex_act x \<and> prefix (ex_notified x) (ex_notified y) \<and> (distinct (ex_notified x) \<longrightarrow> distinct (ex_notified y))"

lemma notifies_trans: "notifies x y \<Longrightarrow> notifies y z \<Longrightarrow> notifies x z"
  by (auto simp: notifies_def)

lemma notifies_frame: "same_frame x y \<Longrightarrow> notifies x y"
  by (simp add: same_frame_def notifies_def)

lemma call_host_notifies:
  assumes "call_host n c x = Inr y"
  shows "notifies x y \<and> known_accounts y = known_accounts x"
proof -
  have h: "host_function n c x = Inr y" using assms by (simp add: call_host_def res_simps)
  have k: "known_accounts y = known_accounts x" if "ex_trx y = ex_trx x" using that by (simp add: known_accounts_def ex_auth_def)
  show ?thesis
  proof (cases c)
    case (Db_call d)
    then show ?thesis using h on_db_trx same_frame_on_db by (simp add: k notifies_frame)
  next
    case (Require_recipient a)
    then show ?thesis using h by (auto simp: require_recipient_def notifies_def known_accounts_def ex_auth_def split: if_splits)
  next
    case (Send_deferred i p trx r)
    then have s: "schedule_deferred_transaction n i p trx r x = Inr y" using h by simp
    then obtain t d where t: "add_net_usage n (base_per_transaction_net_usage n + transaction_id_net_usage) (ex_trx x) = Inr t"
      and d: "store_generated n r (trx_digest n (stamped n trx))
         (generated_transaction n (receiver (ax x)) i p (trx_delay_sec trx * 1000000) (stamped n trx)) (ex_auth (x\<lparr>ex_trx := t\<rparr>)) = Inr d"
      and y: "on_db (add_ram_usage p (generated_transaction_size + int (length (trx_pack n (stamped n trx))))) (set_auth d (x\<lparr>ex_trx := t\<rparr>)) = Inr y"
      by (rule schedule_deferredE)
    have "db_accounts d = db_accounts (ex_auth (x\<lparr>ex_trx := t\<rparr>))"
      using d by (auto simp: store_generated_def create_generated_def res_simps split: option.splits)
    moreover have "ex_auth y = d" using on_db_trx [OF y] by (simp add: ex_auth_def set_auth_def set_chain_def)
    moreover have "tx_chain t = tx_chain (ex_trx x)" using t by (auto simp: add_net_usage_def Let_def res_simps)
    ultimately show ?thesis using same_frame_schedule [OF s] by (simp add: notifies_frame known_accounts_def ex_auth_def)
  next
    case (Cancel_deferred i)
    then have c: "cancel_deferred i x = Inr y" using h by simp
    then have "db_accounts (ex_auth y) = db_accounts (ex_auth x)"
      by (auto simp: cancel_deferred_def Let_def ex_auth_def set_auth_def set_chain_def cancel_deferred_transaction_def
          split: prod.splits option.splits dest!: charge_trx)
    then show ?thesis using same_frame_cancel [OF c] by (simp add: notifies_frame known_accounts_def)
  next
    case (Set_limits a r1 r2 r3)
    then have l: "set_resource_limits a r1 r2 r3 x = Inr y" using h by simp
    then have "ex_trx y = ex_trx x" by (auto simp: set_resource_limits_def Let_def insert_validate_ram_def res_simps split: if_splits)
    then show ?thesis using same_frame_limits [OF l] by (simp add: k notifies_frame)
  next
    case (Set_privileged a b)
    then obtain acc where acc: "tbl_find (db_accounts (ex_auth x)) a = Some acc"
      and y: "y = set_auth ((ex_auth x)\<lparr>db_accounts := tbl_put a (acc\<lparr>acc_privileged := b\<rparr>) (db_accounts (ex_auth x))\<rparr>) x"
      using h by (auto simp: set_privileged_def need_Inr)
    have "known_accounts y = insert a (known_accounts x)"
      unfolding known_accounts_def dom_tbl_put [symmetric, where v = "acc\<lparr>acc_privileged := b\<rparr>"] y by (simp add: ex_auth_def set_auth_def set_chain_def)
    moreover have "a \<in> known_accounts x" using acc by (auto simp: known_accounts_def)
    ultimately show ?thesis using y by (simp add: insert_absorb notifies_frame same_frame_refl)
  next
    case Check_time
    then show ?thesis
      using h by (auto simp: checktime_def read_clock_def res_simps notifies_def known_accounts_def ex_auth_def split: prod.splits if_splits)
  qed (use h in \<open>auto simp: ex_require_authorization_def require_permission_def execute_inline_def execute_context_free_inline_def
      insert_validate_ram_def res_simps notifies_def known_accounts_def ex_auth_def\<close>)
qed

lemma run_program_notifies: "run_program n k x = Inr y \<Longrightarrow> notifies x y \<and> known_accounts y = known_accounts x"
proof (induction k arbitrary: x)
  case (Call c k)
  then obtain z where "call_host n c x = Inr z" "run_program n (k z) z = Inr y" by (auto simp: res_simps)
  then show ?case using call_host_notifies Call.IH notifies_trans by (metis rangeI)
qed (auto simp: notifies_def)

lemma add_receipt_account:
  assumes "add_receipt n x = Inr (r, y)"
  shows "act_account (ex_act y) \<in> known_accounts y"
proof -
  obtain q acc m where q: "next_recv_sequence (receiver (ax (snd (next_global_sequence x)))) (snd (next_global_sequence x)) = Inr q"
    and acc: "tbl_find (db_accounts (ex_auth (snd q))) (act_account (ex_act (snd q))) = Some acc"
    by (rule add_receiptE [OF assms])
  have "ex_auth (snd q) = ex_auth x \<and> ex_act (snd q) = ex_act x"
    using q by (auto simp: next_recv_sequence_def next_global_sequence_def need_Inr Let_def set_chain_def ex_auth_def split: prod.splits)
  then show ?thesis
    using acc receipt_auth [OF assms] same_frame_receipt(1) [OF assms] by (auto simp: same_frame_def known_accounts_def)
qed

text \<open>Native code runs only when the system account is its own receiver; nothing else creates an account.\<close>

lemma exec_one_notifies:
  assumes "exec_one n x = Inr (r, y)"
  shows "notifies x y" "receiver (ax x) \<in> known_accounts x" "act_account (ex_act x) \<in> known_accounts y"
    "\<not> find_apply_handler n (receiver (ax x)) (act_account (ex_act x)) (act_name (ex_act x)) \<Longrightarrow> known_accounts y = known_accounts x"
proof -
  from assms obtain a x0 x1 x2 y' where a: "tbl_find (db_accounts (ex_auth x)) (receiver (ax x)) = Some a"
    and x0: "x0 = x\<lparr>ax := (ax x)\<lparr>privileged := acc_privileged a\<rparr>\<rparr>"
    and x1: "(if find_apply_handler n (receiver (ax x0)) (act_account (ex_act x0)) (act_name (ex_act x0))
       then bnd (check_lists n x0) (\<lambda>_. run_native n x0) else Inr x0) = Inr x1"
    and x2: "(if act_account (ex_act x1) = native_account_name then apply_native_contract x1 else run_code n x1) = Inr x2"
    and y: "add_receipt n x2 = Inr (r, y')" "y = finalize_trace y'"
    by (rule exec_oneE)
  have "same_frame x0 x1" using x1 same_frame_native [of n x0 x1] by (auto simp: bnd_Inr same_frame_refl split: if_splits)
  then have "same_frame x x1" using x0 by simp
  moreover have two: "notifies x1 x2 \<and> known_accounts x2 = known_accounts x1"
    using x2 run_program_notifies
    by (auto simp: apply_native_contract_def run_code_def res_simps notifies_def split: if_splits)
  moreover have "same_frame x2 y" "known_accounts y = known_accounts x2"
    using y same_frame_receipt(1) [OF y(1)] receipt_auth [OF y(1)] by (auto simp: finalize_trace_def known_accounts_def ex_auth_def)
  ultimately show "notifies x y" by (meson notifies_frame notifies_trans)
  then show "act_account (ex_act x) \<in> known_accounts y"
    using add_receipt_account [OF y(1)] same_frame_receipt(1) [OF y(1)] y(2)
    by (simp add: same_frame_def notifies_def finalize_trace_def known_accounts_def ex_auth_def)
  show "receiver (ax x) \<in> known_accounts x" using a by (auto simp: known_accounts_def)
  assume "\<not> find_apply_handler n (receiver (ax x)) (act_account (ex_act x)) (act_name (ex_act x))"
  then have "known_accounts x1 = known_accounts x" using x0 x1 by (auto simp: known_accounts_def ex_auth_def)
  then show "known_accounts y = known_accounts x" using two \<open>known_accounts y = known_accounts x2\<close> by simp
qed

text \<open>In round \<open>i\<close> the first \<open>i\<close> notified accounts have been run, so they are different accounts that exist.\<close>

definition notify_inv :: "controller \<Rightarrow> nat \<Rightarrow> account_name set \<Rightarrow> exec_context \<Rightarrow> bool" where
  "notify_inv n i K x \<longleftrightarrow> distinct (ex_notified x) \<and> i \<le> length (ex_notified x) \<and> set (take i (ex_notified x)) \<subseteq> K \<and> known_accounts x = K
     \<and> (act_account (ex_act x) \<in> set (take i (ex_notified x)) \<or> act_name (ex_act x) \<notin> set (native_handlers n))"

lemma notify_inv_round:
  assumes "notify_inv n i K x" "i < length (ex_notified x)" "exec_one n (x\<lparr>ax := (ax x)\<lparr>receiver := ex_notified x ! i\<rparr>\<rparr>) = Inr (r, y)"
  shows "notify_inv n (Suc i) K y"
proof -
  let ?x = "x\<lparr>ax := (ax x)\<lparr>receiver := ex_notified x ! i\<rparr>\<rparr>"
  note o = exec_one_notifies [OF assms(3)]
  have k: "known_accounts ?x = known_accounts x" by (simp add: known_accounts_def ex_auth_def)
  have "ex_notified x ! i \<notin> set (take i (ex_notified x))"
    using assms(1,2) by (auto simp: notify_inv_def in_set_conv_nth nth_eq_iff_index_eq)
  then have "\<not> find_apply_handler n (receiver (ax ?x)) (act_account (ex_act ?x)) (act_name (ex_act ?x))"
    using assms(1) by (auto simp: notify_inv_def find_apply_handler_def)
  then have "known_accounts y = K" using o(4) k assms(1) by (simp add: notify_inv_def)
  moreover obtain zs where z: "ex_notified y = ex_notified x @ zs" "ex_act y = ex_act x" "distinct (ex_notified y)"
    using o(1) assms(1) by (auto simp: notifies_def notify_inv_def prefix_def)
  moreover have "take (Suc i) (ex_notified y) = take i (ex_notified x) @ [ex_notified x ! i]"
    using assms(2) z(1) by (simp add: take_Suc_conv_app_nth)
  moreover have "ex_notified x ! i \<in> K" using o(2) k assms(1) by (simp add: notify_inv_def)
  ultimately show ?thesis using assms(1,2) by (auto simp: notify_inv_def)
qed

lemma ends_exec_notified:
  assumes "notify_inv n i K x" "card K < fuel + i" "finite K"
  shows "ends (exec_notified n fuel i (ts, x))"
  using assms
proof (induction fuel arbitrary: i ts x)
  case 0
  have "i \<le> card K"
    using 0 card_mono [OF 0(3), of "set (take i (ex_notified x))"] distinct_card [of "take i (ex_notified x)"]
    by (simp add: notify_inv_def)
  then show ?case using 0 by simp
next
  case (Suc fuel)
  show ?case
    unfolding exec_notified.simps [of n "Suc fuel"] nat.case
    using Suc.IH [OF notify_inv_round [OF Suc.prems(1)]] Suc.prems(2,3) by (intro ends_rules) (auto intro!: ends_rules)
qed

lemma ends_exec_receivers [ends_rules]:
  assumes "rcv = act_account a \<or> act_name a \<notin> set (native_handlers n)"
  shows "ends (exec_receivers n a rcv cf t)"
proof -
  let ?x = "open_context n a rcv cf t"
  have "ends (exec_notified n (length (db_accounts (ex_auth y))) 1 ([], y))" if y: "exec_one n ?x = Inr (r, y)" for r y
  proof (rule ends_exec_notified [where K = "known_accounts y"])
    note o = exec_one_notifies [OF y]
    obtain zs where z: "ex_notified y = rcv # zs" "ex_act y = a" "distinct (ex_notified y)"
      using o(1) by (auto simp: notifies_def open_context_def prefix_def)
    moreover have "rcv \<in> known_accounts y"
      using assms o(2,3,4) by (cases "rcv = act_account a") (auto simp: open_context_def find_apply_handler_def)
    ultimately show "notify_inv n 1 (known_accounts y) y" using assms by (auto simp: notify_inv_def)
  qed (use known_accounts_card [of y] in auto)
  then show ?thesis unfolding exec_receivers_def by (intro ends_rules) auto
qed

subsection \<open>Actions and transactions\<close>

lemma ends_exec_action [ends_rules]:
  "rcv = act_account a \<or> act_name a \<notin> set (native_handlers n) \<Longrightarrow> ends (exec_action n depth cf a rcv t)"
proof (induction "max_inline_action_depth n - depth" arbitrary: depth cf a rcv t rule: less_induct)
  case less
  have loop: "ends (for_each (\<lambda>b (ts, t). bnd (process_fee n b t) (\<lambda>t.
      bnd (exec_action n (Suc depth) c b (act_account b) t) (\<lambda>(tr, t). Inr (ts @ [tr], t)))) bs st)"
    if "bs \<noteq> [] \<longrightarrow> depth < max_inline_action_depth n" for bs c st
    using that by (cases "bs = []") (auto intro!: ends_rules less.hyps)
  show ?case
    unfolding exec_action.simps [of n depth] using less.prems by (intro ends_rules loop) auto
qed

lemma ends_pieces [ends_rules]:
  "ends (validate_cpu_usage_to_bill n us b t)" "ends (max_bandwidth_billed_accounts_can_pay n b t)" "ends (record_transaction i e t)"
  "ends (set_fee_data t)" "ends (trx_charge_ram a d t)" "ends (update_usages n t)" "ends (validate_expiration n trx)" "ends (validate_tapos n trx)"
  "ends (push_receipt i st cpu net p)" "ends (check_maintain n s acts)"
  by (auto simp: validate_cpu_usage_to_bill_def max_bandwidth_billed_accounts_can_pay_def account_can_pay_def record_transaction_def
      set_fee_data_def trx_charge_ram_def update_usages_def validate_expiration_def validate_tapos_def push_receipt_def check_maintain_def
      intro!: ends_rules split: list.splits if_splits)

lemma ends_init [ends_rules]: "ends (init n u t)"
  unfolding init_def by (intro ends_rules) auto

lemma ends_inits [ends_rules]:
  "ends (init_for_implicit_trx n u t)" "ends (init_for_input_trx n us ps b t)" "ends (init_for_deferred_trx n pub t)"
  by (auto simp: init_for_implicit_trx_def init_for_input_trx_def init_for_deferred_trx_def intro!: ends_rules)

lemma ends_dispatch [ends_rules]: "ends (dispatch_action n cf a st)" "ends (dispatch_fee_action n st)" "ends (exec_actions n cf acts st)"
  by (auto simp: dispatch_action_def dispatch_fee_action_def exec_actions_def intro!: ends_rules)

lemma ends_schedule [ends_rules]: "ends (schedule_transaction n t)"
  by (auto simp: schedule_transaction_def intro!: ends_rules)

lemma ends_exec_trx [ends_rules]: "ends (exec_trx n t)"
  unfolding exec_trx_def by (intro ends_rules) auto

lemma ends_finalize [ends_rules]: "ends (finalize_checks n t)" "ends (finalize n t)"
  unfolding finalize_checks_def finalize_def by (auto intro!: ends_rules)

lemma ends_run_input [ends_rules]: "ends (run_input_trx n m b t p)"
  unfolding run_input_trx_def init_trx_def by (intro ends_rules)

lemma ends_run_scheduled [ends_rules]: "ends (run_scheduled_trx n g t p)"
  unfolding run_scheduled_trx_def by (intro ends_rules)

text \<open>The error handler runs with the sender as its receiver; it is no native action.\<close>

lemma onerror_not_native: "onerror_name \<notin> set (native_handlers n)"
proof -
  have "onerror_name \<notin> set ([newaccount_name, setcode_name, setabi_name] @ native_auth_actions @ [setconfig_name, setfee_name])"
    by (simp add: onerror_name_def newaccount_name_def setcode_name_def setabi_name_def native_auth_actions_def updateauth_name_def deleteauth_name_def
        linkauth_name_def unlinkauth_name_def canceldelay_name_def setconfig_name_def setfee_name_def string_to_name_eval)
  then show ?thesis by (auto simp: native_handlers_def split: if_splits)
qed

lemma ends_apply_onerror [ends_rules]: "ends (apply_onerror n g deadline start us b enforce p)"
proof -
  have "act_name (hd (trx_actions (tx_trx t'))) = onerror_name" if "init_for_implicit_trx n 0 t = Inr t'" "tx_trx t = onerror_trx n (snd g)" for t t'
    using that unfolding init_for_implicit_trx_def by (elim init_result) (simp add: onerror_trx_def)
  then show ?thesis
    unfolding apply_onerror_def run_onerror_def new_context_def chk_Inr
    by (auto intro!: ends_rules simp: onerror_not_native chk_Inr)
qed

definition stuck :: "exec_error + exec_error option \<times> pending_state \<Rightarrow> bool" where
  "stuck r \<longleftrightarrow> r = Inl Out_of_fuel \<or> (\<exists>q. r = Inr (Some Out_of_fuel, q))"

lemma stuck_bnd: "ends m \<Longrightarrow> (\<And>v. m = Inr v \<Longrightarrow> \<not> stuck (f v)) \<Longrightarrow> \<not> stuck (bnd m f)"
  by (cases m) (auto simp: ends_def stuck_def)

lemma stuck_need: "e \<noteq> Out_of_fuel \<Longrightarrow> (\<And>v. m = Some v \<Longrightarrow> \<not> stuck (f v)) \<Longrightarrow> \<not> stuck (need m e f)"
  by (cases m) (auto simp: stuck_def)

lemma stuck_chk: "e \<noteq> Out_of_fuel \<Longrightarrow> \<not> stuck k \<Longrightarrow> \<not> stuck (chk b e k)"
  by (cases b) (auto simp: stuck_def)

lemma stuck_let: "(\<And>v. v = m \<Longrightarrow> \<not> stuck (f v)) \<Longrightarrow> \<not> stuck (let v = m in f v)"
  by simp

lemma stuck_if: "(b \<Longrightarrow> \<not> stuck r) \<Longrightarrow> (\<not> b \<Longrightarrow> \<not> stuck s) \<Longrightarrow> \<not> stuck (if b then r else s)"
  by simp

lemma stuck_catch:
  "ends m \<Longrightarrow> (\<And>v. \<not> stuck (g v)) \<Longrightarrow> (\<And>e. e \<noteq> Out_of_fuel \<Longrightarrow> \<not> stuck (h e)) \<Longrightarrow> \<not> stuck (case m of Inl e \<Rightarrow> h e | Inr v \<Rightarrow> g v)"
  by (cases m) (auto simp: ends_def)

lemma stuck_Inr: "\<not> stuck (Inr (None, q))" "e \<noteq> Out_of_fuel \<Longrightarrow> \<not> stuck (Inr (Some e, q))"
  by (auto simp: stuck_def)

lemmas stuck_rules = stuck_bnd stuck_need stuck_chk stuck_let stuck_if stuck_catch stuck_Inr

lemma ends_hard_fail [ends_rules]: "ends (hard_fail n i t c b q)" "ends (new_context trx i start s)" "ends (remove_scheduled_transaction g s)"
  unfolding hard_fail_def new_context_def remove_scheduled_transaction_def by (intro ends_rules, simp?)+

lemma retire_failed_not_stuck: "e \<noteq> Out_of_fuel \<Longrightarrow> \<not> stuck (retire_failed n i t e c b q q')"
  unfolding retire_failed_def by (intro stuck_rules ends_rules)


end
