(* ===== verification/Block_Receipts.thy ===== *)
theory Block_Receipts
  imports Block_Ram Exec_Termination
begin

text \<open>
  The receipts of the actions of a block. \<open>action_receipt\<close> carries a number that counts all actions of the chain and one that counts
  the actions each account has received. The counters live in the state of the chain, which is undone when a transaction
  fails, while the receipts are collected in the pending block: this theory shows that the two stay together.
\<close>

subsection \<open>Receipts in sequence\<close>

definition recv_of :: "chain_state \<Rightarrow> account_name \<Rightarrow> int" where
  "recv_of s a = (case tbl_find (account_sequences s) a of None \<Rightarrow> 0 | Some (recv, auth) \<Rightarrow> recv)"

definition receipts_for :: "account_name \<Rightarrow> action_receipt list \<Rightarrow> int" where
  "receipts_for a rs = int (length (filter (\<lambda>r. r_receiver r = a) rs))"

definition numbered :: "chain_state \<Rightarrow> action_receipt list \<Rightarrow> bool" where
  "numbered s rs \<longleftrightarrow> (\<forall>i < length rs.
     r_global_sequence (rs ! i) = u64 (global_action_sequence s + int i + 1)
     \<and> r_recv_sequence (rs ! i) = u64 (recv_of s (r_receiver (rs ! i)) + receipts_for (r_receiver (rs ! i)) (take (Suc i) rs)))"

definition sequenced :: "chain_state \<Rightarrow> action_receipt list \<Rightarrow> chain_state \<Rightarrow> bool" where
  "sequenced s rs s' \<longleftrightarrow> numbered s rs \<and> u64 (global_action_sequence s') = u64 (global_action_sequence s + int (length rs))
     \<and> (\<forall>a. u64 (recv_of s' a) = u64 (recv_of s a + receipts_for a rs))"

lemma u64_shift: "u64 a = u64 b \<Longrightarrow> u64 (a + c) = u64 (b + c)"
  unfolding u64_def by (erule mod_add_cong) (rule refl)

lemma sequenced_refl: "sequenced s [] s"
  by (simp add: sequenced_def numbered_def receipts_for_def)

lemma sequenced_trans:
  assumes "sequenced s rs s'" "sequenced s' rs' s''"
  shows "sequenced s (rs @ rs') s''"
proof -
  note a = assms [unfolded sequenced_def]
  have g: "u64 (global_action_sequence s' + k) = u64 (global_action_sequence s + int (length rs) + k)" for k
    using a u64_shift by blast
  have r: "u64 (recv_of s' b + k) = u64 (recv_of s b + receipts_for b rs + k)" for b k
    using a u64_shift by blast
  have f: "receipts_for b (xs @ ys) = receipts_for b xs + receipts_for b ys" for b xs ys by (simp add: receipts_for_def)
  have "numbered s (rs @ rs')"
    unfolding numbered_def
  proof (intro allI impI)
    fix i assume i: "i < length (rs @ rs')"
    show "r_global_sequence ((rs @ rs') ! i) = u64 (global_action_sequence s + int i + 1)
     \<and> r_recv_sequence ((rs @ rs') ! i) = u64 (recv_of s (r_receiver ((rs @ rs') ! i)) + receipts_for (r_receiver ((rs @ rs') ! i)) (take (Suc i) (rs @ rs')))"
    proof (cases "i < length rs")
      case True
      then show ?thesis using a by (simp add: numbered_def nth_append)
    next
      case False
      define j where "j = i - length rs"
      have j: "i = length rs + j" "j < length rs'" using i False by (auto simp: j_def)
      then show ?thesis using a g [of "int j + 1"] r by (simp add: numbered_def nth_append f algebra_simps)
    qed
  qed
  moreover have "u64 (global_action_sequence s'') = u64 (global_action_sequence s + int (length (rs @ rs')))"
    using a g [of "int (length rs')"] by (simp add: algebra_simps)
  moreover have "u64 (recv_of s'' b) = u64 (recv_of s b + receipts_for b (rs @ rs'))" for b
    using a r [of b "receipts_for b rs'"] by (simp add: f algebra_simps)
  ultimately show ?thesis by (simp add: sequenced_def)
qed

lemma sequenced_same:
  "global_action_sequence s'' = global_action_sequence s' \<Longrightarrow> account_sequences s'' = account_sequences s' \<Longrightarrow> sequenced s rs s'' = sequenced s rs s'"
  by (simp add: sequenced_def recv_of_def)

text \<open>Only accounts have counters.\<close>

definition counted :: "chain_state \<Rightarrow> account_name set" where
  "counted s = dom (tbl_find (account_sequences s))"

definition counters_known :: "chain_state \<Rightarrow> bool" where
  "counters_known s \<longleftrightarrow> counted s \<subseteq> dom (tbl_find (db_accounts (cs_auth s)))"

subsection \<open>One receipt\<close>

lemma next_auth_recv:
  assumes "next_auth_sequence a x = Inr (v, y)"
  shows "recv_of (tx_chain (ex_trx y)) = recv_of (tx_chain (ex_trx x))"
    "counted (tx_chain (ex_trx y)) = counted (tx_chain (ex_trx x))"
    "global_action_sequence (tx_chain (ex_trx y)) = global_action_sequence (tx_chain (ex_trx x))" "tx_executed (ex_trx y) = tx_executed (ex_trx x)" "ax y = ax x"
  using assms
  by (auto simp: next_auth_sequence_def need_Inr Let_def set_chain_def fun_eq_iff recv_of_def counted_def tbl_find_update split: prod.splits if_splits)

lemma add_receipt_sequenced:
  assumes "add_receipt n x = Inr (r, y)"
  shows "sequenced (tx_chain (ex_trx x)) [r] (tx_chain (ex_trx y))" "tx_executed (ex_trx y) = tx_executed (ex_trx x) @ [r]"
    "counted (tx_chain (ex_trx y)) = counted (tx_chain (ex_trx x))"
proof -
  let ?x = "snd (next_global_sequence x)"
  obtain q acc m where q: "next_recv_sequence (receiver (ax ?x)) ?x = Inr q"
    and acc: "tbl_find (db_accounts (ex_auth (snd q))) (act_account (ex_act (snd q))) = Some acc"
    and m: "for_each (\<lambda>auth (m, x). bnd (next_auth_sequence (fst auth) x) (\<lambda>(v, x). Inr (tbl_put (fst auth) v m, x)))
             (act_authorization (ex_act (snd q))) ([], snd q) = Inr m"
    and r: "r = \<lparr>r_receiver = receiver (ax (snd m)), r_act_digest = action_digest n (ex_act (snd m)), r_global_sequence = fst (next_global_sequence x),
         r_recv_sequence = fst q, r_auth_sequence = fst m, r_code_sequence = u32 (acc_code_sequence acc), r_abi_sequence = u32 (acc_abi_sequence acc)\<rparr>"
    and y: "y = (snd m)\<lparr>ex_trx := (ex_trx (snd m))\<lparr>tx_executed := tx_executed (ex_trx (snd m)) @ [r]\<rparr>\<rparr>"
    by (rule add_receiptE [OF assms])
  let ?same = "\<lambda>z p. recv_of (tx_chain (ex_trx (snd p))) = recv_of (tx_chain (ex_trx z))
    \<and> counted (tx_chain (ex_trx (snd p))) = counted (tx_chain (ex_trx z))
    \<and> global_action_sequence (tx_chain (ex_trx (snd p))) = global_action_sequence (tx_chain (ex_trx z))
    \<and> tx_executed (ex_trx (snd p)) = tx_executed (ex_trx z) \<and> ax (snd p) = ax z"
  have loop: "?same (snd q) m"
  proof (rule for_each_inv [OF m, where P = "?same (snd q)"])
    fix l p p' assume p: "?same (snd q) p"
      and "(case p of (m, x) \<Rightarrow> bnd (next_auth_sequence (fst l) x) (\<lambda>(v, x). Inr (tbl_put (fst l) v m, x))) = Inr p'"
    then obtain v where "next_auth_sequence (fst l) (snd p) = Inr (v, snd p')" unfolding case_prod_beta bnd_Inr by auto
    from next_auth_recv [OF this] p show "?same (snd q) p'" by simp
  qed simp
  have x: "global_action_sequence (tx_chain (ex_trx ?x)) = u64 (global_action_sequence (tx_chain (ex_trx x)) + 1)"
    "account_sequences (tx_chain (ex_trx ?x)) = account_sequences (tx_chain (ex_trx x))" "ax ?x = ax x" "tx_executed (ex_trx ?x) = tx_executed (ex_trx x)"
    "fst (next_global_sequence x) = u64 (global_action_sequence (tx_chain (ex_trx x)) + 1)"
    by (simp_all add: next_global_sequence_def Let_def set_chain_def)
  let ?v = "u64 (recv_of (tx_chain (ex_trx x)) (receiver (ax x)) + 1)"
  have q: "recv_of (tx_chain (ex_trx (snd q))) = (recv_of (tx_chain (ex_trx x)))(receiver (ax x) := ?v)" "fst q = ?v"
    "counted (tx_chain (ex_trx (snd q))) = counted (tx_chain (ex_trx x))"
    "global_action_sequence (tx_chain (ex_trx (snd q))) = global_action_sequence (tx_chain (ex_trx ?x))"
    "tx_executed (ex_trx (snd q)) = tx_executed (ex_trx x)" "ax (snd q) = ax x"
    using q x(2-4)
    by (auto simp: next_recv_sequence_def need_Inr Let_def set_chain_def fun_eq_iff recv_of_def counted_def tbl_find_update split: prod.splits if_splits)
  have u: "u64 (u64 k) = u64 k" for k by (simp add: u64_def)
  show "sequenced (tx_chain (ex_trx x)) [r] (tx_chain (ex_trx y))"
    using loop q x by (simp add: y r sequenced_def numbered_def receipts_for_def u)
  show "tx_executed (ex_trx y) = tx_executed (ex_trx x) @ [r]" using loop q by (simp add: y)
  show "counted (tx_chain (ex_trx y)) = counted (tx_chain (ex_trx x))"
    using loop q(3) by (simp add: y)
qed

subsection \<open>Actions\<close>

definition seq_view :: "transaction_context \<Rightarrow> action_receipt list \<times> int \<times> (account_name, int \<times> int) tbl" where
  "seq_view t = (tx_executed t, global_action_sequence (tx_chain t), account_sequences (tx_chain t))"

definition trx_accounts :: "transaction_context \<Rightarrow> account_name set" where
  "trx_accounts t = dom (tbl_find (db_accounts (cs_auth (tx_chain t))))"

definition trx_sequenced :: "controller \<Rightarrow> chain_state \<Rightarrow> transaction_context \<Rightarrow> bool" where
  "trx_sequenced n s t \<longleftrightarrow> node_typed n \<and> sequenced s (tx_executed t) (tx_chain t) \<and> counters_known (tx_chain t)"

lemma trx_sequenced_view:
  assumes "trx_sequenced n s t" "seq_view t' = seq_view t" "trx_accounts t \<subseteq> trx_accounts t'"
  shows "trx_sequenced n s t'"
proof -
  have v: "tx_executed t' = tx_executed t" "global_action_sequence (tx_chain t') = global_action_sequence (tx_chain t)"
    "account_sequences (tx_chain t') = account_sequences (tx_chain t)" using assms(2) by (simp_all add: seq_view_def)
  then have "sequenced s (tx_executed t') (tx_chain t')" using assms(1) sequenced_same [OF v(2,3)] by (simp add: trx_sequenced_def)
  moreover have "counters_known (tx_chain t')"
    using assms(1) assms(3) [unfolded trx_accounts_def] unfolding trx_sequenced_def counters_known_def counted_def v(3) by (elim conjE) (rule subset_trans)
  ultimately show ?thesis using assms(1) by (simp add: trx_sequenced_def)
qed

lemma seq_view_set [simp]: "seq_view (t\<lparr>tx_chain := (tx_chain t)\<lparr>cs_auth := d\<rparr>\<rparr>) = seq_view t" "seq_view (t\<lparr>tx_chain := (tx_chain t)\<lparr>cs_rl := r\<rparr>\<rparr>) = seq_view t"
  "seq_view (ex_trx (set_auth d x)) = seq_view (ex_trx x)"
  by (simp_all add: seq_view_def set_auth_def set_chain_def)

lemma call_host_view:
  assumes "call_host n c x = Inr y"
  shows "seq_view (ex_trx y) = seq_view (ex_trx x)"
proof -
  have h: "host_function n c x = Inr y" using assms by (simp add: call_host_def res_simps)
  have net: "seq_view t' = seq_view t" if "add_net_usage n u t = Inr t'" for t t' u
    using net_usage_trx [OF that] net_usage_chain [OF that] by (simp add: seq_view_def)
  show ?thesis
  proof (cases c)
    case (Db_call d)
    then show ?thesis using h on_db_trx by simp
  next
    case (Send_deferred i p trx r)
    have "schedule_deferred_transaction n i p trx r x = Inr y" using h Send_deferred by simp
    then show ?thesis by (elim schedule_deferredE) (drule on_db_trx, drule net, simp)
  next
    case (Cancel_deferred i)
    then show ?thesis using h by (auto simp: cancel_deferred_def split: prod.splits dest!: charge_trx)
  next
    case (Set_limits a r1 r2 r3)
    then show ?thesis using h by (auto simp: set_resource_limits_def Let_def insert_validate_ram_def res_simps split: if_splits)
  next
    case Check_time
    then obtain t where "checktime n (ex_trx x) = Inr t" "y = x\<lparr>ex_trx := t\<rparr>" using h by (auto simp: bnd_Inr)
    then show ?thesis using checktime_chain [of n "ex_trx x" t] by (simp add: seq_view_def)
  qed (use h in \<open>auto simp: ex_require_authorization_def require_permission_def require_recipient_def execute_inline_def
      execute_context_free_inline_def set_privileged_def insert_validate_ram_def res_simps\<close>)
qed

lemma known_trx_accounts: "known_accounts x = trx_accounts (ex_trx x)"
  by (simp add: known_accounts_def trx_accounts_def ex_auth_def)

text \<open>Native actions create accounts, with their counters, and remove none.\<close>

lemma create_permission_accounts: "create_permission now account nm parent auth t db = Inr (i, db') \<Longrightarrow> db_accounts db' = db_accounts db"
  by (auto simp: create_permission_def Let_def res_simps)

lemma cancel_deferred_accounts: "cancel_deferred_transaction i sender db = (db', effs) \<Longrightarrow> db_accounts db' = db_accounts db"
  by (auto simp: cancel_deferred_transaction_def split: option.splits)

lemma newaccount_accounts:
  assumes "apply_newaccount nc creator a ow ac db = Inr (db', effs)"
  shows "tbl_find (db_accounts db) a = None" "dom (tbl_find (db_accounts db')) = insert a (dom (tbl_find (db_accounts db)))"
proof -
  obtain acc oid db2 aid where c: "create_permission (nc_time nc) a owner_name 0 ow 0 (db\<lparr>db_accounts := tbl_put a acc (db_accounts db)\<rparr>) = Inr (oid, db2)"
    "create_permission (nc_time nc) a active_name oid ac 0 db2 = Inr (aid, db')" and new: "tbl_find (db_accounts db) a = None"
    using assms by (auto simp: apply_newaccount_def Authorization.require_authorization_def Let_def res_simps)
  then have "db_accounts db' = tbl_put a acc (db_accounts db)" using create_permission_accounts [OF c(1)] create_permission_accounts [OF c(2)] by simp
  then show "tbl_find (db_accounts db) a = None" "dom (tbl_find (db_accounts db')) = insert a (dom (tbl_find (db_accounts db)))"
    using new dom_tbl_put by metis+
qed

lemma code_accounts:
  "apply_setcode nc a vt vv code db = Inr (db', effs) \<Longrightarrow> \<exists>acc. db_accounts db' = tbl_put a acc (db_accounts db)"
  "apply_setabi nc a abi db = Inr (db', effs) \<Longrightarrow> \<exists>acc. db_accounts db' = tbl_put a acc (db_accounts db)"
  by (auto simp: apply_setcode_def apply_setabi_def Authorization.require_authorization_def Let_def chk_Inr need_Inr)

lemma permission_accounts:
  "apply_updateauth nc up db = Inr (db', effs) \<Longrightarrow> db_accounts db' = db_accounts db"
  "apply_deleteauth nc del db = Inr (db', effs) \<Longrightarrow> db_accounts db' = db_accounts db"
  "apply_linkauth nc lk db = Inr (db', effs) \<Longrightarrow> db_accounts db' = db_accounts db"
  "apply_unlinkauth nc ul db = Inr (db', effs) \<Longrightarrow> db_accounts db' = db_accounts db"
  "apply_canceldelay nc cd db = Inr (db', effs) \<Longrightarrow> db_accounts db' = db_accounts db"
  by (auto simp: apply_updateauth_def apply_deleteauth_def apply_linkauth_def apply_unlinkauth_def apply_canceldelay_def modify_permission_def
      remove_permission_def Authorization.require_authorization_def Let_def res_simps split: option.splits
      dest!: create_permission_accounts cancel_deferred_accounts)

lemma apply_native_accounts:
  assumes "apply_native nc d db = Inr (db', effs)"
  shows "dom (tbl_find (db_accounts db)) \<subseteq> dom (tbl_find (db_accounts db'))"
proof (cases d)
  case (Newaccount creator a ow ac)
  then have "apply_newaccount nc creator a ow ac db = Inr (db', effs)" using assms by (simp add: apply_native_def)
  from newaccount_accounts(2) [OF this] show ?thesis by (simp add: subset_insertI)
next
  case (Setcode a vt vv code)
  then obtain acc where "db_accounts db' = tbl_put a acc (db_accounts db)" using assms by (auto simp: apply_native_def dest!: code_accounts(1))
  then show ?thesis by (simp only: dom_tbl_put subset_insertI)
next
  case (Setabi a abi)
  then obtain acc where "db_accounts db' = tbl_put a acc (db_accounts db)" using assms by (auto simp: apply_native_def dest!: code_accounts(2))
  then show ?thesis by (simp only: dom_tbl_put subset_insertI)
qed (use assms permission_accounts in \<open>auto simp: apply_native_def simp del: domIff\<close>)

lemma native_sequenced:
  assumes "run_native m x = Inr y" "trx_sequenced n s (ex_trx x)"
  shows "trx_sequenced n s (ex_trx y)"
proof -
  let ?d = "act_data (ex_act x)"
  have other: "trx_sequenced n s (ex_trx y)"
    if a: "apply_native nc ?d (ex_auth x) = Inr (db, effs)" and z: "charge_ram effs z = Inr y"
      and o: "(case ?d of Newaccount _ a _ _ \<Rightarrow> open_account a (set_auth db x) | _ \<Rightarrow> Inr (set_auth db x)) = Inr z" for nc db effs z
  proof -
    have 1: "trx_sequenced n s (ex_trx (set_auth db x))"
      by (rule trx_sequenced_view [OF assms(2)])
        (use apply_native_accounts [OF a] in \<open>simp_all add: trx_accounts_def ex_auth_def set_auth_def set_chain_def seq_view_def\<close>)
    show ?thesis
    proof (cases "\<exists>creator a ow ac. ?d = Newaccount creator a ow ac")
      case True
      then obtain creator a ow ac where d: "?d = Newaccount creator a ow ac" by blast
      obtain r where z': "z = set_chain (\<lambda>s. s\<lparr>account_sequences := tbl_put a (0, 0) (account_sequences s)\<rparr>) ((set_auth db x)\<lparr>ax := (ax (set_auth db x))\<lparr>rl := r\<rparr>\<rparr>)"
        using o by (auto simp: d open_account_def bnd_Inr)
      note new = newaccount_accounts [OF a [unfolded apply_native_def d native_data.case]]
      have "a \<notin> counted (tx_chain (ex_trx x))"
        using assms(2) new(1) by (auto simp: trx_sequenced_def counters_known_def ex_auth_def)
      then have "tbl_find (account_sequences (tx_chain (ex_trx x))) a = None" by (auto simp: counted_def)
      then have "recv_of (tx_chain (ex_trx z)) = recv_of (tx_chain (ex_trx x))"
        by (auto simp: fun_eq_iff recv_of_def z' set_chain_def set_auth_def tbl_find_update)
      moreover have "tx_executed (ex_trx z) = tx_executed (ex_trx x)" "global_action_sequence (tx_chain (ex_trx z)) = global_action_sequence (tx_chain (ex_trx x))"
        by (simp_all add: z' set_chain_def set_auth_def)
      moreover have "counters_known (tx_chain (ex_trx z))"
        using assms(2) new(2) unfolding trx_sequenced_def counters_known_def counted_def
        by (auto simp: z' set_chain_def set_auth_def ex_auth_def dom_tbl_put simp del: domIff)
      ultimately show ?thesis using assms(2) charge_trx [OF z] by (simp add: trx_sequenced_def sequenced_def)
    next
      case False
      then have "z = set_auth db x" using o by (auto split: native_data.splits)
      then show ?thesis using 1 charge_trx [OF z] by simp
    qed
  qed
  show ?thesis
  proof (cases ?d)
    case (Setconfig c)
    define z where "z = set_list_config_on_chain c (set_config_on_chain c x)"
    have z: "seq_view (ex_trx z) = seq_view (ex_trx x)" "trx_accounts (ex_trx z) = trx_accounts (ex_trx x)"
      by (simp_all add: z_def seq_view_def trx_accounts_def set_list_config_on_chain_def set_config_on_chain_def set_chain_def Let_def)
    have "set_guaranteed_minimum_config c z = Inr y" using assms(1) Setconfig by (simp add: run_native_def apply_setconfig_def z_def Let_def chk_Inr)
    then have "seq_view (ex_trx y) = seq_view (ex_trx z)" "trx_accounts (ex_trx y) = trx_accounts (ex_trx z)"
      by (auto simp: set_guaranteed_minimum_config_def seq_view_def trx_accounts_def set_chain_def Let_def bnd_Inr split: if_splits)
    then show ?thesis using trx_sequenced_view [OF assms(2), of "ex_trx y"] z by simp
  next
    case (Setfee f)
    then have "apply_setfee f x = Inr y" using assms(1) by (simp add: run_native_def Let_def chk_Inr)
    then have "seq_view (ex_trx y) = seq_view (ex_trx x)" "trx_accounts (ex_trx y) = trx_accounts (ex_trx x)"
      by (auto simp: apply_setfee_def ex_require_authorization_def seq_view_def trx_accounts_def set_chain_def bnd_Inr chk_Inr split: if_splits)
    then show ?thesis using trx_sequenced_view [OF assms(2), of "ex_trx y"] by simp
  qed (use assms(1) other in \<open>auto simp: run_native_def Let_def res_simps\<close>)
qed

lemma process_fee_executed:
  assumes "process_fee n a t = Inr t'"
  shows "tx_executed t' = tx_executed t"
proof (cases "fee_model n \<and> tx_fee_payer t \<noteq> 0")
  case True
  then obtain c where "t' = add_limit_by_fee a (t\<lparr>tx_fee_costed := c\<rparr>)"
    using assms unfolding process_fee_def bnd_Inr by (auto simp: bnd_Inr)
  then show ?thesis
    unfolding add_limit_by_fee_def Let_def case_prod_beta by (cases "tbl_find (action_fees (tx_chain t)) (act_account a, act_name a)") simp_all
qed (use assms in \<open>auto simp: process_fee_def split: if_splits\<close>)

lemma receipt_sequenced:
  assumes "add_receipt m x = Inr (r, y)" "trx_sequenced n s (ex_trx x)"
  shows "trx_sequenced n s (ex_trx (finalize_trace y))"
proof -
  have "sequenced s (tx_executed (ex_trx x) @ [r]) (tx_chain (ex_trx y))"
    using assms(2) sequenced_trans [OF _ add_receipt_sequenced(1) [OF assms(1)]] by (simp add: trx_sequenced_def)
  then show ?thesis
    using assms(2) add_receipt_sequenced(2,3) [OF assms(1)] receipt_auth [OF assms(1)]
    by (simp add: trx_sequenced_def finalize_trace_def counters_known_def ex_auth_def)
qed

interpretation seq: exec_invariant n "trx_sequenced n s" "\<lambda>x. trx_sequenced n s (ex_trx x)" for n s
proof
  show "trx_sequenced n s (ex_trx (open_context n a rcv cf t))" if "trx_sequenced n s t" for t a rcv cf
    using that by (simp add: open_context_def)
  show "trx_sequenced n s (ex_trx (x\<lparr>ax := (ax x)\<lparr>receiver := r\<rparr>\<rparr>))" if "trx_sequenced n s (ex_trx x)" for x r using that by simp
  show "trx_sequenced n s (ex_trx (x\<lparr>ax := (ax x)\<lparr>privileged := b\<rparr>\<rparr>))" if "trx_sequenced n s (ex_trx x)" for x b using that by simp
  show "trx_sequenced n s (ex_trx y)" if "trx_sequenced n s (ex_trx x)" "call_typed n c" "call_host n c x = Inr y" for x c y
    by (rule trx_sequenced_view [OF that(1) call_host_view [OF that(3)]])
      (use call_host_notifies [OF that(3)] in \<open>simp add: known_trx_accounts\<close>)
  show "trx_sequenced n s (ex_trx y)" if "trx_sequenced n s (ex_trx x)" "action_typed n (ex_act x)" "run_native n x = Inr y" for x y
    by (rule native_sequenced [OF that(3,1)])
  show "trx_sequenced n s (ex_trx (finalize_trace y))" if "trx_sequenced n s (ex_trx x)" "add_receipt n x = Inr (rc, y)" for x rc y
    by (rule receipt_sequenced [OF that(2,1)])
  show "trx_sequenced n s (close_context x)" if "trx_sequenced n s (ex_trx x)" for x
    by (rule trx_sequenced_view [OF that]) (simp_all add: close_context_def seq_view_def trx_accounts_def)
  show "trx_sequenced n s t'" if "trx_sequenced n s t" "process_fee n a t = Inr t'" for t a t'
    by (rule trx_sequenced_view [OF that(1)])
      (use process_fee_chain [OF that(2)] process_fee_executed [OF that(2)] in \<open>simp_all add: seq_view_def trx_accounts_def\<close>)
  show "node_typed n" if "trx_sequenced n s (ex_trx x)" for x using that by (simp add: trx_sequenced_def)
qed

subsection \<open>Transactions\<close>

lemma init_sequenced:
  assumes "init m u t = Inr t'" "trx_sequenced n s t"
  shows "trx_sequenced n s t'"
proof -
  obtain r where r: "tx_chain t' = (tx_chain t)\<lparr>cs_rl := r\<rparr>" "tx_executed t' = tx_executed t" by (rule init_result [OF assms(1)])
  show ?thesis by (rule trx_sequenced_view [OF assms(2)]) (simp_all add: r seq_view_def trx_accounts_def)
qed

lemma schedule_transaction_sequenced:
  assumes "schedule_transaction m t = Inr t'" "trx_sequenced n s t"
  shows "trx_sequenced n s t'"
proof -
  have net: "tx_chain z = tx_chain t \<and> tx_executed z = tx_executed t"
    if "(if trx_delay_sec (tx_trx t) = 0 then add_net_usage m (base_per_transaction_net_usage m + transaction_id_net_usage) t else Inr t) = Inr z" for z
    using that by (auto simp: add_net_usage_def Let_def res_simps split: if_splits)
  obtain z d g where z: "tx_chain z = tx_chain t" "tx_executed z = tx_executed t" and d: "create_generated (tx_id z) g (cs_auth (tx_chain t)) = Inr d"
    and t': "trx_charge_ram (def_payer g) (generated_transaction_size + def_packed_size g) (z\<lparr>tx_chain := (tx_chain z)\<lparr>cs_auth := d\<rparr>\<rparr>) = Inr t'"
    using assms(1) net unfolding schedule_transaction_def bnd_Inr Let_def by metis
  have "db_accounts d = db_accounts (cs_auth (tx_chain t))" using d by (auto simp: create_generated_def chk_Inr)
  moreover obtain r where "tx_chain t' = (tx_chain t)\<lparr>cs_auth := d, cs_rl := r\<rparr>" "tx_executed t' = tx_executed t"
    using t' z by (auto simp: trx_charge_ram_def bnd_Inr)
  ultimately show ?thesis by (intro trx_sequenced_view [OF assms(2)]) (simp_all add: seq_view_def trx_accounts_def)
qed

lemma dispatch_sequenced:
  assumes "dispatch_action n cf a (ts, t) = Inr q" "trx_sequenced n s t" "action_typed n a"
  shows "trx_sequenced n s (snd q)"
  using assms(1) seq.exec_action_keeps [OF _ assms(2,3)] by (auto simp: dispatch_action_def res_simps)

lemma exec_trx_sequenced:
  assumes "exec_trx n t = Inr q" "trx_sequenced n s t" "trx_typed n (tx_trx t)"
  shows "trx_sequenced n s (snd q)"
proof -
  obtain p1 p2 where e:
    "(if tx_apply_context_free t then exec_actions n True (trx_context_free_actions (tx_trx t)) ([], t) else Inr ([], t)) = Inr p1"
    "(if tx_delay (snd p1) = 0 then exec_actions n False (trx_actions (tx_trx (snd p1))) (fst p1, snd p1)
       else bnd (schedule_transaction n (snd p1)) (\<lambda>t. Inr (fst p1, t))) = Inr p2"
    "(if fee_model n then dispatch_fee_action n p2 else Inr p2) = Inr q"
    using assms(1) unfolding exec_trx_def chk_Inr bnd_Inr case_prod_beta by (elim exE conjE) (rule that)
  have nt: "node_typed n" using assms(2) by (simp add: trx_sequenced_def)
  have cf: "list_all (action_typed n) (trx_context_free_actions (tx_trx t))" and ac: "list_all (action_typed n) (trx_actions (tx_trx t))"
    using assms(3) by (simp_all add: trx_typed_def)
  have 1: "trx_sequenced n s (snd p1) \<and> tx_trx (snd p1) = tx_trx t"
  proof (cases "tx_apply_context_free t")
    case True
    then have x: "exec_actions n True (trx_context_free_actions (tx_trx t)) ([], t) = Inr p1" using e(1) by simp
    then have "exec_actions n True (trx_context_free_actions (tx_trx t)) ([], t) = Inr (fst p1, snd p1)" by simp
    from trx_frame_eqD(1) [OF exec_actions_frame [OF this nt cf]] have "tx_trx (snd p1) = tx_trx t" .
    then show ?thesis using seq.exec_actions_keeps [OF x _ cf] assms(2) by simp
  qed (use e(1) assms(2) in auto)
  have 2: "trx_sequenced n s (snd p2)"
  proof (cases "tx_delay (snd p1) = 0")
    case True
    then have "exec_actions n False (trx_actions (tx_trx t)) (fst p1, snd p1) = Inr p2" using e(2) 1 by simp
    then show ?thesis using seq.exec_actions_keeps 1 ac by (metis snd_conv)
  next
    case False
    then have "schedule_transaction n (snd p1) = Inr (snd p2)" using e(2) by (auto simp: bnd_Inr)
    then show ?thesis using schedule_transaction_sequenced 1 by blast
  qed
  show ?thesis
    using e(3) 2 dispatch_sequenced [OF _ 2 fee_action_typed, of False "snd p2" "fst p2" q]
    by (auto simp: dispatch_fee_action_def split: if_splits)
qed

lemma finalize_sequenced:
  assumes "finalize m t = Inr t'" "trx_sequenced n s t"
  shows "trx_sequenced n s t'"
proof -
  obtain z r where z: "finalize_checks m t = Inr z" and t': "t' = z\<lparr>tx_chain := (tx_chain z)\<lparr>cs_rl := r\<rparr>\<rparr>"
    using assms(1) by (auto simp: finalize_def res_simps)
  obtain v lims now where v: "update_usages m t = Inr v" and z': "z = update_billed_cpu_time m now (snd (read_clock m (final_limits lims v)))"
    using z unfolding finalize_checks_def chk_Inr bnd_Inr lift_Inr Let_def case_prod_beta
    by (elim exE conjE) (rule that, assumption, erule Inr_inject [THEN sym])
  have zv: "tx_chain z = tx_chain v" "tx_executed z = tx_executed v"
    by (simp_all add: z' update_billed_cpu_time_def read_clock_def final_limits_def Let_def case_prod_beta)
  have acc: "db_accounts d = db_accounts d0"
    if "for_each (\<lambda>l db. bnd (get_permission db l) (\<lambda>p. update_permission_usage k (snd p) db)) ls d0 = Inr d" for k ls d0 d
    by (rule for_each_inv [OF that, where P = "\<lambda>d. db_accounts d = db_accounts d0"]) (auto simp: update_permission_usage_def res_simps)
  have vt: "seq_view v = seq_view t" "trx_accounts v = trx_accounts t"
    using v by (cases "tx_is_input t"; auto simp: update_usages_def seq_view_def trx_accounts_def bnd_Inr lift_Inr dest!: acc simp del: domIff)+
  show ?thesis by (rule trx_sequenced_view [OF assms(2)]) (use vt zv in \<open>simp_all add: t' seq_view_def trx_accounts_def\<close>)
qed

subsection \<open>The block\<close>

definition pending_sequenced :: "pending_state \<Rightarrow> pending_state \<Rightarrow> bool" where
  "pending_sequenced p q \<longleftrightarrow> counters_known (pb_chain q) \<and> (\<exists>rs. pb_actions q = pb_actions p @ rs \<and> sequenced (pb_chain p) rs (pb_chain q))"

lemma pending_sequenced_refl: "counters_known (pb_chain p) \<Longrightarrow> pending_sequenced p p"
  using sequenced_refl by (auto simp: pending_sequenced_def)

lemma pending_sequenced_trans: "pending_sequenced p q \<Longrightarrow> pending_sequenced q r \<Longrightarrow> pending_sequenced p r"
  unfolding pending_sequenced_def using sequenced_trans by (metis append.assoc)

lemma pending_sequenced_same:
  assumes "pending_sequenced p q" "pb_actions r = pb_actions q" "global_action_sequence (pb_chain r) = global_action_sequence (pb_chain q)"
    "account_sequences (pb_chain r) = account_sequences (pb_chain q)" "db_accounts (cs_auth (pb_chain r)) = db_accounts (cs_auth (pb_chain q))"
  shows "pending_sequenced p r"
  using assms sequenced_same [OF assms(3,4)] by (simp add: pending_sequenced_def counters_known_def counted_def)

lemma trx_sequenced_start:
  "node_typed n \<Longrightarrow> counters_known (pb_chain p) \<Longrightarrow> tx_chain t = pb_chain p \<Longrightarrow> tx_executed t = [] \<Longrightarrow> trx_sequenced n (pb_chain p) t"
  by (simp add: trx_sequenced_def sequenced_refl)

lemma trx_sequenced_end:
  "trx_sequenced n (pb_chain p) t \<Longrightarrow> pb_chain q = tx_chain t \<Longrightarrow> pb_actions q = pb_actions p @ tx_executed t \<Longrightarrow> pending_sequenced p q"
  by (auto simp: trx_sequenced_def pending_sequenced_def)

lemma trx_sequenced_set [simp]: "trx_sequenced n s (t\<lparr>tx_published := a\<rparr>) = trx_sequenced n s t" "trx_sequenced n s (t\<lparr>tx_is_input := b\<rparr>) = trx_sequenced n s t"
  "trx_sequenced n s (t\<lparr>tx_enforce_whiteblacklist := b\<rparr>) = trx_sequenced n s t" "trx_sequenced n s (t\<lparr>tx_delay := a\<rparr>) = trx_sequenced n s t"
  "trx_sequenced n s (t\<lparr>tx_apply_context_free := b\<rparr>) = trx_sequenced n s t"
  by (simp_all add: trx_sequenced_def)

lemma fee_data_sequenced:
  assumes "(if b then set_fee_data t else Inr t) = Inr t'" "trx_sequenced n s t"
  shows "trx_sequenced n s t' \<and> tx_trx t' = tx_trx t"
proof -
  have "tx_chain t' = tx_chain t \<and> tx_trx t' = tx_trx t \<and> tx_executed t' = tx_executed t"
    using assms(1) by (auto split: if_splits dest: set_fee_data_chain)
  then show ?thesis using assms(2) by (simp add: trx_sequenced_def)
qed

lemma init_trx_sequenced:
  assumes "init_trx n m skip t = Inr t'" "trx_sequenced n s t"
  shows "trx_sequenced n s t' \<and> tx_trx t' = tx_trx t"
proof (cases "tm_implicit m")
  case True
  then obtain z where z: "init n 0 (t\<lparr>tx_published := pending_block_time n\<rparr>) = Inr z" "t' = z\<lparr>tx_enforce_whiteblacklist := False\<rparr>"
    using assms(1) by (auto simp: init_trx_def init_for_implicit_trx_def res_simps)
  have "tx_trx z = tx_trx t" by (rule init_result [OF z(1)]) simp
  then show ?thesis using init_sequenced [OF z(1)] assms(2) z(2) by simp
next
  case False
  then obtain u z where z: "init n u (t\<lparr>tx_published := pending_block_time n, tx_is_input := True\<rparr>) = Inr z"
    and t': "(if skip then Inr z else record_transaction (tx_id z) (trx_expiration (tx_trx z)) z) = Inr t'"
    using assms(1) unfolding init_trx_def init_for_input_trx_def Let_def by (auto simp: bnd_Inr)
  have 1: "trx_sequenced n s z" using init_sequenced [OF z] assms(2) by simp
  have "seq_view t' = seq_view z" "trx_accounts t' = trx_accounts z" "tx_trx t' = tx_trx z"
    using t' by (auto simp: record_transaction_def chk_Inr seq_view_def trx_accounts_def split: if_splits)
  moreover have "tx_trx z = tx_trx t" by (rule init_result [OF z]) simp
  ultimately show ?thesis using trx_sequenced_view [OF 1, of t'] by simp
qed

lemma run_input_trx_sequenced:
  assumes "run_input_trx n m skip t p = Inr q" "trx_sequenced n (pb_chain p) t" "tx_trx t = tm_trx m" "trx_typed n (tm_trx m)" "counters_known (pb_chain p)"
  shows "pending_sequenced p q"
proof -
  obtain t1 t2 ts t3 t4 p' where t1: "init_trx n m skip t = Inr t1"
    and t2: "(if fee_model n \<and> \<not> tm_implicit m then set_fee_data (t1\<lparr>tx_delay := trx_delay_sec (tm_trx m) * 1000000\<rparr>)
       else Inr (t1\<lparr>tx_delay := trx_delay_sec (tm_trx m) * 1000000\<rparr>)) = Inr t2"
    and t3: "exec_trx n t2 = Inr (ts, t3)" and t4: "finalize n t3 = Inr t4" and p': "pb_actions p' = pb_actions p"
    and q: "q = (if \<not> speculative_reads n \<and> is_producing_block n then p
       else p'\<lparr>pb_actions := pb_actions p' @ tx_executed t4, pb_chain := tx_chain t4\<rparr>)"
    by (rule run_input_trxE [OF assms(1)])
  have 1: "trx_sequenced n (pb_chain p) t1 \<and> tx_trx t1 = tm_trx m" using init_trx_sequenced [OF t1 assms(2)] assms(3) by simp
  have 2: "trx_sequenced n (pb_chain p) t2 \<and> tx_trx t2 = tm_trx m" using fee_data_sequenced [OF t2, of n "pb_chain p"] 1 by simp
  have 3: "trx_sequenced n (pb_chain p) t3" using exec_trx_sequenced [OF t3] 2 assms(4) by simp
  have 4: "trx_sequenced n (pb_chain p) t4" by (rule finalize_sequenced [OF t4 3])
  show ?thesis
  proof (cases "\<not> speculative_reads n \<and> is_producing_block n")
    case True
    then show ?thesis using q pending_sequenced_refl [OF assms(5)] by simp
  next
    case False
    then have "pb_chain q = tx_chain t4" "pb_actions q = pb_actions p @ tx_executed t4" unfolding q if_not_P [OF False] using p' by simp_all
    from trx_sequenced_end [OF 4 this] show ?thesis .
  qed
qed

lemma push_transaction_sequenced:
  assumes "push_transaction n m deadline b ex skip p = Inr (e, q)" "counters_known (pb_chain p)" "node_typed n" "trx_typed n (tm_trx m)"
  shows "pending_sequenced p q"
  using assms(1)
proof (cases rule: push_transaction_cases)
  case failed
  then show ?thesis using pending_sequenced_refl [OF assms(2)] by simp
next
  case (done_trx t)
  from run_input_trx_sequenced [OF done_trx(4) trx_sequenced_start [OF assms(3,2) done_trx(1,3)] done_trx(2) assms(4,2)] show ?thesis .
qed

lemma run_scheduled_sequenced:
  assumes "run_scheduled_trx n g t p = Inr q" "trx_sequenced n (pb_chain p) t" "trx_typed n (tx_trx t)"
  shows "pending_sequenced p q"
proof -
  obtain t1 t2 ts t3 t4 where t1: "init n 0 (t\<lparr>tx_published := def_published (snd g), tx_apply_context_free := False\<rparr>) = Inr t1"
    and t2: "(if fee_model n then set_fee_data t1 else Inr t1) = Inr t2"
    and t3: "exec_trx n t2 = Inr (ts, t3)" and t4: "finalize n t3 = Inr t4" and q: "pb_chain q = tx_chain t4" "pb_actions q = pb_actions p @ tx_executed t4"
    by (rule run_scheduledE [OF assms(1)])
  have 1: "trx_sequenced n (pb_chain p) t1" using init_sequenced [OF t1] assms(2) by simp
  have "tx_trx t1 = tx_trx t" by (rule init_result [OF t1]) simp
  then have 2: "trx_sequenced n (pb_chain p) t2 \<and> tx_trx t2 = tx_trx t" using fee_data_sequenced [OF t2 1] by simp
  have 3: "trx_sequenced n (pb_chain p) t3" using exec_trx_sequenced [OF t3] 2 assms(3) by simp
  show ?thesis by (rule trx_sequenced_end [OF finalize_sequenced [OF t4 3] q])
qed

lemma apply_onerror_sequenced:
  assumes "apply_onerror n g deadline start b ex enforce p = Inr q" "counters_known (pb_chain p)" "node_typed n"
  shows "pending_sequenced p q"
proof -
  obtain t t1 tr t3 t4 where t: "tx_chain t = pb_chain p" "tx_executed t = []" and t1: "init n 0 t = Inr t1"
    and e: "exec_action n 0 False (hd (trx_actions (onerror_trx n (snd g)))) (def_sender (snd g)) (t1\<lparr>tx_published := def_published (snd g)\<rparr>) = Inr (tr, t3)"
    and t4: "finalize n t3 = Inr t4" and q: "pb_chain q = tx_chain t4" "pb_actions q = pb_actions p @ tx_executed t4"
    by (rule apply_onerrorE [OF assms(1)])
  have 1: "trx_sequenced n (pb_chain p) t1" by (rule init_sequenced [OF t1 trx_sequenced_start [OF assms(3,2) t]])
  have a: "action_typed n (hd (trx_actions (onerror_trx n (snd g))))" by (simp add: onerror_trx_def action_typed_def data_ok_def)
  have 3: "trx_sequenced n (pb_chain p) t3" by (rule seq.exec_action_keeps [OF e _ a]) (use 1 in simp)
  show ?thesis by (rule trx_sequenced_end [OF finalize_sequenced [OF t4 3] q])
qed

lemma hard_fail_same:
  assumes "hard_fail n i t cpu ex p = Inr q"
  shows "pb_actions q = pb_actions p" "\<exists>r. pb_chain q = (pb_chain p)\<lparr>cs_rl := r\<rparr>"
proof -
  have "\<exists>cpu s r. push_receipt i Hard_fail cpu 0 (p\<lparr>pb_chain := s\<lparr>cs_rl := r\<rparr>\<rparr>) = Inr q \<and> (\<exists>r. s = (pb_chain p)\<lparr>cs_rl := r\<rparr>)"
    using assms unfolding hard_fail_def Let_def
    by (auto simp: bnd_Inr split: prod.splits if_splits) (metis chain_state.surjective chain_state.update_convs(3))+
  then show "pb_actions q = pb_actions p" "\<exists>r. pb_chain q = (pb_chain p)\<lparr>cs_rl := r\<rparr>"
    by (auto simp: push_receipt_def chk_Inr)
qed

lemma push_scheduled_sequenced:
  assumes "push_scheduled_transaction n i deadline b ex now1 now2 p = Inr (e, q)" "counters_known (pb_chain p)" "chain_wf n (pb_chain p)" "node_typed n"
  shows "pending_sequenced p q"
  using assms(1)
proof (cases rule: push_scheduled_cases)
  case (outcome g s)
  let ?r = "p\<lparr>pb_chain := s\<rparr>" and ?n = "with_checks n"
  have gt: "trx_typed ?n (def_trx (snd g))" using auth_wfD(9) [OF _ outcome(1)] assms(3) by (simp add: chain_wf_def)
  have nt: "node_typed ?n" using assms(4) by simp
  note refl = pending_sequenced_refl [OF assms(2)]
  obtain d where s: "s = (pb_chain p)\<lparr>cs_rl := cs_rl s, cs_auth := d\<rparr>" "db_accounts d = db_accounts (cs_auth (pb_chain p))"
    using outcome(2) by (auto simp: remove_scheduled_transaction_def bnd_Inr)
  have rem: "pending_sequenced p ?r" by (rule pending_sequenced_same [OF refl]) (simp_all add: s(2), (subst s(1), simp add: s(2))+)
  then have k: "counters_known (pb_chain ?r)" by (simp add: pending_sequenced_def)
  have "pending_sequenced ?r q" if "run_scheduled_trx ?n g t ?r = Inr q" "tx_chain t = s" "tx_trx t = def_trx (snd g)" "tx_executed t = []" for t
    using run_scheduled_sequenced [OF that(1) trx_sequenced_start [OF nt k _ that(4)]] that(2,3) gt by simp
  moreover have "pending_sequenced ?r q" if "apply_onerror ?n g deadline start b ex enforce ?r = Inr q" for start enforce
    by (rule apply_onerror_sequenced [OF that k nt])
  moreover have "pending_sequenced p q" if "retire_failed ?n i t e' cpu ex p ?r = Inr (e'', q)" for t e' cpu e''
  proof (cases "if ex then failure_is_subjective e' else scheduled_failure_is_subjective e'")
    case True
    then show ?thesis using that refl by (auto simp: retire_failed_def split: if_splits)
  next
    case False
    then have h: "hard_fail ?n i t cpu ex ?r = Inr q" using that by (auto simp: retire_failed_def bnd_Inr)
    then obtain r where "pb_chain q = s\<lparr>cs_rl := r\<rparr>" using hard_fail_same(2) [OF h] by auto
    then show ?thesis by (intro pending_sequenced_same [OF rem]) (simp_all add: hard_fail_same(1) [OF h])
  qed
  moreover have "pending_sequenced p q" if "push_receipt i Expired b 0 ?r = Inr q"
    by (rule pending_sequenced_same [OF rem]) (use that in \<open>auto simp: push_receipt_def chk_Inr\<close>)
  ultimately show ?thesis using outcome(3) pending_sequenced_trans [OF rem] by blast
qed

interpretation receipts: action_system "push_call n" "\<lambda>q. node_typed n \<and> chain_wf n (pb_chain q) \<and> pending_sequenced p q" "trx_call_typed n" for n p
proof
  fix q c r assume q: "node_typed n \<and> chain_wf n (pb_chain q) \<and> pending_sequenced p q" and c: "trx_call_typed n c" "push_call n c q = Inr r"
  have wf: "chain_wf n (pb_chain q)" "counters_known (pb_chain q)" "node_typed n" using q by (simp_all add: pending_sequenced_def)
  have "chain_wf n (pb_chain r)"
    using block_run.exec_inv [of n "pb_chain q" q c r] wf(3) chain_billed_refl [OF wf(1)] c chain_billed_wf by blast
  moreover have "pending_sequenced q r"
    using c push_transaction_sequenced [OF _ wf(2,3)] push_scheduled_sequenced [OF _ wf(2,1,3)] by (cases c) (auto simp: res_simps)
  ultimately show "node_typed n \<and> chain_wf n (pb_chain r) \<and> pending_sequenced p r" using q pending_sequenced_trans by blast
qed

text \<open>C2. The receipts of a block are in sequence. Whatever transactions a node executes in a block (failing ones are undone, and their
  receipts are dropped with the state), the receipts it collects carry the numbers that follow the chain's counter, one by one, and
  for every account the numbers that follow the account's counter; the counters end at the number of receipts.\<close>

theorem block_receipts_sequenced:
  assumes "node_typed n" "chain_wf n (pb_chain p)" "counters_known (pb_chain p)" "list_all (trx_call_typed n) cs"
  shows "\<exists>rs. pb_actions (run_actions (push_call n) cs p) = pb_actions p @ rs
     \<and> sequenced (pb_chain p) rs (pb_chain (run_actions (push_call n) cs p))"
  using receipts.run_inv [of n p p cs] pending_sequenced_refl [OF assms(3)] assms by (simp add: pending_sequenced_def)

theorem block_receipts_sequenced_witness:
  "\<exists>rs. pb_actions (run_actions (push_call demo_node) [demo_push, Push_scheduled demo_code 100000 0 False 1 1] hi_pending) = rs
     \<and> sequenced demo_chain rs (pb_chain (run_actions (push_call demo_node) [demo_push, Push_scheduled demo_code 100000 0 False 1 1] hi_pending))"
proof -
  have "tbl_find (db_accounts demo_permissions) alice \<noteq> None \<and> tbl_find (db_accounts demo_permissions) bob \<noteq> None" by code_simp
  then have "counters_known demo_chain"
    by (auto simp: counters_known_def counted_def demo_chain_def tbl_find_def split: if_splits)
  moreover have "list_all (trx_call_typed demo_node) [demo_push, Push_scheduled demo_code 100000 0 False 1 1]"
    by (simp add: demo_push_def trx_typed_def hi_trx_def action_typed_def data_ok_def)
  moreover have "pb_chain hi_pending = demo_chain" "pb_actions hi_pending = []" by (simp_all add: hi_pending_def)
  ultimately show ?thesis
    using block_receipts_sequenced [OF demo_node_typed, of hi_pending "[demo_push, Push_scheduled demo_code 100000 0 False 1 1]"] demo_chain_wf by simp
qed

end
