(* ===== verification/Replay_Db.thy ===== *)
theory Replay_Db
  imports Exec_Ram
begin

text \<open>
  A node that replays a block runs the same code as the node that produced it, with other switches: it does not apply its own lists
  of names, allows RAM to be billed in notifications, and takes the billed time from the block. A calculus relates two
  runs: \<open>carries g r r'\<close> says that whenever \<open>r\<close> succeeds, \<open>r'\<close> succeeds with the result carried over by \<open>g\<close>. This theory holds the
  calculus and carries the database calls over.
\<close>

subsection \<open>Runs that carry over\<close>

named_theorems carries_rules \<open>results of a producing node that carry over to a replaying node\<close>

definition carries :: "('a \<Rightarrow> 'b) \<Rightarrow> 'e + 'a \<Rightarrow> 'f + 'b \<Rightarrow> bool" where
  "carries g r r' \<longleftrightarrow> (\<forall>y. r = Inr y \<longrightarrow> r' = Inr (g y))"

lemma carriesD: "carries g r r' \<Longrightarrow> r = Inr y \<Longrightarrow> r' = Inr (g y)"
  by (simp add: carries_def)

lemma carriesI: "(\<And>y. r = Inr y \<Longrightarrow> r' = Inr (g y)) \<Longrightarrow> carries g r r'"
  by (simp add: carries_def)

lemma carries_Inr: "y' = g y \<Longrightarrow> carries g (Inr y) (Inr y')"
  by (simp add: carries_def)

lemma carries_Inl: "carries g (Inl e) r"
  by (simp add: carries_def)

lemma carries_same: "carries (\<lambda>x. x) r r"
  by (simp add: carries_def)

lemma carries_bnd: "carries g m m' \<Longrightarrow> (\<And>v. m = Inr v \<Longrightarrow> carries h (f v) (f' (g v))) \<Longrightarrow> carries h (bnd m f) (bnd m' f')"
  by (auto simp: carries_def bnd_Inr)

lemma carries_read: "(\<And>v. m = Inr v \<Longrightarrow> carries h (f v) (f' v)) \<Longrightarrow> carries h (bnd m f) (bnd m f')"
  by (auto simp: carries_def bnd_Inr)

lemma carries_chk: "(b \<Longrightarrow> b') \<Longrightarrow> (b \<Longrightarrow> carries g k k') \<Longrightarrow> carries g (chk b e k) (chk b' e' k')"
  by (auto simp: carries_def chk_Inr)

lemma carries_need: "(\<And>v. m = Some v \<Longrightarrow> carries g (f v) (f' v)) \<Longrightarrow> carries g (need m e f) (need m e' f')"
  by (auto simp: carries_def need_Inr)

lemma carries_if: "(b \<Longrightarrow> carries g r r') \<Longrightarrow> (\<not> b \<Longrightarrow> carries g s s') \<Longrightarrow> carries g (if b then r else s) (if b then r' else s')"
  by simp

lemma carries_option:
  "carries g r r' \<Longrightarrow> (\<And>v. m = Some v \<Longrightarrow> carries g (f v) (f' v)) \<Longrightarrow> carries g (case m of None \<Rightarrow> r | Some v \<Rightarrow> f v) (case m of None \<Rightarrow> r' | Some v \<Rightarrow> f' v)"
  by (cases m) simp_all

lemma carries_for_each:
  "(\<And>v s. v \<in> set vs \<Longrightarrow> carries g (f v s) (f' v (g s))) \<Longrightarrow> carries g (for_each f vs s) (for_each f' vs (g s))"
proof (induction vs arbitrary: s)
  case (Cons v vs)
  show ?case
    unfolding for_each.simps by (rule carries_bnd [where g = g]) (use Cons in auto)
qed (simp add: carries_def)

lemma carries_lift: "carries g r r' \<Longrightarrow> carries g (lift_db r) (lift_db r')"
  by (auto simp: carries_def lift_db_def split: sum.splits)

subsection \<open>The database calls\<close>

definition allow :: "apply_context \<Rightarrow> apply_context" where
  "allow x = x\<lparr>ram_billing_in_notify_allowed := True\<rparr>"

lemma allow_simps [simp]: "receiver (allow x) = receiver x" "act_code (allow x) = act_code x" "act_auth (allow x) = act_auth x"
  "privileged (allow x) = privileged x" "ram_billing_in_notify_allowed (allow x)" "caches (allow x) = caches x"
  "account_ram_deltas (allow x) = account_ram_deltas x" "cdb (allow x) = cdb x" "rl (allow x) = rl x" "validate_ram_usage (allow x) = validate_ram_usage x"
  by (simp_all add: allow_def)

lemma allow_set: "(allow x)\<lparr>rl := r\<rparr> = allow (x\<lparr>rl := r\<rparr>)" "(allow x)\<lparr>cdb := d\<rparr> = allow (x\<lparr>cdb := d\<rparr>)" "(allow x)\<lparr>caches := c\<rparr> = allow (x\<lparr>caches := c\<rparr>)"
  "(allow x)\<lparr>account_ram_deltas := a\<rparr> = allow (x\<lparr>account_ram_deltas := a\<rparr>)" "(allow x)\<lparr>validate_ram_usage := v\<rparr> = allow (x\<lparr>validate_ram_usage := v\<rparr>)"
  "(allow x)\<lparr>receiver := b\<rparr> = allow (x\<lparr>receiver := b\<rparr>)" "(allow x)\<lparr>privileged := p\<rparr> = allow (x\<lparr>privileged := p\<rparr>)"
  by (simp_all add: allow_def)

lemma allow_reads [simp]: "deref_table (allow x) i = deref_table x i" "deref_row (allow x) k p = deref_row x k p"
  "find_table (allow x) c s t = find_table x c s t" "own_object k i (allow x) = own_object k i x"
  "Contract_Db.require_authorization (allow x) a = Contract_Db.require_authorization x a" "db_get_i64 i m (allow x) = db_get_i64 i m x"
  "idx_get k i (allow x) = idx_get k i x"
  by (simp_all add: deref_table_def deref_row_def find_table_def own_object_def Contract_Db.require_authorization_def db_get_i64_def idx_get_def)

lemma allow_updates: "set_table i t (allow x) = allow (set_table i t x)" "modify_row key r (allow x) = allow (modify_row key r x)"
  "set_cache k c (allow x) = allow (set_cache k c x)" "ctx_cache_table k j (allow x) = map_prod id allow (ctx_cache_table k j x)"
  "ctx_add k p (allow x) = map_prod id allow (ctx_add k p x)" "end_iterator k code sc tab (allow x) = map_prod id allow (end_iterator k code sc tab x)"
  by (simp_all add: set_table_def modify_row_def set_cache_def ctx_cache_table_def ctx_add_def end_iterator_def allow_set Let_def split_beta split: option.splits)

lemma carries_ram [carries_rules]: "carries allow (trx_add_ram_usage a d x) (trx_add_ram_usage a d (allow x))"
  "carries allow (add_ram_usage a d x) (add_ram_usage a d (allow x))" "carries allow (update_db_usage a d x) (update_db_usage a d (allow x))"
proof -
  have 1: "carries allow (trx_add_ram_usage a d x) (trx_add_ram_usage a d (allow x))" for x
    by (auto simp: carries_def trx_add_ram_usage_def allow_def split: sum.splits)
  have 2: "carries allow (add_ram_usage a d x) (add_ram_usage a d (allow x))" for x
    unfolding add_ram_usage_def by (rule carries_bnd [OF 1]) (simp add: carries_def allow_set)
  show "carries allow (trx_add_ram_usage a d x) (trx_add_ram_usage a d (allow x))" "carries allow (add_ram_usage a d x) (add_ram_usage a d (allow x))"
    by (rule 1, rule 2)
  show "carries allow (update_db_usage a d x) (update_db_usage a d (allow x))"
    unfolding update_db_usage_def
    by (rule carries_bnd [where g = "\<lambda>x. x"]) (auto simp: carries_def chk_Inr intro: carriesD [OF 2])
qed

lemma carries_table [carries_rules]:
  "carries (map_prod id allow) (find_or_create_table c s t p x) (find_or_create_table c s t p (allow x))"
  "carries allow (remove_table i tid x) (remove_table i tid (allow x))"
  "carries allow (create_row key r x) (create_row key r (allow x))" "carries allow (change_count i d x) (change_count i d (allow x))"
proof -
  show "carries (map_prod id allow) (find_or_create_table c s t p x) (find_or_create_table c s t p (allow x))"
    unfolding find_or_create_table_def allow_reads
    by (rule carries_option, rule carries_bnd [OF carries_ram(3)]) (auto simp: carries_def chk_Inr Let_def allow_updates allow_set)
  show "carries allow (remove_table i tid x) (remove_table i tid (allow x))"
    unfolding remove_table_def by (rule carries_bnd [OF carries_ram(3)]) (auto simp: carries_def allow_set)
  show "carries allow (create_row key r x) (create_row key r (allow x))"
    by (auto simp: create_row_def carries_def chk_Inr allow_set)
  show "carries allow (change_count i d x) (change_count i d (allow x))"
    by (auto simp: change_count_def carries_def bnd_Inr allow_updates)
qed

lemma carries_drop_row: "carries allow (drop_row k i p x) (drop_row k i p (allow x))"
  unfolding drop_row_def Let_def
  by (rule carries_bnd [OF carries_table(4)], simp only: allow_set allow_reads allow_simps, rule carries_read, rule carries_bnd [where g = allow])
    (auto simp: allow_set allow_updates intro!: carries_table carries_if carries_Inr carries_read)

lemma carries_rows [carries_rules]:
  "carries (map_prod id allow) (db_store_i64 s t a pk b x) (db_store_i64 s t a pk b (allow x))"
  "carries (map_prod id allow) (idx_store k s t a pk v x) (idx_store k s t a pk v (allow x))"
  "carries allow (db_update_i64 i a b x) (db_update_i64 i a b (allow x))" "carries allow (idx_update k i a v x) (idx_update k i a v (allow x))"
  "carries allow (db_remove_i64 i x) (db_remove_i64 i (allow x))" "carries allow (idx_remove k i x) (idx_remove k i (allow x))"
proof -
  have fin: "carries (map_prod id allow) (Inr (ctx_add k p (snd (ctx_cache_table k j x)))) (Inr (ctx_add k p (snd (ctx_cache_table k j (allow x)))))" for k p j x
    by (simp add: carries_def allow_updates)
  have put: "carries (map_prod id allow) (bnd (create_row key r x) (\<lambda>x. bnd (change_count tab 1 x) (\<lambda>x. bnd (update_db_usage a d x) (\<lambda>x.
      Inr (ctx_add k p (snd (ctx_cache_table k tab x))))))) (bnd (create_row key r (allow x)) (\<lambda>x. bnd (change_count tab 1 x) (\<lambda>x.
      bnd (update_db_usage a d x) (\<lambda>x. Inr (ctx_add k p (snd (ctx_cache_table k tab x)))))))" for k p key r tab d x
    by (rule carries_bnd [OF carries_table(3)], rule carries_bnd [OF carries_table(4)], rule carries_bnd [OF carries_ram(3)]) (rule fin)
  show "carries (map_prod id allow) (db_store_i64 s t a pk b x) (db_store_i64 s t a pk b (allow x))"
    unfolding db_store_i64_def allow_simps
    by (rule carries_bnd [OF carries_table(1)]) (auto simp: split_beta intro!: carries_chk put)
  show "carries (map_prod id allow) (idx_store k s t a pk v x) (idx_store k s t a pk v (allow x))"
    unfolding idx_store_def allow_simps
    by (rule carries_chk, assumption, rule carries_bnd [OF carries_table(1)]) (auto simp: split_beta intro!: put)
  have two: "carries allow (bnd (update_db_usage a d x) (update_db_usage b e)) (bnd (update_db_usage a d (allow x)) (update_db_usage b e))" for a d b e x
    by (rule carries_bnd [OF carries_ram(3)]) (rule carries_ram(3))
  have mod: "carries allow (Inr (modify_row key r x)) (Inr (modify_row key r (allow x)))" for key r x
    by (simp add: carries_def allow_updates)
  show "carries allow (db_update_i64 i a b x) (db_update_i64 i a b (allow x))"
    unfolding db_update_i64_def allow_reads Let_def
    by (rule carries_read, simp only: split_beta, rule carries_bnd [where g = allow])
      (auto intro!: carries_if two carries_ram carries_Inr mod)
  show "carries allow (idx_update k i a v x) (idx_update k i a v (allow x))"
    unfolding idx_update_def allow_reads Let_def
    by (rule carries_read, simp only: split_beta, rule carries_bnd [where g = allow])
      (auto intro!: carries_if two carries_ram carries_Inr mod)
  show "carries allow (db_remove_i64 i x) (db_remove_i64 i (allow x))"
    unfolding db_remove_i64_def allow_reads
    by (rule carries_read, simp only: split_beta, rule carries_bnd [OF carries_ram(3)]) (rule carries_drop_row)
  show "carries allow (idx_remove k i x) (idx_remove k i (allow x))"
    unfolding idx_remove_def allow_reads allow_simps
    by (rule carries_read, rule carries_read, rule carries_bnd [OF carries_ram(3)])
      (simp only: allow_reads allow_simps, intro carries_read carries_chk carries_drop_row)
qed

lemma carries_step_to:
  "other (allow x) = other x \<Longrightarrow> carries (map_prod id allow) (step_to k t hit other x) (step_to k t hit other (allow x))"
  unfolding step_to_def
  by (auto simp: carries_def allow_updates bnd_Inr split: option.splits prod.splits)

lemma carries_lookup: "carries (map_prod id allow) (lookup_in k c s t hit x) (lookup_in k c s t hit (allow x))"
  unfolding lookup_in_def allow_reads allow_updates
  by (rule carries_option) (auto simp: carries_Inr split_beta intro!: carries_step_to)

lemma carries_moves:
  "carries (map_prod id allow) (next_primary k i x) (next_primary k i (allow x))"
  "carries (map_prod id allow) (previous_primary k i x) (previous_primary k i (allow x))"
  "carries (map_prod id allow) (idx_next_secondary k i x) (idx_next_secondary k i (allow x))"
  "carries (map_prod id allow) (idx_previous_secondary k i x) (idx_previous_secondary k i (allow x))"
  unfolding next_primary_def previous_primary_def idx_next_secondary_def idx_previous_secondary_def allow_reads allow_simps key_in_secondary_def
  by (intro carries_if carries_read carries_need carries_step_to carries_Inr; simp)+

lemma carries_first: "carries (map_prod id allow) r r' \<Longrightarrow> carries allow (bnd r (\<lambda>(_, x). Inr x)) (bnd r' (\<lambda>(_, x). Inr x))"
  by (auto simp: carries_def bnd_Inr)

lemma carries_iterator:
  "carries (map_prod id allow) r r' \<Longrightarrow> carries (map_prod id allow) (bnd r (\<lambda>((i, _), x). Inr (i, x))) (bnd r' (\<lambda>((i, _), x). Inr (i, x)))"
  by (auto simp: carries_def bnd_Inr)

lemma carries_db_step: "\<not> is_run_as (Db_call c) \<Longrightarrow> carries allow (db_step c x) (db_step c (allow x))"
proof (cases c)
  case (Next i)
  then show ?thesis using carries_moves(1) [of Keyval i x] by (auto simp: carries_def db_next_i64_def primary_result_def bnd_Inr)
next
  case (Previous i)
  then show ?thesis using carries_moves(2) [of Keyval i x] by (auto simp: carries_def db_previous_i64_def primary_result_def bnd_Inr)
next
  case (Find co s t pk)
  then show ?thesis by (auto simp: db_find_i64_def find_primary_def intro!: carries_first carries_iterator carries_lookup)
next
  case (Lowerbound co s t pk)
  then show ?thesis by (auto simp: db_lowerbound_i64_def lowerbound_primary_def intro!: carries_first carries_iterator carries_lookup)
next
  case (Upperbound co s t pk)
  then show ?thesis by (auto simp: db_upperbound_i64_def upperbound_primary_def intro!: carries_first carries_iterator carries_lookup)
qed (auto simp: allow_updates db_end_i64_def idx_end_secondary_def find_primary_def lowerbound_primary_def upperbound_primary_def
      idx_find_secondary_def idx_lowerbound_secondary_def idx_upperbound_secondary_def
      intro!: carries_first carries_rows carries_moves carries_lookup carries_Inr carries_read)

end
