(* ===== verification/Replay.thy ===== *)
theory Replay
  imports Replay_Db Exec_Termination
begin

text \<open>
  What a producer puts into a block, every other node accepts with the same result. The producer checks more than a node that replays
  the block: its lists of names, the authorizations of what contracts send to themselves, RAM billed in notifications, the time. This theory
  carries the execution of a transaction over from the one to the other.
\<close>

subsection \<open>The two nodes\<close>

text \<open>The replaying node \<open>v\<close> agrees with the producer \<open>n\<close> on the chain; what is its own is the mode, its lists, its clock and which
  checks it skips.\<close>

definition replaying :: "controller \<Rightarrow> controller \<Rightarrow> controller" where
  "replaying v n = n\<lparr>is_producing_block := False, skip_auth_check := skip_auth_check v, skip_trx_checks := skip_trx_checks v,
     allow_ram_billing_in_notify := allow_ram_billing_in_notify v, actor_whitelist := actor_whitelist v, contract_whitelist := contract_whitelist v,
     action_blacklist := action_blacklist v, key_blacklist := key_blacklist v, sender_bypass_whiteblacklist := sender_bypass_whiteblacklist v,
     speculative_reads := speculative_reads v, subjective_cpu_leeway := subjective_cpu_leeway v, clock := clock v\<rparr>"

lemma replaying_simps [simp]:
  "c_auth (replaying v n) = c_auth n" "max_inline_action_size (replaying v n) = max_inline_action_size n"
  "max_inline_action_depth (replaying v n) = max_inline_action_depth n" "base_per_transaction_net_usage (replaying v n) = base_per_transaction_net_usage n"
  "max_transaction_net_usage (replaying v n) = max_transaction_net_usage n" "net_usage_leeway (replaying v n) = net_usage_leeway n"
  "context_free_discount_net_usage_num (replaying v n) = context_free_discount_net_usage_num n"
  "context_free_discount_net_usage_den (replaying v n) = context_free_discount_net_usage_den n"
  "max_transaction_cpu_usage (replaying v n) = max_transaction_cpu_usage n" "min_transaction_cpu_usage (replaying v n) = min_transaction_cpu_usage n"
  "max_transaction_lifetime (replaying v n) = max_transaction_lifetime n" "deferred_trx_expiration_window (replaying v n) = deferred_trx_expiration_window n"
  "pending_block_time (replaying v n) = pending_block_time n" "pending_slot (replaying v n) = pending_slot n" "head_block_num (replaying v n) = head_block_num n"
  "head_reference (replaying v n) = head_reference n" "block_summary (replaying v n) = block_summary n"
  "is_producing_block (replaying v n) = False" "fee_model (replaying v n) = fee_model n" "clock (replaying v n) = clock v" "contract (replaying v n) = contract n" "trx_digest (replaying v n) = trx_digest n"
  "trx_pack (replaying v n) = trx_pack n" "action_digest (replaying v n) = action_digest n" "action_pack_size (replaying v n) = action_pack_size n"
  "key_pack_size (replaying v n) = key_pack_size n" "code_hash (replaying v n) = code_hash n" "wasm_validate (replaying v n) = wasm_validate n"
  by (simp_all add: replaying_def)

text \<open>The fields of a transaction context that hold times, and the switch for the lists, are the node's own.\<close>

definition retime :: "transaction_context \<Rightarrow> transaction_context \<Rightarrow> transaction_context" where
  "retime s t = t\<lparr>tx_start := tx_start s, tx_enforce_whiteblacklist := tx_enforce_whiteblacklist s, tx_deadline := tx_deadline s, tx_leeway := tx_leeway s,
     tx_billed_cpu_time_us := tx_billed_cpu_time_us s, tx_explicit_billed_cpu_time := tx_explicit_billed_cpu_time s, tx_exec_deadline := tx_exec_deadline s,
     tx_deadline_exception_code := tx_deadline_exception_code s, tx_billing_timer_exception_code := tx_billing_timer_exception_code s,
     tx_pseudo_start := tx_pseudo_start s, tx_billed_time := tx_billed_time s, tx_billing_timer_duration_limit := tx_billing_timer_duration_limit s\<rparr>"

lemma retime_simps [simp]: "tx_trx (retime s t) = tx_trx t" "tx_id (retime s t) = tx_id t" "tx_published (retime s t) = tx_published t"
  "tx_executed (retime s t) = tx_executed t" "tx_bill_to_accounts (retime s t) = tx_bill_to_accounts t"
  "tx_validate_ram_usage (retime s t) = tx_validate_ram_usage t" "tx_delay (retime s t) = tx_delay t" "tx_is_input (retime s t) = tx_is_input t"
  "tx_apply_context_free (retime s t) = tx_apply_context_free t" "tx_fee_payer (retime s t) = tx_fee_payer t" "tx_fee_costed (retime s t) = tx_fee_costed t"
  "tx_is_initialized (retime s t) = tx_is_initialized t" "tx_net_limit (retime s t) = tx_net_limit t"
  "tx_net_limit_due_to_block (retime s t) = tx_net_limit_due_to_block t" "tx_net_limit_due_to_greylist (retime s t) = tx_net_limit_due_to_greylist t"
  "tx_eager_net_limit (retime s t) = tx_eager_net_limit t" "tx_net_usage (retime s t) = tx_net_usage t"
  "tx_cpu_limit_due_to_greylist (retime s t) = tx_cpu_limit_due_to_greylist t"
  "tx_initial_objective_duration_limit (retime s t) = tx_initial_objective_duration_limit t"
  "tx_objective_duration_limit (retime s t) = tx_objective_duration_limit t" "tx_cpu_limit_by_contract (retime s t) = tx_cpu_limit_by_contract t"
  "tx_net_limit_by_contract (retime s t) = tx_net_limit_by_contract t" "tx_use_limit_by_contract (retime s t) = tx_use_limit_by_contract t"
  "tx_ticks (retime s t) = tx_ticks t" "tx_chain (retime s t) = tx_chain t"
  "tx_exec_deadline (retime s t) = tx_exec_deadline s" "tx_explicit_billed_cpu_time (retime s t) = tx_explicit_billed_cpu_time s"
  "tx_billed_cpu_time_us (retime s t) = tx_billed_cpu_time_us s" "tx_enforce_whiteblacklist (retime s t) = tx_enforce_whiteblacklist s"
  by (simp_all add: retime_def)

lemma retime_set: "(retime s t)\<lparr>tx_net_usage := u\<rparr> = retime s (t\<lparr>tx_net_usage := u\<rparr>)" "(retime s t)\<lparr>tx_chain := c\<rparr> = retime s (t\<lparr>tx_chain := c\<rparr>)"
  "(retime s t)\<lparr>tx_ticks := k\<rparr> = retime s (t\<lparr>tx_ticks := k\<rparr>)" "(retime s t)\<lparr>tx_executed := rs\<rparr> = retime s (t\<lparr>tx_executed := rs\<rparr>)"
  "(retime s t)\<lparr>tx_validate_ram_usage := l\<rparr> = retime s (t\<lparr>tx_validate_ram_usage := l\<rparr>)" "(retime s t)\<lparr>tx_fee_costed := a\<rparr> = retime s (t\<lparr>tx_fee_costed := a\<rparr>)"
  "(retime s t)\<lparr>tx_cpu_limit_by_contract := u\<rparr> = retime s (t\<lparr>tx_cpu_limit_by_contract := u\<rparr>)"
  "(retime s t)\<lparr>tx_net_limit_by_contract := u\<rparr> = retime s (t\<lparr>tx_net_limit_by_contract := u\<rparr>)"
  "(retime s t)\<lparr>tx_use_limit_by_contract := b\<rparr> = retime s (t\<lparr>tx_use_limit_by_contract := b\<rparr>)"
  by (simp_all add: retime_def)

definition replay_ctx :: "transaction_context \<Rightarrow> exec_context \<Rightarrow> exec_context" where
  "replay_ctx s x = x\<lparr>ax := allow (ax x), ex_trx := retime s (ex_trx x)\<rparr>"

lemma replay_ctx_simps [simp]: "ax (replay_ctx s x) = allow (ax x)" "ex_act (replay_ctx s x) = ex_act x" "ex_context_free (replay_ctx s x) = ex_context_free x"
  "ex_notified (replay_ctx s x) = ex_notified x" "ex_inline_actions (replay_ctx s x) = ex_inline_actions x"
  "ex_cfa_inline_actions (replay_ctx s x) = ex_cfa_inline_actions x" "ex_trx (replay_ctx s x) = retime s (ex_trx x)" "ex_auth (replay_ctx s x) = ex_auth x"
  by (simp_all add: replay_ctx_def ex_auth_def)

lemma replay_ctx_set: "(replay_ctx s x)\<lparr>ax := allow a\<rparr> = replay_ctx s (x\<lparr>ax := a\<rparr>)" "(replay_ctx s x)\<lparr>ex_trx := retime s t\<rparr> = replay_ctx s (x\<lparr>ex_trx := t\<rparr>)"
  "(replay_ctx s x)\<lparr>ex_inline_actions := l\<rparr> = replay_ctx s (x\<lparr>ex_inline_actions := l\<rparr>)"
  "(replay_ctx s x)\<lparr>ex_cfa_inline_actions := l\<rparr> = replay_ctx s (x\<lparr>ex_cfa_inline_actions := l\<rparr>)"
  "(replay_ctx s x)\<lparr>ex_notified := l'\<rparr> = replay_ctx s (x\<lparr>ex_notified := l'\<rparr>)"
  "set_chain f (replay_ctx s x) = replay_ctx s (set_chain f x)" "set_auth d (replay_ctx s x) = replay_ctx s (set_auth d x)"
  by (simp_all add: replay_ctx_def set_chain_def set_auth_def retime_set)

text \<open>A contract cannot see the clock nor how its node treats it.\<close>

primrec blind :: "program \<Rightarrow> bool" where
  "blind Finish \<longleftrightarrow> True"
| "blind Fail \<longleftrightarrow> True"
| "blind (Call c k) \<longleftrightarrow> (\<forall>s x. k (replay_ctx s x) = k x) \<and> (\<forall>x. blind (k x))"

definition replays :: "controller \<Rightarrow> controller \<Rightarrow> transaction_context \<Rightarrow> bool" where
  "replays n v s \<longleftrightarrow> is_producing_block n \<and> \<not> skip_auth_check n \<and> \<not> skip_trx_checks n \<and> (\<forall>k. snd (clock v k) \<le> tx_exec_deadline s)
     \<and> (\<forall>c r a cf. blind (contract n c r a cf))"

subsection \<open>The host functions\<close>

lemma checktime_result: "checktime n t = Inr t' \<Longrightarrow> t' = t\<lparr>tx_ticks := Suc (tx_ticks t)\<rparr>"
  by (auto simp: checktime_def read_clock_def split: prod.splits if_splits)

lemma checktime_passes: "snd (clock n (tx_ticks t)) \<le> tx_exec_deadline t \<Longrightarrow> checktime n t = Inr (t\<lparr>tx_ticks := Suc (tx_ticks t)\<rparr>)"
  by (simp add: checktime_def read_clock_def split_beta)

lemma carries_checktime: "carries (retime s) (checktime n t) (checktime (replaying v n) (retime s t))" if "replays n v s"
proof (rule carriesI)
  fix y assume "checktime n t = Inr y"
  from checktime_result [OF this] show "checktime (replaying v n) (retime s t) = Inr (retime s y)"
    using checktime_passes [of "replaying v n" "retime s t"] that by (simp add: replays_def retime_set)
qed

lemma carries_net: "carries (retime s) (add_net_usage n u t) (add_net_usage (replaying v n) u (retime s t))" if "replays n v s"
  using that by (auto simp: carries_def add_net_usage_def check_net_usage_def Let_def bnd_Inr replays_def retime_set split: if_splits)

lemma carries_on_db: "carries allow (f (ax x)) (f (allow (ax x))) \<Longrightarrow> carries (replay_ctx s) (on_db f x) (on_db f (replay_ctx s x))"
  unfolding on_db_def by (rule carries_bnd [OF carries_lift [where g = allow]]) (auto simp: carries_def replay_ctx_set)

lemma carries_charge: "carries (replay_ctx s) (charge_ram effs x) (charge_ram effs (replay_ctx s x))"
  unfolding charge_ram_def by (rule carries_for_each) (auto intro: carries_on_db carries_ram)

lemma carries_inline: "carries (replay_ctx s) (execute_inline n a x) (execute_inline (replaying v n) a (replay_ctx s x))" if "replays n v s"
proof (rule carriesI)
  fix y assume y: "execute_inline n a x = Inr y"
  let ?c = "\<lambda>sat. check_authorization (c_auth n) (ex_auth x) [a] [] [(receiver (ax x), code_name)] (pending_block_time n - tx_published (ex_trx x)) False sat"
  have "send_to_self_bypass (replaying v n) (act_account a = receiver (ax x)) (?c []) = Inr ()" if "\<not> privileged (ax x)"
  proof (cases "inherited_authorizations n a x = []")
    case True
    then show ?thesis
      using y \<open>replays n v s\<close> that unfolding execute_inline_def
      by (auto simp: chk_Inr bnd_Inr replays_def send_to_self_bypass_def split: sum.splits if_splits)
  next
    case False
    then have "act_account a = receiver (ax x)" by (auto simp: inherited_authorizations_def split: if_splits)
    then show ?thesis by (simp add: send_to_self_bypass_def split: sum.splits)
  qed
  moreover have "inherited_authorizations (replaying v n) a (replay_ctx s x) = []" by (simp add: inherited_authorizations_def)
  ultimately show "execute_inline (replaying v n) a (replay_ctx s x) = Inr (replay_ctx s y)"
    using y unfolding execute_inline_def by (auto simp: chk_Inr bnd_Inr replay_ctx_set)
qed

lemma carries_deferred:
  assumes "replays n v s"
  shows "carries (replay_ctx s) (schedule_deferred_transaction n i payer trx r x) (schedule_deferred_transaction (replaying v n) i payer trx r (replay_ctx s x))"
proof -
  have st: "stamped (replaying v n) = stamped n" by (simp add: stamped_def fun_eq_iff)
  have gt: "generated_transaction (replaying v n) = generated_transaction n" by (simp add: generated_transaction_def fun_eq_iff)
  have val: "carries (\<lambda>u. u) (validate_referenced_accounts n c t b) (validate_referenced_accounts (replaying v n) c t (e \<and> False \<and> f))" for c t b e f
    unfolding validate_referenced_accounts_def by (auto simp: carries_def bnd_Inr chk_Inr)
  have aut: "carries (\<lambda>u. u) (authorize_deferred n payer t z) (authorize_deferred (replaying v n) payer t (replay_ctx s z))" for t z
    using assms unfolding authorize_deferred_def
    by (auto simp: carries_def bnd_Inr replays_def ex_require_authorization_def send_to_self_bypass_def lift_db_def split: sum.splits if_splits)
  have sto: "carries (\<lambda>d. d) (store_generated n r h g d) (store_generated (replaying v n) r h g d)" for h g d
    using assms by (auto simp: carries_def store_generated_def chk_Inr replays_def split: option.splits)
  show ?thesis
    unfolding schedule_deferred_transaction_def Let_def st gt replaying_simps replay_ctx_simps retime_simps allow_simps
    apply (rule carries_chk, assumption)
    apply (rule carries_bnd [OF val])
    apply (rule carries_bnd [OF carries_net [OF assms]])
    apply (simp only: replay_ctx_set replay_ctx_simps)
    apply (rule carries_bnd [OF aut])
    apply (rule carries_bnd [OF sto])
    apply (rule carries_chk, simp)
    apply (rule carries_on_db)
    apply (simp add: carries_ram set_auth_def set_chain_def)
    done
qed

lemma carries_call_host: "carries (replay_ctx s) (call_host n c x) (call_host (replaying v n) c (replay_ctx s x))" if "replays n v s"
proof -
  have "carries (replay_ctx s) (host_function n c x) (host_function (replaying v n) c (replay_ctx s x))" if "\<not> is_run_as c"
  proof (cases c)
    case (Db_call d)
    then show ?thesis using that by (auto intro!: carries_on_db carries_db_step)
  next
    case (Require_auth a)
    then show ?thesis by (auto simp: ex_require_authorization_def carries_def bnd_Inr lift_db_def split: sum.splits)
  next
    case (Require_recipient a)
    then show ?thesis by (auto simp: require_recipient_def carries_def replay_ctx_set)
  next
    case (Send_inline a)
    then show ?thesis by (auto intro!: carries_chk carries_inline \<open>replays n v s\<close>)
  next
    case (Send_deferred i payer trx r)
    then show ?thesis by (simp add: carries_deferred \<open>replays n v s\<close>)
  next
    case (Cancel_deferred i)
    then show ?thesis by (auto simp: cancel_deferred_def Let_def split_beta replay_ctx_set intro!: carries_charge)
  next
    case (Set_limits a l1 l2 l3)
    then show ?thesis
      by (auto simp: set_resource_limits_def insert_validate_ram_def carries_def chk_Inr bnd_Inr Let_def split_beta replay_ctx_set allow_set)
  next
    case (Set_need_check_ram_limit a)
    then show ?thesis by (auto simp: insert_validate_ram_def carries_def replay_ctx_set allow_set)
  next
    case Check_time
    then show ?thesis
      by (simp, intro carries_bnd [OF carries_checktime [OF \<open>replays n v s\<close>]]) (simp add: carries_def replay_ctx_set)
  qed (auto simp: require_permission_def execute_context_free_inline_def set_privileged_def carries_def chk_Inr need_Inr replay_ctx_set)
  then show ?thesis
    unfolding call_host_def by (auto simp: carries_def chk_Inr)
qed

lemma carries_program:
  assumes "replays n v s" "blind p"
  shows "carries (replay_ctx s) (run_program n p x) (run_program (replaying v n) p (replay_ctx s x))"
  using assms(2)
proof (induction p arbitrary: x)
  case (Call c k)
  show ?case
    unfolding run_program.simps
    by (rule carries_bnd [OF carries_call_host [OF assms(1)]]) (use Call in \<open>simp add: carries_def\<close>)
qed (simp_all add: carries_def)

subsection \<open>Actions\<close>

definition no_key_list :: "(public_key \<Rightarrow> bool) \<Rightarrow> native_context \<Rightarrow> native_context" where
  "no_key_list f nc = nc\<lparr>nc_check_keys := False, nc_key_allowed := f\<rparr>"

lemma no_key_list_simps: "nc_authorization (no_key_list f nc) = nc_authorization nc" "nc_time (no_key_list f nc) = nc_time nc"
  "nc_max_delay (no_key_list f nc) = nc_max_delay nc" "nc_pack_size (no_key_list f nc) = nc_pack_size nc" "nc_hash (no_key_list f nc) = nc_hash nc"
  "nc_wasm_valid (no_key_list f nc) = nc_wasm_valid nc"
  by (simp_all add: no_key_list_def)

lemma carries_precondition:
  "carries (\<lambda>u. u) (validate_authority_precondition nc db auth) (validate_authority_precondition (no_key_list f nc) db auth)"
  by (auto simp: validate_authority_precondition_def no_key_list_def carries_def bnd_Inr chk_Inr)

lemma carries_apply_native: "carries (\<lambda>r. r) (apply_native nc d db) (apply_native (no_key_list f nc) d db)"
proof (cases d)
  case (Newaccount creator a ow ac)
  have "carries (\<lambda>r. r) (apply_newaccount nc creator a ow ac db) (apply_newaccount (no_key_list f nc) creator a ow ac db)"
    unfolding apply_newaccount_def Authorization.require_authorization_def Let_def no_key_list_simps
    by (intro carries_chk carries_need carries_bnd [OF carries_precondition] carries_same)
  then show ?thesis by (simp add: apply_native_def Newaccount)
next
  case (Updateauth up)
  have "carries (\<lambda>r. r) (apply_updateauth nc up db) (apply_updateauth (no_key_list f nc) up db)"
    unfolding apply_updateauth_def Authorization.require_authorization_def Let_def no_key_list_simps
    by (intro carries_chk carries_bnd [OF carries_precondition] carries_same)
  then show ?thesis by (simp add: apply_native_def Updateauth)
qed (simp_all add: apply_native_def apply_setcode_def apply_setabi_def apply_deleteauth_def apply_linkauth_def apply_unlinkauth_def apply_canceldelay_def
      Authorization.require_authorization_def no_key_list_simps Let_def carries_same carries_Inl)

lemma carries_open_account: "carries (replay_ctx s) (open_account a x) (open_account a (replay_ctx s x))"
  by (auto simp: open_account_def carries_def bnd_Inr allow_set replay_ctx_set)

lemma carries_setconfig: "carries (replay_ctx s) (apply_setconfig c x) (apply_setconfig c (replay_ctx s x))"
proof -
  have 1: "set_list_config_on_chain c (set_config_on_chain c (replay_ctx s x)) = replay_ctx s (set_list_config_on_chain c (set_config_on_chain c x))"
    by (simp add: set_list_config_on_chain_def set_config_on_chain_def allow_set replay_ctx_set)
  have "carries (replay_ctx s) (set_guaranteed_minimum_config c z) (set_guaranteed_minimum_config c (replay_ctx s z))" for z
    by (auto simp: set_guaranteed_minimum_config_def carries_def bnd_Inr Let_def allow_set replay_ctx_set)
  then show ?thesis unfolding apply_setconfig_def 1 by (auto intro!: carries_chk)
qed

lemma carries_setfee: "carries (replay_ctx s) (apply_setfee f x) (apply_setfee f (replay_ctx s x))"
  by (auto simp: apply_setfee_def ex_require_authorization_def carries_def bnd_Inr chk_Inr replay_ctx_set split: if_splits)

lemma carries_run_native:
  assumes "replays n v s"
  shows "carries (replay_ctx s) (run_native n x) (run_native (replaying v n) (replay_ctx s x))"
proof -
  let ?d = "act_data (ex_act x)"
  have nc: "native_context_of (replaying v n) (replay_ctx s x) = no_key_list (\<lambda>k. k \<notin> set (key_blacklist v)) (native_context_of n x)"
    by (simp add: native_context_of_def no_key_list_def replaying_def)
  have "carries (\<lambda>r. r) (lift_auth (apply_native (native_context_of n x) ?d (ex_auth x)))
      (lift_auth (apply_native (native_context_of (replaying v n) (replay_ctx s x)) ?d (ex_auth x)))"
    using carries_apply_native [of "native_context_of n x" ?d "ex_auth x"] unfolding nc by (auto simp: carries_def lift_auth_def split: sum.splits)
  then have other: "carries (replay_ctx s) (bnd (lift_auth (apply_native (native_context_of n x) ?d (ex_auth x))) (\<lambda>(db, effs).
        bnd (case ?d of Newaccount _ a _ _ \<Rightarrow> open_account a (set_auth db x) | _ \<Rightarrow> Inr (set_auth db x)) (\<lambda>x. charge_ram effs x)))
      (bnd (lift_auth (apply_native (native_context_of (replaying v n) (replay_ctx s x)) ?d (ex_auth x))) (\<lambda>(db, effs).
        bnd (case ?d of Newaccount _ a _ _ \<Rightarrow> open_account a (set_auth db (replay_ctx s x)) | _ \<Rightarrow> Inr (set_auth db (replay_ctx s x))) (\<lambda>x. charge_ram effs x)))"
    by (rule carries_bnd, unfold split_beta replay_ctx_set)
      (rule carries_bnd [where g = "replay_ctx s"], auto intro: carries_charge carries_open_account carries_Inr split: native_data.split)
  show ?thesis
    using other carries_setconfig carries_setfee unfolding run_native_def Let_def replay_ctx_simps by (cases ?d) (auto intro!: carries_chk carries_Inl)
qed

lemma carries_receipt: "carries (map_prod id (replay_ctx s)) (add_receipt n x) (add_receipt (replaying v n) (replay_ctx s x))"
proof -
  have g: "next_global_sequence (replay_ctx s x) = map_prod id (replay_ctx s) (next_global_sequence x)" for x
    by (simp add: next_global_sequence_def Let_def replay_ctx_set)
  have r: "carries (map_prod id (replay_ctx s)) (next_recv_sequence a x) (next_recv_sequence a (replay_ctx s x))" for a x
    by (auto simp: next_recv_sequence_def carries_def need_Inr Let_def replay_ctx_set)
  have l: "carries (map_prod id (replay_ctx s)) (for_each (\<lambda>auth (m, x). bnd (next_auth_sequence (fst auth) x) (\<lambda>(v, x). Inr (tbl_put (fst auth) v m, x))) as p)
      (for_each (\<lambda>auth (m, x). bnd (next_auth_sequence (fst auth) x) (\<lambda>(v, x). Inr (tbl_put (fst auth) v m, x))) as (map_prod id (replay_ctx s) p))" for as p
    by (rule carries_for_each) (auto simp: next_auth_sequence_def carries_def need_Inr bnd_Inr Let_def replay_ctx_set)
  have l0: "carries (map_prod id (replay_ctx s)) (for_each (\<lambda>auth p. bnd (next_auth_sequence (fst auth) (snd p)) (\<lambda>q. Inr (tbl_put (fst auth) (fst q) (fst p), snd q))) as ([], z))
      (for_each (\<lambda>auth p. bnd (next_auth_sequence (fst auth) (snd p)) (\<lambda>q. Inr (tbl_put (fst auth) (fst q) (fst p), snd q))) as ([], replay_ctx s z))" for as z
    using l [of as "([], z)"] unfolding split_beta by simp
  show ?thesis
    unfolding add_receipt_def g Let_def split_beta
    apply (simp only: fst_map_prod snd_map_prod replay_ctx_simps allow_simps id_apply)
    apply (rule carries_bnd [OF r])
    apply (simp only: fst_map_prod snd_map_prod replay_ctx_simps id_apply split_beta)
    apply (rule carries_need)
    apply (rule carries_bnd [OF l0])
    apply (auto simp: carries_def split_beta retime_set replay_ctx_set)
    done
qed

lemma carries_exec_one:
  assumes "replays n v s"
  shows "carries (map_prod id (replay_ctx s)) (exec_one n x) (exec_one (replaying v n) (replay_ctx s x))"
proof -
  have ch: "check_lists (replaying v n) z = Inr ()" for z by (simp add: check_lists_def)
  have fa: "find_apply_handler (replaying v n) = find_apply_handler n" by (simp add: fun_eq_iff find_apply_handler_def native_handlers_def)
  have code: "carries (replay_ctx s) (run_code n z) (run_code (replaying v n) (replay_ctx s z))" for z
    unfolding run_code_def ch replay_ctx_simps allow_simps replaying_simps bnd.simps
    by (rule carries_need, rule carries_if, rule carriesI)
      (use assms carriesD [OF carries_program [OF assms]] in \<open>auto simp: bnd_Inr replays_def carries_Inr\<close>)
  have nat: "carries (replay_ctx s) (apply_native_contract z) (apply_native_contract (replay_ctx s z))" for z
    by (auto simp: apply_native_contract_def carries_def chk_Inr)
  have set: "(replay_ctx s x)\<lparr>ax := (allow (ax x))\<lparr>privileged := b\<rparr>\<rparr> = replay_ctx s (x\<lparr>ax := (ax x)\<lparr>privileged := b\<rparr>\<rparr>)" for b
    by (simp add: allow_set replay_ctx_set)
  have handler: "carries (replay_ctx s) (bnd (check_lists n z) (\<lambda>_. run_native n z)) (bnd (check_lists (replaying v n) (replay_ctx s z)) (\<lambda>_. run_native (replaying v n) (replay_ctx s z)))" for z
    unfolding ch using carriesD [OF carries_run_native [OF assms]] by (auto simp: carries_def bnd_Inr)
  show ?thesis
    unfolding exec_one_def Let_def fa replay_ctx_simps allow_simps set
    apply (rule carries_need)
    apply (rule carries_bnd [where g = "replay_ctx s"])
     apply (rule carries_if)
      apply (rule handler)
     apply (rule carries_Inr, rule refl)
    apply (rule carries_bnd [where g = "replay_ctx s"])
     apply (simp only: replay_ctx_simps)
     apply (intro carries_if nat code)
    apply (rule carries_bnd [OF carries_receipt])
    apply (auto simp: carries_def finalize_trace_def allow_set replay_ctx_set)
    done
qed

lemma carries_exec_notified:
  assumes "replays n v s"
  shows "carries (map_prod id (replay_ctx s)) (exec_notified n fuel i (ts, x)) (exec_notified (replaying v n) fuel i (ts, replay_ctx s x))"
proof (induction fuel arbitrary: i ts x)
  case 0
  then show ?case by (simp add: exec_notified.simps carries_def)
next
  case (Suc f)
  have set: "(replay_ctx s x)\<lparr>ax := (allow (ax x))\<lparr>receiver := b\<rparr>\<rparr> = replay_ctx s (x\<lparr>ax := (ax x)\<lparr>receiver := b\<rparr>\<rparr>)" for b
    by (simp add: allow_set replay_ctx_set)
  show ?case
    unfolding exec_notified.simps [of _ "Suc f"] nat.case replay_ctx_simps set
    apply (rule carries_if)
     apply (rule carries_bnd [OF carries_exec_one [OF assms]])
     apply (simp only: split_beta fst_map_prod snd_map_prod id_apply replay_ctx_simps)
     apply (fold id_def, rule Suc.IH)
    apply (simp add: carries_def)
    done
qed

lemma carries_exec_receivers:
  assumes "replays n v s"
  shows "carries (map_prod id (map_prod id (replay_ctx s))) (exec_receivers n a rcv cf t) (exec_receivers (replaying v n) a rcv cf (retime s t))"
proof -
  have "open_context (replaying v n) a rcv cf (retime s t) = replay_ctx s (open_context n a rcv cf t)"
    by (simp add: open_context_def replay_ctx_def allow_def)
  then show ?thesis
    unfolding exec_receivers_def
    apply (simp only:)
    apply (rule carries_bnd [OF carries_exec_one [OF assms]])
    apply (simp only: split_beta fst_map_prod snd_map_prod id_apply replay_ctx_simps)
    apply (rule carries_bnd [OF carries_exec_notified [OF assms]])
    apply (auto simp: carries_def)
    done
qed

lemma carries_fee: "carries (retime s) (process_fee n a t) (process_fee (replaying v n) a (retime s t))"
proof -
  have "add_limit_by_fee a (retime s t) = retime s (add_limit_by_fee a t)" for t
    by (auto simp: add_limit_by_fee_def Let_def split_beta retime_set split: option.splits)
  then show ?thesis by (auto simp: process_fee_def carries_def bnd_Inr retime_set)
qed

lemma carries_exec_action:
  assumes "replays n v s"
  shows "carries (map_prod id (retime s)) (exec_action n depth cf a rcv t) (exec_action (replaying v n) depth cf a rcv (retime s t))"
proof (induction "max_inline_action_depth n - depth" arbitrary: depth cf a rcv t rule: less_induct)
  case less
  have loop: "carries (map_prod id (retime s)) (for_each (\<lambda>b (ts, t). bnd (process_fee n b t) (\<lambda>t.
      bnd (exec_action n (Suc depth) c b (act_account b) t) (\<lambda>(tr, t). Inr (ts @ [tr], t)))) bs st)
     (for_each (\<lambda>b (ts, t). bnd (process_fee (replaying v n) b t) (\<lambda>t.
      bnd (exec_action (replaying v n) (Suc depth) c b (act_account b) t) (\<lambda>(tr, t). Inr (ts @ [tr], t)))) bs (map_prod id (retime s) st))"
    if "bs \<noteq> [] \<longrightarrow> depth < max_inline_action_depth n" for bs c st
  proof (cases "bs = []")
    case False
    then have "max_inline_action_depth n - Suc depth < max_inline_action_depth n - depth" using that by simp
    note ih = less [OF this]
    show ?thesis
      apply (rule carries_for_each)
      apply (simp only: split_beta fst_map_prod snd_map_prod id_apply)
      apply (rule carries_bnd [OF carries_fee])
      apply (rule carries_bnd [OF ih])
      apply (auto simp: carries_def)
      done
  qed (simp add: carries_def)
  have cl: "close_context (replay_ctx s x) = retime s (close_context x)" for x
    by (simp add: close_context_def retime_set)
  show ?case
    unfolding exec_action.simps [of _ depth]
    apply (rule carries_bnd [OF carries_exec_receivers [OF assms]])
    apply (simp only: split_beta fst_map_prod snd_map_prod id_apply replay_ctx_simps replaying_simps cl)
    apply (rule carries_chk, assumption)
    apply (rule carries_bnd [where g = "map_prod id (retime s)"])
     apply (use loop in \<open>force simp: split_beta\<close>)
    apply (simp only: split_beta fst_map_prod snd_map_prod id_apply)
    apply (rule carries_bnd [where g = "map_prod id (retime s)"])
     apply (use loop in \<open>force simp: split_beta\<close>)
    apply (auto simp: carries_def)
    done
qed

end
