(* ===== verification/Replay_Transaction.thy ===== *)
theory Replay_Transaction
  imports Replay Block_Ram
begin

text \<open>
  Whole transactions, from the limits they start under to the billing of the accounts: a transaction that a producer has put into a block
  is accepted by every node that replays the block, which arrives at the same state with the same receipts.
\<close>

subsection \<open>Execution\<close>

lemma carries_dispatch:
  assumes "replays n v s"
  shows "carries (map_prod id (retime s)) (dispatch_action n cf a st) (dispatch_action (replaying v n) cf a (map_prod id (retime s) st))"
  unfolding dispatch_action_def split_beta
  by (rule carries_bnd [where g = "map_prod id (retime s)"], simp only: snd_map_prod, rule carries_exec_action [OF assms]) (simp add: carries_def)

lemma carries_dispatch_fee:
  assumes "replays n v s"
  shows "carries (map_prod id (retime s)) (dispatch_fee_action n st) (dispatch_fee_action (replaying v n) (map_prod id (retime s) st))"
  using carries_dispatch [OF assms] by (auto simp: dispatch_fee_action_def fee_action_def carries_def)

lemma carries_exec_actions:
  assumes "replays n v s"
  shows "carries (map_prod id (retime s)) (exec_actions n cf as st) (exec_actions (replaying v n) cf as (map_prod id (retime s) st))"
  unfolding exec_actions_def
proof (rule carries_for_each, unfold split_beta)
  fix a st
  show "carries (map_prod id (retime s)) (bnd (process_fee n a (snd st)) (\<lambda>t. dispatch_action n cf a (fst st, t)))
    (bnd (process_fee (replaying v n) a (snd (map_prod id (retime s) st))) (\<lambda>t. dispatch_action (replaying v n) cf a (fst (map_prod id (retime s) st), t)))"
    unfolding fst_map_prod snd_map_prod
    by (rule carries_bnd [OF carries_fee]) (use carries_dispatch [OF assms] in force)
qed

lemma carries_schedule:
  assumes "replays n v s"
  shows "carries (retime s) (schedule_transaction n t) (schedule_transaction (replaying v n) (retime s t))"
proof -
  have gt: "generated_transaction (replaying v n) = generated_transaction n" by (simp add: generated_transaction_def fun_eq_iff)
  have ch: "carries (retime s) (trx_charge_ram a d t) (trx_charge_ram a d (retime s t))" for a d t
    by (auto simp: trx_charge_ram_def carries_def bnd_Inr retime_set)
  show ?thesis
    unfolding schedule_transaction_def Let_def gt replaying_simps retime_simps
    apply (rule carries_bnd [where g = "retime s"])
     apply (rule carries_if, rule carries_net [OF assms], rule carries_Inr, rule refl)
    apply (simp only: retime_simps retime_set)
    apply (rule carries_bnd [OF carries_same])
    apply (rule ch)
    done
qed

lemma carries_exec_trx:
  assumes "replays n v s"
  shows "carries (map_prod id (retime s)) (exec_trx n t) (exec_trx (replaying v n) (retime s t))"
  unfolding exec_trx_def retime_simps replaying_simps
  apply (rule carries_chk, assumption)
  apply (rule carries_bnd [where g = "map_prod id (retime s)"])
   apply (rule carries_if)
    apply (use carries_exec_actions [OF assms, of _ _ "([], t)"] in simp)
   apply (simp add: carries_def)
  apply (simp only: split_beta fst_map_prod snd_map_prod id_apply retime_simps)
  apply (rule carries_bnd [where g = "map_prod id (retime s)"])
   apply (rule carries_if)
    apply (use carries_exec_actions [OF assms] in force)
   apply (rule carries_bnd [OF carries_schedule [OF assms]])
   apply (simp add: carries_def)
  apply (rule carries_if)
   apply (rule carries_dispatch_fee [OF assms])
  apply (simp add: carries_def)
  done

lemma carries_fee_data: "carries (retime s) (set_fee_data t) (set_fee_data (retime s t))"
  by (auto simp: set_fee_data_def carries_def chk_Inr retime_def split: list.splits)

subsection \<open>The limits at the start\<close>

definition same_core :: "transaction_context \<Rightarrow> transaction_context \<Rightarrow> bool" where
  "same_core t t' \<longleftrightarrow> t' = retime t' t"

text \<open>The replaying node bills what the block says and has no deadline before \<open>d\<close>.\<close>

definition replay_of :: "int \<Rightarrow> int \<Rightarrow> transaction_context \<Rightarrow> transaction_context \<Rightarrow> bool" where
  "replay_of d b t t' \<longleftrightarrow> same_core t t' \<and> tx_explicit_billed_cpu_time t' \<and> tx_deadline t' = d \<and> tx_billed_cpu_time_us t' = b"

lemma let_both: "P e e' \<Longrightarrow> (\<And>x x'. P x x' \<Longrightarrow> Q (f x) (f' x')) \<Longrightarrow> Q (let x = e in f x) (let x = e' in f' x)"
  by simp

lemma let_one: "Q (f e) (f' e) \<Longrightarrow> Q (let x = e in f x) (let x = e in f' x)"
  by simp

lemma same_coreD:
  assumes "same_core t t'"
  shows "tx_trx t' = tx_trx t" "tx_id t' = tx_id t" "tx_published t' = tx_published t" "tx_executed t' = tx_executed t" "tx_bill_to_accounts t' = tx_bill_to_accounts t"
    "tx_validate_ram_usage t' = tx_validate_ram_usage t" "tx_delay t' = tx_delay t" "tx_is_input t' = tx_is_input t"
    "tx_is_initialized t' = tx_is_initialized t" "tx_net_limit t' = tx_net_limit t" "tx_net_limit_due_to_block t' = tx_net_limit_due_to_block t"
    "tx_net_limit_due_to_greylist t' = tx_net_limit_due_to_greylist t" "tx_eager_net_limit t' = tx_eager_net_limit t" "tx_net_usage t' = tx_net_usage t"
    "tx_cpu_limit_due_to_greylist t' = tx_cpu_limit_due_to_greylist t" "tx_objective_duration_limit t' = tx_objective_duration_limit t"
    "tx_cpu_limit_by_contract t' = tx_cpu_limit_by_contract t" "tx_net_limit_by_contract t' = tx_net_limit_by_contract t"
    "tx_use_limit_by_contract t' = tx_use_limit_by_contract t" "tx_ticks t' = tx_ticks t" "tx_chain t' = tx_chain t"
  using assms unfolding same_core_def by (metis retime_simps)+

lemma same_core_retime: "same_core t (retime s t)"
  by (simp add: same_core_def retime_def)

lemma same_core_set:
  assumes "same_core t t'"
  shows "same_core (t\<lparr>tx_net_limit := a0\<rparr>) (t'\<lparr>tx_net_limit := a0\<rparr>)" "same_core (t\<lparr>tx_net_limit_due_to_block := a1\<rparr>) (t'\<lparr>tx_net_limit_due_to_block := a1\<rparr>)"
    "same_core (t\<lparr>tx_objective_duration_limit := a2\<rparr>) (t'\<lparr>tx_objective_duration_limit := a2\<rparr>)" "same_core (t\<lparr>tx_initial_objective_duration_limit := a3\<rparr>) (t'\<lparr>tx_initial_objective_duration_limit := a3\<rparr>)"
    "same_core (t\<lparr>tx_eager_net_limit := a4\<rparr>) (t'\<lparr>tx_eager_net_limit := a4\<rparr>)" "same_core (t\<lparr>tx_bill_to_accounts := a5\<rparr>) (t'\<lparr>tx_bill_to_accounts := a5\<rparr>)"
    "same_core (t\<lparr>tx_chain := a6\<rparr>) (t'\<lparr>tx_chain := a6\<rparr>)" "same_core (t\<lparr>tx_net_limit_due_to_greylist := a7\<rparr>) (t'\<lparr>tx_net_limit_due_to_greylist := a7\<rparr>)"
    "same_core (t\<lparr>tx_cpu_limit_due_to_greylist := a8\<rparr>) (t'\<lparr>tx_cpu_limit_due_to_greylist := a8\<rparr>)" "same_core (t\<lparr>tx_net_usage := a9\<rparr>) (t'\<lparr>tx_net_usage := a9\<rparr>)"
    "same_core (t\<lparr>tx_is_initialized := a10\<rparr>) (t'\<lparr>tx_is_initialized := a10\<rparr>)" "same_core (t\<lparr>tx_published := a11\<rparr>) (t'\<lparr>tx_published := a11\<rparr>)"
    "same_core (t\<lparr>tx_is_input := a12\<rparr>) (t'\<lparr>tx_is_input := a12\<rparr>)" "same_core (t\<lparr>tx_ticks := a13\<rparr>) (t'\<lparr>tx_ticks := a13\<rparr>)"
    "same_core (t\<lparr>tx_delay := a14\<rparr>) (t'\<lparr>tx_delay := a14\<rparr>)" "same_core (t\<lparr>tx_apply_context_free := a15\<rparr>) (t'\<lparr>tx_apply_context_free := a15\<rparr>)"
    "same_core (t\<lparr>tx_exec_deadline := b0\<rparr>) t'" "same_core (t\<lparr>tx_billing_timer_exception_code := b1\<rparr>) t'"
    "same_core (t\<lparr>tx_billing_timer_duration_limit := b2\<rparr>) t'" "same_core (t\<lparr>tx_deadline_exception_code := b3\<rparr>) t'"
    "same_core (t\<lparr>tx_leeway := b4\<rparr>) t'" "same_core (t\<lparr>tx_deadline := b5\<rparr>) t'"
    "same_core (t\<lparr>tx_explicit_billed_cpu_time := b6\<rparr>) t'" "same_core (t\<lparr>tx_billed_cpu_time_us := b7\<rparr>) t'"
    "same_core (t\<lparr>tx_enforce_whiteblacklist := b8\<rparr>) t'" "same_core t (t'\<lparr>tx_exec_deadline := c0\<rparr>)"
    "same_core t (t'\<lparr>tx_billing_timer_exception_code := c1\<rparr>)" "same_core t (t'\<lparr>tx_billing_timer_duration_limit := c2\<rparr>)"
    "same_core t (t'\<lparr>tx_deadline_exception_code := c3\<rparr>)" "same_core t (t'\<lparr>tx_leeway := c4\<rparr>)"
    "same_core t (t'\<lparr>tx_deadline := c5\<rparr>)" "same_core t (t'\<lparr>tx_explicit_billed_cpu_time := c6\<rparr>)"
    "same_core t (t'\<lparr>tx_billed_cpu_time_us := c7\<rparr>)" "same_core t (t'\<lparr>tx_enforce_whiteblacklist := c8\<rparr>)"
  using assms by (cases t, cases t', simp add: same_core_def retime_def)+

lemma same_core_lower_net: "same_core t t' \<Longrightarrow> same_core (lower_net_limit l t) (lower_net_limit l t')"
  unfolding lower_net_limit_def by (auto simp: same_coreD intro!: same_core_set)

lemma same_core_lower_cpu: "same_core t t' \<Longrightarrow> same_core (lower_cpu_limit l t) (lower_cpu_limit l t')"
  unfolding lower_cpu_limit_def by (auto simp: same_coreD intro!: same_core_set)

lemma same_core_objective: "same_core t t' \<Longrightarrow> same_core (objective_limits n t) (objective_limits (replaying v n) t')"
  unfolding objective_limits_def replaying_simps
  apply (rule let_both [where P = "\<lambda>a b. a = b"], simp add: same_coreD)
  apply (rule let_both [where P = same_core], simp, intro same_core_set, assumption)
  apply (rule let_both [where P = same_core], erule same_core_lower_net)
  apply (rule let_both [where P = same_core], erule same_core_lower_cpu)
  apply (rule let_both [where P = "\<lambda>a b. a = b"], simp add: same_coreD)
  apply (rule let_both [where P = same_core], simp add: same_core_lower_net)
  apply (rule let_both [where P = "\<lambda>a b. a = b"], simp add: same_coreD)
  apply (rule let_both [where P = same_core], simp add: same_core_lower_cpu)
  apply (simp add: same_coreD same_core_set)
  done

definition own_of :: "transaction_context \<Rightarrow> int \<times> bool \<times> int \<times> nat \<times> bool" where
  "own_of t = (tx_deadline t, tx_explicit_billed_cpu_time t, tx_billed_cpu_time_us t, tx_ticks t, tx_is_initialized t)"

lemma lower_limits_own: "own_of (lower_net_limit l t) = own_of t" "own_of (lower_cpu_limit l t) = own_of t"
  by (simp_all add: own_of_def lower_net_limit_def lower_cpu_limit_def)

lemma objective_limits_own: "own_of (objective_limits n t) = own_of t"
  unfolding objective_limits_def Let_def by (simp add: own_of_def [of "tx_initial_objective_duration_limit_update f x" for f x]) (simp add: own_of_def [symmetric] lower_limits_own, simp add: own_of_def)

lemma same_core_eager: "same_core t t' \<Longrightarrow> same_core (eager_limits n a b t) (eager_limits (replaying v n) a b t')"
  unfolding eager_limits_def replaying_simps
  apply (rule let_both [where P = same_core], simp add: same_coreD same_core_set)
  apply (rule let_both [where P = "\<lambda>a b. a = b"], simp add: same_coreD)
  apply (rule let_both [where P = same_core], simp add: same_coreD same_core_set)
  apply (rule let_both [where P = same_core], simp add: same_core_set)
  apply (rule let_both [where P = same_core], simp add: same_core_set)
  apply (rule let_both [where P = same_core], simp add: same_core_set)
  apply (simp add: same_coreD same_core_set)
  done

lemma eager_limits_own:
  assumes "tx_explicit_billed_cpu_time t"
  shows "tx_explicit_billed_cpu_time (eager_limits n a b t)" "tx_deadline (eager_limits n a b t) = tx_deadline t"
    "tx_billed_cpu_time_us (eager_limits n a b t) = tx_billed_cpu_time_us t" "tx_exec_deadline (eager_limits n a b t) = tx_deadline t"
  using assms by (simp_all add: eager_limits_def Let_def)

lemma can_pay_same:
  assumes "same_core t t'" "resource_greylist (conf_lists (tx_chain t)) = []"
  shows "max_bandwidth_billed_accounts_can_pay (replaying v n) b t' = max_bandwidth_billed_accounts_can_pay n b t"
proof -
  have "account_can_pay (replaying v n) (tx_chain t) b = account_can_pay n (tx_chain t) b"
    using assms(2) by (simp add: fun_eq_iff account_can_pay_def)
  then show ?thesis using same_coreD(5,21) [OF assms(1)] by (simp add: max_bandwidth_billed_accounts_can_pay_def)
qed

end
