(* ===== verification/Spec2Isabelle.thy ===== *)
theory Spec2Isabelle
  imports Merkle Contract_Tables Fork_Database Msig System_Contract Exec_Safety Block_Receipts Replay_Transaction
begin

text \<open>
  A verification development for FORCEIO, an EOSIO node with its system contracts.

  \<^bold>\<open>The program.\<close> A node keeps a chain of blocks. The controller (\<open>libraries/chain/controller.cpp\<close>) pushes transactions into a pending block.
  A transaction context (\<open>transaction_context.cpp\<close>) fixes the limits of a transaction, has its actions executed, and bills the accounts; an
  apply context (\<open>apply_context.cpp\<close>) executes one action with its notifications and inline actions, either by a native handler
  (\<open>eosio_contract.cpp\<close>) or by the code of a contract. Both use the authorization manager (\<open>authorization_manager.cpp\<close>), the
  resource limits (\<open>resource_limits.cpp\<close>), the fees (\<open>txfee_manager.cpp\<close>), and the tables of the contracts. The header of a block advances the header state
  (\<open>block_header_state.cpp\<close>), which decides who produces and what is irreversible; the fork database (\<open>fork_database.cpp\<close>) keeps the
  competing branches. The contracts under \<open>contracts/\<close> hold the tokens (\<open>force.token\<close>), stakes, votes, producers and rewards
  (\<open>force.system\<close>) and proposals (\<open>force.msig\<close>).

  \<^bold>\<open>Style.\<close> The model is a shallow embedding. Structures are records, enumerations datatypes, and each function or handler is one definition, or a few
  when it has several stages. A function that can throw returns a value of a sum type whose left side is the exception. State is passed and returned; a transaction that
  throws returns the state before it. Integers have the conversion to their C++ type written out (\<open>u32\<close>, \<open>u64\<close>, \<open>s64\<close> and so on), or are words where the code
  works on bits. Everything in the code that a statement evaluates is executable.

  \<^bold>\<open>Shared theories.\<close>
  \<^item> \<open>Prelude\<close>: exceptions, loops, machine integers, and the locale \<open>action_system\<close> for invariants of sequences of operations that are undone when they fail.
  \<^item> \<open>Multi_Index\<close>: tables ordered by key, as contracts and node use them. The locale \<open>kv_table\<close> is their interface, interpreted on the lists of rows.
  \<^item> \<open>Names\<close>, \<open>Asset\<close>: 64-bit names and their text (\<open>types.hpp\<close>, \<open>name.cpp\<close>), symbols and assets with checked 64-bit arithmetic (\<open>symbol.hpp\<close>, \<open>asset.hpp\<close>).
    Printing and parsing are inverse to each other, and an operator of \<open>asset\<close> returns the exact result or aborts.
  \<^item> \<open>Contract\<close>: what an action of a contract sees of the node and asks of it.
  \<^item> \<open>Binary64\<close>: the double-precision product and quotient in \<open>reward_bps\<close>, bit by bit.

  \<^bold>\<open>Consensus.\<close>
  \<^item> \<open>Merkle\<close> (\<open>merkle.cpp\<close>, \<open>incremental_merkle.hpp\<close>): the incremental tree computes the Merkle root of everything appended.
  \<^item> \<open>Block_Header_State\<close>, \<open>Dpos\<close> (\<open>block_header_state.cpp\<close>, \<open>producer_schedule.hpp\<close>, \<open>block_timestamp.hpp\<close>): every operation of the header state; the counters of
    the code stand for sets of confirming producers, a block is proposed irreversible only with the confirmations it needs, irreversibility does not go back, and a schedule
    becomes active only after its announcement is irreversible.
  \<^item> \<open>Fork_Database\<close> (\<open>fork_database.cpp\<close>, \<open>block_state.cpp\<close>): an inductive reachability relation, its invariant, the best head, removal of descendants,
    and the branches to a common ancestor.

  \<^bold>\<open>Accounts and resources.\<close>
  \<^item> \<open>Resource_Limits\<close> (\<open>resource_limits.cpp\<close>): usage accumulators, elastic limits, weights with pending updates, RAM; totals are sums over the accounts,
    and the end of a block cannot fail.
  \<^item> \<open>Authority\<close>, \<open>Authorization\<close> (\<open>authority_checker.hpp\<close>, \<open>authorization_manager.cpp\<close>, \<open>eosio_contract.cpp\<close>): the checker against an inductive definition of satisfaction, the
    forest of permissions under all native actions, and what a successful \<open>check_authorization\<close> means.
  \<^item> \<open>Contract_Db\<close>, \<open>Db_Invariant\<close>, \<open>Contract_Tables\<close> (\<open>apply_context.hpp\<close>, \<open>apply_context.cpp\<close>): the database calls with their iterator caches and RAM charges refine
    the key-ordered tables on which the contracts are modelled.

  \<^bold>\<open>Contracts.\<close>
  \<^item> \<open>Token\<close> (\<open>force.token.cpp\<close>): every action; the supply is conserved, and nobody spends without authorization.
  \<^item> \<open>System_State\<close>, \<open>System_Voting\<close>, \<open>System_Producer\<close>, \<open>System_Election\<close>, \<open>System_Rewards\<close>, \<open>System_Contract\<close> (\<open>force.system\<close>): every action on stakes, votes, producers,
    rewards and punishments. Stakes are covered by tokens, the election takes the best producers, and rewards are divided by age.
  \<^item> \<open>Msig\<close> (\<open>force.msig.cpp\<close>): what is executed has been proposed and approved.

  \<^bold>\<open>Transactions.\<close>
  \<^item> \<open>Action_Exec\<close>, \<open>Transaction_Context\<close>, \<open>Push_Transaction\<close>: the execution of actions and the life of input and generated transactions. \<open>exec_context\<close> is
    \<open>apply_context\<close>, \<open>transaction_context\<close> the class of that name, \<open>chain_state\<close> the chain database, and \<open>controller\<close> the configuration of the node and its parameters.
    A contract is an arbitrary program over the host functions, so the theorems hold for all contracts.
  \<^item> \<open>Exec_Invariant\<close>: the locale \<open>exec_invariant\<close>, which lifts what each host function, native action and piece of bookkeeping keeps to whole executions. It is interpreted
    for the fields that an execution leaves alone, for RAM, and for receipts.
  \<^item> \<open>Exec_Ram\<close>, \<open>Block_Ram\<close>: over all transactions of a block, the RAM usage of an account changes by exactly the bytes of the objects it pays for.
  \<^item> \<open>Exec_Safety\<close>: unprivileged code can only send what the permissions of the accounts allow; the sorted walks over the lists of names are correct.
  \<^item> \<open>Exec_Termination\<close>: no transaction runs out of fuel.
  \<^item> \<open>Block_Receipts\<close>: the receipts of a block are numbered without gaps, per chain and per account.
  \<^item> \<open>Replay_Db\<close>, \<open>Replay\<close>, \<open>Replay_Transaction\<close>: a relation between the run of a producer and the run of a node that replays the block with other switches,
    lists and clock. It carries over every host function, every action and the whole execution of a transaction.

  \<^bold>\<open>Bounds and fuel.\<close> The loop over the notified accounts has the number of accounts as fuel; \<open>Exec_Termination\<close> proves that this is enough. Inline actions recurse by
  depth up to \<open>max_inline_action_depth\<close>. A contract is a program without infinite branches, because the deadline ends every execution. The walks of the permission tree and of the
  fork database have the number of rows as fuel, and that they end is part of the statements about them; where a loop of the code can go on for ever the
  model has an error of its own for it.

  \<^bold>\<open>Parameters.\<close> Hashes, packing, signature recovery, the validity of code, and the clock are parameters of \<open>controller\<close> and \<open>crypto\<close>. A statement that needs
  something of them says so in a hypothesis, for example that packed sizes are below \<open>2 ^ 32\<close>.

  \<^bold>\<open>Differences from the code.\<close> The deadline is checked where a contract calls a host function, and not inside \<open>check_authorization\<close>. The lists of names in the memory of
  the node are restored with a failed transaction in the model, and kept in the code. The memory that \<open>unfreeze\<close> reads behind a copied row is a parameter.
  Messages printed for debugging are left out.

  \<^bold>\<open>Not modelled.\<close> The life of a block in the controller (\<open>start_block\<close>, \<open>apply_block\<close>, \<open>push_block\<close>, switching forks), which composes the modelled parts with sessions of
  the chain database; the validation of chain parameters; serialisation, block log, snapshots and ABI; the interpreters of the code of contracts, and host functions that only read; the two
  secondary indices with floating-point keys; the rows written at genesis; \<open>delegate_bandwidth.cpp\<close> and \<open>native.cpp\<close>, which belong to another resource model;
  the contracts \<open>force.relay\<close>, \<open>relay.token\<close>, \<open>sys.bridge\<close> and \<open>sys.match\<close>; plugins, wallet and programs, which are input and output around the library.
\<close>

end
